(* ===== verification/Sqlite_Prelude.thy ===== *)
theory Sqlite_Prelude
  imports Main "HOL-Library.Word" "HOL-Library.Monad_Syntax"
begin

unbundle bit_operations_syntax

text \<open>
  Shared vocabulary of the development: the machine integer types of \<^verbatim>\<open>sqliteInt.h\<close>,
  the result codes of \<^verbatim>\<open>sqlite3.h\<close>, checked access to buffers, and the generic lemmas
  (bit extensionality for words of a fixed width, buffers, options) that the component
  theories use.
\<close>

section \<open>Types and result codes\<close>

type_synonym u8 = "8 word"
type_synonym u16 = "16 word"
type_synonym u32 = "32 word"
type_synonym u64 = "64 word"

text \<open>A result code is the integer the C code returns; only the codes in use are named.\<close>

type_synonym rc = nat

abbreviation (input) SQLITE_OK :: rc where "SQLITE_OK \<equiv> 0"
abbreviation (input) SQLITE_ERROR :: rc where "SQLITE_ERROR \<equiv> 1"
abbreviation (input) SQLITE_BUSY :: rc where "SQLITE_BUSY \<equiv> 5"
abbreviation (input) SQLITE_NOMEM :: rc where "SQLITE_NOMEM \<equiv> 7"
abbreviation (input) SQLITE_IOERR :: rc where "SQLITE_IOERR \<equiv> 10"
abbreviation (input) SQLITE_CORRUPT :: rc where "SQLITE_CORRUPT \<equiv> 11"
abbreviation (input) SQLITE_MISUSE :: rc where "SQLITE_MISUSE \<equiv> 21"

section \<open>Collections of rewrite rules\<close>

named_theorems bit_blast \<open>rules that evaluate a bit of a word expression at a numeral index\<close>
named_theorems buf_simps \<open>rules for checked buffer access\<close>

section \<open>Buffers\<close>

text \<open>
  A C buffer is the list of the bytes (or elements) from the pointer on to the end of its
  allocation. A read or a write outside it is \<^const>\<open>None\<close>: the model never invents a value
  for it, and a theorem that an operation returns \<^const>\<open>Some\<close> is memory safety.
\<close>

definition rd :: "'a list \<Rightarrow> nat \<Rightarrow> 'a option" where
  "rd p i = (if i < length p then Some (p ! i) else None)"

definition wr :: "'a list \<Rightarrow> nat \<Rightarrow> 'a \<Rightarrow> 'a list option" where
  "wr p i x = (if i < length p then Some (p[i := x]) else None)"

lemma rd_Some [buf_simps]: "i < length p \<Longrightarrow> rd p i = Some (p ! i)"
  by (simp add: rd_def)

lemma rd_None [buf_simps]: "length p \<le> i \<Longrightarrow> rd p i = None"
  by (simp add: rd_def)

lemma rd_eq_Some_iff: "rd p i = Some x \<longleftrightarrow> i < length p \<and> p ! i = x"
  by (auto simp: rd_def)

lemma wr_Some [buf_simps]: "i < length p \<Longrightarrow> wr p i x = Some (p[i := x])"
  by (simp add: wr_def)

lemma wr_eq_Some_iff: "wr p i x = Some q \<longleftrightarrow> i < length p \<and> q = p[i := x]"
  by (auto simp: wr_def)

lemma rd_append_left [buf_simps]: "i < length xs \<Longrightarrow> rd (xs @ ys) i = Some (xs ! i)"
  by (simp add: rd_def nth_append)

text \<open>Reading at the front of what is left of a buffer, and writing behind the read position.\<close>

lemma rd_via_drop: "drop i z = a # r \<Longrightarrow> rd z i = Some a"
  by (metis drop_all list.discI not_less nth_via_drop rd_Some)

lemma drop_Suc_via: "drop i z = a # r \<Longrightarrow> drop (Suc i) z = r"
  by (metis drop_Suc list.sel(3) tl_drop)

lemma drop_length_via: "drop i z = a # r \<Longrightarrow> i < length z"
  by (metis drop_all list.discI not_less)

lemma take_Suc_update: "j < length z \<Longrightarrow> take (Suc j) (z[j := v]) = take j z @ [v]"
  by (simp add: take_Suc_conv_app_nth)

text \<open>Overwriting a prefix of a buffer: what a serialiser leaves behind.\<close>

definition overlay :: "'a list \<Rightarrow> 'a list \<Rightarrow> 'a list" where
  "overlay bs p = bs @ drop (length bs) p"

lemma length_overlay [simp]: "length bs \<le> length p \<Longrightarrow> length (overlay bs p) = length p"
  by (simp add: overlay_def)

lemma rd_overlay [buf_simps]: "i < length bs \<Longrightarrow> rd (overlay bs p) i = Some (bs ! i)"
  by (simp add: overlay_def rd_append_left)

section \<open>Words\<close>

text \<open>
  Two words of a fixed width are equal when their bits agree at every index. With the
  indices as numerals the simplifier evaluates each bit, so an equation between two bit
  expressions becomes one call of \<open>simp\<close>.
\<close>

lemma bit_u8_ge [bit_blast]: "8 \<le> n \<Longrightarrow> bit (w :: u8) n = False"
  using bit_imp_le_length [of w n] by auto

lemma bit_u16_ge [bit_blast]: "16 \<le> n \<Longrightarrow> bit (w :: u16) n = False"
  using bit_imp_le_length [of w n] by auto

lemma bit_u32_ge [bit_blast]: "32 \<le> n \<Longrightarrow> bit (w :: u32) n = False"
  using bit_imp_le_length [of w n] by auto

lemma bit_u64_ge [bit_blast]: "64 \<le> n \<Longrightarrow> bit (w :: u64) n = False"
  using bit_imp_le_length [of w n] by auto

lemma u64_eqI:
  assumes "\<forall>n \<in> set [0, 1, 2, 3, 4, 5, 6, 7, 8, 9, 10, 11, 12, 13, 14, 15, 16, 17, 18, 19, 20, 21,
    22, 23, 24, 25, 26, 27, 28, 29, 30, 31, 32, 33, 34, 35, 36, 37, 38, 39, 40, 41,
    42, 43, 44, 45, 46, 47, 48, 49, 50, 51, 52, 53, 54, 55, 56, 57, 58, 59, 60, 61,
    62, 63]. bit (x :: u64) n = bit y n"
  shows "x = y"
proof (rule bit_word_eqI)
  fix n assume "n < LENGTH(64)"
  then have "n < 64" by simp
  then have "n \<in> set [0, 1, 2, 3, 4, 5, 6, 7, 8, 9, 10, 11, 12, 13, 14, 15, 16, 17, 18, 19, 20, 21,
    22, 23, 24, 25, 26, 27, 28, 29, 30, 31, 32, 33, 34, 35, 36, 37, 38, 39, 40, 41,
    42, 43, 44, 45, 46, 47, 48, 49, 50, 51, 52, 53, 54, 55, 56, 57, 58, 59, 60, 61,
    62, 63]" by (simp, arith)
  with assms show "bit x n = bit y n" by blast
qed

lemma u32_eqI:
  assumes "\<forall>n \<in> set [0, 1, 2, 3, 4, 5, 6, 7, 8, 9, 10, 11, 12, 13, 14, 15, 16, 17, 18, 19, 20, 21, 22, 23, 24, 25, 26, 27, 28, 29, 30, 31]. bit (x :: u32) n = bit y n"
  shows "x = y"
proof (rule bit_word_eqI)
  fix n assume "n < LENGTH(32)"
  then have "n < 32" by simp
  then have "n \<in> set [0, 1, 2, 3, 4, 5, 6, 7, 8, 9, 10, 11, 12, 13, 14, 15, 16, 17, 18, 19, 20, 21, 22, 23, 24, 25, 26, 27, 28, 29, 30, 31]" by (simp, arith)
  with assms show "bit x n = bit y n" by blast
qed

lemma u8_eqI:
  assumes "\<forall>n \<in> set [0, 1, 2, 3, 4, 5, 6, 7]. bit (x :: u8) n = bit y n"
  shows "x = y"
proof (rule bit_word_eqI)
  fix n assume "n < LENGTH(8)"
  then have "n < 8" by simp
  then have "n \<in> set [0, 1, 2, 3, 4, 5, 6, 7]" by (simp, arith)
  with assms show "bit x n = bit y n" by blast
qed

text \<open>Testing a single bit with a mask, the form the C code uses.\<close>

lemma and_0x80_eq_0 [simp]:
  fixes w :: "'a::len word"
  shows "w AND 0x80 = 0 \<longleftrightarrow> \<not> bit w 7"
proof -
  have "w AND 0x80 = w AND push_bit 7 1" by (simp add: push_bit_eq_mult)
  then show ?thesis
    by (simp add: and_exp_eq_0_iff_not_bit [of w 7, unfolded power2_eq_square] push_bit_eq_mult flip: and_exp_eq_0_iff_not_bit)
qed

end
