(* ===== verification/Varint.thy ===== *)
theory Varint
  imports Sqlite_Prelude
begin

text \<open>
  The variable-length integer codec and the big-endian four-byte codec of
  \<^verbatim>\<open>util.c\<close>: \<^verbatim>\<open>sqlite3PutVarint\<close>, \<^verbatim>\<open>sqlite3PutVarint32\<close>, \<^verbatim>\<open>sqlite3GetVarint\<close>,
  \<^verbatim>\<open>sqlite3GetVarint32\<close>, \<^verbatim>\<open>sqlite3VarintLen\<close>, \<^verbatim>\<open>sqlite3Get4byte\<close>, \<^verbatim>\<open>sqlite3Put4byte\<close>.
  A buffer is the list of the bytes from the pointer on; a read or write past its end is
  \<^const>\<open>None\<close>. The decoder keeps the C code's 32-bit registers \<open>a\<close>, \<open>b\<close>, \<open>s\<close>.
\<close>

section \<open>Encoding\<close>

text \<open>The descending loop \<^verbatim>\<open>for(i=7; i>=0; i--)\<close> of the nine-byte case.\<close>

fun putVarint_high :: "u8 list \<Rightarrow> nat \<Rightarrow> u64 \<Rightarrow> u8 list option" where
  "putVarint_high p 0 v = Some p"
| "putVarint_high p (Suc i) v = do {
     p' \<leftarrow> wr p i (ucast ((v AND 0x7f) OR 0x80));
     putVarint_high p' i (drop_bit 7 v) }"

text \<open>
  The \<^verbatim>\<open>do ... while( v!=0 )\<close> loop that fills \<^verbatim>\<open>buf[]\<close> with the groups of seven bits,
  least significant group first.
\<close>

function putVarint_buf :: "u8 list \<Rightarrow> u64 \<Rightarrow> u8 list" where
  "putVarint_buf buf v =
     (let buf' = buf @ [ucast ((v AND 0x7f) OR 0x80)]; v' = drop_bit 7 v
      in if v' \<noteq> 0 then putVarint_buf buf' v' else buf')"
  by pat_completeness auto
termination
proof (relation "measure (\<lambda>(buf, v). unat v)")
  fix buf :: "u8 list" and v :: u64 and x xa
  assume xa: "xa = drop_bit 7 v" "xa \<noteq> 0"
  then have "0 < unat v"
    by (metis drop_bit_of_0 unat_gt_0)
  then have "unat v div 128 < unat v" by simp
  moreover have "unat xa = unat v div 128"
    by (simp add: xa(1) drop_bit_eq_div unat_div_distrib)
  ultimately show "((x, xa), buf, v) \<in> measure (\<lambda>(buf, v). unat v)"
    by simp
qed simp

text \<open>The copy loop \<^verbatim>\<open>for(i=0, j=n-1; j>=0; j--, i++) p[i] = buf[j]\<close>.\<close>

fun putVarint_copy :: "u8 list \<Rightarrow> nat \<Rightarrow> u8 list \<Rightarrow> u8 list option" where
  "putVarint_copy p i [] = Some p"
| "putVarint_copy p i (b # bs) = do { p' \<leftarrow> wr p i b; putVarint_copy p' (Suc i) bs }"

definition sqlite3PutVarint :: "u8 list \<Rightarrow> u64 \<Rightarrow> (u8 list \<times> nat) option" where
  "sqlite3PutVarint p v =
     (if v AND push_bit 32 0xff000000 \<noteq> 0 then do {
        p1 \<leftarrow> wr p 8 (ucast v);
        p2 \<leftarrow> putVarint_high p1 8 (drop_bit 8 v);
        Some (p2, 9) }
      else
        let buf = putVarint_buf [] v; buf = buf[0 := buf ! 0 AND 0x7f]
        in do { p' \<leftarrow> putVarint_copy p 0 (rev buf); Some (p', length buf) })"

text \<open>
  The one-byte cases of \<^verbatim>\<open>sqlite3PutVarint32\<close> and \<^verbatim>\<open>sqlite3GetVarint32\<close> are compiled out, since \<^verbatim>\<open>sqliteInt.h\<close>
  defines \<^verbatim>\<open>putVarint32\<close> and \<^verbatim>\<open>getVarint32\<close> as macros that handle them.
\<close>

definition sqlite3PutVarint32 :: "u8 list \<Rightarrow> u32 \<Rightarrow> (u8 list \<times> nat) option" where
  "sqlite3PutVarint32 p v =
     (if v AND NOT 0x3fff = 0 then do {
        p1 \<leftarrow> wr p 0 (ucast (drop_bit 7 v OR 0x80));
        p2 \<leftarrow> wr p1 1 (ucast (v AND 0x7f));
        Some (p2, 2) }
      else sqlite3PutVarint p (ucast v))"

definition putVarint32 :: "u8 list \<Rightarrow> u32 \<Rightarrow> (u8 list \<times> nat) option" where
  "putVarint32 p v =
     (if v < 0x80 then do { p' \<leftarrow> wr p 0 (ucast v); Some (p', 1) } else sqlite3PutVarint32 p v)"

function sqlite3VarintLen_loop :: "nat \<Rightarrow> u64 \<Rightarrow> nat" where
  "sqlite3VarintLen_loop i v =
     (let i' = i + 1; v' = drop_bit 7 v
      in if v' \<noteq> 0 \<and> i' < 9 then sqlite3VarintLen_loop i' v' else i')"
  by pat_completeness auto
termination by (relation "measure (\<lambda>(i, v). 9 - i)") auto

definition sqlite3VarintLen :: "u64 \<Rightarrow> nat" where
  "sqlite3VarintLen v = sqlite3VarintLen_loop 0 v"

section \<open>Decoding\<close>

definition SLOT_2_0 :: u32 where "SLOT_2_0 = 0x001fc07f"
definition SLOT_4_2_0 :: u32 where "SLOT_4_2_0 = 0xf01fc07f"

text \<open>
  The decoder in the order of the source, one function for the first four bytes and one
  for the rest, entered with \<open>a\<close> (masked), \<open>b\<close> (unmasked) as the C registers stand.
\<close>

definition getVarint_tail :: "u8 list \<Rightarrow> u32 \<Rightarrow> u32 \<Rightarrow> (u64 \<times> nat) option" where
  "getVarint_tail p a b =
    (let b = b AND SLOT_2_0; s = a in do {
     p4 \<leftarrow> rd p 4;
     let a = push_bit 14 a OR ucast p4;
     if a AND 0x80 = 0 then
       Some (push_bit 32 (ucast (drop_bit 18 s)) OR ucast (a OR push_bit 7 b), 5)
     else let s = push_bit 7 s OR b in do {
     p5 \<leftarrow> rd p 5;
     let b = push_bit 14 b OR ucast p5;
     if b AND 0x80 = 0 then
       Some (push_bit 32 (ucast (drop_bit 18 s)) OR ucast (push_bit 7 (a AND SLOT_2_0) OR b), 6)
     else do {
     p6 \<leftarrow> rd p 6;
     let a = push_bit 14 a OR ucast p6;
     if a AND 0x80 = 0 then
       Some (push_bit 32 (ucast (drop_bit 11 s))
             OR ucast ((a AND SLOT_4_2_0) OR push_bit 7 (b AND SLOT_2_0)), 7)
     else let a = a AND SLOT_2_0 in do {
     p7 \<leftarrow> rd p 7;
     let b = push_bit 14 b OR ucast p7;
     if b AND 0x80 = 0 then
       Some (push_bit 32 (ucast (drop_bit 4 s)) OR ucast (push_bit 7 a OR (b AND SLOT_4_2_0)), 8)
     else do {
     p8 \<leftarrow> rd p 8;
     let a = push_bit 15 a OR ucast p8;
     let a = a OR push_bit 8 (b AND SLOT_2_0);
     let s = push_bit 4 s OR drop_bit 3 (ucast p4 AND 0x7f);
     Some (push_bit 32 (ucast s) OR ucast a, 9) }}}}})"

definition sqlite3GetVarint :: "u8 list \<Rightarrow> (u64 \<times> nat) option" where
  "sqlite3GetVarint p = do {
     p0 \<leftarrow> rd p 0;
     let a = (ucast p0 :: u32);
     if a AND 0x80 = 0 then Some (ucast a, 1)
     else do {
     p1 \<leftarrow> rd p 1;
     let b = (ucast p1 :: u32);
     if b AND 0x80 = 0 then Some (ucast (push_bit 7 (a AND 0x7f) OR b), 2)
     else do {
     p2 \<leftarrow> rd p 2;
     let a = push_bit 14 a OR ucast p2;
     if a AND 0x80 = 0 then Some (ucast ((a AND SLOT_2_0) OR push_bit 7 (b AND 0x7f)), 3)
     else let a = a AND SLOT_2_0 in do {
     p3 \<leftarrow> rd p 3;
     let b = push_bit 14 b OR ucast p3;
     if b AND 0x80 = 0 then Some (ucast (push_bit 7 a OR (b AND SLOT_2_0)), 4)
     else getVarint_tail p a b }}}}"

definition sqlite3GetVarint32 :: "u8 list \<Rightarrow> (u32 \<times> nat) option" where
  "sqlite3GetVarint32 p = do {
     p0 \<leftarrow> rd p 0;
     let a = (ucast p0 :: u32);
     p1 \<leftarrow> rd p 1;
     let b = (ucast p1 :: u32);
     if b AND 0x80 = 0 then Some (push_bit 7 (a AND 0x7f) OR b, 2)
     else do {
     p2 \<leftarrow> rd p 2;
     let a = push_bit 14 a OR ucast p2;
     if a AND 0x80 = 0 then
       Some ((a AND (push_bit 14 0x7f OR 0x7f)) OR push_bit 7 (b AND 0x7f), 3)
     else do {
     (v64, n) \<leftarrow> sqlite3GetVarint p;
     if \<not> (3 < n \<and> n \<le> 9) then None
     else if v64 AND 0xffffffff \<noteq> v64 then Some (0xffffffff, n) else Some (ucast v64, n) }}}"

definition getVarint32 :: "u8 list \<Rightarrow> (u32 \<times> nat) option" where
  "getVarint32 p = do {
     p0 \<leftarrow> rd p 0;
     if p0 < 0x80 then Some (ucast p0, 1) else sqlite3GetVarint32 p }"

definition sqlite3Get4byte :: "u8 list \<Rightarrow> u32 option" where
  "sqlite3Get4byte p = do {
     p0 \<leftarrow> rd p 0; p1 \<leftarrow> rd p 1; p2 \<leftarrow> rd p 2; p3 \<leftarrow> rd p 3;
     Some (push_bit 24 (ucast p0) OR push_bit 16 (ucast p1) OR push_bit 8 (ucast p2) OR ucast p3) }"

definition sqlite3Put4byte :: "u8 list \<Rightarrow> u32 \<Rightarrow> u8 list option" where
  "sqlite3Put4byte p v = do {
     p \<leftarrow> wr p 0 (ucast (drop_bit 24 v));
     p \<leftarrow> wr p 1 (ucast (drop_bit 16 v));
     p \<leftarrow> wr p 2 (ucast (drop_bit 8 v));
     wr p 3 (ucast v) }"

declare putVarint_buf.simps [simp del] sqlite3VarintLen_loop.simps [simp del]

section \<open>The reference decoder\<close>

text \<open>
  The format as the comment before \<^verbatim>\<open>sqlite3PutVarint\<close> gives it: seven bits per byte while
  the high bit is set, and all eight bits of the ninth byte.
\<close>

function varint_ref :: "u8 list \<Rightarrow> nat \<Rightarrow> u64 \<Rightarrow> (u64 \<times> nat) option" where
  "varint_ref p i acc = do {
     b \<leftarrow> rd p i;
     if 8 \<le> i then Some (push_bit 8 acc OR ucast b, i + 1)
     else if bit b 7 then varint_ref p (i + 1) (push_bit 7 acc OR ucast (b AND 0x7f))
     else Some (push_bit 7 acc OR ucast b, i + 1) }"
  by pat_completeness auto
termination by (relation "measure (\<lambda>(p, i, acc). 9 - i)") auto

declare varint_ref.simps [simp del]

lemma bit_SLOT [bit_blast]:
  "bit SLOT_2_0 n = bit (0x001fc07f :: u32) n" "bit SLOT_4_2_0 n = bit (0xf01fc07f :: u32) n"
  by (simp_all add: SLOT_2_0_def SLOT_4_2_0_def)

text \<open>The registers on entry to the tail, and the value the reference has accumulated.\<close>

definition reg_b :: "u8 \<Rightarrow> u8 \<Rightarrow> u32" where
  "reg_b p1 p3 = push_bit 14 (ucast p1) OR ucast p3"

definition reg_a :: "u8 \<Rightarrow> u8 \<Rightarrow> u32" where
  "reg_a p0 p2 = reg_b p0 p2 AND SLOT_2_0"

definition acc4 :: "u8 \<Rightarrow> u8 \<Rightarrow> u8 \<Rightarrow> u8 \<Rightarrow> u64" where
  "acc4 p0 p1 p2 p3 =
     push_bit 7 (push_bit 7 (push_bit 7 (ucast (p0 AND 0x7f)) OR ucast (p1 AND 0x7f))
       OR ucast (p2 AND 0x7f)) OR ucast (p3 AND 0x7f)"

lemmas reg_defs = reg_a_def reg_b_def acc4_def

lemma tail5:
  fixes p0 p1 p2 p3 p4 p5 p6 p7 p8 :: u8
  shows "\<not> bit p4 7 \<Longrightarrow>
   push_bit 32 (ucast (drop_bit 18 (reg_a p0 p2)))
     OR ucast ((push_bit 14 (reg_a p0 p2) OR ucast p4) OR push_bit 7 (reg_b p1 p3 AND SLOT_2_0))
   = push_bit 7 (acc4 p0 p1 p2 p3) OR ucast p4"
  by (rule u64_eqI) (simp add: reg_defs bit_simps bit_blast)

lemma tail6:
  fixes p0 p1 p2 p3 p4 p5 p6 p7 p8 :: u8
  shows "\<not> bit p5 7 \<Longrightarrow>
   push_bit 32 (ucast (drop_bit 18 (push_bit 7 (reg_a p0 p2) OR reg_b p1 p3 AND SLOT_2_0)))
     OR ucast (push_bit 7 ((push_bit 14 (reg_a p0 p2) OR ucast p4) AND SLOT_2_0)
               OR (push_bit 14 (reg_b p1 p3 AND SLOT_2_0) OR ucast p5))
   = push_bit 7 (push_bit 7 (acc4 p0 p1 p2 p3) OR ucast (p4 AND 0x7f)) OR ucast p5"
  by (rule u64_eqI) (simp add: reg_defs bit_simps bit_blast)

lemma tail7:
  fixes p0 p1 p2 p3 p4 p5 p6 p7 p8 :: u8
  shows "\<not> bit p6 7 \<Longrightarrow>
   push_bit 32 (ucast (drop_bit 11 (push_bit 7 (reg_a p0 p2) OR reg_b p1 p3 AND SLOT_2_0)))
     OR ucast (((push_bit 14 (push_bit 14 (reg_a p0 p2) OR ucast p4) OR ucast p6) AND SLOT_4_2_0)
               OR push_bit 7 ((push_bit 14 (reg_b p1 p3 AND SLOT_2_0) OR ucast p5) AND SLOT_2_0))
   = push_bit 7 (push_bit 7 (push_bit 7 (acc4 p0 p1 p2 p3) OR ucast (p4 AND 0x7f))
       OR ucast (p5 AND 0x7f)) OR ucast p6"
  by (rule u64_eqI) (simp add: reg_defs bit_simps bit_blast)

lemma tail8:
  fixes p0 p1 p2 p3 p4 p5 p6 p7 p8 :: u8
  shows "\<not> bit p7 7 \<Longrightarrow>
   push_bit 32 (ucast (drop_bit 4 (push_bit 7 (reg_a p0 p2) OR reg_b p1 p3 AND SLOT_2_0)))
     OR ucast (push_bit 7 ((push_bit 14 (push_bit 14 (reg_a p0 p2) OR ucast p4) OR ucast p6) AND SLOT_2_0)
               OR ((push_bit 14 (push_bit 14 (reg_b p1 p3 AND SLOT_2_0) OR ucast p5) OR ucast p7) AND SLOT_4_2_0))
   = push_bit 7 (push_bit 7 (push_bit 7 (push_bit 7 (acc4 p0 p1 p2 p3) OR ucast (p4 AND 0x7f))
       OR ucast (p5 AND 0x7f)) OR ucast (p6 AND 0x7f)) OR ucast p7"
  by (rule u64_eqI) (simp add: reg_defs bit_simps bit_blast)

lemma tail9:
  fixes p0 p1 p2 p3 p4 p5 p6 p7 p8 :: u8
  shows "push_bit 32 (ucast (push_bit 4 (push_bit 7 (reg_a p0 p2) OR reg_b p1 p3 AND SLOT_2_0)
                       OR drop_bit 3 (ucast p4 AND 0x7f)))
     OR ucast ((push_bit 15 ((push_bit 14 (push_bit 14 (reg_a p0 p2) OR ucast p4) OR ucast p6) AND SLOT_2_0)
               OR ucast p8)
               OR push_bit 8 ((push_bit 14 (push_bit 14 (reg_b p1 p3 AND SLOT_2_0) OR ucast p5) OR ucast p7) AND SLOT_2_0))
   = push_bit 8 (push_bit 7 (push_bit 7 (push_bit 7 (push_bit 7 (acc4 p0 p1 p2 p3) OR ucast (p4 AND 0x7f))
       OR ucast (p5 AND 0x7f)) OR ucast (p6 AND 0x7f)) OR ucast (p7 AND 0x7f)) OR ucast p8"
  by (rule u64_eqI) (simp add: reg_defs bit_simps bit_blast)

text \<open>Which byte's high bit a register's bit 7 is.\<close>

lemma reg_flag [simp]:
  "bit (push_bit 14 (w :: u32) OR ucast (c :: u8)) 7 = bit c 7"
  by (simp add: bit_simps)

lemma ucast_flag [simp]: "bit (ucast (c :: u8) :: u32) 7 = bit c 7"
  by (simp add: bit_simps)

lemma reg_b_flag [simp]: "bit (reg_b c d) 7 = bit d 7"
  by (simp add: reg_b_def)

lemma ucast_ucast_u8 [simp]: "(ucast (ucast (c :: u8) :: u32) :: u64) = ucast c"
  by (rule u64_eqI) (simp add: bit_simps bit_blast)

lemma getVarint_tail_ref:
  "getVarint_tail p (reg_a p0 p2) (reg_b p1 p3) = varint_ref p 4 (acc4 p0 p1 p2 p3)"
proof -
  note unroll = varint_ref.simps [of p 4] varint_ref.simps [of p 5] varint_ref.simps [of p 6]
    varint_ref.simps [of p 7] varint_ref.simps [of p 8]
  show ?thesis
    unfolding getVarint_tail_def Let_def
    by (simp add: unroll tail5 tail6 tail7 tail8 tail9 
        del: push_bit_or push_bit_and drop_bit_or drop_bit_and push_bit_push_bit
        split: bind_splits)
qed

lemma head2:
  fixes p0 p1 :: u8
  shows "\<not> bit p1 7 \<Longrightarrow> ucast (push_bit 7 (ucast p0 AND 0x7f) OR ucast p1 :: u32)
    = push_bit 7 (ucast (p0 AND 0x7f)) OR (ucast p1 :: u64)"
  by (rule u64_eqI) (simp add: bit_simps bit_blast)

lemma head3:
  fixes p0 p1 p2 :: u8
  shows "\<not> bit p2 7 \<Longrightarrow>
    ucast (reg_a p0 p2 OR push_bit 7 (ucast p1 AND 0x7f))
    = push_bit 7 (push_bit 7 (ucast (p0 AND 0x7f)) OR ucast (p1 AND 0x7f)) OR (ucast p2 :: u64)"
  by (rule u64_eqI) (simp add: reg_defs bit_simps bit_blast)

lemma head4:
  fixes p0 p1 p2 p3 :: u8
  shows "\<not> bit p3 7 \<Longrightarrow>
    ucast (push_bit 7 (reg_a p0 p2) OR reg_a p1 p3)
    = push_bit 7 (push_bit 7 (push_bit 7 (ucast (p0 AND 0x7f)) OR ucast (p1 AND 0x7f))
        OR ucast (p2 AND 0x7f)) OR (ucast p3 :: u64)"
  by (rule u64_eqI) (simp add: reg_defs bit_simps bit_blast)

lemma sqlite3GetVarint_ref: "sqlite3GetVarint p = varint_ref p 0 0"
proof -
  note unroll = varint_ref.simps [of p 0] varint_ref.simps [of p "Suc 0"] varint_ref.simps [of p 2]
    varint_ref.simps [of p 3]
  show ?thesis
    unfolding sqlite3GetVarint_def Let_def reg_b_def [symmetric] reg_a_def [symmetric]
      getVarint_tail_ref
    by (simp add: unroll head2 head3 head4 acc4_def numeral_2_eq_2 [symmetric]
        del: push_bit_or push_bit_and drop_bit_or drop_bit_and push_bit_push_bit
        split: bind_splits)
qed

section \<open>What the encoder writes\<close>

text \<open>A continuation byte, and the \<open>n\<close> continuation bytes of a value, most significant first.\<close>

definition contb :: "u64 \<Rightarrow> u8" where
  "contb v = ucast ((v AND 0x7f) OR 0x80)"

fun encC :: "nat \<Rightarrow> u64 \<Rightarrow> u8 list" where
  "encC 0 v = []"
| "encC (Suc n) v = encC n (drop_bit 7 v) @ [contb v]"

lemma length_encC [simp]: "length (encC n v) = n"
  by (induction n arbitrary: v) auto

lemma encC_Suc_front: "encC (Suc n) v = contb (drop_bit (7 * n) v) # encC n v"
proof (induction n arbitrary: v)
  case 0
  then show ?case by simp
next
  case (Suc n)
  have "encC (Suc (Suc n)) v = encC (Suc n) (drop_bit 7 v) @ [contb v]" by simp
  also have "\<dots> = contb (drop_bit (7 * n) (drop_bit 7 v)) # encC n (drop_bit 7 v) @ [contb v]"
    by (subst Suc.IH) simp
  finally show ?case by (simp add: add.commute)
qed

lemma bit_contb [simp]: "bit (contb v) 7"
  by (simp add: contb_def bit_simps)

lemma ucast_contb [simp]: "(ucast (contb v AND 0x7f) :: u64) = take_bit 7 v"
  by (rule u64_eqI) (simp add: contb_def bit_simps bit_blast)

text \<open>One step of the accumulator, for any group number.\<close>

lemma acc_step:
  "push_bit (7 * n) (push_bit 7 acc OR take_bit 7 (drop_bit (7 * n) v)) OR take_bit (7 * n) v
   = push_bit (7 * Suc n) acc OR take_bit (7 * Suc n) (v :: u64)"
  by (rule bit_word_eqI) (auto simp: bit_simps ac_simps)

lemma varint_ref_encC:
  assumes "length pre + n \<le> 8"
  shows "varint_ref (pre @ encC n v @ rest) (length pre) acc
       = varint_ref (pre @ encC n v @ rest) (length pre + n) (push_bit (7 * n) acc OR take_bit (7 * n) v)"
  using assms
proof (induction n arbitrary: pre acc)
  case 0
  then show ?case by simp
next
  case (Suc n)
  let ?c = "contb (drop_bit (7 * n) v)"
  let ?p = "pre @ ?c # encC n v @ rest"
  have "varint_ref ?p (length pre) acc
      = varint_ref ?p (Suc (length pre)) (push_bit 7 acc OR take_bit 7 (drop_bit (7 * n) v))"
    using Suc.prems by (subst varint_ref.simps) (simp add: rd_def nth_append)
  also have "\<dots> = varint_ref ?p (Suc (length pre) + n)
      (push_bit (7 * n) (push_bit 7 acc OR take_bit 7 (drop_bit (7 * n) v)) OR take_bit (7 * n) v)"
    using Suc.IH [of "pre @ [?c]"] Suc.prems by simp
  finally show ?case
    by (simp only: acc_step encC_Suc_front append_Cons add_Suc_right add_Suc)
qed

lemma putVarint_high_eq:
  "n \<le> length p \<Longrightarrow> putVarint_high p n v = Some (encC n v @ drop n p)"
proof (induction n arbitrary: p v)
  case 0
  then show ?case by simp
next
  case (Suc n)
  then have "drop n (p[n := contb v]) = contb v # drop (Suc n) p"
    by (simp add: Cons_nth_drop_Suc [symmetric])
  with Suc show ?case
    by (simp add: wr_def contb_def [symmetric])
qed

text \<open>The number of groups of seven bits a value takes.\<close>

function vgroups :: "u64 \<Rightarrow> nat" where
  "vgroups v = (if drop_bit 7 v = 0 then 1 else Suc (vgroups (drop_bit 7 v)))"
  by pat_completeness auto
termination
proof (relation "measure unat")
  fix v :: u64
  assume "drop_bit 7 v \<noteq> 0"
  then have "0 < unat v" by (metis drop_bit_of_0 unat_gt_0)
  then show "(drop_bit 7 v, v) \<in> measure unat"
    by (simp add: drop_bit_eq_div unat_div_distrib)
qed simp

declare vgroups.simps [simp del]

lemma vgroups_pos [simp]: "0 < vgroups v"
  by (subst vgroups.simps) simp

lemma putVarint_buf_eq: "putVarint_buf buf v = buf @ rev (encC (vgroups v) v)"
proof (induction buf v rule: putVarint_buf.induct)
  case (1 buf v)
  show ?case
  proof (cases "drop_bit 7 v = 0")
    case True
    then show ?thesis
      by (simp add: putVarint_buf.simps [of buf v] vgroups.simps [of v] contb_def)
  next
    case False
    with "1" show ?thesis
      by (simp add: putVarint_buf.simps [of buf v] vgroups.simps [of v] contb_def)
  qed
qed

lemma vgroups_le_iff: "vgroups v \<le> n \<longleftrightarrow> 0 < n \<and> drop_bit (7 * n) v = 0"
proof (induction n arbitrary: v)
  case 0
  then show ?case by simp
next
  case (Suc n)
  show ?case
  proof (cases "drop_bit 7 v = 0")
    case True
    moreover have "drop_bit (7 + 7 * n) v = drop_bit (7 * n) (drop_bit 7 v)"
      by (simp add: add.commute)
    ultimately show ?thesis by (simp only: vgroups.simps [of v] drop_bit_of_0 mult_Suc_right) simp
  next
    case False
    with Suc.IH [of "drop_bit 7 v"] show ?thesis
      by (cases n) (auto simp: vgroups.simps [of v] add.commute)
  qed
qed


text \<open>The test for the nine-byte form is the test for bits from 56 on.\<close>

lemma high_mask: "v AND push_bit 32 0xff000000 = 0 \<longleftrightarrow> drop_bit 56 (v :: u64) = 0"
proof -
  have eq: "push_bit 56 (drop_bit 56 v) = v AND push_bit 32 0xff000000"
    by (rule u64_eqI) (simp add: bit_simps bit_blast)
  have "drop_bit 56 (push_bit 56 (drop_bit 56 v)) = drop_bit 56 v"
    by (rule u64_eqI) (simp add: bit_simps bit_blast)
  with eq show ?thesis by (metis drop_bit_of_0 push_bit_of_0)
qed

lemma putVarint_copy_eq:
  "i + length bs \<le> length p \<Longrightarrow> putVarint_copy p i bs = Some (take i p @ bs @ drop (i + length bs) p)"
proof (induction bs arbitrary: p i)
  case Nil
  then show ?case by simp
next
  case (Cons b bs)
  then have "take (Suc i) (p[i := b]) = take i p @ [b]"
    by (simp add: take_Suc_conv_app_nth)
  with Cons show ?case by (simp add: wr_def)
qed

lemma putVarint_copy_None:
  "length p < i + length bs \<Longrightarrow> bs \<noteq> [] \<Longrightarrow> putVarint_copy p i bs = None"
proof (induction bs arbitrary: p i)
  case Nil
  then show ?case by simp
next
  case (Cons b bs)
  then show ?case
    by (cases "bs = []") (simp_all add: wr_def)
qed

text \<open>The bytes of the encoding, and the encoder as one overlay of them on the buffer.\<close>

definition varint_bytes :: "u64 \<Rightarrow> u8 list" where
  "varint_bytes v =
     (if drop_bit 56 v \<noteq> 0 then encC 8 (drop_bit 8 v) @ [ucast v]
      else encC (vgroups v - 1) (drop_bit 7 v) @ [ucast (v AND 0x7f)])"

lemma rev_buf:
  "rev ((rev (encC (vgroups v) v))[0 := (rev (encC (vgroups v) v)) ! 0 AND 0x7f])
   = encC (vgroups v - 1) (drop_bit 7 v) @ [ucast (v AND 0x7f)]"
proof -
  obtain n where n: "vgroups v = Suc n" using vgroups_pos [of v] by (cases "vgroups v") auto
  have "contb v AND 0x7f = ucast (v AND 0x7f)"
    by (rule u8_eqI) (simp add: contb_def bit_simps bit_blast)
  with n show ?thesis by simp
qed

lemma sqlite3PutVarint_eq:
  assumes "9 \<le> length p"
  shows "sqlite3PutVarint p v = Some (overlay (varint_bytes v) p, length (varint_bytes v))"
proof (cases "drop_bit 56 v = 0")
  case True
  then have "vgroups v \<le> 8" by (simp add: vgroups_le_iff)
  moreover have "putVarint_buf [] v = rev (encC (vgroups v) v)"
    by (simp add: putVarint_buf_eq)
  ultimately show ?thesis
    using True assms vgroups_pos [of v]
    by (simp add: sqlite3PutVarint_def high_mask [simplified] Let_def rev_buf putVarint_copy_eq varint_bytes_def
        overlay_def del: vgroups_pos)
next
  case False
  have "drop 8 (p[8 := ucast v]) = ucast v # drop 9 p"
    using assms by (simp add: Cons_nth_drop_Suc [symmetric])
  with False assms show ?thesis
    by (simp add: sqlite3PutVarint_def high_mask [simplified] wr_def putVarint_high_eq varint_bytes_def overlay_def)
qed

lemma length_varint_bytes: "length (varint_bytes v) = (if drop_bit 56 v \<noteq> 0 then 9 else vgroups v)"
  using vgroups_pos [of v] by (simp add: varint_bytes_def del: vgroups_pos)

lemma varint_bytes_bounds: "1 \<le> length (varint_bytes v) \<and> length (varint_bytes v) \<le> 9"
  using vgroups_le_iff [of v 8] vgroups_pos [of v]
  by (auto simp: length_varint_bytes Suc_le_eq simp del: vgroups_pos)

lemma take_bit_split7: "push_bit 7 (drop_bit 7 v) OR (v AND 0x7f) = (v :: u64)"
  by (rule u64_eqI) (simp add: bit_simps bit_blast)

lemma take_bit_split8: "push_bit 8 (take_bit 56 (drop_bit 8 v)) OR ucast (ucast v :: u8) = (v :: u64)"
  by (rule u64_eqI) (simp add: bit_simps bit_blast)

lemma varint_ref_bytes:
  "varint_ref (varint_bytes v @ rest) 0 0 = Some (v, length (varint_bytes v))"
proof (cases "drop_bit 56 v = 0")
  case True
  define n where "n = vgroups v - 1"
  have n: "vgroups v = Suc n" and "n \<le> 7"
    using vgroups_pos [of v] vgroups_le_iff [of v 8] True by (auto simp: n_def simp del: vgroups_pos)
  have "drop_bit (7 * n) (drop_bit 7 v) = 0"
    using vgroups_le_iff [of v "Suc n"] n by (simp add: add.commute)
  then have tb: "take_bit (7 * n) (drop_bit 7 v) = drop_bit 7 v"
    by (metis bits_ident or.right_neutral or.left_neutral push_bit_of_0 add.left_neutral)
  have "\<not> bit (ucast (v AND 0x7f) :: u8) 7" by (simp add: bit_simps)
  moreover have "(ucast (ucast (v AND 0x7f) :: u8) :: u64) = v AND 0x7f"
    by (rule u64_eqI) (simp add: bit_simps bit_blast)
  ultimately show ?thesis
    using True n \<open>n \<le> 7\<close> tb varint_ref_encC [of "[]" n "drop_bit 7 v" "ucast (v AND 0x7f) # rest" 0]
    by (simp add: varint_bytes_def varint_ref.simps [of _ n] rd_def nth_append take_bit_split7)
next
  case False
  then show ?thesis
    using varint_ref_encC [of "[]" 8 "drop_bit 8 v" "ucast v # rest" 0]
    by (simp add: varint_bytes_def varint_ref.simps [of _ 8] rd_def nth_append take_bit_split8)
qed

section \<open>The 32-bit variants and the length\<close>

lemma putVarint_copy1: "putVarint_copy p 0 [b] = wr p 0 b"
  by (simp add: wr_def)

lemma putVarint_copy2:
  "putVarint_copy p 0 [b, c] = do { q \<leftarrow> wr p 0 b; wr q 1 c }"
  by (auto simp: wr_def)

lemma and_not_mask: "v AND NOT 0x7f = 0 \<longleftrightarrow> drop_bit 7 v = 0"
  "v AND NOT 0x3fff = 0 \<longleftrightarrow> drop_bit 14 v = 0" for v :: u32
proof -
  have "push_bit 7 (drop_bit 7 v) = v AND NOT 0x7f" "push_bit 14 (drop_bit 14 v) = v AND NOT 0x3fff"
    by (rule u32_eqI, simp add: bit_simps bit_blast)+
  moreover have "drop_bit 7 (push_bit 7 (drop_bit 7 v)) = drop_bit 7 v"
    "drop_bit 14 (push_bit 14 (drop_bit 14 v)) = drop_bit 14 v"
    by (rule u32_eqI, simp add: bit_simps bit_blast)+
  ultimately show "v AND NOT 0x7f = 0 \<longleftrightarrow> drop_bit 7 v = 0"
    "v AND NOT 0x3fff = 0 \<longleftrightarrow> drop_bit 14 v = 0"
    by (metis drop_bit_of_0 push_bit_of_0)+
qed

lemma drop_bit_ucast: "drop_bit n (ucast (v :: u32) :: u64) = ucast (drop_bit n v)"
  by (rule bit_word_eqI) (auto simp: bit_simps dest: bit_imp_le_length)

lemma ucast_eq_0: "(ucast (v :: u32) :: u64) = 0 \<longleftrightarrow> v = 0"
proof -
  have "ucast (ucast v :: u64) = v" by (rule u32_eqI) (simp add: bit_simps bit_blast)
  then show ?thesis by (metis unsigned_0)
qed

lemma sqlite3PutVarint_low:
  "drop_bit 56 v = 0 \<Longrightarrow> sqlite3PutVarint p v =
     do { q \<leftarrow> putVarint_copy p 0 (encC (vgroups v - 1) (drop_bit 7 v) @ [ucast (v AND 0x7f)]);
          Some (q, vgroups v) }"
  by (simp add: sqlite3PutVarint_def high_mask [simplified] Let_def putVarint_buf_eq rev_buf)

lemma u8_lt_80: "b < 0x80 \<longleftrightarrow> \<not> bit (b :: u8) 7"
proof -
  have "bit b 7 \<longleftrightarrow> bit (unat b) 7" by (simp add: bit_unsigned_iff)
  then have "bit b 7 \<longleftrightarrow> odd (unat b div 128)" by (simp add: bit_iff_odd)
  moreover have "unat b < 256" using unsigned_less [of b, where ?'a = nat] by simp
  then have "128 \<le> unat b \<Longrightarrow> unat b div 128 = 1" by (intro div_nat_eqI) simp_all
  ultimately show ?thesis by (cases "unat b < 128") (simp_all add: word_less_nat_alt)
qed

lemma u32_lt_80: "v < 0x80 \<longleftrightarrow> drop_bit 7 (v :: u32) = 0"
  by (simp add: word_less_nat_alt word_unat_eq_iff unat_drop_bit_eq) (simp add: drop_bit_eq_div div_eq_0_iff)

lemma putVarint32_eq: "putVarint32 p v = sqlite3PutVarint p (ucast v)"
proof -
  let ?w = "ucast v :: u64"
  have low: "drop_bit 56 ?w = 0" by (rule u64_eqI) (simp add: bit_simps bit_blast)
  have z: "drop_bit 7 ?w = 0 \<longleftrightarrow> drop_bit 7 v = 0" "drop_bit 14 ?w = 0 \<longleftrightarrow> drop_bit 14 v = 0"
    by (simp_all add: drop_bit_ucast ucast_eq_0)
  consider "drop_bit 7 v = 0" | "drop_bit 7 v \<noteq> 0" "drop_bit 14 v = 0" | "drop_bit 14 v \<noteq> 0"
    by blast
  then show ?thesis
  proof cases
    case 1
    have "(ucast v :: u8) = ucast (push_bit 7 (drop_bit 7 v) OR (v AND 0x7f))"
      by (rule u8_eqI) (simp add: bit_simps bit_blast)
    with 1 have "(ucast v :: u8) = ucast (?w AND 0x7f)"
      by simp (rule u8_eqI, simp add: bit_simps bit_blast)
    moreover have "vgroups ?w = 1" using 1 z by (simp add: vgroups.simps [of ?w])
    ultimately show ?thesis
      using 1 by (simp add: putVarint32_def u32_lt_80 sqlite3PutVarint_low [OF low] putVarint_copy1
          del: putVarint_copy.simps)
  next
    case 2
    have "vgroups ?w = 2" using 2 z by (simp add: vgroups.simps [of ?w] vgroups.simps [of "drop_bit 7 ?w"])
    moreover have "contb (drop_bit 7 ?w) = ucast (take_bit 7 (drop_bit 7 v) OR 0x80)"
      by (rule u8_eqI) (simp add: contb_def bit_simps bit_blast)
    moreover have "take_bit 7 (drop_bit 7 v) = drop_bit 7 v"
      using 2(2) bits_ident [of 7 "drop_bit 7 v"] by simp
    moreover have "(ucast (v AND 0x7f) :: u8) = ucast (?w AND 0x7f)"
      by (rule u8_eqI) (simp add: bit_simps bit_blast)
    ultimately show ?thesis
      using 2 by (simp add: putVarint32_def u32_lt_80 sqlite3PutVarint32_def and_not_mask [simplified] sqlite3PutVarint_low [OF low]
          putVarint_copy2 numeral_2_eq_2 del: putVarint_copy.simps)
  next
    case 3
    then have "drop_bit 7 v \<noteq> 0"
      using drop_bit_drop_bit [of 7 7 v] by (auto simp del: drop_bit_drop_bit)
    with 3 show ?thesis by (simp add: putVarint32_def u32_lt_80 sqlite3PutVarint32_def and_not_mask [simplified])
  qed
qed

lemma get32_head2:
  fixes p0 p1 :: u8
  shows "push_bit 7 (ucast p0 AND 0x7f) OR (ucast p1 :: u32)
    = ucast (ucast (push_bit 7 (ucast p0 AND 0x7f) OR ucast p1 :: u32) :: u64)"
  by (rule u32_eqI) (simp add: bit_simps bit_blast)

text \<open>Saturation of a 64-bit value to 32 bits, as \<^verbatim>\<open>sqlite3GetVarint32\<close> does it.\<close>

definition sat32 :: "u64 \<Rightarrow> u32" where
  "sat32 v = (if v \<le> 0xffffffff then ucast v else 0xffffffff)"

lemma and_max32: "v AND 0xffffffff = v \<longleftrightarrow> v \<le> (0xffffffff :: u64)"
proof -
  have eq: "v AND 0xffffffff = take_bit 32 v"
    by (rule u64_eqI) (simp add: bit_simps bit_blast)
  have "take_bit 32 v = v" if "v \<le> 0xffffffff"
  proof -
    have "unat v \<le> 4294967295" using that by (simp add: word_le_nat_alt)
    then have "unat (drop_bit 32 v) = 0" by (simp add: drop_bit_eq_div unat_div_distrib)
    then have "drop_bit 32 v = 0" by (simp only: unsigned_eq_0_iff)
    with bits_ident [of 32 v] show ?thesis by simp
  qed
  with eq show ?thesis by (metis word_and_le1)
qed

lemma sat32_ucast [simp]: "sat32 (ucast (w :: u32)) = w"
proof -
  have "(ucast w :: u64) AND 0xffffffff = ucast w" by (rule u64_eqI) (simp add: bit_simps bit_blast)
  moreover have "ucast (ucast w :: u64) = w" by (rule u32_eqI) (simp add: bit_simps bit_blast)
  ultimately show ?thesis by (simp add: sat32_def and_max32)
qed

lemma sat32_u8 [simp]: "sat32 (ucast (c :: u8)) = ucast c"
  using sat32_ucast [of "ucast c"] by simp

lemma slot_3: "push_bit 14 0x7f OR 0x7f = SLOT_2_0"
  by (simp add: SLOT_2_0_def)

lemma varint_ref_bounds: "varint_ref z i acc = Some (v, k) \<Longrightarrow> i \<le> 8 \<Longrightarrow> i < k \<and> k \<le> length z \<and> k \<le> 9"
proof (induction z i acc rule: varint_ref.induct)
  case (1 z i acc)
  from 1(2) obtain c where c: "rd z i = Some c" by (subst (asm) varint_ref.simps) (auto simp: bind_eq_Some_conv)
  then have l: "i < length z" by (simp add: rd_eq_Some_iff)
  show ?case
  proof (cases "\<not> 8 \<le> i \<and> bit c 7")
    case True
    then have "varint_ref z (i + 1) (push_bit 7 acc OR ucast (c AND 0x7f)) = Some (v, k)"
      using 1(2) c by (subst (asm) varint_ref.simps) simp
    then show ?thesis using 1(1) [OF c] True by auto
  next
    case False
    then show ?thesis using 1(2,3) c l by (subst (asm) varint_ref.simps) (auto split: if_splits)
  qed
qed

lemma sqlite3GetVarint_long:
  assumes "rd p 0 = Some p0" "bit p0 7" "rd p 1 = Some p1" "bit p1 7" "rd p 2 = Some p2" "bit p2 7" "sqlite3GetVarint p = Some (v, n)"
  shows "3 < n \<and> n \<le> 9"
proof -
  have "\<exists>acc. sqlite3GetVarint p = varint_ref p 3 acc"
    using assms(1-6) unfolding sqlite3GetVarint_ref
    by (simp add: varint_ref.simps [of p 0] varint_ref.simps [of p "Suc 0"] varint_ref.simps [of p 2] numeral_2_eq_2 [symmetric]) blast
  then obtain acc where "varint_ref p 3 acc = Some (v, n)" using assms(7) by auto
  then show ?thesis using varint_ref_bounds [of p 3] by simp
qed

lemma getVarint32_eq: "getVarint32 p = map_option (\<lambda>(v, n). (sat32 v, n)) (sqlite3GetVarint p)"
proof -
  have "getVarint32 p = do {
     p0 \<leftarrow> rd p 0;
     if \<not> bit p0 7 then Some (ucast p0, 1) else do {
     p1 \<leftarrow> rd p 1;
     if \<not> bit p1 7 then Some (push_bit 7 (ucast p0 AND 0x7f) OR ucast p1, 2) else do {
     p2 \<leftarrow> rd p 2;
     if \<not> bit p2 7 then Some (reg_b p0 p2 AND SLOT_2_0 OR push_bit 7 (ucast p1 AND 0x7f), 3)
     else map_option (\<lambda>(v, n). (sat32 v, n)) (sqlite3GetVarint p) }}}"
    unfolding getVarint32_def sqlite3GetVarint32_def Let_def slot_3 reg_b_def [symmetric]
    by (auto simp: u8_lt_80 and_max32 sat32_def dest: sqlite3GetVarint_long split: bind_splits)
  then show ?thesis
    unfolding sqlite3GetVarint_def Let_def reg_b_def [symmetric]
    by (simp split: bind_splits)
qed

lemma sqlite3VarintLen_loop_eq:
  "i < 9 \<Longrightarrow> sqlite3VarintLen_loop i v = min 9 (i + vgroups v)"
proof (induction i v rule: sqlite3VarintLen_loop.induct)
  case (1 i v)
  show ?case
  proof (cases "drop_bit 7 v \<noteq> 0 \<and> i + 1 < 9")
    case True
    with "1" show ?thesis
      by (simp add: sqlite3VarintLen_loop.simps [of i v] vgroups.simps [of v])
  next
    case False
    with "1.prems" show ?thesis
      by (auto simp: sqlite3VarintLen_loop.simps [of i v] vgroups.simps [of v])
  qed
qed

lemma sqlite3VarintLen_eq: "sqlite3VarintLen v = length (varint_bytes v)"
proof -
  have "drop_bit 56 v = 0 \<longleftrightarrow> vgroups v \<le> 8" by (simp add: vgroups_le_iff)
  then show ?thesis
    by (auto simp: sqlite3VarintLen_def sqlite3VarintLen_loop_eq length_varint_bytes min_def)
qed

lemma sqlite3Get4byte_Put4byte:
  assumes "4 \<le> length p"
  shows "\<exists>q. sqlite3Put4byte p v = Some q \<and> length q = length p \<and> drop 4 q = drop 4 p
           \<and> sqlite3Get4byte q = Some v"
proof -
  obtain a b c d r where "p = a # b # c # d # r"
    using assms by (auto simp: Suc_le_length_iff numeral_eq_Suc)
  moreover have "push_bit 24 (ucast (ucast (drop_bit 24 v) :: u8))
      OR push_bit 16 (ucast (ucast (drop_bit 16 v) :: u8))
      OR push_bit 8 (ucast (ucast (drop_bit 8 v) :: u8)) OR ucast (ucast v :: u8) = v"
    by (rule u32_eqI) (simp add: bit_simps bit_blast)
  ultimately show ?thesis
    by (simp add: sqlite3Put4byte_def sqlite3Get4byte_def wr_def rd_def)
qed

section \<open>Properties\<close>

text \<open>
  \<^bold>\<open>C11\<close>. Round trip of the varint codec: into a buffer of at least nine bytes
  \<^const>\<open>sqlite3PutVarint\<close> always writes between one and nine bytes, leaves the rest of the
  buffer as it was, and \<^const>\<open>sqlite3GetVarint\<close> reads back the same 64-bit value and the same
  length.
\<close>

theorem varint_roundtrip:
  assumes "9 \<le> length p"
  shows "\<exists>q n. sqlite3PutVarint p v = Some (q, n) \<and> 1 \<le> n \<and> n \<le> 9 \<and> length q = length p
           \<and> drop n q = drop n p \<and> sqlite3GetVarint q = Some (v, n)"
proof -
  let ?bs = "varint_bytes v"
  have "length ?bs \<le> length p" using assms varint_bytes_bounds [of v] by linarith
  moreover have "sqlite3GetVarint (overlay ?bs p) = Some (v, length ?bs)"
    by (simp add: sqlite3GetVarint_ref overlay_def varint_ref_bytes)
  ultimately show ?thesis
    using sqlite3PutVarint_eq [OF assms, of v] varint_bytes_bounds [of v]
    by (simp add: overlay_def)
qed

theorem varint_roundtrip_witness:
  "\<exists>q n. sqlite3PutVarint (replicate 10 7) 0x123456789abcdef0 = Some (q, n) \<and> 1 \<le> n \<and> n \<le> 9
     \<and> length q = length (replicate 10 (7 :: u8)) \<and> drop n q = drop n (replicate 10 7)
     \<and> sqlite3GetVarint q = Some (0x123456789abcdef0, n)"
  by (rule varint_roundtrip) simp

text \<open>
  \<^bold>\<open>C25\<close>. The unrolled decoder with its three 32-bit registers computes the documented format
  on every buffer: seven bits per byte while the high bit is set, eight bits of a ninth byte,
  and a read past the end of the buffer exactly when the format has one.
\<close>

theorem getVarint_equiv_format: "sqlite3GetVarint p = varint_ref p 0 0"
  by (rule sqlite3GetVarint_ref)

text \<open>
  \<^bold>\<open>C26\<close>. The 32-bit codec, used through its macros, agrees with the 64-bit one on every input,
  although the two functions behind the macros do not handle a single byte: the writer produces the
  same bytes, and the reader returns the same length with the value saturated at \<open>0xffffffff\<close>. The
  assertion on the length of a long varint holds.
\<close>

theorem varint32_equiv:
  "putVarint32 p v = sqlite3PutVarint p (ucast v)
   \<and> getVarint32 q = map_option (\<lambda>(w, n). (sat32 w, n)) (sqlite3GetVarint q)"
  by (simp add: putVarint32_eq getVarint32_eq)

text \<open>
  \<^const>\<open>sqlite3VarintLen\<close> is the number of bytes that \<^const>\<open>sqlite3PutVarint\<close> writes.
\<close>

theorem varintLen_correct:
  "9 \<le> length p \<Longrightarrow> map_option snd (sqlite3PutVarint p v) = Some (sqlite3VarintLen v)"
  by (simp add: sqlite3PutVarint_eq sqlite3VarintLen_eq)

end
