(* ===== verification/Ctype.thy ===== *)
theory Ctype
  imports Sqlite_Prelude
begin

text \<open>
  The two character tables of \<^verbatim>\<open>global.c\<close> and the macros of \<^verbatim>\<open>sqliteInt.h\<close> that read
  them (the ASCII build). The tables are the literal arrays of the source; the lemmas give
  each lookup as a condition on the byte, which is what the client theories use.
\<close>

section \<open>The tables\<close>

definition sqlite3UpperToLower_tab :: "int list" where
  "sqlite3UpperToLower_tab =
     [0, 1, 2, 3, 4, 5, 6, 7, 8, 9, 10, 11, 12, 13, 14, 15, 16, 17, 18, 19, 20, 21, 22,
      23, 24, 25, 26, 27, 28, 29, 30, 31, 32, 33, 34, 35, 36, 37, 38, 39, 40, 41, 42, 43,
      44, 45, 46, 47, 48, 49, 50, 51, 52, 53, 54, 55, 56, 57, 58, 59, 60, 61, 62, 63, 64,
      97, 98, 99, 100, 101, 102, 103, 104, 105, 106, 107, 108, 109, 110, 111, 112, 113,
      114, 115, 116, 117, 118, 119, 120, 121, 122, 91, 92, 93, 94, 95, 96, 97, 98, 99,
      100, 101, 102, 103, 104, 105, 106, 107, 108, 109, 110, 111, 112, 113, 114, 115, 116,
      117, 118, 119, 120, 121, 122, 123, 124, 125, 126, 127, 128, 129, 130, 131, 132, 133,
      134, 135, 136, 137, 138, 139, 140, 141, 142, 143, 144, 145, 146, 147, 148, 149, 150,
      151, 152, 153, 154, 155, 156, 157, 158, 159, 160, 161, 162, 163, 164, 165, 166, 167,
      168, 169, 170, 171, 172, 173, 174, 175, 176, 177, 178, 179, 180, 181, 182, 183, 184,
      185, 186, 187, 188, 189, 190, 191, 192, 193, 194, 195, 196, 197, 198, 199, 200, 201,
      202, 203, 204, 205, 206, 207, 208, 209, 210, 211, 212, 213, 214, 215, 216, 217, 218,
      219, 220, 221, 222, 223, 224, 225, 226, 227, 228, 229, 230, 231, 232, 233, 234, 235,
      236, 237, 238, 239, 240, 241, 242, 243, 244, 245, 246, 247, 248, 249, 250, 251, 252,
      253, 254, 255]"

definition sqlite3CtypeMap :: "int list" where
  "sqlite3CtypeMap =
     [0, 0, 0, 0, 0, 0, 0, 0, 0, 1, 1, 1, 1, 1, 0, 0, 0, 0, 0, 0, 0, 0, 0, 0, 0, 0, 0, 0,
      0, 0, 0, 0, 1, 0, 0, 0, 64, 0, 0, 0, 0, 0, 0, 0, 0, 0, 0, 0, 12, 12, 12, 12, 12, 12,
      12, 12, 12, 12, 0, 0, 0, 0, 0, 0, 0, 10, 10, 10, 10, 10, 10, 2, 2, 2, 2, 2, 2, 2, 2,
      2, 2, 2, 2, 2, 2, 2, 2, 2, 2, 2, 2, 0, 0, 0, 0, 64, 0, 42, 42, 42, 42, 42, 42, 34,
      34, 34, 34, 34, 34, 34, 34, 34, 34, 34, 34, 34, 34, 34, 34, 34, 34, 34, 34, 0, 0, 0,
      0, 0, 64, 64, 64, 64, 64, 64, 64, 64, 64, 64, 64, 64, 64, 64, 64, 64, 64, 64, 64,
      64, 64, 64, 64, 64, 64, 64, 64, 64, 64, 64, 64, 64, 64, 64, 64, 64, 64, 64, 64, 64,
      64, 64, 64, 64, 64, 64, 64, 64, 64, 64, 64, 64, 64, 64, 64, 64, 64, 64, 64, 64, 64,
      64, 64, 64, 64, 64, 64, 64, 64, 64, 64, 64, 64, 64, 64, 64, 64, 64, 64, 64, 64, 64,
      64, 64, 64, 64, 64, 64, 64, 64, 64, 64, 64, 64, 64, 64, 64, 64, 64, 64, 64, 64, 64,
      64, 64, 64, 64, 64, 64, 64, 64, 64, 64, 64, 64, 64, 64, 64, 64, 64, 64, 64, 64, 64,
      64, 64, 64, 64]"

section \<open>The lookups\<close>

definition sqlite3UpperToLower :: "u8 \<Rightarrow> u8" where
  "sqlite3UpperToLower c = of_int (sqlite3UpperToLower_tab ! unat c)"

definition ctype :: "u8 \<Rightarrow> u8" where
  "ctype c = of_int (sqlite3CtypeMap ! unat c)"

definition sqlite3Isspace :: "u8 \<Rightarrow> bool" where
  "sqlite3Isspace c \<longleftrightarrow> ctype c AND 0x01 \<noteq> 0"

definition sqlite3Isdigit :: "u8 \<Rightarrow> bool" where
  "sqlite3Isdigit c \<longleftrightarrow> ctype c AND 0x04 \<noteq> 0"

definition sqlite3Isxdigit :: "u8 \<Rightarrow> bool" where
  "sqlite3Isxdigit c \<longleftrightarrow> ctype c AND 0x08 \<noteq> 0"

definition sqlite3Toupper :: "u8 \<Rightarrow> u8" where
  "sqlite3Toupper c = c AND NOT (ctype c AND 0x20)"

definition IdChar :: "u8 \<Rightarrow> bool" where
  "IdChar c \<longleftrightarrow> ctype c AND 0x46 \<noteq> 0"

section \<open>What the lookups compute\<close>

text \<open>Each table is a function of the index; the equations are checked entry by entry.\<close>

lemma UpperToLower_tab_eq:
  "sqlite3UpperToLower_tab = map (\<lambda>k. if 65 \<le> k \<and> k \<le> 90 then k + 32 else k) [0..255]"
  by code_simp

lemma CtypeMap_eq:
  "sqlite3CtypeMap = map (\<lambda>k.
     if 9 \<le> k \<and> k \<le> 13 \<or> k = 32 then 0x01
     else if k = 36 \<or> k = 95 \<or> 128 \<le> k then 0x40
     else if 48 \<le> k \<and> k \<le> 57 then 0x0c
     else if 65 \<le> k \<and> k \<le> 70 then 0x0a
     else if 71 \<le> k \<and> k \<le> 90 then 0x02
     else if 97 \<le> k \<and> k \<le> 102 then 0x2a
     else if 103 \<le> k \<and> k \<le> 122 then 0x22
     else 0) [0..255]"
  by code_simp

lemma unat_u8_less: "unat (c :: u8) < 256"
  using unsigned_less [of c, where ?'a = nat] by simp

lemma nth_byte_table: "map f [0..255] ! unat (c :: u8) = f (uint c)"
proof -
  have "int (unat c) \<le> 255" using unat_u8_less [of c] by linarith
  then have "[0..255] ! unat c = uint c"
    by (subst nth_upto) auto
  then show ?thesis using unat_u8_less [of c] by simp
qed

lemma u8_order: "(c :: u8) \<le> d \<longleftrightarrow> uint c \<le> uint d" "c = d \<longleftrightarrow> uint c = uint d"
  by (simp_all add: word_le_def word_uint_eq_iff)

lemma sqlite3UpperToLower_eq:
  "sqlite3UpperToLower c = (if 65 \<le> c \<and> c \<le> 90 then c + 32 else c)"
  unfolding sqlite3UpperToLower_def UpperToLower_tab_eq nth_byte_table
  by (simp add: word_le_def)

lemma ctype_eq:
  "ctype c =
     (if 9 \<le> c \<and> c \<le> 13 \<or> c = 32 then 0x01
      else if c = 36 \<or> c = 95 \<or> 128 \<le> c then 0x40
      else if 48 \<le> c \<and> c \<le> 57 then 0x0c
      else if 65 \<le> c \<and> c \<le> 70 then 0x0a
      else if 71 \<le> c \<and> c \<le> 90 then 0x02
      else if 97 \<le> c \<and> c \<le> 102 then 0x2a
      else if 103 \<le> c \<and> c \<le> 122 then 0x22
      else 0)"
  unfolding ctype_def CtypeMap_eq nth_byte_table
  by (simp add: word_le_def word_uint_eq_iff)

lemma sqlite3Isspace_iff: "sqlite3Isspace c \<longleftrightarrow> c = 32 \<or> 9 \<le> c \<and> c \<le> 13"
  by (auto simp: sqlite3Isspace_def ctype_eq)

lemma sqlite3Isdigit_iff: "sqlite3Isdigit c \<longleftrightarrow> 48 \<le> c \<and> c \<le> 57"
  by (auto simp: sqlite3Isdigit_def ctype_eq word_le_def)

lemma sqlite3Isxdigit_iff:
  "sqlite3Isxdigit c \<longleftrightarrow> 48 \<le> c \<and> c \<le> 57 \<or> 65 \<le> c \<and> c \<le> 70 \<or> 97 \<le> c \<and> c \<le> 102"
  by (auto simp: sqlite3Isxdigit_def ctype_eq word_le_def)

lemma IdChar_iff:
  "IdChar c \<longleftrightarrow> c = 36 \<or> 48 \<le> c \<and> c \<le> 57 \<or> 65 \<le> c \<and> c \<le> 90 \<or> c = 95
     \<or> 97 \<le> c \<and> c \<le> 122 \<or> 128 \<le> c"
  by (auto simp: IdChar_def ctype_eq word_le_def)

lemmas ctype_iffs = sqlite3Isspace_iff sqlite3Isdigit_iff sqlite3Isxdigit_iff IdChar_iff

lemma sqlite3UpperToLower_idem [simp]:
  "sqlite3UpperToLower (sqlite3UpperToLower c) = sqlite3UpperToLower c"
proof (cases "65 \<le> c \<and> c \<le> 90")
  case True
  then have "uint (c + 32) = uint c + 32"
    by (simp add: word_le_def uint_word_ariths)
  with True show ?thesis by (simp add: sqlite3UpperToLower_eq word_le_def)
qed (simp add: sqlite3UpperToLower_eq)

lemma sqlite3UpperToLower_0 [simp]: "sqlite3UpperToLower c = 0 \<longleftrightarrow> c = 0"
proof (cases "65 \<le> c \<and> c \<le> 90")
  case True
  then have "uint (c + 32) = uint c + 32"
    by (simp add: word_le_def uint_word_ariths)
  with True show ?thesis by (auto simp add: sqlite3UpperToLower_eq word_le_def word_uint_eq_iff)
qed (auto simp: sqlite3UpperToLower_eq)

lemma sqlite3UpperToLower_zero [simp]: "sqlite3UpperToLower 0 = 0" "0 = sqlite3UpperToLower c \<longleftrightarrow> c = 0"
  using sqlite3UpperToLower_0 [of c] sqlite3UpperToLower_0 [of 0] by metis+

end
