(* ===== verification/UtilInt.thy ===== *)
theory UtilInt
  imports Ctype
begin

text \<open>
  The integer routines of \<^verbatim>\<open>util.c\<close>: overflow-checked 64-bit arithmetic
  (\<^verbatim>\<open>sqlite3AddInt64\<close>, \<^verbatim>\<open>sqlite3SubInt64\<close>, \<^verbatim>\<open>sqlite3MulInt64\<close>, \<^verbatim>\<open>sqlite3AbsInt32\<close>) and the
  text to integer conversions (\<^verbatim>\<open>compare2pow63\<close>, \<^verbatim>\<open>sqlite3Atoi64\<close>, \<^verbatim>\<open>sqlite3GetInt32\<close>,
  \<^verbatim>\<open>sqlite3Atoi\<close>). A signed 64-bit integer is an \<^typ>\<open>int\<close>, and every arithmetic operation of
  the C code on it goes through \<open>wrap64\<close>, the two's complement result of the machine.
\<close>

section \<open>Signed 64-bit arithmetic\<close>

definition wrap64 :: "int \<Rightarrow> int" where
  "wrap64 x = (x + 2 ^ 63) mod 2 ^ 64 - 2 ^ 63"

definition LARGEST_INT64 :: int where "LARGEST_INT64 = 0xffffffff + 0x7fffffff * 2 ^ 32"
definition SMALLEST_INT64 :: int where "SMALLEST_INT64 = - 1 - LARGEST_INT64"

definition i64_range :: "int \<Rightarrow> bool" where
  "i64_range x \<longleftrightarrow> SMALLEST_INT64 \<le> x \<and> x \<le> LARGEST_INT64"

text \<open>Division and remainder of C: the quotient is truncated towards zero.\<close>

definition tdiv :: "int \<Rightarrow> int \<Rightarrow> int" where
  "tdiv a b = sgn a * sgn b * (\<bar>a\<bar> div \<bar>b\<bar>)"

definition tmod :: "int \<Rightarrow> int \<Rightarrow> int" where
  "tmod a b = a - tdiv a b * b"

text \<open>Each routine takes \<^verbatim>\<open>*pA\<close> and returns the result code and the new \<^verbatim>\<open>*pA\<close>.\<close>

definition sqlite3AddInt64 :: "int \<Rightarrow> int \<Rightarrow> rc \<times> int" where
  "sqlite3AddInt64 pA iB =
     (let iA = pA in
      if iB \<ge> 0 then
        (if iA > 0 \<and> wrap64 (LARGEST_INT64 - iA) < iB then (1, pA) else (0, wrap64 (pA + iB)))
      else
        (if iA < 0 \<and> wrap64 (- wrap64 (iA + LARGEST_INT64)) > wrap64 (iB + 1) then (1, pA)
         else (0, wrap64 (pA + iB))))"

definition sqlite3SubInt64 :: "int \<Rightarrow> int \<Rightarrow> rc \<times> int" where
  "sqlite3SubInt64 pA iB =
     (if iB = SMALLEST_INT64 then
        (if pA \<ge> 0 then (1, pA) else (0, wrap64 (pA - iB)))
      else sqlite3AddInt64 pA (wrap64 (- iB)))"

definition TWOPOWER32 :: int where "TWOPOWER32 = 2 ^ 32"
definition TWOPOWER31 :: int where "TWOPOWER31 = 2 ^ 31"

definition sqlite3MulInt64 :: "int \<Rightarrow> int \<Rightarrow> rc \<times> int" where
  "sqlite3MulInt64 pA iB =
     (let iA = pA;
          iA1 = tdiv iA TWOPOWER32; iA0 = tmod iA TWOPOWER32;
          iB1 = tdiv iB TWOPOWER32; iB0 = tmod iB TWOPOWER32
      in if wrap64 (iA1 * iB1) \<noteq> 0 then (1, pA)
         else let r = wrap64 (wrap64 (iA1 * iB0) + wrap64 (iA0 * iB1))
         in if r < - TWOPOWER31 \<or> r \<ge> TWOPOWER31 then (1, pA)
            else let r = wrap64 (r * TWOPOWER32)
            in case sqlite3AddInt64 r (wrap64 (iA0 * iB0)) of
                 (rc, r') \<Rightarrow> if rc \<noteq> 0 then (1, pA) else (0, r'))"

definition sqlite3AbsInt32 :: "int \<Rightarrow> int" where
  "sqlite3AbsInt32 x = (if x \<ge> 0 then x else if x = - (2 ^ 31) then 0x7fffffff else - x)"

lemmas i64_limits = LARGEST_INT64_def SMALLEST_INT64_def i64_range_def

lemma wrap64_id [simp]: "i64_range x \<Longrightarrow> wrap64 x = x"
  by (simp add: i64_limits wrap64_def)

lemma wrap64_range [simp]: "i64_range (wrap64 x)"
  by (simp add: i64_limits wrap64_def)

lemma sqlite3AddInt64_exact:
  assumes "i64_range a" "i64_range b"
  shows "sqlite3AddInt64 a b = (if i64_range (a + b) then (0, a + b) else (1, a))"
proof -
  have "i64_range (LARGEST_INT64 - a)" if "a > 0" using assms that by (auto simp: i64_limits)
  moreover have "i64_range (a + LARGEST_INT64)" "i64_range (- (a + LARGEST_INT64))" if "a < 0"
    using assms that by (auto simp: i64_limits)
  moreover have "i64_range (b + 1)" if "b < 0" using assms that by (auto simp: i64_limits)
  ultimately show ?thesis
    using assms by (auto simp: sqlite3AddInt64_def) (auto simp: i64_limits)
qed

lemma sqlite3SubInt64_exact:
  assumes "i64_range a" "i64_range b"
  shows "sqlite3SubInt64 a b = (if i64_range (a - b) then (0, a - b) else (1, a))"
proof (cases "b = SMALLEST_INT64")
  case True
  with assms show ?thesis
    by (auto simp: sqlite3SubInt64_def) (auto simp: i64_limits wrap64_def)
next
  case False
  with assms have "i64_range (- b)" by (auto simp: i64_limits)
  with False assms show ?thesis
    by (simp add: sqlite3SubInt64_def sqlite3AddInt64_exact)
qed

text \<open>The halves of an operand: magnitude bounds, and signs that agree with the operand.\<close>

lemma halves:
  assumes "i64_range a"
  shows "a = tdiv a TWOPOWER32 * 2 ^ 32 + tmod a TWOPOWER32"
    and "\<bar>tmod a TWOPOWER32\<bar> < 2 ^ 32" and "\<bar>tdiv a TWOPOWER32\<bar> \<le> 2 ^ 31"
    and "0 \<le> a \<Longrightarrow> 0 \<le> tdiv a TWOPOWER32 \<and> 0 \<le> tmod a TWOPOWER32"
    and "a \<le> 0 \<Longrightarrow> tdiv a TWOPOWER32 \<le> 0 \<and> tmod a TWOPOWER32 \<le> 0"
proof -
  define q where "q = \<bar>a\<bar> div 2 ^ 32"
  define m where "m = \<bar>a\<bar> mod 2 ^ 32"
  have qm: "\<bar>a\<bar> = q * 2 ^ 32 + m" "0 \<le> m" "m < 2 ^ 32" "0 \<le> q"
    by (auto simp: q_def m_def)
  have "\<bar>a\<bar> \<le> 2 ^ 63" using assms by (auto simp: i64_limits)
  with qm have q: "q \<le> 2 ^ 31" by simp
  have d: "tdiv a TWOPOWER32 = sgn a * q" by (simp add: tdiv_def TWOPOWER32_def q_def)
  have "a = sgn a * \<bar>a\<bar>" by (simp add: mult_sgn_abs)
  also have "\<dots> = sgn a * q * 2 ^ 32 + sgn a * m" using qm(1) by (simp add: algebra_simps)
  finally have t: "tmod a TWOPOWER32 = sgn a * m"
    unfolding tmod_def d by (simp add: TWOPOWER32_def)
  show "a = tdiv a TWOPOWER32 * 2 ^ 32 + tmod a TWOPOWER32"
    by (simp add: tmod_def TWOPOWER32_def)
  show "\<bar>tmod a TWOPOWER32\<bar> < 2 ^ 32" "\<bar>tdiv a TWOPOWER32\<bar> \<le> 2 ^ 31"
    using qm q by (auto simp: d t abs_mult sgn_if)
  show "0 \<le> a \<Longrightarrow> 0 \<le> tdiv a TWOPOWER32 \<and> 0 \<le> tmod a TWOPOWER32"
    unfolding d t using qm(2,4) by (auto simp: sgn_if)
  show "a \<le> 0 \<Longrightarrow> tdiv a TWOPOWER32 \<le> 0 \<and> tmod a TWOPOWER32 \<le> 0"
    unfolding d t using qm(2,4) by (auto simp: sgn_if)
qed

lemma i64_rangeI: "\<bar>x\<bar> < 2 ^ 63 \<Longrightarrow> i64_range x"
  by (auto simp: i64_limits)

lemma cross_product_range: "\<bar>x\<bar> \<le> 2 ^ 31 \<Longrightarrow> \<bar>y\<bar> < 2 ^ 32 \<Longrightarrow> i64_range (x * y)"
proof -
  assume "\<bar>x\<bar> \<le> 2 ^ 31" "\<bar>y\<bar> < 2 ^ 32"
  then have "\<bar>x\<bar> * \<bar>y\<bar> \<le> 2 ^ 31 * (2 ^ 32 - 1)" by (intro mult_mono) auto
  then show ?thesis by (intro i64_rangeI) (simp add: abs_mult)
qed

lemma high_product_range: "\<bar>x\<bar> \<le> 2 ^ 31 \<Longrightarrow> \<bar>y\<bar> \<le> 2 ^ 31 \<Longrightarrow> i64_range (x * y)"
proof -
  assume "\<bar>x\<bar> \<le> 2 ^ 31" "\<bar>y\<bar> \<le> 2 ^ 31"
  then have "\<bar>x\<bar> * \<bar>y\<bar> \<le> 2 ^ 31 * 2 ^ 31" by (intro mult_mono) auto
  then show ?thesis by (intro i64_rangeI) (simp add: abs_mult)
qed

lemma high_product_overflow:
  assumes "i64_range a" "i64_range b" "tdiv a TWOPOWER32 * tdiv b TWOPOWER32 \<noteq> 0"
  shows "\<not> i64_range (a * b)"
proof -
  have "2 ^ 32 \<le> \<bar>x\<bar>" if "i64_range x" "tdiv x TWOPOWER32 \<noteq> 0" for x
    using halves [OF that(1)] that(2) by (cases "0 \<le> x") auto
  then have "2 ^ 32 * 2 ^ 32 \<le> \<bar>a\<bar> * \<bar>b\<bar>"
    using assms by (intro mult_mono) auto
  then have "2 ^ 64 \<le> \<bar>a * b\<bar>" by (simp add: abs_mult)
  then show ?thesis by (auto simp: i64_limits)
qed

text \<open>Where the product of the low halves fits, the multiplication is exact.\<close>

lemma sqlite3MulInt64_exact:
  assumes r: "i64_range a" "i64_range b"
    and low: "i64_range (tmod a TWOPOWER32 * tmod b TWOPOWER32)"
  shows "sqlite3MulInt64 a b = (if i64_range (a * b) then (0, a * b) else (1, a))"
proof -
  define a1 a0 b1 b0 where defs: "a1 = tdiv a TWOPOWER32" "a0 = tmod a TWOPOWER32"
    "b1 = tdiv b TWOPOWER32" "b0 = tmod b TWOPOWER32"
  note ha = halves [OF r(1), folded defs] and hb = halves [OF r(2), folded defs]
  define c where "c = a1 * b0 + a0 * b1"
  have w: "wrap64 (a1 * b1) = a1 * b1" "wrap64 (a1 * b0) = a1 * b0" "wrap64 (a0 * b1) = a0 * b1"
    using ha(2,3) hb(2,3) cross_product_range [of b1 a0]
    by (simp_all add: high_product_range cross_product_range mult.commute)
  show ?thesis
  proof (cases "a1 * b1 = 0")
    case False
    with high_product_overflow r w(1) show ?thesis
      by (simp add: sqlite3MulInt64_def Let_def defs)
  next
    case True
    then have wc: "wrap64 c = c"
      using w(2,3) unfolding c_def by (metis add.left_neutral add.right_neutral mult_eq_0_iff wrap64_range wrap64_id)
    have prod: "a * b = c * 2 ^ 32 + a0 * b0"
    proof -
      have "a * b = a1 * b1 * 2 ^ 64 + c * 2 ^ 32 + a0 * b0"
        by (subst ha(1), subst hb(1)) (simp add: c_def algebra_simps)
      with True show ?thesis by simp
    qed
    have signs: "0 \<le> c \<and> 0 \<le> a0 * b0 \<or> c \<le> 0 \<and> a0 * b0 \<le> 0"
      using ha(4,5) hb(4,5) unfolding c_def
      by (cases "0 \<le> a"; cases "0 \<le> b")
        (auto simp: mult_nonneg_nonneg mult_nonpos_nonpos mult_nonneg_nonpos mult_nonpos_nonneg
          add_nonneg_nonneg add_nonpos_nonpos)
    have def: "sqlite3MulInt64 a b =
        (if c < - TWOPOWER31 \<or> c \<ge> TWOPOWER31 then (1, a)
         else case sqlite3AddInt64 (wrap64 (c * TWOPOWER32)) (wrap64 (a0 * b0)) of
                (rc, r') \<Rightarrow> if rc \<noteq> 0 then (1, a) else (0, r'))"
      using True w wc by (simp add: sqlite3MulInt64_def Let_def flip: defs c_def)
    show ?thesis
    proof (cases "c < - TWOPOWER31 \<or> c \<ge> TWOPOWER31")
      case True
      then have "\<not> i64_range (a * b)"
        using signs unfolding prod by (auto simp: i64_limits TWOPOWER31_def)
      with True def show ?thesis by auto
    next
      case False
      then have "i64_range (c * 2 ^ 32)" by (auto simp: i64_limits TWOPOWER31_def)
      with False def low [folded defs] show ?thesis
        by (simp add: sqlite3AddInt64_exact prod TWOPOWER32_def)
    qed
  qed
qed

lemma sqlite3MulInt64_wraps:
  assumes "0 \<le> a" "a < 2 ^ 32" "0 \<le> b" "b < 2 ^ 32" "\<not> i64_range (a * b)"
  shows "sqlite3MulInt64 a b = (0, a * b - 2 ^ 64) \<and> a * b - 2 ^ 64 < 0"
proof -
  have h: "tdiv a TWOPOWER32 = 0" "tmod a TWOPOWER32 = a" "tdiv b TWOPOWER32 = 0" "tmod b TWOPOWER32 = b"
    using assms by (simp_all add: tdiv_def tmod_def TWOPOWER32_def)
  have "a * b < 2 ^ 32 * 2 ^ 32" using assms by (intro mult_strict_mono) auto
  moreover have "2 ^ 63 \<le> a * b" using assms by (simp add: i64_limits) (smt (verit) mult_nonneg_nonneg)
  ultimately have p: "2 ^ 63 \<le> a * b" "a * b < 2 ^ 64" by simp_all
  have w: "wrap64 x = x - 2 ^ 64" if "2 ^ 63 \<le> x" "x < 2 ^ 64" for x
  proof -
    have "(x + 2 ^ 63) mod 2 ^ 64 = x + 2 ^ 63 - 2 ^ 64" using that by (simp add: mod_pos_geq)
    then show ?thesis by (simp add: wrap64_def)
  qed
  have w': "wrap64 x = x" if "- (2 ^ 63) \<le> x" "x < 0" for x using that by (intro wrap64_id) (simp add: i64_limits)
  have "wrap64 0 = 0" by (simp add: wrap64_def)
  then have "sqlite3MulInt64 a b = (case sqlite3AddInt64 0 (wrap64 (a * b)) of (rc, r') \<Rightarrow> if rc \<noteq> 0 then (1, a) else (0, r'))"
    using h by (simp add: sqlite3MulInt64_def TWOPOWER31_def)
  also have "sqlite3AddInt64 0 (wrap64 (a * b)) = (0, a * b - 2 ^ 64)"
    using w [OF p] w' [of "a * b - 2 ^ 64"] p by (simp add: sqlite3AddInt64_def)
  finally show ?thesis using p by simp
qed

lemma low_half_le:
  fixes x d m :: int
  assumes "x = d * 2 ^ 32 + m" "0 \<le> x \<Longrightarrow> 0 \<le> d \<and> 0 \<le> m" "x \<le> 0 \<Longrightarrow> d \<le> 0 \<and> m \<le> 0"
  shows "\<bar>m\<bar> \<le> \<bar>x\<bar>"
  using assms by (cases "0 \<le> x") auto

lemma product_in_range_low:
  assumes r: "i64_range a" "i64_range b" and ab: "i64_range (a * b)"
  shows "i64_range (tmod a TWOPOWER32 * tmod b TWOPOWER32)"
proof -
  have le: "\<bar>tmod x TWOPOWER32\<bar> \<le> \<bar>x\<bar>" if "i64_range x" for x
    using halves(1,4,5) [OF that] by (rule low_half_le)
  have "\<bar>tmod a TWOPOWER32 * tmod b TWOPOWER32\<bar> \<le> \<bar>a * b\<bar>"
    using le [OF r(1)] le [OF r(2)] by (simp add: abs_mult mult_mono)
  moreover have "0 \<le> tmod a TWOPOWER32 * tmod b TWOPOWER32 \<and> 0 \<le> a * b
      \<or> tmod a TWOPOWER32 * tmod b TWOPOWER32 \<le> 0 \<and> a * b \<le> 0"
    using halves(4,5) [OF r(1)] halves(4,5) [OF r(2)]
    by (cases "0 \<le> a"; cases "0 \<le> b")
      (auto simp: mult_nonneg_nonneg mult_nonpos_nonpos mult_nonneg_nonpos mult_nonpos_nonneg)
  ultimately show ?thesis using ab by (auto simp: i64_limits)
qed

section \<open>Text to integer\<close>

text \<open>
  Text is a byte buffer. The three encodings differ in where a character's code byte is and
  in the stride \<open>incr\<close>; the loops of the source walk an index by \<open>incr\<close> up to the end.
\<close>

datatype enc = SQLITE_UTF8 | SQLITE_UTF16LE | SQLITE_UTF16BE

definition pow63 :: "u8 list" where
  "pow63 = [0x39, 0x32, 0x32, 0x33, 0x33, 0x37, 0x32, 0x30, 0x33, 0x36, 0x38, 0x35, 0x34, 0x37, 0x37, 0x35, 0x38, 0x30]"

text \<open>The loop of \<^verbatim>\<open>compare2pow63\<close>: \<open>z\<close> is the text from \<^verbatim>\<open>zNum\<close> on, \<open>c\<close> the running result.\<close>

function compare2pow63_loop :: "u8 list \<Rightarrow> nat \<Rightarrow> nat \<Rightarrow> int \<Rightarrow> int option" where
  "compare2pow63_loop z incr i c =
     (if c = 0 \<and> i < 18 then do {
        zi \<leftarrow> rd z (i * incr);
        p \<leftarrow> rd pow63 i;
        compare2pow63_loop z incr (i + 1) ((uint zi - uint p) * 10) }
      else Some c)"
  by pat_completeness auto
termination by (relation "measure (\<lambda>(z, incr, i, c). 18 - i)") auto

definition compare2pow63 :: "u8 list \<Rightarrow> nat \<Rightarrow> int option" where
  "compare2pow63 z incr = do {
     c \<leftarrow> compare2pow63_loop z incr 0 0;
     if c = 0 then do { zi \<leftarrow> rd z (18 * incr); Some (uint zi - 0x38) } else Some c }"

text \<open>\<^verbatim>\<open>while( zNum<zEnd && P(*zNum) ) zNum += incr\<close>, on the index of \<^verbatim>\<open>zNum\<close>.\<close>

function skip_while :: "(u8 \<Rightarrow> bool) \<Rightarrow> u8 list \<Rightarrow> nat \<Rightarrow> nat \<Rightarrow> nat" where
  "skip_while P z incr i =
     (if 0 < incr \<and> i < length z \<and> P (z ! i) then skip_while P z incr (i + incr) else i)"
  by pat_completeness auto
termination by (relation "measure (\<lambda>(P, z, incr, i). length z - i)") auto

text \<open>
  The digit loop \<^verbatim>\<open>for(i=0; &zNum[i]<zEnd && (c=zNum[i])>='0' && c<='9'; i+=incr)\<close>: the state
  is the offset \<open>i\<close>, the accumulator \<open>u\<close> (which wraps at 64 bits) and the last byte read.
\<close>

function digit_loop :: "u8 list \<Rightarrow> nat \<Rightarrow> nat \<Rightarrow> nat \<Rightarrow> u64 \<Rightarrow> u8 \<Rightarrow> nat \<times> u64 \<times> u8" where
  "digit_loop z incr n i u c =
     (if 0 < incr \<and> n + i < length z then
        let c = z ! (n + i) in
        if 0x30 \<le> c \<and> c \<le> 0x39 then digit_loop z incr n (i + incr) (u * 10 + ucast c - 0x30) c
        else (i, u, c)
      else (i, u, c))"
  by pat_completeness auto
termination by (relation "measure (\<lambda>(z, incr, n, i, u, c). length z - (n + i))") auto

text \<open>
  \<^verbatim>\<open>sqlite3Atoi64(zNum, &num, length, enc)\<close> on the \<^verbatim>\<open>length\<close> bytes \<open>z\<close>: the result code and
  the value stored in \<^verbatim>\<open>*pNum\<close>. The scan part yields the position of the digits, the sign,
  and the outcome of the digit loop.
\<close>

definition atoi64_scan :: "u8 list \<Rightarrow> enc \<Rightarrow> bool \<times> nat \<times> nat \<times> nat \<times> u64 \<times> u8" where
  "atoi64_scan z e =
     (let incr = (if e = SQLITE_UTF8 then 1 else 2);
          n = (if e = SQLITE_UTF16BE then 1 else 0);
          n = skip_while sqlite3Isspace z incr n;
          neg = (n < length z \<and> z ! n = 0x2d);
          n = (if n < length z \<and> (z ! n = 0x2d \<or> z ! n = 0x2b) then n + incr else n);
          zStart = n;
          n = skip_while (\<lambda>c. c = 0x30) z incr n;
          (i, u, c) = digit_loop z incr n 0 0 0
      in (neg, zStart, n, i, u, c))"

definition sqlite3Atoi64 :: "u8 list \<Rightarrow> enc \<Rightarrow> (nat \<times> int) option" where
  "sqlite3Atoi64 z e =
     (let incr = (if e = SQLITE_UTF8 then 1 else 2);
          (neg, zStart, n, i, u, c) = atoi64_scan z e;
          num = (if uint u > LARGEST_INT64 then SMALLEST_INT64
                 else if neg then - uint u else uint u)
      in if c \<noteq> 0 \<and> n + i < length z \<or> i = 0 \<and> zStart = n \<or> i > 19 * incr then Some (1, num)
         else if i < 19 * incr then Some (0, num)
         else do {
           c \<leftarrow> compare2pow63 (drop n z) incr;
           if c < 0 then Some (0, num)
           else if c > 0 then Some (1, num)
           else Some (if neg then 0 else 2, num) })"

text \<open>
  \<^verbatim>\<open>sqlite3GetInt32(zNum, &value)\<close> on a zero-terminated string: \<^term>\<open>Some (Some v)\<close> when it
  returns true with the value \<open>v\<close>, \<^term>\<open>Some None\<close> when it returns false.
\<close>

fun getInt32_zeros :: "u8 list \<Rightarrow> u8 list" where
  "getInt32_zeros (c # z) = (if c = 0x30 then getInt32_zeros z else c # z)"
| "getInt32_zeros [] = []"

function getInt32_loop :: "u8 list \<Rightarrow> nat \<Rightarrow> int \<Rightarrow> (nat \<times> int) option" where
  "getInt32_loop z i v =
     (if i < 11 then do {
        zi \<leftarrow> rd z i;
        let c = uint zi - 0x30;
        if c \<ge> 0 \<and> c \<le> 9 then getInt32_loop z (i + 1) (v * 10 + c) else Some (i, v) }
      else Some (i, v))"
  by pat_completeness auto
termination by (relation "measure (\<lambda>(z, i, v). 11 - i)") auto

definition sqlite3GetInt32 :: "u8 list \<Rightarrow> int option option" where
  "sqlite3GetInt32 z = do {
     z0 \<leftarrow> rd z 0;
     let neg = (z0 = 0x2d);
     let z = getInt32_zeros (if z0 = 0x2d \<or> z0 = 0x2b then tl z else z);
     (i, v) \<leftarrow> getInt32_loop z 0 0;
     if i > 10 then Some None
     else if v - (if neg then 1 else 0) > 2147483647 then Some None
     else Some (Some (if neg then - v else v)) }"

definition sqlite3Atoi :: "u8 list option \<Rightarrow> int option" where
  "sqlite3Atoi z = (case z of None \<Rightarrow> Some 0
     | Some s \<Rightarrow> do { r \<leftarrow> sqlite3GetInt32 s; Some (case r of None \<Rightarrow> 0 | Some v \<Rightarrow> v) })"

declare compare2pow63_loop.simps [simp del] skip_while.simps [simp del]
  digit_loop.simps [simp del] getInt32_loop.simps [simp del]

section \<open>What the scanning loops compute\<close>

text \<open>The characters of a text from an index on, with the stride of its encoding.\<close>

function chars_from :: "u8 list \<Rightarrow> nat \<Rightarrow> nat \<Rightarrow> u8 list" where
  "chars_from z incr i = (if 0 < incr \<and> i < length z then z ! i # chars_from z incr (i + incr) else [])"
  by pat_completeness auto
termination by (relation "measure (\<lambda>(z, incr, i). length z - i)") auto

declare chars_from.simps [simp del]

lemma chars_from_Nil_iff: "0 < incr \<Longrightarrow> chars_from z incr i = [] \<longleftrightarrow> length z \<le> i"
  by (subst chars_from.simps) auto

lemma chars_from_Cons_iff:
  "0 < incr \<Longrightarrow> chars_from z incr i = c # cs \<longleftrightarrow>
     i < length z \<and> z ! i = c \<and> chars_from z incr (i + incr) = cs"
  by (subst chars_from.simps) auto

lemma chars_from_drop:
  "0 < incr \<Longrightarrow> chars_from z incr i = xs @ ys \<Longrightarrow> chars_from z incr (i + incr * length xs) = ys"
proof (induction xs arbitrary: i)
  case (Cons x xs)
  then show ?case using Cons.IH [of "i + incr"] by (simp add: chars_from_Cons_iff add.assoc)
qed simp

lemma chars_from_nth:
  "0 < incr \<Longrightarrow> k < length (chars_from z incr i) \<Longrightarrow> rd z (i + k * incr) = Some (chars_from z incr i ! k)"
proof (induction k arbitrary: i)
  case 0
  then show ?case by (simp add: rd_def chars_from.simps [of z incr i] split: if_splits)
next
  case (Suc k)
  then obtain c cs where cs: "chars_from z incr i = c # cs"
    by (cases "chars_from z incr i") auto
  with Suc.prems have "chars_from z incr (i + incr) = cs" by (simp add: chars_from_Cons_iff)
  with Suc.IH [of "i + incr"] Suc.prems cs show ?case by (simp add: add.assoc)
qed

lemma skip_while_eq:
  "0 < incr \<Longrightarrow> skip_while P z incr i = i + incr * length (takeWhile P (chars_from z incr i))"
proof (induction P z incr i rule: skip_while.induct)
  case (1 P z incr i)
  then show ?case
    by (subst skip_while.simps, subst chars_from.simps) (auto simp: add.assoc)
qed

lemma chars_from_skip_while:
  assumes "0 < incr"
  shows "chars_from z incr (skip_while P z incr i) = dropWhile P (chars_from z incr i)"
  using chars_from_drop [OF assms, of z i "takeWhile P (chars_from z incr i)" "dropWhile P (chars_from z incr i)"]
  by (simp add: skip_while_eq [OF assms])

text \<open>Decimal digits and their value.\<close>

definition isdig :: "u8 \<Rightarrow> bool" where
  "isdig c \<longleftrightarrow> 0x30 \<le> c \<and> c \<le> 0x39"

definition dval :: "u8 list \<Rightarrow> int" where
  "dval ds = foldl (\<lambda>v d. v * 10 + (uint d - 0x30)) 0 ds"

lemma dval_Nil [simp]: "dval [] = 0"
  by (simp add: dval_def)

lemma dval_snoc [simp]: "dval (ds @ [d]) = dval ds * 10 + (uint d - 0x30)"
  by (simp add: dval_def)

lemma dval_append: "dval (xs @ ys) = dval xs * 10 ^ length ys + dval ys"
proof (induction ys rule: rev_induct)
  case (snoc y ys)
  have "dval (xs @ ys @ [y]) = dval (xs @ ys) * 10 + (uint y - 0x30)"
    using dval_snoc [of "xs @ ys" y] by simp
  with snoc show ?case by (simp add: algebra_simps)
qed simp

lemma isdig_bounds: "isdig d \<Longrightarrow> 0 \<le> uint d - 0x30 \<and> uint d - 0x30 \<le> 9"
  by (simp add: isdig_def word_le_def)

lemma dval_bounds: "list_all isdig ds \<Longrightarrow> 0 \<le> dval ds \<and> dval ds < 10 ^ length ds"
proof (induction ds rule: rev_induct)
  case (snoc d ds)
  then have "0 \<le> uint d - 0x30 \<and> uint d - 0x30 \<le> 9" using isdig_bounds [of d] by simp
  moreover have "0 \<le> dval ds" "dval ds + 1 \<le> 10 ^ length ds" using snoc by auto
  ultimately show ?case by simp
qed simp

lemma dval_zeros: "list_all (\<lambda>c. c = 0x30) zs \<Longrightarrow> dval (zs @ ds) = dval ds"
proof -
  assume "list_all (\<lambda>c. c = 0x30) zs"
  then have "dval zs = 0" by (induction zs rule: rev_induct) auto
  then show ?thesis by (simp add: dval_append)
qed

lemma dval_leading:
  assumes "isdig d" "d \<noteq> 0x30" "list_all isdig ds"
  shows "10 ^ length ds \<le> dval (d # ds)"
proof -
  have "1 \<le> uint d - 0x30"
    using assms(1,2) by (auto simp: isdig_def word_le_def word_uint_eq_iff)
  then have "10 ^ length ds \<le> (uint d - 0x30) * 10 ^ length ds" by simp
  moreover have "dval (d # ds) = (uint d - 0x30) * 10 ^ length ds + dval ds"
    using dval_append [of "[d]" ds] dval_snoc [of "[]" d] by simp
  ultimately show ?thesis using dval_bounds [OF assms(3)] by linarith
qed

lemma digit_loop_eq:
  assumes "0 < incr"
  shows "digit_loop z incr n i u c =
     (let cs = chars_from z incr (n + i); ds = takeWhile isdig cs; r = dropWhile isdig cs
      in (i + incr * length ds,
          foldl (\<lambda>u d. u * 10 + ucast d - 0x30) u ds,
          if r \<noteq> [] then hd r else if ds \<noteq> [] then last ds else c))"
  using assms
proof (induction z incr n i u c rule: digit_loop.induct)
  case (1 z incr n i u c)
  show ?case
  proof (cases "n + i < length z \<and> isdig (z ! (n + i))")
    case True
    have "digit_loop z incr n (i + incr) (u * 10 + ucast (z ! (n + i)) - 0x30) (z ! (n + i)) =
       (let cs = chars_from z incr (n + i + incr); ds = takeWhile isdig cs; r = dropWhile isdig cs
        in (i + incr + incr * length ds,
            foldl (\<lambda>u d. u * 10 + ucast d - 0x30) (u * 10 + ucast (z ! (n + i)) - 0x30) ds,
            if r \<noteq> [] then hd r else if ds \<noteq> [] then last ds else z ! (n + i)))"
      using "1.IH" [of "z ! (n + i)"] True "1.prems"
      by (simp add: isdig_def [of "z ! (n + i)"] add.assoc)
    with True "1.prems" show ?thesis
      by (simp add: digit_loop.simps [of z incr n i u c] chars_from.simps [of z incr "n + i"]
          isdig_def [of "z ! (n + i)", symmetric] Let_def)
  next
    case False
    with "1.prems" show ?thesis
      by (auto simp: digit_loop.simps [of z incr n i u c] chars_from.simps [of z incr "n + i"]
          isdig_def Let_def)
  qed
qed

lemma digit_fold: "foldl (\<lambda>u d. u * 10 + ucast d - 0x30) 0 ds = (of_int (dval ds) :: u64)"
proof (induction ds rule: rev_induct)
  case (snoc d ds)
  have "(ucast d :: u64) = of_int (uint d)" by simp
  with snoc show ?case by simp
qed simp

section \<open>Comparison with two to the power 63\<close>

lemma dval_pow63: "dval pow63 = 922337203685477580"
  by (simp add: dval_def pow63_def)

lemma pow63_digits: "list_all isdig pow63" "length pow63 = 18"
  by (simp_all add: pow63_def isdig_def)

text \<open>The first position where two digit strings of one length differ decides.\<close>

lemma sgn_dominates:
  fixes d n t :: int
  assumes "\<bar>t\<bar> < n" "d \<noteq> 0"
  shows "sgn (d * n + t) = sgn d"
proof (cases "0 < d")
  case True
  then have "1 * n \<le> d * n" using assms(1) by (intro mult_right_mono) auto
  with True assms(1) show ?thesis by (simp add: sgn_if)
next
  case False
  then have "d * n \<le> (- 1) * n" using assms by (intro mult_right_mono) auto
  then have "d * n + t < 0" using assms(1) by linarith
  with False assms(2) show ?thesis by (simp add: sgn_if)
qed

lemma dval_sgn_first_difference:
  assumes "list_all isdig xs" "list_all isdig ys" "length xs = length ys" "i < length xs"
    "dval (take i xs) = dval (take i ys)" "uint (xs ! i) \<noteq> uint (ys ! i)"
  shows "sgn (dval xs - dval ys) = sgn (uint (xs ! i) - uint (ys ! i))"
proof -
  let ?n = "length xs - Suc i" and ?d = "uint (xs ! i) - uint (ys ! i)"
  let ?t = "dval (drop (Suc i) xs) - dval (drop (Suc i) ys)"
  have split: "dval zs = (dval (take i zs) * 10 + (uint (zs ! i) - 0x30)) * 10 ^ (length zs - Suc i)
                 + dval (drop (Suc i) zs)" if "i < length zs" for zs
    using that dval_append [of "take (Suc i) zs" "drop (Suc i) zs"]
    by (simp add: take_Suc_conv_app_nth id_take_nth_drop [symmetric])
  have "dval xs - dval ys = ?d * 10 ^ ?n + ?t"
    using assms(3,4,5) by (simp add: split algebra_simps)
  moreover have "\<bar>?t\<bar> < 10 ^ ?n"
  proof -
    have "list_all isdig (drop (Suc i) xs)" "list_all isdig (drop (Suc i) ys)"
      using assms(1,2) by (auto simp: list_all_iff dest: in_set_dropD)
    then show ?thesis
      using dval_bounds [of "drop (Suc i) xs"] dval_bounds [of "drop (Suc i) ys"] assms(3)
      by (auto simp: abs_less_iff)
  qed
  ultimately show ?thesis
    using assms(6) sgn_dominates [of ?t "10 ^ ?n" ?d] by simp
qed

lemma compare2pow63_loop_sgn:
  assumes "list_all isdig ds" "length ds = 18" "i \<le> 18"
    and rd: "\<And>k. k < 18 \<Longrightarrow> rd z (k * incr) = Some (ds ! k)"
    and eq: "dval (take i ds) = dval (take i pow63)"
  shows "\<exists>c. compare2pow63_loop z incr i 0 = Some c \<and> sgn c = sgn (dval ds - dval pow63)"
  using assms(3) eq
proof (induction "18 - i" arbitrary: i)
  case 0
  then show ?case using assms(2) pow63_digits(2)
    by (simp add: compare2pow63_loop.simps [of z incr 18])
next
  case (Suc m)
  then have i: "i < 18" by simp
  let ?c = "(uint (ds ! i) - uint (pow63 ! i)) * 10"
  have step: "compare2pow63_loop z incr i 0 = compare2pow63_loop z incr (i + 1) ?c"
    using i rd [OF i] pow63_digits(2) by (simp add: compare2pow63_loop.simps [of z incr i] rd_def)
  show ?case
  proof (cases "?c = 0")
    case True
    then have "dval (take (i + 1) ds) = dval (take (i + 1) pow63)"
      using Suc.prems i assms(2) pow63_digits(2) by (simp add: take_Suc_conv_app_nth)
    then have "\<exists>c. compare2pow63_loop z incr (i + 1) 0 = Some c \<and> sgn c = sgn (dval ds - dval pow63)"
      using Suc.hyps(1) [of "i + 1"] Suc.hyps(2) i by simp
    with step True show ?thesis by simp
  next
    case False
    then have "compare2pow63_loop z incr (i + 1) ?c = Some ?c"
      by (subst compare2pow63_loop.simps) simp
    moreover have "sgn ?c = sgn (uint (ds ! i) - uint (pow63 ! i))"
      by (simp only: sgn_mult) simp
    moreover have "\<dots> = sgn (dval ds - dval pow63)"
      using dval_sgn_first_difference [of ds pow63 i] assms(1,2) pow63_digits i Suc.prems(2) False
      by simp
    ultimately show ?thesis using step by simp
  qed
qed

lemma compare2pow63_sgn:
  assumes "list_all isdig ds" "length ds = 19"
    and rd: "\<And>k. k < 19 \<Longrightarrow> rd z (k * incr) = Some (ds ! k)"
  shows "\<exists>c. compare2pow63 z incr = Some c \<and> sgn c = sgn (dval ds - 2 ^ 63)"
proof -
  let ?h = "take 18 ds" and ?l = "uint (ds ! 18) - 0x30"
  have ds: "ds = ?h @ [ds ! 18]"
    using assms(2) take_Suc_conv_app_nth [of 18 ds] by simp
  have h: "list_all isdig ?h" "length ?h = 18"
    using assms(1,2) by (auto simp: list_all_iff dest: in_set_takeD)
  have v: "dval ds = dval ?h * 10 + ?l" by (subst ds) (rule dval_snoc)
  have l: "0 \<le> ?l \<and> ?l \<le> 9"
    using assms(1,2) isdig_bounds [of "ds ! 18"] by (simp add: list_all_length)
  obtain c where c: "compare2pow63_loop z incr 0 0 = Some c" "sgn c = sgn (dval ?h - dval pow63)"
    using compare2pow63_loop_sgn [OF h, of 0 z incr] rd by auto
  show ?thesis
  proof (cases "c = 0")
    case True
    with c v rd [of 18] show ?thesis
      by (simp add: compare2pow63_def dval_pow63 sgn_if split: if_splits)
  next
    case False
    then have "sgn (dval ds - 2 ^ 63) = sgn c"
      using c v l by (auto simp: dval_pow63 sgn_if split: if_splits)
    with False c show ?thesis by (simp add: compare2pow63_def)
  qed
qed

section \<open>Correctness of the conversion to 64 bits\<close>

text \<open>
  The shape of a text that is an integer: white space, an optional sign, digits. The offset of
  the first character depends on the encoding.
\<close>

definition enc_incr :: "enc \<Rightarrow> nat" where "enc_incr e = (if e = SQLITE_UTF8 then 1 else 2)"
definition enc_off :: "enc \<Rightarrow> nat" where "enc_off e = (if e = SQLITE_UTF16BE then 1 else 0)"

lemma enc_incr_pos [simp]: "0 < enc_incr e"
  by (simp add: enc_incr_def)

definition text_chars :: "u8 list \<Rightarrow> enc \<Rightarrow> u8 list" where
  "text_chars z e = chars_from z (enc_incr e) (enc_off e)"

definition signs :: "u8 list set" where "signs = {[], [0x2d], [0x2b]}"

lemma isdig_not: "isdig d \<Longrightarrow> d \<noteq> 0x2d \<and> d \<noteq> 0x2b \<and> \<not> sqlite3Isspace d"
  by (auto simp: isdig_def sqlite3Isspace_iff word_le_def)

lemma not_space_sign: "\<not> sqlite3Isspace 0x2d" "\<not> sqlite3Isspace 0x2b"
  by (simp_all add: sqlite3Isspace_iff word_le_def)

text \<open>A text as a number: the sign, the digits and what follows them.\<close>

definition number_parts :: "u8 list \<Rightarrow> u8 list \<times> u8 list \<times> u8 list" where
  "number_parts cs =
    (let cs = dropWhile sqlite3Isspace cs;
         sg = (if cs \<noteq> [] \<and> hd cs \<in> {0x2d, 0x2b} then [hd cs] else []);
         cs = drop (length sg) cs
     in (sg, takeWhile isdig cs, dropWhile isdig cs))"

lemma number_parts_split:
  assumes "number_parts cs = (sg, ds, tr)"
  shows "cs = takeWhile sqlite3Isspace cs @ sg @ ds @ tr" "sg \<in> signs" "list_all isdig ds" "tr = [] \<or> \<not> isdig (hd tr)"
    "sg @ ds @ tr = [] \<or> \<not> sqlite3Isspace (hd (sg @ ds @ tr))" "sg = [] \<Longrightarrow> ds @ tr = [] \<or> hd (ds @ tr) \<notin> {0x2d, 0x2b}"
proof -
  define r where "r = dropWhile sqlite3Isspace cs"
  have p: "sg = (if r \<noteq> [] \<and> hd r \<in> {0x2d, 0x2b} then [hd r] else [])" "ds = takeWhile isdig (drop (length sg) r)"
    "tr = dropWhile isdig (drop (length sg) r)"
  proof -
    define x where "x = (if r \<noteq> [] \<and> hd r \<in> {0x2d, 0x2b} then [hd r] else [])"
    have "number_parts cs = (x, takeWhile isdig (drop (length x) r), dropWhile isdig (drop (length x) r))"
      unfolding number_parts_def Let_def r_def [symmetric] x_def [symmetric] by (rule refl)
    then have "x = sg" "ds = takeWhile isdig (drop (length x) r)" "tr = dropWhile isdig (drop (length x) r)" using assms by auto
    then show "sg = (if r \<noteq> [] \<and> hd r \<in> {0x2d, 0x2b} then [hd r] else [])" "ds = takeWhile isdig (drop (length sg) r)"
      "tr = dropWhile isdig (drop (length sg) r)" unfolding x_def by simp_all
  qed
  have sr: "sg @ drop (length sg) r = r" using p(1) by (cases r) auto
  then have r: "sg @ ds @ tr = r" using p(2,3) by simp
  have "cs = takeWhile sqlite3Isspace cs @ r" by (simp add: r_def)
  then show "cs = takeWhile sqlite3Isspace cs @ sg @ ds @ tr" by (simp only: r)
  show "sg \<in> signs" using p(1) by (auto simp: signs_def)
  show "list_all isdig ds" unfolding p(2) by (auto simp: list_all_iff dest: set_takeWhileD)
  show "tr = [] \<or> \<not> isdig (hd tr)" unfolding p(3) using hd_dropWhile by blast
  show "sg @ ds @ tr = [] \<or> \<not> sqlite3Isspace (hd (sg @ ds @ tr))" unfolding r r_def using hd_dropWhile by blast
  show "ds @ tr = [] \<or> hd (ds @ tr) \<notin> {0x2d, 0x2b}" if "sg = []"
    using r p(1) that by (auto split: if_splits)
qed

lemma atoi64_scan_eq:
  assumes z: "number_parts (text_chars z e) = (sg, ds, tr)" and sig: "sig = dropWhile (\<lambda>c. c = 0x30) ds"
  shows "\<exists>zStart n c. atoi64_scan z e = (sg = [0x2d], zStart, n, enc_incr e * length sig, of_int (dval sig), c)
     \<and> chars_from z (enc_incr e) n = sig @ tr \<and> (zStart = n \<longleftrightarrow> sig = ds) \<and> (tr \<noteq> [] \<longrightarrow> c = hd tr)"
proof -
  let ?k = "enc_incr e"
  note N = number_parts_split [OF z]
  define n1 where "n1 = skip_while sqlite3Isspace z ?k (enc_off e)"
  have "dropWhile sqlite3Isspace (text_chars z e) = sg @ ds @ tr"
    using N(1) takeWhile_dropWhile_id [of sqlite3Isspace "text_chars z e"] by (metis same_append_eq)
  then have c1: "chars_from z ?k n1 = sg @ ds @ tr"
    unfolding n1_def text_chars_def by (subst chars_from_skip_while) simp_all
  have n1: "n1 < length z \<longleftrightarrow> sg @ ds @ tr \<noteq> []" "sg @ ds @ tr \<noteq> [] \<Longrightarrow> z ! n1 = hd (sg @ ds @ tr)"
    using c1 chars_from_Nil_iff [of ?k z n1] chars_from_Cons_iff [of ?k z n1 "hd (sg @ ds @ tr)" "tl (sg @ ds @ tr)"] by auto
  define n2 where "n2 = n1 + ?k * length sg"
  have c2: "chars_from z ?k n2 = ds @ tr"
    using chars_from_drop [OF enc_incr_pos c1] by (simp add: n2_def)
  have sgn: "(n1 < length z \<and> z ! n1 = 0x2d) = (sg = [0x2d])"
    "(n1 < length z \<and> (z ! n1 = 0x2d \<or> z ! n1 = 0x2b)) = (length sg = 1)"
    using n1 N(2,6) by (auto simp: signs_def)
  then have n2: "(if n1 < length z \<and> (z ! n1 = 0x2d \<or> z ! n1 = 0x2b) then n1 + ?k else n1) = n2"
    using N(2) by (auto simp: n2_def signs_def)
  have tr0: "tr = [] \<or> hd tr \<noteq> 0x30" using N(4) by (auto simp: isdig_def)
  have dz: "dropWhile (\<lambda>c. c = 0x30) (ds @ tr) = sig @ tr" "takeWhile (\<lambda>c. c = 0x30) (ds @ tr) = takeWhile (\<lambda>c. c = 0x30) ds"
    unfolding sig using tr0 by (induction ds; cases tr; auto)+
  define n3 where "n3 = skip_while (\<lambda>c. c = 0x30) z ?k n2"
  have c3: "chars_from z ?k n3 = sig @ tr"
    unfolding n3_def by (subst chars_from_skip_while) (simp_all add: c2 dz(1))
  have "n3 = n2 + ?k * length (takeWhile (\<lambda>c. c = 0x30) ds)"
    unfolding n3_def by (simp add: skip_while_eq c2 dz(2))
  then have n23: "n2 = n3 \<longleftrightarrow> sig = ds"
    using takeWhile_dropWhile_id [of "\<lambda>c. c = 0x30" ds] sig
    by (metis add_cancel_right_right append_self_conv2 enc_incr_pos length_0_conv mult_is_0 neq0_conv self_append_conv2)
  have dsig: "list_all isdig sig" using N(3) unfolding sig by (auto simp: list_all_iff dest: set_dropWhileD)
  then have dl: "takeWhile isdig (sig @ tr) = sig" "dropWhile isdig (sig @ tr) = tr"
    using N(4) by (auto simp: list_all_iff takeWhile_eq_Nil_iff dropWhile_eq_self_iff)
  have "atoi64_scan z e = (n1 < length z \<and> z ! n1 = 0x2d, n2, n3, digit_loop z ?k n3 0 0 0)"
    unfolding atoi64_scan_def Let_def enc_incr_def [symmetric] enc_off_def [symmetric]
      n1_def [symmetric] n2 n3_def [symmetric]
    by (simp split: prod.split)
  moreover have "\<exists>c. digit_loop z ?k n3 0 0 0 = (?k * length sig, of_int (dval sig), c) \<and> (tr \<noteq> [] \<longrightarrow> c = hd tr)"
    by (simp only: digit_loop_eq [OF enc_incr_pos] Let_def digit_fold c3 dl add_0_right) simp
  ultimately show ?thesis using sgn(1) n23 c3 by auto
qed

lemma uint_of_int_dval:
  "list_all isdig ds \<Longrightarrow> length ds \<le> 19 \<Longrightarrow> uint (of_int (dval ds) :: u64) = dval ds"
proof -
  assume "list_all isdig ds" "length ds \<le> 19"
  moreover have "(10 :: int) ^ length ds \<le> 10 ^ 19"
    using \<open>length ds \<le> 19\<close> by (intro power_increasing) auto
  ultimately have "0 \<le> dval ds" "dval ds < 2 ^ 64"
    using dval_bounds [of ds] by auto
  then show ?thesis by (simp add: uint_word_of_int_eq take_bit_eq_mod)
qed

lemma sqlite3Atoi64_eq:
  assumes z: "number_parts (text_chars z e) = (sg, ds, tr)" and v: "v = (if sg = [0x2d] then - dval ds else dval ds)"
  shows "\<exists>r num. sqlite3Atoi64 z e = Some (r, num)
    \<and> r = (if ds = [] \<or> tr \<noteq> [] \<and> hd tr \<noteq> 0 then 1 else if i64_range v then 0 else if v = 2 ^ 63 then 2 else 1)
    \<and> (i64_range v \<longrightarrow> num = v) \<and> (v = 2 ^ 63 \<longrightarrow> num = SMALLEST_INT64)"
proof -
  let ?k = "enc_incr e"
  note N = number_parts_split [OF z]
  define sig where "sig = dropWhile (\<lambda>c. c = 0x30) ds"
  obtain zStart n c where sc: "atoi64_scan z e =
      (sg = [0x2d], zStart, n, ?k * length sig, of_int (dval sig), c)"
    and n: "chars_from z ?k n = sig @ tr" "zStart = n \<longleftrightarrow> sig = ds" "tr \<noteq> [] \<Longrightarrow> c = hd tr"
    using atoi64_scan_eq [OF z sig_def] by blast
  have dsig: "list_all isdig sig" using N(3) unfolding sig_def by (auto simp: list_all_iff dest: set_dropWhileD)
  have ds: "dval ds = dval sig"
    using dval_zeros [of "takeWhile (\<lambda>c. c = 0x30) ds" sig]
    by (auto simp: sig_def list_all_iff dest: set_takeWhileD)
  have "n + ?k * length sig < length z \<longleftrightarrow> tr \<noteq> []"
    using chars_from_drop [of ?k z n sig tr] n(1) chars_from_Nil_iff [of ?k z "n + ?k * length sig"] by auto
  then have stop: "c \<noteq> 0 \<and> n + ?k * length sig < length z \<or> ?k * length sig = 0 \<and> zStart = n \<longleftrightarrow> ds = [] \<or> tr \<noteq> [] \<and> hd tr \<noteq> 0"
  proof -
    have "?k \<noteq> 0" using enc_incr_pos [of e] by linarith
    then have "?k * length sig = 0 \<longleftrightarrow> sig = []" unfolding mult_is_0 length_0_conv by blast
    moreover have "ds = [] \<Longrightarrow> sig = []" by (simp add: sig_def)
    ultimately have "?k * length sig = 0 \<and> zStart = n \<longleftrightarrow> ds = []" using n(2) by metis
    then show ?thesis using n(3) \<open>n + ?k * length sig < length z \<longleftrightarrow> tr \<noteq> []\<close> by auto
  qed
  define num where "num = (if uint (of_int (dval sig) :: u64) > LARGEST_INT64 then SMALLEST_INT64
    else if sg = [0x2d] then - uint (of_int (dval sig) :: u64) else uint (of_int (dval sig) :: u64))"
  have run: "sqlite3Atoi64 z e =
    (if (ds = [] \<or> tr \<noteq> [] \<and> hd tr \<noteq> 0) \<or> length sig > 19 then Some (1, num)
     else if length sig < 19 then Some (0, num)
     else do { c \<leftarrow> compare2pow63 (drop n z) ?k;
               if c < 0 then Some (0, num) else if c > 0 then Some (1, num)
               else Some (if sg = [0x2d] then 0 else 2, num) })"
  proof -
    obtain L where L: "L = ?k * length sig" "19 * ?k < L \<longleftrightarrow> 19 < length sig" "L < 19 * ?k \<longleftrightarrow> length sig < 19"
      by (simp add: mult.commute)
    show ?thesis
      unfolding sqlite3Atoi64_def Let_def enc_incr_def [symmetric] num_def
      by (simp only: sc prod.case L(2,3) stop [unfolded L(1) [symmetric]] L(1) [symmetric] disj_assoc [symmetric])
  qed
  have small: "uint (of_int (dval sig) :: u64) = dval sig" if "length sig \<le> 19"
    using dsig that by (rule uint_of_int_dval)
  have pos: "0 \<le> dval sig" "dval sig < 10 ^ length sig" using dval_bounds [OF dsig] by auto
  consider "length sig > 19" | "length sig < 19" | "length sig = 19" by linarith
  then show ?thesis
  proof cases
    case 1
    then obtain d ds' where sig': "sig = d # ds'" by (cases sig) auto
    then have "d \<noteq> 0x30" using hd_dropWhile [of "\<lambda>c. c = 0x30" ds] by (simp flip: sig_def)
    then have "10 ^ length ds' \<le> dval sig" using dval_leading dsig sig' by simp
    moreover have "(10 :: int) ^ 19 \<le> 10 ^ length ds'"
      using 1 sig' by (intro power_increasing) auto
    ultimately have "10 ^ 19 \<le> dval sig" by linarith
    then have "\<not> i64_range v \<and> v \<noteq> 2 ^ 63" using v ds by (auto simp: i64_limits)
    with 1 run show ?thesis by simp
  next
    case 2
    then have "(10 :: int) ^ length sig \<le> 10 ^ 18" by (intro power_increasing) auto
    then have "dval sig < 10 ^ 18" using pos by linarith
    then have "i64_range v \<and> num = v \<and> v \<noteq> 2 ^ 63"
      using v ds pos small 2 by (auto simp: num_def i64_limits)
    with 2 run show ?thesis by simp
  next
    case 3
    have "rd (drop n z) (j * ?k) = Some (sig ! j)" if "j < 19" for j
      using chars_from_nth [of ?k j z n] n(1) 3 that by (auto simp: rd_def nth_append split: if_splits)
    then obtain c where c: "compare2pow63 (drop n z) ?k = Some c" "sgn c = sgn (dval sig - 2 ^ 63)"
      using compare2pow63_sgn [OF dsig 3] by blast
    have num: "num = (if dval sig > LARGEST_INT64 then SMALLEST_INT64
        else if sg = [0x2d] then - dval sig else dval sig)"
      using small 3 by (simp add: num_def)
    consider "dval sig < 2 ^ 63" | "dval sig = 2 ^ 63" | "dval sig > 2 ^ 63" by linarith
    then show ?thesis
    proof cases
      case 1
      then have "c < 0" using c(2) by (simp add: sgn_if split: if_splits)
      with 1 3 run c(1) v ds num pos show ?thesis by (auto simp: i64_limits)
    next
      case 2
      then have "c = 0" using c(2) by (simp add: sgn_if split: if_splits)
      with 2 3 run c(1) v ds num show ?thesis by (auto simp: i64_limits)
    next
      case 3
      then have "c > 0" using c(2) by (simp add: sgn_if split: if_splits)
      with 3 \<open>length sig = 19\<close> run c(1) v ds num show ?thesis by (auto simp: i64_limits)
    qed
  qed
qed

section \<open>Correctness of the conversion to 32 bits\<close>

lemma isdig_uint: "isdig c \<longleftrightarrow> 0 \<le> uint c - 0x30 \<and> uint c - 0x30 \<le> 9"
  by (auto simp: isdig_def word_le_def)

lemma getInt32_zeros_eq: "getInt32_zeros z = dropWhile (\<lambda>c. c = 0x30) z"
  by (induction z) auto

lemma getInt32_loop_eq:
  assumes "list_all isdig ds" "\<not> isdig x" "i \<le> min 11 (length ds)" "v = dval (take i ds)"
  shows "getInt32_loop (ds @ x # rest) i v = Some (min 11 (length ds), dval (take (min 11 (length ds)) ds))"
  using assms(3,4)
proof (induction "11 - i" arbitrary: i v)
  case 0
  then show ?case by (simp add: getInt32_loop.simps)
next
  case (Suc m)
  then have i11: "i < 11" by simp
  show ?case
  proof (cases "i < length ds")
    case True
    then have d: "isdig (ds ! i)" using assms(1) by (simp add: list_all_length)
    have "getInt32_loop (ds @ x # rest) i v = getInt32_loop (ds @ x # rest) (i + 1) (v * 10 + (uint (ds ! i) - 0x30))"
      using i11 True d
      by (subst getInt32_loop.simps) (simp add: rd_def nth_append isdig_uint Let_def)
    moreover have "v * 10 + (uint (ds ! i) - 0x30) = dval (take (i + 1) ds)"
      using True Suc.prems(2) by (simp add: take_Suc_conv_app_nth)
    ultimately show ?thesis
      using Suc.hyps(1) [of "i + 1"] Suc.hyps(2) Suc.prems True by simp
  next
    case False
    with Suc.prems have "i = length ds" by simp
    with i11 Suc.prems assms(2) show ?thesis
      by (subst getInt32_loop.simps) (auto simp: rd_def isdig_uint Let_def)
  qed
qed

lemma sqlite3GetInt32_eq:
  assumes sg: "sg \<in> signs" and ds: "list_all isdig ds" and x: "\<not> isdig x"
    and first: "sg = [] \<Longrightarrow> ds = [] \<Longrightarrow> x \<noteq> 0x2d \<and> x \<noteq> 0x2b"
    and v: "v = (if sg = [0x2d] then - dval ds else dval ds)"
  shows "sqlite3GetInt32 (sg @ ds @ x # rest) =
    Some (if - (2 ^ 31) \<le> v \<and> v \<le> 2 ^ 31 - 1 then Some v else None)"
proof -
  define sig where "sig = dropWhile (\<lambda>c. c = 0x30) ds"
  let ?z = "sg @ ds @ x # rest" and ?n = "min 11 (length sig)"
  have dsig: "list_all isdig sig" using ds unfolding sig_def by (auto simp: list_all_iff dest: set_dropWhileD)
  have dv: "dval ds = dval sig"
    using dval_zeros [of "takeWhile (\<lambda>c. c = 0x30) ds" sig]
    by (auto simp: sig_def list_all_iff dest: set_takeWhileD)
  have x30: "x \<noteq> 0x30" using x by (auto simp: isdig_def)
  have z0: "rd ?z 0 = Some (hd ?z)" by (cases ?z) (auto simp: rd_def)
  have neg: "hd ?z = 0x2d \<longleftrightarrow> sg = [0x2d]" "hd ?z = 0x2d \<or> hd ?z = 0x2b \<longleftrightarrow> sg \<noteq> []"
    using sg first ds isdig_not [of "hd ds"] by (cases ds; auto simp: signs_def)+
  have tlz: "(if hd ?z = 0x2d \<or> hd ?z = 0x2b then tl ?z else ?z) = ds @ x # rest"
    using sg neg by (auto simp: signs_def)
  have zeros: "getInt32_zeros (ds @ x # rest) = sig @ x # rest"
    using x30 by (simp add: getInt32_zeros_eq sig_def dropWhile_append)
  have loop: "getInt32_loop (sig @ x # rest) 0 0 = Some (?n, dval (take ?n sig))"
    using getInt32_loop_eq [OF dsig x, of 0 0 rest] by simp
  have run: "sqlite3GetInt32 ?z = (if ?n > 10 then Some None
      else if dval (take ?n sig) - (if sg = [0x2d] then 1 else 0) > 2147483647 then Some None
      else Some (Some (if sg = [0x2d] then - dval (take ?n sig) else dval (take ?n sig))))"
    unfolding sqlite3GetInt32_def z0 Let_def Option.bind.simps tlz
    by (simp only: Option.bind.simps neg(1) zeros loop prod.case)
  show ?thesis
  proof (cases "length sig > 10")
    case True
    then obtain d ds' where sig': "sig = d # ds'" by (cases sig) auto
    then have "d \<noteq> 0x30" using hd_dropWhile [of "\<lambda>c. c = 0x30" ds] by (simp flip: sig_def)
    then have "10 ^ length ds' \<le> dval sig" using dval_leading dsig sig' by simp
    moreover have "(10 :: int) ^ 10 \<le> 10 ^ length ds'"
      using True sig' by (intro power_increasing) auto
    ultimately have "10 ^ 10 \<le> dval sig" by linarith
    with True v dv run show ?thesis by simp
  next
    case False
    then have n: "?n = length sig" by simp
    show ?thesis
      using False v dv run dval_bounds [OF dsig] unfolding n by auto
  qed
qed

section \<open>Properties\<close>

text \<open>
  \<^bold>\<open>C27\<close>. On 64-bit operands \<^const>\<open>sqlite3AddInt64\<close> and \<^const>\<open>sqlite3SubInt64\<close> store the
  exact sum or difference and return 0 when it is representable, and otherwise return 1 and
  leave the operand as it was.
\<close>

theorem add_sub_int64_exact:
  assumes "i64_range a" "i64_range b"
  shows "sqlite3AddInt64 a b = (if i64_range (a + b) then (0, a + b) else (1, a))
    \<and> sqlite3SubInt64 a b = (if i64_range (a - b) then (0, a - b) else (1, a))"
  using assms by (simp add: sqlite3AddInt64_exact sqlite3SubInt64_exact)

theorem add_sub_int64_exact_witness:
  "sqlite3AddInt64 9223372036854775807 1 =
     (if i64_range (9223372036854775807 + 1) then (0, 9223372036854775807 + 1) else (1, 9223372036854775807))
   \<and> sqlite3SubInt64 9223372036854775807 1 =
     (if i64_range (9223372036854775807 - 1) then (0, 9223372036854775807 - 1) else (1, 9223372036854775807))"
  by (rule add_sub_int64_exact) (simp_all add: i64_limits)

text \<open>
  \<^bold>\<open>C28\<close>. \<^const>\<open>sqlite3MulInt64\<close> never raises a false overflow: a product that fits in 64 bits
  is returned exactly. And where the product of the two low halves fits, a product that does
  not fit is reported and the operand is left as it was.
\<close>

theorem mul_int64_exact:
  assumes "i64_range a" "i64_range b"
    and "i64_range (a * b) \<or> i64_range (tmod a TWOPOWER32 * tmod b TWOPOWER32)"
  shows "sqlite3MulInt64 a b = (if i64_range (a * b) then (0, a * b) else (1, a))"
  using assms product_in_range_low sqlite3MulInt64_exact by blast

theorem mul_int64_exact_witness:
  "sqlite3MulInt64 (- 4294967296) 2147483648 =
     (if i64_range (- 4294967296 * 2147483648) then (0, - 4294967296 * 2147483648) else (1, - 4294967296))"
  by (rule mul_int64_exact) (simp_all add: i64_limits)

text \<open>
  \<^bold>\<open>C29\<close>. The remaining case is a defect: the product of the low halves is computed in 64 bits
  without a check. Any two numbers below \<open>2\<^sup>3\<^sup>2\<close> whose product does not fit in 64 bits are multiplied
  with the result code of success, and the product that is stored is negative.
\<close>

theorem mul_int64_undetected_overflow:
  assumes "0 \<le> a" "a < 2 ^ 32" "0 \<le> b" "b < 2 ^ 32" "\<not> i64_range (a * b)"
  shows "sqlite3MulInt64 a b = (0, a * b - 2 ^ 64) \<and> a * b - 2 ^ 64 < 0"
  using sqlite3MulInt64_wraps [OF assms] .

theorem mul_int64_undetected_overflow_witness:
  "sqlite3MulInt64 4000000000 3000000000 = (0, 4000000000 * 3000000000 - 2 ^ 64) \<and> 4000000000 * 3000000000 - 2 ^ 64 < (0 :: int)"
  by (rule mul_int64_undetected_overflow) (simp_all add: i64_limits)

text \<open>
  \<^bold>\<open>C21\<close>. \<^const>\<open>sqlite3Atoi64\<close> on every text in the three encodings. The text is white space, an
  optional sign, digits, and whatever follows them. Without digits, or when something other than a
  zero character follows, the result is 1; otherwise it is 0 if the number fits in 64 bits, 2 for
  exactly \<open>2\<^sup>6\<^sup>3\<close>, and 1 for every other number. The number is stored exactly whenever it fits,
  trailing text or not, and \<open>2\<^sup>6\<^sup>3\<close> is stored as its negative. (The comment in \<^verbatim>\<open>util.c\<close> writes 9223372036854665808
  where \<open>2\<^sup>6\<^sup>3\<close> is meant; for that number, which fits, the result is 0.) The routine always returns (it never reads
  outside the text).
\<close>

theorem atoi64_correct:
  assumes "number_parts (text_chars z e) = (sg, ds, tr)" "v = (if sg = [0x2d] then - dval ds else dval ds)"
  shows "\<exists>r num. sqlite3Atoi64 z e = Some (r, num)
    \<and> r = (if ds = [] \<or> tr \<noteq> [] \<and> hd tr \<noteq> 0 then 1 else if i64_range v then 0 else if v = 2 ^ 63 then 2 else 1)
    \<and> (i64_range v \<longrightarrow> num = v) \<and> (v = 2 ^ 63 \<longrightarrow> num = SMALLEST_INT64)"
  using assms by (rule sqlite3Atoi64_eq)

theorem atoi64_correct_witness:
  "sqlite3Atoi64 [0, 0x20, 0, 0x2d, 0, 0x34, 0, 0x32, 0, 0x78] SQLITE_UTF16BE = Some (1, - 42)"
proof -
  have "number_parts (text_chars [0, 0x20, 0, 0x2d, 0, 0x34, 0, 0x32, 0, 0x78] SQLITE_UTF16BE) = ([0x2d], [0x34, 0x32], [0x78])"
    by (simp add: number_parts_def text_chars_def enc_incr_def enc_off_def chars_from.simps ctype_iffs isdig_def)
  from atoi64_correct [OF this refl] show ?thesis by (auto simp: dval_def i64_limits)
qed

text \<open>
  \<^const>\<open>sqlite3GetInt32\<close> on an optional sign, digits and a terminator: it returns the
  value exactly when that fits in 32 bits. With no digits at all it returns true with the
  value 0.
\<close>

theorem getInt32_correct:
  assumes "sg \<in> signs" "list_all isdig ds" "\<not> isdig x"
    "sg = [] \<Longrightarrow> ds = [] \<Longrightarrow> x \<noteq> 0x2d \<and> x \<noteq> 0x2b"
    "v = (if sg = [0x2d] then - dval ds else dval ds)"
  shows "sqlite3GetInt32 (sg @ ds @ x # rest) =
    Some (if - (2 ^ 31) \<le> v \<and> v \<le> 2 ^ 31 - 1 then Some v else None)"
  using assms by (rule sqlite3GetInt32_eq)

end
