(* ===== verification/UtilStr.thy ===== *)
theory UtilStr
  imports Ctype
begin

text \<open>
  The string routines of \<^verbatim>\<open>util.c\<close> (\<^verbatim>\<open>sqlite3Strlen30\<close>, \<^verbatim>\<open>sqlite3Dequote\<close>,
  \<^verbatim>\<open>sqlite3_stricmp\<close>, \<^verbatim>\<open>sqlite3_strnicmp\<close>, \<^verbatim>\<open>sqlite3HexToInt\<close>, \<^verbatim>\<open>sqlite3HexToBlob\<close>) and
  their inverses in \<^verbatim>\<open>func.c\<close>: the \<^verbatim>\<open>SQLITE_TEXT\<close> and \<^verbatim>\<open>SQLITE_BLOB\<close> cases of
  \<^verbatim>\<open>quoteFunc\<close>, and \<^verbatim>\<open>hexFunc\<close>. A C string is a byte buffer that holds a zero byte; a read
  or write outside the buffer is \<^const>\<open>None\<close>. The Boolean \<open>ok\<close> says whether the allocation
  of the routine succeeds.
\<close>

section \<open>Definitions\<close>

fun strlen_loop :: "u8 list \<Rightarrow> nat option" where
  "strlen_loop [] = None"
| "strlen_loop (c # z) = (if c \<noteq> 0 then map_option Suc (strlen_loop z) else Some 0)"

definition sqlite3Strlen30 :: "u8 list option \<Rightarrow> nat option" where
  "sqlite3Strlen30 z = (case z of None \<Rightarrow> Some 0
     | Some s \<Rightarrow> map_option (\<lambda>n. n mod 0x40000000) (strlen_loop s))"

text \<open>The in-place loop of \<^verbatim>\<open>sqlite3Dequote\<close>, with the read index \<open>i\<close> and the write index \<open>j\<close>.\<close>

function dequote_loop :: "u8 list \<Rightarrow> u8 \<Rightarrow> nat \<Rightarrow> nat \<Rightarrow> (nat \<times> u8 list) option" where
  "dequote_loop z quote i j = do {
     zi \<leftarrow> rd z i;
     if zi = 0 then map_option (\<lambda>z'. (j, z')) (wr z j 0)
     else if zi = quote then do {
       zi1 \<leftarrow> rd z (i + 1);
       if zi1 = quote then do { z' \<leftarrow> wr z j quote; dequote_loop z' quote (i + 2) (j + 1) }
       else map_option (\<lambda>z'. (j, z')) (wr z j 0) }
     else do { z' \<leftarrow> wr z j zi; dequote_loop z' quote (i + 1) (j + 1) } }"
  by pat_completeness auto
termination
  by (relation "measure (\<lambda>(z, quote, i, j). length z - i)") (auto simp: rd_eq_Some_iff wr_eq_Some_iff)

text \<open>The return value \<open>None\<close> of the inner option is the C code's \<open>-1\<close> (no dequoting).\<close>

definition sqlite3Dequote :: "u8 list option \<Rightarrow> (nat option \<times> u8 list option) option" where
  "sqlite3Dequote z = (case z of None \<Rightarrow> Some (None, None)
     | Some s \<Rightarrow> do {
         q \<leftarrow> rd s 0;
         if q = 0x27 \<or> q = 0x22 \<or> q = 0x60 \<or> q = 0x5b then do {
           (n, s') \<leftarrow> dequote_loop s (if q = 0x5b then 0x5d else q) 1 0;
           Some (Some n, Some s') }
         else Some (None, Some s) })"

fun sqlite3_stricmp :: "u8 list \<Rightarrow> u8 list \<Rightarrow> int option" where
  "sqlite3_stricmp (a # as) (b # bs) =
     (if a \<noteq> 0 \<and> sqlite3UpperToLower a = sqlite3UpperToLower b then sqlite3_stricmp as bs
      else Some (uint (sqlite3UpperToLower a) - uint (sqlite3UpperToLower b)))"
| "sqlite3_stricmp _ _ = None"

fun sqlite3_strnicmp :: "u8 list \<Rightarrow> u8 list \<Rightarrow> nat \<Rightarrow> int option" where
  "sqlite3_strnicmp _ _ 0 = Some 0"
| "sqlite3_strnicmp (a # as) (b # bs) (Suc n) =
     (if a \<noteq> 0 \<and> sqlite3UpperToLower a = sqlite3UpperToLower b then sqlite3_strnicmp as bs n
      else Some (uint (sqlite3UpperToLower a) - uint (sqlite3UpperToLower b)))"
| "sqlite3_strnicmp _ _ (Suc n) = None"

definition sqlite3HexToInt :: "u8 \<Rightarrow> u8" where
  "sqlite3HexToInt h = (h + 9 * (1 AND drop_bit 6 h)) AND 0xf"

fun hexToBlob_loop :: "u8 list \<Rightarrow> nat \<Rightarrow> u8 list option" where
  "hexToBlob_loop (a # b # z) (Suc (Suc n)) =
     map_option ((#) (push_bit 4 (sqlite3HexToInt a) OR sqlite3HexToInt b)) (hexToBlob_loop z n)"
| "hexToBlob_loop (a # b # z) (Suc 0) =
     Some [push_bit 4 (sqlite3HexToInt a) OR sqlite3HexToInt b]"
| "hexToBlob_loop _ 0 = Some []"
| "hexToBlob_loop _ (Suc n) = None"

text \<open>
  \<^verbatim>\<open>sqlite3HexToBlob(db, z, n)\<close>: the loop runs while \<open>i < n - 1\<close>, so its bound is \<open>n - 1\<close>;
  the result is the zero-terminated blob, or the null pointer when the allocation fails.
\<close>

definition sqlite3HexToBlob :: "bool \<Rightarrow> u8 list \<Rightarrow> nat \<Rightarrow> u8 list option option" where
  "sqlite3HexToBlob ok z n =
     (if ok then map_option (\<lambda>b. Some (b @ [0])) (hexToBlob_loop z (n - 1)) else Some None)"

definition hexdigits :: "u8 list" where
  "hexdigits = [0x30, 0x31, 0x32, 0x33, 0x34, 0x35, 0x36, 0x37, 0x38, 0x39, 0x41, 0x42, 0x43, 0x44, 0x45, 0x46]"

fun hexFunc_loop :: "u8 list \<Rightarrow> u8 list" where
  "hexFunc_loop [] = []"
| "hexFunc_loop (c # b) =
     hexdigits ! unat (drop_bit 4 c AND 0xf) # hexdigits ! unat (c AND 0xf) # hexFunc_loop b"

text \<open>\<^verbatim>\<open>hex(X)\<close>: the text result, or \<^const>\<open>None\<close> when the allocation fails.\<close>

definition hexFunc :: "bool \<Rightarrow> u8 list \<Rightarrow> u8 list option" where
  "hexFunc ok blob = (if ok then Some (hexFunc_loop blob) else None)"

text \<open>\<^verbatim>\<open>quote(X)\<close> of a blob: the zero-terminated buffer handed to \<^verbatim>\<open>sqlite3_result_text\<close>.\<close>

definition quoteFunc_blob :: "bool \<Rightarrow> u8 list \<Rightarrow> u8 list option" where
  "quoteFunc_blob ok blob =
     (if ok then Some ([0x58, 0x27] @ hexFunc_loop blob @ [0x27, 0]) else None)"

text \<open>
  The text case: a pass that counts the characters and the single quotes, the allocation, and the
  copy loop, which doubles every single quote. The block is returned, with the zero byte behind the
  text that \<^verbatim>\<open>sqlite3_result_text\<close> takes over; \<open>junk\<close> is what a fresh block holds.
\<close>

fun quote_count :: "u8 list \<Rightarrow> (nat \<times> nat) option" where
  "quote_count [] = None"
| "quote_count (c # zArg) =
     (if c = 0 then Some (0, 0)
      else do { (i, n) \<leftarrow> quote_count zArg; Some (i + 1, if c = 0x27 then n + 1 else n) })"

fun quote_loop :: "u8 list \<Rightarrow> u8 list \<Rightarrow> nat \<Rightarrow> (u8 list \<times> nat) option" where
  "quote_loop [] z j = None"
| "quote_loop (c # zArg) z j =
     (if c = 0 then Some (z, j)
      else do {
        z \<leftarrow> wr z j c;
        if c = 0x27 then do { z \<leftarrow> wr z (j + 1) 0x27; quote_loop zArg z (j + 2) }
        else quote_loop zArg z (j + 1) })"

definition quoteFunc_text :: "bool \<Rightarrow> (nat \<Rightarrow> u8) \<Rightarrow> u8 list option \<Rightarrow> u8 list option option" where
  "quoteFunc_text ok junk zArg = (case zArg of None \<Rightarrow> Some None
     | Some zArg \<Rightarrow> do {
         (i, n) \<leftarrow> quote_count zArg;
         if ok then do {
           let z = map junk [0..<i + n + 3];
           z \<leftarrow> wr z 0 0x27;
           (z, j) \<leftarrow> quote_loop zArg z 1;
           z \<leftarrow> wr z j 0x27;
           z \<leftarrow> wr z (j + 1) 0;
           Some (Some z)
         } else Some None })"

declare dequote_loop.simps [simp del]

section \<open>Quoting and dequoting\<close>

text \<open>Doubling the quote character \<open>q\<close>.\<close>

fun esc :: "u8 \<Rightarrow> u8 list \<Rightarrow> u8 list" where
  "esc q [] = []"
| "esc q (c # s) = (if c = q then c # c # esc q s else c # esc q s)"

lemma quote_count_eq: "0 \<notin> set s \<Longrightarrow> \<exists>n. quote_count (s @ 0 # rest) = Some (length s, n) \<and> length s + n = length (esc 0x27 s)"
  by (induction s) auto

text \<open>The copy loop, when the block still has room for the quoted text.\<close>

lemma quote_loop_eq:
  "0 \<notin> set s \<Longrightarrow> length (esc 0x27 s) \<le> length m \<Longrightarrow>
    quote_loop (s @ 0 # rest) (a @ m) (length a) =
      Some ((a @ esc 0x27 s) @ drop (length (esc 0x27 s)) m, length a + length (esc 0x27 s))"
proof (induction s arbitrary: a m)
  case (Cons c s)
  show ?case
  proof (cases "c = 0x27")
    case True
    obtain x y m' where m: "m = x # y # m'" using True Cons.prems(2) by (cases m; cases "tl m") auto
    then have "wr (a @ m) (length a) c = Some (a @ c # y # m')" "wr (a @ c # y # m') (length a + 1) 0x27 = Some (a @ c # 0x27 # m')"
      by (simp_all add: wr_def list_update_append)
    then show ?thesis using True m Cons.prems Cons.IH [of m' "a @ [c, c]"] by simp
  next
    case False
    obtain x m' where m: "m = x # m'" using False Cons.prems(2) by (cases m) auto
    then have "wr (a @ m) (length a) c = Some (a @ c # m')" by (simp add: wr_def)
    then show ?thesis using False m Cons.prems Cons.IH [of m' "a @ [c]"] by simp
  qed
qed simp

lemma quoteFunc_text_eq:
  assumes "0 \<notin> set s"
  shows "quoteFunc_text True junk (Some (s @ 0 # rest)) = Some (Some (0x27 # esc 0x27 s @ [0x27, 0]))"
proof -
  let ?e = "esc 0x27 s"
  obtain n where n: "quote_count (s @ 0 # rest) = Some (length s, n)" "length s + n = length ?e"
    using quote_count_eq [OF assms, of rest] by blast
  define z where "z = map junk [0..<length s + n + 3]"
  have "length z = length ?e + 3" using n(2) by (simp add: z_def)
  then obtain x m where z: "z = x # m" "length m = length ?e + 2" by (cases z) auto
  obtain p q where m: "drop (length ?e) m = [p, q]"
    using z(2) length_drop [of "length ?e" m] by (auto simp: length_Suc_conv numeral_2_eq_2 simp del: length_drop)
  have l: "quote_loop (s @ 0 # rest) (0x27 # m) 1 = Some (0x27 # ?e @ [p, q], 1 + length ?e)"
    using quote_loop_eq [OF assms, of m rest "[0x27]"] z(2) m by simp
  have "wr z 0 0x27 = Some (0x27 # m)" "wr (0x27 # ?e @ [p, q]) (1 + length ?e) 0x27 = Some (0x27 # ?e @ [0x27, q])"
    "wr (0x27 # ?e @ [0x27, q]) (1 + length ?e + 1) 0 = Some (0x27 # ?e @ [0x27, 0])"
    by (simp_all add: z(1) wr_def list_update_append)
  then show ?thesis using n(1) l by (simp add: quoteFunc_text_def z_def [symmetric])
qed

lemma dequote_loop_eq:
  assumes "quote \<noteq> 0" "x \<noteq> quote" "0 \<notin> set s"
    and "drop i z = esc quote s @ quote # x # rest" "j < i"
  shows "\<exists>z'. dequote_loop z quote i j = Some (j + length s, z') \<and> length z' = length z
           \<and> take (j + length s + 1) z' = take j z @ s @ [0]"
  using assms(3,4,5)
proof (induction s arbitrary: z i j)
  case Nil
  then have d: "drop i z = quote # x # rest" by simp
  note d' = drop_Suc_via [OF d]
  have "j < length z" using drop_length_via [OF d] Nil.prems(3) by simp
  then show ?case
    using rd_via_drop [OF d] rd_via_drop [OF d'] assms(1,2)
    by (simp add: dequote_loop.simps [of z] wr_def take_Suc_update)
next
  case (Cons c s)
  have j: "j < length z" using Cons.prems(2,3) drop_length_via [of i z] by (auto split: if_splits)
  have c0: "c \<noteq> 0" "0 \<notin> set s" using Cons.prems(1) by auto
  let ?z = "z[j := c]"
  have fin: "\<exists>z'. dequote_loop z quote i j = Some (j + length (c # s), z') \<and> length z' = length z
      \<and> take (j + length (c # s) + 1) z' = take j z @ (c # s) @ [0]"
    if "dequote_loop z quote i j = dequote_loop ?z quote i' (j + 1)"
      "drop i' ?z = esc quote s @ quote # x # rest" "j + 1 < i'" for i'
    using Cons.IH [OF c0(2) that(2,3)] that(1) j by (auto simp: take_Suc_update)
  show ?case
  proof (cases "c = quote")
    case True
    then have d: "drop i z = quote # quote # esc quote s @ quote # x # rest" using Cons.prems(2) by simp
    note d' = drop_Suc_via [OF d]
    show ?thesis
      by (rule fin [of "i + 2"])
        (use True j c0 Cons.prems(3) rd_via_drop [OF d] rd_via_drop [OF d'] drop_Suc_via [OF d'] assms(1) in
          \<open>simp_all add: dequote_loop.simps [of z] wr_def\<close>)
  next
    case False
    then have d: "drop i z = c # esc quote s @ quote # x # rest" using Cons.prems(2) by simp
    show ?thesis
      by (rule fin [of "i + 1"])
        (use False j c0 Cons.prems(3) rd_via_drop [OF d] drop_Suc_via [OF d] in
          \<open>simp_all add: dequote_loop.simps [of z] wr_def\<close>)
  qed
qed

text \<open>The quote characters the routine accepts, with the closing character of each.\<close>

definition quote_pairs :: "(u8 \<times> u8) set" where
  "quote_pairs = {(0x27, 0x27), (0x22, 0x22), (0x60, 0x60), (0x5b, 0x5d)}"

lemma sqlite3Dequote_eq:
  assumes "(q, q') \<in> quote_pairs" "0 \<notin> set s" "x \<noteq> q'"
  shows "\<exists>z'. sqlite3Dequote (Some (q # esc q' s @ q' # x # rest)) = Some (Some (length s), Some z')
    \<and> take (length s + 1) z' = s @ [0]"
proof -
  let ?z = "q # esc q' s @ q' # x # rest"
  have q: "q' \<noteq> 0" "(if q = 0x5b then 0x5d else q) = q'" "q = 0x27 \<or> q = 0x22 \<or> q = 0x60 \<or> q = 0x5b"
    using assms(1) by (auto simp: quote_pairs_def)
  obtain z' where "dequote_loop ?z q' 1 0 = Some (length s, z')" "take (length s + 1) z' = s @ [0]"
    using dequote_loop_eq [OF q(1) assms(3,2), of 1 ?z rest 0] by auto
  with q(2,3) show ?thesis
    by (simp add: sqlite3Dequote_def rd_def)
qed

section \<open>Case-insensitive comparison\<close>

lemma sqlite3_stricmp_eq_0:
  assumes "0 \<notin> set s" "0 \<notin> set t"
  shows "\<exists>r. sqlite3_stricmp (s @ 0 # s') (t @ 0 # t') = Some r
    \<and> (r = 0 \<longleftrightarrow> map sqlite3UpperToLower s = map sqlite3UpperToLower t)"
  using assms
proof (induction s arbitrary: t)
  case Nil
  then show ?case by (cases t) (auto simp: uint_0_iff)
next
  case (Cons a s)
  show ?case
  proof (cases t)
    case Nil
    with Cons.prems show ?thesis by (auto simp: uint_0_iff)
  next
    case (Cons b t')
    with Cons.prems Cons.IH [of t'] show ?thesis
      by (auto simp: word_uint_eq_iff [symmetric])
  qed
qed

lemma sqlite3_stricmp_antisym:
  "sqlite3_stricmp s t = Some r \<Longrightarrow> sqlite3_stricmp t s = Some (- r)"
  by (induction s t rule: sqlite3_stricmp.induct) (auto split: if_splits)

lemma sqlite3_strnicmp_eq_0:
  assumes "0 \<notin> set s" "0 \<notin> set t" "length s = n" "length t = n"
  shows "\<exists>r. sqlite3_strnicmp (s @ s') (t @ t') n = Some r
    \<and> (r = 0 \<longleftrightarrow> map sqlite3UpperToLower s = map sqlite3UpperToLower t)"
  using assms
proof (induction n arbitrary: s t)
  case (Suc n)
  then show ?case
    by (cases s; cases t) (auto simp: word_uint_eq_iff [symmetric])
qed simp

section \<open>Hexadecimal\<close>

lemma all_nibbles: "(\<And>k. k < 16 \<Longrightarrow> P (word_of_nat k :: u8)) \<Longrightarrow> P (c AND 0xf)"
proof -
  assume *: "\<And>k. k < 16 \<Longrightarrow> P (word_of_nat k :: u8)"
  have "c AND 0xf \<le> 0xf" by (rule word_and_le1)
  then have "unat (c AND 0xf) \<le> 15" by (simp add: word_le_nat_alt)
  then have "P (word_of_nat (unat (c AND 0xf)))" by (intro *) simp
  then show ?thesis by simp
qed

lemma HexToInt_hexdigit: "sqlite3HexToInt (hexdigits ! unat (c AND 0xf)) = c AND 0xf"
proof (rule all_nibbles [of "\<lambda>w. sqlite3HexToInt (hexdigits ! unat w) = w"])
  fix k :: nat assume "k < 16"
  then have "k \<in> {0,1,2,3,4,5,6,7,8,9,10,11,12,13,14,15}" by (simp, arith)
  then show "sqlite3HexToInt (hexdigits ! unat (word_of_nat k :: u8)) = word_of_nat k"
    by (auto simp: hexdigits_def sqlite3HexToInt_def drop_bit_eq_div)
qed

lemma nibbles: "push_bit 4 (drop_bit 4 c AND 0xf) OR (c AND 0xf) = (c :: u8)"
  by (rule u8_eqI) (simp add: bit_simps bit_blast)

lemma hexToBlob_hexFunc:
  "hexToBlob_loop (hexFunc_loop b @ rest) (2 * length b - 1) = Some b"
proof (induction b)
  case (Cons c b)
  show ?case
  proof (cases b)
    case Nil
    then show ?thesis by (simp add: HexToInt_hexdigit nibbles [simplified])
  next
    case (Cons d b')
    then have n: "2 * length (c # b) - 1 = Suc (Suc (2 * length b - 1))" by simp
    show ?thesis
      unfolding n hexFunc_loop.simps append_Cons hexToBlob_loop.simps Cons.IH
      by (simp add: HexToInt_hexdigit nibbles [simplified])
  qed
qed (cases rest; simp)

section \<open>Properties\<close>

text \<open>
  \<^bold>\<open>C30\<close>. \<^verbatim>\<open>quote()\<close> and \<^verbatim>\<open>sqlite3Dequote\<close> are inverse on text: quoting a string without zero
  bytes gives a string that dequotes, in place, to the original with its length, whatever
  single quotes it holds.
\<close>

theorem quote_dequote_roundtrip:
  assumes "0 \<notin> set s"
  shows "\<exists>z z'. quoteFunc_text True junk (Some (s @ [0])) = Some (Some z)
    \<and> sqlite3Dequote (Some z) = Some (Some (length s), Some z') \<and> take (length s + 1) z' = s @ [0]"
  using sqlite3Dequote_eq [where q = "0x27" and q' = "0x27" and s = s and x = 0 and rest = "[]"] assms
    quoteFunc_text_eq [OF assms, of junk "[]"]
  by (simp add: quote_pairs_def)

theorem quote_dequote_roundtrip_witness:
  "\<exists>z z'. quoteFunc_text True (\<lambda>_. 0xff) (Some ([0x69, 0x74, 0x27, 0x73] @ [0])) = Some (Some z)
    \<and> sqlite3Dequote (Some z) = Some (Some (length [0x69, 0x74, 0x27, 0x73 :: u8]), Some z')
    \<and> take (length [0x69, 0x74, 0x27, 0x73 :: u8] + 1) z' = [0x69, 0x74, 0x27, 0x73] @ [0]"
  by (rule quote_dequote_roundtrip) simp

text \<open>
  \<^verbatim>\<open>hex()\<close> and \<^verbatim>\<open>sqlite3HexToBlob\<close> are inverse on every blob: the digits of the literal
  that \<^verbatim>\<open>quote()\<close> prints decode to the blob.
\<close>

theorem hex_blob_roundtrip:
  "\<exists>z. hexFunc True b = Some z \<and> quoteFunc_blob True b = Some ([0x58, 0x27] @ z @ [0x27, 0])
     \<and> sqlite3HexToBlob True (z @ [0x27, 0]) (length z) = Some (Some (b @ [0]))"
proof -
  have "length (hexFunc_loop b) = 2 * length b" by (induction b) auto
  then show ?thesis
    by (simp add: hexFunc_def quoteFunc_blob_def sqlite3HexToBlob_def hexToBlob_hexFunc [simplified])
qed

text \<open>
  \<^const>\<open>sqlite3_stricmp\<close> on two zero-terminated strings always returns, returns 0 exactly
  when the strings are equal up to the case of ASCII letters, and changes sign when its
  arguments are exchanged.
\<close>

theorem stricmp_correct:
  assumes "0 \<notin> set s" "0 \<notin> set t"
  shows "\<exists>r. sqlite3_stricmp (s @ [0]) (t @ [0]) = Some r \<and> sqlite3_stricmp (t @ [0]) (s @ [0]) = Some (- r)
    \<and> (r = 0 \<longleftrightarrow> map sqlite3UpperToLower s = map sqlite3UpperToLower t)"
  using sqlite3_stricmp_eq_0 [OF assms, of "[]" "[]"] sqlite3_stricmp_antisym by blast

end
