(* ===== verification/LinProbe.thy ===== *)
theory LinProbe
  imports Sqlite_Prelude
begin

text \<open>
  Open addressing with linear probing, the scheme shared by the hash form of a
  \<^verbatim>\<open>Bitvec\<close> (\<^verbatim>\<open>bitvec.c\<close>) and the hash tables of the wal-index (\<^verbatim>\<open>wal.c\<close>). A table is a list
  of \<open>N\<close> slots; a slot holds a positive entry, or 0 when it is free. The locale fixes
  the number of slots and the home slot of an entry, and proves once what both components
  rely on: what a search from the home slot finds, and that storing an entry in the first
  free slot keeps the invariant.
\<close>

section \<open>Probe sequences\<close>

text \<open>The first slot from \<open>h\<close> on, in cyclic order, that satisfies \<open>stop\<close>, within \<open>k\<close> steps.\<close>

fun probe :: "nat \<Rightarrow> (nat \<Rightarrow> bool) \<Rightarrow> nat \<Rightarrow> nat \<Rightarrow> nat option" where
  "probe N stop h 0 = None"
| "probe N stop h (Suc k) = (if stop h then Some h else probe N stop (Suc h mod N) k)"

definition slot_at :: "nat \<Rightarrow> nat \<Rightarrow> nat \<Rightarrow> nat" where
  "slot_at N h k = (h + k) mod N"

text \<open>Every entry is reachable: no free slot between its home slot and where it is.\<close>

definition lp_inv :: "nat \<Rightarrow> (nat \<Rightarrow> nat) \<Rightarrow> nat list \<Rightarrow> bool" where
  "lp_inv N home t \<longleftrightarrow> length t = N \<and>
     (\<forall>s < N. t ! s \<noteq> 0 \<longrightarrow>
        (\<exists>d < N. s = slot_at N (home (t ! s)) d \<and> (\<forall>k < d. t ! slot_at N (home (t ! s)) k \<noteq> 0)))"

definition entries :: "nat list \<Rightarrow> nat set" where
  "entries t = set t - {0}"

lemma slot_at_0 [simp]: "h < N \<Longrightarrow> slot_at N h 0 = h"
  by (simp add: slot_at_def)

lemma slot_at_Suc: "slot_at N (Suc h mod N) k = slot_at N h (Suc k)"
  by (simp add: slot_at_def mod_add_left_eq)

lemma slot_at_less [simp]: "0 < N \<Longrightarrow> slot_at N h k < N"
  by (simp add: slot_at_def)

lemma probe_Some_iff:
  assumes "0 < N" "h < N"
  shows "probe N stop h k = Some s \<longleftrightarrow>
    (\<exists>d < k. s = slot_at N h d \<and> stop s \<and> (\<forall>e < d. \<not> stop (slot_at N h e)))"
  using assms(2)
proof (induction k arbitrary: h)
  case (Suc k)
  show ?case
  proof (cases "stop h")
    case True
    with Suc.prems show ?thesis
      by (auto intro: exI [of _ 0]) (metis gr0I slot_at_0)
  next
    case False
    have "Suc h mod N < N" using assms(1) by simp
    then have "probe N stop h (Suc k) = Some s \<longleftrightarrow>
        (\<exists>d < k. s = slot_at N h (Suc d) \<and> stop s \<and> (\<forall>e < d. \<not> stop (slot_at N h (Suc e))))"
      using False Suc.IH [of "Suc h mod N"] by (simp add: slot_at_Suc)
    also have "\<dots> \<longleftrightarrow> (\<exists>d < Suc k. s = slot_at N h d \<and> stop s \<and> (\<forall>e < d. \<not> stop (slot_at N h e)))"
      using False Suc.prems by (auto simp: Ex_less_Suc2 All_less_Suc2)
    finally show ?thesis .
  qed
qed simp

text \<open>Every slot lies within \<open>N\<close> steps of every other.\<close>

lemma slot_at_surj:
  assumes "s < N" "h < N"
  shows "\<exists>d < N. s = slot_at N h d"
proof -
  have "slot_at N h ((s + N - h) mod N) = (h + (s + N - h)) mod N"
    by (simp add: slot_at_def mod_add_right_eq)
  then have "slot_at N h ((s + N - h) mod N) = s" using assms by simp
  moreover have "(s + N - h) mod N < N" using assms by simp
  ultimately show ?thesis by metis
qed

lemma probe_total:
  assumes "h < N" "s < N" "stop s"
  shows "\<exists>s'. probe N stop h N = Some s'"
proof -
  let ?P = "\<lambda>d. stop (slot_at N h d)"
  obtain d where d: "d < N" "?P d" using slot_at_surj [OF assms(2,1)] assms(3) by auto
  then have "?P (LEAST d. ?P d)" "(LEAST d. ?P d) \<le> d" "\<forall>e < (LEAST d. ?P d). \<not> ?P e"
    by (auto intro: LeastI Least_le dest: not_less_Least)
  moreover have "(LEAST d. ?P d) < N" using calculation(2) d(1) by simp
  moreover have "0 < N" using assms(1) by simp
  ultimately have "probe N stop h N = Some (slot_at N h (LEAST d. ?P d))"
    using assms(1) by (subst probe_Some_iff) blast+
  then show ?thesis by blast
qed

section \<open>The interface\<close>

locale lin_probe =
  fixes N :: nat and home :: "nat \<Rightarrow> nat"
  assumes N_pos: "0 < N" and home_less: "home x < N"
begin

text \<open>A search that stops at a free slot or at the entry finds the entry if it is there.\<close>

lemma probe_lookup:
  assumes inv: "lp_inv N home t" and x: "x \<noteq> 0"
    and pr: "probe N (\<lambda>s. t ! s = 0 \<or> t ! s = x) (home x) N = Some s"
  shows "t ! s = x \<longleftrightarrow> x \<in> set t"
proof
  have len: "length t = N" using inv by (simp add: lp_inv_def)
  obtain d where d: "s = slot_at N (home x) d" "t ! s = 0 \<or> t ! s = x"
    "\<forall>e < d. t ! slot_at N (home x) e \<noteq> 0 \<and> t ! slot_at N (home x) e \<noteq> x"
    using pr probe_Some_iff [OF N_pos home_less] by auto
  have "s < length t" using d(1) len N_pos by simp
  then show "t ! s = x \<Longrightarrow> x \<in> set t" by auto
  assume "x \<in> set t"
  then obtain s' where s': "s' < N" "t ! s' = x" using len by (auto simp: in_set_conv_nth)
  then obtain d' where d': "s' = slot_at N (home x) d'" "\<forall>k < d'. t ! slot_at N (home x) k \<noteq> 0"
    using inv x unfolding lp_inv_def by metis
  have "\<not> d' < d" using d(3) s'(2) d'(1) by auto
  moreover have "d < d' \<Longrightarrow> t ! s = x" using d(1,2) d'(2) by auto
  ultimately show "t ! s = x" using s'(2) d'(1) d(1) by (cases "d = d'") auto
qed

text \<open>Storing an entry in the first free slot from its home keeps the invariant.\<close>

lemma lp_inv_store:
  assumes inv: "lp_inv N home t" and pr: "probe N (\<lambda>s. t ! s = 0) (home x) N = Some s" and x: "x \<noteq> 0"
  shows "lp_inv N home (t[s := x])"
proof -
  have len: "length t = N" using inv by (simp add: lp_inv_def)
  obtain d where d: "d < N" "s = slot_at N (home x) d" "t ! s = 0"
    "\<forall>e < d. t ! slot_at N (home x) e \<noteq> 0"
    using pr probe_Some_iff [OF N_pos home_less] by auto
  have sl: "s < N" using d(2) N_pos by simp
  have mono: "t ! k \<noteq> 0 \<Longrightarrow> t[s := x] ! k \<noteq> 0" for k using x len sl by (cases "k = s") auto
  show ?thesis
    unfolding lp_inv_def
  proof (intro conjI allI impI)
    fix u assume u: "u < N" "t[s := x] ! u \<noteq> 0"
    show "\<exists>d < N. u = slot_at N (home (t[s := x] ! u)) d
        \<and> (\<forall>k < d. t[s := x] ! slot_at N (home (t[s := x] ! u)) k \<noteq> 0)"
    proof (cases "u = s")
      case True
      with d mono len sl show ?thesis by (intro exI [of _ d]) auto
    next
      case False
      with u inv obtain e where "e < N" "u = slot_at N (home (t ! u)) e"
        "\<forall>k < e. t ! slot_at N (home (t ! u)) k \<noteq> 0"
        by (auto simp: lp_inv_def)
      with mono False show ?thesis by (intro exI [of _ e]) auto
    qed
  qed (simp add: len)
qed

lemma lp_inv_empty: "lp_inv N home (replicate N 0)"
  by (simp add: lp_inv_def)

text \<open>A free slot makes every probe for a free slot, and every lookup, stop.\<close>

lemma probe_free_total:
  assumes "length t = N" "0 \<in> set t" "h < N"
  shows "\<exists>s. probe N (\<lambda>s. t ! s = 0) h N = Some s"
  using assms(1,2) probe_total [OF assms(3), of _ "\<lambda>s. t ! s = 0"] by (auto simp: in_set_conv_nth)

lemma probe_lookup_total:
  assumes "length t = N" "0 \<in> set t" "h < N"
  shows "\<exists>s. probe N (\<lambda>s. t ! s = 0 \<or> t ! s = x) h N = Some s"
  using assms probe_total [OF assms(3), of _ "\<lambda>s. t ! s = 0 \<or> t ! s = x"] by (auto simp: in_set_conv_nth)

end

lemma entries_store:
  "s < length t \<Longrightarrow> t ! s = 0 \<Longrightarrow> x \<noteq> 0 \<Longrightarrow> entries (t[s := x]) = insert x (entries t)"
proof -
  assume s: "s < length t" "t ! s = 0" "x \<noteq> 0"
  have "set (t[s := x]) \<subseteq> insert x (set t)" by (rule set_update_subset_insert)
  moreover have "y \<in> set (t[s := x])" if "y \<in> set t" "y \<noteq> 0" for y
    using that s by (metis in_set_conv_nth length_list_update nth_list_update_neq)
  moreover have "x \<in> set (t[s := x])" using s(1) by (simp add: set_update_memI)
  ultimately show ?thesis using s(3) by (auto simp: entries_def)
qed

text \<open>The number of used slots, and that a table with fewer entries than slots has a free one.\<close>

definition used :: "nat list \<Rightarrow> nat" where
  "used t = length (filter (\<lambda>x. x \<noteq> 0) t)"

lemma used_less_free: "used t < length t \<Longrightarrow> 0 \<in> set t"
proof (rule ccontr)
  assume "used t < length t" "0 \<notin> set t"
  then have "filter (\<lambda>x. x \<noteq> 0) t = t" by (subst filter_id_conv) metis
  with \<open>used t < length t\<close> show False unfolding used_def by simp
qed

lemma used_store: "s < length t \<Longrightarrow> t ! s = 0 \<Longrightarrow> x \<noteq> 0 \<Longrightarrow> used (t[s := x]) = Suc (used t)"
  by (induction t arbitrary: s) (auto simp: used_def split: nat.splits)

lemma used_replicate [simp]: "used (replicate n 0) = 0"
  by (simp add: used_def)

lemma entries_replicate [simp]: "entries (replicate n 0) = {}"
  by (auto simp: entries_def)

end
