(* ===== verification/Refines.thy ===== *)
theory Refines
  imports Sqlite_Prelude
begin

text \<open>
  Histories of a component and their refinement. A component is a step function on its state
  (\<^const>\<open>None\<close> for undefined behaviour or a loop that does not end), its contract a step
  function on an abstract state. The locale states what one step must satisfy, under an
  invariant that may use up a budget and up to a failure the component reports (an allocation
  that failed), and concludes that every history ends and agrees with the contract.
\<close>

fun run_steps :: "('s \<Rightarrow> 'x \<Rightarrow> ('r \<times> 's) option) \<Rightarrow> 's \<Rightarrow> 'x list \<Rightarrow> ('r list \<times> 's) option" where
  "run_steps step s [] = Some ([], s)"
| "run_steps step s (x # xs) = do {
     (r, s') \<leftarrow> step s x;
     (rs, s'') \<leftarrow> run_steps step s' xs;
     Some (r # rs, s'') }"

fun run_spec :: "('a \<Rightarrow> 'x \<Rightarrow> 'r \<times> 'a) \<Rightarrow> 'a \<Rightarrow> 'x list \<Rightarrow> 'r list \<times> 'a" where
  "run_spec spec a [] = ([], a)"
| "run_spec spec a (x # xs) =
    (case spec a x of (r, a') \<Rightarrow> case run_spec spec a' xs of (rs, a'') \<Rightarrow> (r # rs, a''))"

locale refines =
  fixes inv :: "nat \<Rightarrow> 's \<Rightarrow> bool" and absf :: "'s \<Rightarrow> 'a" and guard :: "'x \<Rightarrow> bool" and failed :: "'s \<Rightarrow> bool"
    and step :: "'s \<Rightarrow> 'x \<Rightarrow> ('r \<times> 's) option" and spec :: "'a \<Rightarrow> 'x \<Rightarrow> 'r \<times> 'a"
  assumes step_law: "inv (Suc n) s \<Longrightarrow> guard x \<Longrightarrow> \<exists>r s'. step s x = Some (r, s') \<and> inv n s'
    \<and> (failed s \<longrightarrow> failed s') \<and> (\<not> failed s' \<longrightarrow> spec (absf s) x = (r, absf s'))"
begin

lemma run_refines:
  assumes "inv (length xs) s" "list_all guard xs"
  shows "\<exists>rs s'. run_steps step s xs = Some (rs, s') \<and> inv 0 s' \<and> (failed s \<longrightarrow> failed s')
    \<and> (\<not> failed s' \<longrightarrow> run_spec spec (absf s) xs = (rs, absf s'))"
  using assms
proof (induction xs arbitrary: s)
  case (Cons x xs)
  obtain r s' where 1: "step s x = Some (r, s')" "inv (length xs) s'" "failed s \<longrightarrow> failed s'"
      "\<not> failed s' \<longrightarrow> spec (absf s) x = (r, absf s')"
    using step_law [of "length xs" s x] Cons.prems by auto
  obtain rs s'' where "run_steps step s' xs = Some (rs, s'')" "inv 0 s''" "failed s' \<longrightarrow> failed s''"
      "\<not> failed s'' \<longrightarrow> run_spec spec (absf s') xs = (rs, absf s'')"
    using Cons.IH [OF 1(2)] Cons.prems(2) by auto
  then show ?case using 1 by auto
qed simp

end

text \<open>
  A component whose steps keep an invariant and never fail: every history of admissible
  operations ends, in a state of the invariant.
\<close>

locale safe_machine =
  fixes inv :: "'s \<Rightarrow> bool" and guard :: "'x \<Rightarrow> bool" and step :: "'s \<Rightarrow> 'x \<Rightarrow> ('r \<times> 's) option"
  assumes step_safe: "inv s \<Longrightarrow> guard x \<Longrightarrow> \<exists>r s'. step s x = Some (r, s') \<and> inv s'"
begin

lemma run_safe:
  "inv s \<Longrightarrow> list_all guard xs \<Longrightarrow>
   \<exists>rs s'. run_steps step s xs = Some (rs, s') \<and> inv s' \<and> length rs = length xs"
proof (induction xs arbitrary: s)
  case (Cons x xs)
  obtain r s' where 1: "step s x = Some (r, s')" "inv s'" using step_safe [of s x] Cons.prems by auto
  from Cons.IH [OF 1(2)] Cons.prems(2) 1 show ?case by auto
qed simp

end

end
