(* ===== verification/Bitvec.thy ===== *)
theory Bitvec
  imports LinProbe Refines
begin

text \<open>
  The sparse bitmap of \<^verbatim>\<open>bitvec.c\<close>: a \<^verbatim>\<open>Bitvec\<close> holds a set of numbers between 1 and
  \<^verbatim>\<open>iSize\<close>, as a bitmap, as a hash table, or as sub-bitmaps, and moves from one form to the
  next as it fills. Allocation is an oracle \<open>al\<close>: the outcome of the n-th request, with the
  number of requests made so far threaded through the operations. The sizes are those of a
  build with 8-byte pointers. The main results: under every outcome of the allocations
  \<^verbatim>\<open>sqlite3BitvecSet\<close> returns, keeps the invariant, and on success adds exactly the bit asked
  for; \<^verbatim>\<open>sqlite3BitvecClear\<close> removes exactly one bit; \<^verbatim>\<open>sqlite3BitvecTest\<close> always ends; and
  every sequence of operations agrees with the mathematical set.
\<close>

section \<open>Data\<close>

abbreviation (input) "BITVEC_NELEM \<equiv> 496 :: nat"
abbreviation (input) "BITVEC_NBIT \<equiv> 3968 :: nat"
abbreviation (input) "BITVEC_NINT \<equiv> 124 :: nat"
abbreviation (input) "BITVEC_MXHASH \<equiv> 62 :: nat"
abbreviation (input) "BITVEC_NPTR \<equiv> 62 :: nat"

definition BITVEC_HASH :: "nat \<Rightarrow> nat" where
  "BITVEC_HASH x = (x * 1) mod BITVEC_NINT"

text \<open>The union \<^verbatim>\<open>u\<close> with its three members; which one is live follows from the other fields.\<close>

datatype bitvec = Bitvec (iSize: nat) (nSet: nat) (iDivisor: nat) (bv_u: bitvec_u)
  and bitvec_u = ABitmap "u8 list" | AHash "nat list" | ApSub "bitvec option list"

section \<open>Operations\<close>

text \<open>\<^verbatim>\<open>sqlite3MallocZero\<close> clears the union: the live member of a new object is all zero.\<close>

definition sqlite3BitvecCreate :: "nat \<Rightarrow> bitvec" where
  "sqlite3BitvecCreate sz = Bitvec sz 0 0
     (if sz \<le> BITVEC_NBIT then ABitmap (replicate BITVEC_NELEM 0) else AHash (replicate BITVEC_NINT 0))"

text \<open>The search loop of the hash form. After \<open>BITVEC_NINT\<close> steps every slot was visited.\<close>

fun bvHashTest :: "nat list \<Rightarrow> nat \<Rightarrow> nat \<Rightarrow> nat \<Rightarrow> bool option" where
  "bvHashTest t i h 0 = None"
| "bvHashTest t i h (Suc k) = do {
     a \<leftarrow> rd t h;
     if a = 0 then Some False
     else if a = i then Some True
     else bvHashTest t i ((h + 1) mod BITVEC_NINT) k }"

text \<open>The loops over the sub-bitmaps, with \<open>i\<close> already decremented.\<close>

function bvTest :: "bitvec \<Rightarrow> nat \<Rightarrow> bool option" where
  "bvTest (Bitvec sz n d un) i =
    (if d \<noteq> 0 then
       (case un of ApSub subs \<Rightarrow>
          (if i div d < length subs then
             (case subs ! (i div d) of None \<Rightarrow> Some False | Some q \<Rightarrow> bvTest q (i mod d))
           else None)
        | _ \<Rightarrow> None)
     else if sz \<le> BITVEC_NBIT then
       (case un of ABitmap bs \<Rightarrow> do {
          b \<leftarrow> rd bs (i div 8);
          Some (b AND push_bit (i mod 8) 1 \<noteq> 0) } | _ \<Rightarrow> None)
     else
       (case un of AHash t \<Rightarrow> bvHashTest t (i + 1) (BITVEC_HASH i) BITVEC_NINT | _ \<Rightarrow> None))"
  by pat_completeness auto
termination
proof (relation "measure (\<lambda>(p, i). size p)", goal_cases)
  case (2 sz n d un i subs q)
  then have "Some q \<in> set subs" by (metis nth_mem)
  then have "size_option size (Some q) \<le> size_list (size_option size) subs"
    by (rule size_list_estimation') simp
  with 2 show ?case by simp
qed simp

definition sqlite3BitvecTest :: "bitvec option \<Rightarrow> nat \<Rightarrow> bool option" where
  "sqlite3BitvecTest p i = (case p of None \<Rightarrow> Some False | Some p \<Rightarrow>
     if i > iSize p \<or> i = 0 then Some False else bvTest p (i - 1))"

text \<open>
  The collision loop of \<^verbatim>\<open>sqlite3BitvecSet\<close>: \<open>Some None\<close> when the value is there already,
  otherwise the first free slot.
\<close>

fun bvSetProbe :: "nat list \<Rightarrow> nat \<Rightarrow> nat \<Rightarrow> nat \<Rightarrow> nat option option" where
  "bvSetProbe t i h 0 = None"
| "bvSetProbe t i h (Suc k) = do {
     a \<leftarrow> rd t h;
     if a = i then Some None
     else let h' = (if h + 1 \<ge> BITVEC_NINT then 0 else h + 1) in do {
       b \<leftarrow> rd t h';
       if b \<noteq> 0 then bvSetProbe t i h' k else Some (Some h') } }"

type_synonym bv_res = "rc \<times> nat \<times> bitvec"

text \<open>The re-insertion loop of the rehash: \<^verbatim>\<open>rc |= sqlite3BitvecSet(p, aiValues[j])\<close>.\<close>

fun bvSetAll :: "(nat \<Rightarrow> bitvec \<Rightarrow> nat \<Rightarrow> bv_res option) \<Rightarrow> nat \<Rightarrow> bitvec \<Rightarrow> nat list \<Rightarrow> rc \<Rightarrow> bv_res option" where
  "bvSetAll set1 n p [] r = Some (r, n, p)"
| "bvSetAll set1 n p (v # vs) r =
    (if v \<noteq> 0 then do {
       (r', n', p') \<leftarrow> set1 n p (v - 1);
       bvSetAll set1 n' p' vs (r OR r') }
     else bvSetAll set1 n p vs r)"

text \<open>
  \<^verbatim>\<open>bitvec_set_rehash\<close> and \<^verbatim>\<open>bitvec_set_end\<close>: \<open>h\<close> is a free slot, \<open>i\<close> is zero-based. The
  recursive calls are those of \<open>set1\<close>.
\<close>

definition bvSetRehash ::
  "(nat \<Rightarrow> bitvec \<Rightarrow> nat \<Rightarrow> bv_res option) \<Rightarrow> (nat \<Rightarrow> bool) \<Rightarrow> nat \<Rightarrow> nat \<Rightarrow> nat \<Rightarrow> nat list \<Rightarrow> nat \<Rightarrow> bv_res option" where
  "bvSetRehash set1 al n sz ns t i =
    (if \<not> al n then Some (SQLITE_NOMEM, n + 1, Bitvec sz ns 0 (AHash t))
     else do {
       (r, n', p') \<leftarrow> set1 (n + 1)
         (Bitvec sz ns ((sz + BITVEC_NPTR - 1) div BITVEC_NPTR) (ApSub (replicate BITVEC_NPTR None))) i;
       bvSetAll set1 n' p' t r })"

definition bvSetEnd :: "nat \<Rightarrow> nat \<Rightarrow> nat \<Rightarrow> nat list \<Rightarrow> nat \<Rightarrow> nat \<Rightarrow> bv_res option" where
  "bvSetEnd n sz ns t h i = do {
     t' \<leftarrow> wr t h (i + 1);
     Some (SQLITE_OK, n, Bitvec sz (ns + 1) 0 (AHash t')) }"

definition bvSetHash ::
  "(nat \<Rightarrow> bitvec \<Rightarrow> nat \<Rightarrow> bv_res option) \<Rightarrow> (nat \<Rightarrow> bool) \<Rightarrow> nat \<Rightarrow> nat \<Rightarrow> nat \<Rightarrow> nat list \<Rightarrow> nat \<Rightarrow> bv_res option" where
  "bvSetHash set1 al n sz ns t i = do {
     let h = BITVEC_HASH i;
     a \<leftarrow> rd t h;
     if a = 0 then
       (if ns < BITVEC_NINT - 1 then bvSetEnd n sz ns t h i
        else if ns \<ge> BITVEC_MXHASH then bvSetRehash set1 al n sz ns t i
        else bvSetEnd n sz ns t h i)
     else do {
       s \<leftarrow> bvSetProbe t (i + 1) h BITVEC_NINT;
       case s of
         None \<Rightarrow> Some (SQLITE_OK, n, Bitvec sz ns 0 (AHash t))
       | Some h' \<Rightarrow>
           (if ns \<ge> BITVEC_MXHASH then bvSetRehash set1 al n sz ns t i
            else bvSetEnd n sz ns t h' i) } }"

text \<open>
  The descent into the sub-bitmaps is recursion; the fuel bounds its depth together with the
  depth of the rehashes. \<^const>\<open>None\<close> stands for running out of it, for an access outside the
  live member of the union, and for a probe that never ends: the theorem on \<open>bvSet\<close> excludes
  all three.
\<close>

fun bvSet :: "nat \<Rightarrow> (nat \<Rightarrow> bool) \<Rightarrow> nat \<Rightarrow> bitvec \<Rightarrow> nat \<Rightarrow> bv_res option" where
  "bvSet 0 al n p i = None"
| "bvSet (Suc f) al n (Bitvec sz ns d un) i =
    (if sz > BITVEC_NBIT \<and> d \<noteq> 0 then
       (case un of ApSub subs \<Rightarrow>
          (if i div d < length subs then
             (case subs ! (i div d) of
                None \<Rightarrow>
                  (if al n then do {
                     (r, n', q) \<leftarrow> bvSet f al (n + 1) (sqlite3BitvecCreate d) (i mod d);
                     Some (r, n', Bitvec sz ns d (ApSub (subs[i div d := Some q]))) }
                   else Some (SQLITE_NOMEM, n + 1, Bitvec sz ns d un))
              | Some q0 \<Rightarrow> do {
                  (r, n', q) \<leftarrow> bvSet f al n q0 (i mod d);
                  Some (r, n', Bitvec sz ns d (ApSub (subs[i div d := Some q]))) })
           else None)
        | _ \<Rightarrow> None)
     else if sz \<le> BITVEC_NBIT then
       (case un of ABitmap bs \<Rightarrow> do {
          b \<leftarrow> rd bs (i div 8);
          bs' \<leftarrow> wr bs (i div 8) (b OR push_bit (i mod 8) 1);
          Some (SQLITE_OK, n, Bitvec sz ns d (ABitmap bs')) } | _ \<Rightarrow> None)
     else
       (case un of AHash t \<Rightarrow> bvSetHash (bvSet f al) al n sz ns t i | _ \<Rightarrow> None))"

definition bv_fuel :: nat where "bv_fuel = 10"

definition sqlite3BitvecSet :: "(nat \<Rightarrow> bool) \<Rightarrow> nat \<Rightarrow> bitvec option \<Rightarrow> nat \<Rightarrow> (rc \<times> nat \<times> bitvec option) option" where
  "sqlite3BitvecSet al n p i = (case p of None \<Rightarrow> Some (SQLITE_OK, n, None) | Some p \<Rightarrow> do {
     (r, n', p') \<leftarrow> bvSet bv_fuel al n p (i - 1);
     Some (r, n', Some p') })"

text \<open>Clearing a bit of the hash form: every other value is put into an empty table.\<close>

fun bvFreeSlot :: "nat list \<Rightarrow> nat \<Rightarrow> nat \<Rightarrow> nat option" where
  "bvFreeSlot t h 0 = None"
| "bvFreeSlot t h (Suc k) = do {
     a \<leftarrow> rd t h;
     if a \<noteq> 0 then bvFreeSlot t (if h + 1 \<ge> BITVEC_NINT then 0 else h + 1) k else Some h }"

fun bvClearHash :: "nat list \<Rightarrow> nat \<Rightarrow> nat \<Rightarrow> nat list \<Rightarrow> (nat \<times> nat list) option" where
  "bvClearHash [] i ns t = Some (ns, t)"
| "bvClearHash (v # vs) i ns t =
    (if v \<noteq> 0 \<and> v \<noteq> i + 1 then do {
       h \<leftarrow> bvFreeSlot t (BITVEC_HASH (v - 1)) BITVEC_NINT;
       t' \<leftarrow> wr t h v;
       bvClearHash vs i (ns + 1) t' }
     else bvClearHash vs i ns t)"

function bvClear :: "bitvec \<Rightarrow> nat \<Rightarrow> bitvec option" where
  "bvClear (Bitvec sz n d un) i =
    (if d \<noteq> 0 then
       (case un of ApSub subs \<Rightarrow>
          (if i div d < length subs then
             (case subs ! (i div d) of
                None \<Rightarrow> Some (Bitvec sz n d un)
              | Some q0 \<Rightarrow> do {
                  q \<leftarrow> bvClear q0 (i mod d);
                  Some (Bitvec sz n d (ApSub (subs[i div d := Some q]))) })
           else None)
        | _ \<Rightarrow> None)
     else if sz \<le> BITVEC_NBIT then
       (case un of ABitmap bs \<Rightarrow> do {
          b \<leftarrow> rd bs (i div 8);
          bs' \<leftarrow> wr bs (i div 8) (b AND NOT (push_bit (i mod 8) 1));
          Some (Bitvec sz n d (ABitmap bs')) } | _ \<Rightarrow> None)
     else
       (case un of AHash t \<Rightarrow> do {
          (ns, t') \<leftarrow> bvClearHash t i 0 (replicate BITVEC_NINT 0);
          Some (Bitvec sz ns d (AHash t')) } | _ \<Rightarrow> None))"
  by pat_completeness auto
termination
proof (relation "measure (\<lambda>(p, i). size p)", goal_cases)
  case (2 sz n d un i subs q)
  then have "Some q \<in> set subs" by (metis nth_mem)
  then have "size_option size (Some q) \<le> size_list (size_option size) subs"
    by (rule size_list_estimation') simp
  with 2 show ?case by simp
qed simp

definition sqlite3BitvecClear :: "bitvec option \<Rightarrow> nat \<Rightarrow> bitvec option option" where
  "sqlite3BitvecClear p i = (case p of None \<Rightarrow> Some None | Some p \<Rightarrow> do {
     p' \<leftarrow> bvClear p (i - 1);
     Some (Some p') })"

definition sqlite3BitvecSize :: "bitvec \<Rightarrow> nat" where
  "sqlite3BitvecSize p = iSize p"

text \<open>\<^verbatim>\<open>sqlite3BitvecDestroy\<close>: the number of calls of \<^verbatim>\<open>sqlite3_free\<close>, one per object of the tree.\<close>

function sqlite3BitvecDestroy :: "bitvec option \<Rightarrow> nat" where
  "sqlite3BitvecDestroy None = 0"
| "sqlite3BitvecDestroy (Some (Bitvec sz n d un)) =
    (if d \<noteq> 0 then (case un of ApSub subs \<Rightarrow> sum_list (map sqlite3BitvecDestroy subs) | _ \<Rightarrow> 0) else 0) + 1"
  by pat_completeness auto
termination
proof (relation "measure (size_option size)", goal_cases)
  case (2 sz n d un subs q)
  then have "q \<in> set subs" by simp
  then have "size_option size q \<le> size_list (size_option size) subs"
    by (rule size_list_estimation') (rule order_refl)
  with 2 show ?case by simp
qed simp

section \<open>Invariant\<close>

definition bv_home :: "nat \<Rightarrow> nat" where
  "bv_home v = BITVEC_HASH (v - 1)"

abbreviation (input) bv_lp :: "nat list \<Rightarrow> bool" where "bv_lp t \<equiv> lp_inv BITVEC_NINT bv_home t"

text \<open>
  The hash form keeps a free slot, its values are in range, and \<^verbatim>\<open>nSet\<close> counts them; the
  sub-bitmaps all have size \<^verbatim>\<open>iDivisor\<close>, which is large enough for \<open>BITVEC_NPTR\<close> of them to
  cover \<^verbatim>\<open>iSize\<close>.
\<close>

inductive bv_wf :: "bitvec \<Rightarrow> bool" where
  bitmap: "sz \<le> BITVEC_NBIT \<Longrightarrow> length bs = BITVEC_NELEM \<Longrightarrow> bv_wf (Bitvec sz n 0 (ABitmap bs))"
| hash: "BITVEC_NBIT < sz \<Longrightarrow> bv_lp t \<Longrightarrow> n = used t \<Longrightarrow> n < BITVEC_NINT
    \<Longrightarrow> (\<And>x. x \<in> set t \<Longrightarrow> x \<le> sz) \<Longrightarrow> bv_wf (Bitvec sz n 0 (AHash t))"
| subs: "BITVEC_NBIT < sz \<Longrightarrow> d = (sz + BITVEC_NPTR - 1) div BITVEC_NPTR \<Longrightarrow> length subs = BITVEC_NPTR
    \<Longrightarrow> (\<And>q. Some q \<in> set subs \<Longrightarrow> bv_wf q \<and> iSize q = d) \<Longrightarrow> bv_wf (Bitvec sz n d (ApSub subs))"

inductive_simps bv_wf_simps: "bv_wf (Bitvec sz n d un)"

text \<open>How deep the sub-bitmaps of a bitmap of a given size can nest.\<close>

function bv_level :: "nat \<Rightarrow> nat" where
  "bv_level sz = (if sz \<le> BITVEC_NBIT then 0 else Suc (bv_level ((sz + BITVEC_NPTR - 1) div BITVEC_NPTR)))"
  by pat_completeness auto
termination by (relation "measure id") auto

declare bv_level.simps [simp del]

definition bv_rank :: "bitvec \<Rightarrow> nat" where
  "bv_rank p = 2 * bv_level (iSize p) + (if iDivisor p = 0 then 1 else 0)"

lemma bv_level_mono: "a \<le> b \<Longrightarrow> bv_level a \<le> bv_level b"
proof (induction b arbitrary: a rule: less_induct)
  case (less b)
  show ?case
  proof (cases "b \<le> BITVEC_NBIT")
    case True
    then show ?thesis using less.prems by (simp add: bv_level.simps [of a])
  next
    case False
    have "bv_level ((a + 62 - 1) div 62) \<le> bv_level ((b + 62 - 1) div 62)"
      using False less.prems by (intro less.IH) (auto intro: div_le_mono)
    then show ?thesis using False by (simp add: bv_level.simps [of a] bv_level.simps [of b])
  qed
qed

lemma bv_level_u32: "sz < 2 ^ 32 \<Longrightarrow> bv_level sz \<le> 4"
proof -
  assume "sz < 2 ^ 32"
  then have "bv_level sz \<le> bv_level (2 ^ 32)" by (intro bv_level_mono) simp
  also have "\<dots> = 4" by (simp add: bv_level.simps)
  finally show ?thesis .
qed

section \<open>The hash form\<close>

interpretation bvh: lin_probe BITVEC_NINT bv_home
  by unfold_locales (simp_all add: BITVEC_HASH_def bv_home_def)

lemma BITVEC_HASH_less [simp]: "BITVEC_HASH x < BITVEC_NINT"
  by (simp add: BITVEC_HASH_def)

lemma wrap_step: "h < BITVEC_NINT \<Longrightarrow> (if h + 1 \<ge> BITVEC_NINT then 0 else h + 1) = Suc h mod BITVEC_NINT"
  by (auto simp: mod_Suc)

lemma bvHashTest_probe:
  "length t = BITVEC_NINT \<Longrightarrow> h < BITVEC_NINT \<Longrightarrow> bvHashTest t i h k =
    map_option (\<lambda>s. t ! s \<noteq> 0) (probe BITVEC_NINT (\<lambda>s. t ! s = 0 \<or> t ! s = i) h k)"
  by (induction k arbitrary: h) (auto simp: rd_def)

lemma bvFreeSlot_probe:
  "length t = BITVEC_NINT \<Longrightarrow> h < BITVEC_NINT \<Longrightarrow>
    bvFreeSlot t h k = probe BITVEC_NINT (\<lambda>s. t ! s = 0) h k"
  by (induction k arbitrary: h) (simp_all add: rd_def wrap_step [simplified] del: mod_Suc)

text \<open>The collision loop looks for the value or a free slot, one slot ahead.\<close>

lemma bvSetProbe_probe:
  "length t = BITVEC_NINT \<Longrightarrow> h < BITVEC_NINT \<Longrightarrow> t ! h \<noteq> 0 \<Longrightarrow> i \<noteq> 0
    \<Longrightarrow> probe BITVEC_NINT (\<lambda>s. t ! s = 0 \<or> t ! s = i) h k = Some s
    \<Longrightarrow> bvSetProbe t i h k = Some (if t ! s = i then None else Some s)"
proof (induction k arbitrary: h)
  case (Suc k)
  let ?h = "Suc h mod BITVEC_NINT"
  have w: "(if h + 1 \<ge> BITVEC_NINT then 0 else h + 1) = ?h" by (rule wrap_step [OF Suc.prems(2)])
  have l: "?h < BITVEC_NINT" by simp
  show ?case
  proof (cases "t ! h = i")
    case True
    then show ?thesis using Suc.prems by (auto simp: rd_def)
  next
    case False
    then have p: "probe BITVEC_NINT (\<lambda>s. t ! s = 0 \<or> t ! s = i) ?h k = Some s"
      using Suc.prems by simp
    show ?thesis
    proof (cases "t ! ?h = 0")
      case True
      then have "s = ?h" using p by (cases k) auto
      then show ?thesis using True False Suc.prems(1,2,4) l w
        by (simp add: rd_def Let_def del: mod_Suc)
    next
      case nz: False
      then show ?thesis
        using False Suc.prems(1,2) w l Suc.IH [OF Suc.prems(1) l nz Suc.prems(4) p]
        by (simp add: rd_def Let_def del: mod_Suc)
    qed
  qed
qed simp

lemma bv_lp_free:
  "bv_lp t \<Longrightarrow> used t < BITVEC_NINT \<Longrightarrow> length t = BITVEC_NINT \<and> 0 \<in> set t"
  by (simp add: lp_inv_def used_less_free)

lemma bvHashTest_correct:
  assumes "bv_lp t" "used t < BITVEC_NINT"
  shows "bvHashTest t (i + 1) (BITVEC_HASH i) BITVEC_NINT = Some (i + 1 \<in> set t)"
proof -
  have len: "length t = BITVEC_NINT" "0 \<in> set t" using bv_lp_free [OF assms] by auto
  obtain s where s: "probe BITVEC_NINT (\<lambda>s. t ! s = 0 \<or> t ! s = i + 1) (BITVEC_HASH i) BITVEC_NINT = Some s"
    using bvh.probe_lookup_total [OF len] BITVEC_HASH_less by blast
  have "t ! s = i + 1 \<longleftrightarrow> i + 1 \<in> set t"
    using s bvh.probe_lookup [OF assms(1), of "i + 1" s] by (simp add: bv_home_def)
  moreover have "t ! s = 0 \<or> t ! s = i + 1"
    using s by (subst (asm) probe_Some_iff) auto
  ultimately show ?thesis using s len by (auto simp: bvHashTest_probe)
qed

section \<open>Membership\<close>

text \<open>The abstraction: the zero-based positions a search finds.\<close>

definition bv_has :: "bitvec \<Rightarrow> nat \<Rightarrow> bool" where
  "bv_has p i \<longleftrightarrow> bvTest p i = Some True"

lemma and_push_bit_1: "(w :: u8) AND push_bit k 1 \<noteq> 0 \<longleftrightarrow> bit w k"
  by (simp add: push_bit_eq_mult and_exp_eq_0_iff_not_bit)

lemma bin_less: "i < sz \<Longrightarrow> i div ((61 + sz) div 62) < (62::nat)"
proof (rule less_mult_imp_div_less)
  assume "i < sz"
  moreover have "61 + sz = 62 * ((61 + sz) div 62) + (61 + sz) mod 62" by simp
  moreover have "(61 + sz) mod 62 < 62" by simp
  ultimately show "i < 62 * ((61 + sz) div 62)" by linarith
qed

lemma divisor_pos: "3968 < sz \<Longrightarrow> 0 < (61 + sz) div (62::nat)"
  by (simp add: div_greater_zero_iff)

lemma bvTest_bitmap:
  "sz \<le> BITVEC_NBIT \<Longrightarrow> length bs = BITVEC_NELEM \<Longrightarrow> i < sz
    \<Longrightarrow> bvTest (Bitvec sz n 0 (ABitmap bs)) i = Some (bit (bs ! (i div 8)) (i mod 8))"
  using less_mult_imp_div_less [of i 496 8] by (simp add: rd_def and_push_bit_1 [simplified])

lemma bvTest_hash:
  "BITVEC_NBIT < sz \<Longrightarrow> bv_lp t \<Longrightarrow> used t < BITVEC_NINT
    \<Longrightarrow> bvTest (Bitvec sz n 0 (AHash t)) i = Some (i + 1 \<in> set t)"
  using bvHashTest_correct [of t i] by simp

lemma bvTest_subs:
  "d \<noteq> 0 \<Longrightarrow> i div d < length subs \<Longrightarrow> bvTest (Bitvec sz n d (ApSub subs)) i =
    (case subs ! (i div d) of None \<Rightarrow> Some False | Some q \<Rightarrow> bvTest q (i mod d))"
  by simp

lemmas bvTest_forms = bvTest_bitmap bvTest_hash bvTest_subs

declare bvTest.simps [simp del]

lemma bvTest_total: "bv_wf p \<Longrightarrow> i < iSize p \<Longrightarrow> bvTest p i = Some (bv_has p i)"
proof (induction p arbitrary: i rule: bv_wf.induct)
  case (subs sz d subs n)
  have "i div d < 62" "d \<noteq> 0" using subs(1,2,5) bin_less [of i sz] divisor_pos [of sz] by auto
  moreover from this have "i mod d < d" by simp
  moreover have "Some q \<in> set subs" if "subs ! (i div d) = Some q" for q
    using that subs(3) \<open>i div d < 62\<close> by (metis nth_mem)
  ultimately show ?case using subs(3,4) by (auto simp: bvTest_subs bv_has_def split: option.splits)
qed (auto simp: bvTest_forms bv_has_def)

lemma bv_wf_create: "bv_wf (sqlite3BitvecCreate sz)"
  by (auto simp: sqlite3BitvecCreate_def bv_wf_simps bvh.lp_inv_empty)

lemma create_fields [simp]:
  "iSize (sqlite3BitvecCreate sz) = sz" "iDivisor (sqlite3BitvecCreate sz) = 0"
  by (simp_all add: sqlite3BitvecCreate_def)

lemma bv_has_create: "i < sz \<Longrightarrow> \<not> bv_has (sqlite3BitvecCreate sz) i"
  using bvTest_hash [of sz "replicate 124 0" 0 i]
    bvTest_bitmap [of sz "replicate 496 0" i 0] less_mult_imp_div_less [of i 496 8]
  by (auto simp: sqlite3BitvecCreate_def bv_has_def bvh.lp_inv_empty)

section \<open>Setting a bit\<close>

text \<open>
  What a call of \<^verbatim>\<open>sqlite3BitvecSet\<close> promises under any outcome of the allocations: the
  invariant, the size, and no bit beyond the old ones and \<open>i\<close>; on \<^verbatim>\<open>SQLITE_OK\<close>, exactly those.
\<close>

definition bv_added :: "bitvec \<Rightarrow> nat set \<Rightarrow> rc \<Rightarrow> bitvec \<Rightarrow> bool" where
  "bv_added p new r p' \<longleftrightarrow> bv_wf p' \<and> iSize p' = iSize p
     \<and> (iDivisor p \<noteq> 0 \<longrightarrow> iDivisor p' = iDivisor p) \<and> (r = SQLITE_OK \<or> r = SQLITE_NOMEM)
     \<and> (\<forall>j < iSize p. bv_has p' j \<longrightarrow> bv_has p j \<or> j \<in> new)
     \<and> (r = SQLITE_OK \<longrightarrow> (\<forall>j < iSize p. bv_has p j \<or> j \<in> new \<longrightarrow> bv_has p' j))"

definition set_ok :: "(nat \<Rightarrow> bool) \<Rightarrow> bitvec \<Rightarrow> nat set \<Rightarrow> bv_res option \<Rightarrow> bool" where
  "set_ok al p new res \<longleftrightarrow> (\<exists>r n p'. res = Some (r, n, p') \<and> bv_added p new r p'
     \<and> ((\<forall>k. al k) \<longrightarrow> r = SQLITE_OK))"

lemma set_okI:
  "bv_added p new r p' \<Longrightarrow> ((\<forall>k. al k) \<Longrightarrow> r = SQLITE_OK) \<Longrightarrow> set_ok al p new (Some (r, n, p'))"
  by (auto simp: set_ok_def)

lemma set_okE:
  assumes "set_ok al p new res"
  obtains r n p' where "res = Some (r, n, p')" "bv_added p new r p'" "(\<forall>k. al k) \<longrightarrow> r = SQLITE_OK"
  using assms by (auto simp: set_ok_def)

lemma rc_or: "r \<in> {0, 7} \<Longrightarrow> r' \<in> {0, 7} \<Longrightarrow> r OR r' \<in> {0, 7 :: nat} \<and> (r OR r' = 0 \<longleftrightarrow> r = 0 \<and> r' = 0)"
  by auto

lemma bv_added_trans:
  assumes "bv_added p A r p'" "bv_added p' B r' p''"
  shows "bv_added p (A \<union> B) (r OR r') p''"
  using assms rc_or [of r r'] unfolding bv_added_def by auto

lemma bvSetAll_ok:
  assumes "\<And>p n i. P p \<Longrightarrow> i < iSize p \<Longrightarrow> set_ok al p {i} (set1 n p i)"
    and "\<And>p new r p'. P p \<Longrightarrow> bv_added p new r p' \<Longrightarrow> P p'"
    and "\<And>v. v \<in> set vs \<Longrightarrow> v \<le> iSize p0"
    and "bv_added p0 A r p" "P p" "(\<forall>k. al k) \<longrightarrow> r = SQLITE_OK"
  shows "set_ok al p0 (A \<union> (\<lambda>v. v - 1) ` (set vs - {0})) (bvSetAll set1 n p vs r)"
  using assms(3-)
proof (induction vs arbitrary: n p r A)
  case Nil
  then show ?case by (auto intro: set_okI)
next
  case (Cons v vs)
  show ?case
  proof (cases "v = 0")
    case True
    then show ?thesis using Cons by auto
  next
    case False
    have sz: "iSize p = iSize p0" using Cons.prems(2) by (simp add: bv_added_def)
    then have "v - 1 < iSize p" using Cons.prems(1) [of v] False by simp
    then obtain r' n' p' where 1: "set1 n p (v - 1) = Some (r', n', p')"
      "bv_added p {v - 1} r' p'" "(\<forall>k. al k) \<longrightarrow> r' = SQLITE_OK"
      using assms(1) [OF Cons.prems(3)] by (metis set_okE)
    have 2: "bv_added p0 (A \<union> {v - 1}) (r OR r') p'"
      by (rule bv_added_trans [OF Cons.prems(2) 1(2)])
    have "set_ok al p0 ((A \<union> {v - 1}) \<union> (\<lambda>v. v - 1) ` (set vs - {0})) (bvSetAll set1 n' p' vs (r OR r'))"
      by (rule Cons.IH [OF Cons.prems(1) 2 assms(2) [OF Cons.prems(3) 1(2)]])
        (use 1(3) Cons.prems(4) in auto)
    moreover have "(A \<union> {v - 1}) \<union> (\<lambda>v. v - 1) ` (set vs - {0}) = A \<union> (\<lambda>v. v - 1) ` (set (v # vs) - {0})"
      using False by auto
    ultimately show ?thesis using False 1(1) by simp
  qed
qed

text \<open>The three forms, each with its own way to add a bit.\<close>

lemma div_mod_8: "(a div 8 = b div 8 \<and> a mod 8 = b mod 8) \<longleftrightarrow> a = (b::nat)"
  by (metis div_mult_mod_eq)

lemma bv_added_bitmap:
  assumes "sz \<le> BITVEC_NBIT" "length bs = BITVEC_NELEM" "i < sz"
  shows "bv_added (Bitvec sz n 0 (ABitmap bs)) {i} SQLITE_OK
    (Bitvec sz n 0 (ABitmap (bs[i div 8 := bs ! (i div 8) OR push_bit (i mod 8) 1])))"
proof -
  have l: "j < sz \<Longrightarrow> j div 8 < 496" for j using assms(1) less_mult_imp_div_less [of j 496 8] by simp
  have "bit (bs[i div 8 := bs ! (i div 8) OR push_bit (i mod 8) 1] ! (j div 8)) (j mod 8)
      \<longleftrightarrow> bit (bs ! (j div 8)) (j mod 8) \<or> j = i" if "j < sz" for j
    using l [OF that] l [OF assms(3)] assms(2) div_mod_8 [of i j]
    by (cases "i div 8 = j div 8") (auto simp: bit_or_iff bit_exp_iff possible_bit_word)
  then show ?thesis using assms by (auto simp: bv_added_def bv_wf_simps bv_has_def bvTest_bitmap)
qed

lemma bv_has_sub_update:
  assumes "d \<noteq> 0" "j div d < length subs" "b < length subs"
  shows "bv_has (Bitvec sz n d (ApSub (subs[b := Some q]))) j \<longleftrightarrow>
    (if j div d = b then bv_has q (j mod d) else bv_has (Bitvec sz n d (ApSub subs)) j)"
  using assms by (auto simp: bv_has_def bvTest_subs)

lemma bv_wf_sub_update:
  "bv_wf (Bitvec sz n d (ApSub subs)) \<Longrightarrow> bv_wf q \<Longrightarrow> iSize q = d \<Longrightarrow> b < length subs
    \<Longrightarrow> bv_wf (Bitvec sz n d (ApSub (subs[b := Some q])))"
  by (auto simp: bv_wf_simps dest: set_update_subset_insert [THEN subsetD])

text \<open>\<open>q0\<close> is the sub-bitmap in use, an empty one if there was none.\<close>

lemma bv_added_sub:
  assumes wf: "bv_wf (Bitvec sz n d (ApSub subs))" and i: "i < sz"
    and q0: "subs ! (i div d) = Some q0 \<or> subs ! (i div d) = None \<and> q0 = sqlite3BitvecCreate d"
    and q: "bv_added q0 {i mod d} r q"
  shows "bv_added (Bitvec sz n d (ApSub subs)) {i} r (Bitvec sz n d (ApSub (subs[i div d := Some q])))"
proof -
  have d: "d = (61 + sz) div 62" "d \<noteq> 0" "length subs = 62"
    using wf divisor_pos [of sz] by (auto simp: bv_wf_simps)
  have bin: "j < sz \<Longrightarrow> j div d < length subs" for j using d(1,3) bin_less by simp
  have "Some q0 \<in> set subs" if "subs ! (i div d) = Some q0" using that nth_mem [OF bin [OF i]] by metis
  then have sz0: "iSize q0 = d" using q0 wf by (auto simp: bv_wf_simps)
  have old: "j div d = i div d \<Longrightarrow> j < sz \<Longrightarrow> bv_has (Bitvec sz n d (ApSub subs)) j \<longleftrightarrow> bv_has q0 (j mod d)" for j
    using q0 d(2) bin [of j] bv_has_create [of "j mod d" d] by (auto simp: bv_has_def bvTest_subs)
  have ji: "j div d = i div d \<Longrightarrow> (j mod d = i mod d) = (j = i)" for j by (metis div_mult_mod_eq)
  have m: "j mod d < iSize q0" for j using sz0 d(2) by simp
  have "bv_wf (Bitvec sz n d (ApSub (subs[i div d := Some q])))"
    using bv_wf_sub_update [OF wf _ _ bin [OF i], of q] q sz0 by (simp add: bv_added_def)
  moreover have "bv_has (Bitvec sz n d (ApSub (subs[i div d := Some q]))) j \<longleftrightarrow>
      (if j div d = i div d then bv_has q (j mod d) else bv_has (Bitvec sz n d (ApSub subs)) j)"
    if "j < sz" for j using bv_has_sub_update [OF d(2) bin [OF that] bin [OF i]] .
  moreover have "bv_has q (j mod d) \<Longrightarrow> bv_has q0 (j mod d) \<or> j = i" if "j div d = i div d" for j
    using q m [of j] ji [OF that] unfolding bv_added_def by blast
  moreover have "r = 0 \<Longrightarrow> bv_has q0 (j mod d) \<or> j = i \<Longrightarrow> bv_has q (j mod d)" if "j div d = i div d" for j
    using q m [of j] ji [OF that] unfolding bv_added_def by blast
  ultimately show ?thesis
    using q old unfolding bv_added_def by auto
qed

lemma set_ok_sub:
  assumes "bv_wf (Bitvec sz n d (ApSub subs))" "i < sz"
    "subs ! (i div d) = Some q0 \<or> subs ! (i div d) = None \<and> q0 = sqlite3BitvecCreate d"
    "set_ok al q0 {i mod d} res"
  shows "set_ok al (Bitvec sz n d (ApSub subs)) {i}
    (res \<bind> (\<lambda>(r, k, q). Some (r, k, Bitvec sz n d (ApSub (subs[i div d := Some q])))))"
  using assms(4) by (rule set_okE) (auto intro: set_okI bv_added_sub [OF assms(1-3)])

lemma bv_hash_store:
  assumes wf: "bv_wf (Bitvec sz n 0 (AHash t))" and i: "i < sz" and n: "n < BITVEC_NINT - 1"
    and h: "probe BITVEC_NINT (\<lambda>s. t ! s = 0) (BITVEC_HASH i) BITVEC_NINT = Some h"
  shows "set_ok al (Bitvec sz n 0 (AHash t)) {i} (bvSetEnd k sz n t h i)"
proof -
  have t: "BITVEC_NBIT < sz" "bv_lp t" "n = used t" "\<And>x. x \<in> set t \<Longrightarrow> x \<le> sz" "length t = BITVEC_NINT"
    using wf by (auto simp: bv_wf_simps lp_inv_def)
  have hl: "h < BITVEC_NINT" "t ! h = 0" using h by (auto simp: probe_Some_iff)
  have lp: "bv_lp (t[h := i + 1])"
    by (rule bvh.lp_inv_store [OF t(2)]) (use h in \<open>simp_all add: bv_home_def\<close>)
  have us: "used (t[h := i + 1]) = Suc n" using used_store [of h t "i + 1"] hl t(3,5) by simp
  have en: "entries (t[h := i + 1]) = insert (i + 1) (entries t)" using entries_store [of h t "i + 1"] hl t(5) by simp
  then have mem: "j + 1 \<in> set (t[h := i + 1]) \<longleftrightarrow> j + 1 \<in> set t \<or> j = i" for j
    by (auto simp: entries_def)
  have "x \<le> sz" if "x \<in> set (t[h := i + 1])" for x
    using that i t(4) set_update_subset_insert [of t h "i + 1"] by (auto dest: subsetD)
  then have "bv_wf (Bitvec sz (n + 1) 0 (AHash (t[h := i + 1])))"
    using t(1) lp us n by (intro bv_wf.hash) auto
  then have "bv_added (Bitvec sz n 0 (AHash t)) {i} SQLITE_OK (Bitvec sz (n + 1) 0 (AHash (t[h := i + 1])))"
    using mem lp us n t(1,2,3) by (auto simp: bv_added_def bv_has_def bvTest_hash)
  then show ?thesis using hl(1) t(5) by (simp add: bvSetEnd_def wr_def set_okI)
qed

lemma bv_hash_rehash:
  assumes wf: "bv_wf (Bitvec sz n 0 (AHash t))" and i: "i < sz"
    and set1: "\<And>p k i. bv_wf p \<Longrightarrow> iSize p = sz \<Longrightarrow> iDivisor p \<noteq> 0 \<Longrightarrow> i < sz \<Longrightarrow> set_ok al p {i} (set1 k p i)"
  shows "set_ok al (Bitvec sz n 0 (AHash t)) {i} (bvSetRehash set1 al k sz n t i)"
proof (cases "al k")
  case False
  then show ?thesis using wf by (auto simp: bvSetRehash_def bv_added_def intro!: set_okI)
next
  case True
  define p0 where "p0 = Bitvec sz n ((sz + 62 - 1) div 62) (ApSub (replicate 62 None))"
  have sz: "BITVEC_NBIT < sz" "bv_lp t" "used t < BITVEC_NINT" "\<And>x. x \<in> set t \<Longrightarrow> x \<le> sz"
    using wf by (auto simp: bv_wf_simps)
  have p0: "bv_wf p0" "iSize p0 = sz" "iDivisor p0 \<noteq> 0"
    using sz(1) divisor_pos [of sz] by (auto simp: p0_def bv_wf_simps)
  have e: "j < sz \<Longrightarrow> \<not> bv_has p0 j" for j
    using divisor_pos [OF sz(1)] bin_less [of j sz] by (simp add: p0_def bv_has_def bvTest_subs)
  let ?P = "\<lambda>p. bv_wf p \<and> iSize p = sz \<and> iDivisor p \<noteq> 0"
  obtain r k' p' where 1: "set1 (k + 1) p0 i = Some (r, k', p')" "bv_added p0 {i} r p'"
      "(\<forall>k. al k) \<longrightarrow> r = SQLITE_OK"
    using set1 [OF p0 i] by (metis set_okE)
  have "set_ok al p0 ({i} \<union> (\<lambda>v. v - 1) ` (set t - {0})) (bvSetAll set1 k' p' t r)"
    by (rule bvSetAll_ok [where P = ?P]) (use 1 p0 sz(4) set1 in \<open>auto simp: bv_added_def\<close>)
  then obtain r' k'' p'' where 2: "bvSetAll set1 k' p' t r = Some (r', k'', p'')"
      "bv_added p0 ({i} \<union> (\<lambda>v. v - 1) ` (set t - {0})) r' p''" "(\<forall>k. al k) \<longrightarrow> r' = SQLITE_OK"
    by (metis set_okE)
  have "j \<in> (\<lambda>v. v - 1) ` (set t - {0}) \<longleftrightarrow> bv_has (Bitvec sz n 0 (AHash t)) j" for j
    unfolding bv_has_def bvTest_hash [OF sz(1-3)]
    by (auto simp: image_iff intro!: bexI [of _ "Suc j"]) (metis Suc_pred gr0I)
  then have "bv_added (Bitvec sz n 0 (AHash t)) {i} r' p''"
    using 2(2) e p0(2) by (auto simp: bv_added_def)
  then show ?thesis
    using True 1(1) 2(1,3) by (auto simp: bvSetRehash_def p0_def intro!: set_okI)
qed

lemma bv_set_hash:
  assumes wf: "bv_wf (Bitvec sz n 0 (AHash t))" and i: "i < sz"
    and set1: "\<And>p k i. bv_wf p \<Longrightarrow> iSize p = sz \<Longrightarrow> iDivisor p \<noteq> 0 \<Longrightarrow> i < sz \<Longrightarrow> set_ok al p {i} (set1 k p i)"
  shows "set_ok al (Bitvec sz n 0 (AHash t)) {i} (bvSetHash set1 al k sz n t i)"
proof -
  let ?h = "BITVEC_HASH i"
  have t: "BITVEC_NBIT < sz" "bv_lp t" "used t < BITVEC_NINT" "length t = BITVEC_NINT" "0 \<in> set t"
    using wf bv_lp_free [of t] by (auto simp: bv_wf_simps)
  have rehash: "set_ok al (Bitvec sz n 0 (AHash t)) {i} (bvSetRehash set1 al k sz n t i)"
    by (rule bv_hash_rehash [OF wf i set1])
  note store = bv_hash_store [OF wf i]
  show ?thesis
  proof (cases "t ! ?h = 0")
    case True
    then have "probe BITVEC_NINT (\<lambda>s. t ! s = 0) ?h BITVEC_NINT = Some ?h"
      by (simp add: eval_nat_numeral)
    with True show ?thesis using store [where h = ?h and al = al and k = k] rehash t(4)
      by (auto simp: bvSetHash_def rd_def Let_def)
  next
    case False
    obtain s where s: "probe BITVEC_NINT (\<lambda>s. t ! s = 0 \<or> t ! s = i + 1) ?h BITVEC_NINT = Some s"
      using bvh.probe_lookup_total [OF t(4,5)] BITVEC_HASH_less by blast
    have pr: "bvSetProbe t (i + 1) ?h BITVEC_NINT = Some (if t ! s = i + 1 then None else Some s)"
      by (rule bvSetProbe_probe [OF t(4) _ False _ s]) simp_all
    show ?thesis
    proof (cases "t ! s = i + 1")
      case True
      then have "i + 1 \<in> set t"
        using s bvh.probe_lookup [OF t(2), of "i + 1" s] by (simp add: bv_home_def)
      then have "bv_added (Bitvec sz n 0 (AHash t)) {i} SQLITE_OK (Bitvec sz n 0 (AHash t))"
        using wf t(1-3) by (auto simp: bv_added_def bv_has_def bvTest_hash)
      then show ?thesis using True False pr t(4) by (simp add: bvSetHash_def rd_def set_okI)
    next
      case ne: False
      have "probe BITVEC_NINT (\<lambda>s. t ! s = 0) ?h BITVEC_NINT = Some s"
        using s ne by (auto simp: probe_Some_iff)
      then show ?thesis
        using False ne pr t(4) store [where h = s and al = al and k = k] rehash by (simp add: bvSetHash_def rd_def)
    qed
  qed
qed

theorem bvSet_ok:
  "bv_wf p \<Longrightarrow> i < iSize p \<Longrightarrow> bv_rank p < f \<Longrightarrow> set_ok al p {i} (bvSet f al n p i)"
proof (induction f arbitrary: n p i)
  case (Suc f)
  from Suc.prems(1) show ?case
  proof cases
    case (bitmap sz bs ns)
    then have "i div 8 < 496" using Suc.prems(2) less_mult_imp_div_less [of i 496 8] by simp
    then show ?thesis
      using bitmap Suc.prems(2) bv_added_bitmap [of sz bs i ns]
      by (auto simp: rd_def wr_def intro: set_okI)
  next
    case (hash sz t ns)
    have "set_ok al p {i} (bvSetHash (bvSet f al) al n sz ns t i)"
      unfolding hash(1)
      by (rule bv_set_hash) (use Suc.prems Suc.IH hash(1) in \<open>auto simp: bv_rank_def\<close>)
    then show ?thesis using hash(1,2) by simp
  next
    case (subs sz d subs ns)
    have d: "d \<noteq> 0" "i div d < 62" using subs(2,3) Suc.prems(2) subs(1) divisor_pos [of sz] bin_less [of i sz] by auto
    have lv: "bv_level sz = Suc (bv_level d)" using subs(2,3) by (simp add: bv_level.simps [of sz])
    have IH: "set_ok al q {i mod d} (bvSet f al k q (i mod d))" if "bv_wf q" "iSize q = d" for q k
      using that Suc.prems(3) lv subs(1) d(1) by (intro Suc.IH) (auto simp: bv_rank_def)
    show ?thesis
    proof (cases "subs ! (i div d)")
      case None
      then show ?thesis
        using set_ok_sub [of sz ns d subs i "sqlite3BitvecCreate d" al] IH [OF bv_wf_create] d Suc.prems(1,2) subs
        by (auto simp: bv_added_def intro: set_okI)
    next
      case (Some q)
      then have "Some q \<in> set subs" using subs(4) d(2) by (metis nth_mem)
      then show ?thesis
        using Some set_ok_sub [of sz ns d subs i q al] IH [of q] d Suc.prems(1,2) subs by auto
    qed
  qed
qed simp

section \<open>Clearing a bit\<close>

lemma bvClearHash_ok:
  assumes "bv_lp t" "used t + used vs < BITVEC_NINT"
  shows "\<exists>t'. bvClearHash vs i (used t) t = Some (used t', t') \<and> bv_lp t'
    \<and> used t' \<le> used t + used vs \<and> entries t' = entries t \<union> (entries vs - {i + 1})"
  using assms
proof (induction vs arbitrary: t)
  case Nil
  then show ?case by (simp add: entries_def used_def)
next
  case (Cons v vs)
  show ?case
  proof (cases "v \<noteq> 0 \<and> v \<noteq> i + 1")
    case False
    then have "used vs \<le> used (v # vs)" "entries (v # vs) - {i + 1} = entries vs - {i + 1}"
      by (auto simp: used_def entries_def)
    then show ?thesis using Cons.IH [of t] Cons.prems False by (auto intro: order_trans)
  next
    case True
    have len: "length t = BITVEC_NINT" "0 \<in> set t" using bv_lp_free [OF Cons.prems(1)] Cons.prems(2) by auto
    obtain h where h: "probe BITVEC_NINT (\<lambda>s. t ! s = 0) (BITVEC_HASH (v - 1)) BITVEC_NINT = Some h"
      using bvh.probe_free_total [OF len] BITVEC_HASH_less by blast
    then have hl: "h < length t" "t ! h = 0" using len(1) by (auto simp: probe_Some_iff)
    have lp: "bv_lp (t[h := v])"
      by (rule bvh.lp_inv_store [OF Cons.prems(1)]) (use h True in \<open>simp_all add: bv_home_def\<close>)
    have u: "used (t[h := v]) = used t + 1" "used (v # vs) = used vs + 1"
      using used_store [OF hl, of v] True by (auto simp: used_def)
    have e: "entries (t[h := v]) \<union> (entries vs - {i + 1}) = entries t \<union> (entries (v # vs) - {i + 1})"
      using entries_store [OF hl, of v] True by (auto simp: entries_def)
    have "used (t[h := v]) + used vs < BITVEC_NINT" using u Cons.prems(2) by simp
    then show ?thesis
      using Cons.IH [OF lp] True h hl(1) len(1) u e by (auto simp: bvFreeSlot_probe wr_def)
  qed
qed

definition bv_removed :: "bitvec \<Rightarrow> nat \<Rightarrow> bitvec \<Rightarrow> bool" where
  "bv_removed p i p' \<longleftrightarrow> bv_wf p' \<and> iSize p' = iSize p
     \<and> (\<forall>j < iSize p. bv_has p' j \<longleftrightarrow> bv_has p j \<and> j \<noteq> i)"

lemma bvClear_bitmap:
  assumes "sz \<le> BITVEC_NBIT" "length bs = BITVEC_NELEM" "i < sz"
  shows "bv_removed (Bitvec sz n 0 (ABitmap bs)) i
    (Bitvec sz n 0 (ABitmap (bs[i div 8 := bs ! (i div 8) AND NOT (push_bit (i mod 8) 1)])))"
proof -
  have l: "j < sz \<Longrightarrow> j div 8 < 496" for j using assms(1) less_mult_imp_div_less [of j 496 8] by simp
  have "bit (bs[i div 8 := bs ! (i div 8) AND NOT (push_bit (i mod 8) 1)] ! (j div 8)) (j mod 8)
      \<longleftrightarrow> bit (bs ! (j div 8)) (j mod 8) \<and> j \<noteq> i" if "j < sz" for j
    using l [OF that] l [OF assms(3)] assms(2) div_mod_8 [of i j]
    by (cases "i div 8 = j div 8") (auto simp: bit_and_iff bit_not_iff bit_exp_iff possible_bit_word)
  then show ?thesis using assms by (auto simp: bv_removed_def bv_wf_simps bv_has_def bvTest_bitmap)
qed

lemma bvClear_hash:
  assumes wf: "bv_wf (Bitvec sz n 0 (AHash t))"
  shows "\<exists>p'. bvClear (Bitvec sz n 0 (AHash t)) i = Some p' \<and> bv_removed (Bitvec sz n 0 (AHash t)) i p'"
proof -
  have t: "BITVEC_NBIT < sz" "bv_lp t" "used t < BITVEC_NINT" "\<And>x. x \<in> set t \<Longrightarrow> x \<le> sz"
    using wf by (auto simp: bv_wf_simps)
  obtain t' where t': "bvClearHash t i 0 (replicate BITVEC_NINT 0) = Some (used t', t')"
      "bv_lp t'" "used t' \<le> used t" "entries t' = entries t - {i + 1}"
    using bvClearHash_ok [OF bvh.lp_inv_empty, of t i] t(3) by auto
  have "x \<in> set t' \<Longrightarrow> x = 0 \<or> x \<in> set t" for x using t'(4) by (auto simp: entries_def)
  then have "x \<in> set t' \<Longrightarrow> x \<le> sz" for x using t(4) by fastforce
  then have "bv_wf (Bitvec sz (used t') 0 (AHash t'))"
    using t(1,3) t'(2,3) by (intro bv_wf.hash) simp_all
  moreover have "j + 1 \<in> set t' \<longleftrightarrow> j + 1 \<in> set t \<and> j \<noteq> i" for j using t'(4) by (auto simp: entries_def)
  ultimately show ?thesis
    using t t' by (auto simp: bv_removed_def bv_has_def bvTest_hash)
qed

lemma bv_removed_sub:
  assumes wf: "bv_wf (Bitvec sz n d (ApSub subs))" and i: "i < sz"
    and q0: "subs ! (i div d) = Some q0" and q: "bv_removed q0 (i mod d) q"
  shows "bv_removed (Bitvec sz n d (ApSub subs)) i (Bitvec sz n d (ApSub (subs[i div d := Some q])))"
proof -
  have d: "d = (61 + sz) div 62" "d \<noteq> 0" "length subs = 62"
    using wf divisor_pos [of sz] by (auto simp: bv_wf_simps)
  have bin: "j < sz \<Longrightarrow> j div d < length subs" for j using d(1,3) bin_less by simp
  have "Some q0 \<in> set subs" using q0 nth_mem [OF bin [OF i]] by metis
  then have sz0: "iSize q0 = d" using wf by (auto simp: bv_wf_simps)
  have "bv_has (Bitvec sz n d (ApSub (subs[i div d := Some q]))) j \<longleftrightarrow>
      bv_has (Bitvec sz n d (ApSub subs)) j \<and> j \<noteq> i" if j: "j < sz" for j
  proof (cases "j div d = i div d")
    case True
    moreover have "j mod d = i mod d \<longleftrightarrow> j = i" using True by (metis div_mult_mod_eq)
    moreover have "j mod d < iSize q0" using sz0 d(2) by simp
    ultimately show ?thesis
      using bv_has_sub_update [OF d(2) bin [OF j] bin [OF i], of sz n q] q q0 d(2) bin [OF j]
      unfolding bv_removed_def by (auto simp: bv_has_def bvTest_subs)
  next
    case False
    then show ?thesis using bv_has_sub_update [OF d(2) bin [OF j] bin [OF i], of sz n q] by auto
  qed
  then show ?thesis
    using bv_wf_sub_update [OF wf _ _ bin [OF i], of q] q sz0 by (auto simp: bv_removed_def)
qed

lemma bvClear_ok: "bv_wf p \<Longrightarrow> i < iSize p \<Longrightarrow> \<exists>p'. bvClear p i = Some p' \<and> bv_removed p i p'"
proof (induction p arbitrary: i rule: bv_wf.induct)
  case (bitmap sz bs n)
  then show ?case
    using bvClear_bitmap [of sz bs i n] less_mult_imp_div_less [of i 496 8] by (simp add: rd_def wr_def)
next
  case (hash sz t n)
  then show ?case by (intro bvClear_hash bv_wf.hash)
next
  case (subs sz d subs n)
  have wf: "bv_wf (Bitvec sz n d (ApSub subs))" using subs(1-4) by (intro bv_wf.subs) auto
  have d: "d \<noteq> 0" "i div d < 62" "i < sz" using subs(1,2,5) divisor_pos [of sz] bin_less [of i sz] by auto
  show ?case
  proof (cases "subs ! (i div d)")
    case None
    then have "\<not> bv_has (Bitvec sz n d (ApSub subs)) i"
      using d subs(3) by (simp add: bv_has_def bvTest_subs)
    then show ?thesis using None d subs(3) wf by (auto simp: bv_removed_def)
  next
    case (Some q0)
    then have "Some q0 \<in> set subs" using d(2) subs(3) by (metis nth_mem)
    then have "\<exists>q. bvClear q0 (i mod d) = Some q \<and> bv_removed q0 (i mod d) q"
      using subs(4) [of q0] d(1) by simp
    then obtain q where "bvClear q0 (i mod d) = Some q" "bv_removed q0 (i mod d) q" by blast
    then show ?thesis using Some d subs(3) bv_removed_sub [OF wf d(3) Some] by auto
  qed
qed

section \<open>The interface: a bounded set with insertions that may fail\<close>

datatype set_op = SetBit nat | ClearBit nat

fun op_spec :: "nat set \<Rightarrow> set_op \<Rightarrow> nat set" where
  "op_spec S (SetBit i) = insert i S"
| "op_spec S (ClearBit i) = S - {i}"

fun op_arg :: "set_op \<Rightarrow> nat" where
  "op_arg (SetBit i) = i"
| "op_arg (ClearBit i) = i"

locale bounded_set =
  fixes inv :: "'s \<Rightarrow> bool" and bound :: "'s \<Rightarrow> nat" and mem :: "'s \<Rightarrow> nat set"
    and step :: "'s \<Rightarrow> set_op \<Rightarrow> (rc \<times> 's) option"
  assumes step_law: "inv s \<Longrightarrow> 0 < op_arg x \<Longrightarrow> op_arg x \<le> bound s \<Longrightarrow>
    \<exists>r s'. step s x = Some (r, s') \<and> inv s' \<and> bound s' = bound s
      \<and> mem s' \<subseteq> insert (op_arg x) (mem s) \<and> (r = SQLITE_OK \<longrightarrow> mem s' = op_spec (mem s) x)"
begin

text \<open>A run always ends; what it adds was asked for, and a run without a failure is exact.\<close>

lemma run_refines:
  assumes "inv s" "\<forall>x \<in> set xs. 0 < op_arg x \<and> op_arg x \<le> bound s"
  shows "\<exists>rs s'. run_steps step s xs = Some (rs, s') \<and> inv s' \<and> bound s' = bound s \<and> length rs = length xs
    \<and> mem s' \<subseteq> mem s \<union> op_arg ` set xs
    \<and> ((\<forall>r \<in> set rs. r = SQLITE_OK) \<longrightarrow> mem s' = foldl op_spec (mem s) xs)"
  using assms
proof (induction xs arbitrary: s)
  case (Cons x xs)
  obtain r s' where 1: "step s x = Some (r, s')" "inv s'" "bound s' = bound s"
      "mem s' \<subseteq> insert (op_arg x) (mem s)" "r = SQLITE_OK \<longrightarrow> mem s' = op_spec (mem s) x"
    using step_law [of s x] Cons.prems by auto
  obtain rs s'' where 2: "run_steps step s' xs = Some (rs, s'')" "inv s''" "bound s'' = bound s'" "length rs = length xs"
      "mem s'' \<subseteq> mem s' \<union> op_arg ` set xs"
      "(\<forall>r \<in> set rs. r = SQLITE_OK) \<longrightarrow> mem s'' = foldl op_spec (mem s') xs"
    using Cons.IH [of s'] 1(2,3) Cons.prems(2) by auto
  then show ?case using 1 by auto
qed simp

end

text \<open>The state of a client: the number of allocations so far and the bitmap.\<close>

fun bv_step :: "(nat \<Rightarrow> bool) \<Rightarrow> nat \<times> bitvec \<Rightarrow> set_op \<Rightarrow> (rc \<times> nat \<times> bitvec) option" where
  "bv_step al (n, p) (SetBit i) = do {
     (r, n', q) \<leftarrow> sqlite3BitvecSet al n (Some p) i;
     case q of None \<Rightarrow> None | Some p' \<Rightarrow> Some (r, n', p') }"
| "bv_step al (n, p) (ClearBit i) = do {
     q \<leftarrow> sqlite3BitvecClear (Some p) i;
     case q of None \<Rightarrow> None | Some p' \<Rightarrow> Some (SQLITE_OK, n, p') }"

definition bv_mem :: "bitvec \<Rightarrow> nat set" where
  "bv_mem p = {i. sqlite3BitvecTest (Some p) i = Some True}"

lemma bv_mem_iff: "i \<in> bv_mem p \<longleftrightarrow> 0 < i \<and> i \<le> iSize p \<and> bv_has p (i - 1)"
  by (auto simp: bv_mem_def sqlite3BitvecTest_def bv_has_def)

lemma bv_rank_u32: "iSize p < 2 ^ 32 \<Longrightarrow> bv_rank p < bv_fuel"
  using bv_level_u32 [of "iSize p"] by (auto simp: bv_rank_def bv_fuel_def)

lemma bvSet_mem:
  assumes "bv_wf p" "iSize p < 2 ^ 32" "0 < i" "i \<le> iSize p"
  shows "\<exists>r n' p'. sqlite3BitvecSet al n (Some p) i = Some (r, n', Some p') \<and> bv_wf p' \<and> iSize p' = iSize p
    \<and> (r = SQLITE_OK \<or> r = SQLITE_NOMEM) \<and> ((\<forall>k. al k) \<longrightarrow> r = SQLITE_OK)
    \<and> bv_mem p' \<subseteq> insert i (bv_mem p) \<and> (r = SQLITE_OK \<longrightarrow> bv_mem p' = insert i (bv_mem p))"
proof -
  have "set_ok al p {i - 1} (bvSet bv_fuel al n p (i - 1))"
    using assms bv_rank_u32 by (intro bvSet_ok) auto
  then obtain r n' p' where 1: "bvSet bv_fuel al n p (i - 1) = Some (r, n', p')"
      "bv_added p {i - 1} r p'" "(\<forall>k. al k) \<longrightarrow> r = SQLITE_OK"
    by (rule set_okE)
  have e: "j - 1 \<in> {i - 1} \<longleftrightarrow> j = i" if "0 < j" for j using that assms(3) by auto
  have "bv_mem p' \<subseteq> insert i (bv_mem p)"
    using 1(2) e unfolding bv_added_def bv_mem_iff subset_iff insert_iff by (metis Suc_le_eq Suc_pred')
  moreover have "insert i (bv_mem p) \<subseteq> bv_mem p'" if "r = SQLITE_OK"
    using 1(2) e assms(3,4) that unfolding bv_added_def bv_mem_iff subset_iff insert_iff by (metis Suc_le_eq Suc_pred')
  ultimately show ?thesis using 1 by (auto simp: bv_added_def sqlite3BitvecSet_def)
qed

lemma bvClear_mem:
  assumes "bv_wf p" "0 < i" "i \<le> iSize p"
  shows "\<exists>p'. sqlite3BitvecClear (Some p) i = Some (Some p') \<and> bv_wf p' \<and> iSize p' = iSize p
    \<and> bv_mem p' = bv_mem p - {i}"
proof -
  have "i - 1 < iSize p" using assms by simp
  then obtain p' where 1: "bvClear p (i - 1) = Some p'" "bv_removed p (i - 1) p'"
    using bvClear_ok [OF assms(1)] by auto
  have "j \<in> bv_mem p' \<longleftrightarrow> j \<in> bv_mem p \<and> j \<noteq> i" for j
    using 1(2) assms(2) unfolding bv_removed_def bv_mem_iff
    by (cases j; cases i) (auto simp: Suc_le_eq)
  then show ?thesis using 1 by (auto simp: sqlite3BitvecClear_def bv_removed_def)
qed

interpretation bvs: bounded_set "\<lambda>(n, p). bv_wf p \<and> iSize p < 2 ^ 32" "\<lambda>(n, p). iSize p" "\<lambda>(n, p). bv_mem p"
  "bv_step al" for al
proof (unfold_locales, goal_cases)
  case (1 s x)
  obtain n p where s: "s = (n, p)" by (cases s)
  show ?case
  proof (cases x)
    case (SetBit i)
    then show ?thesis using 1 s bvSet_mem [of p i al n] by auto
  next
    case (ClearBit i)
    then show ?thesis using 1 s bvClear_mem [of p i] by auto
  qed
qed

section \<open>Properties\<close>

text \<open>
  Setting a bit. For every valid bitmap and every number in its range, and whatever
  allocations fail, \<^verbatim>\<open>sqlite3BitvecSet\<close> returns \<^verbatim>\<open>SQLITE_OK\<close> or \<^verbatim>\<open>SQLITE_NOMEM\<close> (the former when no
  allocation fails) and leaves a valid bitmap of the same size. On success it holds exactly
  the old members and the new one, through every rehash into sub-bitmaps; on failure it holds
  no member that was not asked for.
\<close>

theorem bitvec_set_correct:
  assumes "bv_wf p" "iSize p < 2 ^ 32" "0 < i" "i \<le> iSize p"
  shows "\<exists>r n' p'. sqlite3BitvecSet al n (Some p) i = Some (r, n', Some p') \<and> bv_wf p' \<and> iSize p' = iSize p
    \<and> (r = SQLITE_OK \<or> r = SQLITE_NOMEM) \<and> ((\<forall>k. al k) \<longrightarrow> r = SQLITE_OK)
    \<and> bv_mem p' \<subseteq> insert i (bv_mem p) \<and> (r = SQLITE_OK \<longrightarrow> bv_mem p' = insert i (bv_mem p))"
  using assms by (rule bvSet_mem)

text \<open>
  clearing and testing. \<^verbatim>\<open>sqlite3BitvecClear\<close> always ends, keeps the bitmap valid and
  removes exactly the number asked for, although it rebuilds the hash table; and
  \<^verbatim>\<open>sqlite3BitvecTest\<close> ends on every valid bitmap for every number, in range or not.
\<close>

theorem bitvec_clear_test:
  assumes "bv_wf p" "0 < i" "i \<le> iSize p"
  shows "\<exists>p'. sqlite3BitvecClear (Some p) i = Some (Some p') \<and> bv_wf p' \<and> iSize p' = iSize p
    \<and> (\<forall>j. \<exists>b. sqlite3BitvecTest (Some p) j = Some b
         \<and> sqlite3BitvecTest (Some p') j = Some (b \<and> j \<noteq> i))"
proof -
  obtain p' where p': "sqlite3BitvecClear (Some p) i = Some (Some p')" "bv_wf p'" "iSize p' = iSize p"
      "bv_mem p' = bv_mem p - {i}"
    using bvClear_mem [OF assms] by auto
  have "sqlite3BitvecTest (Some q) j = Some (j \<in> bv_mem q)" if "bv_wf q" for q j
    using bvTest_total [OF that, of "j - 1"] by (auto simp: sqlite3BitvecTest_def bv_mem_iff)
  then show ?thesis using p' assms(1) by auto
qed

text \<open>
  \<^bold>\<open>C7\<close>: every history. From a new bitmap of any size, every sequence of calls in range ends
  in a valid bitmap; and when no call reported an error the numbers that \<^verbatim>\<open>sqlite3BitvecTest\<close>
  finds are those of the mathematical set after the same insertions and removals.
\<close>

theorem bitvec_history:
  assumes "sz < 2 ^ 32" "\<forall>x \<in> set xs. 0 < op_arg x \<and> op_arg x \<le> sz"
  shows "\<exists>rs n' p'. run_steps (bv_step al) (n, sqlite3BitvecCreate sz) xs = Some (rs, n', p') \<and> bv_wf p'
    \<and> ((\<forall>r \<in> set rs. r = SQLITE_OK) \<longrightarrow>
         {i. sqlite3BitvecTest (Some p') i = Some True} = foldl op_spec {} xs)"
proof -
  have "bv_mem (sqlite3BitvecCreate sz) = {}" by (auto simp: bv_mem_iff bv_has_create)
  then show ?thesis
    using bvs.run_refines [of "(n, sqlite3BitvecCreate sz)" xs al] assms bv_wf_create
    by (auto simp: bv_mem_def)
qed

theorem bitvec_history_witness:
  "\<exists>rs n' p'. run_steps (bv_step (\<lambda>_. True)) (0, sqlite3BitvecCreate 9000) [SetBit 5, SetBit 129, ClearBit 5]
     = Some (rs, n', p') \<and> bv_wf p'
    \<and> ((\<forall>r \<in> set rs. r = SQLITE_OK) \<longrightarrow>
         {i. sqlite3BitvecTest (Some p') i = Some True} = foldl op_spec {} [SetBit 5, SetBit 129, ClearBit 5])"
  using bitvec_history [of 9000 "[SetBit 5, SetBit 129, ClearBit 5]" "\<lambda>_. True" 0] by simp

end
