(* ===== verification/BucketSort.thy ===== *)
theory BucketSort
  imports Sqlite_Prelude
begin

text \<open>
  The bottom-up merge sort with an array of buckets that \<^verbatim>\<open>rowset.c\<close> and \<^verbatim>\<open>pcache.c\<close> both use
  on linked lists: bucket \<open>i\<close> is empty or holds a merged list of \<open>2 ^ i\<close> input elements, and a
  new element is carried through the buckets as in a binary counter. The locale fixes the
  merge routine with what it promises (a validity of lists that it keeps, and an abstraction
  to a commutative monoid that it adds up) and shows that the whole sort keeps both.
\<close>

section \<open>Buckets\<close>

text \<open>Carrying a list into the first empty bucket; \<^const>\<open>None\<close> is an access past the last bucket.\<close>

fun carry :: "('a list \<Rightarrow> 'a list \<Rightarrow> 'a list) \<Rightarrow> 'a list list \<Rightarrow> 'a list \<Rightarrow> 'a list list option" where
  "carry mrg [] p = None"
| "carry mrg (b # bs) p =
    (if b \<noteq> [] then map_option (\<lambda>bs'. [] # bs') (carry mrg bs (mrg b p)) else Some (p # bs))"

text \<open>The number of elements carried in so far, read off the used buckets.\<close>

fun bucket_count :: "'a list list \<Rightarrow> nat" where
  "bucket_count [] = 0"
| "bucket_count (b # bs) = (if b \<noteq> [] then 1 else 0) + 2 * bucket_count bs"

lemma bucket_count_replicate [simp]: "bucket_count (replicate n []) = 0"
  by (induction n) auto

lemma bucket_count_less: "bucket_count bs < 2 ^ length bs"
  by (induction bs) auto

locale bucket_merge = comm_monoid join zero
  for join :: "'b \<Rightarrow> 'b \<Rightarrow> 'b" and zero :: 'b +
  fixes mrg :: "'a list \<Rightarrow> 'a list \<Rightarrow> 'a list" and valid :: "'a list \<Rightarrow> bool" and val :: "'a list \<Rightarrow> 'b"
  assumes valid_Nil: "valid []" and val_Nil: "val [] = zero"
    and mrg_valid: "valid a \<Longrightarrow> valid b \<Longrightarrow> valid (mrg a b)"
    and mrg_val: "valid a \<Longrightarrow> valid b \<Longrightarrow> val (mrg a b) = join (val a) (val b)"
    and mrg_ne: "b \<noteq> [] \<Longrightarrow> mrg a b \<noteq> []"
begin

lemma join_left_commute: "join a (join b c) = join b (join a c)"
  by (rule left_commute)

definition total :: "'a list list \<Rightarrow> 'b" where
  "total bs = foldr (\<lambda>b t. join (val b) t) bs zero"

lemma total_simps [simp]: "total [] = zero" "total (b # bs) = join (val b) (total bs)"
  by (simp_all add: total_def)

lemma total_replicate [simp]: "total (replicate n []) = zero"
  by (induction n) (simp_all add: val_Nil)

lemma carry_total:
  "carry mrg bs p = Some bs' \<Longrightarrow> valid p \<Longrightarrow> \<forall>b \<in> set bs. valid b
    \<Longrightarrow> total bs' = join (val p) (total bs) \<and> (\<forall>b \<in> set bs'. valid b) \<and> length bs' = length bs"
proof (induction bs arbitrary: p bs')
  case (Cons b bs)
  show ?case
  proof (cases "b = []")
    case True
    then show ?thesis using Cons.prems by (auto simp: val_Nil)
  next
    case False
    then obtain bs1 where 1: "carry mrg bs (mrg b p) = Some bs1" "bs' = [] # bs1" using Cons.prems(1) by auto
    have "total bs1 = join (val (mrg b p)) (total bs) \<and> (\<forall>b \<in> set bs1. valid b) \<and> length bs1 = length bs"
      by (rule Cons.IH [OF 1(1)]) (use Cons.prems(2,3) in \<open>simp_all add: mrg_valid\<close>)
    moreover have "val (mrg b p) = join (val b) (val p)" using Cons.prems(2,3) by (simp add: mrg_val)
    ultimately show ?thesis using 1(2) by (simp add: val_Nil valid_Nil assoc join_left_commute [of "val p"])
  qed
qed simp

lemma carry_count:
  "p \<noteq> [] \<Longrightarrow> Suc (bucket_count bs) < 2 ^ length bs \<Longrightarrow>
    \<exists>bs'. carry mrg bs p = Some bs' \<and> bucket_count bs' = Suc (bucket_count bs)"
proof (induction bs arbitrary: p)
  case (Cons b bs)
  show ?case
  proof (cases "b = []")
    case False
    then have "Suc (bucket_count bs) < 2 ^ length bs" using Cons.prems(2) by simp
    from Cons.IH [OF mrg_ne [OF Cons.prems(1)] this, of b] show ?thesis using False by auto
  qed (use Cons.prems in auto)
qed simp

text \<open>The final loop merges the buckets from the first to the last.\<close>

lemma fold_total:
  "valid p \<Longrightarrow> \<forall>b \<in> set bs. valid b \<Longrightarrow>
    valid (fold (\<lambda>b p. mrg p b) bs p) \<and> val (fold (\<lambda>b p. mrg p b) bs p) = join (val p) (total bs)"
  by (induction bs arbitrary: p) (simp_all add: mrg_valid mrg_val assoc)

end

end
