(* ===== verification/RowSet.thy ===== *)
theory RowSet
  imports BucketSort Refines "HOL-Library.Tree"
begin

text \<open>
  The row sets of \<^verbatim>\<open>rowset.c\<close>. A linked list of entries is the list of their values, a binary
  tree of entries a \<^typ>\<open>int tree\<close> with \<^const>\<open>Leaf\<close> for a null pointer, and the forest the list
  of its trees. \<^verbatim>\<open>RowSet.pLast\<close> always points to the last entry of \<^verbatim>\<open>RowSet.pEntry\<close> while
  insertions are allowed, so it is kept as the value stored there. Allocation of a chunk of
  entries is the oracle \<open>al\<close>, counted by the number of requests made; a failure sets the flag
  \<^verbatim>\<open>mallocFailed\<close> of the connection.
\<close>

section \<open>Data\<close>

record rowset =
  nChunk :: nat
  pEntry :: "int list"
  pLast :: "int option"
  pForest :: "int tree list"
  nFresh :: nat
  rsSorted :: bool
  rsNext :: bool
  iBatch :: nat
  nAlloc :: nat
  mallocFailed :: bool

text \<open>\<^verbatim>\<open>(1024 - 8) / sizeof(struct RowSetEntry)\<close>, with three 8-byte fields.\<close>

definition ROWSET_ENTRY_PER_CHUNK :: nat where
  "ROWSET_ENTRY_PER_CHUNK = (1024 - 8) div 24"

section \<open>Operations\<close>

text \<open>\<^verbatim>\<open>N\<close> is the space beyond the \<^verbatim>\<open>RowSet\<close> itself, \<^verbatim>\<open>ROUND8(sizeof(*p)) = 64\<close> bytes.\<close>

definition sqlite3RowSetInit :: "nat \<Rightarrow> rowset option" where
  "sqlite3RowSetInit N = (if 64 \<le> N then
     Some \<lparr>nChunk = 0, pEntry = [], pLast = None, pForest = [],
       nFresh = ((N - 64) div 24) mod 2 ^ 16, rsSorted = True, rsNext = False, iBatch = 0,
       nAlloc = 0, mallocFailed = False\<rparr> else None)"

definition sqlite3RowSetClear :: "rowset \<Rightarrow> rowset" where
  "sqlite3RowSetClear p = p\<lparr>nChunk := 0, nFresh := 0, pEntry := [], pLast := None, pForest := [],
     rsSorted := True, rsNext := False\<rparr>"

text \<open>\<^const>\<open>False\<close> is the null pointer.\<close>

definition rowSetEntryAlloc :: "(nat \<Rightarrow> bool) \<Rightarrow> rowset \<Rightarrow> bool \<times> rowset" where
  "rowSetEntryAlloc al p =
    (if nFresh p = 0 then
       (if al (nAlloc p) then
          (True, p\<lparr>nAlloc := nAlloc p + 1, nChunk := nChunk p + 1, nFresh := ROWSET_ENTRY_PER_CHUNK - 1\<rparr>)
        else (False, p\<lparr>nAlloc := nAlloc p + 1, mallocFailed := True\<rparr>))
     else (True, p\<lparr>nFresh := nFresh p - 1\<rparr>))"

definition sqlite3RowSetInsert :: "(nat \<Rightarrow> bool) \<Rightarrow> rowset \<Rightarrow> int \<Rightarrow> rowset" where
  "sqlite3RowSetInsert al p rowid =
    (case rowSetEntryAlloc al p of
       (False, p1) \<Rightarrow> p1
     | (True, p1) \<Rightarrow>
         (case pLast p1 of
            Some v \<Rightarrow> p1\<lparr>rsSorted := rsSorted p1 \<and> \<not> rowid \<le> v, pEntry := pEntry p1 @ [rowid], pLast := Some rowid\<rparr>
          | None \<Rightarrow> p1\<lparr>pEntry := [rowid], pLast := Some rowid\<rparr>))"

fun rowSetEntryMerge :: "int list \<Rightarrow> int list \<Rightarrow> int list" where
  "rowSetEntryMerge (a # as) (b # bs) =
    (if a < b then a # rowSetEntryMerge as (b # bs)
     else if b < a then b # rowSetEntryMerge (a # as) bs
     else rowSetEntryMerge as (b # bs))"
| "rowSetEntryMerge [] bs = bs"
| "rowSetEntryMerge as [] = as"

text \<open>The first loop puts each entry into the 40 buckets, the second merges them.\<close>

fun rowSetEntrySort_fill :: "int list \<Rightarrow> int list list \<Rightarrow> int list list option" where
  "rowSetEntrySort_fill [] bs = Some bs"
| "rowSetEntrySort_fill (x # xs) bs = do {
     bs' \<leftarrow> carry rowSetEntryMerge bs [x];
     rowSetEntrySort_fill xs bs' }"

definition rowSetEntrySort :: "int list \<Rightarrow> int list option" where
  "rowSetEntrySort xs = do {
     bs \<leftarrow> rowSetEntrySort_fill xs (replicate 40 []);
     Some (fold (\<lambda>b p. rowSetEntryMerge p b) bs []) }"

fun rowSetTreeToList :: "int tree \<Rightarrow> int list" where
  "rowSetTreeToList Leaf = []"
| "rowSetTreeToList (Node l v r) =
    (if l \<noteq> Leaf then rowSetTreeToList l @ [v] else [v]) @ (if r \<noteq> Leaf then rowSetTreeToList r else [])"

text \<open>\<open>rowSetNDeepTree xs k\<close> is the call with \<^verbatim>\<open>iDepth = k + 1\<close>; it returns the tree and \<^verbatim>\<open>*ppList\<close>.\<close>

fun rowSetNDeepTree :: "int list \<Rightarrow> nat \<Rightarrow> int tree \<times> int list" where
  "rowSetNDeepTree [] k = (Leaf, [])"
| "rowSetNDeepTree (x # xs) 0 = (Node Leaf x Leaf, xs)"
| "rowSetNDeepTree (x # xs) (Suc k) =
    (case rowSetNDeepTree (x # xs) k of
       (l, []) \<Rightarrow> (l, [])
     | (l, y # ys) \<Rightarrow> (case rowSetNDeepTree ys k of (r, zs) \<Rightarrow> (Node l y r, zs)))"

lemma rowSetNDeepTree_inorder:
  "inorder (fst (rowSetNDeepTree xs k)) @ snd (rowSetNDeepTree xs k) = xs"
  by (induction xs k rule: rowSetNDeepTree.induct) (auto split: prod.splits list.splits)

lemma rowSetNDeepTree_length: "length (snd (rowSetNDeepTree xs k)) \<le> length xs"
  using arg_cong [OF rowSetNDeepTree_inorder, of length] by (metis le_add2 length_append)

text \<open>The loop of \<^verbatim>\<open>rowSetListToTree\<close> at \<^verbatim>\<open>iDepth = k + 1\<close>.\<close>

function rowSetListToTree_loop :: "int tree \<Rightarrow> int list \<Rightarrow> nat \<Rightarrow> int tree" where
  "rowSetListToTree_loop p [] k = p"
| "rowSetListToTree_loop p (y # ys) k =
    (case rowSetNDeepTree ys k of (r, zs) \<Rightarrow> rowSetListToTree_loop (Node p y r) zs (Suc k))"
  by pat_completeness auto
termination
  by (relation "measure (\<lambda>(p, xs, k). length xs)")
    (auto, metis le_imp_less_Suc rowSetNDeepTree_length snd_conv)

fun rowSetListToTree :: "int list \<Rightarrow> int tree" where
  "rowSetListToTree [] = Leaf"
| "rowSetListToTree (x # xs) = rowSetListToTree_loop (Node Leaf x Leaf) xs 0"

definition rowSetToList :: "rowset \<Rightarrow> rowset option" where
  "rowSetToList p = do {
     xs \<leftarrow> (if \<not> rsSorted p then rowSetEntrySort (pEntry p) else Some (pEntry p));
     Some (p\<lparr>pEntry := xs, rsNext := True\<rparr>) }"

definition sqlite3RowSetNext :: "rowset \<Rightarrow> (int option \<times> rowset) option" where
  "sqlite3RowSetNext p = do {
     p1 \<leftarrow> (if \<not> rsNext p then rowSetToList p else Some p);
     case pEntry p1 of
       v # vs \<Rightarrow> Some (Some v, if vs = [] then sqlite3RowSetClear p1 else p1\<lparr>pEntry := vs\<rparr>)
     | [] \<Rightarrow> Some (None, p1) }"

text \<open>
  The loop that moves a sorted list into the forest: the first empty tree takes it, every tree
  before that one is flattened and merged in. Without an empty tree the merged list is left
  over (second component).
\<close>

fun rowSetTest_forest :: "int tree list \<Rightarrow> int list \<Rightarrow> int tree list \<times> int list option" where
  "rowSetTest_forest [] p = ([], Some p)"
| "rowSetTest_forest (t # ts) p =
    (if t = Leaf then (rowSetListToTree p # ts, None)
     else (case rowSetTest_forest ts (rowSetEntryMerge (rowSetTreeToList t) p) of
             (ts', ys) \<Rightarrow> (Leaf # ts', ys)))"

fun rowSetTest_search :: "int tree \<Rightarrow> int \<Rightarrow> bool" where
  "rowSetTest_search Leaf x = False"
| "rowSetTest_search (Node l v r) x =
    (if v < x then rowSetTest_search r x else if v > x then rowSetTest_search l x else True)"

definition rowSetTest_batch :: "(nat \<Rightarrow> bool) \<Rightarrow> rowset \<Rightarrow> nat \<Rightarrow> rowset option" where
  "rowSetTest_batch al p b = do {
     p3 \<leftarrow> (if pEntry p \<noteq> [] then do {
              xs \<leftarrow> (if \<not> rsSorted p then rowSetEntrySort (pEntry p) else Some (pEntry p));
              p2 \<leftarrow> (case rowSetTest_forest (pForest p) xs of
                       (ts, None) \<Rightarrow> Some (p\<lparr>pForest := ts\<rparr>)
                     | (ts, Some ys) \<Rightarrow>
                         (case rowSetEntryAlloc al p of
                            (True, p1) \<Rightarrow> Some (p1\<lparr>pForest := ts @ [rowSetListToTree ys]\<rparr>)
                          | (False, p1) \<Rightarrow> Some (p1\<lparr>pForest := ts\<rparr>)));
              Some (p2\<lparr>pEntry := [], pLast := None, rsSorted := True\<rparr>) }
            else Some p);
     Some (p3\<lparr>iBatch := b\<rparr>) }"

definition sqlite3RowSetTest :: "(nat \<Rightarrow> bool) \<Rightarrow> rowset \<Rightarrow> nat \<Rightarrow> int \<Rightarrow> (bool \<times> rowset) option" where
  "sqlite3RowSetTest al p b x = do {
     p1 \<leftarrow> (if b \<noteq> iBatch p then rowSetTest_batch al p b else Some p);
     Some (list_ex (\<lambda>t. rowSetTest_search t x) (pForest p1), p1) }"

section \<open>Merging and sorting\<close>

text \<open>Strictly ascending lists, the form in which entries are kept: sorted without duplicates.\<close>

abbreviation (input) asc :: "int list \<Rightarrow> bool" where "asc \<equiv> sorted_wrt (<)"

lemma set_rowSetEntryMerge [simp]: "set (rowSetEntryMerge as bs) = set as \<union> set bs"
  by (induction as bs rule: rowSetEntryMerge.induct) auto

lemma asc_rowSetEntryMerge: "asc as \<Longrightarrow> asc bs \<Longrightarrow> asc (rowSetEntryMerge as bs)"
  by (induction as bs rule: rowSetEntryMerge.induct) auto

lemma rowSetEntryMerge_ne: "bs \<noteq> [] \<Longrightarrow> rowSetEntryMerge as bs \<noteq> []"
  by (induction as bs rule: rowSetEntryMerge.induct) auto

interpretation rsm: bucket_merge "(\<union>)" "{}" rowSetEntryMerge "sorted_wrt (<)" set
  by unfold_locales (auto simp: asc_rowSetEntryMerge rowSetEntryMerge_ne)

lemma rowSetEntrySort_fill_ok:
  "bucket_count bs + length xs < 2 ^ length bs \<Longrightarrow> \<forall>b \<in> set bs. asc b \<Longrightarrow>
    \<exists>bs'. rowSetEntrySort_fill xs bs = Some bs' \<and> (\<forall>b \<in> set bs'. asc b) \<and> rsm.total bs' = set xs \<union> rsm.total bs"
proof (induction xs arbitrary: bs)
  case (Cons x xs)
  then obtain bs1 where 1: "carry rowSetEntryMerge bs [x] = Some bs1" "bucket_count bs1 = Suc (bucket_count bs)"
    using rsm.carry_count [of "[x]" bs] by auto
  moreover have "rsm.total bs1 = {x} \<union> rsm.total bs" "\<forall>b \<in> set bs1. asc b" "length bs1 = length bs"
    using rsm.carry_total [OF 1(1)] Cons.prems(2) by auto
  ultimately show ?case using Cons.IH [of bs1] Cons.prems(1) by auto
qed simp

lemma rowSetEntrySort_ok:
  "length xs < 2 ^ 40 \<Longrightarrow> \<exists>ys. rowSetEntrySort xs = Some ys \<and> asc ys \<and> set ys = set xs"
  using rowSetEntrySort_fill_ok [of "replicate 40 []" xs] rsm.fold_total [of "[]"]
  by (auto simp: rowSetEntrySort_def)

section \<open>Trees\<close>

lemma rowSetTreeToList_inorder [simp]: "rowSetTreeToList t = inorder t"
  by (induction t) auto

lemma rowSetListToTree_loop_inorder: "inorder (rowSetListToTree_loop p xs k) = inorder p @ xs"
proof (induction p xs k rule: rowSetListToTree_loop.induct)
  case (2 p y ys k)
  then show ?case using rowSetNDeepTree_inorder [of ys k] by (auto split: prod.splits)
qed simp

lemma rowSetListToTree_inorder [simp]: "inorder (rowSetListToTree xs) = xs"
  by (cases xs) (simp_all add: rowSetListToTree_loop_inorder)

lemma set_rowSetListToTree [simp]: "set_tree (rowSetListToTree xs) = set xs"
  by (metis rowSetListToTree_inorder set_inorder)

lemma bst_rowSetListToTree: "bst (rowSetListToTree xs) \<longleftrightarrow> asc xs"
  by (simp add: bst_iff_sorted_wrt_less)

text \<open>A call at depth \<open>k + 1\<close> builds a complete tree unless it uses up the list.\<close>

lemma rowSetNDeepTree_height:
  "height (fst (rowSetNDeepTree xs k)) \<le> Suc k \<and>
   (snd (rowSetNDeepTree xs k) \<noteq> [] \<longrightarrow>
      height (fst (rowSetNDeepTree xs k)) = Suc k \<and> size1 (fst (rowSetNDeepTree xs k)) = 2 ^ Suc k)"
  by (induction xs k rule: rowSetNDeepTree.induct) (auto split: prod.splits list.splits)

lemma rowSetListToTree_loop_height:
  "height p = Suc k \<Longrightarrow> size1 p = 2 ^ Suc k \<Longrightarrow>
    2 ^ (height (rowSetListToTree_loop p xs k) - 1) \<le> size (rowSetListToTree_loop p xs k)"
proof (induction p xs k rule: rowSetListToTree_loop.induct)
  case (1 p k)
  then have "size p = 2 ^ Suc k - 1" by (simp add: size1_size)
  then show ?case using 1(1) by simp
next
  case (2 p y ys k)
  obtain r zs where r: "rowSetNDeepTree ys k = (r, zs)" by fastforce
  then have h: "height r \<le> Suc k" "zs \<noteq> [] \<Longrightarrow> height r = Suc k \<and> size1 r = 2 ^ Suc k"
    using rowSetNDeepTree_height [of ys k] by auto
  show ?case
  proof (cases "zs = []")
    case True
    have "2 ^ Suc k \<le> Suc (size p + size r)" using 2(3) by (simp add: size1_size)
    then show ?thesis using True r h(1) 2(2) by (simp add: max_def)
  next
    case False
    then show ?thesis using 2(1) [of r zs] 2(2,3) r h(2) by simp
  qed
qed

lemma rowSetListToTree_height:
  "xs \<noteq> [] \<Longrightarrow> 2 ^ (height (rowSetListToTree xs) - 1) \<le> length xs"
proof (cases xs)
  case (Cons y ys)
  have "2 ^ (height (rowSetListToTree xs) - 1) \<le> size (rowSetListToTree xs)"
    using rowSetListToTree_loop_height [of "Node Leaf y Leaf" 0 ys] Cons by simp
  also have "\<dots> = length xs" by (metis length_inorder rowSetListToTree_inorder)
  finally show ?thesis .
qed simp

lemma rowSetTest_search_correct: "bst t \<Longrightarrow> rowSetTest_search t x \<longleftrightarrow> x \<in> set_tree t"
  by (induction t) auto

section \<open>Batches\<close>

definition rs_forest :: "int tree list \<Rightarrow> int set" where
  "rs_forest ts = \<Union> (set_tree ` set ts)"

lemma rs_forest_simps [simp]:
  "rs_forest [] = {}" "rs_forest (t # ts) = set_tree t \<union> rs_forest ts"
  "rs_forest (ts @ us) = rs_forest ts \<union> rs_forest us"
  by (auto simp: rs_forest_def)

lemma rowSetTest_forest_ok:
  "asc xs \<Longrightarrow> \<forall>t \<in> set ts. bst t \<Longrightarrow> rowSetTest_forest ts xs = (ts', ys) \<Longrightarrow>
    (\<forall>t \<in> set ts'. bst t) \<and>
    (case ys of None \<Rightarrow> rs_forest ts' = rs_forest ts \<union> set xs
     | Some ys \<Rightarrow> asc ys \<and> rs_forest ts' \<union> set ys = rs_forest ts \<union> set xs)"
proof (induction ts arbitrary: xs ts')
  case (Cons t ts)
  show ?case
  proof (cases "t = Leaf")
    case True
    then show ?thesis using Cons.prems by (auto simp: bst_rowSetListToTree)
  next
    case False
    obtain us where us: "rowSetTest_forest ts (rowSetEntryMerge (inorder t) xs) = (us, ys)" "ts' = Leaf # us"
      using Cons.prems(3) False by (auto split: prod.splits)
    have "asc (rowSetEntryMerge (inorder t) xs)"
      using Cons.prems(1,2) by (simp add: asc_rowSetEntryMerge bst_iff_sorted_wrt_less)
    from Cons.IH [OF this _ us(1)] Cons.prems(2) show ?thesis
      using us(2) by (auto split: option.splits)
  qed
qed auto

definition rs_inv :: "nat \<Rightarrow> rowset \<Rightarrow> bool" where
  "rs_inv n p \<longleftrightarrow> length (pEntry p) + n < 2 ^ 40 \<and> (rsSorted p \<longrightarrow> asc (pEntry p))
     \<and> pLast p = (if pEntry p = [] then None else Some (last (pEntry p)))
     \<and> (\<forall>t \<in> set (pForest p). bst t)"

type_synonym rs_abs = "nat \<times> int set \<times> int set"

text \<open>The contract: the current batch, the values inserted in it, and the values of earlier batches.\<close>

definition rs_abs :: "rowset \<Rightarrow> rs_abs" where
  "rs_abs p = (iBatch p, set (pEntry p), rs_forest (pForest p))"

datatype rs_op = RsInsert int | RsTest nat int

fun rs_spec :: "rs_abs \<Rightarrow> rs_op \<Rightarrow> bool \<times> rs_abs" where
  "rs_spec (b, cur, old) (RsInsert v) = (False, b, insert v cur, old)"
| "rs_spec (b, cur, old) (RsTest b' x) =
    (if b' \<noteq> b then (x \<in> old \<union> cur, b', {}, old \<union> cur) else (x \<in> old, b, cur, old))"

fun rs_step :: "(nat \<Rightarrow> bool) \<Rightarrow> rowset \<Rightarrow> rs_op \<Rightarrow> (bool \<times> rowset) option" where
  "rs_step al p (RsInsert v) = Some (False, sqlite3RowSetInsert al p v)"
| "rs_step al p (RsTest b x) = sqlite3RowSetTest al p b x"

lemma asc_snoc: "asc (xs @ [x]) \<longleftrightarrow> asc xs \<and> (xs = [] \<or> last xs < x)"
proof (induction xs)
  case (Cons a xs)
  then show ?case by (cases xs) auto
qed simp

lemma rowSetEntryAlloc_frame:
  assumes "rowSetEntryAlloc al p = (ok, p1)"
  shows "pEntry p1 = pEntry p" "pLast p1 = pLast p" "pForest p1 = pForest p" "rsSorted p1 = rsSorted p"
    "iBatch p1 = iBatch p" "rsNext p1 = rsNext p" "mallocFailed p1 = (mallocFailed p \<or> \<not> ok)"
    "(\<forall>k. al k) \<Longrightarrow> ok"
  using assms by (auto simp: rowSetEntryAlloc_def split: if_splits)

lemma rs_insert_law:
  assumes "rs_inv (Suc n) p"
  shows "rs_inv n (sqlite3RowSetInsert al p v)"
    and "mallocFailed p \<longrightarrow> mallocFailed (sqlite3RowSetInsert al p v)"
    and "\<not> mallocFailed (sqlite3RowSetInsert al p v) \<Longrightarrow>
      rs_abs (sqlite3RowSetInsert al p v) = (iBatch p, insert v (set (pEntry p)), rs_forest (pForest p))"
proof -
  obtain ok p1 where 1: "rowSetEntryAlloc al p = (ok, p1)" by fastforce
  note f = rowSetEntryAlloc_frame [OF 1]
  show "rs_inv n (sqlite3RowSetInsert al p v)"
    using assms f 1 by (auto simp: sqlite3RowSetInsert_def rs_inv_def asc_snoc split: bool.splits option.splits)
  show "mallocFailed p \<longrightarrow> mallocFailed (sqlite3RowSetInsert al p v)"
    using f 1 by (auto simp: sqlite3RowSetInsert_def split: bool.splits option.splits)
  show "\<not> mallocFailed (sqlite3RowSetInsert al p v) \<Longrightarrow>
      rs_abs (sqlite3RowSetInsert al p v) = (iBatch p, insert v (set (pEntry p)), rs_forest (pForest p))"
    using assms f 1
    by (auto simp: sqlite3RowSetInsert_def rs_abs_def rs_inv_def split: bool.splits option.splits if_splits)
qed

lemma rs_batch_law:
  assumes inv: "rs_inv n p"
  shows "\<exists>p'. rowSetTest_batch al p b = Some p' \<and> rs_inv n p' \<and> (mallocFailed p \<longrightarrow> mallocFailed p')
    \<and> (\<not> mallocFailed p' \<longrightarrow> rs_abs p' = (b, {}, rs_forest (pForest p) \<union> set (pEntry p)))"
proof (cases "pEntry p = []")
  case True
  then show ?thesis using inv by (auto simp: rowSetTest_batch_def rs_inv_def rs_abs_def)
next
  case False
  have len: "length (pEntry p) < 2 ^ 40" "\<forall>t \<in> set (pForest p). bst t" "n < 2 ^ 40"
    using inv by (auto simp: rs_inv_def)
  obtain xs where xs: "(if \<not> rsSorted p then rowSetEntrySort (pEntry p) else Some (pEntry p)) = Some xs"
      "asc xs" "set xs = set (pEntry p)"
    using rowSetEntrySort_ok [OF len(1)] inv by (cases "rsSorted p") (auto simp: rs_inv_def)
  obtain ts ys where ts: "rowSetTest_forest (pForest p) xs = (ts, ys)" by fastforce
  note fo = rowSetTest_forest_ok [OF xs(2) len(2) ts]
  obtain ok p1 where 1: "rowSetEntryAlloc al p = (ok, p1)" by fastforce
  note f = rowSetEntryAlloc_frame [OF 1]
  show ?thesis
    using False xs ts 1 f fo len(3)
    by (cases ys; cases ok) (auto simp: rowSetTest_batch_def rs_inv_def rs_abs_def bst_rowSetListToTree)
qed

lemma rs_search_law:
  "rs_inv n p \<Longrightarrow> list_ex (\<lambda>t. rowSetTest_search t x) (pForest p) \<longleftrightarrow> x \<in> rs_forest (pForest p)"
  by (auto simp: rs_inv_def list_ex_iff rs_forest_def rowSetTest_search_correct)

lemma rs_test_law:
  assumes "rs_inv n p"
  shows "\<exists>r p'. sqlite3RowSetTest al p b x = Some (r, p') \<and> rs_inv n p' \<and> (mallocFailed p \<longrightarrow> mallocFailed p')
    \<and> (\<not> mallocFailed p' \<longrightarrow> rs_spec (rs_abs p) (RsTest b x) = (r, rs_abs p'))"
proof (cases "b = iBatch p")
  case True
  then show ?thesis using assms by (auto simp: sqlite3RowSetTest_def rs_abs_def rs_search_law)
next
  case False
  obtain p' where "rowSetTest_batch al p b = Some p'" "rs_inv n p'" "mallocFailed p \<longrightarrow> mallocFailed p'"
    "\<not> mallocFailed p' \<longrightarrow> rs_abs p' = (b, {}, rs_forest (pForest p) \<union> set (pEntry p))"
    using rs_batch_law [OF assms] by blast
  then show ?thesis using False by (auto simp: sqlite3RowSetTest_def rs_abs_def rs_search_law)
qed

interpretation rsr: refines rs_inv rs_abs "\<lambda>_. True" mallocFailed "rs_step al" rs_spec for al
proof (unfold_locales, goal_cases)
  case (1 n p x)
  show ?case
  proof (cases x)
    case (RsInsert v)
    then show ?thesis using rs_insert_law [OF 1(1), of al v] by (auto simp: rs_abs_def)
  next
    case (RsTest b v)
    have "rs_inv n p" using 1(1) by (auto simp: rs_inv_def)
    then show ?thesis using rs_test_law [of n p al b v] RsTest by auto
  qed
qed

section \<open>Reading the set in order\<close>

text \<open>Calling \<^verbatim>\<open>sqlite3RowSetNext\<close> until it returns 0, with at most \<open>f\<close> calls.\<close>

fun rs_drain :: "nat \<Rightarrow> rowset \<Rightarrow> int list option" where
  "rs_drain 0 p = None"
| "rs_drain (Suc f) p = do {
     (r, p') \<leftarrow> sqlite3RowSetNext p;
     case r of None \<Rightarrow> Some [] | Some v \<Rightarrow> map_option (\<lambda>vs. v # vs) (rs_drain f p') }"

lemma rs_drain_next:
  "rsNext p \<or> pEntry p = [] \<and> rsSorted p \<Longrightarrow> length (pEntry p) < f \<Longrightarrow> rs_drain f p = Some (pEntry p)"
proof (induction f arbitrary: p)
  case (Suc f)
  show ?case
  proof (cases "pEntry p")
    case Nil
    then show ?thesis using Suc.prems by (auto simp: sqlite3RowSetNext_def rowSetToList_def)
  next
    case (Cons v vs)
    let ?p1 = "if vs = [] then sqlite3RowSetClear p else p\<lparr>pEntry := vs\<rparr>"
    have "sqlite3RowSetNext p = Some (Some v, ?p1)" "pEntry ?p1 = vs"
      using Cons Suc.prems(1) by (simp_all add: sqlite3RowSetNext_def sqlite3RowSetClear_def)
    moreover have "rsNext ?p1 \<or> pEntry ?p1 = [] \<and> rsSorted ?p1"
      using Cons Suc.prems(1) by (simp add: sqlite3RowSetClear_def)
    ultimately show ?thesis using Suc.IH [of ?p1] Suc.prems(2) Cons by simp
  qed
qed simp

lemma asc_sorted_list_of_set: "asc xs \<Longrightarrow> sorted_list_of_set (set xs) = xs"
  by (simp add: sorted_list_of_set.idem_if_sorted_distinct strict_sorted_iff)

lemma rs_drain_sorts:
  assumes "rs_inv n p" "\<not> rsNext p" "length (pEntry p) < f"
  shows "rs_drain f p = Some (sorted_list_of_set (set (pEntry p)))"
proof -
  have "length (pEntry p) < 2 ^ 40" using assms(1) by (simp add: rs_inv_def)
  then obtain ys where ys: "(if \<not> rsSorted p then rowSetEntrySort (pEntry p) else Some (pEntry p)) = Some ys"
      "asc ys" "set ys = set (pEntry p)"
    using rowSetEntrySort_ok [of "pEntry p"] assms(1) by (cases "rsSorted p") (auto simp: rs_inv_def)
  let ?p1 = "p\<lparr>pEntry := ys, rsNext := True\<rparr>"
  have "rowSetToList p = Some ?p1" using ys(1) by (simp add: rowSetToList_def)
  then have "sqlite3RowSetNext p = sqlite3RowSetNext ?p1" using assms(2) by (simp add: sqlite3RowSetNext_def)
  then have "rs_drain f p = rs_drain f ?p1" by (cases f) auto
  moreover have "length ys \<le> length (pEntry p)"
    using ys(2,3) by (metis card_length distinct_card strict_sorted_iff)
  ultimately show ?thesis
    using rs_drain_next [of ?p1 f] assms(3) asc_sorted_list_of_set [OF ys(2)] ys(3) by simp
qed

lemma sqlite3RowSetInsert_no_oom:
  "(\<forall>k. al k) \<Longrightarrow> mallocFailed (sqlite3RowSetInsert al p v) = mallocFailed p"
  using rowSetEntryAlloc_frame [of al p "fst (rowSetEntryAlloc al p)" "snd (rowSetEntryAlloc al p)"]
  by (auto simp: sqlite3RowSetInsert_def split: prod.splits bool.splits option.splits)

lemma rs_inserts:
  "rs_inv (length xs + n) p \<Longrightarrow> rs_inv n (foldl (sqlite3RowSetInsert al) p xs)
    \<and> (\<not> mallocFailed (foldl (sqlite3RowSetInsert al) p xs) \<longrightarrow> \<not> mallocFailed p \<and>
        set (pEntry (foldl (sqlite3RowSetInsert al) p xs)) = set (pEntry p) \<union> set xs)
    \<and> length (pEntry (foldl (sqlite3RowSetInsert al) p xs)) \<le> length (pEntry p) + length xs
    \<and> rsNext (foldl (sqlite3RowSetInsert al) p xs) = rsNext p"
proof (induction xs arbitrary: p)
  case (Cons x xs)
  let ?p = "sqlite3RowSetInsert al p x"
  have inv: "rs_inv (Suc (length xs + n)) p" using Cons.prems by simp
  note law = rs_insert_law [OF inv, of al x]
  obtain ok p1 where 1: "rowSetEntryAlloc al p = (ok, p1)" by fastforce
  note f = rowSetEntryAlloc_frame [OF 1]
  have "length (pEntry ?p) \<le> Suc (length (pEntry p))" "rsNext ?p = rsNext p"
    using 1 f by (auto simp: sqlite3RowSetInsert_def split: bool.splits option.splits)
  then show ?case using Cons.IH [OF law(1)] law(2,3) by (auto simp: rs_abs_def)
qed simp

section \<open>Properties\<close>

text \<open>
  \<^bold>\<open>C8\<close>: every history of insertions and tests. From a new row set, and as long as no
  allocation failed, each \<^verbatim>\<open>sqlite3RowSetTest\<close> answers whether the row was inserted in a batch
  before the current one, exactly as the contract \<open>rs_spec\<close> does; the history always ends.
  The only bound is that fewer than \<open>2 ^ 40\<close> operations are made, since the sort has 40 buckets.
\<close>

theorem rowset_batches_refine:
  assumes "sqlite3RowSetInit N = Some p" "length xs < 2 ^ 40"
  shows "\<exists>rs p'. run_steps (rs_step al) p xs = Some (rs, p')
    \<and> (\<not> mallocFailed p' \<longrightarrow> rs = fst (run_spec rs_spec (0, {}, {}) xs))"
proof -
  have "rs_inv (length xs) p" "rs_abs p = (0, {}, {})"
    using assms by (auto simp: sqlite3RowSetInit_def rs_inv_def rs_abs_def split: if_splits)
  then show ?thesis using rsr.run_refines [of xs p al] by (fastforce simp: list_all_iff)
qed

theorem rowset_batches_refine_witness:
  "\<exists>p rs p'. sqlite3RowSetInit 256 = Some p
    \<and> run_steps (rs_step (\<lambda>_. True)) p [RsInsert 7, RsInsert 3, RsTest 1 7, RsInsert 9, RsTest 1 9, RsTest 2 9]
        = Some (rs, p') \<and> (\<not> mallocFailed p' \<longrightarrow> rs = [False, False, True, False, False, True])"
proof -
  obtain p where p: "sqlite3RowSetInit 256 = Some p" by (simp add: sqlite3RowSetInit_def)
  show ?thesis
    using rowset_batches_refine [OF p, of "[RsInsert 7, RsInsert 3, RsTest 1 7, RsInsert 9, RsTest 1 9, RsTest 2 9]" "\<lambda>_. True"] p
    by auto
qed

text \<open>
  The set in ascending order. After any insertions into a new row set, in any order and
  with duplicates, repeated calls of \<^verbatim>\<open>sqlite3RowSetNext\<close> return every inserted row exactly once
  in ascending order, and then report the end.
\<close>

theorem rowset_next_ascending:
  assumes "sqlite3RowSetInit N = Some p" "length xs < 2 ^ 40"
    and "\<not> mallocFailed (foldl (sqlite3RowSetInsert al) p xs)"
  shows "rs_drain (length xs + 1) (foldl (sqlite3RowSetInsert al) p xs) = Some (sorted_list_of_set (set xs))"
proof -
  let ?p = "foldl (sqlite3RowSetInsert al) p xs"
  have p: "rs_inv (length xs + 0) p" "pEntry p = []" "\<not> rsNext p"
    using assms(1,2) by (auto simp: sqlite3RowSetInit_def rs_inv_def split: if_splits)
  show ?thesis
    using rs_inserts [OF p(1), of al] rs_drain_sorts [of 0 ?p "length xs + 1"] p(2,3) assms(3) by simp
qed

text \<open>
  \<^bold>\<open>C31\<close>: the tree built from a sorted list. \<^verbatim>\<open>rowSetListToTree\<close> keeps the order of the entries
  (its in-order walk is the list), gives a search tree, and is balanced: a tree of height
  \<open>h\<close> holds at least \<open>2 ^ (h - 1)\<close> entries, so a test looks at about \<open>log\<close> of them.
\<close>

theorem rowset_tree_balanced:
  assumes "sorted_wrt (<) xs" "xs \<noteq> []"
  shows "rowSetTreeToList (rowSetListToTree xs) = xs \<and> bst (rowSetListToTree xs)
    \<and> (\<forall>x. rowSetTest_search (rowSetListToTree xs) x \<longleftrightarrow> x \<in> set xs)
    \<and> 2 ^ (height (rowSetListToTree xs) - 1) \<le> length xs"
  using assms rowSetListToTree_height by (simp add: bst_rowSetListToTree rowSetTest_search_correct)

theorem rowset_tree_balanced_witness:
  "rowSetTreeToList (rowSetListToTree [1, 2, 3, 5, 8, 13]) = [1, 2, 3, 5, 8, 13]
    \<and> bst (rowSetListToTree [1, 2, 3, 5, 8, 13])
    \<and> 2 ^ (height (rowSetListToTree [1, 2, 3, 5, 8, 13]) - 1) \<le> length [1, 2, 3, 5, 8, 13 :: int]"
  using rowset_tree_balanced [of "[1, 2, 3, 5, 8, 13]"] by simp

end
