(* ===== verification/DList.thy ===== *)
theory DList
  imports Sqlite_Prelude
begin

text \<open>
  Doubly linked lists in a store, as \<^verbatim>\<open>hash.c\<close>, \<^verbatim>\<open>pcache.c\<close> and \<^verbatim>\<open>mem5.c\<close> thread through their
  objects. A list is represented when every node's next and previous pointers are its
  neighbours in the list of addresses. The lemmas say which pointers an insertion and a removal
  have to change; the component theories show that the C code changes exactly those.
\<close>

definition head :: "'a list \<Rightarrow> 'a option" where
  "head xs = (case xs of [] \<Rightarrow> None | x # _ \<Rightarrow> Some x)"

lemma head_simps [simp]: "head [] = None" "head (x # xs) = Some x" "head xs = None \<longleftrightarrow> xs = []"
  by (auto simp: head_def split: list.splits)

lemma head_append [simp]: "head (xs @ ys) = (if xs = [] then head ys else head xs)"
  by (auto simp: head_def split: list.splits)

lemma head_eq_Some: "head xs = Some x \<longleftrightarrow> (\<exists>ys. xs = x # ys)"
  by (auto simp: head_def split: list.splits)

lemma head_rev: "xs \<noteq> [] \<Longrightarrow> head (rev xs) = Some (last xs)"
  by (induction xs rule: rev_induct) auto

text \<open>The successor of an address in a list; its predecessor is the successor in the reverse.\<close>

fun succ_in :: "'a list \<Rightarrow> 'a \<Rightarrow> 'a option" where
  "succ_in [] a = None"
| "succ_in (x # xs) a = (if a = x then head xs else succ_in xs a)"

lemma succ_in_append:
  "distinct (xs @ ys) \<Longrightarrow> succ_in (xs @ ys) a =
    (if a \<in> set xs then (if a = last xs then head ys else succ_in xs a) else succ_in ys a)"
  by (induction xs) auto

lemma succ_in_insert:
  assumes "distinct (xs @ x # ys)"
  shows "succ_in (xs @ x # ys) x = head ys"
    and "a \<noteq> x \<Longrightarrow> succ_in (xs @ x # ys) a = (if xs \<noteq> [] \<and> a = last xs then Some x else succ_in (xs @ ys) a)"
  using assms by (auto simp: succ_in_append)

lemma succ_in_remove:
  assumes "distinct (xs @ x # ys)" "a \<noteq> x"
  shows "succ_in (xs @ ys) a = (if xs \<noteq> [] \<and> a = last xs then head ys else succ_in (xs @ x # ys) a)"
  using assms by (auto simp: succ_in_append)

section \<open>Representation\<close>

definition dll :: "('a \<Rightarrow> 'a option) \<Rightarrow> ('a \<Rightarrow> 'a option) \<Rightarrow> 'a option \<Rightarrow> 'a list \<Rightarrow> bool" where
  "dll nx pv f xs \<longleftrightarrow> distinct xs \<and> f = head xs \<and>
     (\<forall>a \<in> set xs. nx a = succ_in xs a \<and> pv a = succ_in (rev xs) a)"

lemma dll_Nil [simp]: "dll nx pv f [] \<longleftrightarrow> f = None"
  by (simp add: dll_def)

lemma dll_distinct: "dll nx pv f xs \<Longrightarrow> distinct xs"
  by (simp add: dll_def)

lemma dll_first: "dll nx pv f xs \<Longrightarrow> f = head xs"
  by (simp add: dll_def)

lemma dll_frame:
  "dll nx pv f xs \<Longrightarrow> (\<And>a. a \<in> set xs \<Longrightarrow> nx' a = nx a \<and> pv' a = pv a) \<Longrightarrow> dll nx' pv' f xs"
  by (simp add: dll_def)

text \<open>The pointers of a node in the middle are the ends of the parts around it.\<close>

lemma dll_node:
  assumes "dll nx pv f (xs @ x # ys)"
  shows "nx x = head ys" "pv x = (if xs = [] then None else Some (last xs))"
proof -
  have d: "distinct (xs @ x # ys)" "distinct (rev ys @ x # rev xs)" using assms by (auto simp: dll_def)
  show "nx x = head ys" using assms succ_in_insert(1) [OF d(1)] by (simp add: dll_def)
  show "pv x = (if xs = [] then None else Some (last xs))"
    using assms succ_in_insert(1) [OF d(2)] by (auto simp: dll_def head_rev)
qed

lemma dll_insert:
  assumes "dll nx pv f (xs @ ys)" "x \<notin> set xs" "x \<notin> set ys"
    and "nx' x = head ys" "pv' x = (if xs = [] then None else Some (last xs))"
    and "\<And>a. a \<in> set xs \<union> set ys \<Longrightarrow> nx' a = (if xs \<noteq> [] \<and> a = last xs then Some x else nx a)"
    and "\<And>a. a \<in> set xs \<union> set ys \<Longrightarrow> pv' a = (if ys \<noteq> [] \<and> a = hd ys then Some x else pv a)"
    and "f' = (if xs = [] then Some x else f)"
  shows "dll nx' pv' f' (xs @ x # ys)"
proof -
  have d: "distinct (xs @ x # ys)" "distinct (rev ys @ x # rev xs)" using assms(1-3) by (auto simp: dll_def)
  have hd: "last (rev ys) = hd ys" by (simp add: last_rev)
  have "nx' a = succ_in (xs @ x # ys) a \<and> pv' a = succ_in (rev ys @ x # rev xs) a"
    if "a \<in> set (xs @ x # ys)" for a
  proof (cases "a = x")
    case True
    then show ?thesis
      using assms(4,5) succ_in_insert(1) [OF d(1)] succ_in_insert(1) [OF d(2)] by (auto simp: head_rev)
  next
    case False
    then show ?thesis
      using that assms(1,6,7) succ_in_insert(2) [OF d(1) False] succ_in_insert(2) [OF d(2) False]
      by (auto simp: dll_def hd)
  qed
  then show ?thesis using d(1) assms(1,8) by (simp add: dll_def)
qed

lemma dll_remove:
  assumes "dll nx pv f (xs @ x # ys)"
    and "\<And>a. a \<in> set xs \<union> set ys \<Longrightarrow> nx' a = (if xs \<noteq> [] \<and> a = last xs then head ys else nx a)"
    and "\<And>a. a \<in> set xs \<union> set ys \<Longrightarrow> pv' a = (if ys \<noteq> [] \<and> a = hd ys then head (rev xs) else pv a)"
    and "f' = (if xs = [] then head ys else f)"
  shows "dll nx' pv' f' (xs @ ys)"
proof -
  have d: "distinct (xs @ x # ys)" "distinct (rev ys @ x # rev xs)" using assms(1) by (auto simp: dll_def)
  have hd: "last (rev ys) = hd ys" by (simp add: last_rev)
  have "nx' a = succ_in (xs @ ys) a \<and> pv' a = succ_in (rev ys @ rev xs) a" if "a \<in> set (xs @ ys)" for a
  proof -
    have "a \<noteq> x" using that d(1) by auto
    then show ?thesis
      using that assms(1-3) succ_in_remove [OF d(1)] succ_in_remove [OF d(2)] by (auto simp: dll_def hd)
  qed
  then show ?thesis using d(1) assms(1,4) by (auto simp: dll_def)
qed

text \<open>A list of which only the next pointers are right, as loops that take it apart see it.\<close>

definition nlist :: "('a \<Rightarrow> 'a option) \<Rightarrow> 'a list \<Rightarrow> bool" where
  "nlist nx xs \<longleftrightarrow> distinct xs \<and> (\<forall>a \<in> set xs. nx a = succ_in xs a)"

lemma nlist_Cons: "nlist nx (x # xs) \<Longrightarrow> nx x = head xs \<and> x \<notin> set xs \<and> nlist nx xs"
  by (auto simp: nlist_def)

lemma nlist_frame: "nlist nx xs \<Longrightarrow> (\<And>a. a \<in> set xs \<Longrightarrow> nx' a = nx a) \<Longrightarrow> nlist nx' xs"
  by (simp add: nlist_def)

lemma dll_nlist: "dll nx pv f xs \<Longrightarrow> nlist nx xs"
  by (simp add: dll_def nlist_def)

end
