(* ===== verification/HashTable.thy ===== *)
theory HashTable
  imports DList Refines UtilStr
begin

text \<open>
  The generic hash table of \<^verbatim>\<open>hash.c\<close>, with its pointers. All elements are on one doubly linked
  list in a store \<open>helem\<close> from addresses to elements; the buckets point into that list. A
  dereference of an address that is not allocated is \<^const>\<open>None\<close>, so a result \<^const>\<open>Some\<close>
  excludes use after free. Allocation request \<open>n\<close> succeeds when \<open>al n\<close> and then returns the
  address \<open>n\<close>. \<^verbatim>\<open>sqlite3MallocSize\<close> belongs to the configured allocator and is at least the size
  asked for: it is the parameter \<open>slack\<close>, the number of bytes beyond the request.
\<close>

section \<open>Data\<close>

record 'd hash_elem =
  enext :: "nat option"
  eprev :: "nat option"
  edata :: 'd
  ekey :: "u8 list"

record 'd hash =
  htsize :: nat
  hcount :: nat
  hfirst :: "nat option"
  ht :: "(nat \<times> nat option) list option"
  helem :: "nat \<Rightarrow> 'd hash_elem option"
  hreq :: nat

section \<open>Operations\<close>

text \<open>Writing a field of the element at an address.\<close>

definition hset :: "'d hash \<Rightarrow> nat \<Rightarrow> ('d hash_elem \<Rightarrow> 'd hash_elem) \<Rightarrow> 'd hash option" where
  "hset H a f = (case helem H a of None \<Rightarrow> None | Some e \<Rightarrow> Some (H\<lparr>helem := (helem H)(a \<mapsto> f e)\<rparr>))"

definition sqlite3HashInit :: "'d hash" where
  "sqlite3HashInit = \<lparr>htsize = 0, hcount = 0, hfirst = None, ht = None, helem = Map.empty, hreq = 0\<rparr>"

text \<open>The loop that frees the elements; the fuel is one more than the number of elements.\<close>

fun hashClear_loop :: "nat \<Rightarrow> 'd hash \<Rightarrow> nat option \<Rightarrow> 'd hash option" where
  "hashClear_loop 0 H p = None"
| "hashClear_loop (Suc f) H p = (case p of
     None \<Rightarrow> Some H
   | Some a \<Rightarrow> do {
       e \<leftarrow> helem H a;
       hashClear_loop f (H\<lparr>helem := (helem H)(a := None)\<rparr>) (enext e) })"

definition sqlite3HashClear :: "'d hash \<Rightarrow> 'd hash option" where
  "sqlite3HashClear H = do {
     H' \<leftarrow> hashClear_loop (hcount H + 1) (H\<lparr>hfirst := None, ht := None, htsize := 0\<rparr>) (hfirst H);
     Some (H'\<lparr>hcount := 0\<rparr>) }"

fun strHash_loop :: "u32 \<Rightarrow> u8 list \<Rightarrow> u32" where
  "strHash_loop h [] = h"
| "strHash_loop h (z # zs) = strHash_loop (push_bit 3 h XOR h XOR ucast (sqlite3UpperToLower z)) zs"

definition strHash :: "u8 list \<Rightarrow> nat" where
  "strHash z = unat (strHash_loop 0 z)"

text \<open>\<open>insertElement H pEntry new\<close>, with the bucket given by its index.\<close>

definition insertElement_bucket :: "'d hash \<Rightarrow> nat option \<Rightarrow> nat \<Rightarrow> (nat option \<times> 'd hash) option" where
  "insertElement_bucket H pEntry new = (case pEntry of
     Some j \<Rightarrow> do {
       t \<leftarrow> ht H;
       (c, ch) \<leftarrow> rd t j;
       Some (if c \<noteq> 0 then ch else None, H\<lparr>ht := Some (t[j := (c + 1, Some new)])\<rparr>) }
   | None \<Rightarrow> Some (None, H))"

definition insertElement :: "'d hash \<Rightarrow> nat option \<Rightarrow> nat \<Rightarrow> 'd hash option" where
  "insertElement H pEntry new = do {
     (pHead, H1) \<leftarrow> insertElement_bucket H pEntry new;
     case pHead of
       Some h \<Rightarrow> do {
         e \<leftarrow> helem H1 h;
         H2 \<leftarrow> hset H1 new (\<lambda>n. n\<lparr>enext := Some h, eprev := eprev e\<rparr>);
         H3 \<leftarrow> (case eprev e of
                  Some p \<Rightarrow> hset H2 p (\<lambda>n. n\<lparr>enext := Some new\<rparr>)
                | None \<Rightarrow> Some (H2\<lparr>hfirst := Some new\<rparr>));
         hset H3 h (\<lambda>n. n\<lparr>eprev := Some new\<rparr>) }
     | None \<Rightarrow> do {
         H2 \<leftarrow> hset H1 new (\<lambda>n. n\<lparr>enext := hfirst H1\<rparr>);
         H3 \<leftarrow> (case hfirst H2 of
                  Some p \<Rightarrow> hset H2 p (\<lambda>n. n\<lparr>eprev := Some new\<rparr>)
                | None \<Rightarrow> Some H2);
         H4 \<leftarrow> hset H3 new (\<lambda>n. n\<lparr>eprev := None\<rparr>);
         Some (H4\<lparr>hfirst := Some new\<rparr>) } }"

fun rehash_loop :: "nat \<Rightarrow> 'd hash \<Rightarrow> nat option \<Rightarrow> 'd hash option" where
  "rehash_loop 0 H p = None"
| "rehash_loop (Suc f) H p = (case p of
     None \<Rightarrow> Some H
   | Some a \<Rightarrow> do {
       e \<leftarrow> helem H a;
       H' \<leftarrow> insertElement H (Some (strHash (ekey e) mod htsize H)) a;
       rehash_loop f H' (enext e) })"

text \<open>\<^verbatim>\<open>sizeof(struct _ht)\<close> is 16 and \<^verbatim>\<open>SQLITE_MALLOC_SOFT_LIMIT\<close> is 1024.\<close>

definition rehash :: "(nat \<Rightarrow> bool) \<Rightarrow> (nat \<Rightarrow> nat) \<Rightarrow> 'd hash \<Rightarrow> nat \<Rightarrow> (bool \<times> 'd hash) option" where
  "rehash al slack H new_size = (
     let new_size = (if new_size * 16 > 1024 then 1024 div 16 else new_size) in
     if new_size = htsize H then Some (False, H)
     else if \<not> al (hreq H) then Some (False, H\<lparr>hreq := hreq H + 1\<rparr>)
     else let new_size = (new_size * 16 + slack (new_size * 16)) div 16 in do {
       H' \<leftarrow> rehash_loop (hcount H + 1)
         (H\<lparr>ht := Some (replicate new_size (0, None)), htsize := new_size, hreq := hreq H + 1, hfirst := None\<rparr>)
         (hfirst H);
       Some (True, H') })"

fun find_loop :: "'d hash \<Rightarrow> u8 list \<Rightarrow> nat \<Rightarrow> nat option \<Rightarrow> nat option option" where
  "find_loop H key 0 p = Some None"
| "find_loop H key (Suc n) p = (case p of
     None \<Rightarrow> Some None
   | Some a \<Rightarrow> do {
       e \<leftarrow> helem H a;
       m \<leftarrow> (if length (ekey e) = length key then map_option (\<lambda>r. r = 0) (sqlite3_strnicmp (ekey e) key (length key))
             else Some False);
       if m then Some (Some a) else find_loop H key n (enext e) })"

definition findElementGivenHash :: "'d hash \<Rightarrow> u8 list \<Rightarrow> nat \<Rightarrow> nat option option" where
  "findElementGivenHash H key h = (case ht H of
     Some t \<Rightarrow> do {
       (c, ch) \<leftarrow> rd t h;
       find_loop H key c ch }
   | None \<Rightarrow> find_loop H key (hcount H) (hfirst H))"

text \<open>The two counters are asserted to stay non-negative: a decrement of 0 is \<^const>\<open>None\<close>.\<close>

definition removeElementGivenHash :: "'d hash \<Rightarrow> nat \<Rightarrow> nat \<Rightarrow> 'd hash option" where
  "removeElementGivenHash H a h = do {
     e \<leftarrow> helem H a;
     H1 \<leftarrow> (case eprev e of
              Some p \<Rightarrow> hset H p (\<lambda>n. n\<lparr>enext := enext e\<rparr>)
            | None \<Rightarrow> Some (H\<lparr>hfirst := enext e\<rparr>));
     H2 \<leftarrow> (case enext e of
              Some p \<Rightarrow> hset H1 p (\<lambda>n. n\<lparr>eprev := eprev e\<rparr>)
            | None \<Rightarrow> Some H1);
     H3 \<leftarrow> (case ht H2 of
              Some t \<Rightarrow> do {
                (c, ch) \<leftarrow> rd t h;
                if c = 0 then None
                else Some (H2\<lparr>ht := Some (t[h := (c - 1, if ch = Some a then enext e else ch)])\<rparr>) }
            | None \<Rightarrow> Some H2);
     if hcount H3 = 0 then None
     else let H4 = H3\<lparr>helem := (helem H3)(a := None), hcount := hcount H3 - 1\<rparr> in
       if hcount H4 = 0 then sqlite3HashClear H4 else Some H4 }"

definition sqlite3HashFind :: "'d hash \<Rightarrow> u8 list \<Rightarrow> 'd option option" where
  "sqlite3HashFind H key = do {
     p \<leftarrow> findElementGivenHash H key (if ht H \<noteq> None then strHash key mod htsize H else 0);
     case p of None \<Rightarrow> Some None | Some a \<Rightarrow> do { e \<leftarrow> helem H a; Some (Some (edata e)) } }"

text \<open>The part of \<^verbatim>\<open>sqlite3HashInsert\<close> for a key that is not in the table yet.\<close>

definition hashInsert_new ::
  "(nat \<Rightarrow> bool) \<Rightarrow> (nat \<Rightarrow> nat) \<Rightarrow> 'd hash \<Rightarrow> u8 list \<Rightarrow> 'd \<Rightarrow> nat \<Rightarrow> ('d option \<times> 'd hash) option" where
  "hashInsert_new al slack H key d h =
    (if \<not> al (hreq H) then Some (Some d, H\<lparr>hreq := hreq H + 1\<rparr>)
     else
       let new = hreq H;
           H1 = H\<lparr>helem := (helem H)(new \<mapsto> \<lparr>enext = None, eprev = None, edata = d, ekey = key\<rparr>),
                  hreq := hreq H + 1, hcount := hcount H + 1\<rparr> in do {
       (h', H2) \<leftarrow> (if hcount H1 \<ge> 10 \<and> hcount H1 > 2 * htsize H1 then do {
                     (ok, H2) \<leftarrow> rehash al slack H1 (hcount H1 * 2);
                     Some (if ok then strHash key mod htsize H2 else h, H2) }
                   else Some (h, H1));
       H3 \<leftarrow> insertElement H2 (if ht H2 \<noteq> None then Some h' else None) new;
       Some (None, H3) })"

definition sqlite3HashInsert ::
  "(nat \<Rightarrow> bool) \<Rightarrow> (nat \<Rightarrow> nat) \<Rightarrow> 'd hash \<Rightarrow> u8 list \<Rightarrow> 'd option \<Rightarrow> ('d option \<times> 'd hash) option" where
  "sqlite3HashInsert al slack H key data = (
     let h = (if htsize H \<noteq> 0 then strHash key mod htsize H else 0) in do {
     p \<leftarrow> findElementGivenHash H key h;
     case p of
       Some a \<Rightarrow> do {
         e \<leftarrow> helem H a;
         H' \<leftarrow> (case data of
                  None \<Rightarrow> removeElementGivenHash H a h
                | Some d \<Rightarrow> hset H a (\<lambda>n. n\<lparr>edata := d, ekey := key\<rparr>));
         Some (Some (edata e), H') }
     | None \<Rightarrow> (case data of None \<Rightarrow> Some (None, H) | Some d \<Rightarrow> hashInsert_new al slack H key d h) })"

section \<open>Invariant\<close>

definition nx :: "'d hash \<Rightarrow> nat \<Rightarrow> nat option" where
  "nx H a = (case helem H a of None \<Rightarrow> None | Some e \<Rightarrow> enext e)"

definition pv :: "'d hash \<Rightarrow> nat \<Rightarrow> nat option" where
  "pv H a = (case helem H a of None \<Rightarrow> None | Some e \<Rightarrow> eprev e)"

definition key_of :: "'d hash \<Rightarrow> nat \<Rightarrow> u8 list" where
  "key_of H a = (case helem H a of None \<Rightarrow> [] | Some e \<Rightarrow> ekey e)"

definition fold_key :: "u8 list \<Rightarrow> u8 list" where
  "fold_key k = map sqlite3UpperToLower k"

definition bucket :: "'d hash \<Rightarrow> u8 list \<Rightarrow> nat" where
  "bucket H k = (if ht H = None then 0 else strHash k mod htsize H)"

type_synonym segments = "(nat \<times> nat list) list"

definition seg_list :: "segments \<Rightarrow> nat list" where
  "seg_list segs = concat (map snd segs)"

text \<open>
  The global list is made of one segment per bucket in use, in any order: every element of a
  segment hashes to its bucket, and the bucket holds the length and the first address.
\<close>

definition segs_ok :: "'d hash \<Rightarrow> segments \<Rightarrow> bool" where
  "segs_ok H segs \<longleftrightarrow> distinct (map fst segs)
     \<and> (\<forall>(j, as) \<in> set segs. as \<noteq> [] \<and> (\<forall>a \<in> set as. bucket H (key_of H a) = j))"

definition table_ok :: "'d hash \<Rightarrow> segments \<Rightarrow> bool" where
  "table_ok H segs \<longleftrightarrow> (case ht H of None \<Rightarrow> htsize H = 0
     | Some t \<Rightarrow> 0 < htsize H \<and> length t = htsize H \<and>
        (\<forall>j < htsize H. case map_of segs j of None \<Rightarrow> fst (t ! j) = 0
           | Some as \<Rightarrow> t ! j = (length as, head as)))"

definition hlist_ok :: "'d hash \<Rightarrow> segments \<Rightarrow> bool" where
  "hlist_ok H segs \<longleftrightarrow> dll (nx H) (pv H) (hfirst H) (seg_list segs)
     \<and> set (seg_list segs) \<subseteq> dom (helem H) \<and> segs_ok H segs \<and> table_ok H segs"

definition keys_ok :: "'d hash \<Rightarrow> bool" where
  "keys_ok H \<longleftrightarrow> inj_on (\<lambda>a. fold_key (key_of H a)) (dom (helem H)) \<and> (\<forall>a. 0 \<notin> set (key_of H a))
     \<and> (\<forall>a \<in> dom (helem H). a < hreq H)"

definition hash_inv :: "'d hash \<Rightarrow> bool" where
  "hash_inv H \<longleftrightarrow> keys_ok H \<and> (\<exists>segs. hlist_ok H segs \<and> set (seg_list segs) = dom (helem H)
     \<and> hcount H = length (seg_list segs))"

text \<open>The abstraction: a map from case-folded keys to data.\<close>

definition hmap :: "'d hash \<Rightarrow> u8 list \<Rightarrow> 'd option" where
  "hmap H k = (let S = {edata e | a e. helem H a = Some e \<and> fold_key (ekey e) = k} in
     if S = {} then None else Some (the_elem S))"

section \<open>Pointer updates\<close>

text \<open>The table with new link fields everywhere and a new first pointer.\<close>

definition relink :: "'d hash \<Rightarrow> (nat \<Rightarrow> nat option) \<Rightarrow> (nat \<Rightarrow> nat option) \<Rightarrow> nat option \<Rightarrow> 'd hash" where
  "relink H N P f = H\<lparr>helem := (\<lambda>b. map_option (\<lambda>e. e\<lparr>enext := N b, eprev := P b\<rparr>) (helem H b)), hfirst := f\<rparr>"

lemma relink_simps [simp]:
  "dom (helem (relink H N P f)) = dom (helem H)" "hfirst (relink H N P f) = f"
  "ht (relink H N P f) = ht H" "htsize (relink H N P f) = htsize H" "hcount (relink H N P f) = hcount H"
  "hreq (relink H N P f) = hreq H" "key_of (relink H N P f) = key_of H"
  "helem (relink H N P f) b = map_option (\<lambda>e. e\<lparr>enext := N b, eprev := P b\<rparr>) (helem H b)"
  by (auto simp: relink_def dom_def key_of_def fun_eq_iff split: option.splits)

lemma nx_relink: "a \<in> dom (helem H) \<Longrightarrow> nx (relink H N P f) a = N a"
  and pv_relink: "a \<in> dom (helem H) \<Longrightarrow> pv (relink H N P f) a = P a"
  by (auto simp: nx_def pv_def)

lemma bucket_relink [simp]: "bucket (relink H N P f) = bucket H"
  by (intro ext) (simp add: bucket_def)

lemma elem_links: "helem H a = Some e \<Longrightarrow> enext e = nx H a \<and> eprev e = pv H a \<and> ekey e = key_of H a"
  by (simp add: nx_def pv_def key_of_def)

lemma hset_Some: "helem H a = Some e \<Longrightarrow> hset H a f = Some (H\<lparr>helem := (helem H)(a \<mapsto> f e)\<rparr>)"
  by (simp add: hset_def)

lemma elem_relink_id:
  "helem H b = Some e \<Longrightarrow> e\<lparr>enext := nx H b, eprev := pv H b\<rparr> = e"
  "map_option (\<lambda>e. e\<lparr>enext := nx H b, eprev := pv H b\<rparr>) (helem H b) = helem H b"
  by (auto simp: nx_def pv_def split: option.splits)

text \<open>The two branches of \<^verbatim>\<open>insertElement\<close> after the bucket was updated.\<close>

definition link_front :: "'d hash \<Rightarrow> nat \<Rightarrow> 'd hash" where
  "link_front H new = relink H ((nx H)(new := hfirst H))
     (\<lambda>b. if b = new then None else if Some b = hfirst H then Some new else pv H b) (Some new)"

definition link_before :: "'d hash \<Rightarrow> nat \<Rightarrow> nat \<Rightarrow> 'd hash" where
  "link_before H h new = relink H
     (\<lambda>b. if b = new then Some h else if Some b = pv H h then Some new else nx H b)
     (\<lambda>b. if b = new then pv H h else if b = h then Some new else pv H b)
     (if pv H h = None then Some new else hfirst H)"

lemma insertElement_link:
  assumes "insertElement_bucket H j new = Some (pH, H1)" "new \<in> dom (helem H1)"
  shows "pH = None \<Longrightarrow> hfirst H1 \<noteq> Some new \<Longrightarrow> (\<And>p. hfirst H1 = Some p \<Longrightarrow> p \<in> dom (helem H1))
      \<Longrightarrow> insertElement H j new = Some (link_front H1 new)"
    and "pH = Some h \<Longrightarrow> h \<in> dom (helem H1) \<Longrightarrow> h \<noteq> new \<Longrightarrow> pv H1 h \<noteq> Some new \<Longrightarrow> pv H1 h \<noteq> Some h
      \<Longrightarrow> (\<And>p. pv H1 h = Some p \<Longrightarrow> p \<in> dom (helem H1)) \<Longrightarrow> insertElement H j new = Some (link_before H1 h new)"
proof -
  obtain en where en: "helem H1 new = Some en" using assms(2) by auto
  show "insertElement H j new = Some (link_front H1 new)"
    if fr: "pH = None" "hfirst H1 \<noteq> Some new" "\<And>p. hfirst H1 = Some p \<Longrightarrow> p \<in> dom (helem H1)"
  proof (cases "hfirst H1")
    case None
    then show ?thesis using assms(1) fr en
      by (auto simp: insertElement_def hset_def link_front_def relink_def fun_eq_iff elem_relink_id
          split: option.splits intro!: hash.equality)
  next
    case (Some p)
    then obtain ep where "helem H1 p = Some ep" "p \<noteq> new" using fr by auto
    then show ?thesis using assms(1) fr en Some
      by (auto simp: insertElement_def hset_def link_front_def relink_def fun_eq_iff elem_relink_id
          split: option.splits intro!: hash.equality) (auto simp: nx_def)
  qed
  show "insertElement H j new = Some (link_before H1 h new)"
    if fr: "pH = Some h" "h \<in> dom (helem H1)" "h \<noteq> new" "pv H1 h \<noteq> Some new" "pv H1 h \<noteq> Some h"
      "\<And>p. pv H1 h = Some p \<Longrightarrow> p \<in> dom (helem H1)"
  proof -
    obtain eh where eh: "helem H1 h = Some eh" using fr by auto
    then have pe: "eprev eh = pv H1 h" by (simp add: pv_def)
    show ?thesis
    proof (cases "pv H1 h")
      case None
      then show ?thesis using assms(1) fr en eh pe
        by (auto simp: insertElement_def hset_def link_before_def relink_def fun_eq_iff elem_relink_id
            split: option.splits intro!: hash.equality) (auto simp: nx_def)
    next
      case (Some p)
      then obtain ep where "helem H1 p = Some ep" "p \<noteq> new" "p \<noteq> h" using fr by auto
      then show ?thesis using assms(1) fr en eh pe Some
        by (auto simp: insertElement_def hset_def link_before_def relink_def fun_eq_iff elem_relink_id
            split: option.splits intro!: hash.equality) (auto simp: nx_def pv_def)
    qed
  qed
qed

section \<open>Insertion into the list\<close>

lemma seg_list_simps [simp]:
  "seg_list [] = []" "seg_list ((j, as) # segs) = as @ seg_list segs"
  "seg_list (s1 @ s2) = seg_list s1 @ seg_list s2"
  by (simp_all add: seg_list_def)

lemma map_of_split:
  assumes "map_of segs j = Some as"
  obtains pre post where "segs = pre @ (j, as) # post"
  using assms by (meson map_of_SomeD split_list)

lemma map_of_replace:
  assumes "distinct (map fst (pre @ (j, as) # post))"
  shows "map_of (pre @ (j, bs) # post) k = (if k = j then Some bs else map_of (pre @ (j, as) # post) k)"
    and "map_of (pre @ post) k = (if k = j then None else map_of (pre @ (j, as) # post) k)"
  using assms by (induction pre) (auto simp: map_of_eq_None_iff)

lemma set_seg_list: "a \<in> set (seg_list segs) \<longleftrightarrow> (\<exists>j as. (j, as) \<in> set segs \<and> a \<in> set as)"
  by (force simp: seg_list_def)

lemma segs_bucket_None:
  assumes "segs_ok H segs" "ht H = None"
  shows "segs = [] \<or> (\<exists>as. segs = [(0, as)])"
proof -
  have "fst ` set segs \<subseteq> {0}"
    using assms by (force simp: segs_ok_def bucket_def dest: hd_in_set)
  then have "card (set (map fst segs)) \<le> 1" using card_mono [of "{0::nat}" "fst ` set segs"] by simp
  then have "length segs \<le> 1" using assms(1) by (metis distinct_card length_map segs_ok_def)
  with \<open>fst ` set segs \<subseteq> {0}\<close> show ?thesis by (cases segs; cases "tl segs") auto
qed

text \<open>What does not change when elements are linked.\<close>

definition same_elems :: "'d hash \<Rightarrow> 'd hash \<Rightarrow> bool" where
  "same_elems H H' \<longleftrightarrow> hcount H' = hcount H \<and> hreq H' = hreq H
     \<and> (\<forall>a. map_option (\<lambda>e. (edata e, ekey e)) (helem H' a) = map_option (\<lambda>e. (edata e, ekey e)) (helem H a))"

lemma same_elems_key: "same_elems H H' \<Longrightarrow> key_of H' = key_of H"
proof
  fix a assume "same_elems H H'"
  then have "map_option (\<lambda>e. (edata e, ekey e)) (helem H' a) = map_option (\<lambda>e. (edata e, ekey e)) (helem H a)"
    by (simp add: same_elems_def)
  then show "key_of H' a = key_of H a" by (auto simp: key_of_def split: option.splits)
qed

lemma same_elems_dom: "same_elems H H' \<Longrightarrow> dom (helem H') = dom (helem H)"
proof -
  assume *: "same_elems H H'"
  have "helem H' a = None \<longleftrightarrow> helem H a = None" for a
  proof -
    have "map_option (\<lambda>e. (edata e, ekey e)) (helem H' a) = map_option (\<lambda>e. (edata e, ekey e)) (helem H a)"
      using * by (simp add: same_elems_def)
    then show ?thesis by (cases "helem H' a"; cases "helem H a") auto
  qed
  then show ?thesis by (simp add: dom_def)
qed

lemma same_elems_trans: "same_elems H H' \<Longrightarrow> same_elems H' H'' \<Longrightarrow> same_elems H H''"
  by (simp add: same_elems_def)

lemma same_elems_relink [simp]: "same_elems H (relink H N P f)"
  by (simp add: same_elems_def option.map_comp comp_def)

lemma same_elems_refl [simp]: "same_elems H H"
  by (simp add: same_elems_def)

lemma bucket_ht_update [simp]: "ht H = Some t \<Longrightarrow> bucket (H\<lparr>ht := Some t'\<rparr>) = bucket H"
  by (intro ext) (simp add: bucket_def)

lemma links_ht_update [simp]:
  "nx (H\<lparr>ht := t'\<rparr>) = nx H" "pv (H\<lparr>ht := t'\<rparr>) = pv H" "key_of (H\<lparr>ht := t'\<rparr>) = key_of H"
  by (auto simp: nx_def pv_def key_of_def fun_eq_iff)

text \<open>Linking an element at the front, or before the first element of a segment.\<close>

lemma link_front_dll:
  assumes "dll (nx H) (pv H) (hfirst H) xs" "set xs \<subseteq> dom (helem H)" "new \<in> dom (helem H)" "new \<notin> set xs"
  shows "dll (nx (link_front H new)) (pv (link_front H new)) (hfirst (link_front H new)) (new # xs)"
proof -
  have f: "hfirst H = head xs" using assms(1) by (rule dll_first)
  have "dll (nx (link_front H new)) (pv (link_front H new)) (hfirst (link_front H new)) ([] @ new # xs)"
    by (rule dll_insert [of "nx H" "pv H" "hfirst H"])
      (use assms f in \<open>auto simp: link_front_def nx_relink pv_relink subset_iff head_def split: list.splits\<close>)
  then show ?thesis by simp
qed

lemma link_before_dll:
  assumes "dll (nx H) (pv H) (hfirst H) (xs @ h # ys)" "set (xs @ h # ys) \<subseteq> dom (helem H)"
    "new \<in> dom (helem H)" "new \<notin> set (xs @ h # ys)"
  shows "dll (nx (link_before H h new)) (pv (link_before H h new)) (hfirst (link_before H h new)) (xs @ new # h # ys)"
proof -
  have p: "pv H h = (if xs = [] then None else Some (last xs))" using dll_node(2) [OF assms(1)] .
  have d: "distinct (xs @ h # ys)" using assms(1) by (rule dll_distinct)
  show ?thesis
    by (rule dll_insert [OF assms(1)])
      (use assms(2-4) p d in \<open>auto simp: link_before_def nx_relink pv_relink subset_iff\<close>)
qed

lemma nx_relink_if: "nx (relink H N P f) a = (if a \<in> dom (helem H) then N a else None)"
  by (auto simp: nx_def split: option.splits)

lemma nx_None: "a \<notin> dom (helem H) \<Longrightarrow> nx H a = None"
  by (simp add: nx_def domIff)

lemma link_front_frame: "a \<noteq> new \<Longrightarrow> nx (link_front H new) a = nx H a"
  by (simp add: link_front_def nx_relink_if nx_None)

lemma link_before_frame:
  "a \<noteq> new \<Longrightarrow> Some a \<noteq> pv H h \<Longrightarrow> nx (link_before H h new) a = nx H a"
  by (simp add: link_before_def nx_relink_if nx_None)

lemma insertElement_ok:
  assumes ok: "hlist_ok H segs" and new: "new \<in> dom (helem H)" "new \<notin> set (seg_list segs)"
    and j: "j = bucket H (key_of H new)"
  shows "\<exists>H' segs'. insertElement H (if ht H \<noteq> None then Some j else None) new = Some H'
    \<and> hlist_ok H' segs' \<and> set (seg_list segs') = insert new (set (seg_list segs))
    \<and> length (seg_list segs') = Suc (length (seg_list segs))
    \<and> same_elems H H' \<and> htsize H' = htsize H \<and> (ht H' = None \<longleftrightarrow> ht H = None)
    \<and> (\<forall>a. a \<notin> set (seg_list segs) \<longrightarrow> a \<noteq> new \<longrightarrow> nx H' a = nx H a)"
proof -
  have dl: "dll (nx H) (pv H) (hfirst H) (seg_list segs)" and sub: "set (seg_list segs) \<subseteq> dom (helem H)"
    and so: "segs_ok H segs" and tab: "table_ok H segs"
    using ok by (auto simp: hlist_ok_def)
  have ds: "distinct (map fst segs)" using so by (simp add: segs_ok_def)
  define H1 where "H1 = (case ht H of None \<Rightarrow> H
    | Some t \<Rightarrow> H\<lparr>ht := Some (t[j := (fst (t ! j) + 1, Some new)])\<rparr>)"
  have H1: "nx H1 = nx H" "pv H1 = pv H" "hfirst H1 = hfirst H" "helem H1 = helem H" "bucket H1 = bucket H"
      "key_of H1 = key_of H" "htsize H1 = htsize H" "same_elems H H1" "ht H1 = None \<longleftrightarrow> ht H = None"
    by (auto simp: H1_def same_elems_def split: option.splits)
  have jl: "ht H = Some t \<Longrightarrow> j < length t" for t using tab j by (simp add: table_ok_def bucket_def)
  let ?hd = "case ht H of None \<Rightarrow> None | Some t \<Rightarrow> if fst (t ! j) \<noteq> 0 then snd (t ! j) else None"
  have bk: "insertElement_bucket H (if ht H \<noteq> None then Some j else None) new = Some (?hd, H1)"
    using jl by (auto simp: insertElement_bucket_def H1_def rd_def split: option.splits prod.splits)
  have tabN: "table_ok H' segs'" if "ht H' = ht H1" "htsize H' = htsize H"
      "\<And>k. map_of segs' k = (if k = j then Some (new # (case map_of segs j of None \<Rightarrow> [] | Some as \<Rightarrow> as)) else map_of segs k)"
    for H' :: "'a hash" and segs'
    using that tab jl
    by (auto simp: table_ok_def H1_def nth_list_update split: option.splits if_splits)
  have soN: "segs_ok H' segs'" if "bucket H' = bucket H" "key_of H' = key_of H" "distinct (map fst segs')"
      "\<And>k as. (k, as) \<in> set segs' \<Longrightarrow> (k, as) \<in> set segs \<or> k = j \<and> as \<noteq> [] \<and> (\<forall>a \<in> set as. a = new \<or> (\<exists>bs. (j, bs) \<in> set segs \<and> a \<in> set bs))"
    for H' :: "'a hash" and segs'
    using that so j unfolding segs_ok_def by (fastforce simp: that)
  show ?thesis
  proof (cases "map_of segs j")
    case None
    have hN: "?hd = None" using tab None jl by (auto simp: table_ok_def split: option.splits)
    have fr: "hfirst H1 \<noteq> Some new" "\<And>p. hfirst H1 = Some p \<Longrightarrow> p \<in> dom (helem H1)"
      using dll_first [OF dl] new sub H1 by (auto simp: head_eq_Some)
    have ie: "insertElement H (if ht H \<noteq> None then Some j else None) new = Some (link_front H1 new)"
      using insertElement_link(1) [OF bk _ hN fr] H1(4) new(1) by simp
    have "j \<notin> fst ` set segs" using None by (simp add: map_of_eq_None_iff)
    then have "segs_ok (link_front H1 new) ((j, [new]) # segs)" "table_ok (link_front H1 new) ((j, [new]) # segs)"
      using None ds H1 by (auto intro!: soN tabN simp: link_front_def)
    moreover have "dll (nx (link_front H1 new)) (pv (link_front H1 new)) (hfirst (link_front H1 new)) (new # seg_list segs)"
      by (rule link_front_dll) (use dl sub new H1 in auto)
    ultimately have "hlist_ok (link_front H1 new) ((j, [new]) # segs)"
      using sub new H1(4) by (auto simp: hlist_ok_def link_front_def)
    moreover have "nx (link_front H1 new) a = nx H a" if "a \<noteq> new" for a
      using link_front_frame [OF that, of H1] H1(1) by simp
    moreover have "same_elems H (link_front H1 new)"
      using same_elems_trans [OF H1(8)] by (simp add: link_front_def)
    ultimately show ?thesis
      using ie H1 by (intro exI [of _ "link_front H1 new"] exI [of _ "(j, [new]) # segs"]) (simp add: link_front_def)
  next
    case (Some as)
    then obtain pre post where sp: "segs = pre @ (j, as) # post" by (rule map_of_split)
    then have "as \<noteq> []" using so by (simp add: segs_ok_def)
    then obtain h as' where as: "as = h # as'" by (cases as) auto
    show ?thesis
    proof (cases "ht H")
      case ht: None
      have "pre = [] \<and> post = []" using segs_bucket_None [OF so ht] sp by (cases pre) auto
      then have sg: "segs = [(j, as)]" using sp by simp
      have fr: "hfirst H1 \<noteq> Some new" "\<And>p. hfirst H1 = Some p \<Longrightarrow> p \<in> dom (helem H1)"
        using dll_first [OF dl] new sub H1 by (auto simp: head_eq_Some)
      have ie: "insertElement H (if ht H \<noteq> None then Some j else None) new = Some (link_front H1 new)"
        using insertElement_link(1) [OF bk _ _ fr] H1(4) new(1) ht by simp
      have "segs_ok (link_front H1 new) [(j, new # as)]" "table_ok (link_front H1 new) [(j, new # as)]"
        using sg H1 by (auto intro!: soN tabN simp: link_front_def)
      moreover have "dll (nx (link_front H1 new)) (pv (link_front H1 new)) (hfirst (link_front H1 new)) (new # seg_list segs)"
        by (rule link_front_dll) (use dl sub new H1 in auto)
      ultimately have "hlist_ok (link_front H1 new) [(j, new # as)]"
        using sub new H1(4) sg by (auto simp: hlist_ok_def link_front_def)
      then show ?thesis
        using ie H1 sg link_front_frame [where H = H1 and new = new] same_elems_trans [OF H1(8)]
        by (intro exI [of _ "link_front H1 new"] exI [of _ "[(j, new # as)]"]) (auto simp: link_front_def)
    next
      case ht: (Some t)
      have "j < htsize H" using tab ht jl by (simp add: table_ok_def)
      then have "t ! j = (length as, head as)" using tab ht \<open>map_of segs j = Some as\<close> by (auto simp: table_ok_def)
      then have hS: "?hd = Some h" using ht as by simp
      let ?xs = "seg_list pre" and ?ys = "as' @ seg_list post"
      have xs: "seg_list segs = ?xs @ h # ?ys" using sp as by simp
      have p: "pv H h = (if ?xs = [] then None else Some (last ?xs))" 
        using dll_node(2) [of "nx H" "pv H" "hfirst H" ?xs h ?ys] dl xs by simp
      have dist: "distinct (?xs @ h # ?ys)" using dll_distinct [OF dl] xs by simp
      have pf: "pv H h \<noteq> Some new" "pv H h \<noteq> Some h" "\<And>p. pv H h = Some p \<Longrightarrow> p \<in> dom (helem H)"
      proof -
        have "last ?xs \<in> set ?xs" if "?xs \<noteq> []" using that by simp
        moreover have "set ?xs \<subseteq> dom (helem H)" "new \<notin> set ?xs" "h \<notin> set ?xs" using sub new(2) xs dist by auto
        ultimately show "pv H h \<noteq> Some new" "pv H h \<noteq> Some h" "\<And>p. pv H h = Some p \<Longrightarrow> p \<in> dom (helem H)"
          unfolding p by (metis option.inject option.distinct(1) subsetD)+
      qed
      have ie: "insertElement H (if ht H \<noteq> None then Some j else None) new = Some (link_before H1 h new)"
        by (rule insertElement_link(2) [OF bk _ hS]) (use H1 new sub xs pf in auto)
      have segs': "segs_ok (link_before H1 h new) (pre @ (j, new # as) # post)"
        using sp ds H1 by (auto intro!: soN simp: link_before_def)
      have table': "table_ok (link_before H1 h new) (pre @ (j, new # as) # post)"
        using sp ds H1 \<open>map_of segs j = Some as\<close> map_of_replace(1) [of pre j as post "new # as"]
        by (intro tabN) (auto simp: link_before_def)
      have "dll (nx (link_before H1 h new)) (pv (link_before H1 h new)) (hfirst (link_before H1 h new)) (?xs @ new # h # ?ys)"
        by (rule link_before_dll) (use dl sub new H1 xs in auto)
      then have "hlist_ok (link_before H1 h new) (pre @ (j, new # as) # post)"
        using sub new H1(4) xs as segs' table' by (auto simp: hlist_ok_def link_before_def)
      moreover have "nx (link_before H1 h new) a = nx H a" if "a \<notin> set (seg_list segs)" "a \<noteq> new" for a
      proof -
        have "Some a \<noteq> pv H1 h"
          using that(1) p xs last_in_set [of ?xs] H1(2) by (metis Un_iff option.distinct(1) option.inject set_append)
        then show ?thesis using link_before_frame [of a new H1 h] that(2) H1(1) by simp
      qed
      ultimately show ?thesis
        using ie H1 sp as same_elems_trans [OF H1(8)]
        by (intro exI [of _ "link_before H1 h new"] exI [of _ "pre @ (j, new # as) # post"])
          (auto simp: link_before_def)
    qed
  qed
qed

section \<open>Lookup\<close>

lemma fold_key_hash: "fold_key k = fold_key k' \<Longrightarrow> strHash k = strHash k'"
proof -
  have "strHash_loop h k = strHash_loop h (fold_key k)" for h k
    by (induction h k rule: strHash_loop.induct) (simp_all add: fold_key_def)
  then show "fold_key k = fold_key k' \<Longrightarrow> strHash k = strHash k'" unfolding strHash_def by metis
qed

lemma key_match:
  assumes "0 \<notin> set k" "0 \<notin> set k'"
  shows "(if length k = length k' then map_option (\<lambda>r. r = 0) (sqlite3_strnicmp k k' (length k')) else Some False)
    = Some (fold_key k = fold_key k')"
proof (cases "length k = length k'")
  case True
  then obtain r where "sqlite3_strnicmp k k' (length k') = Some r" "r = 0 \<longleftrightarrow> fold_key k = fold_key k'"
    using sqlite3_strnicmp_eq_0 [of k k' "length k'" "[]" "[]"] assms by (auto simp: fold_key_def)
  then show ?thesis using True by simp
next
  case False
  then have "fold_key k \<noteq> fold_key k'" by (metis fold_key_def length_map)
  then show ?thesis using False by simp
qed

lemma find_loop_find:
  assumes "dll (nx H) (pv H) f (pre @ as @ post)" "set as \<subseteq> dom (helem H)" "0 \<notin> set key"
    "\<forall>a. 0 \<notin> set (key_of H a)"
  shows "find_loop H key (length as) (head (as @ post)) = Some (find (\<lambda>a. fold_key (key_of H a) = fold_key key) as)"
  using assms(1,2)
proof (induction as arbitrary: pre)
  case (Cons a as)
  obtain e where e: "helem H a = Some e" using Cons.prems(2) by auto
  have "enext e = head (as @ post)"
    using dll_node(1) [of "nx H" "pv H" f pre a "as @ post"] Cons.prems(1) elem_links [OF e] by simp
  moreover have "find_loop H key (length as) (head (as @ post)) = Some (find (\<lambda>a. fold_key (key_of H a) = fold_key key) as)"
    using Cons.IH [of "pre @ [a]"] Cons.prems by simp
  moreover have "(if length (ekey e) = length key then map_option (\<lambda>r. r = 0) (sqlite3_strnicmp (ekey e) key (length key))
      else Some False) = Some (fold_key (key_of H a) = fold_key key)"
    using key_match [of "ekey e" key] elem_links [OF e] assms(3,4) by simp
  ultimately show ?case using e by (simp del: head_append split del: if_split) simp
qed simp

text \<open>The element with a key, if the table has one.\<close>

lemma find_Some_iff_key:
  assumes "inj_on (\<lambda>a. fold_key (key_of H a)) A" "set as \<subseteq> A"
  shows "find (\<lambda>a. fold_key (key_of H a) = k) as = Some a \<longleftrightarrow> a \<in> set as \<and> fold_key (key_of H a) = k"
  using assms(2)
proof (induction as)
  case (Cons b as)
  then show ?case using assms(1) by (auto simp: inj_on_def)
qed simp

lemma findElementGivenHash_ok:
  assumes inv: "hash_inv H" and k: "0 \<notin> set key"
  shows "\<exists>p. findElementGivenHash H key (bucket H key) = Some p
    \<and> (\<forall>a. p = Some a \<longleftrightarrow> a \<in> dom (helem H) \<and> fold_key (key_of H a) = fold_key key)"
proof -
  obtain segs where ok: "hlist_ok H segs" and dm: "set (seg_list segs) = dom (helem H)"
      and ct: "hcount H = length (seg_list segs)" and ky: "keys_ok H"
    using inv by (auto simp: hash_inv_def)
  have dl: "dll (nx H) (pv H) (hfirst H) (seg_list segs)" and so: "segs_ok H segs" and tab: "table_ok H segs"
    using ok by (auto simp: hlist_ok_def)
  let ?P = "\<lambda>a. fold_key (key_of H a) = fold_key key"
  have inj: "inj_on (\<lambda>a. fold_key (key_of H a)) (dom (helem H))" and nz: "\<forall>a. 0 \<notin> set (key_of H a)"
    using ky by (auto simp: keys_ok_def)
  have fl: "find_loop H key (length as) (head (as @ post)) = Some (find ?P as)"
    if "seg_list segs = pre @ as @ post" for pre as post
    by (rule find_loop_find [where f = "hfirst H" and pre = pre]) (use dl dm that k nz in auto)
  show ?thesis
  proof (cases "ht H")
    case None
    then have "findElementGivenHash H key (bucket H key) = Some (find ?P (seg_list segs))"
      using fl [of "[]" "seg_list segs" "[]"] ct dll_first [OF dl] by (simp add: findElementGivenHash_def)
    then show ?thesis using find_Some_iff_key [OF inj, of "seg_list segs"] dm by auto
  next
    case (Some t)
    have b: "bucket H key < htsize H" "length t = htsize H" using tab Some by (auto simp: table_ok_def bucket_def)
    have same: "bucket H (key_of H a) = bucket H key" if "?P a" for a
      using fold_key_hash [OF that] by (simp add: bucket_def)
    show ?thesis
    proof (cases "map_of segs (bucket H key)")
      case None
      then have "fst (t ! bucket H key) = 0" using tab Some b by (auto simp: table_ok_def)
      then have "findElementGivenHash H key (bucket H key) = Some None"
        using Some b by (cases "t ! bucket H key") (simp add: findElementGivenHash_def rd_def)
      moreover have "\<not> ?P a" if da: "a \<in> dom (helem H)" for a
      proof
        assume "?P a"
        obtain j as where "(j, as) \<in> set segs" "a \<in> set as"
          using da dm set_seg_list [of a segs] by blast
        then have "(bucket H key, as) \<in> set segs" using so same [OF \<open>?P a\<close>] by (auto simp: segs_ok_def)
        with None show False using weak_map_of_SomeI [of "bucket H key" as segs] by simp
      qed
      ultimately show ?thesis by auto
    next
      case as: (Some as)
      then obtain pre post where sp: "segs = pre @ (bucket H key, as) # post" by (rule map_of_split)
      have "t ! bucket H key = (length as, head as)" using tab Some b as by (auto simp: table_ok_def)
      moreover have "as \<noteq> []" using so sp by (simp add: segs_ok_def)
      ultimately have "findElementGivenHash H key (bucket H key) = Some (find ?P as)"
        using Some b fl [of "seg_list pre" as "seg_list post"] sp by (simp add: findElementGivenHash_def rd_def)
      moreover have "a \<in> set as" if da: "a \<in> dom (helem H)" "?P a" for a
      proof -
        obtain j bs where jb: "(j, bs) \<in> set segs" "a \<in> set bs" using da(1) dm set_seg_list [of a segs] by blast
        then have "j = bucket H key" using so same [OF da(2)] by (auto simp: segs_ok_def)
        then have "bs = as" using jb(1) as so by (auto simp: segs_ok_def map_of_is_SomeI)
        then show ?thesis using jb(2) by simp
      qed
      moreover have "set as \<subseteq> dom (helem H)" using sp dm by auto
      ultimately show ?thesis using find_Some_iff_key [OF inj, of as "fold_key key"] by auto
    qed
  qed
qed

section \<open>Clearing, removal\<close>

lemma hashClear_loop_ok:
  "nlist (nx H) xs \<Longrightarrow> set xs \<subseteq> dom (helem H) \<Longrightarrow> length xs < k \<Longrightarrow>
    hashClear_loop k H (head xs) = Some (H\<lparr>helem := (\<lambda>a. if a \<in> set xs then None else helem H a)\<rparr>)"
proof (induction xs arbitrary: k H)
  case Nil
  then show ?case by (cases k) auto
next
  case (Cons x xs)
  obtain k' where k: "k = Suc k'" using Cons.prems(3) by (cases k) auto
  obtain e where e: "helem H x = Some e" using Cons.prems(2) by auto
  let ?H = "H\<lparr>helem := (helem H)(x := None)\<rparr>"
  have n: "enext e = head xs" "x \<notin> set xs" "nlist (nx H) xs"
    using nlist_Cons [OF Cons.prems(1)] elem_links [OF e] by auto
  have "nlist (nx ?H) xs" by (rule nlist_frame [OF n(3)]) (use n(2) in \<open>auto simp: nx_def\<close>)
  moreover have "set xs \<subseteq> dom (helem ?H)" "length xs < k'" using Cons.prems(2,3) n(2) k by auto
  moreover have "(\<lambda>a. if a \<in> set xs then None else helem ?H a) = (\<lambda>a. if a \<in> set (x # xs) then None else helem H a)"
    by auto
  ultimately have "hashClear_loop k' ?H (head xs) = Some (?H\<lparr>helem := (\<lambda>a. if a \<in> set (x # xs) then None else helem H a)\<rparr>)"
    using Cons.IH [of ?H k'] by (simp only:)
  then show ?case using k e n(1) by simp
qed

definition unlink :: "'d hash \<Rightarrow> nat \<Rightarrow> 'd hash" where
  "unlink H a = relink H (\<lambda>b. if Some b = pv H a then nx H a else nx H b)
     (\<lambda>b. if Some b = nx H a then pv H a else pv H b) (if pv H a = None then nx H a else hfirst H)"

lemma unlink_dll:
  assumes "dll (nx H) (pv H) (hfirst H) (xs @ a # ys)" "set (xs @ a # ys) \<subseteq> dom (helem H)"
  shows "dll (nx (unlink H a)) (pv (unlink H a)) (hfirst (unlink H a)) (xs @ ys)"
proof -
  have n: "nx H a = head ys" "pv H a = (if xs = [] then None else Some (last xs))"
    using dll_node [OF assms(1)] by auto
  have d: "distinct (xs @ a # ys)" using assms(1) by (rule dll_distinct)
  have h: "head ys = Some b \<longleftrightarrow> ys \<noteq> [] \<and> b = hd ys" "Some b = head ys \<longleftrightarrow> ys \<noteq> [] \<and> b = hd ys" for b
    by (auto simp: head_def split: list.splits)
  show ?thesis
    by (rule dll_remove [OF assms(1)])
      (use assms(2) n d in \<open>auto simp: unlink_def nx_relink pv_relink subset_iff h head_rev\<close>)
qed

text \<open>The two pointer assignments of \<^verbatim>\<open>removeElementGivenHash\<close>.\<close>

lemma unlink_steps:
  assumes e: "helem H a = Some e"
    and p: "\<And>p. pv H a = Some p \<Longrightarrow> p \<in> dom (helem H)" and n: "\<And>n. nx H a = Some n \<Longrightarrow> n \<in> dom (helem H)"
  shows "do {
     H1 \<leftarrow> (case eprev e of
              Some p \<Rightarrow> hset H p (\<lambda>n. n\<lparr>enext := enext e\<rparr>)
            | None \<Rightarrow> Some (H\<lparr>hfirst := enext e\<rparr>));
     case enext e of
              Some p \<Rightarrow> hset H1 p (\<lambda>n. n\<lparr>eprev := eprev e\<rparr>)
            | None \<Rightarrow> Some H1 } = Some (unlink H a)"
proof -
  have l: "enext e = nx H a" "eprev e = pv H a" using elem_links [OF e] by auto
  have nn: "nx H b = None" "pv H b = None" if "helem H b = None" for b using that by (auto simp: nx_def pv_def)
  show ?thesis
    unfolding l
    by (cases "pv H a"; cases "nx H a")
      (use p n in \<open>auto simp: hset_def unlink_def relink_def fun_eq_iff elem_relink_id nx_def pv_def
        split: option.splits intro!: hash.equality\<close>)
qed

end
