(* ===== verification/HashMap.thy ===== *)
theory HashMap
  imports HashTable
begin

text \<open>
  The hash table of \<^verbatim>\<open>hash.c\<close> as a finite map: every operation of \<open>HashTable\<close> keeps the
  invariant of the pointers and acts on the map from case-folded keys to data as its contract
  says.
\<close>

section \<open>Removal\<close>

text \<open>What the elements store, without their links.\<close>

definition kv :: "'d hash \<Rightarrow> nat \<Rightarrow> ('d \<times> u8 list) option" where
  "kv H a = map_option (\<lambda>e. (edata e, ekey e)) (helem H a)"

lemma same_elems_kv: "same_elems H H' \<longleftrightarrow> hcount H' = hcount H \<and> hreq H' = hreq H \<and> kv H' = kv H"
  by (auto simp: same_elems_def kv_def fun_eq_iff)

lemma dom_kv: "dom (helem H) = dom (kv H)"
  by (auto simp: kv_def dom_def)

lemma key_of_kv: "key_of H a = (case kv H a of None \<Rightarrow> [] | Some (d, k) \<Rightarrow> k)"
  by (auto simp: key_of_def kv_def split: option.splits)

lemma keys_ok_kv:
  "keys_ok H \<longleftrightarrow> inj_on (\<lambda>a. fold_key (snd (the (kv H a)))) (dom (kv H))
    \<and> (\<forall>a \<in> dom (kv H). 0 \<notin> set (snd (the (kv H a))) \<and> a < hreq H)"
proof -
  have k: "key_of H a = snd (the (kv H a))" if "a \<in> dom (kv H)" for a
    using that by (auto simp: key_of_kv)
  have n: "key_of H a = []" if "a \<notin> dom (kv H)" for a using that by (cases "kv H a") (auto simp: key_of_kv)
  have "(\<forall>a. 0 \<notin> set (key_of H a)) \<longleftrightarrow> (\<forall>a \<in> dom (kv H). 0 \<notin> set (snd (the (kv H a))))"
    using k n by (metis empty_iff list.set(1))
  moreover have "inj_on (\<lambda>a. fold_key (key_of H a)) (dom (kv H)) \<longleftrightarrow> inj_on (\<lambda>a. fold_key (snd (the (kv H a)))) (dom (kv H))"
    by (rule inj_on_cong) (simp add: k)
  ultimately show ?thesis unfolding keys_ok_def dom_kv by blast
qed

lemma table_ok_cong: "table_ok H segs \<Longrightarrow> ht H' = ht H \<Longrightarrow> htsize H' = htsize H \<Longrightarrow> table_ok H' segs"
  by (simp add: table_ok_def cong: option.case_cong)

lemma table_entry:
  "table_ok H segs \<Longrightarrow> ht H = Some t \<Longrightarrow> j < length t \<Longrightarrow> map_of segs j = Some as \<Longrightarrow> t ! j = (length as, head as)"
  by (auto simp: table_ok_def)

lemma seg_split:
  assumes "hlist_ok H segs" "a \<in> set (seg_list segs)"
  obtains pre j as1 as2 post where "segs = pre @ (j, as1 @ a # as2) # post" "j = bucket H (key_of H a)"
proof -
  obtain j as where ja: "(j, as) \<in> set segs" "a \<in> set as" using assms(2) set_seg_list [of a segs] by blast
  obtain pre post where "segs = pre @ (j, as) # post" using ja(1) by (meson split_list)
  moreover obtain as1 as2 where "as = as1 @ a # as2" using ja(2) by (meson split_list)
  moreover have "j = bucket H (key_of H a)" using assms(1) ja by (auto simp: hlist_ok_def segs_ok_def)
  ultimately show ?thesis using that by blast
qed

lemma table_remove:
  assumes tab: "table_ok H (pre @ (j, as1 @ a # as2) # post)" and d: "distinct (map fst (pre @ (j, as1 @ a # as2) # post))"
    and dist: "distinct (as1 @ a # as2)" and t: "ht H = Some t" "j < length t" and n: "enx = head (as2 @ rest)"
  defines "bs \<equiv> as1 @ as2"
  defines "segs' \<equiv> pre @ (if bs = [] then [] else [(j, bs)]) @ post"
  shows "\<exists>c ch. t ! j = (Suc c, ch) \<and>
    table_ok (H\<lparr>ht := Some (t[j := (c, if ch = Some a then enx else ch)])\<rparr>) segs'"
proof -
  have tj: "t ! j = (length (as1 @ a # as2), head (as1 @ a # as2))"
    by (rule table_entry [OF tab t]) (use map_of_replace(1) [OF d, of "as1 @ a # as2" j] in simp)
  have m: "map_of segs' k = (if k = j then (if bs = [] then None else Some bs)
      else map_of (pre @ (j, as1 @ a # as2) # post) k)" for k
    using map_of_replace(1) [OF d, of bs k] map_of_replace(2) [OF d, of k] by (auto simp: segs'_def)
  have ch: "(if head (as1 @ a # as2) = Some a then enx else head (as1 @ a # as2)) = head bs" if "bs \<noteq> []"
    using that dist n by (cases as1; cases as2) (auto simp: bs_def)
  have "table_ok (H\<lparr>ht := Some (t[j := (length bs, if head (as1 @ a # as2) = Some a then enx else head (as1 @ a # as2))])\<rparr>) segs'"
    unfolding table_ok_def
  proof (simp add: nth_list_update m split: option.splits, intro conjI impI allI, goal_cases)
    case 1 then show ?case using tab t by (simp add: table_ok_def)
  next
    case 2 then show ?case using tab t by (simp add: table_ok_def)
  next
    case (3 k) then show ?case using tab t ch by (auto simp: table_ok_def split: option.splits)
  qed (use tab t ch in \<open>auto simp: table_ok_def split: option.splits\<close>)
  then show ?thesis using tj by (auto simp: bs_def)
qed

lemma unlink_simps [simp]:
  "dom (helem (unlink H a)) = dom (helem H)" "ht (unlink H a) = ht H" "htsize (unlink H a) = htsize H"
  "hcount (unlink H a) = hcount H" "hreq (unlink H a) = hreq H" "key_of (unlink H a) = key_of H"
  "bucket (unlink H a) = bucket H" "kv (unlink H a) = kv H"
  by (simp_all add: unlink_def) (simp add: kv_def fun_eq_iff option.map_comp comp_def)

lemma kv_unlink: "map_option (\<lambda>e. (edata e, ekey e)) (helem (unlink H a) x) = map_option (\<lambda>e. (edata e, ekey e)) (helem H x)"
  using unlink_simps(8) [of H a] unfolding kv_def by meson

text \<open>The table after the element left the list, its bucket and the store.\<close>

definition removed :: "'d hash \<Rightarrow> nat \<Rightarrow> (nat \<times> nat option) list option \<Rightarrow> 'd hash" where
  "removed H a t = (unlink H a)\<lparr>ht := t, helem := (helem (unlink H a))(a := None), hcount := hcount H - 1\<rparr>"

lemma removed_simps [simp]:
  "ht (removed H a t) = t" "htsize (removed H a t) = htsize H" "hcount (removed H a t) = hcount H - 1"
  "hreq (removed H a t) = hreq H" "kv (removed H a t) = (kv H)(a := None)"
  "b \<noteq> a \<Longrightarrow> nx (removed H a t) b = nx (unlink H a) b" "b \<noteq> a \<Longrightarrow> pv (removed H a t) b = pv (unlink H a) b"
  "b \<noteq> a \<Longrightarrow> key_of (removed H a t) b = key_of H b" "hfirst (removed H a t) = hfirst (unlink H a)"
  "dom (helem (removed H a t)) = dom (helem H) - {a}"
proof -
  show "kv (removed H a t) = (kv H)(a := None)"
    by (simp add: removed_def kv_def fun_eq_iff kv_unlink)
  then show "b \<noteq> a \<Longrightarrow> key_of (removed H a t) b = key_of H b" by (simp add: key_of_kv)
  show "dom (helem (removed H a t)) = dom (helem H) - {a}"
    using unlink_simps(1) [of H a] by (auto simp: removed_def)
qed (auto simp: removed_def nx_def pv_def)

lemma removed_ok:
  assumes ok: "hlist_ok H segs" and dm: "set (seg_list segs) = dom (helem H)" and a: "a \<in> dom (helem H)"
  shows "\<exists>t' segs'. hlist_ok (removed H a t') segs' \<and> set (seg_list segs') = dom (helem (removed H a t'))
    \<and> Suc (length (seg_list segs')) = length (seg_list segs)
    \<and> (case ht H of None \<Rightarrow> t' = None
       | Some t \<Rightarrow> \<exists>c ch. bucket H (key_of H a) < length t \<and> t ! bucket H (key_of H a) = (Suc c, ch)
            \<and> t' = Some (t[bucket H (key_of H a) := (c, if ch = Some a then nx H a else ch)]))"
proof -
  obtain pre j as1 as2 post where sp: "segs = pre @ (j, as1 @ a # as2) # post" and j: "j = bucket H (key_of H a)"
    using seg_split [OF ok] a dm by blast
  have dl: "dll (nx H) (pv H) (hfirst H) ((seg_list pre @ as1) @ a # (as2 @ seg_list post))"
    and so: "segs_ok H segs" and tab: "table_ok H segs"
    using ok sp by (auto simp: hlist_ok_def)
  let ?bs = "as1 @ as2"
  define segs' where "segs' = pre @ (if ?bs = [] then [] else [(j, ?bs)]) @ post"
  have sl: "seg_list segs' = (seg_list pre @ as1) @ (as2 @ seg_list post)" by (auto simp: segs'_def)
  have dist: "distinct ((seg_list pre @ as1) @ a # (as2 @ seg_list post))" using dl by (rule dll_distinct)
  have n: "nx H a = head (as2 @ seg_list post)" using dll_node(1) [OF dl] .
  have ds: "distinct (map fst (pre @ (j, as1 @ a # as2) # post))" using so sp by (simp add: segs_ok_def)
  define t' where "t' = (case ht H of None \<Rightarrow> None
    | Some t \<Rightarrow> Some (t[j := (fst (t ! j) - 1, if snd (t ! j) = Some a then nx H a else snd (t ! j))]))"
  have jl: "j < length t" if "ht H = Some t" for t using that tab j by (simp add: table_ok_def bucket_def)
  have tabr: "\<exists>c ch. t ! j = (Suc c, ch) \<and> table_ok (H\<lparr>ht := Some (t[j := (c, if ch = Some a then nx H a else ch)])\<rparr>) segs'"
    if "ht H = Some t" for t
    unfolding segs'_def
    by (rule table_remove) (use that sp tab ds dist jl n in auto)
  have tc: "ht H = Some t \<Longrightarrow> \<exists>c ch. t ! j = (Suc c, ch) \<and> t' = Some (t[j := (c, if ch = Some a then nx H a else ch)])" for t
  proof -
    assume "ht H = Some t"
    moreover from tabr [OF this] obtain c ch where "t ! j = (Suc c, ch)" by blast
    ultimately show ?thesis by (intro exI [of _ c] exI [of _ ch]) (simp add: t'_def)
  qed
  have "table_ok (removed H a t') segs'"
  proof (cases "ht H")
    case None
    then show ?thesis using tab by (simp add: table_ok_def t'_def)
  next
    case (Some t)
    from tabr [OF Some] obtain c ch where c: "t ! j = (Suc c, ch)"
      "table_ok (H\<lparr>ht := Some (t[j := (c, if ch = Some a then nx H a else ch)])\<rparr>) segs'" by blast
    show ?thesis by (rule table_ok_cong [OF c(2)]) (simp_all add: t'_def Some c(1))
  qed
  moreover have "dll (nx (removed H a t')) (pv (removed H a t')) (hfirst (removed H a t')) (seg_list segs')"
  proof -
    have "dll (nx (unlink H a)) (pv (unlink H a)) (hfirst (unlink H a)) (seg_list segs')"
      unfolding sl by (rule unlink_dll [OF dl]) (use dm sp in auto)
    moreover have "a \<notin> set (seg_list segs')" unfolding sl using dist by auto
    then have "b \<noteq> a" if "b \<in> set (seg_list segs')" for b using that by auto
    ultimately show ?thesis by (simp add: dll_frame [of "nx (unlink H a)" "pv (unlink H a)"])
  qed
  moreover have "segs_ok (removed H a t') segs'"
  proof -
    have "bucket (removed H a t') = bucket H"
      by (auto simp: bucket_def t'_def fun_eq_iff split: option.splits)
    moreover have "distinct (map fst segs')" using ds by (auto simp: segs'_def)
    moreover have "a \<notin> set (seg_list segs')" unfolding sl using dist by auto
    then have "b \<noteq> a" if "(k, bs) \<in> set segs'" "b \<in> set bs" for k bs b
      using that set_seg_list by metis
    moreover have "(k, bs) \<in> set segs' \<Longrightarrow> bs \<noteq> [] \<and> (\<exists>cs. (k, cs) \<in> set segs \<and> set bs \<subseteq> set cs)" for k bs
      using so sp by (auto simp: segs'_def segs_ok_def split: if_splits)
    ultimately show ?thesis using so unfolding segs_ok_def by (fastforce)
  qed
  moreover have "set (seg_list segs') = dom (helem (removed H a t'))"
    using dm sp dist unfolding sl by auto
  ultimately have "hlist_ok (removed H a t') segs' \<and> set (seg_list segs') = dom (helem (removed H a t'))"
    by (simp add: hlist_ok_def)
  moreover have "Suc (length (seg_list segs')) = length (seg_list segs)" unfolding sl using sp by simp
  moreover have "case ht H of None \<Rightarrow> t' = None
       | Some t \<Rightarrow> \<exists>c ch. bucket H (key_of H a) < length t \<and> t ! bucket H (key_of H a) = (Suc c, ch)
            \<and> t' = Some (t[bucket H (key_of H a) := (c, if ch = Some a then nx H a else ch)])"
  proof (cases "ht H")
    case None
    then show ?thesis by (simp add: t'_def)
  next
    case (Some t)
    then show ?thesis using tc [OF Some] jl [OF Some] unfolding j [symmetric] by simp
  qed
  ultimately show ?thesis by blast
qed

lemma removed_no_table:
  "ht H = None \<Longrightarrow> removed H a None = (unlink H a)\<lparr>helem := (helem (unlink H a))(a := None), hcount := hcount H - 1\<rparr>"
  by (auto simp: removed_def intro!: hash.equality)

lemma inv_neighbours:
  assumes "hlist_ok H segs" "set (seg_list segs) = dom (helem H)" "a \<in> dom (helem H)"
  shows "pv H a = Some p \<Longrightarrow> p \<in> dom (helem H)" "nx H a = Some p \<Longrightarrow> p \<in> dom (helem H)"
proof -
  obtain xs ys where sp: "seg_list segs = xs @ a # ys" using assms(2,3) by (metis split_list)
  have dl: "dll (nx H) (pv H) (hfirst H) (xs @ a # ys)" using assms(1) sp by (simp add: hlist_ok_def)
  have sub: "set xs \<subseteq> dom (helem H)" "set ys \<subseteq> dom (helem H)" using assms(2) sp by auto
  show "pv H a = Some p \<Longrightarrow> p \<in> dom (helem H)"
    using dll_node(2) [OF dl] subsetD [OF sub(1) last_in_set] by (simp split: if_splits)
  show "nx H a = Some p \<Longrightarrow> p \<in> dom (helem H)"
    using dll_node(1) [OF dl] sub(2) by (auto simp: head_def split: list.splits)
qed

lemma hash_inv_empty: "dom (helem H) = {} \<Longrightarrow> hcount H = 0 \<Longrightarrow> hfirst H = None \<Longrightarrow> ht H = None
    \<Longrightarrow> htsize H = 0 \<Longrightarrow> hash_inv H"
  by (auto simp: hash_inv_def keys_ok_def hlist_ok_def segs_ok_def table_ok_def key_of_def intro!: exI [of _ "[]"])

lemma keys_ok_remove: "keys_ok H \<Longrightarrow> kv H' = (kv H)(a := None) \<Longrightarrow> hreq H' = hreq H \<Longrightarrow> keys_ok H'"
  by (auto simp: keys_ok_kv inj_on_def)

lemma removeElementGivenHash_ok:
  assumes inv: "hash_inv H" and a: "a \<in> dom (helem H)"
  shows "\<exists>H'. removeElementGivenHash H a (bucket H (key_of H a)) = Some H' \<and> hash_inv H'
    \<and> kv H' = (kv H)(a := None) \<and> hreq H' = hreq H"
proof -
  obtain segs where ok: "hlist_ok H segs" and dm: "set (seg_list segs) = dom (helem H)"
      and ct: "hcount H = length (seg_list segs)" and ky: "keys_ok H"
    using inv by (auto simp: hash_inv_def)
  obtain e where e: "helem H a = Some e" using a by auto
  let ?j = "bucket H (key_of H a)"
  obtain t' segs' where 1: "hlist_ok (removed H a t') segs'" "set (seg_list segs') = dom (helem (removed H a t'))"
      "Suc (length (seg_list segs')) = length (seg_list segs)"
      "case ht H of None \<Rightarrow> t' = None
       | Some t \<Rightarrow> \<exists>c ch. ?j < length t \<and> t ! ?j = (Suc c, ch) \<and> t' = Some (t[?j := (c, if ch = Some a then nx H a else ch)])"
    using removed_ok [OF ok dm a] by blast
  have c0: "hcount H \<noteq> 0" "hcount H - 1 = length (seg_list segs')" using ct 1(3) by auto
  have us: "do {
     H1 \<leftarrow> (case eprev e of Some p \<Rightarrow> hset H p (\<lambda>n. n\<lparr>enext := enext e\<rparr>) | None \<Rightarrow> Some (H\<lparr>hfirst := enext e\<rparr>));
     case enext e of Some p \<Rightarrow> hset H1 p (\<lambda>n. n\<lparr>eprev := eprev e\<rparr>) | None \<Rightarrow> Some H1 } = Some (unlink H a)"
    by (rule unlink_steps [OF e]) (use inv_neighbours [OF ok dm a] in blast)+
  then obtain H1 where H1: "(case eprev e of Some p \<Rightarrow> hset H p (\<lambda>n. n\<lparr>enext := enext e\<rparr>) | None \<Rightarrow> Some (H\<lparr>hfirst := enext e\<rparr>)) = Some H1"
      "(case enext e of Some p \<Rightarrow> hset H1 p (\<lambda>n. n\<lparr>eprev := eprev e\<rparr>) | None \<Rightarrow> Some H1) = Some (unlink H a)"
    by (auto simp: bind_eq_Some_conv)
  have rm: "removeElementGivenHash H a ?j =
      (if hcount H - 1 = 0 then sqlite3HashClear (removed H a t') else Some (removed H a t'))"
  proof (cases "ht H")
    case None
    then show ?thesis
      unfolding removeElementGivenHash_def e bind.bind_lunit H1
      using 1(4) c0(1) by (simp add: Let_def removed_no_table)
  next
    case (Some t)
    then show ?thesis
      unfolding removeElementGivenHash_def e bind.bind_lunit H1
      using 1(4) c0(1) elem_links [OF e] by (auto simp: Let_def rd_def removed_def)
  qed
  show ?thesis
  proof (cases "hcount H - 1 = 0")
    case False
    have "hash_inv (removed H a t')"
      using 1(1,2) c0(2) keys_ok_remove [OF ky] by (auto simp: hash_inv_def)
    then show ?thesis using rm False by auto
  next
    case True
    then have "seg_list segs' = []" using c0(2) by simp
    then have emp: "dom (helem (removed H a t')) = {}" "hfirst (removed H a t') = None"
      using 1(1,2) by (auto simp: hlist_ok_def)
    let ?H = "(removed H a t')\<lparr>hfirst := None, ht := None, htsize := 0, hcount := 0\<rparr>"
    have "sqlite3HashClear (removed H a t') = Some ?H"
      using emp(2) True by (simp add: sqlite3HashClear_def)
    moreover have "hash_inv ?H" using emp(1) by (intro hash_inv_empty) auto
    moreover have "kv ?H = kv (removed H a t')" unfolding kv_def by simp
    ultimately show ?thesis using rm True by auto
  qed
qed

section \<open>Growing the table\<close>

lemma rehash_loop_ok:
  assumes "hlist_ok H segs" "nlist (nx H) ys" "set ys \<subseteq> dom (helem H)" "set ys \<inter> set (seg_list segs) = {}"
    "ht H \<noteq> None" "length ys < f"
  shows "\<exists>H' segs'. rehash_loop f H (head ys) = Some H' \<and> hlist_ok H' segs'
    \<and> set (seg_list segs') = set (seg_list segs) \<union> set ys \<and> length (seg_list segs') = length (seg_list segs) + length ys
    \<and> same_elems H H' \<and> htsize H' = htsize H \<and> ht H' \<noteq> None"
  using assms
proof (induction ys arbitrary: f H segs)
  case Nil
  then show ?case by (cases f) auto
next
  case (Cons y ys)
  obtain f' where f: "f = Suc f'" using Cons.prems(6) by (cases f) auto
  obtain e where e: "helem H y = Some e" using Cons.prems(3) by auto
  have n: "enext e = head ys" "y \<notin> set ys" "nlist (nx H) ys"
    using nlist_Cons [OF Cons.prems(2)] elem_links [OF e] by auto
  have b: "strHash (ekey e) mod htsize H = bucket H (key_of H y)"
    using Cons.prems(5) elem_links [OF e] by (auto simp: bucket_def)
  have "y \<in> dom (helem H)" "y \<notin> set (seg_list segs)" using Cons.prems(3,4) by auto
  from insertElement_ok [OF Cons.prems(1) this refl] Cons.prems(5)
  obtain H1 segs1 where 1: "insertElement H (Some (bucket H (key_of H y))) y = Some H1" "hlist_ok H1 segs1"
      "set (seg_list segs1) = insert y (set (seg_list segs))" "length (seg_list segs1) = Suc (length (seg_list segs))"
      "same_elems H H1" "htsize H1 = htsize H" "ht H1 \<noteq> None"
      "\<forall>a. a \<notin> set (seg_list segs) \<longrightarrow> a \<noteq> y \<longrightarrow> nx H1 a = nx H a"
    by auto
  have "nlist (nx H1) ys"
    by (rule nlist_frame [OF n(3)]) (use 1(8) n(2) Cons.prems(4) in auto)
  moreover have "set ys \<subseteq> dom (helem H1)" using Cons.prems(3) same_elems_dom [OF 1(5)] by auto
  moreover have "set ys \<inter> set (seg_list segs1) = {}" using 1(3) n(2) Cons.prems(4) by auto
  moreover have "length ys < f'" using Cons.prems(6) f by simp
  ultimately obtain H' segs' where "rehash_loop f' H1 (head ys) = Some H'" "hlist_ok H' segs'"
    "set (seg_list segs') = set (seg_list segs1) \<union> set ys" "length (seg_list segs') = length (seg_list segs1) + length ys"
    "same_elems H1 H'" "htsize H' = htsize H1" "ht H' \<noteq> None"
    using Cons.IH [OF 1(2)] 1(7) by blast
  then show ?case
    using f e b n(1) 1 same_elems_trans [OF 1(5)] by (intro exI [of _ H'] exI [of _ segs']) simp
qed

text \<open>A table whose list holds all elements but some new ones that are not linked yet.\<close>

lemma rehash_ok:
  assumes ok: "hlist_ok H segs" and len: "length (seg_list segs) \<le> hcount H" and sz: "0 < new_size"
  shows "\<exists>grew H' segs'. rehash al slack H new_size = Some (grew, H') \<and> hlist_ok H' segs'
    \<and> set (seg_list segs') = set (seg_list segs) \<and> length (seg_list segs') = length (seg_list segs)
    \<and> kv H' = kv H \<and> hcount H' = hcount H \<and> hreq H \<le> hreq H' \<and> (\<not> grew \<longrightarrow> ht H' = ht H \<and> htsize H' = htsize H)
    \<and> (grew \<longrightarrow> ht H' \<noteq> None)"
proof -
  define m where "m = (if new_size * 16 > 1024 then 1024 div 16 else new_size)"
  define sz' where "sz' = (m * 16 + slack (m * 16)) div 16"
  let ?H = "H\<lparr>ht := Some (replicate sz' (0, None)), htsize := sz', hreq := hreq H + 1, hfirst := None\<rparr>"
  have "0 < m" using sz by (simp add: m_def)
  then have p: "0 < sz'" by (simp add: sz'_def div_greater_zero_iff)
  have k: "kv ?H = kv H" "nx ?H = nx H" "dom (helem ?H) = dom (helem H)" by (simp_all add: kv_def nx_def fun_eq_iff)
  consider "m = htsize H" | "m \<noteq> htsize H" "\<not> al (hreq H)" | "m \<noteq> htsize H" "al (hreq H)" by blast
  then show ?thesis
  proof cases
    case 1
    then have "rehash al slack H new_size = Some (False, H)"
      unfolding rehash_def Let_def m_def [symmetric] by (simp only: if_True simp_thms)
    then show ?thesis using ok by (intro exI [of _ False] exI [of _ H] exI [of _ segs]) simp
  next
    case 2
    let ?H1 = "H\<lparr>hreq := hreq H + 1\<rparr>"
    have f: "nx ?H1 = nx H" "pv ?H1 = pv H" "key_of ?H1 = key_of H" "bucket ?H1 = bucket H"
      by (auto simp: nx_def pv_def key_of_def bucket_def fun_eq_iff)
    have "table_ok ?H1 segs" by (rule table_ok_cong [of H]) (use ok in \<open>auto simp: hlist_ok_def\<close>)
    then have "hlist_ok ?H1 segs" "kv ?H1 = kv H"
      using ok f by (simp_all add: hlist_ok_def segs_ok_def kv_def [abs_def])
    moreover have "rehash al slack H new_size = Some (False, ?H1)"
      unfolding rehash_def Let_def m_def [symmetric] using 2 by (simp only: if_False if_True simp_thms)
    ultimately show ?thesis by (intro exI [of _ False] exI [of _ ?H1] exI [of _ segs]) simp
  next
    case 3
    have "hlist_ok ?H []" using p by (simp add: hlist_ok_def segs_ok_def table_ok_def)
    moreover have "nlist (nx ?H) (seg_list segs)" using ok k(2) by (auto simp: hlist_ok_def dest: dll_nlist)
    moreover have "set (seg_list segs) \<subseteq> dom (helem ?H)" using ok by (auto simp: hlist_ok_def)
    moreover have "length (seg_list segs) < hcount H + 1" using len by simp
    ultimately obtain H' segs' where l: "rehash_loop (hcount H + 1) ?H (head (seg_list segs)) = Some H'" "hlist_ok H' segs'"
        "set (seg_list segs') = set (seg_list segs)" "length (seg_list segs') = length (seg_list segs)"
        "same_elems ?H H'" "ht H' \<noteq> None"
      using rehash_loop_ok [of ?H "[]" "seg_list segs" "hcount H + 1"] by auto
    have "hfirst H = head (seg_list segs)" using ok by (auto simp: hlist_ok_def dest: dll_first)
    then have "rehash al slack H new_size = Some (True, H')"
      unfolding rehash_def Let_def m_def [symmetric] sz'_def [symmetric] using 3 l(1) by simp
    then show ?thesis using l k(1) by (auto simp: same_elems_kv)
  qed
qed

section \<open>The operations on the map\<close>

lemma hmap_kv: "hmap H k = (let S = {d | a d q. kv H a = Some (d, q) \<and> fold_key q = k} in
    if S = {} then None else Some (the_elem S))"
proof -
  have "{edata e | a e. helem H a = Some e \<and> fold_key (ekey e) = k} = {d | a d q. kv H a = Some (d, q) \<and> fold_key q = k}"
    by (force simp: kv_def)
  then show ?thesis by (simp add: hmap_def)
qed

lemma keys_ok_unique:
  "keys_ok H \<Longrightarrow> kv H a = Some (d, q) \<Longrightarrow> kv H b = Some (d', q') \<Longrightarrow> fold_key q = fold_key q' \<Longrightarrow> a = b"
  by (force simp: keys_ok_kv inj_on_def dom_def)

lemma hmap_Some: "keys_ok H \<Longrightarrow> kv H a = Some (d, q) \<Longrightarrow> hmap H (fold_key q) = Some d"
proof -
  assume ky: "keys_ok H" and a: "kv H a = Some (d, q)"
  have "{d' | a' d' q'. kv H a' = Some (d', q') \<and> fold_key q' = fold_key q} = {d}"
    using keys_ok_unique [OF ky a] a by fastforce
  then show ?thesis by (simp add: hmap_kv)
qed

lemma hmap_None: "(\<And>a d q. kv H a = Some (d, q) \<Longrightarrow> fold_key q \<noteq> k) \<Longrightarrow> hmap H k = None"
  by (simp add: hmap_kv)

lemma hmap_empty: "dom (kv H) = {} \<Longrightarrow> hmap H = Map.empty"
proof
  fix k assume "dom (kv H) = {}"
  then have "kv H a = None" for a by (metis domIff empty_iff)
  then show "hmap H k = None" by (intro hmap_None) simp
qed

lemma hmap_eq_Some: "keys_ok H \<Longrightarrow> hmap H k = Some d \<longleftrightarrow> (\<exists>a q. kv H a = Some (d, q) \<and> fold_key q = k)"
  using hmap_Some hmap_None by (metis option.distinct(1) option.inject prod.exhaust_sel)

text \<open>The map after an element changed, appeared or disappeared at an address.\<close>

lemma hmap_upd:
  assumes "keys_ok H" "keys_ok H'" "kv H' = (kv H)(a := v)"
    and "\<And>d q. kv H a = Some (d, q) \<Longrightarrow> fold_key q = k" "\<And>d q. v = Some (d, q) \<Longrightarrow> fold_key q = k"
    and "\<And>b d q. kv H b = Some (d, q) \<Longrightarrow> fold_key q = k \<Longrightarrow> b = a"
  shows "hmap H' = (hmap H)(k := map_option fst v)"
proof -
  have "hmap H' k' = Some d \<longleftrightarrow> ((hmap H)(k := map_option fst v)) k' = Some d" for k' d
  proof (cases "k' = k")
    case True
    have "hmap H' k = Some d \<longleftrightarrow> (\<exists>b q. ((kv H)(a := v)) b = Some (d, q) \<and> fold_key q = k)"
      using hmap_eq_Some [OF assms(2)] assms(3) by simp
    also have "\<dots> \<longleftrightarrow> (\<exists>q. v = Some (d, q))" using assms(5,6) by (auto split: if_splits)
    finally show ?thesis using True by (auto simp: eq_fst_iff)
  next
    case False
    then show ?thesis
      using hmap_eq_Some [OF assms(1)] hmap_eq_Some [OF assms(2)] assms(3,4,5) by (auto split: if_splits) metis+
  qed
  then show ?thesis by (intro ext) (metis option.exhaust)
qed

lemma keys_ok_add:
  assumes "keys_ok H" "kv H' = (kv H)(a \<mapsto> (d, q))" "0 \<notin> set q" "a < hreq H'" "hreq H \<le> hreq H'"
    and "\<And>b d' q'. kv H b = Some (d', q') \<Longrightarrow> b \<noteq> a \<Longrightarrow> fold_key q' \<noteq> fold_key q"
  shows "keys_ok H'"
  using assms unfolding keys_ok_kv inj_on_def by (auto simp: dom_def split: if_splits) (metis fst_conv snd_conv option.sel less_le_trans)+

lemma bucket_insert: "hash_inv H \<Longrightarrow> (if htsize H \<noteq> 0 then strHash key mod htsize H else 0) = bucket H key"
  by (auto simp: hash_inv_def hlist_ok_def table_ok_def bucket_def split: option.splits)

lemma bucket_find: "(if ht H \<noteq> None then strHash key mod htsize H else 0) = bucket H key"
  by (simp add: bucket_def)

lemma find_kv:
  assumes "hash_inv H" "0 \<notin> set key"
  shows "(findElementGivenHash H key (bucket H key) = Some None
      \<and> (\<forall>a d q. kv H a = Some (d, q) \<longrightarrow> fold_key q \<noteq> fold_key key))
    \<or> (\<exists>a e. findElementGivenHash H key (bucket H key) = Some (Some a) \<and> helem H a = Some e
      \<and> fold_key (ekey e) = fold_key key \<and> bucket H (key_of H a) = bucket H key)"
proof -
  obtain p where p: "findElementGivenHash H key (bucket H key) = Some p"
      "\<forall>a. p = Some a \<longleftrightarrow> a \<in> dom (helem H) \<and> fold_key (key_of H a) = fold_key key"
    using findElementGivenHash_ok [OF assms] by blast
  show ?thesis
  proof (cases p)
    case None
    have "fold_key q \<noteq> fold_key key" if k: "kv H a = Some (d, q)" for a d q
    proof -
      have "a \<in> dom (helem H)" "key_of H a = q" using k by (auto simp: dom_kv key_of_kv)
      then show ?thesis using p(2) None by blast
    qed
    then show ?thesis using p(1) None by blast
  next
    case (Some a)
    then obtain e where e: "helem H a = Some e" "fold_key (key_of H a) = fold_key key" using p(2) by auto
    then have "bucket H (key_of H a) = bucket H key" using fold_key_hash [of "key_of H a" key] by (simp add: bucket_def)
    moreover have "fold_key (ekey e) = fold_key key" using e elem_links [OF e(1)] by simp
    ultimately show ?thesis using p(1) Some e(1) by blast
  qed
qed

lemma hashFind_ok:
  assumes "hash_inv H" "0 \<notin> set key"
  shows "sqlite3HashFind H key = Some (hmap H (fold_key key))"
proof -
  have ky: "keys_ok H" using assms(1) by (simp add: hash_inv_def)
  from find_kv [OF assms] show ?thesis
  proof (elim disjE exE conjE, goal_cases)
    case 1
    then have "hmap H (fold_key key) = None" by (intro hmap_None) blast
    with 1 show ?case unfolding sqlite3HashFind_def bucket_find by simp
  next
    case (2 a e)
    then have "hmap H (fold_key (ekey e)) = Some (edata e)"
      by (intro hmap_Some [OF ky, of a]) (simp add: kv_def)
    with 2 show ?case unfolding sqlite3HashFind_def bucket_find by simp
  qed
qed

lemma hash_inv_replace:
  fixes d :: 'd
  assumes inv: "hash_inv H" and e: "helem H a = Some e" and k: "fold_key key = fold_key (ekey e)" "0 \<notin> set key"
  defines "H' \<equiv> H\<lparr>helem := (helem H)(a \<mapsto> e\<lparr>edata := d, ekey := key\<rparr>)\<rparr>"
  shows "hash_inv H' \<and> kv H' = (kv H)(a \<mapsto> (d, key))"
proof -
  obtain segs where ok: "hlist_ok H segs" and dm: "set (seg_list segs) = dom (helem H)"
      and ct: "hcount H = length (seg_list segs)" and ky: "keys_ok H"
    using inv by (auto simp: hash_inv_def)
  have l: "nx H' = nx H" "pv H' = pv H" using e by (auto simp: H'_def nx_def pv_def fun_eq_iff)
  have kv': "kv H' = (kv H)(a \<mapsto> (d, key))" by (auto simp: H'_def kv_def fun_eq_iff)
  have b: "bucket H' (key_of H' b) = bucket H (key_of H b)" for b
    using fold_key_hash [OF k(1)] e by (auto simp: bucket_def key_of_def H'_def)
  have "fold_key q' \<noteq> fold_key key" if "kv H b = Some (d', q')" "b \<noteq> a" for b d' q'
    using keys_ok_unique [OF ky, of b d' q' a "edata e" "ekey e"] that e k(1) by (auto simp: kv_def)
  moreover have "a < hreq H" using ky e by (auto simp: keys_ok_def)
  ultimately have "keys_ok H'" by (intro keys_ok_add [OF ky kv' k(2)]) (auto simp: H'_def)
  moreover have "table_ok H' segs" by (rule table_ok_cong [of H]) (use ok in \<open>auto simp: hlist_ok_def H'_def\<close>)
  moreover have "dom (helem H') = dom (helem H)" using e by (auto simp: H'_def)
  ultimately show ?thesis
    using ok dm ct kv' l b unfolding hash_inv_def hlist_ok_def segs_ok_def by (auto simp: H'_def)
qed

lemma hash_inv_new:
  assumes inv: "hash_inv H" and al: "al (hreq H)" and k: "0 \<notin> set key"
    and fresh: "\<forall>a d q. kv H a = Some (d, q) \<longrightarrow> fold_key q \<noteq> fold_key key"
  shows "\<exists>H'. hashInsert_new al slack H key d (bucket H key) = Some (None, H') \<and> hash_inv H'
    \<and> kv H' = (kv H)(hreq H \<mapsto> (d, key))"
proof -
  obtain segs where ok: "hlist_ok H segs" and dm: "set (seg_list segs) = dom (helem H)"
      and ct: "hcount H = length (seg_list segs)" and ky: "keys_ok H"
    using inv by (auto simp: hash_inv_def)
  let ?new = "hreq H"
  let ?H1 = "H\<lparr>helem := (helem H)(?new \<mapsto> \<lparr>enext = None, eprev = None, edata = d, ekey = key\<rparr>),
                  hreq := hreq H + 1, hcount := hcount H + 1\<rparr>"
  have nd: "?new \<notin> dom (helem H)" using ky by (auto simp: keys_ok_def)
  then have nl: "?new \<notin> set (seg_list segs)" using dm by simp
  have l: "nx ?H1 a = nx H a" "pv ?H1 a = pv H a" "key_of ?H1 a = key_of H a" if "a \<noteq> ?new" for a
    using that by (auto simp: nx_def pv_def key_of_def)
  have "dll (nx H) (pv H) (hfirst ?H1) (seg_list segs)" using ok by (simp add: hlist_ok_def)
  moreover have "nx ?H1 a = nx H a \<and> pv ?H1 a = pv H a" if "a \<in> set (seg_list segs)" for a
    using l(1,2) nl that by metis
  ultimately have "dll (nx ?H1) (pv ?H1) (hfirst ?H1) (seg_list segs)" by (rule dll_frame)
  moreover have "bucket ?H1 = bucket H" by (intro ext) (simp add: bucket_def)
  moreover have "b \<noteq> ?new" if "(j, as) \<in> set segs" "b \<in> set as" for j as b using that nl set_seg_list by metis
  moreover have "table_ok ?H1 segs" by (rule table_ok_cong [of H]) (use ok in \<open>auto simp: hlist_ok_def\<close>)
  ultimately have ok1: "hlist_ok ?H1 segs"
    using ok dm l(3) unfolding hlist_ok_def segs_ok_def by (fastforce)
  have kv1: "kv ?H1 = (kv H)(?new \<mapsto> (d, key))" by (simp add: kv_def fun_eq_iff)
  obtain h' H2 segs2 where 2: "(if hcount ?H1 \<ge> 10 \<and> hcount ?H1 > 2 * htsize ?H1 then do {
                     (ok, H2) \<leftarrow> rehash al slack ?H1 (hcount ?H1 * 2);
                     Some (if ok then strHash key mod htsize H2 else bucket H key, H2) }
                   else Some (bucket H key, ?H1)) = Some (h', H2)"
      "hlist_ok H2 segs2" "set (seg_list segs2) = set (seg_list segs)" "length (seg_list segs2) = length (seg_list segs)"
      "kv H2 = kv ?H1" "hcount H2 = hcount ?H1" "hreq ?H1 \<le> hreq H2" "h' = bucket H2 key"
  proof (cases "hcount ?H1 \<ge> 10 \<and> hcount ?H1 > 2 * htsize ?H1")
    case True
    obtain grew H2 segs2 where r: "rehash al slack ?H1 (hcount ?H1 * 2) = Some (grew, H2)" "hlist_ok H2 segs2"
      "set (seg_list segs2) = set (seg_list segs)" "length (seg_list segs2) = length (seg_list segs)"
      "kv H2 = kv ?H1" "hcount H2 = hcount ?H1" "hreq ?H1 \<le> hreq H2"
      "\<not> grew \<longrightarrow> ht H2 = ht ?H1 \<and> htsize H2 = htsize ?H1" "grew \<longrightarrow> ht H2 \<noteq> None"
      using rehash_ok [OF ok1, of "hcount ?H1 * 2" al slack] ct by auto
    moreover have "(if grew then strHash key mod htsize H2 else bucket H key) = bucket H2 key"
      using r(8,9) by (cases grew) (auto simp: bucket_def)
    ultimately show ?thesis using True that [of "bucket H2 key" H2 segs2] by simp
  next
    case False
    then show ?thesis using that [of "bucket H key" ?H1 segs] ok1 by (auto simp: bucket_def)
  qed
  have dom2: "?new \<in> dom (helem H2)" "?new \<notin> set (seg_list segs2)" "key_of H2 ?new = key"
    using 2(3,5) kv1 nl by (auto simp: dom_kv key_of_kv)
  obtain H3 segs3 where 3: "insertElement H2 (if ht H2 \<noteq> None then Some h' else None) ?new = Some H3"
      "hlist_ok H3 segs3" "set (seg_list segs3) = insert ?new (set (seg_list segs2))"
      "length (seg_list segs3) = Suc (length (seg_list segs2))" "same_elems H2 H3"
    using insertElement_ok [OF 2(2) dom2(1,2), of h'] dom2(3) 2(8) by blast
  have kv3: "kv H3 = (kv H)(?new \<mapsto> (d, key))" "hreq H3 = hreq H2" "hcount H3 = hcount H + 1"
    using 3(5) 2(5,6) kv1 by (auto simp: same_elems_kv)
  have "keys_ok H3" by (rule keys_ok_add [OF ky kv3(1) k]) (use kv3(2) 2(7) fresh in auto)
  moreover have "set (seg_list segs3) = dom (helem H3)" using 3(3) 2(3) dm kv3(1) by (auto simp: dom_kv)
  ultimately have "hash_inv H3" using 3(2,4) 2(4) ct kv3(3) by (auto simp: hash_inv_def)
  moreover have "hashInsert_new al slack H key d (bucket H key) = Some (None, H3)"
    unfolding hashInsert_new_def Let_def 2(1) using al 3(1) by simp
  ultimately show ?thesis using kv3(1) by blast
qed

lemma hash_inv_req: "hash_inv H \<Longrightarrow> hash_inv (H\<lparr>hreq := hreq H + 1\<rparr>)"
proof -
  let ?H = "H\<lparr>hreq := hreq H + 1\<rparr>"
  assume inv: "hash_inv H"
  have f: "nx ?H = nx H" "pv ?H = pv H" "key_of ?H = key_of H" by (auto simp: nx_def pv_def key_of_def fun_eq_iff)
  have b: "bucket ?H = bucket H" by (intro ext) (simp add: bucket_def)
  have "table_ok H segs \<Longrightarrow> table_ok ?H segs" for segs by (rule table_ok_cong [of H]) auto
  then have "hlist_ok H segs \<Longrightarrow> hlist_ok ?H segs" for segs using f b by (simp add: hlist_ok_def segs_ok_def)
  moreover have "keys_ok H \<Longrightarrow> keys_ok ?H" using f by (simp add: keys_ok_def less_Suc_eq)
  ultimately show ?thesis using inv by (auto simp: hash_inv_def)
qed

text \<open>The three outcomes of \<^verbatim>\<open>sqlite3HashInsert\<close>, for an allocation that may fail.\<close>

lemma hashInsert_ok:
  fixes data :: "'d option"
  assumes inv: "hash_inv H" and k: "0 \<notin> set key"
  shows "\<exists>r H'. sqlite3HashInsert al slack H key data = Some (r, H') \<and> hash_inv H' \<and>
    (r = hmap H (fold_key key) \<and> hmap H' = (hmap H)(fold_key key := data)
     \<or> \<not> al (hreq H) \<and> data \<noteq> None \<and> hmap H (fold_key key) = None \<and> r = data \<and> hmap H' = hmap H)"
proof -
  have ky: "keys_ok H" using inv by (simp add: hash_inv_def)
  note ins = sqlite3HashInsert_def [of al slack H key data, unfolded bucket_insert [OF inv] Let_def]
  from find_kv [OF inv k] show ?thesis
  proof (elim disjE exE conjE, goal_cases)
    case 1
    then have m: "hmap H (fold_key key) = None" by (intro hmap_None) blast
    show ?case
    proof (cases data)
      case None
      then have "sqlite3HashInsert al slack H key data = Some (None, H)" using 1(1) unfolding ins by simp
      moreover have "(hmap H)(fold_key key := data) = hmap H" using m None by (simp add: fun_upd_idem)
      ultimately show ?thesis using inv m by simp
    next
      case (Some d)
      show ?thesis
      proof (cases "al (hreq H)")
        case True
        obtain H' where H': "hashInsert_new al slack H key d (bucket H key) = Some (None, H')" "hash_inv H'"
            "kv H' = (kv H)(hreq H \<mapsto> (d, key))"
          using hash_inv_new [where al = al and H = H, OF inv True k 1(2)] by blast
        have n: "kv H (hreq H) = None" using ky unfolding keys_ok_kv by (metis domIff less_irrefl)
        have "hmap H' = (hmap H)(fold_key key := map_option fst (Some (d, key)))"
          by (rule hmap_upd [OF ky _ H'(3)]) (use H'(2) n 1(2) in \<open>auto simp: hash_inv_def\<close>)
        then show ?thesis using H' 1(1) Some m unfolding ins by simp
      next
        case False
        let ?H = "H\<lparr>hreq := hreq H + 1\<rparr>"
        have kv': "kv ?H = kv H" by (simp add: kv_def fun_eq_iff)
        have "hash_inv ?H" using inv by (rule hash_inv_req)
        moreover have "hmap ?H = hmap H" by (intro ext) (simp only: hmap_kv kv')
        moreover have "sqlite3HashInsert al slack H key data = Some (Some d, ?H)"
          using False Some 1(1) unfolding ins by (simp add: hashInsert_new_def)
        ultimately show ?thesis using False Some m by simp
      qed
    qed
  next
    case (2 a e)
    have kva: "kv H a = Some (edata e, ekey e)" using 2(2) by (simp add: kv_def)
    have m: "hmap H (fold_key key) = Some (edata e)" using hmap_Some [OF ky kva] 2(3) by simp
    have u: "b = a" if "kv H b = Some (d, q)" "fold_key q = fold_key key" for b d q
      using keys_ok_unique [OF ky that(1) kva] that(2) 2(3) by simp
    show ?case
    proof (cases data)
      case None
      obtain H' where H': "removeElementGivenHash H a (bucket H (key_of H a)) = Some H'" "hash_inv H'"
          "kv H' = (kv H)(a := None)"
        using removeElementGivenHash_ok [OF inv] 2(2) by blast
      have "hmap H' = (hmap H)(fold_key key := map_option fst (None :: ('d \<times> u8 list) option))"
      proof (rule hmap_upd [OF ky _ H'(3)])
        show "fold_key q = fold_key key" if "kv H a = Some (d', q)" for d' q using that kva 2(3) by simp
        show "b = a" if "kv H b = Some (d', q)" "fold_key q = fold_key key" for b d' q using that by (rule u)
      qed (use H'(2) in \<open>simp_all add: hash_inv_def\<close>)
      moreover have "sqlite3HashInsert al slack H key data = Some (Some (edata e), H')"
        using 2(1,2,4) H'(1) None unfolding ins by simp
      ultimately show ?thesis using H'(2) None m by auto
    next
      case (Some d)
      let ?H = "H\<lparr>helem := (helem H)(a \<mapsto> e\<lparr>edata := d, ekey := key\<rparr>)\<rparr>"
      have H': "hash_inv ?H" "kv ?H = (kv H)(a \<mapsto> (d, key))"
        using hash_inv_replace [OF inv 2(2), of key d] 2(3) k by auto
      have "hmap ?H = (hmap H)(fold_key key := map_option fst (Some (d, key)))"
      proof (rule hmap_upd [OF ky _ H'(2)])
        show "fold_key q = fold_key key" if "kv H a = Some (d', q)" for d' q using that kva 2(3) by simp
        show "b = a" if "kv H b = Some (d', q)" "fold_key q = fold_key key" for b d' q using that by (rule u)
      qed (use H'(1) in \<open>simp_all add: hash_inv_def\<close>)
      moreover have "sqlite3HashInsert al slack H key data = Some (Some (edata e), ?H)"
        using 2(1,2) Some unfolding ins by (simp add: hset_def)
      ultimately show ?thesis using H'(1) Some m by simp
    qed
  qed
qed

lemma hashClear_ok:
  assumes inv: "hash_inv H"
  shows "\<exists>H'. sqlite3HashClear H = Some H' \<and> hash_inv H' \<and> hmap H' = Map.empty"
proof -
  obtain segs where ok: "hlist_ok H segs" and dm: "set (seg_list segs) = dom (helem H)"
      and ct: "hcount H = length (seg_list segs)"
    using inv by (auto simp: hash_inv_def)
  let ?H0 = "H\<lparr>hfirst := None, ht := None, htsize := 0\<rparr>"
  let ?H1 = "?H0\<lparr>helem := (\<lambda>a. if a \<in> set (seg_list segs) then None else helem ?H0 a)\<rparr>"
  have "nx ?H0 = nx H" by (auto simp: nx_def fun_eq_iff)
  then have "nlist (nx ?H0) (seg_list segs)" using ok by (auto simp: hlist_ok_def dest: dll_nlist)
  moreover have "hfirst H = head (seg_list segs)" using ok by (auto simp: hlist_ok_def dest: dll_first)
  ultimately have "hashClear_loop (hcount H + 1) ?H0 (hfirst H) = Some ?H1"
    using hashClear_loop_ok [of ?H0 "seg_list segs" "hcount H + 1"] dm ct by simp
  then have c: "sqlite3HashClear H = Some (?H1\<lparr>hcount := 0\<rparr>)" by (simp add: sqlite3HashClear_def)
  have e: "dom (helem (?H1\<lparr>hcount := 0\<rparr>)) = {}" using dm by auto
  then have "hash_inv (?H1\<lparr>hcount := 0\<rparr>)" by (intro hash_inv_empty) simp_all
  moreover have "hmap (?H1\<lparr>hcount := 0\<rparr>) = Map.empty"
    by (rule hmap_empty) (rule e [unfolded dom_kv])
  ultimately show ?thesis using c by blast
qed

section \<open>The contract\<close>

datatype 'd hash_op = HInsert "u8 list" "'d option" | HFind "u8 list" | HClear

text \<open>An insertion or removal returns the old data, a lookup the data, of a case-folded key.\<close>

fun hash_spec :: "(u8 list \<Rightarrow> 'd option) \<Rightarrow> 'd hash_op \<Rightarrow> 'd option \<times> (u8 list \<Rightarrow> 'd option)" where
  "hash_spec m (HInsert k d) = (m (fold_key k), m(fold_key k := d))"
| "hash_spec m (HFind k) = (m (fold_key k), m)"
| "hash_spec m HClear = (None, Map.empty)"

fun hash_step :: "(nat \<Rightarrow> nat) \<Rightarrow> 'd hash \<Rightarrow> 'd hash_op \<Rightarrow> ('d option \<times> 'd hash) option" where
  "hash_step slack H (HInsert k d) = sqlite3HashInsert (\<lambda>_. True) slack H k d"
| "hash_step slack H (HFind k) = do { r \<leftarrow> sqlite3HashFind H k; Some (r, H) }"
| "hash_step slack H HClear = do { H' \<leftarrow> sqlite3HashClear H; Some (None, H') }"

fun hash_guard :: "'d hash_op \<Rightarrow> bool" where
  "hash_guard (HInsert k d) \<longleftrightarrow> 0 \<notin> set k"
| "hash_guard (HFind k) \<longleftrightarrow> 0 \<notin> set k"
| "hash_guard HClear \<longleftrightarrow> True"

interpretation hr: refines "\<lambda>_. hash_inv" hmap hash_guard "\<lambda>_. False" "hash_step slack" hash_spec for slack
proof (unfold_locales, goal_cases)
  case (1 n H x)
  show ?case
  proof (cases x)
    case (HInsert k d)
    then show ?thesis using hashInsert_ok [of H k "\<lambda>_. True" slack d] 1 by auto
  next
    case (HFind k)
    then show ?thesis using hashFind_ok [of H k] 1 by auto
  next
    case HClear
    then show ?thesis using hashClear_ok [of H] 1 by auto
  qed
qed

lemma hash_inv_init: "hash_inv sqlite3HashInit"
  by (intro hash_inv_empty) (simp_all add: sqlite3HashInit_def)

lemma hmap_init: "hmap sqlite3HashInit = Map.empty"
  by (rule hmap_empty) (auto simp: sqlite3HashInit_def kv_def)

section \<open>Properties\<close>

text \<open>
  One insertion or removal. On a valid table and for a key without a zero byte
  \<^verbatim>\<open>sqlite3HashInsert\<close> never follows a dangling pointer, always ends, and leaves a valid table.
  It returns the old data and stores (or, for null data, removes) exactly that key, compared
  without regard to ASCII case, through every resize of the bucket array; or, when the element
  for a new key cannot be allocated, it returns the new data and the table is unchanged.
\<close>

theorem hash_insert_correct:
  assumes "hash_inv H" "0 \<notin> set key"
  shows "\<exists>r H'. sqlite3HashInsert al slack H key data = Some (r, H') \<and> hash_inv H' \<and>
    (r = hmap H (fold_key key) \<and> hmap H' = (hmap H)(fold_key key := data)
     \<or> \<not> al (hreq H) \<and> data \<noteq> None \<and> hmap H (fold_key key) = None \<and> r = data \<and> hmap H' = hmap H)"
  using assms by (rule hashInsert_ok)

text \<open>
  \<^bold>\<open>C5\<close>: every history of a table. With allocations that succeed, any sequence of insertions,
  removals, lookups and clears of a new table returns, call by call, what the same sequence
  returns on a map from case-folded keys to data, whatever the slack of the allocator.
\<close>

theorem hash_history_refines:
  assumes "list_all hash_guard xs"
  shows "\<exists>rs H'. run_steps (hash_step slack) sqlite3HashInit xs = Some (rs, H') \<and> hash_inv H'
    \<and> run_spec hash_spec Map.empty xs = (rs, hmap H')"
  using hr.run_refines [where xs = xs and s = sqlite3HashInit and slack = slack] assms by (simp add: hash_inv_init hmap_init)

theorem hash_history_refines_witness:
  "\<exists>rs H'. run_steps (hash_step (\<lambda>_. 0)) sqlite3HashInit [HInsert [0x61] (Some (1 :: nat)), HFind [0x41]] = Some (rs, H')
    \<and> rs = [None, Some 1] \<and> hash_inv H'"
proof -
  have f: "fold_key [0x41] = fold_key [0x61]" by (simp add: fold_key_def sqlite3UpperToLower_eq)
  show ?thesis
    using hash_history_refines [of "[HInsert [0x61] (Some (1 :: nat)), HFind [0x41]]" "\<lambda>_. 0"] f by auto
qed

end
