(* ===== verification/Complete.thy ===== *)
theory Complete
  imports UtilStr
begin

text \<open>
  \<^verbatim>\<open>sqlite3_complete\<close> of \<^verbatim>\<open>complete.c\<close>: does a text end a sequence of SQL statements? The lexer
  works on the buffer from the current position on, which must hold the terminating zero; the
  state machine has the eight states and the transition table of the source. The main theorem
  gives the language the machine recognises: a sequence of statements, each ended by its first
  semicolon, or for \<^verbatim>\<open>CREATE TRIGGER\<close> by its first \<^verbatim>\<open>;END;\<close>.
\<close>

section \<open>The state machine\<close>

datatype tk = tkSEMI | tkWS | tkOTHER | tkEXPLAIN | tkCREATE | tkTEMP | tkTRIGGER | tkEND

fun tk_num :: "tk \<Rightarrow> nat" where
  "tk_num tkSEMI = 0" | "tk_num tkWS = 1" | "tk_num tkOTHER = 2" | "tk_num tkEXPLAIN = 3"
| "tk_num tkCREATE = 4" | "tk_num tkTEMP = 5" | "tk_num tkTRIGGER = 6" | "tk_num tkEND = 7"

definition trans :: "nat list list" where
  "trans = [
     [1, 0, 2, 3, 4, 2, 2, 2],
     [1, 1, 2, 3, 4, 2, 2, 2],
     [1, 2, 2, 2, 2, 2, 2, 2],
     [1, 3, 3, 2, 4, 2, 2, 2],
     [1, 4, 2, 2, 2, 4, 5, 2],
     [6, 5, 5, 5, 5, 5, 5, 5],
     [6, 6, 5, 5, 5, 5, 5, 7],
     [1, 7, 5, 5, 5, 5, 5, 5]]"

definition next_state :: "nat \<Rightarrow> tk \<Rightarrow> nat" where
  "next_state s t = trans ! s ! tk_num t"

section \<open>The lexer\<close>

text \<open>
  What one turn of the main loop finds: a token and the rest of the text, an unterminated
  comment or string (\<^verbatim>\<open>return 0\<close>), or a line comment that ends the text (\<^verbatim>\<open>return state == 1\<close>).
\<close>

datatype lexed = Token tk "u8 list" | Unterminated | CommentAtEnd

fun skip_comment :: "u8 list \<Rightarrow> u8 list option" where
  "skip_comment [] = None"
| "skip_comment (c # z) =
    (if c = 0 then Some (c # z)
     else if c \<noteq> 0x2a then skip_comment z
     else (case z of [] \<Rightarrow> None | d # _ \<Rightarrow> if d \<noteq> 0x2f then skip_comment z else Some (c # z)))"

fun skip_until :: "u8 \<Rightarrow> u8 list \<Rightarrow> u8 list option" where
  "skip_until q [] = None"
| "skip_until q (c # z) = (if c \<noteq> 0 \<and> c \<noteq> q then skip_until q z else Some (c # z))"

fun id_length :: "u8 list \<Rightarrow> nat option" where
  "id_length [] = None"
| "id_length (c # z) = (if IdChar c then map_option Suc (id_length z) else Some 0)"

definition kw_create :: "u8 list" where "kw_create = [0x63, 0x72, 0x65, 0x61, 0x74, 0x65]"
definition kw_trigger :: "u8 list" where "kw_trigger = [0x74, 0x72, 0x69, 0x67, 0x67, 0x65, 0x72]"
definition kw_temp :: "u8 list" where "kw_temp = [0x74, 0x65, 0x6d, 0x70]"
definition kw_temporary :: "u8 list" where "kw_temporary = [0x74, 0x65, 0x6d, 0x70, 0x6f, 0x72, 0x61, 0x72, 0x79]"
definition kw_end :: "u8 list" where "kw_end = [0x65, 0x6e, 0x64]"
definition kw_explain :: "u8 list" where "kw_explain = [0x65, 0x78, 0x70, 0x6c, 0x61, 0x69, 0x6e]"

text \<open>\<^verbatim>\<open>nId == n && sqlite3StrNICmp(zSql, kw, n) == 0\<close>\<close>

definition is_kw :: "u8 list \<Rightarrow> nat \<Rightarrow> u8 list \<Rightarrow> bool option" where
  "is_kw z nId kw = (if nId = length kw then map_option (\<lambda>r. r = 0) (sqlite3_strnicmp z kw (length kw)) else Some False)"

definition id_token :: "u8 list \<Rightarrow> nat \<Rightarrow> tk option" where
  "id_token z nId = do {
     c \<leftarrow> rd z 0;
     if c = 0x63 \<or> c = 0x43 then do {
       b \<leftarrow> is_kw z nId kw_create;
       Some (if b then tkCREATE else tkOTHER) }
     else if c = 0x74 \<or> c = 0x54 then do {
       b1 \<leftarrow> is_kw z nId kw_trigger;
       if b1 then Some tkTRIGGER else do {
         b2 \<leftarrow> is_kw z nId kw_temp;
         if b2 then Some tkTEMP else do {
           b3 \<leftarrow> is_kw z nId kw_temporary;
           Some (if b3 then tkTEMP else tkOTHER) } } }
     else if c = 0x65 \<or> c = 0x45 then do {
       b1 \<leftarrow> is_kw z nId kw_end;
       if b1 then Some tkEND else do {
         b2 \<leftarrow> is_kw z nId kw_explain;
         Some (if b2 then tkEXPLAIN else tkOTHER) } }
     else Some tkOTHER }"

text \<open>One turn of the loop on \<open>c # z\<close> with \<open>c \<noteq> 0\<close>; the rest is the text after the final \<^verbatim>\<open>zSql++\<close>.\<close>

definition lex1 :: "u8 \<Rightarrow> u8 list \<Rightarrow> lexed option" where
  "lex1 c z =
    (if c = 0x3b then Some (Token tkSEMI z)
     else if c = 0x20 \<or> c = 0x0d \<or> c = 0x09 \<or> c = 0x0a \<or> c = 0x0c then Some (Token tkWS z)
     else if c = 0x2f then do {
       d \<leftarrow> rd z 0;
       if d \<noteq> 0x2a then Some (Token tkOTHER z)
       else do {
         r \<leftarrow> skip_comment (drop 1 z);
         e \<leftarrow> rd r 0;
         if e = 0 then Some Unterminated else Some (Token tkWS (drop 2 r)) } }
     else if c = 0x2d then do {
       d \<leftarrow> rd z 0;
       if d \<noteq> 0x2d then Some (Token tkOTHER z)
       else do {
         r \<leftarrow> skip_until 0x0a (c # z);
         e \<leftarrow> rd r 0;
         if e = 0 then Some CommentAtEnd else Some (Token tkWS (drop 1 r)) } }
     else if c = 0x5b then do {
       r \<leftarrow> skip_until 0x5d z;
       e \<leftarrow> rd r 0;
       if e = 0 then Some Unterminated else Some (Token tkOTHER (drop 1 r)) }
     else if c = 0x60 \<or> c = 0x22 \<or> c = 0x27 then do {
       r \<leftarrow> skip_until c z;
       e \<leftarrow> rd r 0;
       if e = 0 then Some Unterminated else Some (Token tkOTHER (drop 1 r)) }
     else if IdChar c then do {
       n \<leftarrow> id_length z;
       t \<leftarrow> id_token (c # z) (n + 1);
       Some (Token t (drop n z)) }
     else Some (Token tkOTHER z))"

lemma skip_until_length: "skip_until q z = Some r \<Longrightarrow> length r \<le> length z"
  by (induction z) (auto split: if_splits)

lemma skip_comment_length: "skip_comment z = Some r \<Longrightarrow> length r \<le> length z"
  by (induction z rule: skip_comment.induct) (auto split: if_splits list.splits)

lemma lex1_length: "lex1 c z = Some (Token t r) \<Longrightarrow> length r \<le> length z"
  by (auto simp: lex1_def rd_def bind_eq_Some_conv split: if_splits dest!: skip_until_length skip_comment_length)

function complete_loop :: "nat \<Rightarrow> u8 list \<Rightarrow> bool option" where
  "complete_loop state [] = None"
| "complete_loop state (c # z) =
    (if c = 0 then Some (state = 1)
     else (case lex1 c z of
             None \<Rightarrow> None
           | Some Unterminated \<Rightarrow> Some False
           | Some CommentAtEnd \<Rightarrow> Some (state = 1)
           | Some (Token t r) \<Rightarrow> complete_loop (next_state state t) r))"
  by pat_completeness auto
termination
  by (relation "measure (\<lambda>(state, z). length z)") (auto dest: lex1_length)

definition sqlite3_complete :: "u8 list \<Rightarrow> bool option" where
  "sqlite3_complete z = complete_loop 0 z"

section \<open>The token sequence of a text\<close>

text \<open>All tokens of a text, or \<open>Some None\<close> when a string or comment is not closed.\<close>

function tokens :: "u8 list \<Rightarrow> tk list option option" where
  "tokens [] = None"
| "tokens (c # z) =
    (if c = 0 then Some (Some [])
     else (case lex1 c z of
             None \<Rightarrow> None
           | Some Unterminated \<Rightarrow> Some None
           | Some CommentAtEnd \<Rightarrow> Some (Some [])
           | Some (Token t r) \<Rightarrow> map_option (map_option (\<lambda>ts. t # ts)) (tokens r)))"
  by pat_completeness auto
termination
  by (relation "measure length") (auto dest: lex1_length)

definition run_dfa :: "nat \<Rightarrow> tk list \<Rightarrow> nat" where
  "run_dfa s ts = foldl next_state s ts"

lemma complete_loop_tokens:
  "complete_loop s z = (case tokens z of None \<Rightarrow> None | Some None \<Rightarrow> Some False
    | Some (Some ts) \<Rightarrow> Some (run_dfa s ts = 1))"
proof (induction s z rule: complete_loop.induct)
  case (2 state c z)
  then show ?case
    by (cases "lex1 c z") (auto simp: run_dfa_def split: lexed.splits option.splits)
qed simp

section \<open>The language\<close>

text \<open>
  The specification, on tokens without white space. A statement that starts with
  \<^verbatim>\<open>CREATE [TEMP...] TRIGGER\<close>, possibly after \<^verbatim>\<open>EXPLAIN\<close> and other tokens, runs to its first
  \<^verbatim>\<open>; END ;\<close>, every other one to its first semicolon.
\<close>

fun create_head :: "tk list \<Rightarrow> tk list option" where
  "create_head (tkTEMP # ts) = create_head ts"
| "create_head (tkTRIGGER # ts) = Some ts"
| "create_head _ = None"

fun explain_head :: "tk list \<Rightarrow> tk list option" where
  "explain_head (tkOTHER # ts) = explain_head ts"
| "explain_head (tkCREATE # ts) = create_head ts"
| "explain_head _ = None"

fun trigger_head :: "tk list \<Rightarrow> tk list option" where
  "trigger_head (tkEXPLAIN # ts) = explain_head ts"
| "trigger_head (tkCREATE # ts) = create_head ts"
| "trigger_head _ = None"

fun after_semi :: "tk list \<Rightarrow> tk list option" where
  "after_semi [] = None"
| "after_semi (t # ts) = (if t = tkSEMI then Some ts else after_semi ts)"

fun after_semi_end_semi :: "tk list \<Rightarrow> tk list option" where
  "after_semi_end_semi [] = None"
| "after_semi_end_semi (t # ts) =
    (if \<exists>r. t # ts = tkSEMI # tkEND # tkSEMI # r then Some (drop 2 ts) else after_semi_end_semi ts)"

definition after_statement :: "tk list \<Rightarrow> tk list option" where
  "after_statement ts = (case trigger_head ts of Some r \<Rightarrow> after_semi_end_semi r | None \<Rightarrow> after_semi ts)"

lemma after_semi_length: "after_semi ts = Some r \<Longrightarrow> length r < length ts"
  by (induction ts) (auto split: if_splits)

lemma after_semi_end_semi_length: "after_semi_end_semi ts = Some r \<Longrightarrow> length r < length ts"
  by (induction ts) (fastforce split: if_splits)+

lemma trigger_head_length: "trigger_head ts = Some r \<Longrightarrow> length r < length ts"
proof -
  have c: "create_head ts = Some r \<Longrightarrow> length r < length ts" for ts
    by (induction ts rule: create_head.induct) auto
  have e: "explain_head ts = Some r \<Longrightarrow> length r < length ts" for ts
    by (induction ts rule: explain_head.induct) (auto dest: c)
  show "trigger_head ts = Some r \<Longrightarrow> length r < length ts"
    by (cases ts rule: trigger_head.cases) (auto dest!: c e)
qed

lemma after_statement_length: "after_statement ts = Some r \<Longrightarrow> length r < length ts"
  by (fastforce simp: after_statement_def split: option.splits
      dest: after_semi_length after_semi_end_semi_length trigger_head_length)

function statements :: "tk list \<Rightarrow> bool" where
  "statements ts \<longleftrightarrow> ts = [] \<or> (case after_statement ts of Some r \<Rightarrow> statements r | None \<Rightarrow> False)"
  by pat_completeness auto
termination
  by (relation "measure length") (auto dest: after_statement_length)

declare statements.simps [simp del]

subsection \<open>What each state accepts\<close>

lemma next_state_eqs [simp]:
  "next_state 0 t = (case t of tkSEMI \<Rightarrow> 1 | tkWS \<Rightarrow> 0 | tkEXPLAIN \<Rightarrow> 3 | tkCREATE \<Rightarrow> 4 | _ \<Rightarrow> 2)"
  "next_state (Suc 0) t = (case t of tkSEMI \<Rightarrow> 1 | tkWS \<Rightarrow> 1 | tkEXPLAIN \<Rightarrow> 3 | tkCREATE \<Rightarrow> 4 | _ \<Rightarrow> 2)"
  "next_state 2 t = (case t of tkSEMI \<Rightarrow> 1 | _ \<Rightarrow> 2)"
  "next_state 3 t = (case t of tkSEMI \<Rightarrow> 1 | tkWS \<Rightarrow> 3 | tkOTHER \<Rightarrow> 3 | tkCREATE \<Rightarrow> 4 | _ \<Rightarrow> 2)"
  "next_state 4 t = (case t of tkSEMI \<Rightarrow> 1 | tkWS \<Rightarrow> 4 | tkTEMP \<Rightarrow> 4 | tkTRIGGER \<Rightarrow> 5 | _ \<Rightarrow> 2)"
  "next_state 5 t = (case t of tkSEMI \<Rightarrow> 6 | _ \<Rightarrow> 5)"
  "next_state 6 t = (case t of tkSEMI \<Rightarrow> 6 | tkWS \<Rightarrow> 6 | tkEND \<Rightarrow> 7 | _ \<Rightarrow> 5)"
  "next_state 7 t = (case t of tkSEMI \<Rightarrow> 1 | tkWS \<Rightarrow> 7 | _ \<Rightarrow> 5)"
  by (cases t; simp add: next_state_def trans_def)+

lemma run_dfa_simps [simp]: "run_dfa s [] = s" "run_dfa s (t # ts) = run_dfa (next_state s t) ts"
  by (simp_all add: run_dfa_def)

text \<open>White space never changes the state.\<close>

lemma run_dfa_ws: "s < 8 \<Longrightarrow> run_dfa s ts = run_dfa s (filter (\<lambda>t. t \<noteq> tkWS) ts)"
proof (induction ts arbitrary: s)
  case (Cons t ts)
  have "s \<in> {0, 1, 2, 3, 4, 5, 6, 7}" using Cons.prems by auto
  then have "next_state s t < 8" "t = tkWS \<Longrightarrow> next_state s t = s" by (auto split: tk.splits)
  then show ?case using Cons.IH Cons.prems by auto
qed simp

definition accepts_after :: "tk list option \<Rightarrow> bool" where
  "accepts_after r = (case r of None \<Rightarrow> False | Some ts \<Rightarrow> run_dfa 1 ts = 1)"

lemma accepts_after_simps [simp]:
  "accepts_after None = False" "accepts_after (Some ts) = (run_dfa 1 ts = 1)"
  by (simp_all add: accepts_after_def)

lemma state2: "run_dfa 2 ts = 1 \<longleftrightarrow> accepts_after (after_semi ts)"
  by (induction ts) (auto split: tk.splits)

lemma state567:
  "tkWS \<notin> set ts \<Longrightarrow> (run_dfa 5 ts = 1 \<longleftrightarrow> accepts_after (after_semi_end_semi ts))
    \<and> (run_dfa 6 ts = 1 \<longleftrightarrow> accepts_after (after_semi_end_semi (tkSEMI # ts)))
    \<and> (run_dfa 7 ts = 1 \<longleftrightarrow> accepts_after (after_semi_end_semi (tkSEMI # tkEND # ts)))"
proof (induction ts)
  case (Cons t ts)
  then show ?case by (cases t; cases ts) (auto split: tk.splits)
qed auto

lemma state4:
  "tkWS \<notin> set ts \<Longrightarrow> run_dfa 4 ts = 1 \<longleftrightarrow>
    accepts_after (case create_head ts of Some r \<Rightarrow> after_semi_end_semi r | None \<Rightarrow> after_semi ts)"
proof (induction ts)
  case (Cons t ts)
  then show ?case using state567 [of ts] state2 [of ts]
    by (cases t) (auto split: option.splits)
qed simp

lemma state3:
  "tkWS \<notin> set ts \<Longrightarrow> run_dfa 3 ts = 1 \<longleftrightarrow>
    accepts_after (case explain_head ts of Some r \<Rightarrow> after_semi_end_semi r | None \<Rightarrow> after_semi ts)"
proof (induction ts)
  case (Cons t ts)
  then show ?case using state4 [of ts] state2 [of ts]
    by (cases t) (auto split: option.splits)
qed simp

lemma state1:
  assumes "tkWS \<notin> set ts" "ts \<noteq> []"
  shows "run_dfa 1 ts = 1 \<longleftrightarrow> accepts_after (after_statement ts)"
proof (cases ts)
  case (Cons t us)
  then show ?thesis using assms state4 [of us] state3 [of us] state2 [of us]
    by (cases t) (auto simp: after_statement_def split: option.splits)
qed (use assms in simp)

lemma after_statement_set: "after_statement ts = Some r \<Longrightarrow> set r \<subseteq> set ts"
proof -
  have c: "create_head ts = Some r \<Longrightarrow> set r \<subseteq> set ts" for ts r
    by (induction ts rule: create_head.induct) auto
  have e: "explain_head ts = Some r \<Longrightarrow> set r \<subseteq> set ts" for ts r
    by (induction ts rule: explain_head.induct) (auto dest: c)
  have t: "trigger_head ts = Some r \<Longrightarrow> set r \<subseteq> set ts" for ts r
    by (cases ts rule: trigger_head.cases) (auto dest!: c e)
  have s: "after_semi ts = Some r \<Longrightarrow> set r \<subseteq> set ts" for ts r
    by (induction ts) (auto split: if_splits)
  have u: "after_semi_end_semi ts = Some r \<Longrightarrow> set r \<subseteq> set ts" for ts r
    by (induction ts) (auto split: if_splits)
  show "after_statement ts = Some r \<Longrightarrow> set r \<subseteq> set ts"
    by (auto simp: after_statement_def split: option.splits dest!: t s u)
qed

lemma run_dfa_statements: "tkWS \<notin> set ts \<Longrightarrow> run_dfa 1 ts = 1 \<longleftrightarrow> statements ts"
proof (induction ts rule: statements.induct)
  case (1 ts)
  show ?case
  proof (cases "ts = [] \<or> after_statement ts = None")
    case True
    then show ?thesis using state1 [of ts] 1(2) by (cases "ts = []") (simp_all add: statements.simps)
  next
    case False
    then obtain r where r: "after_statement ts = Some r" by auto
    then have "tkWS \<notin> set r" using after_statement_set 1(2) by blast
    then show ?thesis using 1 r False state1 [of ts] by (simp add: statements.simps [of ts])
  qed
qed

lemma run_dfa_0: "tkWS \<notin> set ts \<Longrightarrow> run_dfa 0 ts = 1 \<longleftrightarrow> ts \<noteq> [] \<and> statements ts"
  using run_dfa_statements [of ts] by (cases ts) (auto split: tk.splits)

section \<open>Memory safety\<close>

lemma IdChar_0 [simp]: "\<not> IdChar 0"
  by code_simp

lemma skip_until_safe: "0 \<in> set z \<Longrightarrow> \<exists>e r. skip_until q z = Some (e # r) \<and> (e \<noteq> 0 \<longrightarrow> 0 \<in> set r)"
  by (induction z) auto

lemma skip_comment_safe:
  "0 \<in> set z \<Longrightarrow> \<exists>e r. skip_comment z = Some (e # r) \<and> (e \<noteq> 0 \<longrightarrow> 0 \<in> set (drop 1 r))"
proof (induction z rule: skip_comment.induct)
  case (2 c z)
  then show ?case by (cases z) auto
qed simp

lemma id_length_safe: "0 \<in> set z \<Longrightarrow> \<exists>n. id_length z = Some n \<and> n < length z \<and> 0 \<in> set (drop n z)"
  by (induction z) auto

lemma strnicmp_safe: "n \<le> length a \<Longrightarrow> n \<le> length b \<Longrightarrow> \<exists>r. sqlite3_strnicmp a b n = Some r"
  by (induction a b n rule: sqlite3_strnicmp.induct) auto

lemma id_token_safe: "n \<le> length z \<Longrightarrow> z \<noteq> [] \<Longrightarrow> \<exists>t. id_token z n = Some t"
proof -
  assume n: "n \<le> length z" and "z \<noteq> []"
  have k: "\<exists>b. is_kw z n kw = Some b" for kw
    using strnicmp_safe [of "length kw" z kw] n by (auto simp: is_kw_def)
  obtain b1 b2 b3 b4 b5 b6 where "is_kw z n kw_create = Some b1" "is_kw z n kw_trigger = Some b2"
    "is_kw z n kw_temp = Some b3" "is_kw z n kw_temporary = Some b4" "is_kw z n kw_end = Some b5"
    "is_kw z n kw_explain = Some b6"
    using k by metis
  then show ?thesis using \<open>z \<noteq> []\<close> by (simp add: id_token_def rd_def)
qed

lemma lex1_safe:
  assumes "0 \<in> set z" "c \<noteq> 0"
  shows "\<exists>l. lex1 c z = Some l \<and> (\<forall>t r. l = Token t r \<longrightarrow> 0 \<in> set r)"
proof -
  obtain d z' where z: "z = d # z'" using assms(1) by (cases z) auto
  obtain n where n: "id_length z = Some n" "n < length z" "0 \<in> set (drop n z)"
    using id_length_safe [OF assms(1)] by blast
  obtain t where t: "id_token (c # z) (n + 1) = Some t" using id_token_safe [of "n + 1" "c # z"] n(2) by auto
  have cz: "0 \<in> set (c # z)" using assms(1) by simp
  have co: "d = 0x2a \<Longrightarrow> 0 \<in> set z'" using assms(1) z by auto
  obtain e1 r1 where 1: "skip_until 0x5d z = Some (e1 # r1)" "e1 \<noteq> 0 \<longrightarrow> 0 \<in> set r1"
    using skip_until_safe [OF assms(1)] by blast
  obtain e2 r2 where 2: "skip_until c z = Some (e2 # r2)" "e2 \<noteq> 0 \<longrightarrow> 0 \<in> set r2"
    using skip_until_safe [OF assms(1)] by blast
  obtain e3 r3 where 3: "skip_until 0x0a (c # z) = Some (e3 # r3)" "e3 \<noteq> 0 \<longrightarrow> 0 \<in> set r3"
    using skip_until_safe [OF cz] by blast
  have 4: "\<exists>l. lex1 0x2f z = Some l \<and> (\<forall>t r. l = Token t r \<longrightarrow> 0 \<in> set r)"
    using skip_comment_safe [OF co] assms(1) z by (cases "d = 0x2a") (auto simp: lex1_def rd_def)
  have 5: "c = 0x2d \<Longrightarrow> \<exists>l. lex1 c z = Some l \<and> (\<forall>t r. l = Token t r \<longrightarrow> 0 \<in> set r)"
    using 3 assms(1) z by (cases "d = 0x2d") (simp_all add: lex1_def rd_def)
  consider "c = 0x2f" | "c = 0x2d" | "c \<noteq> 0x2f" "c \<noteq> 0x2d" by blast
  then show ?thesis
  proof cases
    case 3
    then show ?thesis using 1 2 n t assms(1) by (simp add: lex1_def rd_def)
  qed (use 4 5 in auto)
qed

lemma tokens_safe: "0 \<in> set z \<Longrightarrow> tokens z \<noteq> None"
proof (induction z rule: tokens.induct)
  case (2 c z)
  show ?case
  proof (cases "c = 0")
    case False
    then have "0 \<in> set z" using 2(2) by simp
    from lex1_safe [OF this False] obtain l where "lex1 c z = Some l" "\<forall>t r. l = Token t r \<longrightarrow> 0 \<in> set r"
      by blast
    then show ?thesis using 2(1) [OF False] False by (cases l) auto
  qed simp
qed simp

section \<open>Properties\<close>

text \<open>
  \<^bold>\<open>C12\<close>: the language of \<^verbatim>\<open>sqlite3_complete\<close>. On every buffer with a terminating zero it returns
  without reading past the terminator, and it says yes exactly when every string and comment
  is closed and the tokens, white space and comments aside, are one or more statements, where a
  statement ends at its first semicolon, or at its first \<^verbatim>\<open>;END;\<close> when it creates a trigger.
\<close>

theorem complete_language:
  assumes "0 \<in> set z"
  shows "\<exists>toks. tokens z = Some toks \<and> sqlite3_complete z = Some (case toks of None \<Rightarrow> False
    | Some ts \<Rightarrow> (let us = filter (\<lambda>t. t \<noteq> tkWS) ts in us \<noteq> [] \<and> statements us))"
proof -
  obtain toks where t: "tokens z = Some toks" using tokens_safe [OF assms] by auto
  have "run_dfa 0 ts = 1 \<longleftrightarrow> (let us = filter (\<lambda>t. t \<noteq> tkWS) ts in us \<noteq> [] \<and> statements us)" for ts
    using run_dfa_ws [of 0 ts] run_dfa_0 [of "filter (\<lambda>t. t \<noteq> tkWS) ts"] by (simp add: Let_def)
  then show ?thesis using t by (auto simp: sqlite3_complete_def complete_loop_tokens split: option.splits)
qed

text \<open>The text \<^verbatim>\<open>"END;"\<close> with its terminator.\<close>

theorem complete_language_witness:
  "\<exists>toks. tokens [0x45, 0x4e, 0x44, 0x3b, 0] = Some toks
    \<and> sqlite3_complete [0x45, 0x4e, 0x44, 0x3b, 0] = Some (case toks of None \<Rightarrow> False
      | Some ts \<Rightarrow> (let us = filter (\<lambda>t. t \<noteq> tkWS) ts in us \<noteq> [] \<and> statements us))"
  using complete_language [of "[0x45, 0x4e, 0x44, 0x3b, 0]"] by simp

end
