(* ===== verification/Tokenize.thy ===== *)
theory Tokenize
  imports UtilStr
begin

text \<open>
  The SQL tokenizer \<^verbatim>\<open>sqlite3GetToken\<close> of \<^verbatim>\<open>tokenize.c\<close>. It is applied to the text from the start
  of a token on, a buffer that holds the terminating zero, and returns the length and the type
  of the token; \<^const>\<open>None\<close> is a read outside the buffer. The keyword table is generated by the
  build (\<^verbatim>\<open>keywordhash.h\<close>): \<^verbatim>\<open>keywordCode\<close> is the parameter \<open>kw\<close>, a function of the identifier.
\<close>

section \<open>Definitions\<close>

datatype tok =
    TK_SPACE | TK_MINUS | TK_LP | TK_RP | TK_SEMI | TK_PLUS | TK_STAR | TK_SLASH | TK_REM | TK_EQ
  | TK_LE | TK_NE | TK_LSHIFT | TK_LT | TK_GE | TK_RSHIFT | TK_GT | TK_ILLEGAL | TK_BITOR | TK_CONCAT
  | TK_COMMA | TK_BITAND | TK_BITNOT | TK_STRING | TK_ID | TK_DOT | TK_INTEGER | TK_FLOAT | TK_VARIABLE
  | TK_REGISTER | TK_BLOB | TK_KEYWORD nat

text \<open>The length of the longest prefix whose bytes all satisfy \<open>P\<close>; it must end inside the buffer.\<close>

fun count_while :: "(u8 \<Rightarrow> bool) \<Rightarrow> u8 list \<Rightarrow> nat option" where
  "count_while P [] = None"
| "count_while P (c # z) = (if P c then map_option Suc (count_while P z) else Some 0)"

text \<open>The loop over a C-style comment, with the previous byte \<open>c\<close>, from index \<open>i\<close> on.\<close>

fun tok_comment :: "u8 \<Rightarrow> u8 list \<Rightarrow> nat \<Rightarrow> (u8 \<times> nat) option" where
  "tok_comment c [] i = None"
| "tok_comment c (d # z) i =
    (if c = 0x2a \<and> d = 0x2f then Some (c, i)
     else if d = 0 then Some (0, i)
     else tok_comment d z (i + 1))"

text \<open>White space, comments, operators and punctuation; \<open>Some None\<close> when \<open>c\<close> starts none of these.\<close>

definition getToken_op :: "u8 \<Rightarrow> u8 list \<Rightarrow> (nat \<times> tok) option option" where
  "getToken_op c z =
    (if c = 0x20 \<or> c = 0x09 \<or> c = 0x0a \<or> c = 0x0c \<or> c = 0x0d then do {
       n \<leftarrow> count_while sqlite3Isspace z;
       Some (Some (n + 1, TK_SPACE)) }
     else if c = 0x2d then do {
       d \<leftarrow> rd z 0;
       if d = 0x2d then do {
         n \<leftarrow> count_while (\<lambda>c. c \<noteq> 0 \<and> c \<noteq> 0x0a) (drop 1 z);
         Some (Some (n + 2, TK_SPACE)) }
       else Some (Some (1, TK_MINUS)) }
     else if c = 0x28 then Some (Some (1, TK_LP))
     else if c = 0x29 then Some (Some (1, TK_RP))
     else if c = 0x3b then Some (Some (1, TK_SEMI))
     else if c = 0x2b then Some (Some (1, TK_PLUS))
     else if c = 0x2a then Some (Some (1, TK_STAR))
     else if c = 0x2f then do {
       d \<leftarrow> rd z 0;
       if d \<noteq> 0x2a then Some (Some (1, TK_SLASH))
       else do {
         e \<leftarrow> rd z 1;
         if e = 0 then Some (Some (1, TK_SLASH))
         else do {
           (c', i) \<leftarrow> tok_comment e (drop 2 z) 3;
           Some (Some (if c' \<noteq> 0 then i + 1 else i, TK_SPACE)) } } }
     else if c = 0x25 then Some (Some (1, TK_REM))
     else if c = 0x3d then do {
       d \<leftarrow> rd z 0;
       Some (Some (1 + (if d = 0x3d then 1 else 0), TK_EQ)) }
     else if c = 0x3c then do {
       d \<leftarrow> rd z 0;
       Some (Some (if d = 0x3d then (2, TK_LE) else if d = 0x3e then (2, TK_NE)
                   else if d = 0x3c then (2, TK_LSHIFT) else (1, TK_LT))) }
     else if c = 0x3e then do {
       d \<leftarrow> rd z 0;
       Some (Some (if d = 0x3d then (2, TK_GE) else if d = 0x3e then (2, TK_RSHIFT) else (1, TK_GT))) }
     else if c = 0x21 then do {
       d \<leftarrow> rd z 0;
       Some (Some (if d \<noteq> 0x3d then (2, TK_ILLEGAL) else (2, TK_NE))) }
     else if c = 0x7c then do {
       d \<leftarrow> rd z 0;
       Some (Some (if d \<noteq> 0x7c then (1, TK_BITOR) else (2, TK_CONCAT))) }
     else if c = 0x2c then Some (Some (1, TK_COMMA))
     else if c = 0x26 then Some (Some (1, TK_BITAND))
     else if c = 0x7e then Some (Some (1, TK_BITNOT))
     else Some None)"

text \<open>The loop over a quoted string from index \<open>i\<close> on; the byte it stops at and its index.\<close>

fun tok_string :: "u8 \<Rightarrow> u8 list \<Rightarrow> nat \<Rightarrow> (u8 \<times> nat) option" where
  "tok_string delim [] i = None"
| "tok_string delim (c # z) i =
    (if c = 0 then Some (c, i)
     else if c = delim then
       (case z of [] \<Rightarrow> None
        | d # z' \<Rightarrow> if d = delim then tok_string delim z' (i + 2) else Some (c, i))
     else tok_string delim z (i + 1))"

definition getToken_quote :: "u8 \<Rightarrow> u8 list \<Rightarrow> (nat \<times> tok) option" where
  "getToken_quote delim z = do {
     (c, i) \<leftarrow> tok_string delim z 1;
     Some (if c = 0x27 then (i + 1, TK_STRING)
           else if c \<noteq> 0 then (i + 1, TK_ID)
           else (i, TK_ILLEGAL)) }"

text \<open>Numbers, on the whole text from the first digit or the decimal point on.\<close>

definition number_fraction :: "u8 list \<Rightarrow> nat \<Rightarrow> (nat \<times> tok) option" where
  "number_fraction z i = do {
     c \<leftarrow> rd z i;
     if c = 0x2e then do {
       m \<leftarrow> count_while sqlite3Isdigit (drop (i + 1) z);
       Some (i + 1 + m, TK_FLOAT) }
     else Some (i, TK_INTEGER) }"

definition number_exponent :: "u8 list \<Rightarrow> nat \<Rightarrow> tok \<Rightarrow> (nat \<times> tok) option" where
  "number_exponent z i ty = do {
     c \<leftarrow> rd z i;
     b \<leftarrow> (if c = 0x65 \<or> c = 0x45 then do {
             d \<leftarrow> rd z (i + 1);
             if sqlite3Isdigit d then Some True
             else if d = 0x2b \<or> d = 0x2d then map_option sqlite3Isdigit (rd z (i + 2))
             else Some False }
           else Some False);
     if b then do {
       m \<leftarrow> count_while sqlite3Isdigit (drop (i + 2) z);
       Some (i + 2 + m, TK_FLOAT) }
     else Some (i, ty) }"

definition getToken_number :: "u8 list \<Rightarrow> (nat \<times> tok) option" where
  "getToken_number z = do {
     i \<leftarrow> count_while sqlite3Isdigit z;
     (i, ty) \<leftarrow> number_fraction z i;
     (i, ty) \<leftarrow> number_exponent z i ty;
     m \<leftarrow> count_while IdChar (drop i z);
     Some (i + m, if m > 0 then TK_ILLEGAL else ty) }"

text \<open>The loop over an identifier in brackets: \<open>c\<close> is the previous byte.\<close>

fun tok_bracket :: "u8 \<Rightarrow> u8 list \<Rightarrow> nat \<Rightarrow> (u8 \<times> nat) option" where
  "tok_bracket c z i =
    (if c = 0x5d then Some (c, i)
     else (case z of [] \<Rightarrow> None
           | d # z' \<Rightarrow> if d = 0 then Some (d, i) else tok_bracket d z' (i + 1)))"

declare tok_bracket.simps [simp del]

definition getToken_bracket :: "u8 list \<Rightarrow> (nat \<times> tok) option" where
  "getToken_bracket z = do {
     (c, i) \<leftarrow> tok_bracket 0x5b z 1;
     Some (i, if c = 0x5d then TK_ID else TK_ILLEGAL) }"

text \<open>Parameter names: the index where the loop ends, the count \<open>n\<close>, and whether a Tcl array index is malformed.\<close>

fun tok_var :: "u8 list \<Rightarrow> nat \<Rightarrow> nat \<Rightarrow> (nat \<times> nat \<times> bool) option" where
  "tok_var [] i n = None"
| "tok_var (c # z) i n =
    (if c = 0 then Some (i, n, False)
     else if IdChar c then tok_var z (i + 1) (n + 1)
     else if c = 0x28 \<and> n > 0 then do {
       k \<leftarrow> count_while (\<lambda>c. c \<noteq> 0 \<and> \<not> sqlite3Isspace c \<and> c \<noteq> 0x29) z;
       d \<leftarrow> rd z k;
       Some (if d = 0x29 then (i + 1 + k + 1, n, False) else (i + 1 + k, n, True)) }
     else if c = 0x3a then
       (case z of [] \<Rightarrow> None
        | d # z' \<Rightarrow> if d = 0x3a then tok_var z' (i + 2) n else Some (i, n, False))
     else Some (i, n, False))"

definition getToken_var :: "u8 list \<Rightarrow> (nat \<times> tok) option" where
  "getToken_var z = do {
     (i, n, bad) \<leftarrow> tok_var z 1 0;
     Some (i, if n = 0 then TK_ILLEGAL else if bad then TK_ILLEGAL else TK_VARIABLE) }"

definition getToken_blob :: "u8 list \<Rightarrow> (nat \<times> tok) option" where
  "getToken_blob z = do {
     n \<leftarrow> count_while sqlite3Isxdigit (drop 2 z);
     c \<leftarrow> rd z (n + 2);
     (i, ty) \<leftarrow> (if c \<noteq> 0x27 \<or> (n + 2) mod 2 \<noteq> 0 then do {
                   m \<leftarrow> count_while (\<lambda>c. c \<noteq> 0 \<and> c \<noteq> 0x27) (drop (n + 2) z);
                   Some (n + 2 + m, TK_ILLEGAL) }
                 else Some (n + 2, TK_BLOB));
     d \<leftarrow> rd z i;
     Some (if d \<noteq> 0 then i + 1 else i, ty) }"

definition getToken_id :: "(u8 list \<Rightarrow> tok) \<Rightarrow> u8 \<Rightarrow> u8 list \<Rightarrow> (nat \<times> tok) option" where
  "getToken_id kw c z =
    (if \<not> IdChar c then Some (1, TK_ILLEGAL)
     else do {
       n \<leftarrow> count_while IdChar z;
       Some (n + 1, kw (c # take n z)) })"

definition sqlite3GetToken :: "(u8 list \<Rightarrow> tok) \<Rightarrow> u8 list \<Rightarrow> (nat \<times> tok) option" where
  "sqlite3GetToken kw s = (case s of [] \<Rightarrow> None | c # z \<Rightarrow> do {
     r \<leftarrow> getToken_op c z;
     case r of Some t \<Rightarrow> Some t
     | None \<Rightarrow>
       if c = 0x60 \<or> c = 0x27 \<or> c = 0x22 then getToken_quote c z
       else if c = 0x2e then do {
         d \<leftarrow> rd z 0;
         if \<not> sqlite3Isdigit d then Some (1, TK_DOT) else getToken_number s }
       else if 0x30 \<le> c \<and> c \<le> 0x39 then getToken_number s
       else if c = 0x5b then getToken_bracket z
       else if c = 0x3f then do {
         n \<leftarrow> count_while sqlite3Isdigit z;
         Some (n + 1, TK_VARIABLE) }
       else if c = 0x23 then do {
         n \<leftarrow> count_while sqlite3Isdigit z;
         if n > 0 then Some (n + 1, TK_REGISTER) else getToken_var z }
       else if c = 0x24 \<or> c = 0x40 \<or> c = 0x3a then getToken_var z
       else if c = 0x78 \<or> c = 0x58 then do {
         d \<leftarrow> rd z 0;
         if d = 0x27 then getToken_blob s else getToken_id kw c z }
       else getToken_id kw c z })"

section \<open>Lengths\<close>

text \<open>The length of the C string in a buffer.\<close>

fun zlen :: "u8 list \<Rightarrow> nat" where
  "zlen [] = 0"
| "zlen (c # z) = (if c = 0 then 0 else Suc (zlen z))"

lemma zlen_length: "0 \<in> set z \<Longrightarrow> zlen z < length z"
  by (induction z) auto

lemma rd_Cons [simp]: "rd (c # z) 0 = Some c" "rd (c # z) (Suc i) = rd z i"
  by (simp_all add: rd_def)

lemma rd_zlen: "0 \<in> set z \<Longrightarrow> i \<le> zlen z \<Longrightarrow> \<exists>c. rd z i = Some c \<and> (c \<noteq> 0 \<longrightarrow> i < zlen z)"
proof (induction z arbitrary: i)
  case (Cons c z)
  then show ?case by (cases i) (auto split: if_splits)
qed simp

lemma drop_zlen: "0 \<in> set z \<Longrightarrow> i \<le> zlen z \<Longrightarrow> 0 \<in> set (drop i z) \<and> zlen (drop i z) = zlen z - i"
proof (induction z arbitrary: i)
  case (Cons c z)
  then show ?case by (cases i) (auto split: if_splits)
qed simp

lemma count_while_safe: "0 \<in> set z \<Longrightarrow> \<not> P 0 \<Longrightarrow> \<exists>n. count_while P z = Some n \<and> n \<le> zlen z"
  by (induction z) auto

lemma count_while_drop:
  "0 \<in> set z \<Longrightarrow> i \<le> zlen z \<Longrightarrow> \<not> P 0 \<Longrightarrow> \<exists>n. count_while P (drop i z) = Some n \<and> i + n \<le> zlen z"
  using count_while_safe [of "drop i z" P] drop_zlen [of z i] by auto

lemma tok_comment_safe:
  "0 \<in> set z \<Longrightarrow> \<exists>c' j. tok_comment c z i = Some (c', j) \<and> i \<le> j \<and> (if c' \<noteq> 0 then j + 1 else j) \<le> i + zlen z"
proof (induction c z i rule: tok_comment.induct)
  case (2 c d z i)
  then show ?case by (cases "c = 0x2a \<and> d = 0x2f"; cases "d = 0") fastforce+
qed simp

lemma tok_string_safe:
  "0 \<in> set z \<Longrightarrow> \<exists>c' j. tok_string q z i = Some (c', j) \<and> i \<le> j \<and> (if c' \<noteq> 0 then j + 1 else j) \<le> i + zlen z"
proof (induction q z i rule: tok_string.induct)
  case (2 q c z i)
  show ?case
  proof (cases "c = 0")
    case False
    show ?thesis
    proof (cases "c = q")
      case True
      then obtain d z' where z: "z = d # z'" using 2(3) False by (cases z) auto
      show ?thesis
      proof (cases "d = q")
        case True
        with 2(1) [OF False \<open>c = q\<close> z True] 2(3) False \<open>c = q\<close> z show ?thesis by fastforce
      qed (use True False z in auto)
    qed (use 2(2) 2(3) False in fastforce)
  qed simp
qed simp

lemma tok_bracket_safe:
  "0 \<in> set z \<Longrightarrow> \<exists>c' j. tok_bracket c z i = Some (c', j) \<and> i \<le> j \<and> j \<le> i + zlen z"
proof (induction z arbitrary: c i)
  case (Cons d z)
  show ?case
  proof (cases "c = 0x5d \<or> d = 0")
    case True
    then show ?thesis by (auto simp: tok_bracket.simps [of c])
  next
    case False
    then have "0 \<in> set z" using Cons.prems by simp
    from Cons.IH [OF this, of d "i + 1"] show ?thesis using False by (auto simp: tok_bracket.simps [of c])
  qed
qed simp

lemma ctype_zero [simp]: "\<not> IdChar 0" "\<not> sqlite3Isdigit 0" "\<not> sqlite3Isspace 0" "\<not> sqlite3Isxdigit 0"
  by code_simp+

lemma tok_var_safe:
  "0 \<in> set z \<Longrightarrow> \<exists>j n' b. tok_var z i n = Some (j, n', b) \<and> i \<le> j \<and> j \<le> i + zlen z"
proof (induction z i n rule: tok_var.induct)
  case (2 c z i n)
  show ?case
  proof (cases "c = 0")
    case False
    then have z0: "0 \<in> set z" using 2(3) by simp
    obtain d z' where z: "z = d # z'" using z0 by (cases z) auto
    obtain k where k: "count_while (\<lambda>c. c \<noteq> 0 \<and> \<not> sqlite3Isspace c \<and> c \<noteq> 0x29) z = Some k" "k \<le> zlen z"
      using count_while_safe [OF z0, of "\<lambda>c. c \<noteq> 0 \<and> \<not> sqlite3Isspace c \<and> c \<noteq> 0x29"] by auto
    obtain e where e: "rd z k = Some e" "e \<noteq> 0 \<longrightarrow> k < zlen z" using rd_zlen [OF z0 k(2)] by blast
    show ?thesis
    proof (cases "IdChar c")
      case True
      then show ?thesis using 2(1) [OF False True z0] False by fastforce
    next
      case nid: False
      show ?thesis
      proof (cases "c = 0x28 \<and> n > 0")
        case True
        then show ?thesis using False nid k e by auto
      next
        case np: False
        show ?thesis
        proof (cases "c = 0x3a \<and> d = 0x3a")
          case True
          then have "0 \<in> set z'" using z0 z by auto
          then show ?thesis using 2(2) [OF False nid np _ z] True False nid np z by fastforce
        qed (use False nid np z in auto)
      qed
    qed
  qed auto
qed simp

lemma number_fraction_safe:
  assumes "0 \<in> set z" "i \<le> zlen z"
  shows "\<exists>j t. number_fraction z i = Some (j, t) \<and> i \<le> j \<and> j \<le> zlen z"
proof -
  obtain c where c: "rd z i = Some c" "c \<noteq> 0 \<longrightarrow> i < zlen z" using rd_zlen [OF assms] by blast
  then show ?thesis
    using count_while_drop [OF assms(1), of "i + 1" sqlite3Isdigit] assms(2)
    by (cases "c = 0x2e") (auto simp: number_fraction_def)
qed

lemma number_exponent_safe:
  assumes "0 \<in> set z" "i \<le> zlen z"
  shows "\<exists>j t. number_exponent z i ty = Some (j, t) \<and> i \<le> j \<and> j \<le> zlen z"
proof -
  obtain c where c: "rd z i = Some c" "c \<noteq> 0 \<longrightarrow> i < zlen z" using rd_zlen [OF assms] by blast
  show ?thesis
  proof (cases "c = 0x65 \<or> c = 0x45")
    case False
    then show ?thesis using c assms(2) by (auto simp: number_exponent_def)
  next
    case True
    then have "i + 1 \<le> zlen z" using c by auto
    then obtain d where d: "rd z (i + 1) = Some d" "d \<noteq> 0 \<longrightarrow> i + 1 < zlen z" using rd_zlen [OF assms(1)] by blast
    show ?thesis
    proof (cases "d = 0")
      case True
      then show ?thesis using c d assms(2) by (auto simp: number_exponent_def)
    next
      case False
      then have i2: "i + 2 \<le> zlen z" using d by simp
      obtain e where e: "rd z (i + 2) = Some e" using rd_zlen [OF assms(1) i2] by blast
      obtain n where n: "count_while sqlite3Isdigit (drop (i + 2) z) = Some n" "i + 2 + n \<le> zlen z"
        using count_while_drop [OF assms(1) i2, of sqlite3Isdigit] by auto
      then show ?thesis
        using c(1) d(1) e assms(2) True
        by (cases "sqlite3Isdigit d \<or> (d = 0x2b \<or> d = 0x2d) \<and> sqlite3Isdigit e") (auto simp: number_exponent_def)
    qed
  qed
qed

lemma getToken_number_safe:
  assumes "0 \<in> set z"
  shows "\<exists>n t. getToken_number z = Some (n, t) \<and> n \<le> zlen z \<and> (\<forall>c z'. z = c # z' \<longrightarrow> sqlite3Isdigit c \<or> c = 0x2e \<longrightarrow> 1 \<le> n)"
proof -
  obtain i where i: "count_while sqlite3Isdigit z = Some i" "i \<le> zlen z" using count_while_safe [OF assms, of sqlite3Isdigit] by auto
  obtain j t where j: "number_fraction z i = Some (j, t)" "i \<le> j" "j \<le> zlen z"
    using number_fraction_safe [OF assms i(2)] by blast
  obtain k t' where k: "number_exponent z j t = Some (k, t')" "j \<le> k" "k \<le> zlen z"
    using number_exponent_safe [OF assms j(3)] by blast
  obtain m where m: "count_while IdChar (drop k z) = Some m" "k + m \<le> zlen z"
    using count_while_drop [OF assms k(3), of IdChar] by auto
  have j1: "1 \<le> j" if "z = c # z'" "sqlite3Isdigit c \<or> c = 0x2e" for c z'
  proof (cases "sqlite3Isdigit c")
    case True
    then show ?thesis using i(1) j(2) that(1) by auto
  next
    case False
    then show ?thesis using i(1) j(1) that by (auto simp: number_fraction_def rd_def bind_eq_Some_conv)
  qed
  have "getToken_number z = Some (k + m, if m > 0 then TK_ILLEGAL else t')"
    by (simp add: getToken_number_def i(1) j(1) k(1) m(1))
  moreover have "1 \<le> k + m" if "z = c # z'" "sqlite3Isdigit c \<or> c = 0x2e" for c z'
    using j1 [OF that] k(2) by simp
  ultimately show ?thesis using m(2) by blast
qed

text \<open>
  A token of a text with string length \<open>L\<close> has a length between 1 and \<open>L\<close>, with one exception:
  a final exclamation mark is a token of length 2, which includes the terminator.
\<close>

definition tok_ok :: "u8 list \<Rightarrow> nat \<times> tok \<Rightarrow> bool" where
  "tok_ok z r \<longleftrightarrow> 1 \<le> fst r \<and>
     (fst r \<le> zlen z \<or> zlen z = 1 \<and> rd z 0 = Some 0x21 \<and> r = (2, TK_ILLEGAL))"

lemma tok_okI: "1 \<le> n \<Longrightarrow> n \<le> zlen z \<Longrightarrow> tok_ok z (n, t)"
  by (simp add: tok_ok_def)

lemma getToken_op_safe:
  assumes z: "0 \<in> set z" and c: "c \<noteq> 0"
  shows "\<exists>r. getToken_op c z = Some r \<and> (\<forall>t. r = Some t \<longrightarrow> tok_ok (c # z) t)"
proof -
  obtain d z' where zd: "z = d # z'" using z by (cases z) auto
  obtain n where n: "count_while sqlite3Isspace z = Some n" "n \<le> zlen z"
    using count_while_safe [OF z, of sqlite3Isspace] by auto
  have cm: "\<exists>n. count_while (\<lambda>c. c \<noteq> 0 \<and> c \<noteq> 0x0a) z' = Some n \<and> n \<le> zlen z'" if "d \<noteq> 0"
    using count_while_safe [of z' "\<lambda>c. c \<noteq> 0 \<and> c \<noteq> 0x0a"] z zd that by auto
  have bc: "\<exists>r. getToken_op 0x2f z = Some r \<and> (\<forall>t. r = Some t \<longrightarrow> tok_ok (0x2f # z) t)"
  proof (cases "d = 0x2a")
    case True
    then have "0 \<in> set z'" using z zd by auto
    then obtain e z'' where z': "z' = e # z''" by (cases z') auto
    show ?thesis
    proof (cases "e = 0")
      case False
      then have "0 \<in> set z''" using \<open>0 \<in> set z'\<close> z' by auto
      from tok_comment_safe [OF this, of e 3]
      obtain c' j where "tok_comment e z'' 3 = Some (c', j)" "3 \<le> j" "(if c' \<noteq> 0 then j + 1 else j) \<le> 3 + zlen z''"
        by blast
      then show ?thesis using True zd z' False by (auto simp: getToken_op_def tok_ok_def)
    qed (use True zd z' in \<open>simp add: getToken_op_def tok_ok_def\<close>)
  qed (use zd in \<open>simp add: getToken_op_def tok_ok_def\<close>)
  consider "c = 0x2f" | "c = 0x2d" | "c = 0x21" | "c \<noteq> 0x2f" "c \<noteq> 0x2d" "c \<noteq> 0x21" by blast
  then show ?thesis
  proof cases
    case 2
    then show ?thesis using cm zd by (cases "d = 0x2d") (auto simp: getToken_op_def tok_ok_def)
  next
    case 3
    then show ?thesis using zd by (simp add: getToken_op_def tok_ok_def)
  next
    case 4
    then show ?thesis using n zd c by (simp add: getToken_op_def tok_ok_def)
  qed (use bc in simp)
qed

lemma getToken_quote_safe:
  assumes "0 \<in> set z" "c \<noteq> 0"
  shows "\<exists>r. getToken_quote c z = Some r \<and> tok_ok (c # z) r"
proof -
  obtain c' j where "tok_string c z 1 = Some (c', j)" "1 \<le> j" "(if c' \<noteq> 0 then j + 1 else j) \<le> 1 + zlen z"
    using tok_string_safe [OF assms(1), of c 1] by blast
  then show ?thesis using assms(2) by (auto simp: getToken_quote_def tok_ok_def split: if_splits)
qed

lemma getToken_blob_safe:
  assumes "0 \<in> set z" "c \<noteq> 0"
  shows "\<exists>r. getToken_blob (c # 0x27 # z) = Some r \<and> tok_ok (c # 0x27 # z) r"
proof -
  let ?s = "c # 0x27 # z"
  have s0: "0 \<in> set ?s" and s2: "2 \<le> zlen ?s" using assms by auto
  obtain n where n: "count_while sqlite3Isxdigit (drop 2 ?s) = Some n" "2 + n \<le> zlen ?s"
    using count_while_drop [OF s0 s2, of sqlite3Isxdigit] by auto
  obtain e where e: "rd ?s (n + 2) = Some e" using rd_zlen [OF s0 n(2)] by (auto simp: add.commute)
  obtain m where m: "count_while (\<lambda>c. c \<noteq> 0 \<and> c \<noteq> 0x27) (drop (n + 2) ?s) = Some m" "n + 2 + m \<le> zlen ?s"
    using count_while_drop [OF s0 n(2), of "\<lambda>c. c \<noteq> 0 \<and> c \<noteq> 0x27"] by (auto simp: add.commute)
  define i where "i = (if e \<noteq> 0x27 \<or> (n + 2) mod 2 \<noteq> 0 then n + 2 + m else n + 2)"
  have i: "i \<le> zlen ?s" "2 \<le> i" using n(2) m(2) by (auto simp: i_def)
  obtain d where d: "rd ?s i = Some d" "d \<noteq> 0 \<longrightarrow> i < zlen ?s" using rd_zlen [OF s0 i(1)] by blast
  have "\<exists>ty. getToken_blob ?s = Some (if d \<noteq> 0 then i + 1 else i, ty)"
    unfolding getToken_blob_def n(1) e m(1) bind.bind_lunit
    using d(1) by (cases "e \<noteq> 0x27 \<or> (n + 2) mod 2 \<noteq> 0") (simp_all add: i_def del: rd_Cons drop_Suc_Cons)
  then show ?thesis using i d(2) by (auto simp: tok_ok_def)
qed

lemma getToken_id_safe:
  assumes "0 \<in> set z" "c \<noteq> 0"
  shows "\<exists>r. getToken_id kw c z = Some r \<and> tok_ok (c # z) r"
proof -
  obtain n where "count_while IdChar z = Some n" "n \<le> zlen z" using count_while_safe [OF assms(1), of IdChar] by auto
  then show ?thesis using assms(2) by (simp add: getToken_id_def tok_ok_def)
qed

lemma digit_range: "0x30 \<le> c \<and> c \<le> 0x39 \<Longrightarrow> sqlite3Isdigit c"
  by (auto simp: sqlite3Isdigit_def ctype_eq word_le_def)

lemma sqlite3GetToken_safe:
  assumes "0 \<in> set z" "c \<noteq> 0"
  shows "\<exists>r. sqlite3GetToken kw (c # z) = Some r \<and> tok_ok (c # z) r"
proof -
  obtain d z' where zd: "z = d # z'" using assms(1) by (cases z) auto
  then have rd0: "rd z 0 = Some d" by simp
  obtain n where n: "count_while sqlite3Isdigit z = Some n" "n \<le> zlen z"
    using count_while_safe [OF assms(1), of sqlite3Isdigit] by auto
  obtain r where r: "getToken_op c z = Some r" "\<forall>t. r = Some t \<longrightarrow> tok_ok (c # z) t"
    using getToken_op_safe [OF assms] by blast
  have num: "\<exists>r. getToken_number (c # z) = Some r \<and> tok_ok (c # z) r" if "sqlite3Isdigit c \<or> c = 0x2e"
    using getToken_number_safe [of "c # z"] assms that by (auto simp: tok_ok_def)
  have br: "\<exists>r. getToken_bracket z = Some r \<and> tok_ok (c # z) r"
    using tok_bracket_safe [OF assms(1), of "0x5b" 1] assms(2) by (auto simp: getToken_bracket_def tok_ok_def)
  have vr: "\<exists>r. getToken_var z = Some r \<and> tok_ok (c # z) r"
    using tok_var_safe [OF assms(1), of 1 0] assms(2) by (auto simp: getToken_var_def tok_ok_def)
  have bl: "\<exists>r. getToken_blob (c # z) = Some r \<and> tok_ok (c # z) r" if "d = 0x27"
    using getToken_blob_safe [of z' c] assms zd that by auto
  note facts = num br vr bl getToken_quote_safe [OF assms] getToken_id_safe [OF assms, of kw]
  show ?thesis
  proof (cases r)
    case (Some t)
    then show ?thesis using r by (simp add: sqlite3GetToken_def)
  next
    case None
    have e: "sqlite3GetToken kw (c # z) =
       (if c = 0x60 \<or> c = 0x27 \<or> c = 0x22 then getToken_quote c z
       else if c = 0x2e then (if \<not> sqlite3Isdigit d then Some (1, TK_DOT) else getToken_number (c # z))
       else if 0x30 \<le> c \<and> c \<le> 0x39 then getToken_number (c # z)
       else if c = 0x5b then getToken_bracket z
       else if c = 0x3f then Some (n + 1, TK_VARIABLE)
       else if c = 0x23 then (if n > 0 then Some (n + 1, TK_REGISTER) else getToken_var z)
       else if c = 0x24 \<or> c = 0x40 \<or> c = 0x3a then getToken_var z
       else if c = 0x78 \<or> c = 0x58 then (if d = 0x27 then getToken_blob (c # z) else getToken_id kw c z)
       else getToken_id kw c z)"
      using None r(1) n(1) rd0 by (simp add: sqlite3GetToken_def)
    have "tok_ok (c # z) (n + 1, t)" "tok_ok (c # z) (1, t)" for t using n(2) assms(2) by (auto simp: tok_ok_def)
    then show ?thesis unfolding e using facts digit_range by (auto split: if_splits)
  qed
qed

section \<open>The loop of \<^verbatim>\<open>sqlite3RunParser\<close>\<close>

text \<open>
  The grammar actions are generated by the build (\<^verbatim>\<open>parse.c\<close>): \<^verbatim>\<open>sqlite3Parser\<close> is the parameter
  \<open>parse\<close>, which takes the state of the engine, a token (\<^const>\<open>None\<close> at the end of the input) and
  its text, and returns the new state, \<^verbatim>\<open>pParse->rc\<close> and \<^verbatim>\<open>db->mallocFailed\<close>. The flag
  \<^verbatim>\<open>db->u1.isInterrupted\<close> as read at index \<open>i\<close> of the text is \<open>intr i\<close>, and \<open>ok\<close> says whether the
  parser engine can be allocated. Error message texts are not modelled.
\<close>

type_synonym 'p engine = "'p \<Rightarrow> tok option \<Rightarrow> u8 list \<Rightarrow> 'p \<times> rc \<times> bool"

record 'p run_parser =
  rp_eng :: 'p
  rp_rc :: rc
  rp_failed :: bool
  rp_tail :: nat
  rp_last :: "tok option"
  rp_nErr :: nat
  rp_tok :: "u8 list"

abbreviation (input) SQLITE_INTERRUPT :: rc where "SQLITE_INTERRUPT \<equiv> 9"
abbreviation (input) SQLITE_TOOBIG :: rc where "SQLITE_TOOBIG \<equiv> 18"

definition rp_feed :: "'p engine \<Rightarrow> 'p run_parser \<Rightarrow> tok option \<Rightarrow> u8 list \<Rightarrow> 'p run_parser" where
  "rp_feed parse st t txt = (case parse (rp_eng st) t txt of
     (p, r, mf) \<Rightarrow> st\<lparr>rp_eng := p, rp_rc := r, rp_failed := mf\<rparr>)"

text \<open>
  The loop, up to \<^verbatim>\<open>abort_parse\<close>; it returns the index and the state there. Every turn consumes
  at least one byte, so the length of the buffer is enough fuel.
\<close>

fun runParser_loop :: "'p engine \<Rightarrow> (u8 list \<Rightarrow> tok) \<Rightarrow> nat \<Rightarrow> (nat \<Rightarrow> bool) \<Rightarrow> u8 list \<Rightarrow> nat \<Rightarrow> nat \<Rightarrow> 'p run_parser
    \<Rightarrow> (nat \<times> 'p run_parser) option" where
  "runParser_loop parse kw mx intr z 0 i st = None"
| "runParser_loop parse kw mx intr z (Suc f) i st =
    (if rp_failed st then Some (i, st)
     else do {
       c \<leftarrow> rd z i;
       if c = 0 then Some (i, st)
       else do {
         (n, ty) \<leftarrow> sqlite3GetToken kw (drop i z);
         let st = st\<lparr>rp_tok := take n (drop i z)\<rparr>;
         if i + n > mx then Some (i + n, st\<lparr>rp_rc := SQLITE_TOOBIG\<rparr>)
         else if ty = TK_SPACE then
           (if intr i then Some (i + n, st\<lparr>rp_rc := SQLITE_INTERRUPT\<rparr>)
            else runParser_loop parse kw mx intr z f (i + n) st)
         else if ty = TK_ILLEGAL then Some (i + n, st\<lparr>rp_nErr := rp_nErr st + 1\<rparr>)
         else
           let st1 = (if ty = TK_SEMI then st\<lparr>rp_tail := i + n\<rparr> else st);
               st2 = (rp_feed parse st1 (Some ty) (rp_tok st1))\<lparr>rp_last := Some ty\<rparr> in
           if rp_rc st2 \<noteq> SQLITE_OK then Some (i + n, st2)
           else runParser_loop parse kw mx intr z f (i + n) st2 } })"

definition sqlite3RunParser :: "bool \<Rightarrow> 'p engine \<Rightarrow> (u8 list \<Rightarrow> tok) \<Rightarrow> nat \<Rightarrow> (nat \<Rightarrow> bool) \<Rightarrow> 'p \<Rightarrow> u8 list \<Rightarrow> 'p run_parser option" where
  "sqlite3RunParser ok parse kw mx intr eng z = (
     let st0 = \<lparr>rp_eng = eng, rp_rc = SQLITE_OK, rp_failed = False, rp_tail = 0, rp_last = None, rp_nErr = 0, rp_tok = []\<rparr> in
     if \<not> ok then Some (st0\<lparr>rp_failed := True\<rparr>) else do {
     (i, st) \<leftarrow> runParser_loop parse kw mx intr z (length z) 0 st0;
     c \<leftarrow> rd z i;
     let st1 = (if c = 0 \<and> rp_nErr st = 0 \<and> rp_rc st = SQLITE_OK then
                  let st2 = (if rp_last st \<noteq> Some TK_SEMI then (rp_feed parse st (Some TK_SEMI) (rp_tok st))\<lparr>rp_tail := i\<rparr> else st) in
                  rp_feed parse st2 None (rp_tok st2)
                else st);
     Some (if rp_failed st1 then st1\<lparr>rp_rc := SQLITE_NOMEM\<rparr> else st1) })"

lemma runParser_loop_safe:
  assumes z: "0 \<in> set z" and bang: "zlen z = 0 \<or> rd z (zlen z - 1) \<noteq> Some 0x21"
    and "i \<le> zlen z" "zlen z < f + i"
  shows "\<exists>j st'. runParser_loop parse kw mx intr z f i st = Some (j, st') \<and> j \<le> zlen z"
  using assms(3,4)
proof (induction f arbitrary: i st)
  case (Suc f)
  obtain c where c: "rd z i = Some c" "c \<noteq> 0 \<longrightarrow> i < zlen z" using rd_zlen [OF z Suc.prems(1)] by blast
  show ?case
  proof (cases "rp_failed st \<or> c = 0")
    case True
    then show ?thesis using c Suc.prems(1) by auto
  next
    case False
    then have i: "i < zlen z" using c by simp
    have dz: "0 \<in> set (drop i z)" "zlen (drop i z) = zlen z - i" using drop_zlen [OF z Suc.prems(1)] by auto
    obtain y where y: "drop i z = c # y" using c(1) i zlen_length [OF z]
      by (metis Cons_nth_drop_Suc less_trans rd_Some option.inject)
    then have "0 \<in> set y" using dz(1) False by simp
    then obtain n ty where t: "sqlite3GetToken kw (drop i z) = Some (n, ty)" "tok_ok (drop i z) (n, ty)"
      using sqlite3GetToken_safe [of y c kw] False y by auto
    have "\<not> (zlen (drop i z) = 1 \<and> rd (drop i z) 0 = Some 0x21)"
    proof
      assume *: "zlen (drop i z) = 1 \<and> rd (drop i z) 0 = Some 0x21"
      then have "zlen z - 1 = i" using dz(2) i by linarith
      then show False using bang * c(1) y i by auto
    qed
    then have n: "1 \<le> n" "i + n \<le> zlen z" using t(2) dz(2) i by (auto simp: tok_ok_def)
    then have "\<exists>j st'. runParser_loop parse kw mx intr z f (i + n) st0 = Some (j, st') \<and> j \<le> zlen z" for st0
      using Suc.IH [of "i + n" st0] Suc.prems(2) by simp
    then show ?thesis using False c(1) t(1) n(2) by (simp add: Let_def)
  qed
qed simp

section \<open>Literals\<close>

lemma tok_string_esc:
  "0 \<notin> set s \<Longrightarrow> q \<noteq> 0 \<Longrightarrow> d \<noteq> q \<Longrightarrow> tok_string q (esc q s @ q # d # r) i = Some (q, i + length (esc q s))"
  by (induction s arbitrary: i) auto

lemma count_while_all: "\<forall>c \<in> set s. P c \<Longrightarrow> \<not> P d \<Longrightarrow> count_while P (s @ d # r) = Some (length s)"
  by (induction s) auto

lemma hexdigits_xdigit: "set hexdigits \<subseteq> Collect sqlite3Isxdigit"
  by code_simp

lemma hexFunc_loop_digits: "length (hexFunc_loop b) = 2 * length b \<and> (\<forall>c \<in> set (hexFunc_loop b). sqlite3Isxdigit c)"
proof (induction b)
  case (Cons c b)
  have "unat (w AND 0xf) < length hexdigits" for w :: u8
  proof -
    have "w AND 0xf \<le> 0xf" by (rule word_and_le1)
    then show ?thesis by (simp add: word_le_nat_alt hexdigits_def)
  qed
  then have "sqlite3Isxdigit (hexdigits ! unat (w AND 0xf))" for w :: u8
    using subsetD [OF hexdigits_xdigit nth_mem] by simp
  then show ?case using Cons by simp
qed simp

section \<open>Properties\<close>

text \<open>
  \<^bold>\<open>C32\<close>: one token. On every non-empty text with a terminating zero \<^verbatim>\<open>sqlite3GetToken\<close> stays inside
  the buffer, ends, and returns a token of at least one byte that does not reach beyond the
  text, except for a text that is a single exclamation mark, where it returns 2.
\<close>

theorem get_token_bounds:
  assumes "0 \<in> set z" "c \<noteq> 0"
  shows "\<exists>n t. sqlite3GetToken kw (c # z) = Some (n, t) \<and> 1 \<le> n \<and>
    (n \<le> zlen (c # z) \<or> c = 0x21 \<and> zlen (c # z) = 1 \<and> n = 2 \<and> t = TK_ILLEGAL)"
  using sqlite3GetToken_safe [OF assms, of kw] by (auto simp: tok_ok_def)

theorem get_token_bounds_witness:
  "\<exists>n t. sqlite3GetToken (\<lambda>_. TK_ID) [0x31, 0x2e, 0x35, 0] = Some (n, t) \<and> 1 \<le> n \<and> n \<le> 3"
  using get_token_bounds [where z = "[0x2e, 0x35, 0]" and c = "0x31" and kw = "\<lambda>_. TK_ID"]
  by (simp add: numeral_3_eq_3)

text \<open>
  \<^bold>\<open>C23\<close>: the loop that feeds the parser. Whatever the grammar actions, the keyword table, the
  length limit and the interrupts do, \<^verbatim>\<open>sqlite3RunParser\<close> ends and never reads outside the text,
  provided that the text does not end with an exclamation mark.
\<close>

theorem run_parser_safe:
  assumes "0 \<in> set z" "zlen z = 0 \<or> rd z (zlen z - 1) \<noteq> Some 0x21"
  shows "\<exists>st. sqlite3RunParser ok parse kw mx intr eng z = Some st"
proof -
  let ?st = "\<lparr>rp_eng = eng, rp_rc = SQLITE_OK, rp_failed = False, rp_tail = 0, rp_last = None, rp_nErr = 0, rp_tok = []\<rparr>"
  obtain j st' where 1: "runParser_loop parse kw mx intr z (length z) 0 ?st = Some (j, st')" "j \<le> zlen z"
    using runParser_loop_safe [OF assms, of 0 "length z" parse kw mx intr ?st] zlen_length [OF assms(1)] by auto
  obtain c where "rd z j = Some c" using rd_zlen [OF assms(1) 1(2)] by blast
  then show ?thesis using 1(1) by (simp add: sqlite3RunParser_def Let_def)
qed

theorem run_parser_safe_witness:
  "\<exists>st. sqlite3RunParser True (\<lambda>p t s. (t # p, 0, False)) (\<lambda>_. TK_ID) 100 (\<lambda>_. False) [] [0x61, 0x3b, 0] = Some st"
  by (rule run_parser_safe) (simp_all add: rd_def)



text \<open>
  literals. What \<^verbatim>\<open>quote()\<close> prints for a text is one string token, and what it prints for a
  blob is one blob token, of its full length: both read back as a single literal.
\<close>

theorem quote_is_one_token:
  assumes "0 \<notin> set s"
  shows "\<exists>q p. quoteFunc_text True junk (Some (s @ [0])) = Some (Some q)
    \<and> sqlite3GetToken kw q = Some (length q - 1, TK_STRING)
    \<and> quoteFunc_blob True b = Some p \<and> sqlite3GetToken kw p = Some (length p - 1, TK_BLOB)"
proof -
  have q: "quoteFunc_text True junk (Some (s @ [0])) = Some (Some (0x27 # esc 0x27 s @ [0x27, 0]))"
    by (rule quoteFunc_text_eq [OF assms])
  have "tok_string 0x27 (esc 0x27 s @ [0x27, 0]) 1 = Some (0x27, 1 + length (esc 0x27 s))"
    by (rule tok_string_esc) (use assms in simp_all)
  then have t: "sqlite3GetToken kw (0x27 # esc 0x27 s @ [0x27, 0]) = Some (length (0x27 # esc 0x27 s @ [0x27, 0]) - 1, TK_STRING)"
    by (simp add: sqlite3GetToken_def getToken_op_def getToken_quote_def)
  let ?p = "0x58 # 0x27 # hexFunc_loop b @ [0x27, 0]"
  have x: "\<not> sqlite3Isxdigit 0x27" by code_simp
  have "count_while sqlite3Isxdigit (hexFunc_loop b @ [0x27, 0]) = Some (2 * length b)"
    using count_while_all [of "hexFunc_loop b" sqlite3Isxdigit "0x27" "[0]"] hexFunc_loop_digits [of b] x by simp
  moreover have "rd ?p (2 * length b + 2) = Some 0x27"
    using hexFunc_loop_digits [of b] by (simp add: rd_def nth_append)
  ultimately have "getToken_blob ?p = Some (2 * length b + 3, TK_BLOB)"
    by (simp add: getToken_blob_def del: rd_Cons)
  then have "sqlite3GetToken kw ?p = Some (length ?p - 1, TK_BLOB)"
    using hexFunc_loop_digits [of b] by (simp add: sqlite3GetToken_def getToken_op_def)
  then show ?thesis using q t by (simp add: quoteFunc_blob_def)
qed

end
