(* ===== verification/Utf.thy ===== *)
theory Utf
  imports Sqlite_Prelude
begin

text \<open>
  The character codec of \<^verbatim>\<open>utf.c\<close>: the macros that read and write one code point in
  UTF-8, UTF-16LE and UTF-16BE, \<^verbatim>\<open>sqlite3Utf8Read\<close>, and the length and clean-up routines
  built on them. A code point is the \<^typ>\<open>u32\<close> register \<^verbatim>\<open>c\<close> of the C code. A writing macro
  is the list of the bytes it stores through \<^verbatim>\<open>*zOut++\<close>; a reading macro takes the buffer and
  the position of \<^verbatim>\<open>zIn\<close> and returns the code point and the new position, or \<^const>\<open>None\<close> when it
  would read outside the buffer.
\<close>

section \<open>Writing\<close>

definition sqlite3Utf8Trans1 :: "u8 list" where
  "sqlite3Utf8Trans1 = [
    0x00, 0x01, 0x02, 0x03, 0x04, 0x05, 0x06, 0x07,
    0x08, 0x09, 0x0a, 0x0b, 0x0c, 0x0d, 0x0e, 0x0f,
    0x10, 0x11, 0x12, 0x13, 0x14, 0x15, 0x16, 0x17,
    0x18, 0x19, 0x1a, 0x1b, 0x1c, 0x1d, 0x1e, 0x1f,
    0x00, 0x01, 0x02, 0x03, 0x04, 0x05, 0x06, 0x07,
    0x08, 0x09, 0x0a, 0x0b, 0x0c, 0x0d, 0x0e, 0x0f,
    0x00, 0x01, 0x02, 0x03, 0x04, 0x05, 0x06, 0x07,
    0x00, 0x01, 0x02, 0x03, 0x00, 0x01, 0x00, 0x00]"

definition WRITE_UTF8 :: "u32 \<Rightarrow> u8 list" where
  "WRITE_UTF8 c =
    (if c < 0x00080 then [ucast (c AND 0xFF)]
     else if c < 0x00800 then
       [0xC0 + ucast (drop_bit 6 c AND 0x1F),
        0x80 + ucast (c AND 0x3F)]
     else if c < 0x10000 then
       [0xE0 + ucast (drop_bit 12 c AND 0x0F),
        0x80 + ucast (drop_bit 6 c AND 0x3F),
        0x80 + ucast (c AND 0x3F)]
     else
       [0xF0 + ucast (drop_bit 18 c AND 0x07),
        0x80 + ucast (drop_bit 12 c AND 0x3F),
        0x80 + ucast (drop_bit 6 c AND 0x3F),
        0x80 + ucast (c AND 0x3F)])"

definition WRITE_UTF16LE :: "u32 \<Rightarrow> u8 list" where
  "WRITE_UTF16LE c =
    (if c \<le> 0xFFFF then
       [ucast (c AND 0x00FF),
        ucast (drop_bit 8 c AND 0x00FF)]
     else
       [ucast ((drop_bit 10 c AND 0x003F) + (drop_bit 10 (c - 0x10000) AND 0x00C0)),
        ucast (0x00D8 + (drop_bit 18 (c - 0x10000) AND 0x03)),
        ucast (c AND 0x00FF),
        ucast (0x00DC + (drop_bit 8 c AND 0x03))])"

definition WRITE_UTF16BE :: "u32 \<Rightarrow> u8 list" where
  "WRITE_UTF16BE c =
    (if c \<le> 0xFFFF then
       [ucast (drop_bit 8 c AND 0x00FF),
        ucast (c AND 0x00FF)]
     else
       [ucast (0x00D8 + (drop_bit 18 (c - 0x10000) AND 0x03)),
        ucast ((drop_bit 10 c AND 0x003F) + (drop_bit 10 (c - 0x10000) AND 0x00C0)),
        ucast (0x00DC + (drop_bit 8 c AND 0x03)),
        ucast (c AND 0x00FF)])"

section \<open>Reading\<close>

text \<open>
  The parameter \<^verbatim>\<open>TERM\<close> of the UTF-16 macros is a condition evaluated after the first unit
  has been read, so it is a predicate on the position of \<^verbatim>\<open>zIn\<close>.
\<close>

definition utf16_pair :: "u32 \<Rightarrow> u32 \<Rightarrow> u32" where
  "utf16_pair c c2 =
     (c2 AND 0x03FF) + push_bit 10 (c AND 0x003F) + push_bit 10 ((c AND 0x03C0) + 0x0040)"

definition READ_UTF16LE :: "u8 list \<Rightarrow> (nat \<Rightarrow> bool) \<Rightarrow> nat \<Rightarrow> (u32 \<times> nat) option" where
  "READ_UTF16LE zIn tm i = do {
     b0 \<leftarrow> rd zIn i;
     b1 \<leftarrow> rd zIn (i + 1);
     let c = ucast b0 + push_bit 8 (ucast b1);
     if 0xD800 \<le> c \<and> c < 0xE000 \<and> tm (i + 2) then do {
       b2 \<leftarrow> rd zIn (i + 2);
       b3 \<leftarrow> rd zIn (i + 3);
       Some (utf16_pair c (ucast b2 + push_bit 8 (ucast b3)), i + 4)
     } else Some (c, i + 2)
   }"

definition READ_UTF16BE :: "u8 list \<Rightarrow> (nat \<Rightarrow> bool) \<Rightarrow> nat \<Rightarrow> (u32 \<times> nat) option" where
  "READ_UTF16BE zIn tm i = do {
     b0 \<leftarrow> rd zIn i;
     b1 \<leftarrow> rd zIn (i + 1);
     let c = push_bit 8 (ucast b0) + ucast b1;
     if 0xD800 \<le> c \<and> c < 0xE000 \<and> tm (i + 2) then do {
       b2 \<leftarrow> rd zIn (i + 2);
       b3 \<leftarrow> rd zIn (i + 3);
       Some (utf16_pair c (push_bit 8 (ucast b2) + ucast b3), i + 4)
     } else Some (c, i + 2)
   }"

text \<open>
  The continuation loop of \<^verbatim>\<open>READ_UTF8\<close> and of \<^verbatim>\<open>sqlite3Utf8Read\<close>. The macro stops at
  \<^verbatim>\<open>zTerm\<close>, the function has no such limit and relies on the byte behind the text.
\<close>

function utf8_more :: "u8 list \<Rightarrow> nat option \<Rightarrow> nat \<Rightarrow> u32 \<Rightarrow> (u32 \<times> nat) option" where
  "utf8_more zIn zTerm i c =
    (if zTerm = Some i then Some (c, i)
     else case rd zIn i of
       None \<Rightarrow> None
     | Some b \<Rightarrow>
         if b AND 0xc0 = 0x80
         then utf8_more zIn zTerm (i + 1) (push_bit 6 c + ucast (0x3f AND b))
         else Some (c, i))"
  by pat_completeness auto
termination
  by (relation "measure (\<lambda>(zIn, zTerm, i, c). length zIn - i)") (auto simp: rd_eq_Some_iff)

declare utf8_more.simps [simp del]

definition utf8_fix :: "u32 \<Rightarrow> u32" where
  "utf8_fix c =
    (if c < 0x80 \<or> c AND 0xFFFFF800 = 0xD800 \<or> c AND 0xFFFFFFFE = 0xFFFE then 0xFFFD else c)"

definition READ_UTF8 :: "u8 list \<Rightarrow> nat \<Rightarrow> nat \<Rightarrow> (u32 \<times> nat) option" where
  "READ_UTF8 zIn zTerm i = do {
     b \<leftarrow> rd zIn i;
     if 0xc0 \<le> b then do {
       t \<leftarrow> rd sqlite3Utf8Trans1 (unat b - 0xc0);
       (c, j) \<leftarrow> utf8_more zIn (Some zTerm) (i + 1) (ucast t);
       Some (utf8_fix c, j)
     } else Some (ucast b, i + 1)
   }"

definition sqlite3Utf8Read :: "u8 list \<Rightarrow> nat \<Rightarrow> (u32 \<times> nat) option" where
  "sqlite3Utf8Read zIn i = do {
     b \<leftarrow> rd zIn i;
     if 0xc0 \<le> b then do {
       t \<leftarrow> rd sqlite3Utf8Trans1 (unat b - 0xc0);
       (c, j) \<leftarrow> utf8_more zIn None (i + 1) (ucast t);
       Some (utf8_fix c, j)
     } else Some (ucast b, i + 1)
   }"

section \<open>Counting and cleaning\<close>

text \<open>\<^verbatim>\<open>SQLITE_SKIP_UTF8\<close> of \<^verbatim>\<open>sqliteInt.h\<close>.\<close>

function skip_cont :: "u8 list \<Rightarrow> nat \<Rightarrow> nat option" where
  "skip_cont z i =
    (case rd z i of
       None \<Rightarrow> None
     | Some b \<Rightarrow> if b AND 0xc0 = 0x80 then skip_cont z (i + 1) else Some i)"
  by pat_completeness auto
termination
  by (relation "measure (\<lambda>(z, i). length z - i)") (auto simp: rd_eq_Some_iff)

declare skip_cont.simps [simp del]

definition SQLITE_SKIP_UTF8 :: "u8 list \<Rightarrow> nat \<Rightarrow> nat option" where
  "SQLITE_SKIP_UTF8 z i = do {
     b \<leftarrow> rd z i;
     if 0xc0 \<le> b then skip_cont z (i + 1) else Some (i + 1)
   }"

lemma skip_cont_bounds: "skip_cont z i = Some j \<Longrightarrow> i \<le> j \<and> j < length z"
proof (induction z i rule: skip_cont.induct)
  case (1 z i)
  show ?case
  proof (cases "rd z i")
    case None
    with 1 (2) show ?thesis by (simp add: skip_cont.simps [of z i])
  next
    case (Some b)
    with 1 show ?thesis
      by (auto simp: skip_cont.simps [of z i] rd_eq_Some_iff split: if_splits)
  qed
qed

lemma SQLITE_SKIP_UTF8_bounds: "SQLITE_SKIP_UTF8 z i = Some j \<Longrightarrow> i < j \<and> j \<le> length z"
  by (auto simp: SQLITE_SKIP_UTF8_def rd_eq_Some_iff split: if_splits bind_splits
      dest!: skip_cont_bounds)

text \<open>
  \<^verbatim>\<open>sqlite3Utf8CharLen\<close>; a negative \<^verbatim>\<open>nByte\<close> makes \<^verbatim>\<open>zTerm\<close> the highest address, which no
  position reaches.
\<close>

function charLen_loop :: "u8 list \<Rightarrow> nat option \<Rightarrow> nat \<Rightarrow> nat \<Rightarrow> nat option" where
  "charLen_loop z zTerm i r =
    (case rd z i of
       None \<Rightarrow> None
     | Some b \<Rightarrow>
         if b \<noteq> 0 \<and> (case zTerm of None \<Rightarrow> True | Some t \<Rightarrow> i < t) then
           (case SQLITE_SKIP_UTF8 z i of
              None \<Rightarrow> None
            | Some j \<Rightarrow> charLen_loop z zTerm j (r + 1))
         else Some r)"
  by pat_completeness auto
termination
  by (relation "measure (\<lambda>(z, zTerm, i, r). length z - i)")
    (auto simp: rd_eq_Some_iff dest!: SQLITE_SKIP_UTF8_bounds)

declare charLen_loop.simps [simp del]

definition sqlite3Utf8CharLen :: "u8 list \<Rightarrow> int \<Rightarrow> nat option" where
  "sqlite3Utf8CharLen zIn nByte =
     charLen_loop zIn (if 0 \<le> nByte then Some (nat nByte) else None) 0 0"

text \<open>\<^verbatim>\<open>sqlite3Utf16ByteLen\<close> with \<^verbatim>\<open>be\<close> for the native byte order of the machine.\<close>

fun utf16ByteLen_loop :: "bool \<Rightarrow> u8 list \<Rightarrow> nat \<Rightarrow> nat \<Rightarrow> nat option" where
  "utf16ByteLen_loop be z i 0 = Some i"
| "utf16ByteLen_loop be z i (Suc n) = do {
     (c, j) \<leftarrow> (if be then READ_UTF16BE z (\<lambda>_. True) i else READ_UTF16LE z (\<lambda>_. True) i);
     utf16ByteLen_loop be z j n
   }"

definition sqlite3Utf16ByteLen :: "bool \<Rightarrow> u8 list \<Rightarrow> nat \<Rightarrow> nat option" where
  "sqlite3Utf16ByteLen be zIn nChar = utf16ByteLen_loop be zIn 0 nChar"

section \<open>The codecs are inverse\<close>

lemma not_bit_if_less: "unat c < 2 ^ k \<Longrightarrow> k \<le> n \<Longrightarrow> \<not> bit (c :: u32) n"
proof
  assume "unat c < 2 ^ k" and k: "k \<le> n" and b: "bit c n"
  moreover have "(2 :: nat) ^ k \<le> 2 ^ n" using k by simp
  ultimately have "unat c div 2 ^ n = 0" by (intro div_less) linarith
  moreover have "bit (unat c) n" using b by (simp add: bit_unsigned_iff)
  ultimately show False by (simp add: bit_iff_odd)
qed

lemmas word_blast = bit_simps bit_blast

text \<open>The leading byte and the continuation bytes, as the writer stores them.\<close>

lemma trans1_C0: "k < 32 \<Longrightarrow> sqlite3Utf8Trans1 ! k = of_nat k"
proof -
  have "\<forall>k\<in>set [0..<32]. sqlite3Utf8Trans1 ! k = of_nat k" by code_simp
  then show "k < 32 \<Longrightarrow> ?thesis" by simp
qed

lemma trans1_E0: "k < 16 \<Longrightarrow> sqlite3Utf8Trans1 ! (32 + k) = of_nat k"
proof -
  have "\<forall>k\<in>set [0..<16]. sqlite3Utf8Trans1 ! (32 + k) = of_nat k" by code_simp
  then show "k < 16 \<Longrightarrow> ?thesis" by simp
qed

lemma trans1_F0: "k < 8 \<Longrightarrow> sqlite3Utf8Trans1 ! (48 + k) = of_nat k"
proof -
  have "\<forall>k\<in>set [0..<8]. sqlite3Utf8Trans1 ! (48 + k) = of_nat k" by code_simp
  then show "k < 8 \<Longrightarrow> ?thesis" by simp
qed

lemma length_trans1: "length sqlite3Utf8Trans1 = 64"
  by (simp add: sqlite3Utf8Trans1_def)

definition lead :: "u8 \<Rightarrow> u8 \<Rightarrow> bool" where
  "lead b t \<longleftrightarrow> 0xc0 \<le> b \<and> rd sqlite3Utf8Trans1 (unat b - 0xc0) = Some t"

lemma lead_C0: "t < 0x20 \<Longrightarrow> lead (0xC0 + t) t"
  by (simp add: lead_def word_le_nat_alt word_less_nat_alt unat_plus_if' rd_Some length_trans1
      trans1_C0)

lemma lead_E0: "t < 0x10 \<Longrightarrow> lead (0xE0 + t) t"
  using trans1_E0 [of "unat t"]
  by (simp add: lead_def word_le_nat_alt word_less_nat_alt unat_plus_if' rd_Some length_trans1)

lemma lead_F0: "t < 0x08 \<Longrightarrow> lead (0xF0 + t) t"
  using trans1_F0 [of "unat t"]
  by (simp add: lead_def word_le_nat_alt word_less_nat_alt unat_plus_if' rd_Some length_trans1)

lemma and_mask_less:
  "ucast (w AND 0x1F :: u32) < (0x20 :: u8)" "ucast (w AND 0x0F :: u32) < (0x10 :: u8)"
  "ucast (w AND 0x07 :: u32) < (0x08 :: u8)"
  using word_and_le1 [of w "0x1F"] word_and_le1 [of w "0x0F"] word_and_le1 [of w "0x07"]
  by (simp_all add: word_less_nat_alt word_le_nat_alt unsigned_ucast_eq take_bit_nat_eq_self_iff
      take_bit_nat_less_eq_self le_less_trans [OF take_bit_nat_less_eq_self])

definition cont :: "u8 \<Rightarrow> u32 \<Rightarrow> bool" where
  "cont b x \<longleftrightarrow> b AND 0xc0 = 0x80 \<and> ucast (0x3f AND b) = x"

lemma cont_80: "cont (0x80 + ucast (w AND 0x3F)) (w AND 0x3F)"
proof -
  have "(0x80 :: u8) + ucast (w AND 0x3F) = 0x80 OR ucast (w AND 0x3F)"
    by (rule disjunctive_add_eq_or, rule u8_eqI, simp add: word_blast)
  moreover have "(0x80 OR ucast (w AND 0x3F)) AND 0xc0 = (0x80 :: u8)"
    by (rule u8_eqI) (simp add: word_blast)
  moreover have "ucast (0x3f AND (0x80 OR ucast (w AND 0x3F) :: u8)) = w AND 0x3F"
    by (rule u32_eqI) (simp add: word_blast)
  ultimately show ?thesis by (simp only: cont_def)
qed

lemma push_bit_add_or: "push_bit 6 a + (w AND 0x3F) = push_bit 6 a OR (w AND 0x3F :: u32)"
  by (rule disjunctive_add_eq_or, rule u32_eqI) (simp add: word_blast)

lemma utf8_glue2: "c < 0x800 \<Longrightarrow> push_bit 6 (ucast (ucast (drop_bit 6 c AND 0x1F) :: u8)) + (c AND 0x3F) = (c :: u32)"
  unfolding push_bit_add_or
  using not_bit_if_less [of c 11] by (intro u32_eqI) (simp add: word_blast word_less_nat_alt)

lemma utf8_glue3: "c < 0x10000 \<Longrightarrow>
   push_bit 6 (push_bit 6 (ucast (ucast (drop_bit 12 c AND 0x0F) :: u8)) + (drop_bit 6 c AND 0x3F)) + (c AND 0x3F) = (c :: u32)"
  unfolding push_bit_add_or
  using not_bit_if_less [of c 16] by (intro u32_eqI) (simp add: word_blast word_less_nat_alt)

lemma utf8_glue4: "c < 0x200000 \<Longrightarrow>
   push_bit 6 (push_bit 6 (push_bit 6 (ucast (ucast (drop_bit 18 c AND 0x07) :: u8)) + (drop_bit 12 c AND 0x3F)) + (drop_bit 6 c AND 0x3F)) + (c AND 0x3F) = (c :: u32)"
  unfolding push_bit_add_or
  using not_bit_if_less [of c 21] by (intro u32_eqI) (simp add: word_blast word_less_nat_alt)

lemma utf8_more_step:
  "T \<noteq> Some i \<Longrightarrow> rd z i = Some b \<Longrightarrow> cont b x \<Longrightarrow>
   utf8_more z T i c = utf8_more z T (i + 1) (push_bit 6 c + x)"
  by (subst utf8_more.simps) (simp add: cont_def)

text \<open>A position where the reader stops: the given end, or a byte that is no continuation.\<close>

definition ends :: "u8 list \<Rightarrow> nat option \<Rightarrow> nat \<Rightarrow> bool" where
  "ends z T j \<longleftrightarrow> T = Some j \<or> (\<exists>b. rd z j = Some b \<and> b AND 0xc0 \<noteq> 0x80)"

lemma utf8_more_stop: "ends z T j \<Longrightarrow> utf8_more z T j c = Some (c, j)"
  by (subst utf8_more.simps) (auto simp: ends_def)

definition utf8_read :: "nat option \<Rightarrow> u8 list \<Rightarrow> nat \<Rightarrow> (u32 \<times> nat) option" where
  "utf8_read T z i = (case T of Some t \<Rightarrow> READ_UTF8 z t i | None \<Rightarrow> sqlite3Utf8Read z i)"

lemma utf8_read_lead:
  "rd z i = Some b \<Longrightarrow> lead b t \<Longrightarrow>
   utf8_read T z i = do { (c, j) \<leftarrow> utf8_more z T (i + 1) (ucast t); Some (utf8_fix c, j) }"
  by (simp add: utf8_read_def lead_def READ_UTF8_def sqlite3Utf8Read_def split: option.splits)

lemma utf8_read_ascii:
  "rd z i = Some b \<Longrightarrow> b < 0xc0 \<Longrightarrow> utf8_read T z i = Some (ucast b, i + 1)"
  by (auto simp: utf8_read_def READ_UTF8_def sqlite3Utf8Read_def split: option.splits dest: leD)

lemma rd_drop_append: "drop i z = xs @ r \<Longrightarrow> k < length xs \<Longrightarrow> rd z (i + k) = Some (xs ! k)"
  by (metis length_append nth_append nth_drop rd_eq_Some_iff length_drop add.commute
      less_diff_conv trans_less_add1 drop_all append_is_Nil_conv less_zeroE list.size(3) nat_le_linear)

lemma unat_ucast_u8_u32: "unat (ucast (b :: u8) :: u32) = unat b"
  using unsigned_less [of b, where ?'a = nat] by (simp add: unsigned_ucast_eq take_bit_nat_eq_self)

lemma utf8_read_WRITE:
  assumes c: "c < 0x200000" and z: "drop i z = WRITE_UTF8 c @ r"
    and j: "j = i + length (WRITE_UTF8 c)" and e: "ends z T j" and T: "\<And>k. T = Some k \<Longrightarrow> j \<le> k"
  shows "utf8_read T z i = Some (if c < 0x80 then c else utf8_fix c, j)"
proof -
  have rd: "\<And>k. k < length (WRITE_UTF8 c) \<Longrightarrow> rd z (i + k) = Some (WRITE_UTF8 c ! k)"
    by (rule rd_drop_append [OF z])
  have T': "k < j \<Longrightarrow> T \<noteq> Some k" for k using T [of k] by auto
  have more: "utf8_more z T (i + k) a = utf8_more z T (i + k + 1) (push_bit 6 a + (w AND 0x3F))"
    if "k < length (WRITE_UTF8 c)" "WRITE_UTF8 c ! k = 0x80 + ucast (w AND 0x3F)" for k a w
    using that j by (intro utf8_more_step [OF T' _ cont_80]) (simp_all add: rd)
  have start: "utf8_read T z i = do { (c, j) \<leftarrow> utf8_more z T (i + 1) (ucast t); Some (utf8_fix c, j) }"
    if "WRITE_UTF8 c \<noteq> []" "lead (WRITE_UTF8 c ! 0) t" for t
    using that rd [of 0] by (intro utf8_read_lead) simp_all
  note stop = utf8_more_stop [OF e]
  consider "c < 0x80" | "0x80 \<le> c" "c < 0x800" | "0x800 \<le> c" "c < 0x10000" | "0x10000 \<le> c"
    by (meson linorder_not_less)
  then show ?thesis
  proof cases
    case 1
    then have W: "WRITE_UTF8 c = [ucast (c AND 0xFF)]" by (simp add: WRITE_UTF8_def)
    have "\<And>n. 7 \<le> n \<Longrightarrow> \<not> bit c n" using 1 not_bit_if_less [of c 7] by (simp add: word_less_nat_alt)
    then have eq: "ucast (ucast (c AND 0xFF) :: u8) = c"
      by (intro u32_eqI) (simp add: word_blast)
    then have "unat (ucast (c AND 0xFF) :: u8) = unat c"
      using unat_ucast_u8_u32 by metis
    with 1 have "(ucast (c AND 0xFF) :: u8) < 0xc0" by (simp add: word_less_nat_alt)
    note eq this
    then show ?thesis using rd [of 0] 1 j by (simp add: W utf8_read_ascii)
  next
    case 2
    then have W: "WRITE_UTF8 c = [0xC0 + ucast (drop_bit 6 c AND 0x1F), 0x80 + ucast (c AND 0x3F)]"
      by (simp add: WRITE_UTF8_def)
    show ?thesis
      using start [of "ucast (drop_bit 6 c AND 0x1F)"] more [of 1 c] stop 2 j
      by (simp add: W lead_C0 and_mask_less utf8_glue2 leD)
  next
    case 3
    then have ge: "\<not> c < 0x80" "\<not> c < 0x800"
      by (simp_all add: word_less_nat_alt word_le_nat_alt)
    with 3 have W: "WRITE_UTF8 c = [0xE0 + ucast (drop_bit 12 c AND 0x0F),
        0x80 + ucast (drop_bit 6 c AND 0x3F), 0x80 + ucast (c AND 0x3F)]"
      by (simp add: WRITE_UTF8_def)
    show ?thesis
      using start [of "ucast (drop_bit 12 c AND 0x0F)"] more [of 1 "drop_bit 6 c"] more [of 2 c]
        stop 3 ge j
      by (simp add: W lead_E0 and_mask_less utf8_glue3)
  next
    case 4
    then have ge: "\<not> c < 0x80" "\<not> c < 0x800" "\<not> c < 0x10000"
      by (simp_all add: word_less_nat_alt word_le_nat_alt)
    with 4 have W: "WRITE_UTF8 c = [0xF0 + ucast (drop_bit 18 c AND 0x07),
        0x80 + ucast (drop_bit 12 c AND 0x3F),
        0x80 + ucast (drop_bit 6 c AND 0x3F), 0x80 + ucast (c AND 0x3F)]"
      by (simp add: WRITE_UTF8_def)
    show ?thesis
      using start [of "ucast (drop_bit 18 c AND 0x07)"] more [of 1 "drop_bit 12 c"]
        more [of 2 "drop_bit 6 c"] more [of "Suc (Suc (Suc 0))" c] stop 4 ge j
      by (simp add: W lead_F0 and_mask_less utf8_glue4 [OF c])
  qed
qed

lemma utf8_fix_eq:
  "\<not> (0xD800 \<le> c \<and> c \<le> 0xDFFF) \<Longrightarrow> c \<noteq> 0xFFFE \<Longrightarrow> c \<noteq> 0xFFFF \<Longrightarrow> 0x80 \<le> c \<Longrightarrow> utf8_fix c = c"
proof -
  assume a: "\<not> (0xD800 \<le> c \<and> c \<le> 0xDFFF)" "c \<noteq> 0xFFFE" "c \<noteq> 0xFFFF" "0x80 \<le> c"
  have c: "c = (c AND 0xFFFFF800) + (c AND 0x7FF)" "c = (c AND 0xFFFFFFFE) + (c AND 1)"
    by (subst disjunctive_add_eq_or; intro u32_eqI; simp add: word_blast)+
  have "c AND 0xFFFFF800 \<noteq> 0xD800"
  proof
    assume "c AND 0xFFFFF800 = 0xD800"
    with c(1) have "c = 0xD800 + (c AND 0x7FF)" by simp
    then have "unat c = unat (0xD800 + (c AND 0x7FF))" by simp
    moreover have "unat (c AND 0x7FF) \<le> 0x7FF" using word_and_le1 [of c "0x7FF"]
      by (simp add: word_le_nat_alt)
    ultimately have "unat c = 0xD800 + unat (c AND 0x7FF)" by (simp add: unat_plus_if')
    with \<open>unat (c AND 0x7FF) \<le> 0x7FF\<close> a(1) show False by (simp add: word_le_nat_alt)
  qed
  moreover have "c AND 0xFFFFFFFE \<noteq> 0xFFFE"
  proof
    assume "c AND 0xFFFFFFFE = 0xFFFE"
    with c(2) have "c = 0xFFFE + (c AND 1)" by simp
    moreover have "c AND 1 = 0 \<or> c AND 1 = 1"
      by (cases "even c") (simp_all add: and_one_eq even_iff_mod_2_eq_zero odd_iff_mod_2_eq_one)
    ultimately show False using a(2,3) by auto
  qed
  ultimately show ?thesis using a(4) by (auto simp: utf8_fix_def dest: leD)
qed

text \<open>Units of UTF-16 in either byte order.\<close>

lemma utf16_unit: "c \<le> 0xFFFF \<Longrightarrow>
   ucast (ucast (c AND 0x00FF) :: u8) + push_bit 8 (ucast (ucast (drop_bit 8 c AND 0x00FF) :: u8)) = (c :: u32)"
  apply (subst disjunctive_add_eq_or)
  subgoal by (rule u32_eqI) (simp add: word_blast)
  using not_bit_if_less [of c 16] by (intro u32_eqI) (simp add: word_blast word_le_nat_alt)

lemma utf16_unit_be: "c \<le> 0xFFFF \<Longrightarrow>
   push_bit 8 (ucast (ucast (drop_bit 8 c AND 0x00FF) :: u8)) + ucast (ucast (c AND 0x00FF) :: u8) = (c :: u32)"
  using utf16_unit [of c] by (simp add: add.commute)

text \<open>
  A code point beyond the basic plane is \<open>0x10000 + d\<close> with \<open>d\<close> below \<open>0x100000\<close>. The writer
  takes the low 16 bits from \<^verbatim>\<open>c\<close> and the others from \<open>d\<close>; both agree on the low 16 bits, so
  the pair of units holds the upper and the lower ten bits of \<open>d\<close>.
\<close>

lemma low16_diff_int: "n < 16 \<Longrightarrow> bit (k :: int) n = bit (k - 0x10000) n"
proof -
  have "take_bit 16 k = take_bit 16 (k - 0x10000)" by (simp add: take_bit_eq_mod)
  then have "bit (take_bit 16 k) n = bit (take_bit 16 (k - 0x10000)) n" by simp
  then show "n < 16 \<Longrightarrow> ?thesis" by (simp add: bit_take_bit_iff)
qed

lemma low16_diff: "n < 16 \<Longrightarrow> bit c n = bit (c - 0x10000 :: u32) n"
  by transfer (simp add: bit_take_bit_iff flip: low16_diff_int)

definition unit1 :: "u32 \<Rightarrow> u32" where "unit1 d = 0xD800 OR (drop_bit 10 d AND 0x3FF)"
definition unit2 :: "u32 \<Rightarrow> u32" where "unit2 d = 0xDC00 OR (d AND 0x3FF)"

lemma unit1_bytes:
  fixes c :: u32 defines "d \<equiv> c - 0x10000"
  shows "(ucast (ucast ((drop_bit 10 c AND 0x003F) + (drop_bit 10 d AND 0x00C0)) :: u8)) +
    push_bit 8 (ucast (ucast (0x00D8 + (drop_bit 18 d AND 0x03)) :: u8)) = unit1 d"
proof -
  have low: "\<And>n. n < 16 \<Longrightarrow> bit c n = bit d n" unfolding d_def by (rule low16_diff)
  have 1: "(drop_bit 10 c AND 0x003F) + (drop_bit 10 d AND 0x00C0) = (drop_bit 10 d AND 0x00FF)"
    by (subst disjunctive_add_eq_or; rule u32_eqI; simp add: word_blast low)
  have 2: "0x00D8 + (drop_bit 18 d AND 0x03) = 0x00D8 OR (drop_bit 18 d AND 0x03)"
    by (rule disjunctive_add_eq_or, rule u32_eqI) (simp add: word_blast)
  show ?thesis unfolding 1 2 unit1_def
    by (subst disjunctive_add_eq_or; rule u32_eqI; simp add: word_blast)
qed

lemma unit2_bytes:
  fixes c :: u32 defines "d \<equiv> c - 0x10000"
  shows "(ucast (ucast (c AND 0x00FF) :: u8)) +
    push_bit 8 (ucast (ucast (0x00DC + (drop_bit 8 c AND 0x03)) :: u8)) = unit2 d"
proof -
  have low: "\<And>n. n < 16 \<Longrightarrow> bit c n = bit d n" unfolding d_def by (rule low16_diff)
  have 2: "0x00DC + (drop_bit 8 c AND 0x03) = 0x00DC OR (drop_bit 8 d AND 0x03)"
    by (subst disjunctive_add_eq_or; rule u32_eqI; simp add: word_blast low)
  show ?thesis unfolding 2 unit2_def
    by (subst disjunctive_add_eq_or; rule u32_eqI; simp add: word_blast low)
qed

lemma unit1_range: "0xD800 \<le> unit1 d" "unit1 d < 0xDC00"
proof -
  have "unit1 d = 0xD800 + (drop_bit 10 d AND 0x3FF)"
    unfolding unit1_def by (rule disjunctive_add_eq_or [symmetric], rule u32_eqI) (simp add: word_blast)
  then show "0xD800 \<le> unit1 d" "unit1 d < 0xDC00"
    using word_and_le1 [of "drop_bit 10 d" "0x3FF"]
    by (simp_all add: word_le_nat_alt word_less_nat_alt unat_plus_if')
qed

lemma pair_units:
  assumes d: "d < 0x100000"
  shows "utf16_pair (unit1 d) (unit2 d) = d + 0x10000"
proof -
  have hi: "\<And>n. 20 \<le> n \<Longrightarrow> \<not> bit d n" using d not_bit_if_less [of d 20] by (simp add: word_less_nat_alt)
  have 1: "push_bit 10 ((unit1 d AND 0x03C0) + 0x0040) = push_bit 10 (unit1 d AND 0x03C0) + 0x10000"
    by (simp add: push_bit_eq_mult algebra_simps)
  have 2: "(unit2 d AND 0x03FF) + push_bit 10 (unit1 d AND 0x003F) = d AND 0xFFFF"
    unfolding unit1_def unit2_def
    by (subst disjunctive_add_eq_or; rule u32_eqI; simp add: word_blast)
  have 3: "(d AND 0xFFFF) + push_bit 10 (unit1 d AND 0x03C0) = d"
    unfolding unit1_def
    by (subst disjunctive_add_eq_or; rule u32_eqI; simp add: word_blast hi)
  show ?thesis unfolding utf16_pair_def 1 2 using 3 by (simp add: add.assoc [symmetric])
qed

text \<open>One code point in UTF-16, in the byte order chosen, the way the reader sees it.\<close>

definition write16 :: "bool \<Rightarrow> u32 \<Rightarrow> u8 list" where
  "write16 be c = (if be then WRITE_UTF16BE c else WRITE_UTF16LE c)"

definition read16 :: "bool \<Rightarrow> u8 list \<Rightarrow> (nat \<Rightarrow> bool) \<Rightarrow> nat \<Rightarrow> (u32 \<times> nat) option" where
  "read16 be z tm i = (if be then READ_UTF16BE z tm i else READ_UTF16LE z tm i)"

lemma diff_less_plane: "0x10000 \<le> c \<Longrightarrow> c < 0x110000 \<Longrightarrow> c - 0x10000 < (0x100000 :: u32)"
  by (simp add: word_less_nat_alt word_le_nat_alt unat_sub_if')

lemma read16_write16:
  assumes z: "drop i z = write16 be c @ r" and c: "c < 0x110000" "\<not> (0xD800 \<le> c \<and> c < 0xE000)"
    and tm: "0x10000 \<le> c \<Longrightarrow> tm (i + 2)"
  shows "read16 be z tm i = Some (c, i + length (write16 be c))"
proof -
  have rd: "\<And>k. k < length (write16 be c) \<Longrightarrow> rd z (i + k) = Some (write16 be c ! k)"
    by (rule rd_drop_append [OF z])
  note defs = write16_def read16_def WRITE_UTF16LE_def WRITE_UTF16BE_def READ_UTF16LE_def READ_UTF16BE_def
  show ?thesis
  proof (cases "c \<le> 0xFFFF")
    case True
    then show ?thesis using rd [of 0] rd [of 1] c(2) utf16_unit [OF True] utf16_unit_be [OF True]
      by (cases be) (auto simp: defs)
  next
    case False
    then have ge: "0x10000 \<le> c" by (simp add: word_le_nat_alt)
    have "unit1 (c - 0x10000) < 0xE000" using unit1_range(2) by (rule less_trans) simp
    note facts = unit1_range(1) this pair_units [OF diff_less_plane [OF ge c(1)]]
      unit1_bytes [of c] unit2_bytes [of c]
    from False show ?thesis using rd [of 0] rd [of 1] rd [of 2] rd [of 3] tm [OF ge] facts
      by (cases be) (simp_all add: defs add.commute)
  qed
qed

section \<open>What the self test asserts\<close>

lemma utf8_fix_surrogate: "0xD800 \<le> c \<Longrightarrow> c \<le> 0xDFFF \<Longrightarrow> utf8_fix c = 0xFFFD"
proof -
  assume c: "0xD800 \<le> c" "c \<le> 0xDFFF"
  have "unat (drop_bit 11 c) = 0x1B"
    unfolding unat_drop_bit_eq using c by (simp add: drop_bit_eq_div word_le_nat_alt)
  then have "drop_bit 11 c = 0x1B" by (simp add: word_unat_eq_iff)
  moreover have "c AND 0xFFFFF800 = push_bit 11 (drop_bit 11 c)"
    by (rule u32_eqI) (simp add: word_blast)
  ultimately show ?thesis by (simp add: utf8_fix_def)
qed

lemma utf8_fix_char:
  "0x80 \<le> c \<Longrightarrow> utf8_fix c =
     (if (0xD800 \<le> c \<and> c \<le> 0xDFFF) \<or> c = 0xFFFE \<or> c = 0xFFFF then 0xFFFD else c)"
  using utf8_fix_surrogate [of c] utf8_fix_eq [of c] by (auto simp: utf8_fix_def)

lemma length_WRITE_UTF8:
  "0 < length (WRITE_UTF8 c)" "length (WRITE_UTF8 c) \<le> 4" "c < 0x10000 \<Longrightarrow> length (WRITE_UTF8 c) \<le> 3"
  by (auto simp: WRITE_UTF8_def)

lemma length_write16:
  "length (write16 be c) = (if c \<le> 0xFFFF then 2 else 4)"
  by (auto simp: write16_def WRITE_UTF16LE_def WRITE_UTF16BE_def)

lemma cont_byte_range: "b AND 0xc0 = 0x80 \<Longrightarrow> 0x80 \<le> b \<and> b < (0xc0 :: u8)"
proof -
  assume "b AND 0xc0 = 0x80"
  moreover have "b = (b AND 0xc0) + (b AND 0x3f)"
    by (subst disjunctive_add_eq_or; rule u8_eqI; simp add: word_blast)
  ultimately have b: "b = 0x80 + (b AND 0x3f)" by simp
  have "unat (b AND 0x3f) \<le> 0x3f" using word_and_le1 [of b "0x3f"] by (simp add: word_le_nat_alt)
  then have "unat b = 0x80 + unat (b AND 0x3f)" by (subst b) (simp add: unat_plus_if')
  with \<open>unat (b AND 0x3f) \<le> 0x3f\<close> show ?thesis by (simp add: word_le_nat_alt word_less_nat_alt)
qed

lemma first_WRITE_UTF8: "WRITE_UTF8 c ! 0 AND 0xc0 \<noteq> 0x80"
proof (cases "c < 0x80")
  case True
  then have "\<not> bit c 7" using not_bit_if_less [of c 7] by (simp add: word_less_nat_alt)
  then have "\<not> bit (WRITE_UTF8 c ! 0 AND 0xc0) 7"
    using True by (simp add: WRITE_UTF8_def word_blast)
  moreover have "bit (0x80 :: u8) 7" by (simp add: word_blast)
  ultimately show ?thesis by metis
next
  case False
  then have "\<exists>t. lead (WRITE_UTF8 c ! 0) t"
    using lead_C0 [OF and_mask_less(1)] lead_E0 [OF and_mask_less(2)] lead_F0 [OF and_mask_less(3)]
    by (auto simp: WRITE_UTF8_def)
  then have "0xc0 \<le> WRITE_UTF8 c ! 0" by (auto simp: lead_def)
  then show ?thesis using cont_byte_range [of "WRITE_UTF8 c ! 0"] by (auto dest: leD)
qed

text \<open>
  \<^bold>\<open>C24\<close> The assertions of \<^verbatim>\<open>sqlite3UtfSelfTest\<close>, for every code point. Writing a code point in
  UTF-8 takes one to four bytes, and \<^verbatim>\<open>sqlite3Utf8Read\<close> on these bytes, with a NUL behind them,
  consumes exactly them and returns the code point, or the replacement character for
  surrogates, \<^verbatim>\<open>0xFFFE\<close> and \<^verbatim>\<open>0xFFFF\<close>. For every code point that is not a surrogate the same holds
  of UTF-16 in both byte orders, with the code point itself returned.
\<close>

theorem utf_selftest:
  assumes "c < 0x110000"
  shows "0 < length (WRITE_UTF8 c) \<and> length (WRITE_UTF8 c) \<le> 4 \<and>
    sqlite3Utf8Read (WRITE_UTF8 c @ 0 # zBuf) 0 =
      Some (if 0xD800 \<le> c \<and> c \<le> 0xDFFF \<or> c = 0xFFFE \<or> c = 0xFFFF then 0xFFFD else c,
            length (WRITE_UTF8 c)) \<and>
    (\<not> (0xD800 \<le> c \<and> c < 0xE000) \<longrightarrow>
      length (WRITE_UTF16LE c) \<in> {2, 4} \<and> length (WRITE_UTF16BE c) \<in> {2, 4} \<and>
      READ_UTF16LE (WRITE_UTF16LE c @ zBuf) (\<lambda>_. True) 0 = Some (c, length (WRITE_UTF16LE c)) \<and>
      READ_UTF16BE (WRITE_UTF16BE c @ zBuf) (\<lambda>_. True) 0 = Some (c, length (WRITE_UTF16BE c)))"
proof -
  have "c < 0x200000" using assms by (simp add: word_less_nat_alt)
  then have "utf8_read None (WRITE_UTF8 c @ 0 # zBuf) 0 =
      Some (if c < 0x80 then c else utf8_fix c, length (WRITE_UTF8 c))"
    by (rule utf8_read_WRITE [of c 0 _ "0 # zBuf"]) (auto simp: ends_def rd_def)
  moreover have "(if c < 0x80 then c else utf8_fix c) =
      (if 0xD800 \<le> c \<and> c \<le> 0xDFFF \<or> c = 0xFFFE \<or> c = 0xFFFF then 0xFFFD else c)"
    using utf8_fix_char [of c] by (auto simp: linorder_not_less word_le_nat_alt word_less_nat_alt)
  moreover have "read16 be (write16 be c @ zBuf) (\<lambda>_. True) 0 = Some (c, 0 + length (write16 be c))"
    if "\<not> (0xD800 \<le> c \<and> c < 0xE000)" for be
    by (rule read16_write16 [where r = zBuf]) (use assms that in auto)
  from this [of True] this [of False]
  have "\<not> (0xD800 \<le> c \<and> c < 0xE000) \<longrightarrow>
      READ_UTF16LE (WRITE_UTF16LE c @ zBuf) (\<lambda>_. True) 0 = Some (c, length (WRITE_UTF16LE c)) \<and>
      READ_UTF16BE (WRITE_UTF16BE c @ zBuf) (\<lambda>_. True) 0 = Some (c, length (WRITE_UTF16BE c))"
    by (simp add: read16_def write16_def)
  moreover have "length (WRITE_UTF16LE c) \<in> {2, 4}" "length (WRITE_UTF16BE c) \<in> {2, 4}"
    using length_write16 [of True c] length_write16 [of False c]
    by (simp_all add: write16_def split: if_splits)
  ultimately show ?thesis using length_WRITE_UTF8 [of c] by (simp add: utf8_read_def)
qed

theorem utf_selftest_witness:
  "sqlite3Utf8Read (WRITE_UTF8 0x20AC @ 0 # []) 0 = Some (0x20AC, 3) \<and>
   READ_UTF16LE (WRITE_UTF16LE 0x1F600 @ []) (\<lambda>_. True) 0 = Some (0x1F600, 4) \<and>
   WRITE_UTF16LE 0x1F600 = [0x3D, 0xD8, 0x00, 0xDE]"
  using utf_selftest [of "0x20AC" "[]"] utf_selftest [of "0x1F600" "[]"]
  by (simp add: WRITE_UTF8_def WRITE_UTF16LE_def)

end
