(* ===== verification/VdbeMem.thy ===== *)
theory VdbeMem
  imports UtilInt Utf
begin

text \<open>
  The value cells of the virtual machine, \<^verbatim>\<open>struct Mem\<close> of \<^verbatim>\<open>vdbeInt.h\<close>, and their operations
  in \<^verbatim>\<open>vdbemem.c\<close> and \<^verbatim>\<open>utf.c\<close>. A cell points to its text through \<^verbatim>\<open>z\<close>; the pointer is NULL,
  the cell's own allocation \<^verbatim>\<open>zMalloc\<close>, or foreign memory of which the bytes up to the end of
  the object are kept. The union \<^verbatim>\<open>u\<close> is a datatype, so that reading another member than the
  one last written is not a value of the model.

  Memory comes from a parameter \<open>al\<close>: request number \<open>k\<close> for \<open>n\<close> bytes is answered by a block
  with arbitrary content or by \<^const>\<open>None\<close>. The world counts the requests and logs the calls
  of destructors. A result \<^const>\<open>None\<close> of an operation is an access outside an object, or a
  cell that holds an aggregate context, a RowSet or a frame, which this model leaves out.
\<close>

section \<open>Flags\<close>

definition MEM_Null :: u16 where "MEM_Null = 0x0001"
definition MEM_Str :: u16 where "MEM_Str = 0x0002"
definition MEM_Int :: u16 where "MEM_Int = 0x0004"
definition MEM_Real :: u16 where "MEM_Real = 0x0008"
definition MEM_Blob :: u16 where "MEM_Blob = 0x0010"
definition MEM_RowSet :: u16 where "MEM_RowSet = 0x0020"
definition MEM_Frame :: u16 where "MEM_Frame = 0x0040"
definition MEM_TypeMask :: u16 where "MEM_TypeMask = 0x00ff"
definition MEM_Term :: u16 where "MEM_Term = 0x0200"
definition MEM_Dyn :: u16 where "MEM_Dyn = 0x0400"
definition MEM_Static :: u16 where "MEM_Static = 0x0800"
definition MEM_Ephem :: u16 where "MEM_Ephem = 0x1000"
definition MEM_Agg :: u16 where "MEM_Agg = 0x2000"
definition MEM_Zero :: u16 where "MEM_Zero = 0x4000"

lemmas MEM_defs = MEM_Null_def MEM_Str_def MEM_Int_def MEM_Real_def MEM_Blob_def MEM_RowSet_def
  MEM_Frame_def MEM_TypeMask_def MEM_Term_def MEM_Dyn_def MEM_Static_def MEM_Ephem_def
  MEM_Agg_def MEM_Zero_def

text \<open>The test \<^verbatim>\<open>flags & mask\<close> in a condition.\<close>

definition hasf :: "u16 \<Rightarrow> u16 \<Rightarrow> bool" where "hasf f m \<longleftrightarrow> f AND m \<noteq> 0"

section \<open>Cells\<close>

datatype zptr = ZNull | ZMalloc | ZExt "u8 list"

datatype memu = U_i int | U_nZero nat | U_none

record Mem =
  mz :: zptr
  mr :: u64
  mu :: memu
  mn :: nat
  mflags :: u16
  mtype :: nat
  menc :: enc
  mxDel :: "nat option"
  mzMalloc :: "u8 list option"

record world =
  nreq :: nat
  dels :: "nat list"

type_synonym alloc = "nat \<Rightarrow> nat \<Rightarrow> u8 list option"
type_synonym mresult = "(rc \<times> Mem \<times> world) option"

abbreviation (input) SQLITE_TOOBIG :: rc where "SQLITE_TOOBIG \<equiv> 18"

text \<open>What the sources rely on of the allocator: a block is at least as long as requested.\<close>

definition alloc_ok :: "alloc \<Rightarrow> bool" where
  "alloc_ok al \<longleftrightarrow> (\<forall>k n b. al k n = Some b \<longrightarrow> n \<le> length b)"

definition sqlite3DbMallocRaw :: "alloc \<Rightarrow> nat \<Rightarrow> world \<Rightarrow> u8 list option \<times> world" where
  "sqlite3DbMallocRaw al n w = (al (nreq w) n, w\<lparr>nreq := nreq w + 1\<rparr>)"

definition sqlite3DbReallocOrFree ::
    "alloc \<Rightarrow> u8 list option \<Rightarrow> nat \<Rightarrow> world \<Rightarrow> u8 list option \<times> world" where
  "sqlite3DbReallocOrFree al p n w =
    (case sqlite3DbMallocRaw al n w of
       (None, w') \<Rightarrow> (None, w')
     | (Some b, w') \<Rightarrow>
         (Some (case p of None \<Rightarrow> b | Some old \<Rightarrow> overlay (take (length b) old) b), w'))"

definition zbytes :: "Mem \<Rightarrow> u8 list option" where
  "zbytes m = (case mz m of ZNull \<Rightarrow> None | ZMalloc \<Rightarrow> mzMalloc m | ZExt b \<Rightarrow> Some b)"

text \<open>Storing through \<^verbatim>\<open>z\<close>: the new content of the object that \<^verbatim>\<open>z\<close> points to.\<close>

definition set_zbytes :: "Mem \<Rightarrow> u8 list \<Rightarrow> Mem" where
  "set_zbytes m b = (case mz m of
      ZNull \<Rightarrow> m | ZMalloc \<Rightarrow> m\<lparr>mzMalloc := Some b\<rparr> | ZExt _ \<Rightarrow> m\<lparr>mz := ZExt b\<rparr>)"

text \<open>The comparison \<^verbatim>\<open>z == zMalloc\<close> of the two pointers, and \<^verbatim>\<open>z = zMalloc\<close>.\<close>

definition z_is_zMalloc :: "Mem \<Rightarrow> bool" where
  "z_is_zMalloc m \<longleftrightarrow> mz m = ZMalloc \<or> mz m = ZNull \<and> mzMalloc m = None"

definition ptr_zMalloc :: "u8 list option \<Rightarrow> zptr" where
  "ptr_zMalloc p = (if p = None then ZNull else ZMalloc)"

text \<open>\<^verbatim>\<open>memcpy(dst, src, n)\<close> on two objects.\<close>

definition memcpy :: "u8 list \<Rightarrow> u8 list \<Rightarrow> nat \<Rightarrow> u8 list option" where
  "memcpy dst src n =
    (if n \<le> length dst \<and> n \<le> length src then Some (overlay (take n src) dst) else None)"

section \<open>Allocation and termination of the text\<close>

definition sqlite3DbMallocSize :: "u8 list option \<Rightarrow> nat" where
  "sqlite3DbMallocSize p = (case p of None \<Rightarrow> 0 | Some b \<Rightarrow> length b)"

text \<open>
  \<^verbatim>\<open>sqlite3VdbeMemGrow\<close>, first half: the cell has a block of at least \<open>n\<close> bytes or none. The
  second component says whether the content is still to be copied.
\<close>

definition memGrow_block :: "alloc \<Rightarrow> Mem \<Rightarrow> nat \<Rightarrow> bool \<Rightarrow> world \<Rightarrow> Mem \<times> bool \<times> world" where
  "memGrow_block al m n preserve w =
    (if sqlite3DbMallocSize (mzMalloc m) < n then
       if preserve \<and> z_is_zMalloc m then
         (case sqlite3DbReallocOrFree al (mzMalloc m) n w of
            (p, w') \<Rightarrow> (m\<lparr>mzMalloc := p, mz := ptr_zMalloc p\<rparr>, False, w'))
       else
         (case sqlite3DbMallocRaw al n w of
            (p, w') \<Rightarrow> (m\<lparr>mzMalloc := p\<rparr>, preserve, w'))
     else (m, preserve, w))"

definition memGrow_copy :: "Mem \<Rightarrow> bool \<Rightarrow> Mem option" where
  "memGrow_copy m preserve =
    (case mzMalloc m of
       Some dst \<Rightarrow>
         (case mz m of
            ZExt src \<Rightarrow>
              if preserve then
                (case memcpy dst src (mn m) of
                   None \<Rightarrow> None
                 | Some dst' \<Rightarrow> Some (m\<lparr>mzMalloc := Some dst'\<rparr>))
              else Some m
          | _ \<Rightarrow> Some m)
     | None \<Rightarrow> Some m)"

text \<open>The call \<^verbatim>\<open>xDel(z)\<close> of a cell with a destructor.\<close>

definition run_xDel :: "Mem \<Rightarrow> world \<Rightarrow> world" where
  "run_xDel m w =
    (if hasf (mflags m) MEM_Dyn then
       (case mxDel m of None \<Rightarrow> w | Some d \<Rightarrow> w\<lparr>dels := dels w @ [d]\<rparr>)
     else w)"

definition sqlite3VdbeMemGrow :: "alloc \<Rightarrow> Mem \<Rightarrow> nat \<Rightarrow> bool \<Rightarrow> world \<Rightarrow> mresult" where
  "sqlite3VdbeMemGrow al m n preserve w =
    (case memGrow_block al m (if n < 32 then 32 else n) preserve w of
       (m1, preserve', w1) \<Rightarrow> do {
         m2 \<leftarrow> memGrow_copy m1 preserve';
         let w2 = run_xDel m2 w1;
         let m3 = m2\<lparr>mz := ptr_zMalloc (mzMalloc m2),
                     mflags := (if mzMalloc m2 = None then MEM_Null
                                else mflags m2 AND NOT (MEM_Ephem OR MEM_Static)),
                     mxDel := None\<rparr>;
         Some (if mzMalloc m2 = None then SQLITE_NOMEM else SQLITE_OK, m3, w2)
       })"

text \<open>Two zero bytes behind the text, and the flag that says so.\<close>

definition put_nul2 :: "Mem \<Rightarrow> Mem option" where
  "put_nul2 m = do {
     b \<leftarrow> zbytes m;
     b1 \<leftarrow> wr b (mn m) 0;
     b2 \<leftarrow> wr b1 (mn m + 1) 0;
     Some ((set_zbytes m b2)\<lparr>mflags := mflags m OR MEM_Term\<rparr>)
   }"

definition sqlite3VdbeMemExpandBlob :: "alloc \<Rightarrow> Mem \<Rightarrow> world \<Rightarrow> mresult" where
  "sqlite3VdbeMemExpandBlob al m w =
    (if hasf (mflags m) MEM_Zero then
       (case mu m of
          U_nZero nZero \<Rightarrow> do {
            (rc, m1, w1) \<leftarrow>
              sqlite3VdbeMemGrow al m (if mn m + nZero = 0 then 1 else mn m + nZero) True w;
            if rc \<noteq> SQLITE_OK then Some (SQLITE_NOMEM, m1, w1)
            else do {
              b \<leftarrow> zbytes m1;
              if mn m1 + nZero \<le> length b then
                Some (SQLITE_OK,
                  (set_zbytes m1 (take (mn m1) b @ replicate nZero 0 @ drop (mn m1 + nZero) b))
                    \<lparr>mn := mn m1 + nZero,
                     mflags := mflags m1 AND NOT (MEM_Zero OR MEM_Term)\<rparr>, w1)
              else None
            }
          }
        | _ \<Rightarrow> None)
     else Some (SQLITE_OK, m, w))"

definition sqlite3VdbeMemMakeWriteable :: "alloc \<Rightarrow> Mem \<Rightarrow> world \<Rightarrow> mresult" where
  "sqlite3VdbeMemMakeWriteable al m w = do {
     (_, m1, w1) \<leftarrow> sqlite3VdbeMemExpandBlob al m w;
     if hasf (mflags m1) (MEM_Str OR MEM_Blob) \<and> \<not> z_is_zMalloc m1 then do {
       (rc, m2, w2) \<leftarrow> sqlite3VdbeMemGrow al m1 (mn m1 + 2) True w1;
       if rc \<noteq> SQLITE_OK then Some (SQLITE_NOMEM, m2, w2)
       else do {
         m3 \<leftarrow> put_nul2 m2;
         Some (SQLITE_OK, m3, w2)
       }
     } else Some (SQLITE_OK, m1, w1)
   }"

definition sqlite3VdbeMemNulTerminate :: "alloc \<Rightarrow> Mem \<Rightarrow> world \<Rightarrow> mresult" where
  "sqlite3VdbeMemNulTerminate al m w =
    (if hasf (mflags m) MEM_Term \<or> \<not> hasf (mflags m) MEM_Str then Some (SQLITE_OK, m, w)
     else do {
       (rc, m1, w1) \<leftarrow> sqlite3VdbeMemGrow al m (mn m + 2) True w;
       if rc \<noteq> SQLITE_OK then Some (SQLITE_NOMEM, m1, w1)
       else do {
         m2 \<leftarrow> put_nul2 m1;
         Some (SQLITE_OK, m2, w1)
       }
     })"

section \<open>Release and the simple setters\<close>

definition sqlite3VdbeMemReleaseExternal :: "Mem \<Rightarrow> world \<Rightarrow> (Mem \<times> world) option" where
  "sqlite3VdbeMemReleaseExternal m w =
    (if hasf (mflags m) MEM_Agg then None
     else if hasf (mflags m) MEM_Dyn \<and> mxDel m \<noteq> None then Some (m\<lparr>mxDel := None\<rparr>, run_xDel m w)
     else if hasf (mflags m) MEM_RowSet then None
     else if hasf (mflags m) MEM_Frame then None
     else Some (m, w))"

definition VdbeMemRelease :: "Mem \<Rightarrow> world \<Rightarrow> (Mem \<times> world) option" where
  "VdbeMemRelease m w =
    (if hasf (mflags m) (MEM_Agg OR MEM_Dyn OR MEM_RowSet OR MEM_Frame)
     then sqlite3VdbeMemReleaseExternal m w else Some (m, w))"

definition sqlite3VdbeMemRelease :: "Mem \<Rightarrow> world \<Rightarrow> (Mem \<times> world) option" where
  "sqlite3VdbeMemRelease m w = do {
     (m1, w1) \<leftarrow> VdbeMemRelease m w;
     Some (m1\<lparr>mz := ZNull, mzMalloc := None, mxDel := None\<rparr>, w1)
   }"

definition MemSetTypeFlag :: "Mem \<Rightarrow> u16 \<Rightarrow> Mem" where
  "MemSetTypeFlag m f = m\<lparr>mflags := (mflags m AND NOT (MEM_TypeMask OR MEM_Zero)) OR f\<rparr>"

abbreviation (input) SQLITE_INTEGER :: nat where "SQLITE_INTEGER \<equiv> 1"
abbreviation (input) SQLITE_FLOAT :: nat where "SQLITE_FLOAT \<equiv> 2"
abbreviation (input) SQLITE_TEXT :: nat where "SQLITE_TEXT \<equiv> 3"
abbreviation (input) SQLITE_BLOB :: nat where "SQLITE_BLOB \<equiv> 4"
abbreviation (input) SQLITE_NULL :: nat where "SQLITE_NULL \<equiv> 5"

definition sqlite3VdbeMemSetNull :: "Mem \<Rightarrow> Mem option" where
  "sqlite3VdbeMemSetNull m =
    (if hasf (mflags m) (MEM_Frame OR MEM_RowSet) then None
     else Some ((MemSetTypeFlag m MEM_Null)\<lparr>mtype := SQLITE_NULL\<rparr>))"

definition sqlite3VdbeMemSetZeroBlob :: "Mem \<Rightarrow> int \<Rightarrow> world \<Rightarrow> (Mem \<times> world) option" where
  "sqlite3VdbeMemSetZeroBlob m n w = do {
     (m1, w1) \<leftarrow> sqlite3VdbeMemRelease m w;
     Some (m1\<lparr>mflags := MEM_Blob OR MEM_Zero, mtype := SQLITE_BLOB, mn := 0,
              mu := U_nZero (nat n), menc := SQLITE_UTF8\<rparr>, w1)
   }"

definition sqlite3VdbeMemSetInt64 :: "Mem \<Rightarrow> int \<Rightarrow> world \<Rightarrow> (Mem \<times> world) option" where
  "sqlite3VdbeMemSetInt64 m val w = do {
     (m1, w1) \<leftarrow> sqlite3VdbeMemRelease m w;
     Some (m1\<lparr>mu := U_i val, mflags := MEM_Int, mtype := SQLITE_INTEGER\<rparr>, w1)
   }"

text \<open>
  A \<^verbatim>\<open>double\<close> is its IEEE 754 bit pattern. It is a NaN when the exponent is all ones and the
  fraction is not zero; \<^verbatim>\<open>x != x\<close> holds of exactly these.
\<close>

definition sqlite3IsNaN :: "u64 \<Rightarrow> bool" where
  "sqlite3IsNaN x \<longleftrightarrow>
     drop_bit 52 x AND 0x7FF = 0x7FF \<and> x AND 0x000FFFFFFFFFFFFF \<noteq> 0"

definition sqlite3VdbeMemSetDouble :: "Mem \<Rightarrow> u64 \<Rightarrow> world \<Rightarrow> (Mem \<times> world) option" where
  "sqlite3VdbeMemSetDouble m val w =
    (if sqlite3IsNaN val then do {
       m1 \<leftarrow> sqlite3VdbeMemSetNull m;
       Some (m1, w)
     } else do {
       (m1, w1) \<leftarrow> sqlite3VdbeMemRelease m w;
       Some (m1\<lparr>mr := val, mflags := MEM_Real, mtype := SQLITE_FLOAT\<rparr>, w1)
     })"

definition sqlite3VdbeMemTooBig :: "nat \<Rightarrow> Mem \<Rightarrow> bool option" where
  "sqlite3VdbeMemTooBig iLimit m =
    (if hasf (mflags m) (MEM_Str OR MEM_Blob) then
       if hasf (mflags m) MEM_Zero then
         (case mu m of U_nZero k \<Rightarrow> Some (iLimit < mn m + k) | _ \<Rightarrow> None)
       else Some (iLimit < mn m)
     else Some False)"

section \<open>Copies\<close>

text \<open>
  \<^verbatim>\<open>memcpy(pTo, pFrom, MEMCELLSIZE)\<close> copies every member but \<^verbatim>\<open>zMalloc\<close>: the copy of a pointer
  to the source's allocation is a pointer to foreign memory.
\<close>

definition copy_cell :: "Mem \<Rightarrow> Mem \<Rightarrow> Mem" where
  "copy_cell to fr = fr\<lparr>
     mz := (case mz fr of
         ZMalloc \<Rightarrow> (case mzMalloc fr of None \<Rightarrow> ZNull | Some b \<Rightarrow> ZExt b) | p \<Rightarrow> p),
     mzMalloc := mzMalloc to\<rparr>"

definition sqlite3VdbeMemShallowCopy :: "Mem \<Rightarrow> Mem \<Rightarrow> u16 \<Rightarrow> world \<Rightarrow> (Mem \<times> world) option" where
  "sqlite3VdbeMemShallowCopy pTo pFrom srcType w = do {
     (to, w1) \<leftarrow> VdbeMemRelease pTo w;
     let to = (copy_cell to pFrom)\<lparr>mxDel := None\<rparr>;
     Some (if hasf (mflags pFrom) MEM_Static then to
           else to\<lparr>mflags := (mflags to AND NOT (MEM_Dyn OR MEM_Static OR MEM_Ephem)) OR srcType\<rparr>,
           w1)
   }"

definition sqlite3VdbeMemCopy :: "alloc \<Rightarrow> Mem \<Rightarrow> Mem \<Rightarrow> world \<Rightarrow> mresult" where
  "sqlite3VdbeMemCopy al pTo pFrom w = do {
     (to, w1) \<leftarrow> VdbeMemRelease pTo w;
     let to = copy_cell to pFrom;
     let to = to\<lparr>mflags := mflags to AND NOT MEM_Dyn\<rparr>;
     if hasf (mflags to) (MEM_Str OR MEM_Blob) \<and> \<not> hasf (mflags pFrom) MEM_Static then
       sqlite3VdbeMemMakeWriteable al (to\<lparr>mflags := mflags to OR MEM_Ephem\<rparr>) w1
     else Some (SQLITE_OK, to, w1)
   }"

definition sqlite3VdbeMemMove :: "Mem \<Rightarrow> Mem \<Rightarrow> world \<Rightarrow> (Mem \<times> Mem \<times> world) option" where
  "sqlite3VdbeMemMove pTo pFrom w = do {
     (to, w1) \<leftarrow> sqlite3VdbeMemRelease pTo w;
     Some (pFrom,
       pFrom\<lparr>mz := (case mz pFrom of
           ZMalloc \<Rightarrow> (case mzMalloc pFrom of None \<Rightarrow> ZNull | Some b \<Rightarrow> ZExt b) | p \<Rightarrow> p),
         mflags := MEM_Null, mxDel := None, mzMalloc := None\<rparr>, w1)
   }"

section \<open>Change of encoding\<close>

text \<open>A writing macro at position \<open>j\<close> of the output buffer.\<close>

definition emit :: "u8 list \<Rightarrow> nat \<Rightarrow> u8 list \<Rightarrow> u8 list option" where
  "emit zOut j bs =
    (if j + length bs \<le> length zOut
     then Some (take j zOut @ bs @ drop (j + length bs) zOut) else None)"

lemma utf8_more_ge: "utf8_more z T i c = Some (c', j) \<Longrightarrow> i \<le> j"
proof (induction z T i c rule: utf8_more.induct)
  case (1 z T i c)
  show ?case
  proof (cases "T = Some i \<or> rd z i = None")
    case True
    with 1 (2) show ?thesis by (auto simp: utf8_more.simps [of z T i c] split: if_splits)
  next
    case False
    then obtain b where "T \<noteq> Some i" "rd z i = Some b" by auto
    with 1 show ?thesis by (auto simp: utf8_more.simps [of z T i c] split: if_splits)
  qed
qed

lemma READ_UTF8_gt: "READ_UTF8 z t i = Some (c, j) \<Longrightarrow> i < j \<and> i < length z"
  by (auto simp: READ_UTF8_def rd_eq_Some_iff split: if_splits bind_splits dest!: utf8_more_ge)

lemma READ_UTF16_gt:
  "READ_UTF16LE z tm i = Some (c, j) \<Longrightarrow> i < j \<and> i < length z"
  "READ_UTF16BE z tm i = Some (c, j) \<Longrightarrow> i < j \<and> i < length z"
  by (auto simp: READ_UTF16LE_def READ_UTF16BE_def Let_def rd_eq_Some_iff split: if_splits bind_splits)

text \<open>UTF-8 to UTF-16, in either byte order.\<close>

function trans_8to16 :: "bool \<Rightarrow> u8 list \<Rightarrow> nat \<Rightarrow> nat \<Rightarrow> u8 list \<Rightarrow> nat \<Rightarrow> (u8 list \<times> nat) option" where
  "trans_8to16 be zIn zTerm i zOut j =
    (if i < zTerm then
       (case READ_UTF8 zIn zTerm i of
          None \<Rightarrow> None
        | Some (c, i') \<Rightarrow>
            (let bs = (if be then WRITE_UTF16BE c else WRITE_UTF16LE c) in
             case emit zOut j bs of
               None \<Rightarrow> None
             | Some zOut' \<Rightarrow> trans_8to16 be zIn zTerm i' zOut' (j + length bs)))
     else Some (zOut, j))"
  by pat_completeness auto
termination
  by (relation "measure (\<lambda>(be, zIn, zTerm, i, zOut, j). length zIn - i)")
    (auto dest!: READ_UTF8_gt)

declare trans_8to16.simps [simp del]

function trans_16to8 :: "bool \<Rightarrow> u8 list \<Rightarrow> nat \<Rightarrow> nat \<Rightarrow> u8 list \<Rightarrow> nat \<Rightarrow> (u8 list \<times> nat) option" where
  "trans_16to8 be zIn zTerm i zOut j =
    (if i < zTerm then
       (case (if be then READ_UTF16BE zIn (\<lambda>k. k < zTerm) i else READ_UTF16LE zIn (\<lambda>k. k < zTerm) i) of
          None \<Rightarrow> None
        | Some (c, i') \<Rightarrow>
            (case emit zOut j (WRITE_UTF8 c) of
               None \<Rightarrow> None
             | Some zOut' \<Rightarrow> trans_16to8 be zIn zTerm i' zOut' (j + length (WRITE_UTF8 c))))
     else Some (zOut, j))"
  by pat_completeness auto
termination
  by (relation "measure (\<lambda>(be, zIn, zTerm, i, zOut, j). length zIn - i)")
    (auto dest!: READ_UTF16_gt split: if_splits)

declare trans_16to8.simps [simp del]

text \<open>Exchange of the bytes of every unit, in place, up to \<^verbatim>\<open>zTerm\<close>.\<close>

function swap_loop :: "u8 list \<Rightarrow> nat \<Rightarrow> nat \<Rightarrow> u8 list option" where
  "swap_loop z zTerm i =
    (if i < zTerm then
       (case (rd z i, rd z (i + 1)) of
          (Some temp, Some b) \<Rightarrow> swap_loop (z[i := b, i + 1 := temp]) zTerm (i + 2)
        | _ \<Rightarrow> None)
     else Some z)"
  by pat_completeness auto
termination
  by (relation "measure (\<lambda>(z, zTerm, i). zTerm - i)") auto

declare swap_loop.simps [simp del]

definition translate_swap :: "alloc \<Rightarrow> Mem \<Rightarrow> enc \<Rightarrow> world \<Rightarrow> mresult" where
  "translate_swap al m desiredEnc w = do {
     (rc, m1, w1) \<leftarrow> sqlite3VdbeMemMakeWriteable al m w;
     if rc \<noteq> SQLITE_OK then Some (SQLITE_NOMEM, m1, w1)
     else do {
       b \<leftarrow> zbytes m1;
       b' \<leftarrow> swap_loop b (mn m1 - mn m1 mod 2) 0;
       Some (SQLITE_OK, (set_zbytes m1 b')\<lparr>menc := desiredEnc\<rparr>, w1)
     }
   }"

text \<open>The conversion loops into a fresh buffer; the result is the buffer and the length of the text.\<close>

definition translate_into :: "Mem \<Rightarrow> enc \<Rightarrow> u8 list \<Rightarrow> (u8 list \<times> nat) option" where
  "translate_into m desiredEnc zOut = do {
     zIn \<leftarrow> zbytes m;
     if menc m = SQLITE_UTF8 then do {
       (out, j) \<leftarrow> trans_8to16 (desiredEnc = SQLITE_UTF16BE) zIn (mn m) 0 zOut 0;
       out \<leftarrow> wr out j 0;
       out \<leftarrow> wr out (j + 1) 0;
       Some (out, j)
     } else do {
       (out, j) \<leftarrow> trans_16to8 (menc m = SQLITE_UTF16BE) zIn (mn m) 0 zOut 0;
       out \<leftarrow> wr out j 0;
       Some (out, j)
     }
   }"

definition sqlite3VdbeMemTranslate :: "alloc \<Rightarrow> Mem \<Rightarrow> enc \<Rightarrow> world \<Rightarrow> mresult" where
  "sqlite3VdbeMemTranslate al m desiredEnc w =
    (if menc m \<noteq> SQLITE_UTF8 \<and> desiredEnc \<noteq> SQLITE_UTF8 then translate_swap al m desiredEnc w
     else
       (let m = (if desiredEnc = SQLITE_UTF8 then m\<lparr>mn := mn m - mn m mod 2\<rparr> else m);
            len = (if desiredEnc = SQLITE_UTF8 then mn m * 2 + 1 else mn m * 2 + 2) in
        case sqlite3DbMallocRaw al len w of
          (None, w1) \<Rightarrow> Some (SQLITE_NOMEM, m, w1)
        | (Some zOut, w1) \<Rightarrow> do {
            (out, n) \<leftarrow> translate_into m desiredEnc zOut;
            (m1, w2) \<leftarrow> sqlite3VdbeMemRelease (m\<lparr>mn := n\<rparr>) w1;
            Some (SQLITE_OK,
              m1\<lparr>mflags := (mflags m1 AND NOT (MEM_Static OR MEM_Dyn OR MEM_Ephem))
                            OR (MEM_Term OR MEM_Dyn),
                 menc := desiredEnc, mz := ZMalloc, mzMalloc := Some out\<rparr>, w2)
          }))"

definition sqlite3VdbeChangeEncoding :: "alloc \<Rightarrow> Mem \<Rightarrow> enc \<Rightarrow> world \<Rightarrow> mresult" where
  "sqlite3VdbeChangeEncoding al m desiredEnc w =
    (if \<not> hasf (mflags m) MEM_Str \<or> menc m = desiredEnc then Some (SQLITE_OK, m, w)
     else sqlite3VdbeMemTranslate al m desiredEnc w)"

definition bom_of :: "u8 \<Rightarrow> u8 \<Rightarrow> enc option" where
  "bom_of b1 b2 =
    (if b1 = 0xFF \<and> b2 = 0xFE then Some SQLITE_UTF16LE
     else if b1 = 0xFE \<and> b2 = 0xFF then Some SQLITE_UTF16BE else None)"

text \<open>\<^verbatim>\<open>memmove(z, &z[2], n)\<close> inside the text.\<close>

definition move_down2 :: "u8 list \<Rightarrow> nat \<Rightarrow> u8 list option" where
  "move_down2 b n =
    (if n + 2 \<le> length b then Some (overlay (take n (drop 2 b)) b) else None)"

definition sqlite3VdbeMemHandleBom :: "alloc \<Rightarrow> Mem \<Rightarrow> world \<Rightarrow> mresult" where
  "sqlite3VdbeMemHandleBom al m w = do {
     bom \<leftarrow> (if 1 < mn m then do {
               b \<leftarrow> zbytes m;
               b1 \<leftarrow> rd b 0;
               b2 \<leftarrow> rd b 1;
               Some (bom_of b1 b2)
             } else Some None);
     case bom of
       None \<Rightarrow> Some (SQLITE_OK, m, w)
     | Some e \<Rightarrow> do {
         (rc, m1, w1) \<leftarrow> sqlite3VdbeMemMakeWriteable al m w;
         if rc = SQLITE_OK then do {
           b \<leftarrow> zbytes m1;
           b' \<leftarrow> move_down2 b (mn m1 - 2);
           m2 \<leftarrow> put_nul2 ((set_zbytes m1 b')\<lparr>mn := mn m1 - 2\<rparr>);
           Some (rc, m2\<lparr>menc := e\<rparr>, w1)
         } else Some (rc, m1, w1)
       }
   }"

section \<open>Setting text\<close>

text \<open>The ways \<^verbatim>\<open>xDel\<close> tells how the text is managed.\<close>

datatype xdel = SQLITE_TRANSIENT | SQLITE_DYNAMIC | SQLITE_STATIC | XDel nat

text \<open>The scans for the end of a text of unknown length.\<close>

function nbyte8 :: "u8 list \<Rightarrow> nat \<Rightarrow> nat \<Rightarrow> nat option" where
  "nbyte8 z iLimit k =
    (if k \<le> iLimit then
       (case rd z k of None \<Rightarrow> None | Some b \<Rightarrow> if b \<noteq> 0 then nbyte8 z iLimit (k + 1) else Some k)
     else Some k)"
  by pat_completeness auto
termination
  by (relation "measure (\<lambda>(z, iLimit, k). Suc iLimit - k)") auto

declare nbyte8.simps [simp del]

function nbyte16 :: "u8 list \<Rightarrow> nat \<Rightarrow> nat \<Rightarrow> nat option" where
  "nbyte16 z iLimit k =
    (if k \<le> iLimit then
       (case (rd z k, rd z (k + 1)) of
          (Some a, Some b) \<Rightarrow> if a OR b \<noteq> 0 then nbyte16 z iLimit (k + 2) else Some k
        | _ \<Rightarrow> None)
     else Some k)"
  by pat_completeness auto
termination
  by (relation "measure (\<lambda>(z, iLimit, k). Suc iLimit - k)") auto

declare nbyte16.simps [simp del]

text \<open>
  \<^verbatim>\<open>sqlite3VdbeMemSetStr\<close>. The encoding is \<^const>\<open>None\<close> for a blob; the length is \<^const>\<open>None\<close>
  when it is negative in the source.
\<close>

definition setStr_len :: "nat \<Rightarrow> u8 list \<Rightarrow> nat option \<Rightarrow> enc option \<Rightarrow> nat option" where
  "setStr_len iLimit z n e =
    (case n of
       Some k \<Rightarrow> Some k
     | None \<Rightarrow> if e = Some SQLITE_UTF8 then nbyte8 z iLimit 0 else nbyte16 z iLimit 0)"

definition setStr_store ::
    "alloc \<Rightarrow> nat \<Rightarrow> Mem \<Rightarrow> u8 list \<Rightarrow> nat \<Rightarrow> bool \<Rightarrow> enc option \<Rightarrow> xdel \<Rightarrow> world \<Rightarrow>
     (rc \<times> u16 \<times> Mem \<times> world) option" where
  "setStr_store al iLimit m z nByte trm e xDel w =
    (case xDel of
       SQLITE_TRANSIENT \<Rightarrow>
         (let nAlloc = nByte + (if trm then if e = Some SQLITE_UTF8 then 1 else 2 else 0) in
          if iLimit < nByte then Some (SQLITE_TOOBIG, 0, m, w)
          else do {
            (rc, m1, w1) \<leftarrow> sqlite3VdbeMemGrow al m nAlloc False w;
            if rc \<noteq> SQLITE_OK then Some (SQLITE_NOMEM, 0, m1, w1)
            else do {
              dst \<leftarrow> zbytes m1;
              dst' \<leftarrow> memcpy dst z nAlloc;
              Some (SQLITE_OK, 0, set_zbytes m1 dst', w1)
            }
          })
     | SQLITE_DYNAMIC \<Rightarrow> do {
         (m1, w1) \<leftarrow> sqlite3VdbeMemRelease m w;
         Some (SQLITE_OK, 0, m1\<lparr>mz := ZMalloc, mzMalloc := Some z, mxDel := None\<rparr>, w1)
       }
     | SQLITE_STATIC \<Rightarrow> do {
         (m1, w1) \<leftarrow> sqlite3VdbeMemRelease m w;
         Some (SQLITE_OK, MEM_Static, m1\<lparr>mz := ZExt z, mxDel := None\<rparr>, w1)
       }
     | XDel d \<Rightarrow> do {
         (m1, w1) \<leftarrow> sqlite3VdbeMemRelease m w;
         Some (SQLITE_OK, MEM_Dyn, m1\<lparr>mz := ZExt z, mxDel := Some d\<rparr>, w1)
       })"

definition sqlite3VdbeMemSetStr ::
    "alloc \<Rightarrow> nat \<Rightarrow> Mem \<Rightarrow> u8 list option \<Rightarrow> nat option \<Rightarrow> enc option \<Rightarrow> xdel \<Rightarrow> world \<Rightarrow> mresult" where
  "sqlite3VdbeMemSetStr al iLimit m zp n e xDel w =
    (case zp of
       None \<Rightarrow> do { m1 \<leftarrow> sqlite3VdbeMemSetNull m; Some (SQLITE_OK, m1, w) }
     | Some z \<Rightarrow> do {
         nByte \<leftarrow> setStr_len iLimit z n e;
         (rc, fl, m1, w1) \<leftarrow> setStr_store al iLimit m z nByte (n = None) e xDel w;
         if rc \<noteq> SQLITE_OK then Some (rc, m1, w1)
         else do {
           let flags = (if e = None then MEM_Blob else MEM_Str) OR (if n = None then MEM_Term else 0) OR fl;
           let m2 = m1\<lparr>mn := nByte, mflags := flags,
                       menc := (case e of None \<Rightarrow> SQLITE_UTF8 | Some e' \<Rightarrow> e'),
                       mtype := (if e = None then SQLITE_BLOB else SQLITE_TEXT)\<rparr>;
           (rc2, m3, w2) \<leftarrow> (if menc m2 \<noteq> SQLITE_UTF8 then sqlite3VdbeMemHandleBom al m2 w1
                             else Some (SQLITE_OK, m2, w1));
           Some (if rc2 \<noteq> SQLITE_OK then SQLITE_NOMEM
                 else if iLimit < nByte then SQLITE_TOOBIG else SQLITE_OK, m3, w2)
         }
       })"

section \<open>Flag tests\<close>

lemma hasf_or [simp]: "hasf f (a OR b) \<longleftrightarrow> hasf f a \<or> hasf f b"
  by (simp add: hasf_def bit.conj_disj_distrib or_eq_0_iff)

lemma hasf_exp: "hasf f (2 ^ k) = bit f k"
  by (simp add: hasf_def and_exp_eq_0_iff_not_bit)

lemma hasf_bits [simp]:
  "hasf f MEM_Null = bit f 0" "hasf f MEM_Str = bit f 1" "hasf f MEM_Int = bit f 2"
  "hasf f MEM_Real = bit f 3" "hasf f MEM_Blob = bit f 4" "hasf f MEM_RowSet = bit f 5"
  "hasf f MEM_Frame = bit f 6" "hasf f MEM_Term = bit f 9" "hasf f MEM_Dyn = bit f 10"
  "hasf f MEM_Static = bit f 11" "hasf f MEM_Ephem = bit f 12" "hasf f MEM_Agg = bit f 13"
  "hasf f MEM_Zero = bit f 14"
  using hasf_exp [of f 0] hasf_exp [of f 1] hasf_exp [of f 2] hasf_exp [of f 3] hasf_exp [of f 4]
    hasf_exp [of f 5] hasf_exp [of f 6] hasf_exp [of f 9] hasf_exp [of f 10] hasf_exp [of f 11]
    hasf_exp [of f 12] hasf_exp [of f 13] hasf_exp [of f 14]
  by (simp_all add: MEM_defs)

named_theorems flag_simps \<open>evaluation of a flag bit after an update of the flags\<close>

lemma bit_u16_exp: "bit (2 ^ k :: u16) n \<longleftrightarrow> n = k \<and> n < 16"
  by (auto simp: bit_simps)

lemma MEM_exp:
  "MEM_Null = 2 ^ 0" "MEM_Str = 2 ^ 1" "MEM_Int = 2 ^ 2" "MEM_Real = 2 ^ 3" "MEM_Blob = 2 ^ 4"
  "MEM_RowSet = 2 ^ 5" "MEM_Frame = 2 ^ 6" "MEM_Term = 2 ^ 9" "MEM_Dyn = 2 ^ 10"
  "MEM_Static = 2 ^ 11" "MEM_Ephem = 2 ^ 12" "MEM_Agg = 2 ^ 13" "MEM_Zero = 2 ^ 14"
  by (simp_all add: MEM_defs)

lemma bit_MEM [flag_simps]:
  "bit MEM_Null n \<longleftrightarrow> n = 0" "bit MEM_Str n \<longleftrightarrow> n = 1" "bit MEM_Int n \<longleftrightarrow> n = 2"
  "bit MEM_Real n \<longleftrightarrow> n = 3" "bit MEM_Blob n \<longleftrightarrow> n = 4" "bit MEM_RowSet n \<longleftrightarrow> n = 5"
  "bit MEM_Frame n \<longleftrightarrow> n = 6" "bit MEM_Term n \<longleftrightarrow> n = 9" "bit MEM_Dyn n \<longleftrightarrow> n = 10"
  "bit MEM_Static n \<longleftrightarrow> n = 11" "bit MEM_Ephem n \<longleftrightarrow> n = 12" "bit MEM_Agg n \<longleftrightarrow> n = 13"
  "bit MEM_Zero n \<longleftrightarrow> n = 14"
  unfolding MEM_exp bit_u16_exp by auto

lemma bit_MEM_TypeMask [flag_simps]: "bit MEM_TypeMask n \<longleftrightarrow> n < 8"
proof -
  have "MEM_TypeMask = mask 8" by (simp add: MEM_TypeMask_def mask_eq_exp_minus_1)
  then have "bit MEM_TypeMask n = bit (mask 8 :: u16) n" by (rule arg_cong)
  then show ?thesis unfolding bit_mask_iff by auto
qed

lemma bit_not_u16 [flag_simps]: "bit (NOT f :: u16) n \<longleftrightarrow> n < 16 \<and> \<not> bit f n"
  by (auto simp: bit_simps)

declare bit_and_iff [flag_simps] bit_or_iff [flag_simps]

end
