(* ===== verification/MemInv.thy ===== *)
theory MemInv
  imports VdbeMem Refines
begin

text \<open>
  The invariant of the value cells and its preservation by every operation of \<^verbatim>\<open>vdbemem.c\<close>
  that is modelled. That an operation returns \<^const>\<open>Some\<close> from a cell in the invariant is memory
  safety: no read or write left the object that \<^verbatim>\<open>z\<close> points to.
\<close>

section \<open>The invariant\<close>

fun len_ok :: "u8 list option \<Rightarrow> nat \<Rightarrow> bool" where
  "len_ok None n \<longleftrightarrow> n = 0"
| "len_ok (Some b) n \<longleftrightarrow> n \<le> length b"

definition text_len_ok :: "Mem \<Rightarrow> bool" where
  "text_len_ok m \<longleftrightarrow> len_ok (zbytes m) (mn m)"

fun nul_at :: "u8 list option \<Rightarrow> nat \<Rightarrow> enc \<Rightarrow> bool" where
  "nul_at None n e \<longleftrightarrow> False"
| "nul_at (Some b) n e \<longleftrightarrow> rd b n = Some 0 \<and> (e \<noteq> SQLITE_UTF8 \<longrightarrow> rd b (Suc n) = Some 0)"

definition terminated :: "Mem \<Rightarrow> bool" where
  "terminated m \<longleftrightarrow> nul_at (zbytes m) (mn m) (menc m)"

text \<open>The sum that the assertion at the head of \<^verbatim>\<open>sqlite3VdbeMemGrow\<close> bounds by one.\<close>

definition owners :: "Mem \<Rightarrow> nat" where
  "owners m = of_bool (mz m = ZMalloc) + of_bool (hasf (mflags m) MEM_Dyn \<and> mxDel m \<noteq> None)
     + of_bool (hasf (mflags m) MEM_Ephem) + of_bool (hasf (mflags m) MEM_Static)"

definition mem_ok :: "nat \<Rightarrow> Mem \<Rightarrow> bool" where
  "mem_ok iLimit m \<longleftrightarrow>
    \<not> hasf (mflags m) (MEM_Agg OR MEM_RowSet OR MEM_Frame) \<and>
    (mz m = ZMalloc \<longrightarrow> mzMalloc m \<noteq> None) \<and>
    owners m \<le> 1 \<and>
    (hasf (mflags m) (MEM_Str OR MEM_Blob) \<longrightarrow> text_len_ok m) \<and>
    (hasf (mflags m) MEM_Str \<longrightarrow> zbytes m \<noteq> None) \<and>
    (hasf (mflags m) MEM_Str \<and> menc m \<noteq> SQLITE_UTF8 \<longrightarrow> even (mn m)) \<and>
    (hasf (mflags m) MEM_Str \<and> hasf (mflags m) MEM_Term \<and> mn m \<le> iLimit \<longrightarrow> terminated m) \<and>
    (hasf (mflags m) MEM_Zero \<longrightarrow> hasf (mflags m) MEM_Blob \<and> \<not> hasf (mflags m) MEM_Str \<and>
      (\<exists>k. mu m = U_nZero k)) \<and>
    (hasf (mflags m) MEM_Int \<longrightarrow> (\<exists>i. mu m = U_i i \<and> i64_range i))"

section \<open>Growing the buffer\<close>

lemma alloc_okD: "alloc_ok al \<Longrightarrow> al k n = Some b \<Longrightarrow> n \<le> length b"
  by (auto simp: alloc_ok_def)

text \<open>What a successful and a failed \<^verbatim>\<open>sqlite3VdbeMemGrow\<close> leaves behind.\<close>

definition grown :: "Mem \<Rightarrow> nat \<Rightarrow> u8 list \<Rightarrow> Mem \<Rightarrow> bool" where
  "grown m n txt m' \<longleftrightarrow>
    (\<exists>b. n \<le> length b \<and> 32 \<le> length b \<and> take (length txt) b = txt \<and>
      m' = m\<lparr>mz := ZMalloc, mzMalloc := Some b, mxDel := None,
             mflags := mflags m AND NOT (MEM_Ephem OR MEM_Static)\<rparr>)"

definition lost :: "Mem \<Rightarrow> Mem \<Rightarrow> bool" where
  "lost m m' \<longleftrightarrow> m' = m\<lparr>mz := ZNull, mzMalloc := None, mxDel := None, mflags := MEM_Null\<rparr>"

fun take_text :: "nat \<Rightarrow> u8 list option \<Rightarrow> u8 list" where
  "take_text n None = []"
| "take_text n (Some b) = take n b"

definition text_of :: "Mem \<Rightarrow> u8 list" where
  "text_of m = take_text (mn m) (zbytes m)"

lemma length_text_of: "text_len_ok m \<Longrightarrow> length (text_of m) = mn m"
  by (cases "zbytes m") (auto simp: text_len_ok_def text_of_def)

text \<open>The block of the cell once the content has been carried over.\<close>

definition block_ok :: "nat \<Rightarrow> u8 list \<Rightarrow> u8 list option \<Rightarrow> bool" where
  "block_ok n txt p \<longleftrightarrow> (\<forall>b. p = Some b \<longrightarrow> n \<le> length b \<and> take (length txt) b = txt)"

lemma take_overlay: "n \<le> length src \<Longrightarrow> take n (overlay (take n src) dst) = take n src"
  by (simp add: overlay_def)

lemma grow_realloc:
  assumes al: "alloc_ok al" and m: "text_len_ok m" "mz m = ZMalloc \<longrightarrow> mzMalloc m \<noteq> None"
    and z: "z_is_zMalloc m" and n: "sqlite3DbMallocSize (mzMalloc m) < n"
  shows "\<exists>p w'. sqlite3DbReallocOrFree al (mzMalloc m) n w = (p, w') \<and> block_ok n (text_of m) p"
proof (cases "al (nreq w) n")
  case None
  then show ?thesis
    by (simp add: sqlite3DbReallocOrFree_def sqlite3DbMallocRaw_def block_ok_def)
next
  case (Some b)
  have nb: "n \<le> length b" using al Some by (rule alloc_okD)
  show ?thesis
  proof (cases "mzMalloc m")
    case None
    with z m have "text_of m = []" by (auto simp: z_is_zMalloc_def text_of_def zbytes_def)
    with None Some nb show ?thesis
      by (simp add: sqlite3DbReallocOrFree_def sqlite3DbMallocRaw_def block_ok_def)
  next
    case old: (Some old)
    with z have "zbytes m = Some old" by (auto simp: z_is_zMalloc_def zbytes_def)
    with m have "text_of m = take (mn m) old" "mn m \<le> length old"
      by (auto simp: text_of_def text_len_ok_def)
    moreover have "length old < length b" using n nb old by (simp add: sqlite3DbMallocSize_def)
    ultimately show ?thesis using old Some nb
      by (simp add: sqlite3DbReallocOrFree_def sqlite3DbMallocRaw_def block_ok_def overlay_def)
  qed
qed

lemma grow_copy:
  assumes m: "text_len_ok m" and z: "mz m \<noteq> ZMalloc" and p: "block_ok n [] p" "mn m \<le> n"
  shows "\<exists>p'. memGrow_copy (m\<lparr>mzMalloc := p\<rparr>) True = Some (m\<lparr>mzMalloc := p'\<rparr>) \<and>
    block_ok n (text_of m) p'"
proof (cases p)
  case None
  then show ?thesis by (auto simp: memGrow_copy_def block_ok_def)
next
  case (Some b)
  then have nb: "n \<le> length b" using p by (simp add: block_ok_def)
  show ?thesis
  proof (cases "mz m")
    case ZNull
    then show ?thesis using Some nb
      by (auto simp: memGrow_copy_def block_ok_def text_of_def zbytes_def)
  next
    case (ZExt src)
    then have "mn m \<le> length src" using m by (simp add: text_len_ok_def zbytes_def)
    with ZExt Some nb p(2) show ?thesis
      by (auto simp: memGrow_copy_def block_ok_def text_of_def zbytes_def memcpy_def overlay_def)
  qed (use z in simp)
qed

lemma Mem_id_update [simp]: "m\<lparr>mz := mz m\<rparr> = (m :: Mem)" "m\<lparr>mzMalloc := mzMalloc m\<rparr> = (m :: Mem)"
  by (cases m, simp)+

definition reblocked :: "Mem \<Rightarrow> Mem \<Rightarrow> bool" where
  "reblocked m m' \<longleftrightarrow> m' = m\<lparr>mz := mz m', mzMalloc := mzMalloc m'\<rparr>"

lemma reblockedI: "reblocked m (m\<lparr>mz := a, mzMalloc := p\<rparr>)" "reblocked m (m\<lparr>mzMalloc := p\<rparr>)"
  "reblocked m (m\<lparr>mzMalloc := p, mz := a\<rparr>)" "reblocked m m"
  by (cases m, simp add: reblocked_def)+

lemma grow_block_copy:
  assumes al: "alloc_ok al" and m: "text_len_ok m" "mz m = ZMalloc \<longrightarrow> mzMalloc m \<noteq> None"
    and n: "mn m \<le> n"
  shows "\<exists>m1 b w1 m2. memGrow_block al m n True w = (m1, b, w1) \<and>
    memGrow_copy m1 b = Some m2 \<and> reblocked m m2 \<and> block_ok n (text_of m) (mzMalloc m2)"
proof (cases "sqlite3DbMallocSize (mzMalloc m) < n")
  case small: True
  show ?thesis
  proof (cases "z_is_zMalloc m")
    case True
    from grow_realloc [OF al m True small, of w] obtain p w' where
      "sqlite3DbReallocOrFree al (mzMalloc m) n w = (p, w')" "block_ok n (text_of m) p" by blast
    then have "memGrow_block al m n True w = (m\<lparr>mzMalloc := p, mz := ptr_zMalloc p\<rparr>, False, w')"
      "memGrow_copy (m\<lparr>mzMalloc := p, mz := ptr_zMalloc p\<rparr>) False = Some (m\<lparr>mzMalloc := p, mz := ptr_zMalloc p\<rparr>)"
      "block_ok n (text_of m) (mzMalloc (m\<lparr>mzMalloc := p, mz := ptr_zMalloc p\<rparr>))"
      using True small
      by (simp_all add: memGrow_block_def memGrow_copy_def ptr_zMalloc_def split: option.splits)
    then show ?thesis using reblockedI(3) by blast
  next
    case False
    then have z: "mz m \<noteq> ZMalloc" by (auto simp: z_is_zMalloc_def)
    have "block_ok n [] (al (nreq w) n)" using al by (auto simp: block_ok_def dest: alloc_okD)
    from grow_copy [OF m(1) z this n] obtain p' where
      "memGrow_copy (m\<lparr>mzMalloc := al (nreq w) n\<rparr>) True = Some (m\<lparr>mzMalloc := p'\<rparr>)"
      "block_ok n (text_of m) p'" by blast
    moreover have "memGrow_block al m n True w =
        (m\<lparr>mzMalloc := al (nreq w) n\<rparr>, True, w\<lparr>nreq := nreq w + 1\<rparr>)"
      using small False by (simp add: memGrow_block_def sqlite3DbMallocRaw_def)
    ultimately show ?thesis using reblockedI(2) [of m p'] by fastforce
  qed
next
  case big: False
  then have blk: "memGrow_block al m n True w = (m, True, w)" by (simp add: memGrow_block_def)
  show ?thesis
  proof (cases "mz m = ZMalloc")
    case True
    then obtain b where b: "mzMalloc m = Some b" using m by auto
    with True have "memGrow_copy m True = Some m" by (simp add: memGrow_copy_def)
    moreover have "block_ok n (text_of m) (mzMalloc m)"
      using True b big m by (simp add: block_ok_def text_of_def zbytes_def text_len_ok_def sqlite3DbMallocSize_def)
    ultimately show ?thesis using blk reblockedI(4) by blast
  next
    case False
    have "block_ok n [] (mzMalloc m)" using big by (auto simp: block_ok_def sqlite3DbMallocSize_def)
    from grow_copy [OF m(1) False this n] obtain p' where
      "memGrow_copy m True = Some (m\<lparr>mzMalloc := p'\<rparr>)" "block_ok n (text_of m) p'" by auto
    then show ?thesis using blk reblockedI(2) [of m p'] by fastforce
  qed
qed

text \<open>The outcome of growing, with or without the content kept.\<close>

lemma grow_finish:
  assumes "memGrow_block al m (if n < 32 then 32 else n) pres w = (m1, b, w1)"
    "memGrow_copy m1 b = Some m2" "reblocked m m2"
    "block_ok (if n < 32 then 32 else n) txt (mzMalloc m2)"
  shows "\<exists>rc m' w'. sqlite3VdbeMemGrow al m n pres w = Some (rc, m', w') \<and>
    (rc = SQLITE_OK \<and> grown m n txt m' \<or> rc = SQLITE_NOMEM \<and> lost m m')"
proof (cases "mzMalloc m2")
  case None
  then have "m2 = m\<lparr>mz := mz m2, mzMalloc := None\<rparr>" using assms(3) by (simp add: reblocked_def)
  then have "m2\<lparr>mz := ZNull, mflags := MEM_Null, mxDel := None\<rparr>
      = m\<lparr>mz := ZNull, mzMalloc := None, mxDel := None, mflags := MEM_Null\<rparr>"
    by (cases m; cases m2) simp
  with assms None show ?thesis
    by (simp add: sqlite3VdbeMemGrow_def ptr_zMalloc_def lost_def)
next
  case (Some bb)
  then have "m2 = m\<lparr>mz := mz m2, mzMalloc := Some bb\<rparr>" using assms(3) by (simp add: reblocked_def)
  then have "m2\<lparr>mz := ZMalloc, mflags := mflags m2 AND NOT (MEM_Ephem OR MEM_Static), mxDel := None\<rparr>
      = m\<lparr>mz := ZMalloc, mzMalloc := Some bb, mxDel := None,
          mflags := mflags m AND NOT (MEM_Ephem OR MEM_Static)\<rparr>"
    by (cases m; cases m2) simp
  moreover have "n \<le> length bb \<and> 32 \<le> length bb \<and> take (length txt) bb = txt"
    using assms(4) Some by (simp add: block_ok_def split: if_splits)
  ultimately show ?thesis using assms Some
    by (auto simp: sqlite3VdbeMemGrow_def ptr_zMalloc_def grown_def)
qed

lemma grow_preserve:
  assumes "alloc_ok al" "text_len_ok m" "mz m = ZMalloc \<longrightarrow> mzMalloc m \<noteq> None" "mn m \<le> n"
  shows "\<exists>rc m' w'. sqlite3VdbeMemGrow al m n True w = Some (rc, m', w') \<and>
    (rc = SQLITE_OK \<and> grown m n (text_of m) m' \<or> rc = SQLITE_NOMEM \<and> lost m m')"
proof -
  have "mn m \<le> (if n < 32 then 32 else n)" using assms(4) by simp
  from grow_block_copy [OF assms(1-3) this, of w] obtain m1 b w1 m2 where
    "memGrow_block al m (if n < 32 then 32 else n) True w = (m1, b, w1)"
    "memGrow_copy m1 b = Some m2" "reblocked m m2"
    "block_ok (if n < 32 then 32 else n) (text_of m) (mzMalloc m2)" by blast
  then show ?thesis by (rule grow_finish)
qed

lemma grow_discard:
  assumes "alloc_ok al"
  shows "\<exists>rc m' w'. sqlite3VdbeMemGrow al m n False w = Some (rc, m', w') \<and>
    (rc = SQLITE_OK \<and> grown m n [] m' \<or> rc = SQLITE_NOMEM \<and> lost m m')"
proof -
  let ?n = "if n < 32 then 32 else n"
  obtain m1 w1 where b: "memGrow_block al m ?n False w = (m1, False, w1)" "reblocked m m1"
      "block_ok ?n [] (mzMalloc m1)"
    using alloc_okD [OF assms] reblockedI(2,4) [of m]
    by (cases "sqlite3DbMallocSize (mzMalloc m) < ?n"; cases "mzMalloc m")
      (auto simp: memGrow_block_def sqlite3DbMallocRaw_def block_ok_def sqlite3DbMallocSize_def)
  moreover have "memGrow_copy m1 False = Some m1"
    by (simp add: memGrow_copy_def split: option.splits zptr.splits)
  ultimately show ?thesis by (intro grow_finish)
qed

section \<open>Operations that keep the value\<close>

lemma mem_ok_null [simp]: "mem_ok L (m\<lparr>mz := ZNull, mzMalloc := p, mxDel := None, mflags := MEM_Null\<rparr>)"
  by (simp add: mem_ok_def owners_def flag_simps)

lemma mem_ok_lost: "lost m m' \<Longrightarrow> mem_ok L m'"
  by (simp add: lost_def)

text \<open>The content of a text or blob cell, its tail of zeros included.\<close>

definition full_text :: "Mem \<Rightarrow> u8 list" where
  "full_text m = text_of m @
     (if hasf (mflags m) MEM_Zero then (case mu m of U_nZero k \<Rightarrow> replicate k 0 | _ \<Rightarrow> []) else [])"

text \<open>The same value, now in the cell's own allocation.\<close>

definition owned_copy :: "Mem \<Rightarrow> Mem \<Rightarrow> bool" where
  "owned_copy m m' \<longleftrightarrow> mz m' = ZMalloc \<and> full_text m' = full_text m \<and> menc m' = menc m \<and>
     mu m' = mu m \<and> mr m' = mr m \<and> mtype m' = mtype m \<and>
     (\<forall>k < 9. bit (mflags m') k = bit (mflags m) k) \<and> \<not> hasf (mflags m') MEM_Zero"

lemma put_nul2_grown:
  assumes ok: "mem_ok L m" "hasf (mflags m) (MEM_Str OR MEM_Blob)" "\<not> hasf (mflags m) MEM_Zero"
    and g: "grown m (mn m + 2) (text_of m) m1"
  shows "\<exists>m2. put_nul2 m1 = Some m2 \<and> mem_ok L m2 \<and> owned_copy m m2 \<and> terminated m2 \<and>
    hasf (mflags m2) MEM_Term \<and> mn m2 = mn m"
proof -
  from g obtain b where b: "mn m + 2 \<le> length b" "take (length (text_of m)) b = text_of m"
    and m1: "m1 = m\<lparr>mz := ZMalloc, mzMalloc := Some b, mxDel := None,
             mflags := mflags m AND NOT (MEM_Ephem OR MEM_Static)\<rparr>"
    by (auto simp: grown_def)
  have len: "text_len_ok m" using ok by (auto simp: mem_ok_def)
  then have tk: "take (mn m) b = text_of m" using b(2) by (simp add: length_text_of)
  let ?b2 = "b[mn m := 0, Suc (mn m) := 0]"
  let ?m2 = "m1\<lparr>mzMalloc := Some ?b2, mflags := mflags m1 OR MEM_Term\<rparr>"
  have put: "put_nul2 m1 = Some ?m2"
    using b(1) by (simp add: put_nul2_def m1 zbytes_def set_zbytes_def wr_Some)
  have tk2: "take (mn m) ?b2 = text_of m" using tk by simp
  have "mem_ok L ?m2" using ok len b(1)
    by (simp add: mem_ok_def m1 owners_def text_len_ok_def terminated_def zbytes_def rd_def flag_simps)
  moreover have "owned_copy m ?m2" using ok tk2
    by (auto simp: owned_copy_def m1 full_text_def text_of_def zbytes_def flag_simps less_Suc_eq numeral_eq_Suc)
  moreover have "terminated ?m2" "hasf (mflags ?m2) MEM_Term"
    using b(1) by (simp_all add: m1 terminated_def zbytes_def rd_def flag_simps)
  ultimately show ?thesis using put by (auto simp: m1)
qed

lemma mem_okD:
  assumes "mem_ok L m"
  shows "mz m = ZMalloc \<longrightarrow> mzMalloc m \<noteq> None"
    and "hasf (mflags m) (MEM_Str OR MEM_Blob) \<Longrightarrow> text_len_ok m"
    and "hasf (mflags m) MEM_Zero \<Longrightarrow> hasf (mflags m) MEM_Blob \<and> \<not> hasf (mflags m) MEM_Str"
    and "hasf (mflags m) MEM_Zero \<Longrightarrow> \<exists>k. mu m = U_nZero k"
    and "hasf (mflags m) MEM_Str \<Longrightarrow> \<exists>b. zbytes m = Some b"
  using assms by (auto simp: mem_ok_def)

text \<open>An operation succeeds with the same value in owned memory, or fails with a NULL cell.\<close>

definition keeps :: "Mem \<Rightarrow> Mem \<Rightarrow> bool" where
  "keeps m m' \<longleftrightarrow> m' = m \<or> owned_copy m m'"

definition nulled :: "Mem \<Rightarrow> bool" where
  "nulled m \<longleftrightarrow> mflags m = MEM_Null \<and> mz m = ZNull"

lemma nulled_lost: "lost m m' \<Longrightarrow> nulled m'"
  by (simp add: lost_def nulled_def)

lemma expandBlob_ok:
  assumes al: "alloc_ok al" and ok: "mem_ok L m"
  shows "\<exists>rc m' w'. sqlite3VdbeMemExpandBlob al m w = Some (rc, m', w') \<and> mem_ok L m' \<and>
    (rc = SQLITE_OK \<and> keeps m m' \<and> \<not> hasf (mflags m') MEM_Zero \<or> rc = SQLITE_NOMEM \<and> nulled m')"
proof (cases "hasf (mflags m) MEM_Zero")
  case False
  with ok show ?thesis by (auto simp: sqlite3VdbeMemExpandBlob_def keeps_def)
next
  case True
  from mem_okD(4) [OF ok True] obtain k where k: "mu m = U_nZero k" by blast
  have B: "hasf (mflags m) MEM_Blob" "\<not> hasf (mflags m) MEM_Str" using mem_okD(3) [OF ok True] by auto
  have len: "text_len_ok m" using B by (intro mem_okD(2) [OF ok]) simp
  let ?n = "if mn m + k = 0 then 1 else mn m + k"
  have "mn m \<le> ?n" by simp
  from grow_preserve [OF al len mem_okD(1) [OF ok] this, of w] obtain rc m1 w1 where
    g: "sqlite3VdbeMemGrow al m ?n True w = Some (rc, m1, w1)"
    and or: "rc = SQLITE_OK \<and> grown m ?n (text_of m) m1 \<or> rc = SQLITE_NOMEM \<and> lost m m1" by blast
  from or show ?thesis
  proof
    assume "rc = SQLITE_NOMEM \<and> lost m m1"
    with g True k show ?thesis
      by (auto simp: sqlite3VdbeMemExpandBlob_def mem_ok_lost nulled_lost)
  next
    assume r: "rc = SQLITE_OK \<and> grown m ?n (text_of m) m1"
    then obtain b where b: "?n \<le> length b" "take (length (text_of m)) b = text_of m"
      and m1: "m1 = m\<lparr>mz := ZMalloc, mzMalloc := Some b, mxDel := None,
             mflags := mflags m AND NOT (MEM_Ephem OR MEM_Static)\<rparr>"
      by (auto simp: grown_def)
    have tk: "take (mn m) b = text_of m" using b(2) length_text_of [OF len] by simp
    have nb: "mn m + k \<le> length b" using b(1) by (simp split: if_splits)
    let ?b' = "take (mn m) b @ replicate k 0 @ drop (mn m + k) b"
    let ?m' = "m1\<lparr>mzMalloc := Some ?b', mn := mn m + k, mflags := mflags m1 AND NOT (MEM_Zero OR MEM_Term)\<rparr>"
    have run: "sqlite3VdbeMemExpandBlob al m w = Some (SQLITE_OK, ?m', w1)"
      using True k g r nb
      by (simp add: sqlite3VdbeMemExpandBlob_def m1 zbytes_def set_zbytes_def)
    have "mem_ok L ?m'" using ok B k nb
      by (simp add: m1 mem_ok_def owners_def text_len_ok_def zbytes_def flag_simps)
    moreover have "text_of ?m' = take (mn m) b @ replicate k 0"
      using nb by (simp add: m1 text_of_def zbytes_def)
    then have "text_of ?m' = text_of m @ replicate k 0" unfolding tk .
    then have "owned_copy m ?m'" using True k
      by (auto simp: owned_copy_def full_text_def flag_simps m1)
    ultimately show ?thesis using run by (auto simp: keeps_def owned_copy_def)
  qed
qed

lemma keepsD:
  assumes "keeps m m'"
  shows "hasf (mflags m') MEM_Str = hasf (mflags m) MEM_Str"
    "hasf (mflags m') MEM_Blob = hasf (mflags m) MEM_Blob" "full_text m' = full_text m"
    "menc m' = menc m"
  using assms by (auto simp: keeps_def owned_copy_def)

lemma owned_copy_trans: "keeps m m1 \<Longrightarrow> owned_copy m1 m2 \<Longrightarrow> owned_copy m m2"
  by (auto simp: keeps_def owned_copy_def)

text \<open>
  Making a cell writeable: the value is kept, and a text or blob is then in the cell's own
  allocation. When the zero tail cannot be expanded, the cell is NULL and the result code
  is \<^const>\<open>SQLITE_OK\<close> all the same.
\<close>

lemma makeWriteable_ok:
  assumes al: "alloc_ok al" and ok: "mem_ok L m"
  shows "\<exists>rc m' w'. sqlite3VdbeMemMakeWriteable al m w = Some (rc, m', w') \<and> mem_ok L m' \<and>
    (rc = SQLITE_OK \<and> keeps m m' \<and> \<not> hasf (mflags m') MEM_Zero \<and>
        (hasf (mflags m) (MEM_Str OR MEM_Blob) \<longrightarrow> z_is_zMalloc m')
      \<or> nulled m' \<and> (rc = SQLITE_NOMEM \<or> hasf (mflags m) MEM_Zero \<and> rc = SQLITE_OK))"
proof -
  from expandBlob_ok [OF al ok, of w] obtain rc1 m1 w1 where
    x: "sqlite3VdbeMemExpandBlob al m w = Some (rc1, m1, w1)" and ok1: "mem_ok L m1" and
    or: "rc1 = SQLITE_OK \<and> keeps m m1 \<and> \<not> hasf (mflags m1) MEM_Zero \<or> rc1 = SQLITE_NOMEM \<and> nulled m1"
    by blast
  show ?thesis
  proof (cases "hasf (mflags m1) (MEM_Str OR MEM_Blob) \<and> \<not> z_is_zMalloc m1")
    case False
    have zero: "rc1 = SQLITE_NOMEM \<Longrightarrow> hasf (mflags m) MEM_Zero"
      using x by (auto simp: sqlite3VdbeMemExpandBlob_def split: if_splits)
    have run: "sqlite3VdbeMemMakeWriteable al m w = Some (SQLITE_OK, m1, w1)"
      using x False by (auto simp: sqlite3VdbeMemMakeWriteable_def)
    from or show ?thesis
      using run ok1 zero False by (auto dest: keepsD)
  next
    case True
    then have k: "keeps m m1" "\<not> hasf (mflags m1) MEM_Zero" using or by (auto simp: nulled_def flag_simps)
    have len: "text_len_ok m1" using True by (intro mem_okD(2) [OF ok1]) simp
    have "mn m1 \<le> mn m1 + 2" by simp
    from grow_preserve [OF al len mem_okD(1) [OF ok1] this, of w1] obtain rc m2 w2 where
      g: "sqlite3VdbeMemGrow al m1 (mn m1 + 2) True w1 = Some (rc, m2, w2)"
      and or2: "rc = SQLITE_OK \<and> grown m1 (mn m1 + 2) (text_of m1) m2 \<or> rc = SQLITE_NOMEM \<and> lost m1 m2"
      by blast
    from or2 show ?thesis
    proof
      assume r: "rc = SQLITE_NOMEM \<and> lost m1 m2"
      then have "sqlite3VdbeMemMakeWriteable al m w = Some (SQLITE_NOMEM, m2, w2)"
        using x g True by (simp add: sqlite3VdbeMemMakeWriteable_def)
      with r show ?thesis by (auto simp: mem_ok_lost nulled_lost)
    next
      assume r: "rc = SQLITE_OK \<and> grown m1 (mn m1 + 2) (text_of m1) m2"
      from put_nul2_grown [OF ok1 _ k(2)] True r obtain m3 where
        p: "put_nul2 m2 = Some m3" "mem_ok L m3" "owned_copy m1 m3" by blast
      have "sqlite3VdbeMemMakeWriteable al m w = Some (SQLITE_OK, m3, w2)"
        using x g True r p by (simp add: sqlite3VdbeMemMakeWriteable_def)
      moreover have "owned_copy m m3" using k(1) p(3) by (rule owned_copy_trans)
      ultimately show ?thesis using p(2,3)
        by (auto simp: keeps_def owned_copy_def z_is_zMalloc_def)
    qed
  qed
qed

lemma nulTerminate_ok:
  assumes al: "alloc_ok al" and ok: "mem_ok L m"
  shows "\<exists>rc m' w'. sqlite3VdbeMemNulTerminate al m w = Some (rc, m', w') \<and> mem_ok L m' \<and>
    (rc = SQLITE_OK \<and> keeps m m' \<and> (hasf (mflags m) MEM_Str \<longrightarrow> hasf (mflags m') MEM_Term)
      \<or> rc = SQLITE_NOMEM \<and> nulled m')"
proof (cases "hasf (mflags m) MEM_Term \<or> \<not> hasf (mflags m) MEM_Str")
  case True
  with ok show ?thesis by (auto simp: sqlite3VdbeMemNulTerminate_def keeps_def)
next
  case False
  then have S: "hasf (mflags m) (MEM_Str OR MEM_Blob)" "\<not> hasf (mflags m) MEM_Zero"
    using mem_okD(3) [OF ok] by auto
  have len: "text_len_ok m" using S by (intro mem_okD(2) [OF ok])
  have "mn m \<le> mn m + 2" by simp
  from grow_preserve [OF al len mem_okD(1) [OF ok] this, of w] obtain rc m1 w1 where
    g: "sqlite3VdbeMemGrow al m (mn m + 2) True w = Some (rc, m1, w1)"
    and or: "rc = SQLITE_OK \<and> grown m (mn m + 2) (text_of m) m1 \<or> rc = SQLITE_NOMEM \<and> lost m m1"
    by blast
  from or show ?thesis
  proof
    assume r: "rc = SQLITE_NOMEM \<and> lost m m1"
    with g False show ?thesis
      by (auto simp: sqlite3VdbeMemNulTerminate_def mem_ok_lost nulled_lost)
  next
    assume r: "rc = SQLITE_OK \<and> grown m (mn m + 2) (text_of m) m1"
    from put_nul2_grown [OF ok S] r obtain m2 where
      p: "put_nul2 m1 = Some m2" "mem_ok L m2" "owned_copy m m2" "hasf (mflags m2) MEM_Term" by blast
    with g r False show ?thesis by (auto simp: sqlite3VdbeMemNulTerminate_def keeps_def)
  qed
qed

section \<open>Release, setters and copies\<close>

lemma VdbeMemRelease_gen:
  "\<not> hasf (mflags m) (MEM_Agg OR MEM_RowSet OR MEM_Frame) \<Longrightarrow>
   \<exists>w' xd. VdbeMemRelease m w = Some (m\<lparr>mxDel := xd\<rparr>, w')"
  by (cases m) (auto simp: VdbeMemRelease_def sqlite3VdbeMemReleaseExternal_def)

lemma VdbeMemRelease_ok:
  "mem_ok L m \<Longrightarrow> \<exists>w' xd. VdbeMemRelease m w = Some (m\<lparr>mxDel := xd\<rparr>, w')"
  by (rule VdbeMemRelease_gen) (simp add: mem_ok_def)

lemma memRelease_gen:
  assumes "\<not> hasf (mflags m) (MEM_Agg OR MEM_RowSet OR MEM_Frame)"
  shows "\<exists>w'. sqlite3VdbeMemRelease m w = Some (m\<lparr>mz := ZNull, mzMalloc := None, mxDel := None\<rparr>, w')"
proof -
  from VdbeMemRelease_gen [OF assms, of w] obtain w' xd where
    "VdbeMemRelease m w = Some (m\<lparr>mxDel := xd\<rparr>, w')" by blast
  then show ?thesis by (cases m) (simp add: sqlite3VdbeMemRelease_def)
qed

lemma memRelease_ok:
  "mem_ok L m \<Longrightarrow>
   \<exists>w'. sqlite3VdbeMemRelease m w = Some (m\<lparr>mz := ZNull, mzMalloc := None, mxDel := None\<rparr>, w')"
  by (rule memRelease_gen) (simp add: mem_ok_def)

lemma zbytes_cong:
  "mz m = mz m' \<Longrightarrow> mzMalloc m = mzMalloc m' \<Longrightarrow> zbytes m = zbytes m'"
  by (cases "mz m'") (simp_all add: zbytes_def)

lemma zbytes_update [simp]:
  "zbytes (m\<lparr>mflags := f\<rparr>) = zbytes m" "zbytes (m\<lparr>mxDel := d\<rparr>) = zbytes m"
  "zbytes (m\<lparr>mtype := ty\<rparr>) = zbytes m" "zbytes (m\<lparr>menc := e\<rparr>) = zbytes m"
  "zbytes (m\<lparr>mn := n\<rparr>) = zbytes m" "zbytes (m\<lparr>mu := x\<rparr>) = zbytes m"
  "zbytes (m\<lparr>mr := r\<rparr>) = zbytes m" "zbytes (m\<lparr>mz := ZNull\<rparr>) = None"
  "zbytes (m\<lparr>mz := ZMalloc, mzMalloc := p\<rparr>) = p" "zbytes (m\<lparr>mz := ZExt b\<rparr>) = Some b"
  by (rule zbytes_cong; simp)+ (simp_all add: zbytes_def)

lemma setNull_ok: "mem_ok L m \<Longrightarrow> \<exists>m'. sqlite3VdbeMemSetNull m = Some m' \<and> mem_ok L m'"
  by (simp add: sqlite3VdbeMemSetNull_def MemSetTypeFlag_def mem_ok_def owners_def flag_simps)

lemma setZeroBlob_ok:
  assumes "mem_ok L m"
  shows "\<exists>m' w'. sqlite3VdbeMemSetZeroBlob m n w = Some (m', w') \<and> mem_ok L m' \<and>
      full_text m' = replicate (nat n) 0"
proof -
  from memRelease_ok [OF assms, of w] obtain w' where
    "sqlite3VdbeMemRelease m w = Some (m\<lparr>mz := ZNull, mzMalloc := None, mxDel := None\<rparr>, w')" by blast
  then show ?thesis
    by (simp add: sqlite3VdbeMemSetZeroBlob_def mem_ok_def owners_def text_len_ok_def zbytes_def
      full_text_def text_of_def flag_simps)
qed

lemma setInt64_ok:
  assumes "mem_ok L m" "i64_range i"
  shows "\<exists>m' w'. sqlite3VdbeMemSetInt64 m i w = Some (m', w') \<and> mem_ok L m'"
proof -
  from memRelease_ok [OF assms(1), of w] obtain w' where
    "sqlite3VdbeMemRelease m w = Some (m\<lparr>mz := ZNull, mzMalloc := None, mxDel := None\<rparr>, w')" by blast
  with assms(2) show ?thesis
    by (simp add: sqlite3VdbeMemSetInt64_def mem_ok_def owners_def flag_simps)
qed

lemma setDouble_ok:
  assumes "mem_ok L m"
  shows "\<exists>m' w'. sqlite3VdbeMemSetDouble m r w = Some (m', w') \<and> mem_ok L m'"
proof -
  from memRelease_ok [OF assms(1), of w] obtain w' where
    "sqlite3VdbeMemRelease m w = Some (m\<lparr>mz := ZNull, mzMalloc := None, mxDel := None\<rparr>, w')" by blast
  moreover have "mem_ok L (m\<lparr>mz := ZNull, mzMalloc := None, mxDel := None, mr := r,
      mflags := MEM_Real, mtype := SQLITE_FLOAT\<rparr>)"
    by (simp add: mem_ok_def owners_def flag_simps)
  moreover obtain m0 where "sqlite3VdbeMemSetNull m = Some m0" "mem_ok L m0"
    using setNull_ok [OF assms(1)] by blast
  ultimately show ?thesis by (simp add: sqlite3VdbeMemSetDouble_def)
qed

lemma copy_cell_z [simp]:
  "zbytes (copy_cell t f) = zbytes f" "mz (copy_cell t f) \<noteq> ZMalloc"
  by (auto simp: zbytes_def copy_cell_def split: zptr.splits option.splits)

lemma copy_cell_fields [simp]:
  "mflags (copy_cell t f) = mflags f" "mn (copy_cell t f) = mn f" "menc (copy_cell t f) = menc f"
  "mu (copy_cell t f) = mu f" "mr (copy_cell t f) = mr f" "mxDel (copy_cell t f) = mxDel f"
  by (simp_all add: copy_cell_def)

lemma memCopy_ok:
  assumes al: "alloc_ok al" and ok: "mem_ok L t" "mem_ok L f"
  shows "\<exists>rc t' w'. sqlite3VdbeMemCopy al t f w = Some (rc, t', w') \<and> mem_ok L t' \<and>
    (full_text t' = full_text f \<and> menc t' = menc f \<or> nulled t')"
proof -
  from VdbeMemRelease_ok [OF ok(1), of w] obtain w1 xd where
    rel: "VdbeMemRelease t w = Some (t\<lparr>mxDel := xd\<rparr>, w1)" by blast
  let ?c = "copy_cell (t\<lparr>mxDel := xd\<rparr>) f"
  let ?d = "?c\<lparr>mflags := mflags f AND NOT MEM_Dyn\<rparr>"
  let ?e = "?d\<lparr>mflags := (mflags f AND NOT MEM_Dyn) OR MEM_Ephem\<rparr>"
  have okd: "mem_ok L ?d" using ok(2)
    by (auto simp: mem_ok_def owners_def terminated_def text_len_ok_def flag_simps)
  have same: "full_text ?d = full_text f" "full_text ?e = full_text f"
    by (simp_all add: full_text_def text_of_def flag_simps)
  show ?thesis
  proof (cases "hasf (mflags ?d) (MEM_Str OR MEM_Blob) \<and> \<not> hasf (mflags f) MEM_Static")
    case True
    have "mem_ok L ?e" using okd True
      by (auto simp: mem_ok_def owners_def terminated_def text_len_ok_def flag_simps)
    from makeWriteable_ok [OF al this, of w1] obtain rc t' w' where
      "sqlite3VdbeMemMakeWriteable al ?e w1 = Some (rc, t', w')" "mem_ok L t'" "keeps ?e t' \<or> nulled t'"
      by blast
    moreover have "keeps ?e t' \<Longrightarrow> full_text t' = full_text f \<and> menc t' = menc f"
      using same(2) keepsD(3,4) [of ?e t'] by simp
    ultimately show ?thesis using True rel by (auto simp: sqlite3VdbeMemCopy_def Let_def)
  next
    case False
    then have "sqlite3VdbeMemCopy al t f w = Some (SQLITE_OK, ?d, w1)"
      using rel by (simp add: sqlite3VdbeMemCopy_def Let_def, blast)
    then show ?thesis using okd same by auto
  qed
qed

lemma memMove_ok:
  assumes ok: "mem_ok L t" "mem_ok L f"
  shows "\<exists>t' f' w'. sqlite3VdbeMemMove t f w = Some (t', f', w') \<and> mem_ok L t' \<and> mem_ok L f' \<and>
    t' = f \<and> mflags f' = MEM_Null"
proof -
  from memRelease_ok [OF ok(1), of w] obtain w' where
    "sqlite3VdbeMemRelease t w = Some (t\<lparr>mz := ZNull, mzMalloc := None, mxDel := None\<rparr>, w')" by blast
  then show ?thesis using ok(2)
    by (auto simp: sqlite3VdbeMemMove_def mem_ok_def owners_def flag_simps split: zptr.splits option.splits)
qed

end
