(* ===== verification/MemText.thy ===== *)
theory MemText
  imports MemInv
begin

text \<open>
  Change of encoding of a text cell: the conversion loops stay inside the buffer that
  \<^verbatim>\<open>sqlite3VdbeMemTranslate\<close> sizes beforehand, they compute the re-encoding of the text, and
  converting well-formed text to UTF-16 and back gives the same bytes. With this the remaining
  operations of the cells keep their invariant, and so does every history of operations.
\<close>

section \<open>The conversion loops stay inside their buffers\<close>

lemma utf8_more_bounds:
  "i \<le> t \<Longrightarrow> t \<le> length z \<Longrightarrow>
   \<exists>c' j. utf8_more z (Some t) i c = Some (c', j) \<and> i \<le> j \<and> j \<le> t \<and>
     (j = i \<longrightarrow> c' = c) \<and> (j = i + 1 \<longrightarrow> (\<exists>b. c' = push_bit 6 c + ucast (0x3f AND b :: u8)))"
proof (induction "t - i" arbitrary: i c)
  case 0
  then have "t = i" by simp
  then show ?case by (simp add: utf8_more.simps [of z "Some i" i c])
next
  case (Suc k)
  then have i: "i < t" "i < length z" by simp_all
  show ?case
  proof (cases "z ! i AND 0xc0 = 0x80")
    case False
    with i show ?thesis by (simp add: utf8_more.simps [of z "Some t" i c] rd_Some)
  next
    case True
    let ?c = "push_bit 6 c + ucast (0x3f AND z ! i)"
    have "k = t - (i + 1)" "i + 1 \<le> t" using Suc by simp_all
    from Suc(1) [OF this Suc(4), of ?c] True i show ?thesis
      by (auto simp: utf8_more.simps [of z "Some t" i c] rd_Some)
  qed
qed

lemma trans1_less: "k < 64 \<Longrightarrow> sqlite3Utf8Trans1 ! k < 0x20"
proof -
  have "\<forall>k\<in>set [0..<64]. sqlite3Utf8Trans1 ! k < 0x20" by code_simp
  then show "k < 64 \<Longrightarrow> ?thesis" by simp
qed

lemma small_pair:
  assumes t: "t < (0x20 :: u8)"
  shows "push_bit 6 (ucast t) + ucast (0x3f AND b :: u8) < (0x10000 :: u32)"
proof -
  have b: "unat (0x3f AND b) \<le> 0x3f" using word_and_le1 [of b "0x3f"] by (simp add: word_le_nat_alt and.commute)
  have "push_bit 6 (ucast t :: u32) = 64 * ucast t" by (simp add: push_bit_eq_mult mult.commute)
  moreover have "unat (64 * ucast t :: u32) \<le> 64 * unat t"
    using unat_ucast_u8_u32 [of t] by (simp add: unat_word_ariths)
  ultimately have "unat (push_bit 6 (ucast t :: u32)) \<le> 64 * 0x1f"
    using t by (simp add: word_less_nat_alt)
  then show ?thesis using b unat_ucast_u8_u32 [of "0x3f AND b"]
    by (simp add: word_less_nat_alt unat_plus_if')
qed

lemma READ_UTF8_bounds:
  assumes i: "i < t" "t \<le> length z"
  shows "\<exists>c j. READ_UTF8 z t i = Some (c, j) \<and> i < j \<and> j \<le> t \<and> (0x10000 \<le> c \<longrightarrow> i + 3 \<le> j)"
proof (cases "0xc0 \<le> z ! i")
  case False
  have "ucast (z ! i) < (0x10000 :: u32)"
    using unat_ucast_u8_u32 [of "z ! i"] unsigned_less [of "z ! i", where ?'a = nat]
    by (simp add: word_less_nat_alt)
  with False i show ?thesis by (auto simp: READ_UTF8_def rd_Some dest: leD)
next
  case True
  have k: "unat (z ! i) - 0xc0 < 64"
    using unsigned_less [of "z ! i", where ?'a = nat] by simp
  let ?t = "sqlite3Utf8Trans1 ! (unat (z ! i) - 0xc0)"
  have t: "?t < 0x20" by (rule trans1_less [OF k])
  have "i + 1 \<le> t" using i by simp
  from utf8_more_bounds [OF this i(2), of "ucast ?t"] obtain c j where
    m: "utf8_more z (Some t) (i + 1) (ucast ?t) = Some (c, j)" "i + 1 \<le> j" "j \<le> t"
      "j = i + 1 \<longrightarrow> c = ucast ?t"
      "j = i + 1 + 1 \<longrightarrow> (\<exists>b. c = push_bit 6 (ucast ?t) + ucast (0x3f AND b :: u8))" by blast
  have r: "READ_UTF8 z t i = Some (utf8_fix c, j)"
    using True i k m(1) by (simp add: READ_UTF8_def rd_Some length_trans1)
  have "utf8_fix c < 0x10000" if "j < i + 3"
  proof -
    have "c < 0x10000"
    proof (cases "j = i + 1")
      case True
      with m(4) t show ?thesis using unat_ucast_u8_u32 [of ?t] by (simp add: word_less_nat_alt)
    next
      case False
      with m(2) that have "j = i + 1 + 1" by simp
      with m(5) small_pair [OF t] show ?thesis by auto
    qed
    then show ?thesis by (simp add: utf8_fix_def)
  qed
  then have "0x10000 \<le> utf8_fix c \<longrightarrow> i + 3 \<le> j" by (metis leD not_le_imp_less)
  with r m(2,3) show ?thesis by auto
qed

lemma unit_less: "ucast (a :: u8) + push_bit 8 (ucast (b :: u8)) < (0x10000 :: u32)"
proof -
  have "push_bit 8 (ucast b :: u32) = 256 * ucast b" by (simp add: push_bit_eq_mult mult.commute)
  moreover have "unat (256 * ucast b :: u32) \<le> 256 * unat b"
    using unat_ucast_u8_u32 [of b] by (simp add: unat_word_ariths)
  ultimately have "unat (push_bit 8 (ucast b :: u32)) \<le> 256 * 255"
    using unsigned_less [of b, where ?'a = nat] by simp
  then show ?thesis using unat_ucast_u8_u32 [of a] unsigned_less [of a, where ?'a = nat]
    by (simp add: word_less_nat_alt unat_plus_if')
qed

lemma READ_UTF16_bounds:
  assumes i: "i < t" "t \<le> length z" "even (t - i)"
  shows "\<exists>c j. read16 be z (\<lambda>k. k < t) i = Some (c, j) \<and> i + 2 \<le> j \<and> j \<le> t \<and> even (t - j) \<and>
    (j < i + 4 \<longrightarrow> c < 0x10000)"
proof -
  have 2: "i + 2 \<le> t" using i by presburger
  have 4: "i + 2 < t \<Longrightarrow> i + 4 \<le> t \<and> even (t - (i + 4))" using i by presburger
  have e: "even (t - (i + 2))" using i by presburger
  have rd: "k < 2 \<Longrightarrow> rd z (i + k) = Some (z ! (i + k))"
    "i + 2 < t \<Longrightarrow> k < 4 \<Longrightarrow> rd z (i + k) = Some (z ! (i + k))" for k
    using 2 4 i by (auto intro!: rd_Some)
  have u: "ucast (z ! i) + push_bit 8 (ucast (z ! (i + 1))) < (0x10000 :: u32)"
    "push_bit 8 (ucast (z ! i)) + ucast (z ! (i + 1)) < (0x10000 :: u32)"
    using unit_less [of "z ! i"] unit_less [of "z ! (i + 1)" "z ! i"] by (simp_all add: add.commute)
  show ?thesis
  proof (cases "i + 2 < t")
    case True
    with rd(1) [of 0] rd(1) [of 1] rd(2) [of 2] rd(2) [of 3] 2 4 e u show ?thesis
      by (cases be) (simp_all add: read16_def READ_UTF16LE_def READ_UTF16BE_def Let_def)
  next
    case False
    with rd(1) [of 0] rd(1) [of 1] 2 e u show ?thesis
      by (cases be) (simp_all add: read16_def READ_UTF16LE_def READ_UTF16BE_def Let_def)
  qed
qed

lemma emit_ok:
  "j + length bs \<le> length zOut \<Longrightarrow>
   \<exists>out. emit zOut j bs = Some out \<and> length out = length zOut \<and>
     take (j + length bs) out = take j zOut @ bs"
  by (simp add: emit_def)

text \<open>
  Every character takes at most twice its bytes, so a buffer of twice the length of the
  text is never left, whatever the bytes are.
\<close>

lemma trans_8to16_safe:
  "i \<le> t \<Longrightarrow> t \<le> length zIn \<Longrightarrow> j + 2 * (t - i) \<le> length zOut \<Longrightarrow>
   \<exists>out n. trans_8to16 be zIn t i zOut j = Some (out, n) \<and> length out = length zOut \<and>
     n \<le> j + 2 * (t - i) \<and> j \<le> n \<and> even n = even j"
proof (induction be zIn t i zOut j rule: trans_8to16.induct)
  case (1 be zIn t i zOut j)
  show ?case
  proof (cases "i < t")
    case False
    with 1 show ?thesis by (subst trans_8to16.simps) auto
  next
    case True
    from READ_UTF8_bounds [OF True 1(3)] obtain c i' where
      r: "READ_UTF8 zIn t i = Some (c, i')" "i < i'" "i' \<le> t" "0x10000 \<le> c \<longrightarrow> i + 3 \<le> i'" by blast
    let ?bs = "if be then WRITE_UTF16BE c else WRITE_UTF16LE c"
    have len: "length ?bs \<le> 2 * (i' - i)"
      using length_write16 [of be c] r(2,4) by (simp add: write16_def word_le_nat_alt split: if_splits)
    then have room: "j + length ?bs + 2 * (t - i') \<le> length zOut" using 1(4) r(2,3) by linarith
    then obtain out where e: "emit zOut j ?bs = Some out" "length out = length zOut"
      using emit_ok [of j ?bs zOut] by auto
    from 1(1) [OF True r(1) refl refl e(1) r(3) 1(3)] room e(2) obtain out' n where
      "trans_8to16 be zIn t i' out (j + length ?bs) = Some (out', n)" "length out' = length zOut"
      "n \<le> j + length ?bs + 2 * (t - i')" "j + length ?bs \<le> n" "even n = even (j + length ?bs)" by auto
    moreover have "even (length ?bs)"
      using length_write16 [of be c] by (simp add: write16_def split: if_splits)
    moreover have "trans_8to16 be zIn t i zOut j = trans_8to16 be zIn t i' out (j + length ?bs)"
      using True r(1) e(1) by (subst trans_8to16.simps) (simp add: Let_def)
    moreover have "j + length ?bs + 2 * (t - i') \<le> j + 2 * (t - i)" "j \<le> j + length ?bs"
      using len r(2,3) by linarith+
    ultimately show ?thesis by (intro exI [of _ out'] exI [of _ n]) (simp del: if_split)
  qed
qed

lemma trans_16to8_safe:
  "i \<le> t \<Longrightarrow> t \<le> length zIn \<Longrightarrow> even (t - i) \<Longrightarrow> j + 2 * (t - i) \<le> length zOut \<Longrightarrow>
   \<exists>out n. trans_16to8 be zIn t i zOut j = Some (out, n) \<and> length out = length zOut \<and>
     n \<le> j + 2 * (t - i) \<and> j \<le> n"
proof (induction be zIn t i zOut j rule: trans_16to8.induct)
  case (1 be zIn t i zOut j)
  show ?case
  proof (cases "i < t")
    case False
    with 1 show ?thesis by (subst trans_16to8.simps) auto
  next
    case True
    from READ_UTF16_bounds [OF True 1(3,4), of be] obtain c i' where
      r: "read16 be zIn (\<lambda>k. k < t) i = Some (c, i')" "i + 2 \<le> i'" "i' \<le> t" "even (t - i')"
        "i' < i + 4 \<longrightarrow> c < 0x10000" by blast
    have len: "length (WRITE_UTF8 c) \<le> 2 * (i' - i)"
      using length_WRITE_UTF8 [of c] r(2,5) by (cases "i' < i + 4") auto
    then have room: "j + length (WRITE_UTF8 c) + 2 * (t - i') \<le> length zOut" using 1(5) r(2,3) by linarith
    then obtain out where e: "emit zOut j (WRITE_UTF8 c) = Some out" "length out = length zOut"
      using emit_ok [of j "WRITE_UTF8 c" zOut] by auto
    from 1(1) [OF True r(1) [unfolded read16_def] refl e(1) r(3) 1(3) r(4)] room e(2) obtain out' n where
      "trans_16to8 be zIn t i' out (j + length (WRITE_UTF8 c)) = Some (out', n)" "length out' = length zOut"
      "n \<le> j + length (WRITE_UTF8 c) + 2 * (t - i')" "j + length (WRITE_UTF8 c) \<le> n" by auto
    moreover have "trans_16to8 be zIn t i zOut j = trans_16to8 be zIn t i' out (j + length (WRITE_UTF8 c))"
      using True r(1) e(1) by (subst trans_16to8.simps) (simp add: read16_def)
    moreover have "j + length (WRITE_UTF8 c) + 2 * (t - i') \<le> j + 2 * (t - i)"
        "j \<le> j + length (WRITE_UTF8 c)"
      using len r(2,3) by linarith+
    ultimately show ?thesis by (metis le_trans)
  qed
qed

lemma swap_loop_safe:
  "t \<le> length z \<Longrightarrow> i \<le> t \<Longrightarrow> even (t - i) \<Longrightarrow>
   \<exists>z'. swap_loop z t i = Some z' \<and> length z' = length z \<and> (\<forall>k. t \<le> k \<longrightarrow> rd z' k = rd z k)"
proof (induction z t i rule: swap_loop.induct)
  case (1 z t i)
  show ?case
  proof (cases "i < t")
    case False
    with 1 show ?thesis by (subst swap_loop.simps) simp
  next
    case True
    then have i: "i + 2 \<le> t" "even (t - (i + 2))" using 1(4) by presburger+
    let ?z = "z[i := z ! (i + 1), i + 1 := z ! i]"
    have rd: "rd z i = Some (z ! i)" "rd z (i + 1) = Some (z ! (i + 1))"
      using i 1(2) by (simp_all add: rd_Some)
    from 1(1) [OF True refl rd] i 1(2) obtain z' where
      z': "swap_loop ?z t (i + 2) = Some z'" "length z' = length z" "\<forall>k. t \<le> k \<longrightarrow> rd z' k = rd ?z k"
      by auto
    moreover have "swap_loop z t i = swap_loop ?z t (i + 2)"
      using True rd by (subst swap_loop.simps) simp
    moreover have "\<forall>k. t \<le> k \<longrightarrow> rd ?z k = rd z k" using i by (auto simp: rd_def)
    ultimately show ?thesis by auto
  qed
qed

section \<open>The operations on text keep the invariant\<close>

lemma set_zbytes_simps [simp]:
  "mz m = ZMalloc \<Longrightarrow> set_zbytes m b = m\<lparr>mzMalloc := Some b\<rparr>"
  by (simp add: set_zbytes_def)

lemma translate_swap_ok:
  assumes al: "alloc_ok al" and ok: "mem_ok L m" and S: "hasf (mflags m) MEM_Str"
    and e: "menc m \<noteq> SQLITE_UTF8" "d \<noteq> SQLITE_UTF8"
  shows "\<exists>rc m' w'. translate_swap al m d w = Some (rc, m', w') \<and> mem_ok L m' \<and>
    (rc = SQLITE_OK \<and> menc m' = d \<and> mn m' = mn m \<and> hasf (mflags m') MEM_Str \<and>
       (\<exists>b b'. take_text (mn m) (Some b) = text_of m \<and> swap_loop b (mn m) 0 = Some b' \<and> zbytes m' = Some b')
     \<or> rc = SQLITE_NOMEM)"
proof -
  have nz: "\<not> hasf (mflags m) MEM_Zero" using mem_okD(3) [OF ok] S by blast
  from makeWriteable_ok [OF al ok, of w] nz obtain rc m1 w1 where
    mw: "sqlite3VdbeMemMakeWriteable al m w = Some (rc, m1, w1)" "mem_ok L m1" and
    or: "rc = SQLITE_OK \<and> keeps m m1 \<and> z_is_zMalloc m1 \<or> nulled m1 \<and> rc = SQLITE_NOMEM"
    using S by auto
  from or show ?thesis
  proof
    assume "nulled m1 \<and> rc = SQLITE_NOMEM"
    with mw show ?thesis by (auto simp: translate_swap_def)
  next
    assume k: "rc = SQLITE_OK \<and> keeps m m1 \<and> z_is_zMalloc m1"
    have S1: "hasf (mflags m1) MEM_Str" "menc m1 = menc m" "\<not> hasf (mflags m1) MEM_Zero"
      using k S nz keepsD [of m m1] mem_okD(3) [OF mw(2)] by auto
    from mem_okD(5) [OF mw(2) S1(1)] obtain b where b: "zbytes m1 = Some b" by blast
    have len: "mn m1 \<le> length b"
      using mem_okD(2) [OF mw(2)] S1(1) b by (simp add: text_len_ok_def)
    have zM: "mz m1 = ZMalloc" using k b by (auto simp: z_is_zMalloc_def zbytes_def)
    have tx: "text_of m1 = text_of m" using k nz S1(3) keepsD(3) [of m m1] by (simp add: full_text_def)
    have "text_len_ok m" using mem_okD(2) [OF ok] S by simp
    then have n: "mn m1 = mn m"
      using arg_cong [OF tx, of length] length_text_of [of m] length_text_of [of m1] mem_okD(2) [OF mw(2)] S1(1) by simp
    have ev: "even (mn m1)" using mw(2) S1 e(1) by (auto simp: mem_ok_def)
    from swap_loop_safe [OF len, of 0] ev obtain b' where
      sw: "swap_loop b (mn m1) 0 = Some b'" "length b' = length b" "\<forall>k. mn m1 \<le> k \<longrightarrow> rd b' k = rd b k" by auto
    let ?m' = "m1\<lparr>mzMalloc := Some b', menc := d\<rparr>"
    have run: "translate_swap al m d w = Some (SQLITE_OK, ?m', w1)"
      using mw k b sw(1) ev zM by (simp add: translate_swap_def even_iff_mod_2_eq_zero)
    have zb: "zbytes ?m' = Some b'" using zM by (simp add: zbytes_def)
    have "nul_at (zbytes m1) (mn m1) (menc m1) = nul_at (Some b') (mn m1) d"
      using b sw(3) S1(2) e by simp
    then have "mem_ok L ?m'" using mw(2) zM zb b len sw(2) ev
      by (auto simp: mem_ok_def owners_def text_len_ok_def terminated_def)
    moreover have "take_text (mn m) (Some b) = text_of m" using tx b n by (simp add: text_of_def)
    ultimately show ?thesis using run S1 zb sw(1) n by auto
  qed
qed

lemma translate_into_ok:
  assumes b: "zbytes m = Some b" "mn m \<le> length b"
    and e: "(menc m = SQLITE_UTF8) \<noteq> (d = SQLITE_UTF8)" and ev: "d = SQLITE_UTF8 \<Longrightarrow> even (mn m)"
    and room: "(if d = SQLITE_UTF8 then mn m * 2 + 1 else mn m * 2 + 2) \<le> length zOut"
  shows "\<exists>out n. translate_into m d zOut = Some (out, n) \<and> n \<le> length out \<and> nul_at (Some out) n d \<and>
    (d \<noteq> SQLITE_UTF8 \<longrightarrow> even n)"
proof (cases "menc m = SQLITE_UTF8")
  case True
  with e have d: "d \<noteq> SQLITE_UTF8" by simp
  from trans_8to16_safe [of 0 "mn m" b 0 zOut "d = SQLITE_UTF16BE"] b room d obtain out n where
    "trans_8to16 (d = SQLITE_UTF16BE) b (mn m) 0 zOut 0 = Some (out, n)" "length out = length zOut"
    "n \<le> 2 * mn m" "even n" by auto
  then show ?thesis using True b room d
    by (auto simp: translate_into_def wr_Some rd_def)
next
  case False
  with e have d: "d = SQLITE_UTF8" by simp
  from trans_16to8_safe [of 0 "mn m" b 0 zOut "menc m = SQLITE_UTF16BE"] b room d ev obtain out n where
    "trans_16to8 (menc m = SQLITE_UTF16BE) b (mn m) 0 zOut 0 = Some (out, n)" "length out = length zOut"
    "n \<le> 2 * mn m" by auto
  then show ?thesis using False b room d
    by (auto simp: translate_into_def wr_Some rd_def)
qed

text \<open>The cell after a conversion into a fresh buffer.\<close>

definition translated :: "Mem \<Rightarrow> enc \<Rightarrow> nat \<Rightarrow> u8 list \<Rightarrow> Mem" where
  "translated m d n out = m\<lparr>mn := n, mxDel := None, menc := d, mz := ZMalloc, mzMalloc := Some out,
     mflags := (mflags m AND NOT (MEM_Static OR MEM_Dyn OR MEM_Ephem)) OR (MEM_Term OR MEM_Dyn)\<rparr>"

lemma even_cut:
  "(d = SQLITE_UTF8 \<Longrightarrow> even (mn m)) \<Longrightarrow>
   (if d = SQLITE_UTF8 then m\<lparr>mn := mn m - mn m mod 2\<rparr> else m) = (m :: Mem)"
  by (cases m) (auto simp: even_iff_mod_2_eq_zero)

lemma translate_run:
  assumes ok: "mem_ok L m" and e: "\<not> (menc m \<noteq> SQLITE_UTF8 \<and> d \<noteq> SQLITE_UTF8)"
    and ev: "d = SQLITE_UTF8 \<Longrightarrow> even (mn m)"
    and zOut: "al (nreq w) (if d = SQLITE_UTF8 then mn m * 2 + 1 else mn m * 2 + 2) = Some zOut"
    and t: "translate_into m d zOut = Some (out, n)"
  shows "\<exists>w2. sqlite3VdbeMemTranslate al m d w = Some (SQLITE_OK, translated m d n out, w2)"
proof -
  let ?w = "w\<lparr>nreq := nreq w + 1\<rparr>"
  have "\<not> hasf (mflags (m\<lparr>mn := n\<rparr>)) (MEM_Agg OR MEM_RowSet OR MEM_Frame)"
    using ok by (simp add: mem_ok_def)
  from memRelease_gen [OF this, of ?w] obtain w2 where
    rel: "sqlite3VdbeMemRelease (m\<lparr>mn := n\<rparr>) ?w =
      Some (m\<lparr>mn := n, mz := ZNull, mzMalloc := None, mxDel := None\<rparr>, w2)" by blast
  have same: "(if d = SQLITE_UTF8 then m\<lparr>mn := mn m - mn m mod 2\<rparr> else m) = m"
    using ev by (rule even_cut)
  have "sqlite3VdbeMemTranslate al m d w = Some (SQLITE_OK, translated m d n out, w2)"
    unfolding sqlite3VdbeMemTranslate_def if_not_P [OF e] translated_def using zOut t rel
    by (simp add: same sqlite3DbMallocRaw_def Let_def)
  then show ?thesis by blast
qed

lemma translate_ok:
  assumes al: "alloc_ok al" and ok: "mem_ok L m" and S: "hasf (mflags m) MEM_Str" and d: "menc m \<noteq> d"
  shows "\<exists>rc m' w'. sqlite3VdbeMemTranslate al m d w = Some (rc, m', w') \<and> mem_ok L m' \<and>
    (rc = SQLITE_OK \<and> menc m' = d \<or> rc = SQLITE_NOMEM)"
proof (cases "menc m \<noteq> SQLITE_UTF8 \<and> d \<noteq> SQLITE_UTF8")
  case True
  with translate_swap_ok [OF al ok S, of d w] show ?thesis
    by (auto simp: sqlite3VdbeMemTranslate_def)
next
  case False
  then have e: "(menc m = SQLITE_UTF8) \<noteq> (d = SQLITE_UTF8)" using d by auto
  have ev: "d = SQLITE_UTF8 \<Longrightarrow> even (mn m)" using ok S e by (auto simp: mem_ok_def)
  then have same: "(if d = SQLITE_UTF8 then m\<lparr>mn := mn m - mn m mod 2\<rparr> else m) = m"
    by (rule even_cut)
  from mem_okD(5) [OF ok S] obtain b where b: "zbytes m = Some b" by blast
  have len: "mn m \<le> length b" using mem_okD(2) [OF ok] S b by (simp add: text_len_ok_def)
  let ?len = "if d = SQLITE_UTF8 then mn m * 2 + 1 else mn m * 2 + 2"
  show ?thesis
  proof (cases "al (nreq w) ?len")
    case None
    then have "sqlite3VdbeMemTranslate al m d w = Some (SQLITE_NOMEM, m, w\<lparr>nreq := nreq w + 1\<rparr>)"
      unfolding sqlite3VdbeMemTranslate_def if_not_P [OF False]
      by (simp add: same sqlite3DbMallocRaw_def Let_def)
    with ok show ?thesis by simp
  next
    case (Some zOut)
    let ?w = "w\<lparr>nreq := nreq w + 1\<rparr>"
    have "?len \<le> length zOut" using al Some by (rule alloc_okD)
    from translate_into_ok [OF b len e ev this] obtain out n where
      t: "translate_into m d zOut = Some (out, n)" "n \<le> length out" "nul_at (Some out) n d"
        "d \<noteq> SQLITE_UTF8 \<longrightarrow> even n" by blast
    let ?m' = "translated m d n out"
    from translate_run [where al = al and w = w, OF ok False ev Some t(1)] obtain w2 where
      run: "sqlite3VdbeMemTranslate al m d w = Some (SQLITE_OK, ?m', w2)" by blast
    have nz: "\<not> hasf (mflags m) MEM_Zero" using mem_okD(3) [OF ok] S by blast
    have zb: "zbytes ?m' = Some out" by (simp add: zbytes_def translated_def)
    have "mem_ok L ?m'" using ok nz t(2-4)
      by (simp add: mem_ok_def owners_def text_len_ok_def terminated_def zb translated_def flag_simps
          del: nul_at.simps)
    with run show ?thesis by (auto simp: translated_def)
  qed
qed

lemma changeEncoding_ok:
  assumes "alloc_ok al" "mem_ok L m"
  shows "\<exists>rc m' w'. sqlite3VdbeChangeEncoding al m d w = Some (rc, m', w') \<and> mem_ok L m' \<and>
    (rc = SQLITE_OK \<or> rc = SQLITE_NOMEM)"
  using assms translate_ok [OF assms, of d w]
  by (cases "hasf (mflags m) MEM_Str"; cases "menc m = d") (auto simp: sqlite3VdbeChangeEncoding_def)

lemma handleBom_ok:
  assumes al: "alloc_ok al" and ok: "mem_ok L m" and S: "hasf (mflags m) MEM_Str" and e: "menc m \<noteq> SQLITE_UTF8"
  shows "\<exists>rc m' w'. sqlite3VdbeMemHandleBom al m w = Some (rc, m', w') \<and> mem_ok L m'"
proof -
  from mem_okD(5) [OF ok S] obtain b where b: "zbytes m = Some b" by blast
  have len: "mn m \<le> length b" using mem_okD(2) [OF ok] S b by (simp add: text_len_ok_def)
  show ?thesis
  proof (cases "1 < mn m \<and> bom_of (b ! 0) (b ! 1) \<noteq> None")
    case False
    have "0 < length b \<and> 1 < length b" if "1 < mn m" using that len by auto
    with False b ok show ?thesis
      by (cases "1 < mn m") (auto simp: sqlite3VdbeMemHandleBom_def rd_Some)
  next
    case True
    then obtain e' where bom: "bom_of (b ! 0) (b ! 1) = Some e'" and n: "1 < mn m" by auto
    have e': "e' \<noteq> SQLITE_UTF8" using bom by (auto simp: bom_of_def split: if_splits)
    have nz: "\<not> hasf (mflags m) MEM_Zero" using mem_okD(3) [OF ok] S by blast
    from makeWriteable_ok [OF al ok, of w] nz S obtain rc m1 w1 where
      mw: "sqlite3VdbeMemMakeWriteable al m w = Some (rc, m1, w1)" "mem_ok L m1" and
      or: "rc = SQLITE_OK \<and> keeps m m1 \<and> z_is_zMalloc m1 \<or> nulled m1 \<and> rc = SQLITE_NOMEM"
      by auto
    have rd: "rd b 0 = Some (b ! 0)" "rd b 1 = Some (b ! 1)" using n len by (auto simp: rd_def)
    have start: "sqlite3VdbeMemHandleBom al m w =
      (if rc = SQLITE_OK then do {
           b \<leftarrow> zbytes m1;
           b' \<leftarrow> move_down2 b (mn m1 - 2);
           m2 \<leftarrow> put_nul2 ((set_zbytes m1 b')\<lparr>mn := mn m1 - 2\<rparr>);
           Some (rc, m2\<lparr>menc := e'\<rparr>, w1)
         } else Some (rc, m1, w1))"
      using n b rd bom mw(1) by (simp add: sqlite3VdbeMemHandleBom_def)
    from or show ?thesis
    proof
      assume "nulled m1 \<and> rc = SQLITE_NOMEM"
      with mw start show ?thesis by simp
    next
      assume k: "rc = SQLITE_OK \<and> keeps m m1 \<and> z_is_zMalloc m1"
      have S1: "hasf (mflags m1) MEM_Str" "menc m1 = menc m" "\<not> hasf (mflags m1) MEM_Zero"
        using k S nz keepsD [of m m1] mem_okD(3) [OF mw(2)] by auto
      from mem_okD(5) [OF mw(2) S1(1)] obtain c where c: "zbytes m1 = Some c" by blast
      have zM: "mz m1 = ZMalloc" using k c by (auto simp: z_is_zMalloc_def zbytes_def)
      have tl: "text_len_ok m" "text_len_ok m1" using mem_okD(2) ok mw(2) S S1(1) by auto
      then have lc: "mn m1 \<le> length c" using c by (simp add: text_len_ok_def)
      have "text_of m1 = text_of m" using k nz S1(3) keepsD(3) [of m m1] by (simp add: full_text_def)
      then have n1: "mn m1 = mn m" using length_text_of tl by metis
      let ?c' = "overlay (take (mn m - 2) (drop 2 c)) c"
      have lc': "length ?c' = length c" using lc n1 by simp
      let ?c2 = "?c'[mn m - 2 := 0, Suc (mn m - 2) := 0]"
      let ?m' = "m1\<lparr>mzMalloc := Some ?c2, mn := mn m - 2, mflags := mflags m1 OR MEM_Term, menc := e'\<rparr>"
      have put: "put_nul2 (m1\<lparr>mzMalloc := Some ?c', mn := mn m - 2\<rparr>)
          = Some (m1\<lparr>mzMalloc := Some ?c2, mn := mn m - 2, mflags := mflags m1 OR MEM_Term\<rparr>)"
        using lc' lc n1 n zM by (simp add: put_nul2_def zbytes_def wr_Some)
      have run: "sqlite3VdbeMemHandleBom al m w = Some (SQLITE_OK, ?m', w1)"
        using k c zM n1 lc n put by (simp add: start move_down2_def)
      have zb: "zbytes ?m' = Some ?c2" using zM by (simp add: zbytes_def)
      have ev: "even (mn m - 2)" using ok S e n by (auto simp: mem_ok_def)
      have "mn m - 2 < length ?c'" "Suc (mn m - 2) < length ?c'" using lc lc' n n1 by linarith+
      then have "nul_at (Some ?c2) (mn m - 2) e'" "mn m - 2 \<le> length ?c2" by (simp_all add: rd_def)
      then have "mem_ok L ?m'" using mw(2) zM zb ev S1
        by (auto simp: mem_ok_def owners_def text_len_ok_def terminated_def flag_simps simp del: nul_at.simps)
      with run show ?thesis by auto
    qed
  qed
qed

text \<open>The scans for the end of the text.\<close>

lemma nbyte8_ok:
  "i \<le> k \<Longrightarrow> k < length z \<Longrightarrow> z ! k = 0 \<Longrightarrow>
   \<exists>n. nbyte8 z L i = Some n \<and> n \<le> length z \<and> (n \<le> L \<longrightarrow> rd z n = Some 0)"
proof (induction z L i rule: nbyte8.induct)
  case (1 z L i)
  then have rd: "rd z i = Some (z ! i)" by (simp add: rd_Some)
  show ?case
  proof (cases "i \<le> L \<and> z ! i \<noteq> 0")
    case True
    then have "i + 1 \<le> k" using 1(2-4) by (cases "i = k") auto
    with 1(1) [OF _ rd] True 1(3,4) rd show ?thesis by (subst nbyte8.simps) simp
  next
    case False
    with 1(2,3) rd show ?thesis by (subst nbyte8.simps) auto
  qed
qed

lemma nbyte16_ok:
  "i \<le> k \<Longrightarrow> even i \<Longrightarrow> even k \<Longrightarrow> k + 1 < length z \<Longrightarrow> z ! k = 0 \<Longrightarrow> z ! (k + 1) = 0 \<Longrightarrow>
   \<exists>n. nbyte16 z L i = Some n \<and> n \<le> length z \<and> even n \<and>
     (n \<le> L \<longrightarrow> rd z n = Some 0 \<and> rd z (Suc n) = Some 0)"
proof (induction z L i rule: nbyte16.induct)
  case (1 z L i)
  then have rd: "rd z i = Some (z ! i)" "rd z (i + 1) = Some (z ! (i + 1))" by (simp_all add: rd_Some)
  show ?case
  proof (cases "i \<le> L \<and> z ! i OR z ! (i + 1) \<noteq> 0")
    case True
    then have "i \<noteq> k" using 1(6,7) by auto
    then have "i + 2 \<le> k" using 1(2-4) by presburger
    with 1(1) [OF _ refl rd] True 1(3-7) rd show ?thesis by (subst nbyte16.simps) simp
  next
    case False
    with 1(2-5) rd show ?thesis by (subst nbyte16.simps) (auto simp: or_eq_0_iff)
  qed
qed

text \<open>
  What a caller of \<^verbatim>\<open>sqlite3VdbeMemSetStr\<close> has to provide: a length inside the object, even for
  UTF-16, or a terminator in it.
\<close>

definition str_arg_ok :: "u8 list \<Rightarrow> nat option \<Rightarrow> enc option \<Rightarrow> bool" where
  "str_arg_ok z n e \<longleftrightarrow>
    (case n of
       Some k \<Rightarrow> k \<le> length z \<and> (e = Some SQLITE_UTF16LE \<or> e = Some SQLITE_UTF16BE \<longrightarrow> even k)
     | None \<Rightarrow>
         (case e of
            None \<Rightarrow> False
          | Some SQLITE_UTF8 \<Rightarrow> (\<exists>k. k < length z \<and> z ! k = 0)
          | Some _ \<Rightarrow> (\<exists>k. even k \<and> k + 1 < length z \<and> z ! k = 0 \<and> z ! (k + 1) = 0)))"

lemma setStr_len_ok:
  assumes "str_arg_ok z n e"
  shows "\<exists>k. setStr_len L z n e = Some k \<and> k \<le> length z \<and>
    (e \<noteq> None \<and> e \<noteq> Some SQLITE_UTF8 \<longrightarrow> even k) \<and>
    (n = None \<and> k \<le> L \<longrightarrow> e \<noteq> None \<and> nul_at (Some z) k (the e))"
proof (cases n)
  case (Some k)
  with assms show ?thesis
    by (cases e) (auto simp: str_arg_ok_def setStr_len_def, metis enc.exhaust)
next
  case None
  with assms obtain d where d: "e = Some d" by (auto simp: str_arg_ok_def split: option.splits)
  show ?thesis
  proof (cases "d = SQLITE_UTF8")
    case True
    then obtain k where "k < length z" "z ! k = 0" using assms None d by (auto simp: str_arg_ok_def)
    from nbyte8_ok [OF _ this, of 0 L] True None d show ?thesis by (auto simp: setStr_len_def)
  next
    case False
    then obtain k where "even k" "k + 1 < length z" "z ! k = 0" "z ! (k + 1) = 0"
      using assms None d by (auto simp: str_arg_ok_def split: enc.splits)
    from nbyte16_ok [OF _ _ this, of 0 L] False None d show ?thesis by (auto simp: setStr_len_def)
  qed
qed

text \<open>The cell holds the bytes of the caller, under the management that \<^verbatim>\<open>flags\<close> says.\<close>

definition stored :: "nat \<Rightarrow> u8 list \<Rightarrow> nat \<Rightarrow> bool \<Rightarrow> enc option \<Rightarrow> u16 \<Rightarrow> Mem \<Rightarrow> bool" where
  "stored L z k trm e fl m \<longleftrightarrow>
    (\<exists>c. zbytes m = Some c \<and> k \<le> length c \<and> take k c = take k z \<and>
      (trm \<and> k \<le> L \<longrightarrow> nul_at (Some c) k (the e))) \<and>
    (fl = 0 \<and> mxDel m = None \<or> fl = MEM_Static \<and> mz m \<noteq> ZMalloc \<and> mxDel m = None
      \<or> fl = MEM_Dyn \<and> mz m \<noteq> ZMalloc)"

lemma nul_at_overlay:
  assumes "nul_at (Some z) k e" "n = k + (if e = SQLITE_UTF8 then 1 else 2)" "n \<le> length z"
  shows "nul_at (Some (overlay (take n z) d)) k e"
  using assms by (auto simp: rd_def overlay_def nth_append split: if_splits)

lemma setStr_transient_ok:
  assumes al: "alloc_ok al" and k: "k \<le> length z"
    and nul: "trm \<and> k \<le> L \<longrightarrow> e \<noteq> None \<and> nul_at (Some z) k (the e)"
  shows "\<exists>rc fl m1 w1. setStr_store al L m z k trm e SQLITE_TRANSIENT w = Some (rc, fl, m1, w1) \<and>
    (rc \<noteq> SQLITE_OK \<and> (m1 = m \<or> lost m m1) \<or> rc = SQLITE_OK \<and> stored L z k trm e fl m1)"
proof (cases "L < k")
  case True
  then show ?thesis by (simp add: setStr_store_def)
next
  case False
  let ?n = "k + (if trm then if e = Some SQLITE_UTF8 then 1 else 2 else 0)"
  have nz: "?n \<le> length z"
    using nul k False by (auto simp: rd_def split: if_splits option.splits)
  from grow_discard [OF al, of m ?n w] obtain rc m1 w1 where
    g: "sqlite3VdbeMemGrow al m ?n False w = Some (rc, m1, w1)"
    and or: "rc = SQLITE_OK \<and> grown m ?n [] m1 \<or> rc = SQLITE_NOMEM \<and> lost m m1" by blast
  from or show ?thesis
  proof
    assume "rc = SQLITE_NOMEM \<and> lost m m1"
    with g False show ?thesis by (simp add: setStr_store_def Let_def)
  next
    assume r: "rc = SQLITE_OK \<and> grown m ?n [] m1"
    then obtain b where b: "?n \<le> length b" and m1: "zbytes m1 = Some b" "mz m1 = ZMalloc" "mxDel m1 = None"
      by (auto simp: grown_def zbytes_def)
    let ?c = "overlay (take ?n z) b"
    let ?m = "m1\<lparr>mzMalloc := Some ?c\<rparr>"
    have run: "setStr_store al L m z k trm e SQLITE_TRANSIENT w = Some (SQLITE_OK, 0, ?m, w1)"
      unfolding setStr_store_def using False g r b m1 nz
      by (simp add: Let_def memcpy_def del: if_split)
    have "take k ?c = take k z" using nz by (simp add: overlay_def)
    moreover have "k \<le> length ?c" using nz b by (simp add: overlay_def)
    moreover have "trm \<and> k \<le> L \<longrightarrow> nul_at (Some ?c) k (the e)"
      using nul nz by (auto intro!: nul_at_overlay simp del: nul_at.simps)
    ultimately have "stored L z k trm e 0 ?m" using m1 by (simp add: stored_def zbytes_def)
    with run show ?thesis by auto
  qed
qed

lemma setStr_store_ok:
  assumes al: "alloc_ok al" and ok: "mem_ok L m" and k: "k \<le> length z"
    and nul: "trm \<and> k \<le> L \<longrightarrow> e \<noteq> None \<and> nul_at (Some z) k (the e)"
  shows "\<exists>rc fl m1 w1. setStr_store al L m z k trm e xDel w = Some (rc, fl, m1, w1) \<and>
    (rc \<noteq> SQLITE_OK \<and> mem_ok L m1 \<or> rc = SQLITE_OK \<and> stored L z k trm e fl m1)"
proof -
  from memRelease_ok [OF ok, of w] obtain w' where
    rel: "sqlite3VdbeMemRelease m w = Some (m\<lparr>mz := ZNull, mzMalloc := None, mxDel := None\<rparr>, w')" by blast
  show ?thesis
  proof (cases xDel)
    case SQLITE_TRANSIENT
    with setStr_transient_ok [OF al k nul, of m w] ok mem_ok_lost show ?thesis by blast
  qed (use rel k nul in \<open>simp_all add: setStr_store_def stored_def zbytes_def\<close>)
qed

lemma setStr_ok:
  assumes al: "alloc_ok al" and ok: "mem_ok L m" and arg: "\<forall>z. zp = Some z \<longrightarrow> str_arg_ok z n e"
  shows "\<exists>rc m' w'. sqlite3VdbeMemSetStr al L m zp n e xDel w = Some (rc, m', w') \<and> mem_ok L m'"
proof (cases zp)
  case None
  with setNull_ok [OF ok] show ?thesis by (auto simp: sqlite3VdbeMemSetStr_def)
next
  case (Some z)
  from setStr_len_ok [of z n e L] arg Some obtain k where
    len: "setStr_len L z n e = Some k" "k \<le> length z" "e \<noteq> None \<and> e \<noteq> Some SQLITE_UTF8 \<longrightarrow> even k"
      "n = None \<and> k \<le> L \<longrightarrow> e \<noteq> None \<and> nul_at (Some z) k (the e)" by blast
  from setStr_store_ok [OF al ok len(2,4), of xDel w] obtain rc fl m1 w1 where
    st: "setStr_store al L m z k (n = None) e xDel w = Some (rc, fl, m1, w1)" and
    or: "rc \<noteq> SQLITE_OK \<and> mem_ok L m1 \<or> rc = SQLITE_OK \<and> stored L z k (n = None) e fl m1" by blast
  from or show ?thesis
  proof
    assume "rc \<noteq> SQLITE_OK \<and> mem_ok L m1"
    with Some len(1) st show ?thesis by (auto simp: sqlite3VdbeMemSetStr_def)
  next
    assume r: "rc = SQLITE_OK \<and> stored L z k (n = None) e fl m1"
    let ?f = "(if e = None then MEM_Blob else MEM_Str) OR (if n = None then MEM_Term else 0) OR fl"
    let ?m2 = "m1\<lparr>mn := k, mflags := ?f, menc := (case e of None \<Rightarrow> SQLITE_UTF8 | Some e' \<Rightarrow> e'),
         mtype := (if e = None then SQLITE_BLOB else SQLITE_TEXT)\<rparr>"
    have enc: "e \<noteq> None \<Longrightarrow> menc ?m2 = the e" "e = None \<Longrightarrow> menc ?m2 = SQLITE_UTF8" by auto
    have fl: "fl = 0 \<or> fl = MEM_Static \<or> fl = MEM_Dyn" using r by (auto simp: stored_def)
    have bits: "bit ?f 1 = (e \<noteq> None)" "bit ?f 4 = (e = None)" "bit ?f 9 = (n = None)"
      "bit ?f 10 = bit fl 10" "bit ?f 11 = bit fl 11" "\<not> bit ?f 12" "\<not> bit ?f 13" "\<not> bit ?f 5"
      "\<not> bit ?f 6" "\<not> bit ?f 14" "\<not> bit ?f 2"
      using fl by (auto simp: flag_simps)
    obtain c where c: "zbytes m1 = Some c" "k \<le> length c" "n = None \<and> k \<le> L \<longrightarrow> nul_at (Some c) k (the e)"
      using r by (auto simp: stored_def simp del: nul_at.simps)
    have own: "of_bool (mz m1 = ZMalloc) + of_bool (bit fl 10 \<and> mxDel m1 \<noteq> None) + of_bool (bit fl 11) \<le> (1 :: nat)"
      using r by (auto simp: stored_def flag_simps)
    have zM: "mz m1 = ZMalloc \<longrightarrow> mzMalloc m1 \<noteq> None" using c(1) by (auto simp: zbytes_def)
    have nul: "e \<noteq> None \<and> n = None \<and> k \<le> L \<longrightarrow> nul_at (Some c) k (menc ?m2)"
      using c(3) enc(1) by metis
    have ev: "e \<noteq> None \<and> menc ?m2 \<noteq> SQLITE_UTF8 \<longrightarrow> even k" using len(3) by auto
    have ok2: "mem_ok L ?m2"
      using own zM nul ev c(1,2)
      by (simp add: mem_ok_def owners_def text_len_ok_def terminated_def bits [simplified] del: nul_at.simps
          split del: if_split option.split)
    have S: "e \<noteq> None \<Longrightarrow> hasf (mflags ?m2) MEM_Str" using bits(1) by auto
    have run: "sqlite3VdbeMemSetStr al L m zp n e xDel w = do {
        (rc2, m3, w2) \<leftarrow> (if menc ?m2 \<noteq> SQLITE_UTF8 then sqlite3VdbeMemHandleBom al ?m2 w1
                          else Some (SQLITE_OK, ?m2, w1));
        Some (if rc2 \<noteq> SQLITE_OK then SQLITE_NOMEM else if L < k then SQLITE_TOOBIG else SQLITE_OK, m3, w2) }"
      using Some len(1) st r by (simp add: sqlite3VdbeMemSetStr_def Let_def del: if_split)
    show ?thesis
    proof (cases "menc ?m2 = SQLITE_UTF8")
      case True
      then show ?thesis using ok2 unfolding run by auto
    next
      case False
      with enc(2) have "e \<noteq> None" by blast
      from handleBom_ok [OF al ok2 S [OF this] False, of w1] obtain rc2 m3 w2 where
        "sqlite3VdbeMemHandleBom al ?m2 w1 = Some (rc2, m3, w2)" "mem_ok L m3" by blast
      then show ?thesis using False unfolding run by simp
    qed
  qed
qed

section \<open>Histories of operations on the registers\<close>

text \<open>
  The registers of a statement, \<^verbatim>\<open>aMem[]\<close>, and the operations on them. The result of a step is the
  result code of the operation, \<^const>\<open>SQLITE_OK\<close> for those that return none.
\<close>

datatype mem_op =
    OpSetNull nat
  | OpSetInt64 nat int
  | OpSetDouble nat u64
  | OpSetZeroBlob nat int
  | OpSetStr nat "u8 list option" "nat option" "enc option" xdel
  | OpMakeWriteable nat
  | OpExpandBlob nat
  | OpNulTerminate nat
  | OpChangeEncoding nat enc
  | OpCopy nat nat
  | OpMove nat nat

definition upd :: "Mem list \<Rightarrow> nat \<Rightarrow> mresult \<Rightarrow> (rc \<times> Mem list \<times> world) option" where
  "upd ms i r = (case r of None \<Rightarrow> None | Some (rc, m, w) \<Rightarrow> Some (rc, ms[i := m], w))"

definition upd_void :: "Mem list \<Rightarrow> nat \<Rightarrow> (Mem \<times> world) option \<Rightarrow> (rc \<times> Mem list \<times> world) option" where
  "upd_void ms i r = (case r of None \<Rightarrow> None | Some (m, w) \<Rightarrow> Some (SQLITE_OK, ms[i := m], w))"

fun mem_step :: "alloc \<Rightarrow> nat \<Rightarrow> Mem list \<times> world \<Rightarrow> mem_op \<Rightarrow> (rc \<times> Mem list \<times> world) option" where
  "mem_step al L (ms, w) (OpSetNull i) =
     upd_void ms i (map_option (\<lambda>m. (m, w)) (sqlite3VdbeMemSetNull (ms ! i)))"
| "mem_step al L (ms, w) (OpSetInt64 i v) = upd_void ms i (sqlite3VdbeMemSetInt64 (ms ! i) v w)"
| "mem_step al L (ms, w) (OpSetDouble i v) = upd_void ms i (sqlite3VdbeMemSetDouble (ms ! i) v w)"
| "mem_step al L (ms, w) (OpSetZeroBlob i n) = upd_void ms i (sqlite3VdbeMemSetZeroBlob (ms ! i) n w)"
| "mem_step al L (ms, w) (OpSetStr i z n e x) = upd ms i (sqlite3VdbeMemSetStr al L (ms ! i) z n e x w)"
| "mem_step al L (ms, w) (OpMakeWriteable i) = upd ms i (sqlite3VdbeMemMakeWriteable al (ms ! i) w)"
| "mem_step al L (ms, w) (OpExpandBlob i) = upd ms i (sqlite3VdbeMemExpandBlob al (ms ! i) w)"
| "mem_step al L (ms, w) (OpNulTerminate i) = upd ms i (sqlite3VdbeMemNulTerminate al (ms ! i) w)"
| "mem_step al L (ms, w) (OpChangeEncoding i e) = upd ms i (sqlite3VdbeChangeEncoding al (ms ! i) e w)"
| "mem_step al L (ms, w) (OpCopy i j) = upd ms i (sqlite3VdbeMemCopy al (ms ! i) (ms ! j) w)"
| "mem_step al L (ms, w) (OpMove i j) =
     (case sqlite3VdbeMemMove (ms ! i) (ms ! j) w of
        None \<Rightarrow> None
      | Some (t, f, w') \<Rightarrow> Some (SQLITE_OK, ms[i := t, j := f], w'))"

fun op_ok :: "nat \<Rightarrow> mem_op \<Rightarrow> bool" where
  "op_ok n (OpSetNull i) \<longleftrightarrow> i < n"
| "op_ok n (OpSetInt64 i v) \<longleftrightarrow> i < n \<and> i64_range v"
| "op_ok n (OpSetDouble i v) \<longleftrightarrow> i < n"
| "op_ok n (OpSetZeroBlob i k) \<longleftrightarrow> i < n"
| "op_ok n (OpSetStr i zp k e x) \<longleftrightarrow> i < n \<and> (\<forall>z. zp = Some z \<longrightarrow> str_arg_ok z k e)"
| "op_ok n (OpMakeWriteable i) \<longleftrightarrow> i < n"
| "op_ok n (OpExpandBlob i) \<longleftrightarrow> i < n"
| "op_ok n (OpNulTerminate i) \<longleftrightarrow> i < n"
| "op_ok n (OpChangeEncoding i e) \<longleftrightarrow> i < n"
| "op_ok n (OpCopy i j) \<longleftrightarrow> i < n \<and> j < n \<and> i \<noteq> j"
| "op_ok n (OpMove i j) \<longleftrightarrow> i < n \<and> j < n \<and> i \<noteq> j"

definition regs_inv :: "alloc \<Rightarrow> nat \<Rightarrow> nat \<Rightarrow> Mem list \<times> world \<Rightarrow> bool" where
  "regs_inv al L n s \<longleftrightarrow> alloc_ok al \<and> length (fst s) = n \<and> (\<forall>m \<in> set (fst s). mem_ok L m)"

lemma regs_inv_upd: "regs_inv al L n (ms, w) \<Longrightarrow> mem_ok L m \<Longrightarrow> regs_inv al L n (ms[i := m], w')"
  using set_update_subset_insert [of ms i m] by (auto simp: regs_inv_def)

lemma upd_inv:
  "regs_inv al L n (ms, w) \<Longrightarrow> \<exists>rc m w'. r = Some (rc, m, w') \<and> mem_ok L m \<Longrightarrow>
   \<exists>rc s'. upd ms i r = Some (rc, s') \<and> regs_inv al L n s'"
  by (auto simp: upd_def intro: regs_inv_upd)

lemma upd_void_inv:
  "regs_inv al L n (ms, w) \<Longrightarrow> \<exists>m w'. r = Some (m, w') \<and> mem_ok L m \<Longrightarrow>
   \<exists>rc s'. upd_void ms i r = Some (rc, s') \<and> regs_inv al L n s'"
  by (auto simp: upd_void_def intro: regs_inv_upd)

interpretation regs: safe_machine "regs_inv al L n" "op_ok n" "mem_step al L" for al L n
proof (unfold_locales, goal_cases)
  case (1 s x)
  obtain ms w where s: "s = (ms, w)" by (cases s)
  have inv: "regs_inv al L n (ms, w)" and al: "alloc_ok al" and len: "length ms = n"
    using 1(1) by (auto simp: s regs_inv_def)
  have ok: "mem_ok L (ms ! i)" if "i < n" for i using inv that by (auto simp: regs_inv_def)
  show ?case
  proof (cases x)
    case (OpMove i j)
    with 1(2) have ij: "mem_ok L (ms ! i)" "mem_ok L (ms ! j)" using ok by auto
    from memMove_ok [OF this, of w] obtain t f w' where
      "sqlite3VdbeMemMove (ms ! i) (ms ! j) w = Some (t, f, w')" "mem_ok L t" "mem_ok L f" by blast
    then show ?thesis using OpMove s inv by (auto intro!: regs_inv_upd)
  next
    case (OpCopy i j)
    with 1(2) ok memCopy_ok [OF al, of L "ms ! i" "ms ! j" w] show ?thesis
      unfolding s OpCopy mem_step.simps by (intro upd_inv [OF inv]) auto
  next
    case (OpSetNull i)
    with 1(2) setNull_ok [OF ok, of i] show ?thesis
      unfolding s OpSetNull mem_step.simps by (intro upd_void_inv [OF inv]) auto
  next
    case (OpSetInt64 i v)
    with 1(2) setInt64_ok [OF ok, of i v w] show ?thesis
      unfolding s OpSetInt64 mem_step.simps by (intro upd_void_inv [OF inv]) auto
  next
    case (OpSetDouble i v)
    with 1(2) setDouble_ok [OF ok, of i v w] show ?thesis
      unfolding s OpSetDouble mem_step.simps by (intro upd_void_inv [OF inv]) auto
  next
    case (OpSetZeroBlob i k)
    with 1(2) setZeroBlob_ok [OF ok, of i k w] show ?thesis
      unfolding s OpSetZeroBlob mem_step.simps by (intro upd_void_inv [OF inv]) auto
  next
    case (OpSetStr i z k e xd)
    with 1(2) setStr_ok [OF al ok, of i z k e xd w] show ?thesis
      unfolding s OpSetStr mem_step.simps by (intro upd_inv [OF inv]) auto
  next
    case (OpMakeWriteable i)
    with 1(2) makeWriteable_ok [OF al ok, of i w] show ?thesis
      unfolding s OpMakeWriteable mem_step.simps by (intro upd_inv [OF inv]) auto
  next
    case (OpExpandBlob i)
    with 1(2) expandBlob_ok [OF al ok, of i w] show ?thesis
      unfolding s OpExpandBlob mem_step.simps by (intro upd_inv [OF inv]) auto
  next
    case (OpNulTerminate i)
    with 1(2) nulTerminate_ok [OF al ok, of i w] show ?thesis
      unfolding s OpNulTerminate mem_step.simps by (intro upd_inv [OF inv]) auto
  next
    case (OpChangeEncoding i e)
    with 1(2) changeEncoding_ok [OF al ok, of i e w] show ?thesis
      unfolding s OpChangeEncoding mem_step.simps by (intro upd_inv [OF inv]) auto
  qed
qed

definition null_cell :: Mem where
  "null_cell = \<lparr>mz = ZNull, mr = 0, mu = U_none, mn = 0, mflags = MEM_Null, mtype = SQLITE_NULL,
     menc = SQLITE_UTF8, mxDel = None, mzMalloc = None\<rparr>"

lemma mem_ok_null_cell: "mem_ok L null_cell"
  by (simp add: mem_ok_def null_cell_def owners_def flag_simps)

text \<open>
  \<^bold>\<open>C6\<close> Start with registers that are NULL and run any sequence of operations on them, with any
  pattern of failing allocations, where texts given to \<^verbatim>\<open>sqlite3VdbeMemSetStr\<close> lie inside their
  object. No operation reads or writes outside an object, every one returns, and every cell
  is then in the invariant: at most one owner of its text (the assertion of
  \<^verbatim>\<open>sqlite3VdbeMemGrow\<close>), a length inside the text's object, a terminator where \<^verbatim>\<open>MEM_Term\<close> promises
  one, and the member of the union that the flags announce.
\<close>

theorem mem_history_safe:
  assumes "alloc_ok al" "list_all (op_ok n) ops"
  shows "\<exists>rcs ms w'. run_steps (mem_step al L) (replicate n null_cell, w) ops = Some (rcs, ms, w') \<and>
    length rcs = length ops \<and> length ms = n \<and> (\<forall>m \<in> set ms. mem_ok L m)"
proof -
  have "regs_inv al L n (replicate n null_cell, w)"
    using assms(1) mem_ok_null_cell by (auto simp: regs_inv_def)
  from regs.run_safe [OF this assms(2)] show ?thesis by (auto simp: regs_inv_def)
qed

theorem mem_history_safe_witness:
  "\<exists>rcs ms w'. run_steps (mem_step (\<lambda>k n. if k = 1 then None else Some (replicate (n + 8) 0xAA)) 1000)
     (replicate 2 null_cell, \<lparr>nreq = 0, dels = []\<rparr>)
     [OpSetStr 0 (Some [0x68, 0x69, 0]) None (Some SQLITE_UTF8) SQLITE_STATIC,
      OpCopy 1 0, OpChangeEncoding 1 SQLITE_UTF16LE, OpMakeWriteable 0, OpMove 0 1] = Some (rcs, ms, w') \<and>
     length rcs = 5 \<and> length ms = 2 \<and> (\<forall>m \<in> set ms. mem_ok 1000 m)"
proof -
  let ?ops = "[OpSetStr 0 (Some [0x68, 0x69, 0]) None (Some SQLITE_UTF8) SQLITE_STATIC,
      OpCopy 1 0, OpChangeEncoding 1 SQLITE_UTF16LE, OpMakeWriteable 0, OpMove 0 1]"
  have "list_all (op_ok 2) ?ops"
    by (simp add: str_arg_ok_def) (rule exI [of _ 2], simp)
  moreover have "alloc_ok (\<lambda>k n. if k = 1 then None else Some (replicate (n + 8) 0xAA))"
    by (simp add: alloc_ok_def)
  moreover have len: "length ?ops = 5" by simp
  ultimately show ?thesis using mem_history_safe [of _ 2 ?ops 1000] unfolding len by blast
qed

end
