(* ===== verification/MemConv.thy ===== *)
theory MemConv
  imports MemText
begin

text \<open>
  What \<^verbatim>\<open>sqlite3VdbeMemTranslate\<close> computes on well-formed text, and the round trip through UTF-16.
\<close>

section \<open>Text as a list of code points\<close>

definition valid_char :: "u32 \<Rightarrow> bool" where
  "valid_char c \<longleftrightarrow> c < 0x110000 \<and> \<not> (0xD800 \<le> c \<and> c \<le> 0xDFFF) \<and> c \<noteq> 0xFFFE \<and> c \<noteq> 0xFFFF"

definition enc8 :: "u32 list \<Rightarrow> u8 list" where "enc8 cs = concat (map WRITE_UTF8 cs)"

definition enc16 :: "bool \<Rightarrow> u32 list \<Rightarrow> u8 list" where "enc16 be cs = concat (map (write16 be) cs)"

lemma enc8_simps [simp]: "enc8 [] = []" "enc8 (c # cs) = WRITE_UTF8 c @ enc8 cs"
  by (simp_all add: enc8_def)

lemma enc16_simps [simp]: "enc16 be [] = []" "enc16 be (c # cs) = write16 be c @ enc16 be cs"
  by (simp_all add: enc16_def)

lemma valid_char_fix: "valid_char c \<Longrightarrow> (if c < 0x80 then c else utf8_fix c) = c"
  using utf8_fix_eq [of c] by (auto simp: valid_char_def linorder_not_less)

lemma READ_UTF8_enc8:
  assumes c: "valid_char c" and z: "drop i z = WRITE_UTF8 c @ enc8 cs @ r"
    and t: "t = i + length (WRITE_UTF8 c) + length (enc8 cs)"
  shows "READ_UTF8 z t i = Some (c, i + length (WRITE_UTF8 c))"
proof -
  let ?j = "i + length (WRITE_UTF8 c)"
  have "c < 0x200000" using c by (simp add: valid_char_def word_less_nat_alt)
  moreover have "ends z (Some t) ?j"
  proof (cases cs)
    case Nil
    then show ?thesis using t by (simp add: ends_def)
  next
    case (Cons d ds)
    have "rd z (i + length (WRITE_UTF8 c)) = Some ((WRITE_UTF8 c @ WRITE_UTF8 d) ! length (WRITE_UTF8 c))"
      by (rule rd_drop_append [where r = "enc8 ds @ r"])
        (use z Cons length_WRITE_UTF8(1) [of d] in simp_all)
    then have "rd z ?j = Some (WRITE_UTF8 d ! 0)" by (simp add: nth_append)
    then show ?thesis using first_WRITE_UTF8 [of d] by (simp add: ends_def)
  qed
  ultimately have "utf8_read (Some t) z i = Some (if c < 0x80 then c else utf8_fix c, ?j)"
    using z t by (intro utf8_read_WRITE [where r = "enc8 cs @ r"]) auto
  then show ?thesis unfolding valid_char_fix [OF c] by (simp add: utf8_read_def)
qed

lemma trans_8to16_enc:
  "list_all valid_char cs \<Longrightarrow> drop i z = enc8 cs @ r \<Longrightarrow> t = i + length (enc8 cs) \<Longrightarrow>
   j + length (enc16 be cs) \<le> length zOut \<Longrightarrow>
   \<exists>out. trans_8to16 be z t i zOut j = Some (out, j + length (enc16 be cs)) \<and>
     length out = length zOut \<and> take (j + length (enc16 be cs)) out = take j zOut @ enc16 be cs"
proof (induction cs arbitrary: i j zOut)
  case Nil
  then show ?case by (subst trans_8to16.simps) simp
next
  case (Cons c cs)
  let ?i = "i + length (WRITE_UTF8 c)" and ?j = "j + length (write16 be c)"
  have rd: "READ_UTF8 z t i = Some (c, ?i)"
    using Cons.prems by (intro READ_UTF8_enc8 [where cs = cs and r = r]) simp_all
  have "?j \<le> length zOut" using Cons.prems(4) by simp
  from emit_ok [OF this] obtain o1 where
    o1: "emit zOut j (write16 be c) = Some o1" "length o1 = length zOut" "take ?j o1 = take j zOut @ write16 be c"
    by blast
  have "drop ?i z = drop (length (WRITE_UTF8 c)) (drop i z)" by (simp add: add.commute)
  also have "\<dots> = enc8 cs @ r" unfolding Cons.prems(2) by simp
  finally have "\<exists>out. trans_8to16 be z t ?i o1 ?j = Some (out, ?j + length (enc16 be cs)) \<and>
     length out = length o1 \<and> take (?j + length (enc16 be cs)) out = take ?j o1 @ enc16 be cs"
    using Cons.prems o1(2) by (intro Cons.IH) simp_all
  moreover have "trans_8to16 be z t i zOut j = trans_8to16 be z t ?i o1 ?j"
    using rd o1(1) Cons.prems(3) length_WRITE_UTF8(1) [of c]
    by (subst trans_8to16.simps) (simp add: write16_def [symmetric] Let_def)
  ultimately show ?case using o1 by (simp add: add.assoc)
qed

lemma trans_16to8_enc:
  "list_all valid_char cs \<Longrightarrow> drop i z = enc16 be cs @ r \<Longrightarrow> t = i + length (enc16 be cs) \<Longrightarrow>
   j + length (enc8 cs) \<le> length zOut \<Longrightarrow>
   \<exists>out. trans_16to8 be z t i zOut j = Some (out, j + length (enc8 cs)) \<and>
     length out = length zOut \<and> take (j + length (enc8 cs)) out = take j zOut @ enc8 cs"
proof (induction cs arbitrary: i j zOut)
  case Nil
  then show ?case by (subst trans_16to8.simps) simp
next
  case (Cons c cs)
  let ?i = "i + length (write16 be c)" and ?j = "j + length (WRITE_UTF8 c)"
  have c: "valid_char c" using Cons.prems by simp
  have rd: "read16 be z (\<lambda>k. k < t) i = Some (c, ?i)"
  proof (rule read16_write16 [where r = "enc16 be cs @ r"])
    show "\<not> (0xD800 \<le> c \<and> c < 0xE000)" "c < 0x110000"
      using c by (auto simp: valid_char_def word_le_nat_alt word_less_nat_alt)
    show "i + 2 < t" if "0x10000 \<le> c"
    proof -
      have "\<not> c \<le> 0xFFFF" using that by (simp add: word_le_nat_alt)
      then show ?thesis using Cons.prems(3) by (simp add: length_write16)
    qed
  qed (use Cons.prems in simp)
  have "?j \<le> length zOut" using Cons.prems(4) by simp
  from emit_ok [OF this] obtain o1 where
    o1: "emit zOut j (WRITE_UTF8 c) = Some o1" "length o1 = length zOut" "take ?j o1 = take j zOut @ WRITE_UTF8 c"
    by blast
  have "drop ?i z = drop (length (write16 be c)) (drop i z)" by (simp add: add.commute)
  also have "\<dots> = enc16 be cs @ r" unfolding Cons.prems(2) by simp
  finally have "\<exists>out. trans_16to8 be z t ?i o1 ?j = Some (out, ?j + length (enc8 cs)) \<and>
     length out = length o1 \<and> take (?j + length (enc8 cs)) out = take ?j o1 @ enc8 cs"
    using Cons.prems o1(2) by (intro Cons.IH) simp_all
  moreover have "trans_16to8 be z t i zOut j = trans_16to8 be z t ?i o1 ?j"
    using rd o1(1) Cons.prems(3) length_write16 [of be c]
    by (subst trans_16to8.simps) (simp add: read16_def [symmetric])
  ultimately show ?case using o1 by (simp add: add.assoc)
qed

section \<open>Conversion of a cell\<close>

lemma length_enc16_le: "length (enc16 be cs) \<le> 2 * length (enc8 cs)"
proof (induction cs)
  case (Cons c cs)
  have "length (write16 be c) \<le> 2 * length (WRITE_UTF8 c)"
    using length_WRITE_UTF8(1) [of c] by (auto simp: length_write16 WRITE_UTF8_def word_le_nat_alt word_less_nat_alt)
  with Cons show ?case by simp
qed simp

lemma length_enc8_le: "length (enc8 cs) \<le> 2 * length (enc16 be cs)"
proof (induction cs)
  case (Cons c cs)
  have "length (WRITE_UTF8 c) \<le> 2 * length (write16 be c)"
    using length_WRITE_UTF8(2) [of c] by (simp add: length_write16)
  with Cons show ?case by simp
qed simp

lemma text_of_split:
  assumes "mem_ok L m" "hasf (mflags m) MEM_Str"
  obtains r where "zbytes m = Some (text_of m @ r)" "mn m = length (text_of m)"
proof -
  from mem_okD(5) [OF assms] obtain b where b: "zbytes m = Some b" by blast
  then have "zbytes m = Some (text_of m @ drop (mn m) b)" by (simp add: text_of_def)
  moreover have "mn m = length (text_of m)"
    using length_text_of [of m] mem_okD(2) [OF assms(1)] assms(2) by simp
  ultimately show thesis by (rule that)
qed

lemma text_of_translated [simp]:
  "text_of (translated m d n out) = take n out" "menc (translated m d n out) = d"
  "bit (mflags (translated m d n out)) (Suc 0) = bit (mflags m) (Suc 0)"
  by (simp_all add: text_of_def translated_def zbytes_def flag_simps)

lemma translate_to16:
  assumes al: "alloc_ok al" "\<And>k n. al k n \<noteq> None" and ok: "mem_ok L m" and S: "hasf (mflags m) MEM_Str"
    and m: "menc m = SQLITE_UTF8" "text_of m = enc8 cs" and cs: "list_all valid_char cs" and d: "d \<noteq> SQLITE_UTF8"
  shows "\<exists>m' w'. sqlite3VdbeMemTranslate al m d w = Some (SQLITE_OK, m', w') \<and> mem_ok L m' \<and>
    hasf (mflags m') MEM_Str \<and> menc m' = d \<and> text_of m' = enc16 (d = SQLITE_UTF16BE) cs"
proof -
  let ?be = "d = SQLITE_UTF16BE"
  from text_of_split [OF ok S] m(2) obtain r where z: "zbytes m = Some (enc8 cs @ r)" "mn m = length (enc8 cs)" by metis
  obtain zOut where zOut: "al (nreq w) (if d = SQLITE_UTF8 then mn m * 2 + 1 else mn m * 2 + 2) = Some zOut"
    using al(2) by blast
  have room: "mn m * 2 + 2 \<le> length zOut" using alloc_okD [OF al(1) zOut] d by simp
  have "\<exists>out. trans_8to16 ?be (enc8 cs @ r) (mn m) 0 zOut 0 = Some (out, 0 + length (enc16 ?be cs)) \<and>
     length out = length zOut \<and> take (0 + length (enc16 ?be cs)) out = take 0 zOut @ enc16 ?be cs"
    using cs z room length_enc16_le [of ?be cs] by (intro trans_8to16_enc [where r = r]) auto
  then obtain out where out: "trans_8to16 ?be (enc8 cs @ r) (mn m) 0 zOut 0 = Some (out, length (enc16 ?be cs))"
      "length out = length zOut" "take (length (enc16 ?be cs)) out = enc16 ?be cs" by auto
  let ?n = "length (enc16 ?be cs)" and ?out = "out[length (enc16 ?be cs) := 0, Suc (length (enc16 ?be cs)) := 0]"
  have "translate_into m d zOut = Some (?out, ?n)"
    using z out m(1) room length_enc16_le [of ?be cs] by (simp add: translate_into_def wr_Some)
  from translate_run [where al = al and w = w, OF ok _ _ zOut this] m(1) d obtain w2 where
    run: "sqlite3VdbeMemTranslate al m d w = Some (SQLITE_OK, translated m d ?n ?out, w2)" by auto
  moreover from translate_ok [OF al(1) ok S, of d w] m(1) d run have "mem_ok L (translated m d ?n ?out)" by auto
  ultimately show ?thesis using out(3) S by auto
qed

lemma translate_to8:
  assumes al: "alloc_ok al" "\<And>k n. al k n \<noteq> None" and ok: "mem_ok L m" and S: "hasf (mflags m) MEM_Str"
    and m: "menc m \<noteq> SQLITE_UTF8" "text_of m = enc16 (menc m = SQLITE_UTF16BE) cs" and cs: "list_all valid_char cs"
  shows "\<exists>m' w'. sqlite3VdbeMemTranslate al m SQLITE_UTF8 w = Some (SQLITE_OK, m', w') \<and> mem_ok L m' \<and>
    hasf (mflags m') MEM_Str \<and> menc m' = SQLITE_UTF8 \<and> text_of m' = enc8 cs"
proof -
  let ?be = "menc m = SQLITE_UTF16BE" and ?n = "length (enc8 cs)"
  from text_of_split [OF ok S] m(2) obtain r where
    z: "zbytes m = Some (enc16 ?be cs @ r)" "mn m = length (enc16 ?be cs)" by metis
  obtain zOut where zOut: "al (nreq w) (if SQLITE_UTF8 = SQLITE_UTF8 then mn m * 2 + 1 else mn m * 2 + 2) = Some zOut"
    using al(2) by blast
  have room: "mn m * 2 + 1 \<le> length zOut" using alloc_okD [OF al(1) zOut] by simp
  have "\<exists>out. trans_16to8 ?be (enc16 ?be cs @ r) (mn m) 0 zOut 0 = Some (out, 0 + ?n) \<and>
     length out = length zOut \<and> take (0 + ?n) out = take 0 zOut @ enc8 cs"
    using cs z room length_enc8_le [of cs ?be] by (intro trans_16to8_enc [where r = r]) auto
  then obtain out where out: "trans_16to8 ?be (enc16 ?be cs @ r) (mn m) 0 zOut 0 = Some (out, ?n)"
      "length out = length zOut" "take ?n out = enc8 cs" by auto
  have "translate_into m SQLITE_UTF8 zOut = Some (out[?n := 0], ?n)"
    using z out m(1) room length_enc8_le [of cs ?be] by (simp add: translate_into_def wr_Some)
  moreover have "even (mn m)" using ok S m(1) by (auto simp: mem_ok_def)
  ultimately obtain w2 where
    run: "sqlite3VdbeMemTranslate al m SQLITE_UTF8 w = Some (SQLITE_OK, translated m SQLITE_UTF8 ?n (out[?n := 0]), w2)"
    using translate_run [where al = al and w = w, OF ok _ _ zOut] by blast
  moreover from translate_ok [OF al(1) ok S, of SQLITE_UTF8 w] m(1) run
  have "mem_ok L (translated m SQLITE_UTF8 ?n (out[?n := 0]))" by auto
  ultimately show ?thesis using out(3) S by auto
qed

text \<open>
  \<^bold>\<open>C20\<close> Well-formed text (code points below \<^verbatim>\<open>0x110000\<close> without surrogates, \<^verbatim>\<open>0xFFFE\<close> and \<^verbatim>\<open>0xFFFF\<close>)
  in a UTF-8 cell, changed to either UTF-16 encoding, is the same sequence of code points in
  that encoding; changed back to UTF-8 it is the original bytes. Both conversions succeed
  when memory is available.
\<close>

theorem encoding_roundtrip:
  assumes "alloc_ok al" "\<forall>k n. al k n \<noteq> None" "mem_ok L m" "hasf (mflags m) MEM_Str"
    and "menc m = SQLITE_UTF8" "text_of m = enc8 cs" "list_all valid_char cs" "d \<noteq> SQLITE_UTF8"
  shows "\<exists>m1 w1 m2 w2. sqlite3VdbeChangeEncoding al m d w = Some (SQLITE_OK, m1, w1) \<and>
    menc m1 = d \<and> text_of m1 = enc16 (d = SQLITE_UTF16BE) cs \<and>
    sqlite3VdbeChangeEncoding al m1 SQLITE_UTF8 w1 = Some (SQLITE_OK, m2, w2) \<and>
    menc m2 = SQLITE_UTF8 \<and> text_of m2 = text_of m"
proof -
  have al2: "\<And>k n. al k n \<noteq> None" using assms(2) by blast
  from translate_to16 [OF assms(1) al2 assms(3-8), of w] obtain m1 w1 where
    1: "sqlite3VdbeMemTranslate al m d w = Some (SQLITE_OK, m1, w1)" "mem_ok L m1" "hasf (mflags m1) MEM_Str"
      "menc m1 = d" "text_of m1 = enc16 (d = SQLITE_UTF16BE) cs" by blast
  from translate_to8 [OF assms(1) al2 1(2,3), of cs w1] assms(7,8) 1(4,5) obtain m2 w2 where
    2: "sqlite3VdbeMemTranslate al m1 SQLITE_UTF8 w1 = Some (SQLITE_OK, m2, w2)" "menc m2 = SQLITE_UTF8"
      "text_of m2 = enc8 cs" by auto
  from 1 2 assms show ?thesis by (auto simp: sqlite3VdbeChangeEncoding_def)
qed

theorem encoding_roundtrip_witness:
  "\<exists>m1 w1 m2 w2. sqlite3VdbeChangeEncoding (\<lambda>k n. Some (replicate n 0xAA))
      (null_cell\<lparr>mz := ZExt [0x48, 0xE2, 0x82, 0xAC], mn := 4, mflags := MEM_Str OR MEM_Ephem\<rparr>)
      SQLITE_UTF16BE \<lparr>nreq = 0, dels = []\<rparr> = Some (SQLITE_OK, m1, w1) \<and>
    menc m1 = SQLITE_UTF16BE \<and> text_of m1 = [0x00, 0x48, 0x20, 0xAC] \<and>
    sqlite3VdbeChangeEncoding (\<lambda>k n. Some (replicate n 0xAA)) m1 SQLITE_UTF8 w1 = Some (SQLITE_OK, m2, w2) \<and>
    menc m2 = SQLITE_UTF8 \<and> text_of m2 = [0x48, 0xE2, 0x82, 0xAC]"
proof -
  let ?m = "null_cell\<lparr>mz := ZExt [0x48, 0xE2, 0x82, 0xAC], mn := 4, mflags := MEM_Str OR MEM_Ephem\<rparr>"
  have "mem_ok 1000 ?m" "hasf (mflags ?m) MEM_Str" "menc ?m = SQLITE_UTF8"
    by (simp_all add: mem_ok_def null_cell_def owners_def text_len_ok_def zbytes_def flag_simps)
  moreover have t: "text_of ?m = [0x48, 0xE2, 0x82, 0xAC]" by (simp add: text_of_def zbytes_def)
  moreover have "enc8 [0x48, 0x20AC] = [0x48, 0xE2, 0x82, 0xAC]" by (simp add: WRITE_UTF8_def)
  moreover have "enc16 True [0x48, 0x20AC] = [0x00, 0x48, 0x20, 0xAC]"
    by (simp add: write16_def WRITE_UTF16BE_def)
  moreover have "list_all valid_char [0x48, 0x20AC]" by (simp add: valid_char_def)
  ultimately show ?thesis
    using encoding_roundtrip [of "\<lambda>k n. Some (replicate n 0xAA)" 1000 ?m "[0x48, 0x20AC]" SQLITE_UTF16BE
      "\<lparr>nreq = 0, dels = []\<rparr>"]
    by (simp add: alloc_ok_def)
qed


text \<open>
  \<^verbatim>\<open>sqlite3VdbeMemMakeWriteable\<close> discards the result of expanding the zero tail: without memory
  the blob is replaced by NULL and the result is \<^const>\<open>SQLITE_OK\<close>.
\<close>

lemma makeWriteable_hides_oom:
  "\<exists>m m' w'. full_text m = replicate 5 0 \<and> mem_ok 1000 m \<and>
     sqlite3VdbeMemMakeWriteable (\<lambda>_ _. None) m \<lparr>nreq = 0, dels = []\<rparr> = Some (SQLITE_OK, m', w') \<and> nulled m'"
  by (rule exI [of _ "null_cell\<lparr>mu := U_nZero 5, mflags := MEM_Blob OR MEM_Zero\<rparr>"])
    (simp add: null_cell_def full_text_def text_of_def zbytes_def mem_ok_def owners_def text_len_ok_def
      sqlite3VdbeMemMakeWriteable_def sqlite3VdbeMemExpandBlob_def sqlite3VdbeMemGrow_def memGrow_block_def
      memGrow_copy_def sqlite3DbMallocSize_def z_is_zMalloc_def sqlite3DbReallocOrFree_def
      sqlite3DbMallocRaw_def ptr_zMalloc_def run_xDel_def nulled_def flag_simps numeral_eq_Suc)

end
