(* ===== verification/Serial.thy ===== *)
theory Serial
  imports MemInv Varint
begin

text \<open>
  Serial types and serialised values of \<^verbatim>\<open>vdbeaux.c\<close>: the type code of a cell, the length of
  its data, and the functions that write a value into a buffer and read it back. Buffers are
  the bytes from the pointer on; integers are 64-bit values, reals their bit patterns.
\<close>

section \<open>Definitions\<close>

definition MAX_6BYTE :: int where "MAX_6BYTE = 0x00008000 * 2 ^ 32 - 1"

text \<open>The size class of a magnitude.\<close>

definition int_size :: "int \<Rightarrow> nat" where
  "int_size u =
    (if u \<le> 127 then 1
     else if u \<le> 32767 then 2
     else if u \<le> 8388607 then 3
     else if u \<le> 2147483647 then 4
     else if u \<le> MAX_6BYTE then 5
     else 6)"

definition sqlite3VdbeSerialType :: "Mem \<Rightarrow> nat \<Rightarrow> nat option" where
  "sqlite3VdbeSerialType m file_format =
    (if hasf (mflags m) MEM_Null then Some 0
     else if hasf (mflags m) MEM_Int then
       (case mu m of
          U_i i \<Rightarrow>
            Some (if 4 \<le> file_format \<and> i AND 1 = i then 8 + nat i
                  else if i < 0 then if i < - MAX_6BYTE then 6 else int_size (- i)
                  else int_size i)
        | _ \<Rightarrow> None)
     else if hasf (mflags m) MEM_Real then Some 7
     else
       (case (if hasf (mflags m) MEM_Zero
              then (case mu m of U_nZero k \<Rightarrow> Some (mn m + k) | _ \<Rightarrow> None)
              else Some (mn m)) of
          None \<Rightarrow> None
        | Some n \<Rightarrow> Some (n * 2 + 12 + (if hasf (mflags m) MEM_Str then 1 else 0))))"

definition sqlite3VdbeSerialTypeLen :: "nat \<Rightarrow> nat" where
  "sqlite3VdbeSerialTypeLen serial_type =
    (if 12 \<le> serial_type then (serial_type - 12) div 2
     else [0, 1, 2, 3, 4, 6, 8, 8, 0, 0, 0, 0] ! serial_type)"

text \<open>The loop \<^verbatim>\<open>while (i--) { buf[i] = (u8)(v & 0xFF); v >>= 8; }\<close>.\<close>

fun put_be :: "u8 list \<Rightarrow> nat \<Rightarrow> u64 \<Rightarrow> u8 list option" where
  "put_be buf 0 v = Some buf"
| "put_be buf (Suc i) v = do {
     buf' \<leftarrow> wr buf i (ucast (v AND 0xFF));
     put_be buf' i (drop_bit 8 v)
   }"

text \<open>\<^verbatim>\<open>memcpy(buf, z, n)\<close> from the text of a cell, and \<^verbatim>\<open>memset(&buf[n], 0, k)\<close>.\<close>

definition copy_text :: "u8 list \<Rightarrow> Mem \<Rightarrow> u8 list option" where
  "copy_text buf m =
    (case zbytes m of
       None \<Rightarrow> if mn m = 0 then Some buf else None
     | Some z \<Rightarrow> memcpy buf z (mn m))"

definition memset0 :: "u8 list \<Rightarrow> nat \<Rightarrow> nat \<Rightarrow> u8 list option" where
  "memset0 buf n k =
    (if n + k \<le> length buf then Some (take n buf @ replicate k 0 @ drop (n + k) buf) else None)"

definition sqlite3VdbeSerialPut :: "u8 list \<Rightarrow> nat \<Rightarrow> Mem \<Rightarrow> nat \<Rightarrow> (u8 list \<times> nat) option" where
  "sqlite3VdbeSerialPut buf nBuf m file_format = do {
     serial_type \<leftarrow> sqlite3VdbeSerialType m file_format;
     if serial_type \<le> 7 \<and> 0 < serial_type then do {
       v \<leftarrow> (if serial_type = 7 then Some (mr m)
             else case mu m of U_i i \<Rightarrow> Some (word_of_int i) | _ \<Rightarrow> None);
       let len = sqlite3VdbeSerialTypeLen serial_type;
       buf' \<leftarrow> put_be buf len v;
       Some (buf', len)
     } else if 12 \<le> serial_type then do {
       buf1 \<leftarrow> copy_text buf m;
       if hasf (mflags m) MEM_Zero then
         (case mu m of
            U_nZero nZero \<Rightarrow>
              (let len = (if nBuf < mn m + nZero then nBuf else mn m + nZero) in do {
                 buf2 \<leftarrow> memset0 buf1 (mn m) (len - mn m);
                 Some (buf2, len)
               })
          | _ \<Rightarrow> None)
       else Some (buf1, mn m)
     } else Some (buf, 0)
   }"

text \<open>Big-endian integers as \<^verbatim>\<open>sqlite3VdbeSerialGet\<close> assembles them, sign extended from the first byte.\<close>

definition be32 :: "u8 \<Rightarrow> u8 \<Rightarrow> u8 \<Rightarrow> u8 \<Rightarrow> u32" where
  "be32 b0 b1 b2 b3 =
     push_bit 24 (ucast b0) OR push_bit 16 (ucast b1) OR push_bit 8 (ucast b2) OR ucast b3"

definition get_int :: "u8 list \<Rightarrow> nat \<Rightarrow> int option" where
  "get_int buf serial_type =
    (if serial_type = 1 then do {
       b0 \<leftarrow> rd buf 0;
       Some (sint b0)
     } else if serial_type = 2 then do {
       b0 \<leftarrow> rd buf 0; b1 \<leftarrow> rd buf 1;
       Some (sint (push_bit 8 (scast b0) OR ucast b1 :: u32))
     } else if serial_type = 3 then do {
       b0 \<leftarrow> rd buf 0; b1 \<leftarrow> rd buf 1; b2 \<leftarrow> rd buf 2;
       Some (sint (push_bit 16 (scast b0) OR push_bit 8 (ucast b1) OR ucast b2 :: u32))
     } else if serial_type = 4 then do {
       b0 \<leftarrow> rd buf 0; b1 \<leftarrow> rd buf 1; b2 \<leftarrow> rd buf 2; b3 \<leftarrow> rd buf 3;
       Some (sint (be32 b0 b1 b2 b3))
     } else if serial_type = 5 then do {
       b0 \<leftarrow> rd buf 0; b1 \<leftarrow> rd buf 1; b2 \<leftarrow> rd buf 2; b3 \<leftarrow> rd buf 3; b4 \<leftarrow> rd buf 4; b5 \<leftarrow> rd buf 5;
       let x = (scast (push_bit 8 (scast b0) OR ucast b1 :: u32) :: u64);
       Some (sint (push_bit 32 x OR ucast (be32 b2 b3 b4 b5)))
     } else None)"

definition get_u64 :: "u8 list \<Rightarrow> u64 option" where
  "get_u64 buf = do {
     b0 \<leftarrow> rd buf 0; b1 \<leftarrow> rd buf 1; b2 \<leftarrow> rd buf 2; b3 \<leftarrow> rd buf 3;
     b4 \<leftarrow> rd buf 4; b5 \<leftarrow> rd buf 5; b6 \<leftarrow> rd buf 6; b7 \<leftarrow> rd buf 7;
     Some (push_bit 32 (scast (be32 b0 b1 b2 b3)) OR ucast (be32 b4 b5 b6 b7))
   }"

definition sqlite3VdbeSerialGet :: "u8 list \<Rightarrow> nat \<Rightarrow> Mem \<Rightarrow> (nat \<times> Mem) option" where
  "sqlite3VdbeSerialGet buf serial_type m =
    (if serial_type = 10 \<or> serial_type = 11 \<or> serial_type = 0 then Some (0, m\<lparr>mflags := MEM_Null\<rparr>)
     else if serial_type \<le> 5 then do {
       i \<leftarrow> get_int buf serial_type;
       Some (if serial_type = 5 then 6 else serial_type, m\<lparr>mu := U_i i, mflags := MEM_Int\<rparr>)
     } else if serial_type = 6 then do {
       x \<leftarrow> get_u64 buf;
       Some (8, m\<lparr>mu := U_i (sint x), mflags := MEM_Int\<rparr>)
     } else if serial_type = 7 then do {
       x \<leftarrow> get_u64 buf;
       Some (8, m\<lparr>mr := x, mflags := (if sqlite3IsNaN x then MEM_Null else MEM_Real)\<rparr>)
     } else if serial_type = 8 \<or> serial_type = 9 then
       Some (0, m\<lparr>mu := U_i (int serial_type - 8), mflags := MEM_Int\<rparr>)
     else
       (let len = (serial_type - 12) div 2 in
        Some (len, m\<lparr>mz := ZExt buf, mn := len, mxDel := None,
                     mflags := (if odd serial_type then MEM_Str OR MEM_Ephem else MEM_Blob OR MEM_Ephem)\<rparr>)))"

section \<open>Values\<close>

datatype sqlval = VNull | VInt int | VReal u64 | VText "u8 list" | VBlob "u8 list"

text \<open>The SQL value of a cell, in the precedence of the flags that the code tests.\<close>

definition val_of :: "Mem \<Rightarrow> sqlval" where
  "val_of m =
    (if hasf (mflags m) MEM_Null then VNull
     else if hasf (mflags m) MEM_Int then (case mu m of U_i i \<Rightarrow> VInt i | _ \<Rightarrow> VNull)
     else if hasf (mflags m) MEM_Real then VReal (mr m)
     else if hasf (mflags m) MEM_Str then VText (full_text m)
     else VBlob (full_text m))"

text \<open>A cell that can be stored in a record: a value cell with a type, and no NaN.\<close>

definition storable :: "nat \<Rightarrow> Mem \<Rightarrow> bool" where
  "storable L m \<longleftrightarrow> mem_ok L m \<and>
     hasf (mflags m) (MEM_Null OR MEM_Int OR MEM_Real OR MEM_Str OR MEM_Blob) \<and>
     (hasf (mflags m) MEM_Zero \<longrightarrow> \<not> hasf (mflags m) (MEM_Null OR MEM_Real)) \<and>
     (hasf (mflags m) MEM_Real \<longrightarrow> \<not> sqlite3IsNaN (mr m))"

text \<open>The bytes of a value, as the record format defines them.\<close>

fun be_bytes :: "nat \<Rightarrow> u64 \<Rightarrow> u8 list" where
  "be_bytes 0 v = []"
| "be_bytes (Suc n) v = be_bytes n (drop_bit 8 v) @ [ucast v]"

definition int_type :: "nat \<Rightarrow> int \<Rightarrow> nat" where
  "int_type ff i =
    (if 4 \<le> ff \<and> (i = 0 \<or> i = 1) then 8 + nat i
     else if i < - MAX_6BYTE then 6 else int_size \<bar>i\<bar>)"

fun val_type :: "nat \<Rightarrow> sqlval \<Rightarrow> nat" where
  "val_type ff VNull = 0"
| "val_type ff (VInt i) = int_type ff i"
| "val_type ff (VReal r) = 7"
| "val_type ff (VText t) = 2 * length t + 13"
| "val_type ff (VBlob b) = 2 * length b + 12"

fun val_data :: "nat \<Rightarrow> sqlval \<Rightarrow> u8 list" where
  "val_data ff VNull = []"
| "val_data ff (VInt i) = be_bytes (sqlite3VdbeSerialTypeLen (int_type ff i)) (word_of_int i)"
| "val_data ff (VReal r) = be_bytes 8 r"
| "val_data ff (VText t) = t"
| "val_data ff (VBlob b) = b"

section \<open>Types and lengths\<close>

lemma length_be_bytes [simp]: "length (be_bytes n v) = n"
  by (induction n arbitrary: v) simp_all

lemma and_1_eq_self: "(i :: int) AND 1 = i \<longleftrightarrow> i = 0 \<or> i = 1"
  by (auto simp: and_one_eq)

lemma int_size_bounds: "1 \<le> int_size u" "int_size u \<le> 6"
  by (auto simp: int_size_def)

lemma full_text_length:
  assumes "mem_ok L m" "hasf (mflags m) (MEM_Str OR MEM_Blob)"
  shows "length (full_text m) = mn m + (if hasf (mflags m) MEM_Zero
    then (case mu m of U_nZero k \<Rightarrow> k | _ \<Rightarrow> 0) else 0)"
  using length_text_of [OF mem_okD(2) [OF assms]] by (simp add: full_text_def split: memu.splits)

lemma storableD:
  assumes "storable L m"
  shows "mem_ok L m" "hasf (mflags m) MEM_Int \<Longrightarrow> \<exists>i. mu m = U_i i \<and> i64_range i"
    "\<not> hasf (mflags m) (MEM_Null OR MEM_Int OR MEM_Real) \<Longrightarrow> hasf (mflags m) (MEM_Str OR MEM_Blob)"
  using assms by (auto simp: storable_def mem_ok_def)

lemma serialType_val:
  assumes st: "storable L m"
  shows "sqlite3VdbeSerialType m ff = Some (val_type ff (val_of m))"
proof -
  note ok = storableD(1) [OF st]
  consider (null) "hasf (mflags m) MEM_Null" | (int) "\<not> hasf (mflags m) MEM_Null" "hasf (mflags m) MEM_Int"
    | (real) "\<not> hasf (mflags m) MEM_Null" "\<not> hasf (mflags m) MEM_Int" "hasf (mflags m) MEM_Real"
    | (str) "\<not> hasf (mflags m) (MEM_Null OR MEM_Int OR MEM_Real)" by auto
  then show ?thesis
  proof cases
    case int
    with storableD(2) [OF st] obtain i where "mu m = U_i i" by blast
    with int show ?thesis
      by (auto simp: sqlite3VdbeSerialType_def val_of_def int_type_def and_1_eq_self MAX_6BYTE_def)
  next
    case str
    note B = storableD(3) [OF st str]
    have z: "hasf (mflags m) MEM_Zero \<Longrightarrow> \<exists>k. mu m = U_nZero k" using mem_okD(4) [OF ok] by blast
    show ?thesis
      using str B z full_text_length [OF ok B] mem_okD(3) [OF ok]
      by (auto simp: sqlite3VdbeSerialType_def val_of_def)
  qed (simp_all add: sqlite3VdbeSerialType_def val_of_def)
qed

lemma int_type_cases:
  "int_type ff i \<in> {1, 2, 3, 4, 5, 6, 8, 9}"
  by (auto simp: int_type_def int_size_def)

lemma serialTypeLen_int: "sqlite3VdbeSerialTypeLen (int_type ff i) \<le> 8"
  using int_type_cases [of ff i] by (auto simp: sqlite3VdbeSerialTypeLen_def)

lemma serialTypeLen_data: "sqlite3VdbeSerialTypeLen (val_type ff v) = length (val_data ff v)"
  by (cases v) (simp_all add: sqlite3VdbeSerialTypeLen_def)

section \<open>Writing a value\<close>

lemma put_be_eq: "n \<le> length buf \<Longrightarrow> put_be buf n v = Some (overlay (be_bytes n v) buf)"
proof (induction n arbitrary: buf v)
  case (Suc n)
  have "ucast (v AND 0xFF) = (ucast v :: u8)" by (rule u8_eqI) (simp add: bit_simps bit_blast)
  with Suc show ?case
    by (simp add: wr_Some overlay_def Cons_nth_drop_Suc [symmetric])
qed (simp add: overlay_def)

lemma serialPut_text:
  assumes ok: "mem_ok L m" and B: "hasf (mflags m) (MEM_Str OR MEM_Blob)"
    and n: "mn m \<le> nBuf" "nBuf \<le> length buf" "\<not> hasf (mflags m) MEM_Zero \<longrightarrow> length (full_text m) \<le> nBuf"
    and t: "sqlite3VdbeSerialType m ff = Some t" "12 \<le> t"
  shows "sqlite3VdbeSerialPut buf nBuf m ff =
    Some (overlay (take nBuf (full_text m)) buf, min nBuf (length (full_text m)))"
proof -
  have len: "length (text_of m) = mn m" by (rule length_text_of [OF mem_okD(2) [OF ok B]])
  have c: "copy_text buf m = Some (overlay (text_of m) buf)"
  proof (cases "zbytes m")
    case None
    then show ?thesis using len by (simp add: copy_text_def text_of_def overlay_def)
  next
    case (Some z)
    then have "mn m \<le> length z" using mem_okD(2) [OF ok B] by (simp add: text_len_ok_def)
    with Some n show ?thesis by (simp add: copy_text_def memcpy_def text_of_def)
  qed
  show ?thesis
  proof (cases "hasf (mflags m) MEM_Zero")
    case False
    then have "full_text m = text_of m" by (simp add: full_text_def)
    with False t c len n show ?thesis by (simp add: sqlite3VdbeSerialPut_def)
  next
    case True
    then obtain k where k: "mu m = U_nZero k" using mem_okD(4) [OF ok] by blast
    let ?l = "if nBuf < mn m + k then nBuf else mn m + k"
    have l: "mn m \<le> ?l" "?l \<le> length buf" using n by auto
    have full: "full_text m = text_of m @ replicate k 0" using True k by (simp add: full_text_def)
    have "sqlite3VdbeSerialPut buf nBuf m ff =
        Some (text_of m @ replicate (?l - mn m) 0 @ drop ?l buf, ?l)"
      using True k t c l len n by (simp add: sqlite3VdbeSerialPut_def memset0_def Let_def overlay_def)
    also have "text_of m @ replicate (?l - mn m) 0 @ drop ?l buf = overlay (take nBuf (full_text m)) buf"
      using n(1) len by (auto simp: full overlay_def)
    also have "?l = min nBuf (length (full_text m))" using len by (simp add: full min_def)
    finally show ?thesis .
  qed
qed

lemma serialPut_ok:
  assumes st: "storable L m" and n: "nBuf \<le> length buf"
    and room: "hasf (mflags m) MEM_Zero \<and> \<not> hasf (mflags m) (MEM_Null OR MEM_Int OR MEM_Real) \<longrightarrow> mn m \<le> nBuf"
      "\<not> (hasf (mflags m) MEM_Zero \<and> \<not> hasf (mflags m) (MEM_Null OR MEM_Int OR MEM_Real)) \<longrightarrow>
        length (val_data ff (val_of m)) \<le> nBuf"
  shows "sqlite3VdbeSerialPut buf nBuf m ff =
    Some (overlay (take nBuf (val_data ff (val_of m))) buf, min nBuf (length (val_data ff (val_of m))))"
proof -
  note ty = serialType_val [OF st, of ff]
  consider (null) "hasf (mflags m) MEM_Null" | (int) "\<not> hasf (mflags m) MEM_Null" "hasf (mflags m) MEM_Int"
    | (real) "\<not> hasf (mflags m) MEM_Null" "\<not> hasf (mflags m) MEM_Int" "hasf (mflags m) MEM_Real"
    | (str) "\<not> hasf (mflags m) (MEM_Null OR MEM_Int OR MEM_Real)" by auto
  then show ?thesis
  proof cases
    case null
    then show ?thesis using ty by (simp add: sqlite3VdbeSerialPut_def val_of_def overlay_def)
  next
    case int
    with storableD(2) [OF st] obtain i where i: "mu m = U_i i" by blast
    then have v: "val_of m = VInt i" using int by (simp add: val_of_def)
    have le: "sqlite3VdbeSerialTypeLen (int_type ff i) \<le> nBuf" using room(2) int v by simp
    have "int_type ff i \<in> {1, 2, 3, 4, 5, 6} \<or> int_type ff i \<in> {8, 9}" using int_type_cases [of ff i] by auto
    then show ?thesis
    proof
      assume t: "int_type ff i \<in> {1, 2, 3, 4, 5, 6}"
      then have "int_type ff i \<le> 7 \<and> 0 < int_type ff i" "int_type ff i \<noteq> 7" by auto
      with ty v i n le show ?thesis
        by (simp add: sqlite3VdbeSerialPut_def put_be_eq Let_def)
    next
      assume t: "int_type ff i \<in> {8, 9}"
      then have "sqlite3VdbeSerialTypeLen (int_type ff i) = 0" by (auto simp: sqlite3VdbeSerialTypeLen_def)
      moreover have "\<not> int_type ff i \<le> 7" "\<not> 12 \<le> int_type ff i" using t by auto
      ultimately show ?thesis using ty v by (simp add: sqlite3VdbeSerialPut_def overlay_def)
    qed
  next
    case real
    then have v: "val_of m = VReal (mr m)" by (simp add: val_of_def)
    then have "8 \<le> nBuf" using room(2) real by simp
    moreover have "sqlite3VdbeSerialTypeLen 7 = 8" by code_simp
    ultimately show ?thesis using ty v n
      by (simp add: sqlite3VdbeSerialPut_def put_be_eq Let_def del: be_bytes.simps)
  next
    case str
    note B = storableD(3) [OF st str]
    have v: "val_data ff (val_of m) = full_text m" using str by (simp add: val_of_def)
    have t: "12 \<le> val_type ff (val_of m)" using str by (simp add: val_of_def)
    have "mn m \<le> nBuf"
      using room str v full_text_length [OF storableD(1) [OF st] B] by (cases "hasf (mflags m) MEM_Zero") auto
    from serialPut_text [OF storableD(1) [OF st] B this n _ ty t] room(2) str v show ?thesis by auto
  qed
qed

section \<open>Reading a value\<close>

text \<open>
  An integer that fits into \<open>n + 1\<close> bits has all bits from \<open>n\<close> on equal; a word assembled from
  its low bytes with the sign extended is the integer again.
\<close>

lemma sign_bits:
  assumes "- (2 ^ n) \<le> i" "i < 2 ^ n"
  shows "n < k \<Longrightarrow> bit (i :: int) k = bit i n"
proof -
  have "signed_take_bit n i = i" using assms by (simp add: signed_take_bit_int_eq_self_iff)
  then have "bit i k = bit (signed_take_bit n i) k" by simp
  also have "\<dots> = bit i (min n k)" by (simp add: bit_signed_take_bit_iff min.commute)
  finally show "n < k \<Longrightarrow> ?thesis" by simp
qed

lemma sint_u8: "- (2 ^ 7) \<le> i \<Longrightarrow> i < 2 ^ 7 \<Longrightarrow> sint (word_of_int i :: u8) = i"
  and sint_u32: "- (2 ^ 31) \<le> i \<Longrightarrow> i < 2 ^ 31 \<Longrightarrow> sint (word_of_int i :: u32) = i"
  and sint_u64: "- (2 ^ 63) \<le> i \<Longrightarrow> i < 2 ^ 63 \<Longrightarrow> sint (word_of_int i :: u64) = i"
  by (simp_all add: signed_of_int signed_take_bit_int_eq_self_iff)

lemma be_bytes_unfold: "be_bytes (numeral k) w = be_bytes (pred_numeral k) (drop_bit 8 w) @ [ucast w]"
  by (simp add: numeral_eq_Suc)

lemma be_bytes_small:
  "be_bytes 1 w = [ucast w]"
  "be_bytes 2 w = [ucast (drop_bit 8 w), ucast w]"
  "be_bytes 3 w = [ucast (drop_bit 16 w), ucast (drop_bit 8 w), ucast w]"
  "be_bytes 4 w = [ucast (drop_bit 24 w), ucast (drop_bit 16 w), ucast (drop_bit 8 w), ucast w]"
  "be_bytes 6 w = [ucast (drop_bit 40 w), ucast (drop_bit 32 w), ucast (drop_bit 24 w),
     ucast (drop_bit 16 w), ucast (drop_bit 8 w), ucast w]"
  "be_bytes 8 w = [ucast (drop_bit 56 w), ucast (drop_bit 48 w), ucast (drop_bit 40 w),
     ucast (drop_bit 32 w), ucast (drop_bit 24 w), ucast (drop_bit 16 w), ucast (drop_bit 8 w), ucast w]"
  by (simp_all add: be_bytes_unfold)

lemma get_int_1:
  assumes r: "- (2 ^ 7) \<le> i" "i < 2 ^ 7"
  shows "get_int (be_bytes 1 (word_of_int i) @ rest) 1 = Some i"
proof -
  have "ucast (word_of_int i :: u64) = (word_of_int i :: u8)"
    by (rule u8_eqI) (simp add: bit_simps bit_blast)
  then show ?thesis using sint_u8 [OF r] by (simp add: get_int_def rd_def)
qed

lemma get_int_2:
  assumes r: "- (2 ^ 15) \<le> i" "i < 2 ^ 15"
  shows "get_int (be_bytes 2 (word_of_int i) @ rest) 2 = Some i"
proof -
  let ?w = "word_of_int i :: u64"
  have "push_bit 8 (scast (ucast (drop_bit 8 ?w) :: u8)) OR ucast (ucast ?w :: u8) = (word_of_int i :: u32)"
    by (rule u32_eqI) (simp add: bit_simps bit_blast sign_bits [OF r])
  moreover have "sint (word_of_int i :: u32) = i" using r by (intro sint_u32) auto
  ultimately show ?thesis by (simp add: get_int_def rd_def be_bytes_small)
qed

lemma get_int_3:
  assumes r: "- (2 ^ 23) \<le> i" "i < 2 ^ 23"
  shows "get_int (be_bytes 3 (word_of_int i) @ rest) 3 = Some i"
proof -
  let ?w = "word_of_int i :: u64"
  have "push_bit 16 (scast (ucast (drop_bit 16 ?w) :: u8)) OR push_bit 8 (ucast (ucast (drop_bit 8 ?w) :: u8))
      OR ucast (ucast ?w :: u8) = (word_of_int i :: u32)"
    by (rule u32_eqI) (simp add: bit_simps bit_blast sign_bits [OF r])
  moreover have "sint (word_of_int i :: u32) = i" using r by (intro sint_u32) auto
  ultimately show ?thesis by (simp add: get_int_def rd_def be_bytes_small)
qed

lemma be32_bytes:
  "be32 (ucast (drop_bit 24 w)) (ucast (drop_bit 16 w)) (ucast (drop_bit 8 w)) (ucast w) = ucast (w :: u64)"
  unfolding be32_def by (rule u32_eqI) (simp add: bit_simps bit_blast)

lemma get_int_4:
  assumes r: "- (2 ^ 31) \<le> i" "i < 2 ^ 31"
  shows "get_int (be_bytes 4 (word_of_int i) @ rest) 4 = Some i"
proof -
  have "ucast (word_of_int i :: u64) = (word_of_int i :: u32)"
    by (rule u32_eqI) (simp add: bit_simps bit_blast)
  then show ?thesis using sint_u32 [OF r] be32_bytes [of "word_of_int i"]
    by (simp add: get_int_def rd_def be_bytes_small)
qed

lemma get_int_5:
  assumes r: "- (2 ^ 47) \<le> i" "i < 2 ^ 47"
  shows "get_int (be_bytes 6 (word_of_int i) @ rest) 5 = Some i"
proof -
  let ?w = "word_of_int i :: u64"
  have "push_bit 32 (scast (push_bit 8 (scast (ucast (drop_bit 40 ?w) :: u8))
      OR ucast (ucast (drop_bit 32 ?w) :: u8) :: u32)) OR ucast (ucast ?w :: u32) = ?w"
    by (rule u64_eqI) (simp add: bit_simps bit_blast sign_bits [OF r])
  moreover have "sint ?w = i" using r by (intro sint_u64) auto
  ultimately show ?thesis using be32_bytes [of ?w]
    by (simp add: get_int_def rd_def be_bytes_small Let_def)
qed

lemma get_u64_bytes: "get_u64 (be_bytes 8 w @ rest) = Some w"
proof -
  have "push_bit 32 (scast (ucast (drop_bit 32 w) :: u32)) OR ucast (ucast w :: u32) = w"
    by (rule u64_eqI) (simp add: bit_simps bit_blast)
  then show ?thesis using be32_bytes [of w] be32_bytes [of "drop_bit 32 w"]
    by (simp add: get_u64_def rd_def be_bytes_small)
qed

fun val_ok :: "sqlval \<Rightarrow> bool" where
  "val_ok (VInt i) \<longleftrightarrow> i64_range i"
| "val_ok (VReal r) \<longleftrightarrow> \<not> sqlite3IsNaN r"
| "val_ok _ \<longleftrightarrow> True"

lemma storable_val_ok: "storable L m \<Longrightarrow> val_ok (val_of m)"
  using storableD(2) [of L m] by (auto simp: val_of_def storable_def)

lemma serialGet_int:
  assumes "i64_range i"
  shows "sqlite3VdbeSerialGet (val_data ff (VInt i) @ rest) (val_type ff (VInt i)) m =
    Some (length (val_data ff (VInt i)), m\<lparr>mu := U_i i, mflags := MEM_Int\<rparr>)"
proof -
  have len: "sqlite3VdbeSerialTypeLen 1 = 1" "sqlite3VdbeSerialTypeLen 2 = 2" "sqlite3VdbeSerialTypeLen 3 = 3"
    "sqlite3VdbeSerialTypeLen 4 = 4" "sqlite3VdbeSerialTypeLen 5 = 6" "sqlite3VdbeSerialTypeLen 6 = 8"
    "sqlite3VdbeSerialTypeLen 8 = 0" "sqlite3VdbeSerialTypeLen 9 = 0"
    by code_simp+
  have r: "int_type ff i = 1 \<Longrightarrow> - (2 ^ 7) \<le> i \<and> i < 2 ^ 7" "int_type ff i = 2 \<Longrightarrow> - (2 ^ 15) \<le> i \<and> i < 2 ^ 15"
    "int_type ff i = 3 \<Longrightarrow> - (2 ^ 23) \<le> i \<and> i < 2 ^ 23" "int_type ff i = 4 \<Longrightarrow> - (2 ^ 31) \<le> i \<and> i < 2 ^ 31"
    "int_type ff i = 5 \<Longrightarrow> - (2 ^ 47) \<le> i \<and> i < 2 ^ 47"
    "int_type ff i = 8 \<Longrightarrow> i = 0" "int_type ff i = 9 \<Longrightarrow> i = 1"
    by (auto simp: int_type_def int_size_def MAX_6BYTE_def split: if_splits)
  have s64: "sint (word_of_int i :: u64) = i" using assms by (intro sint_u64) (auto simp: i64_limits)
  consider "int_type ff i = 1" | "int_type ff i = 2" | "int_type ff i = 3" | "int_type ff i = 4"
    | "int_type ff i = 5" | "int_type ff i = 6" | "int_type ff i = 8" | "int_type ff i = 9"
    using int_type_cases [of ff i] by auto
  then show ?thesis
  proof cases
    case 1
    with r(1) show ?thesis
      using get_int_1 [of i rest] by (simp add: sqlite3VdbeSerialGet_def len [simplified] del: be_bytes.simps)
  next
    case 2
    with r(2) show ?thesis
      using get_int_2 [of i rest] by (simp add: sqlite3VdbeSerialGet_def len [simplified] del: be_bytes.simps)
  next
    case 3
    with r(3) show ?thesis
      using get_int_3 [of i rest] by (simp add: sqlite3VdbeSerialGet_def len [simplified] del: be_bytes.simps)
  next
    case 4
    with r(4) show ?thesis
      using get_int_4 [of i rest] by (simp add: sqlite3VdbeSerialGet_def len [simplified] del: be_bytes.simps)
  next
    case 5
    with r(5) show ?thesis
      using get_int_5 [of i rest] by (simp add: sqlite3VdbeSerialGet_def len [simplified] del: be_bytes.simps)
  next
    case 6
    with s64 show ?thesis
      using get_u64_bytes [of "word_of_int i" rest]
      by (simp add: sqlite3VdbeSerialGet_def len [simplified] del: be_bytes.simps)
  qed (use r(6,7) in \<open>simp_all add: sqlite3VdbeSerialGet_def len [simplified]\<close>)
qed

text \<open>
  Reading a serialised value gives a cell with that value; a text or blob points into the
  record.
\<close>

definition read_cell :: "Mem \<Rightarrow> sqlval \<Rightarrow> u8 list \<Rightarrow> Mem" where
  "read_cell m v buf = (case v of
      VNull \<Rightarrow> m\<lparr>mflags := MEM_Null\<rparr>
    | VInt i \<Rightarrow> m\<lparr>mu := U_i i, mflags := MEM_Int\<rparr>
    | VReal r \<Rightarrow> m\<lparr>mr := r, mflags := MEM_Real\<rparr>
    | VText t \<Rightarrow> m\<lparr>mz := ZExt buf, mn := length t, mxDel := None, mflags := MEM_Str OR MEM_Ephem\<rparr>
    | VBlob b \<Rightarrow> m\<lparr>mz := ZExt buf, mn := length b, mxDel := None, mflags := MEM_Blob OR MEM_Ephem\<rparr>)"

lemma serialGet_val:
  assumes "val_ok v"
  shows "sqlite3VdbeSerialGet (val_data ff v @ rest) (val_type ff v) m =
    Some (length (val_data ff v), read_cell m v (val_data ff v @ rest))"
proof (cases v)
  case (VInt i)
  with assms serialGet_int [of i ff rest m] show ?thesis by (simp add: read_cell_def)
next
  case (VReal r)
  with assms get_u64_bytes [of r rest] show ?thesis
    by (simp add: sqlite3VdbeSerialGet_def read_cell_def del: be_bytes.simps)
qed (simp_all add: sqlite3VdbeSerialGet_def read_cell_def Let_def)

lemma val_of_read_cell: "val_of (read_cell m v (val_data ff v @ rest)) = v"
  by (cases v) (simp_all add: read_cell_def val_of_def full_text_def text_of_def zbytes_def flag_simps)

text \<open>
  Serialisation of a value. A cell of any type (NULL, integer, real, text, blob, also a
  blob with a tail of zeros) is written into a buffer with room for it as exactly the number
  of bytes of its serial type, nothing else in the buffer changes, and
  \<^verbatim>\<open>sqlite3VdbeSerialGet\<close> on these bytes with that serial type returns the same value and
  length.
\<close>

theorem serial_roundtrip:
  assumes "storable L m" "length (val_data ff (val_of m)) \<le> nBuf" "nBuf \<le> length buf"
  shows "\<exists>t len buf' m'. sqlite3VdbeSerialType m ff = Some t \<and> len = sqlite3VdbeSerialTypeLen t \<and>
    sqlite3VdbeSerialPut buf nBuf m ff = Some (buf', len) \<and> length buf' = length buf \<and>
    drop len buf' = drop len buf \<and>
    sqlite3VdbeSerialGet buf' t m0 = Some (len, m') \<and> val_of m' = val_of m"
proof -
  let ?d = "val_data ff (val_of m)"
  have "hasf (mflags m) MEM_Zero \<and> \<not> hasf (mflags m) (MEM_Null OR MEM_Int OR MEM_Real) \<longrightarrow> mn m \<le> nBuf"
    using assms full_text_length [OF storableD(1) storableD(3), OF assms(1,1)]
    by (auto simp: val_of_def split: if_splits)
  with serialPut_ok [OF assms(1,3), of ff] assms(2) have
    "sqlite3VdbeSerialPut buf nBuf m ff = Some (overlay ?d buf, length ?d)" by (simp add: min_def)
  moreover have "length (overlay ?d buf) = length buf" "drop (length ?d) (overlay ?d buf) = drop (length ?d) buf"
    using assms(2,3) by (simp_all add: overlay_def)
  ultimately show ?thesis
    using serialType_val [OF assms(1), of ff] serialTypeLen_data [of ff "val_of m"]
      serialGet_val [OF storable_val_ok [OF assms(1)], of ff "drop (length ?d) buf" m0]
      val_of_read_cell [of m0 "val_of m" ff "drop (length ?d) buf"]
    by (simp add: overlay_def)
qed

end
