(* ===== verification/VdbeRecord.thy ===== *)
theory VdbeRecord
  imports Serial
begin

text \<open>
  Records: the header of serial types followed by the data of the fields. \<^verbatim>\<open>OP_MakeRecord\<close> of
  \<^verbatim>\<open>vdbe.c\<close> (without affinities) builds one from a range of registers in the output register,
  \<^verbatim>\<open>sqlite3VdbeRecordUnpack\<close> of \<^verbatim>\<open>vdbeaux.c\<close> decodes it into cells.
\<close>

section \<open>Building a record\<close>

text \<open>
  The first loop: how much space the record takes. A blob with a tail of zeros behind other
  bytes is expanded; the result of that call is not looked at.
\<close>

fun mkrec_size :: "alloc \<Rightarrow> nat \<Rightarrow> Mem list \<Rightarrow> nat \<Rightarrow> nat \<Rightarrow> nat \<Rightarrow> world \<Rightarrow>
    (Mem list \<times> nat \<times> nat \<times> nat \<times> world) option" where
  "mkrec_size al ff [] nData nHdr nZero w = Some ([], nData, nHdr, nZero, w)"
| "mkrec_size al ff (m # ms) nData nHdr nZero w = do {
     (rc, m, w) \<leftarrow> (if hasf (mflags m) MEM_Zero \<and> 0 < mn m then sqlite3VdbeMemExpandBlob al m w
                   else Some (SQLITE_OK, m, w));
     serial_type \<leftarrow> sqlite3VdbeSerialType m ff;
     let len = sqlite3VdbeSerialTypeLen serial_type;
     nZero \<leftarrow> (if hasf (mflags m) MEM_Zero then
                (case mu m of U_nZero k \<Rightarrow> Some (nZero + k) | _ \<Rightarrow> None)
              else Some (if len \<noteq> 0 then 0 else nZero));
     (ms, r) \<leftarrow> mkrec_size al ff ms (nData + len)
                (nHdr + sqlite3VarintLen (of_nat serial_type)) nZero w;
     Some (m # ms, r)
   }"

fun put_hdr :: "nat \<Rightarrow> Mem list \<Rightarrow> u8 list \<Rightarrow> nat \<Rightarrow> (u8 list \<times> nat) option" where
  "put_hdr ff [] z i = Some (z, i)"
| "put_hdr ff (m # ms) z i = do {
     serial_type \<leftarrow> sqlite3VdbeSerialType m ff;
     (b, n) \<leftarrow> putVarint32 (drop i z) (of_nat serial_type);
     put_hdr ff ms (take i z @ b) (i + n)
   }"

fun put_data :: "nat \<Rightarrow> nat \<Rightarrow> Mem list \<Rightarrow> u8 list \<Rightarrow> nat \<Rightarrow> (u8 list \<times> nat) option" where
  "put_data ff nByte [] z i = Some (z, i)"
| "put_data ff nByte (m # ms) z i = do {
     (b, n) \<leftarrow> sqlite3VdbeSerialPut (drop i z) (nByte - i) m ff;
     put_data ff nByte ms (take i z @ b) (i + n)
   }"

definition hdr_total :: "nat \<Rightarrow> nat" where
  "hdr_total nHdr =
    (let nVarint = sqlite3VarintLen (of_nat nHdr); nHdr = nHdr + nVarint in
     if nVarint < sqlite3VarintLen (of_nat nHdr) then nHdr + 1 else nHdr)"

definition OP_MakeRecord ::
    "alloc \<Rightarrow> nat \<Rightarrow> nat \<Rightarrow> Mem list \<Rightarrow> Mem \<Rightarrow> world \<Rightarrow> (rc \<times> Mem list \<times> Mem \<times> world) option" where
  "OP_MakeRecord al iLimit ff ms pOut w = do {
     (ms, nData, nHdr, nZero, w) \<leftarrow> mkrec_size al ff ms 0 0 0 w;
     let nHdr = hdr_total nHdr;
     let nByte = nHdr + nData - nZero;
     if iLimit < nByte then Some (SQLITE_TOOBIG, ms, pOut, w)
     else do {
       (rc, pOut, w) \<leftarrow> sqlite3VdbeMemGrow al pOut nByte False w;
       if rc \<noteq> SQLITE_OK then Some (SQLITE_NOMEM, ms, pOut, w)
       else do {
         z \<leftarrow> zbytes pOut;
         (z, i) \<leftarrow> putVarint32 z (of_nat nHdr);
         (z, i) \<leftarrow> put_hdr ff ms z i;
         (z, i) \<leftarrow> put_data ff nByte ms z i;
         let pOut = (set_zbytes pOut z)\<lparr>mn := nByte, mflags := MEM_Blob OR MEM_Dyn, mxDel := None,
                      menc := SQLITE_UTF8\<rparr>;
         Some (SQLITE_OK, ms,
               (if nZero \<noteq> 0 then pOut\<lparr>mu := U_nZero nZero, mflags := mflags pOut OR MEM_Zero\<rparr>
                else pOut), w)
       }
     }
   }"

section \<open>Decoding a record\<close>

text \<open>
  \<^verbatim>\<open>struct KeyInfo\<close>, with a collating sequence as its encoding and its comparison of two texts,
  \<^const>\<open>None\<close> when the comparison would read outside one of them.
\<close>

record CollSeq =
  cEnc :: enc
  xCmp :: "u8 list \<Rightarrow> u8 list \<Rightarrow> int option"

record KeyInfo =
  kEnc :: enc
  kField :: nat
  aSortOrder :: "bool list option"
  aColl :: "CollSeq option list"

text \<open>
  \<^verbatim>\<open>sqlite3VdbeRecordUnpack\<close>. The offset \<open>d\<close> is a 32-bit register that the C code reads as a
  signed integer; the address \<^verbatim>\<open>&aKey[d]\<close> exists only inside the object.
\<close>

definition at_key :: "u8 list \<Rightarrow> u32 \<Rightarrow> u8 list option" where
  "at_key aKey d =
    (if 0 \<le> sint d \<and> nat (sint d) \<le> length aKey then Some (drop (nat (sint d)) aKey) else None)"

fun unpack_loop :: "KeyInfo \<Rightarrow> u8 list \<Rightarrow> int \<Rightarrow> u32 \<Rightarrow> Mem list \<Rightarrow> nat \<Rightarrow> u32 \<Rightarrow> Mem list option" where
  "unpack_loop ki aKey nKey szHdr [] idx d = Some []"
| "unpack_loop ki aKey nKey szHdr (m # ms) idx d =
    (if idx < unat szHdr \<and> sint d \<le> nKey then do {
       (serial_type, n) \<leftarrow> getVarint32 (drop idx aKey);
       buf \<leftarrow> at_key aKey d;
       (len, m') \<leftarrow> sqlite3VdbeSerialGet buf (unat serial_type) (m\<lparr>menc := kEnc ki, mzMalloc := None\<rparr>);
       ms' \<leftarrow> unpack_loop ki aKey nKey szHdr ms (idx + n) (d + of_nat len);
       Some (m' # ms')
     } else Some [])"

definition sqlite3VdbeRecordUnpack :: "KeyInfo \<Rightarrow> int \<Rightarrow> u8 list \<Rightarrow> Mem list \<Rightarrow> Mem list option" where
  "sqlite3VdbeRecordUnpack ki nKey aKey aMem = do {
     (szHdr, idx) \<leftarrow> getVarint32 aKey;
     unpack_loop ki aKey nKey szHdr aMem idx szHdr
   }"

section \<open>Varints in the header\<close>

definition vb :: "nat \<Rightarrow> u8 list" where "vb t = varint_bytes (of_nat t)"

lemma length_vb: "1 \<le> length (vb t)" "length (vb t) \<le> 9"
  using varint_bytes_bounds [of "of_nat t"] by (simp_all add: vb_def)

lemma ucast_of_nat_u32: "t < 2 ^ 32 \<Longrightarrow> (ucast (of_nat t :: u32) :: u64) = of_nat t"
  by (simp add: word_unat_eq_iff unsigned_ucast_eq unsigned_of_nat take_bit_nat_eq_self)

lemma putVarint32_vb:
  assumes t: "t < 2 ^ 32" and p: "length (vb t) \<le> length p"
  shows "putVarint32 p (of_nat t) = Some (overlay (vb t) p, length (vb t))"
proof -
  let ?v = "of_nat t :: u64"
  have low: "drop_bit 56 ?v = 0"
    using t by (simp add: word_unat_eq_iff unat_drop_bit_eq unsigned_of_nat take_bit_nat_eq_self)
      (simp add: drop_bit_eq_div)
  have "vb t = encC (vgroups ?v - 1) (drop_bit 7 ?v) @ [ucast (?v AND 0x7f)]"
    using low by (simp add: vb_def varint_bytes_def)
  moreover have "length (vb t) = vgroups ?v" using low by (simp add: vb_def length_varint_bytes)
  ultimately have "sqlite3PutVarint p ?v = Some (overlay (vb t) p, length (vb t))"
    using p putVarint_copy_eq [of 0 "vb t" p] by (simp add: sqlite3PutVarint_low [OF low] overlay_def)
  then show ?thesis by (simp add: putVarint32_eq ucast_of_nat_u32 [OF t])
qed

lemma getVarint32_vb:
  assumes t: "t < 2 ^ 32"
  shows "getVarint32 (vb t @ rest) = Some (of_nat t, length (vb t))"
proof -
  have "sqlite3GetVarint (vb t @ rest) = Some (of_nat t, length (vb t))"
    by (simp add: vb_def sqlite3GetVarint_ref varint_ref_bytes)
  then have "getVarint32 (vb t @ rest) = Some (sat32 (of_nat t), length (vb t))"
    by (simp add: getVarint32_eq)
  then show ?thesis unfolding ucast_of_nat_u32 [OF t, symmetric] by simp
qed

lemma varintLen_vb: "sqlite3VarintLen (of_nat t) = length (vb t)"
  by (simp add: sqlite3VarintLen_eq vb_def)

text \<open>The size of the header, its own varint included, is a fixed point.\<close>

lemma length_vb_le_iff:
  assumes "t < 2 ^ 56" "0 < k" "k \<le> 8"
  shows "length (vb t) \<le> k \<longleftrightarrow> t < 128 ^ k"
proof -
  let ?v = "of_nat t :: u64"
  have t: "unat ?v = t" using assms(1) by (simp add: unsigned_of_nat take_bit_nat_eq_self)
  have low: "drop_bit 56 ?v = 0"
    using assms(1) by (simp add: word_unat_eq_iff unat_drop_bit_eq t) (simp add: drop_bit_eq_div)
  have "length (vb t) \<le> k \<longleftrightarrow> drop_bit (7 * k) ?v = 0"
    using low assms(2) by (simp add: vb_def length_varint_bytes vgroups_le_iff)
  also have "\<dots> \<longleftrightarrow> t div 2 ^ (7 * k) = 0"
    by (simp add: word_unat_eq_iff unat_drop_bit_eq t) (simp add: drop_bit_eq_div)
  also have "\<dots> \<longleftrightarrow> t < 128 ^ k" by (simp add: div_eq_0_iff power_mult)
  finally show ?thesis .
qed

lemma length_vb_eqI:
  assumes "t < 128 ^ k" "128 ^ (k - 1) \<le> t \<or> k = 1" "1 \<le> k" "k \<le> 7"
  shows "length (vb t) = k"
proof -
  have "(128 :: nat) ^ k \<le> 128 ^ 7" using assms(4) by (intro power_increasing) simp_all
  then have t: "t < 2 ^ 56" using assms(1) by simp
  have "length (vb t) \<le> k" using length_vb_le_iff [OF t, of k] assms by simp
  moreover have "\<not> length (vb t) \<le> k - 1" if "k \<noteq> 1"
    using length_vb_le_iff [OF t, of "k - 1"] assms that by auto
  ultimately show ?thesis using length_vb(1) [of t] assms(3) by (cases "k = 1") auto
qed

lemma hdr_total_fixed:
  assumes n: "n < 2 ^ 31"
  shows "hdr_total n = length (vb (hdr_total n)) + n"
proof -
  let ?a = "length (vb n)"
  have "?a \<le> 5" using length_vb_le_iff [of n 5] n by simp
  then have a: "1 \<le> ?a" "?a \<le> 5" using length_vb(1) [of n] by simp_all
  have up: "n < 128 ^ ?a"
  proof -
    have "n < 2 ^ 56" using n by simp
    moreover have "0 < ?a" "?a \<le> 8" using a by linarith+
    ultimately show ?thesis using length_vb_le_iff [of n ?a] by blast
  qed
  have lo: "128 ^ (?a - 1) \<le> n \<or> ?a = 1"
  proof (cases "?a = 1")
    case False
    then have "0 < ?a - 1" "?a - 1 \<le> 8" "\<not> ?a \<le> ?a - 1" using a by linarith+
    moreover have "n < 2 ^ 56" using n by simp
    ultimately have "\<not> n < 128 ^ (?a - 1)" using length_vb_le_iff [of n "?a - 1"] by blast
    then show ?thesis by simp
  qed simp
  show ?thesis
  proof (cases "n + ?a < 128 ^ ?a")
    case True
    then have "length (vb (n + ?a)) = ?a" using lo a by (intro length_vb_eqI) auto
    then show ?thesis by (simp add: hdr_total_def varintLen_vb Let_def)
  next
    case False
    have big: "(128 :: nat) ^ ?a * 128 = 128 ^ (?a + 1)" by simp
    have "128 ^ 1 \<le> (128 :: nat) ^ ?a" using a by (intro power_increasing) simp_all
    then have "n + ?a + 1 < 128 ^ (?a + 1)" using up a big by linarith
    then have "length (vb (n + ?a)) = ?a + 1" "length (vb (n + ?a + 1)) = ?a + 1"
      using False a by (auto intro!: length_vb_eqI)
    then show ?thesis by (simp add: hdr_total_def varintLen_vb Let_def)
  qed
qed

section \<open>The bytes of a record\<close>

definition types :: "nat \<Rightarrow> sqlval list \<Rightarrow> u8 list" where
  "types ff vs = concat (map (\<lambda>v. vb (val_type ff v)) vs)"

definition datas :: "nat \<Rightarrow> sqlval list \<Rightarrow> u8 list" where
  "datas ff vs = concat (map (val_data ff) vs)"

definition rec_bytes :: "nat \<Rightarrow> sqlval list \<Rightarrow> u8 list" where
  "rec_bytes ff vs = vb (hdr_total (length (types ff vs))) @ types ff vs @ datas ff vs"

lemma types_simps [simp]: "types ff [] = []" "types ff (v # vs) = vb (val_type ff v) @ types ff vs"
  by (simp_all add: types_def)

lemma datas_simps [simp]: "datas ff [] = []" "datas ff (v # vs) = val_data ff v @ datas ff vs"
  by (simp_all add: datas_def)

text \<open>How the first loop may change a cell: it is expanded, or lost for want of memory.\<close>

definition sized :: "nat \<Rightarrow> Mem \<Rightarrow> Mem \<Rightarrow> bool" where
  "sized L m m' \<longleftrightarrow> storable L m' \<and> (hasf (mflags m') MEM_Zero \<longrightarrow> mn m' = 0) \<and>
     (val_of m' = val_of m \<or> hasf (mflags m) MEM_Zero \<and> 0 < mn m \<and> val_of m' = VNull)"

text \<open>The count \<^verbatim>\<open>nZero\<close> of the first loop.\<close>

fun nz :: "nat \<Rightarrow> Mem list \<Rightarrow> nat \<Rightarrow> nat" where
  "nz ff [] k = k"
| "nz ff (m # ms) k =
    nz ff ms (if hasf (mflags m) MEM_Zero then k + length (val_data ff (val_of m))
              else if val_data ff (val_of m) \<noteq> [] then 0 else k)"

lemma owned_copy_val: "owned_copy m m' \<Longrightarrow> val_of m' = val_of m"
  by (simp add: owned_copy_def val_of_def)

lemma expand_sized:
  assumes al: "alloc_ok al" and st: "storable L m"
  shows "\<exists>rc m' w'. (if hasf (mflags m) MEM_Zero \<and> 0 < mn m then sqlite3VdbeMemExpandBlob al m w
      else Some (SQLITE_OK, m, w)) = Some (rc, m', w') \<and> sized L m m'"
proof (cases "hasf (mflags m) MEM_Zero \<and> 0 < mn m")
  case False
  then show ?thesis using st by (auto simp: sized_def)
next
  case True
  from expandBlob_ok [OF al storableD(1) [OF st], of w] obtain rc m' w' where
    x: "sqlite3VdbeMemExpandBlob al m w = Some (rc, m', w')" "mem_ok L m'" and
    or: "rc = SQLITE_OK \<and> keeps m m' \<and> \<not> hasf (mflags m') MEM_Zero \<or> rc = SQLITE_NOMEM \<and> nulled m'" by blast
  from or have "sized L m m'"
  proof
    assume k: "rc = SQLITE_OK \<and> keeps m m' \<and> \<not> hasf (mflags m') MEM_Zero"
    then have "owned_copy m m'" using True by (auto simp: keeps_def)
    then show ?thesis using st x(2) k owned_copy_val [of m m']
      by (auto simp: sized_def storable_def owned_copy_def)
  next
    assume "rc = SQLITE_NOMEM \<and> nulled m'"
    then show ?thesis using x(2) True by (simp add: sized_def storable_def nulled_def val_of_def flag_simps)
  qed
  with True x(1) show ?thesis by auto
qed

lemma sized_zero:
  assumes "sized L m m'" "hasf (mflags m') MEM_Zero"
  obtains k where "mu m' = U_nZero k" "val_data ff (val_of m') = replicate k 0"
proof -
  have st: "storable L m'" and n: "mn m' = 0" using assms by (auto simp: sized_def)
  have z: "\<not> hasf (mflags m') (MEM_Null OR MEM_Real)" using st assms(2) by (auto simp: storable_def)
  obtain k where k: "mu m' = U_nZero k" using mem_okD(4) [OF storableD(1) [OF st] assms(2)] by blast
  then have i: "\<not> hasf (mflags m') MEM_Int" using storableD(2) [OF st] by auto
  have "text_of m' = []" using n by (cases "zbytes m'") (simp_all add: text_of_def)
  then have "full_text m' = replicate k 0" using k assms(2) by (simp add: full_text_def)
  then have "val_data ff (val_of m') = replicate k 0" using z i by (simp add: val_of_def)
  with k show thesis by (rule that)
qed

lemma mkrec_size_ok:
  assumes al: "alloc_ok al"
  shows "list_all (storable L) ms \<Longrightarrow>
    \<exists>ms' w'. mkrec_size al ff ms a b c w = Some (ms', a + length (datas ff (map val_of ms')),
      b + length (types ff (map val_of ms')), nz ff ms' c, w') \<and> list_all2 (sized L) ms ms'"
proof (induction ms arbitrary: a b c w)
  case (Cons m ms)
  from expand_sized [OF al, of L m w] Cons.prems obtain rc m' w1 where
    e: "(if hasf (mflags m) MEM_Zero \<and> 0 < mn m then sqlite3VdbeMemExpandBlob al m w
      else Some (SQLITE_OK, m, w)) = Some (rc, m', w1)" "sized L m m'" by auto
  have st: "storable L m'" using e(2) by (simp add: sized_def)
  let ?t = "val_type ff (val_of m')" and ?d = "val_data ff (val_of m')"
  let ?c = "if hasf (mflags m') MEM_Zero then c + length ?d else if ?d \<noteq> [] then 0 else c"
  have z: "(if hasf (mflags m') MEM_Zero then
                (case mu m' of U_nZero k \<Rightarrow> Some (c + k) | _ \<Rightarrow> None)
              else Some (if length ?d \<noteq> 0 then 0 else c)) = Some ?c"
  proof (cases "hasf (mflags m') MEM_Zero")
    case True
    then obtain k where "mu m' = U_nZero k" "?d = replicate k 0" by (rule sized_zero [OF e(2)])
    with True show ?thesis by simp
  qed simp
  from Cons.IH [of "a + length ?d" "b + length (vb ?t)" ?c w1] Cons.prems obtain ms' w' where
    ih: "mkrec_size al ff ms (a + length ?d) (b + length (vb ?t)) ?c w1 =
      Some (ms', a + length ?d + length (datas ff (map val_of ms')),
        b + length (vb ?t) + length (types ff (map val_of ms')), nz ff ms' ?c, w')"
      "list_all2 (sized L) ms ms'" by auto
  have "mkrec_size al ff (m # ms) a b c w =
    Some (m' # ms', a + length ?d + length (datas ff (map val_of ms')),
        b + length (vb ?t) + length (types ff (map val_of ms')), nz ff ms' ?c, w')"
    using ih(1)
    by (simp only: mkrec_size.simps e(1) bind.bind_lunit prod.case serialType_val [OF st] Let_def z
        varintLen_vb serialTypeLen_data)
  with ih(2) e(2) show ?case by (simp add: add.assoc)
qed simp

section \<open>Where the omitted zeros start\<close>

text \<open>
  The record is stored up to \<open>nb\<close> bytes of data. From there on there are only blobs of zeros and
  fields without data, so every other field is written in full.
\<close>

fun cut_at :: "nat \<Rightarrow> nat \<Rightarrow> nat \<Rightarrow> Mem list \<Rightarrow> bool" where
  "cut_at ff off nb [] \<longleftrightarrow> True"
| "cut_at ff off nb (m # ms) \<longleftrightarrow>
    (hasf (mflags m) MEM_Zero \<or> val_data ff (val_of m) = [] \<or> off + length (val_data ff (val_of m)) \<le> nb) \<and>
    cut_at ff (off + length (val_data ff (val_of m))) nb ms"

lemma nz_le: "nz ff ms k \<le> k + length (datas ff (map val_of ms))"
proof (induction ms arbitrary: k)
  case (Cons m ms)
  show ?case
    using Cons [of "k + length (val_data ff (val_of m))"] Cons [of 0] Cons [of k] by auto
qed simp

lemma cut_at_nz:
  "k \<le> off \<Longrightarrow> cut_at ff off (off + length (datas ff (map val_of ms)) - nz ff ms k) ms"
proof (induction ms arbitrary: off k)
  case (Cons m ms)
  let ?d = "length (val_data ff (val_of m))"
  let ?k = "if hasf (mflags m) MEM_Zero then k + ?d else if val_data ff (val_of m) \<noteq> [] then 0 else k"
  have "?k \<le> off + ?d" using Cons.prems by simp
  from Cons.IH [OF this] have "cut_at ff (off + ?d) (off + ?d + length (datas ff (map val_of ms)) - nz ff ms ?k) ms" .
  moreover have "?k = 0 \<Longrightarrow> off + ?d \<le> off + ?d + length (datas ff (map val_of ms)) - nz ff ms ?k"
    using nz_le [of ff ms ?k] by linarith
  ultimately show ?case by (auto simp: add.assoc)
qed simp

lemma datas_zeros:
  assumes "list_all2 (sized L) ms0 ms" "pre = p0 @ replicate k 0"
  shows "\<exists>q. pre @ datas ff (map val_of ms) = q @ replicate (nz ff ms k) 0"
  using assms
proof (induction ms0 ms arbitrary: pre p0 k rule: list_all2_induct)
  case (Cons m0 ms0 m ms)
  let ?d = "val_data ff (val_of m)"
  let ?k = "if hasf (mflags m) MEM_Zero then k + length ?d else if ?d \<noteq> [] then 0 else k"
  have "\<exists>p1. pre @ ?d = p1 @ replicate ?k 0"
  proof (cases "hasf (mflags m) MEM_Zero")
    case True
    then obtain j where "?d = replicate j 0" by (rule sized_zero [OF Cons(1)])
    with True Cons.prems show ?thesis by (auto simp: replicate_add)
  next
    case False
    with Cons.prems show ?thesis by auto
  qed
  then obtain p1 where "pre @ ?d = p1 @ replicate ?k 0" by blast
  from Cons.IH [OF this] show ?case by simp
qed auto

lemma put_hdr_ok:
  "list_all (storable L) ms \<Longrightarrow> list_all (\<lambda>m. val_type ff (val_of m) < 2 ^ 32) ms \<Longrightarrow>
   i + length (types ff (map val_of ms)) \<le> length z \<Longrightarrow>
   put_hdr ff ms z i = Some (take i z @ types ff (map val_of ms) @ drop (i + length (types ff (map val_of ms))) z,
     i + length (types ff (map val_of ms)))"
proof (induction ms arbitrary: z i)
  case (Cons m ms)
  let ?t = "val_type ff (val_of m)"
  let ?b = "overlay (vb ?t) (drop i z)"
  have p: "putVarint32 (drop i z) (of_nat ?t) = Some (?b, length (vb ?t))"
    using Cons.prems by (intro putVarint32_vb) auto
  let ?z = "take i z @ ?b"
  have z: "take (i + length (vb ?t)) ?z = take i z @ vb ?t" "length ?z = length z"
    "drop (i + length (vb ?t) + k) ?z = drop (i + length (vb ?t) + k) z" for k
    using Cons.prems(3) by (simp_all add: overlay_def add.commute)
  have "put_hdr ff ms ?z (i + length (vb ?t)) =
    Some (take (i + length (vb ?t)) ?z @ types ff (map val_of ms) @ drop (i + length (vb ?t) + length (types ff (map val_of ms))) ?z,
     i + length (vb ?t) + length (types ff (map val_of ms)))"
    using Cons.prems z(2) by (intro Cons.IH) auto
  moreover have "put_hdr ff (m # ms) z i = put_hdr ff ms ?z (i + length (vb ?t))"
    using Cons.prems p by (simp add: serialType_val [of L])
  ultimately show ?case unfolding z by (simp add: add.assoc)
qed simp

lemma put_data_ok:
  "list_all2 (sized L) ms0 ms \<Longrightarrow> cut_at ff off nb ms \<Longrightarrow> base + nb \<le> length z \<Longrightarrow>
   put_data ff (base + nb) ms z (base + min off nb) =
     Some (take (base + min off nb) z @ take (nb - off) (datas ff (map val_of ms)) @
             drop (base + min (off + length (datas ff (map val_of ms))) nb) z,
           base + min (off + length (datas ff (map val_of ms))) nb)"
proof (induction ms0 ms arbitrary: z off rule: list_all2_induct)
  case (Cons m0 ms0 m ms)
  let ?d = "val_data ff (val_of m)" and ?D = "datas ff (map val_of ms)"
  let ?i = "base + min off nb" and ?n = "nb - off"
  let ?i' = "base + min (off + length ?d) nb"
  let ?z = "take ?i z @ overlay (take ?n ?d) (drop ?i z)"
  have st: "storable L m" and zn: "hasf (mflags m) MEM_Zero \<longrightarrow> mn m = 0" using Cons(1) by (auto simp: sized_def)
  have nb: "base + nb - ?i = ?n" by simp
  have len: "?n \<le> length (drop ?i z)" using Cons.prems(2) by simp
  have "hasf (mflags m) MEM_Zero \<and> \<not> hasf (mflags m) (MEM_Null OR MEM_Int OR MEM_Real) \<longrightarrow> mn m \<le> ?n"
    using zn by simp
  moreover have "\<not> (hasf (mflags m) MEM_Zero \<and> \<not> hasf (mflags m) (MEM_Null OR MEM_Int OR MEM_Real)) \<longrightarrow> length ?d \<le> ?n"
  proof (cases "hasf (mflags m) MEM_Zero")
    case True
    then have "\<not> hasf (mflags m) (MEM_Null OR MEM_Int OR MEM_Real)"
      using st mem_okD(4) [OF storableD(1) [OF st]] storableD(2) [OF st] by (auto simp: storable_def)
    with True show ?thesis by simp
  next
    case False
    then show ?thesis using Cons.prems(1) by auto
  qed
  ultimately have put: "sqlite3VdbeSerialPut (drop ?i z) (base + nb - ?i) m ff =
      Some (overlay (take ?n ?d) (drop ?i z), min ?n (length ?d))"
    unfolding nb using serialPut_ok [OF st len] by blast
  have i': "?i + min ?n (length ?d) = ?i'" by arith
  have lz: "length ?z = length z" using len by (simp add: min_def)
  have "min (length z) ?i = ?i" using Cons.prems(2) by arith
  then have "?i' = length (take ?i z @ take ?n ?d)" using i' by (simp add: min.commute)
  moreover have "?z = (take ?i z @ take ?n ?d) @ drop ?i' z"
    unfolding i' [symmetric] by (simp add: overlay_def drop_drop add.commute min.commute)
  ultimately have z: "take ?i' ?z = take ?i z @ take ?n ?d" "?i' \<le> k \<Longrightarrow> drop k ?z = drop k z" for k
    by (simp_all add: min_def)
  have "put_data ff (base + nb) ms ?z ?i' =
     Some (take ?i' ?z @ take (nb - (off + length ?d)) ?D @ drop (base + min (off + length ?d + length ?D) nb) ?z,
           base + min (off + length ?d + length ?D) nb)"
    using Cons.prems lz by (intro Cons.IH) auto
  moreover have "put_data ff (base + nb) (m # ms) z ?i = put_data ff (base + nb) ms ?z ?i'"
    using put unfolding i' [symmetric] by simp
  moreover have "drop (base + min (off + length ?d + length ?D) nb) ?z = drop (base + min (off + length ?d + length ?D) nb) z"
    by (rule z(2)) (simp add: min_def)
  ultimately show ?case unfolding z(1) by (simp add: add.assoc)
qed simp

section \<open>The record of a list of values\<close>

lemma val_type_bound: "length (val_data ff v) < 2 ^ 30 \<Longrightarrow> val_type ff v < 2 ^ 32"
proof (cases v)
  case (VInt i)
  then show "length (val_data ff v) < 2 ^ 30 \<Longrightarrow> ?thesis" using int_type_cases [of ff i] by auto
qed simp_all

lemma types_length: "length (types ff vs) \<le> 9 * length vs"
proof (induction vs)
  case (Cons v vs)
  then show ?case using length_vb(2) [of "val_type ff v"] by simp
qed simp

definition field_bounds :: "nat \<Rightarrow> Mem list \<Rightarrow> bool" where
  "field_bounds ff ms \<longleftrightarrow> length ms \<le> 32767 \<and> list_all (\<lambda>m. length (val_data ff (val_of m)) < 2 ^ 30) ms"

lemma sized_bounds:
  assumes "list_all2 (sized L) ms ms'" "field_bounds ff ms"
  shows "field_bounds ff ms'" "list_all (storable L) ms'"
proof -
  have "list_all (\<lambda>m. length (val_data ff (val_of m)) < 2 ^ 30) ms'"
    using assms by (fastforce simp: list_all_length list_all2_conv_all_nth sized_def field_bounds_def)
  then show "field_bounds ff ms'"
    using assms list_all2_lengthD [OF assms(1)] by (simp add: field_bounds_def)
  show "list_all (storable L) ms'"
    using assms(1) by (auto simp: list_all_length list_all2_conv_all_nth sized_def)
qed

lemma makeRecord_write:
  assumes s: "list_all2 (sized L) ms0 ms" "field_bounds ff ms0"
    and H: "H = hdr_total (length (types ff (map val_of ms)))"
    and nb: "nb = length (datas ff (map val_of ms)) - nz ff ms 0" and z: "H + nb \<le> length z"
  shows "\<exists>z'. do { (z, i) \<leftarrow> putVarint32 z (of_nat H);
        (z, i) \<leftarrow> put_hdr ff ms z i;
        put_data ff (H + nb) ms z i } = Some (z', H + nb) \<and> length z' = length z \<and>
      take (H + nb) z' = take (H + nb) (rec_bytes ff (map val_of ms))"
proof -
  let ?vs = "map val_of ms"
  note fb = sized_bounds [OF s]
  have "length (types ff ?vs) < 2 ^ 31"
    using types_length [of ff ?vs] fb(1) by (simp add: field_bounds_def)
  then have HH: "H = length (vb H) + length (types ff ?vs)" unfolding H by (rule hdr_total_fixed)
  then have H32: "H < 2 ^ 32" using length_vb(2) [of H] \<open>length (types ff ?vs) < 2 ^ 31\<close> by simp
  have tb: "list_all (\<lambda>m. val_type ff (val_of m) < 2 ^ 32) ms"
    using fb(1) val_type_bound by (auto simp: field_bounds_def list_all_length)
  let ?z1 = "overlay (vb H) z"
  have p: "putVarint32 z (of_nat H) = Some (?z1, length (vb H))"
    using HH z by (intro putVarint32_vb [OF H32]) simp
  have l1: "length ?z1 = length z" using HH z by simp
  let ?z2 = "take (length (vb H)) ?z1 @ types ff ?vs @ drop H ?z1"
  have h: "put_hdr ff ms ?z1 (length (vb H)) = Some (?z2, H)"
    using put_hdr_ok [OF fb(2) tb, of "length (vb H)" ?z1] HH z l1 by simp
  have z2: "?z2 = vb H @ types ff ?vs @ drop H ?z1" by (simp add: overlay_def)
  have l2: "length ?z2 = length z" using HH z l1 by (simp add: z2)
  have cut: "cut_at ff 0 nb ms" using cut_at_nz [of 0 0 ff ms] nb by simp
  have le: "nb \<le> length (datas ff ?vs)" using nb by simp
  have d: "put_data ff (H + nb) ms ?z2 H =
      Some (take H ?z2 @ take nb (datas ff ?vs) @ drop (H + nb) ?z2, H + nb)"
    using put_data_ok [OF s(1) cut, of H ?z2] l2 z le by (simp add: min_def)
  have tH: "take H ?z2 = vb H @ types ff ?vs" using HH by (simp add: z2)
  have R: "rec_bytes ff ?vs = (vb H @ types ff ?vs) @ datas ff ?vs" by (simp add: rec_bytes_def H)
  have "take (H + nb) ((vb H @ types ff ?vs) @ take nb (datas ff ?vs) @ drop (H + nb) ?z2) =
      take (H + nb) (rec_bytes ff ?vs)"
    unfolding R using HH le by (simp add: min_def)
  then show ?thesis using p h d l2 le z HH unfolding tH by (auto simp: min_def)
qed

lemma makeRecord_ok:
  assumes al: "alloc_ok al" and ms: "list_all (storable L) ms" "field_bounds ff ms"
  shows "\<exists>rc ms' out' w'. OP_MakeRecord al iLimit ff ms pOut w = Some (rc, ms', out', w') \<and>
    list_all2 (sized L) ms ms' \<and>
    (rc = SQLITE_OK \<and> full_text out' = rec_bytes ff (map val_of ms') \<or> rc = SQLITE_NOMEM \<or> rc = SQLITE_TOOBIG)"
proof -
  from mkrec_size_ok [OF al ms(1), of ff 0 0 0 w] obtain ms' w1 where
    sz: "mkrec_size al ff ms 0 0 0 w = Some (ms', length (datas ff (map val_of ms')),
      length (types ff (map val_of ms')), nz ff ms' 0, w1)" and s: "list_all2 (sized L) ms ms'" by auto
  let ?vs = "map val_of ms'" and ?k = "nz ff ms' 0"
  let ?H = "hdr_total (length (types ff ?vs))" and ?nb = "length (datas ff ?vs) - ?k"
  have kle: "?k \<le> length (datas ff ?vs)" using nz_le [of ff ms' 0] by simp
  have nByte: "?H + length (datas ff ?vs) - ?k = ?H + ?nb" using kle by simp
  show ?thesis
  proof (cases "iLimit < ?H + ?nb")
    case True
    then show ?thesis using sz s by (simp add: OP_MakeRecord_def Let_def nByte)
  next
    case False
    from grow_discard [OF al, of pOut "?H + ?nb" w1] obtain rc o1 w2 where
      g: "sqlite3VdbeMemGrow al pOut (?H + ?nb) False w1 = Some (rc, o1, w2)"
      and or: "rc = SQLITE_OK \<and> grown pOut (?H + ?nb) [] o1 \<or> rc = SQLITE_NOMEM \<and> lost pOut o1" by blast
    from or show ?thesis
    proof
      assume "rc = SQLITE_NOMEM \<and> lost pOut o1"
      with sz s g False show ?thesis by (simp add: OP_MakeRecord_def Let_def nByte)
    next
      assume r: "rc = SQLITE_OK \<and> grown pOut (?H + ?nb) [] o1"
      then obtain z where z: "?H + ?nb \<le> length z" "zbytes o1 = Some z" "mz o1 = ZMalloc"
        by (auto simp: grown_def zbytes_def)
      from makeRecord_write [OF s ms(2) refl refl z(1)] obtain z' where
        wz: "do { (z, i) \<leftarrow> putVarint32 z (of_nat ?H); (z, i) \<leftarrow> put_hdr ff ms' z i;
          put_data ff (?H + ?nb) ms' z i } = Some (z', ?H + ?nb)"
        and z': "length z' = length z" "take (?H + ?nb) z' = take (?H + ?nb) (rec_bytes ff ?vs)" by blast
      obtain z1 i1 z2 i2 where steps: "putVarint32 z (of_nat ?H) = Some (z1, i1)" "put_hdr ff ms' z1 i1 = Some (z2, i2)"
        "put_data ff (?H + ?nb) ms' z2 i2 = Some (z', ?H + ?nb)"
        using wz by (auto simp: bind_eq_Some_conv)
      let ?p = "(set_zbytes o1 z')\<lparr>mn := ?H + ?nb, mflags := MEM_Blob OR MEM_Dyn, mxDel := None,
          menc := SQLITE_UTF8\<rparr>"
      let ?o = "if ?k \<noteq> 0 then ?p\<lparr>mu := U_nZero ?k, mflags := mflags ?p OR MEM_Zero\<rparr> else ?p"
      have run: "OP_MakeRecord al iLimit ff ms pOut w = Some (SQLITE_OK, ms', ?o, w2)"
        unfolding OP_MakeRecord_def using sz g r False z(2) steps
        by (simp add: Let_def nByte del: if_split)
      have zb: "mz (set_zbytes o1 z') = ZMalloc" "mzMalloc (set_zbytes o1 z') = Some z'"
        using z(3) by (simp_all add: set_zbytes_def)
      moreover have "full_text ?o = rec_bytes ff ?vs"
      proof -
        from datas_zeros [OF s, of "[]" "[]" 0 ff] obtain q where q: "datas ff ?vs = q @ replicate ?k 0" by auto
        have types: "length (types ff ?vs) < 2 ^ 31"
          using types_length [of ff ?vs] sized_bounds(1) [OF s ms(2)] by (simp add: field_bounds_def)
        have RH: "rec_bytes ff ?vs = (vb ?H @ types ff ?vs) @ datas ff ?vs" by (simp add: rec_bytes_def)
        have lR: "length (rec_bytes ff ?vs) = ?H + length (datas ff ?vs)"
          using hdr_total_fixed [OF types] by (simp add: RH)
        have "drop (?H + ?nb) (rec_bytes ff ?vs) = replicate ?k 0"
          using hdr_total_fixed [OF types] q by (simp add: RH)
        moreover have "?H + ?nb + ?k = length (rec_bytes ff ?vs)" using lR kle by simp
        ultimately have "take (?H + ?nb) z' @ replicate ?k 0 = rec_bytes ff ?vs"
          using z'(2) append_take_drop_id [of "?H + ?nb" "rec_bytes ff ?vs"] by simp
        then show ?thesis using zb
          by (cases "?k = 0") (simp_all add: full_text_def text_of_def zbytes_def flag_simps)
      qed
      ultimately show ?thesis using s run by blast
    qed
  qed
qed

section \<open>Decoding gives the values back\<close>

lemma sint_of_nat_u32: "n < 2 ^ 31 \<Longrightarrow> sint (of_nat n :: u32) = int n"
  by (simp add: signed_of_nat signed_take_bit_int_eq_self_iff)

lemma at_key_of_nat: "n < 2 ^ 31 \<Longrightarrow> n \<le> length aKey \<Longrightarrow> at_key aKey (of_nat n) = Some (drop n aKey)"
  by (simp add: at_key_def sint_of_nat_u32)

lemma unpack_loop_ok:
  assumes big: "length aKey < 2 ^ 31" and H: "H < 2 ^ 32"
  shows "list_all val_ok vs \<Longrightarrow> list_all (\<lambda>v. val_type ff v < 2 ^ 32) vs \<Longrightarrow> length vs \<le> length aMem \<Longrightarrow>
    drop idx aKey = types ff vs @ X \<Longrightarrow> idx + length (types ff vs) = H \<Longrightarrow>
    drop D aKey = datas ff vs @ Y \<Longrightarrow> D \<le> length aKey \<Longrightarrow>
    \<exists>cells. unpack_loop ki aKey (int (length aKey)) (of_nat H) aMem idx (of_nat D) = Some cells \<and>
      map val_of cells = vs"
proof (induction vs arbitrary: aMem idx D)
  case Nil
  have "unat (of_nat H :: u32) = H" using H by (simp add: unsigned_of_nat take_bit_nat_eq_self)
  with Nil show ?case by (cases aMem) simp_all
next
  case (Cons v vs)
  obtain m ms where am: "aMem = m # ms" using Cons.prems(3) by (cases aMem) auto
  let ?t = "val_type ff v" and ?d = "val_data ff v"
  have H': "unat (of_nat H :: u32) = H" using H by (simp add: unsigned_of_nat take_bit_nat_eq_self)
  have D31: "D < 2 ^ 31" using Cons.prems(7) big by linarith
  have idx: "idx < H" using Cons.prems(5) length_vb(1) [of ?t] by simp
  have g: "getVarint32 (drop idx aKey) = Some (of_nat ?t, length (vb ?t))"
    using getVarint32_vb [of ?t "types ff vs @ X"] Cons.prems(2,4) by simp
  have t: "unat (of_nat ?t :: u32) = ?t" using Cons.prems(2) by (simp add: unsigned_of_nat take_bit_nat_eq_self)
  let ?m = "m\<lparr>menc := kEnc ki, mzMalloc := None\<rparr>"
  let ?c = "read_cell ?m v (?d @ datas ff vs @ Y)"
  have k: "at_key aKey (of_nat D) = Some (?d @ datas ff vs @ Y)"
    using at_key_of_nat [OF D31 Cons.prems(7)] Cons.prems(6) by simp
  have s: "sqlite3VdbeSerialGet (?d @ datas ff vs @ Y) ?t ?m = Some (length ?d, ?c)"
    using Cons.prems(1) by (intro serialGet_val) simp
  have "drop (idx + length (vb ?t)) aKey = drop (length (vb ?t)) (drop idx aKey)" by (simp add: add.commute)
  also have "\<dots> = types ff vs @ X" unfolding Cons.prems(4) by simp
  finally have dt: "drop (idx + length (vb ?t)) aKey = types ff vs @ X" .
  have "drop (D + length ?d) aKey = drop (length ?d) (drop D aKey)" by (simp add: add.commute)
  also have "\<dots> = datas ff vs @ Y" unfolding Cons.prems(6) by simp
  finally have dd: "drop (D + length ?d) aKey = datas ff vs @ Y" .
  have "length ?d \<le> length (drop D aKey)" unfolding Cons.prems(6) by simp
  then have De: "D + length ?d \<le> length aKey" using Cons.prems(7) by simp
  obtain cells where c: "unpack_loop ki aKey (int (length aKey)) (of_nat H) ms (idx + length (vb ?t))
      (of_nat (D + length ?d)) = Some cells" "map val_of cells = vs"
    using Cons.IH [of ms "idx + length (vb ?t)" "D + length ?d"] Cons.prems(1-3,5) am dt dd De by auto
  have "unpack_loop ki aKey (int (length aKey)) (of_nat H) aMem idx (of_nat D) = Some (?c # cells)"
    using c(1) idx g k s t H' D31 Cons.prems(7) by (simp add: am sint_of_nat_u32)
  moreover have "val_of ?c = v" by (rule val_of_read_cell)
  ultimately show ?case using c(2) by auto
qed

lemma unpack_rec_bytes:
  assumes vs: "list_all val_ok vs" "list_all (\<lambda>v. val_type ff v < 2 ^ 32) vs" "length vs \<le> length aMem"
    and big: "length (rec_bytes ff vs) < 2 ^ 31"
  shows "\<exists>cells. sqlite3VdbeRecordUnpack ki (int (length (rec_bytes ff vs))) (rec_bytes ff vs) aMem = Some cells \<and>
    map val_of cells = vs"
proof -
  let ?R = "rec_bytes ff vs" and ?H = "hdr_total (length (types ff vs))"
  have "length (types ff vs) < 2 ^ 31" using big by (simp add: rec_bytes_def)
  then have H: "?H = length (vb ?H) + length (types ff vs)" by (rule hdr_total_fixed)
  have H32: "?H < 2 ^ 32" using H big by (simp add: rec_bytes_def)
  have g: "getVarint32 ?R = Some (of_nat ?H, length (vb ?H))"
    using getVarint32_vb [OF H32, of "types ff vs @ datas ff vs"] by (simp add: rec_bytes_def)
  have 1: "drop (length (vb ?H)) ?R = types ff vs @ datas ff vs" by (simp add: rec_bytes_def)
  have "drop ?H ?R = drop (length (types ff vs)) (drop (length (vb ?H)) ?R)"
    using H by (simp add: add.commute)
  then have 2: "drop ?H ?R = datas ff vs @ []" unfolding 1 by simp
  have 3: "?H \<le> length ?R" using H by (simp add: rec_bytes_def)
  from unpack_loop_ok [OF big H32 vs 1 _ 2 3, of ki] H show ?thesis
    by (simp add: sqlite3VdbeRecordUnpack_def g)
qed

text \<open>
  \<^bold>\<open>C2\<close> Records. \<^verbatim>\<open>OP_MakeRecord\<close> on any list of storable cells never leaves a buffer. It succeeds,
  or reports that the record is too big or that memory is missing. A blob with a prefix and a tail
  of zeros that cannot be expanded is stored as NULL; every other field keeps its value. When
  it succeeds, \<^verbatim>\<open>sqlite3VdbeRecordUnpack\<close> on the record, its tail of zeros included, gives back
  exactly the values of the fields.
\<close>

theorem record_roundtrip:
  assumes "alloc_ok al" "list_all (storable L) ms" "field_bounds ff ms" "length ms \<le> length aMem"
  shows "\<exists>rc ms' out w'. OP_MakeRecord al iLimit ff ms pOut w = Some (rc, ms', out, w') \<and>
    list_all2 (\<lambda>m m'. val_of m' = val_of m \<or> hasf (mflags m) MEM_Zero \<and> 0 < mn m \<and> val_of m' = VNull) ms ms' \<and>
    rc \<in> {SQLITE_OK, SQLITE_NOMEM, SQLITE_TOOBIG} \<and>
    (rc = SQLITE_OK \<and> length (full_text out) < 2 ^ 31 \<longrightarrow>
      (\<exists>cells. sqlite3VdbeRecordUnpack ki (int (length (full_text out))) (full_text out) aMem = Some cells \<and>
        map val_of cells = map val_of ms'))"
proof -
  from makeRecord_ok [OF assms(1-3), of iLimit pOut w] obtain rc ms' out w' where
    r: "OP_MakeRecord al iLimit ff ms pOut w = Some (rc, ms', out, w')" and s: "list_all2 (sized L) ms ms'"
    and or: "rc = SQLITE_OK \<and> full_text out = rec_bytes ff (map val_of ms') \<or> rc = SQLITE_NOMEM \<or> rc = SQLITE_TOOBIG"
    by blast
  note fb = sized_bounds [OF s assms(3)]
  have "list_all val_ok (map val_of ms')" "list_all (\<lambda>v. val_type ff v < 2 ^ 32) (map val_of ms')"
    using fb val_type_bound storable_val_ok by (auto simp: list_all_length field_bounds_def)
  moreover have "length (map val_of ms') \<le> length aMem" using assms(4) list_all2_lengthD [OF s] by simp
  ultimately have "rc = SQLITE_OK \<and> length (full_text out) < 2 ^ 31 \<longrightarrow>
      (\<exists>cells. sqlite3VdbeRecordUnpack ki (int (length (full_text out))) (full_text out) aMem = Some cells \<and>
        map val_of cells = map val_of ms')"
    using or unpack_rec_bytes [of "map val_of ms'" ff aMem ki] by auto
  moreover have "list_all2 (\<lambda>m m'. val_of m' = val_of m \<or> hasf (mflags m) MEM_Zero \<and> 0 < mn m \<and> val_of m' = VNull) ms ms'"
    using s by (rule list_all2_mono) (auto simp: sized_def)
  moreover have "rc \<in> {SQLITE_OK, SQLITE_NOMEM, SQLITE_TOOBIG}" using or by auto
  ultimately show ?thesis using r by (intro exI conjI)
qed

definition blank_cell :: Mem where
  "blank_cell = \<lparr>mz = ZNull, mr = 0, mu = U_none, mn = 0, mflags = MEM_Null, mtype = SQLITE_NULL,
     menc = SQLITE_UTF8, mxDel = None, mzMalloc = None\<rparr>"

theorem record_roundtrip_witness:
  "\<exists>rc ms' out w'. OP_MakeRecord (\<lambda>k n. Some (replicate n 0xAA)) 1000 4
      [blank_cell\<lparr>mu := U_i 300, mflags := MEM_Int\<rparr>,
       blank_cell\<lparr>mz := ZExt [0x61, 0x62], mn := 2, mflags := MEM_Str OR MEM_Static\<rparr>,
       blank_cell\<lparr>mu := U_nZero 5, mflags := MEM_Blob OR MEM_Zero\<rparr>]
      blank_cell \<lparr>nreq = 0, dels = []\<rparr> = Some (rc, ms', out, w') \<and>
    rc \<in> {SQLITE_OK, SQLITE_NOMEM, SQLITE_TOOBIG} \<and>
    (rc = SQLITE_OK \<and> length (full_text out) < 2 ^ 31 \<longrightarrow>
      (\<exists>cells. sqlite3VdbeRecordUnpack \<lparr>kEnc = SQLITE_UTF8, kField = 3, aSortOrder = None, aColl = []\<rparr>
        (int (length (full_text out))) (full_text out) (replicate 4 blank_cell) = Some cells \<and>
        map val_of cells = map val_of ms'))"
proof -
  let ?ms = "[blank_cell\<lparr>mu := U_i 300, mflags := MEM_Int\<rparr>,
       blank_cell\<lparr>mz := ZExt [0x61, 0x62], mn := 2, mflags := MEM_Str OR MEM_Static\<rparr>,
       blank_cell\<lparr>mu := U_nZero 5, mflags := MEM_Blob OR MEM_Zero\<rparr>]"
  note defs = storable_def mem_ok_def owners_def text_len_ok_def zbytes_def flag_simps blank_cell_def
  have "alloc_ok (\<lambda>k n. Some (replicate n 0xAA))" by (simp add: alloc_ok_def)
  moreover have "list_all (storable 1000) ?ms" by (simp add: defs i64_limits)
  moreover have "sqlite3VdbeSerialTypeLen (int_type 4 300) \<le> 8" by (rule serialTypeLen_int)
  then have "field_bounds 4 ?ms"
    by (simp add: field_bounds_def val_of_def full_text_def text_of_def defs)
  moreover have "length ?ms \<le> length (replicate 4 blank_cell)" by simp
  ultimately show ?thesis
    using record_roundtrip [of "\<lambda>k n. Some (replicate n 0xAA)" 1000 ?ms 4 "replicate 4 blank_cell" 1000 blank_cell
      "\<lparr>nreq = 0, dels = []\<rparr>" "\<lparr>kEnc = SQLITE_UTF8, kField = 3, aSortOrder = None, aColl = []\<rparr>"]
    by blast
qed

end
