(* ===== verification/MemCmp.thy ===== *)
theory MemCmp
  imports VdbeRecord MemText UtilStr "HOL-Library.List_Lexorder"
begin

text \<open>
  The order of SQL values: \<^verbatim>\<open>sqlite3MemCompare\<close> of \<^verbatim>\<open>vdbemem.c\<close> on two cells, the built-in
  collating sequences of \<^verbatim>\<open>main.c\<close>, and \<^verbatim>\<open>sqlite3VdbeRecordCompare\<close> of \<^verbatim>\<open>vdbeaux.c\<close>, which
  compares a serialised record with an unpacked key field by field. A \<^verbatim>\<open>double\<close> is its bit
  pattern; its comparison and the conversion of an integer are written out on the bits.
\<close>

section \<open>Floating point\<close>

text \<open>Values that are no NaN are ordered like sign and magnitude; both zeros are equal.\<close>

definition dbl_key :: "u64 \<Rightarrow> int" where
  "dbl_key x =
    (if bit x 63 then - uint (x AND 0x7FFFFFFFFFFFFFFF) else uint (x AND 0x7FFFFFFFFFFFFFFF))"

definition dbl_lt :: "u64 \<Rightarrow> u64 \<Rightarrow> bool" where
  "dbl_lt a b \<longleftrightarrow> \<not> sqlite3IsNaN a \<and> \<not> sqlite3IsNaN b \<and> dbl_key a < dbl_key b"

text \<open>The conversion \<^verbatim>\<open>(double)i\<close>, rounding to the nearest, ties to even.\<close>

fun ilog2 :: "nat \<Rightarrow> nat" where
  "ilog2 n = (if n < 2 then 0 else Suc (ilog2 (n div 2)))"

declare ilog2.simps [simp del]

definition dbl_of_mag :: "nat \<Rightarrow> nat" where
  "dbl_of_mag m =
    (let e = ilog2 m in
     if e \<le> 52 then (e + 1023) * 2 ^ 52 + (m * 2 ^ (52 - e) - 2 ^ 52)
     else
       (let s = e - 52; q = m div 2 ^ s; r = m mod 2 ^ s; half = 2 ^ (s - 1);
            up = (if half < r \<or> r = half \<and> odd q then 1 else 0)
        in (e + 1023) * 2 ^ 52 + (q - 2 ^ 52) + up))"

definition dbl_of_i64 :: "int \<Rightarrow> u64" where
  "dbl_of_i64 i =
    (if i = 0 then 0
     else of_nat (dbl_of_mag (nat \<bar>i\<bar>) + (if i < 0 then 2 ^ 63 else 0)))"

section \<open>Texts and collating sequences\<close>

fun memcmp :: "u8 list \<Rightarrow> u8 list \<Rightarrow> nat \<Rightarrow> int option" where
  "memcmp _ _ 0 = Some 0"
| "memcmp (a # as) (b # bs) (Suc n) = (if a = b then memcmp as bs n else Some (uint a - uint b))"
| "memcmp _ _ (Suc n) = None"

fun allSpaces :: "u8 list \<Rightarrow> nat \<Rightarrow> bool option" where
  "allSpaces z 0 = Some True"
| "allSpaces z (Suc n) = do { c \<leftarrow> rd z n; if c = 0x20 then allSpaces z n else Some False }"

definition binCollFunc :: "bool \<Rightarrow> u8 list \<Rightarrow> u8 list \<Rightarrow> int option" where
  "binCollFunc padFlag pKey1 pKey2 = do {
     let n = (if length pKey1 < length pKey2 then length pKey1 else length pKey2);
     rc \<leftarrow> memcmp pKey1 pKey2 n;
     if rc = 0 then do {
       pad \<leftarrow> (if padFlag then do {
                 s1 \<leftarrow> allSpaces (drop n pKey1) (length pKey1 - n);
                 s2 \<leftarrow> allSpaces (drop n pKey2) (length pKey2 - n);
                 Some (s1 \<and> s2)
               } else Some False);
       Some (if pad then 0 else int (length pKey1) - int (length pKey2))
     } else Some rc
   }"

definition nocaseCollatingFunc :: "u8 list \<Rightarrow> u8 list \<Rightarrow> int option" where
  "nocaseCollatingFunc pKey1 pKey2 = do {
     r \<leftarrow> sqlite3_strnicmp pKey1 pKey2
            (if length pKey1 < length pKey2 then length pKey1 else length pKey2);
     Some (if 0 = r then int (length pKey1) - int (length pKey2) else r)
   }"

text \<open>The \<open>n\<close> bytes at \<^verbatim>\<open>z\<close> of a cell.\<close>

definition cell_text :: "Mem \<Rightarrow> u8 list option" where
  "cell_text m =
    (case zbytes m of
       None \<Rightarrow> if mn m = 0 then Some [] else None
     | Some z \<Rightarrow> if mn m \<le> length z then Some (take (mn m) z) else None)"

text \<open>
  \<^verbatim>\<open>sqlite3ValueText\<close> on a cell that is NULL, text or blob: whether a pointer is returned, and
  the cell it points into. Numbers would be printed, which is outside the model.
\<close>

definition sqlite3ValueText :: "alloc \<Rightarrow> Mem \<Rightarrow> enc \<Rightarrow> world \<Rightarrow> (bool \<times> Mem \<times> world) option" where
  "sqlite3ValueText al m e w =
    (if hasf (mflags m) MEM_Null then Some (False, m, w)
     else do {
       let m1 = m\<lparr>mflags := mflags m OR drop_bit 3 (mflags m AND MEM_Blob)\<rparr>;
       (_, m2, w2) \<leftarrow> sqlite3VdbeMemExpandBlob al m1 w;
       if hasf (mflags m2) MEM_Str then do {
         (_, m3, w3) \<leftarrow> sqlite3VdbeChangeEncoding al m2 e w2;
         (_, m4, w4) \<leftarrow> sqlite3VdbeMemNulTerminate al m3 w3;
         Some (menc m4 = e \<and> mz m4 \<noteq> ZNull, m4, w4)
       } else None
     })"

section \<open>Comparison of two cells\<close>

definition cmp_num :: "Mem \<Rightarrow> Mem \<Rightarrow> int option" where
  "cmp_num m1 m2 =
    (let f1 = mflags m1; f2 = mflags m2 in
     if f1 AND f2 AND MEM_Int = 0 then do {
       r1 \<leftarrow> (if \<not> hasf f1 MEM_Real then (case mu m1 of U_i i \<Rightarrow> Some (dbl_of_i64 i) | _ \<Rightarrow> None)
              else Some (mr m1));
       r2 \<leftarrow> (if \<not> hasf f2 MEM_Real then (case mu m2 of U_i i \<Rightarrow> Some (dbl_of_i64 i) | _ \<Rightarrow> None)
              else Some (mr m2));
       Some (if dbl_lt r1 r2 then -1 else if dbl_lt r2 r1 then 1 else 0)
     } else
       (case (mu m1, mu m2) of
          (U_i i1, U_i i2) \<Rightarrow> Some (if i1 < i2 then -1 else if i2 < i1 then 1 else 0)
        | _ \<Rightarrow> None))"

text \<open>Two texts of the same encoding under a collating sequence for another encoding.\<close>

definition cmp_translated ::
    "alloc \<Rightarrow> Mem \<Rightarrow> Mem \<Rightarrow> CollSeq \<Rightarrow> world \<Rightarrow> (int \<times> world) option" where
  "cmp_translated al m1 m2 c w = do {
     let c0 = \<lparr>mz = ZNull, mr = 0, mu = U_none, mn = 0, mflags = 0, mtype = 0,
               menc = SQLITE_UTF8, mxDel = None, mzMalloc = None\<rparr>;
     (c1, w) \<leftarrow> sqlite3VdbeMemShallowCopy c0 m1 MEM_Ephem w;
     (c2, w) \<leftarrow> sqlite3VdbeMemShallowCopy c0 m2 MEM_Ephem w;
     (p1, c1, w) \<leftarrow> sqlite3ValueText al c1 (cEnc c) w;
     v1 \<leftarrow> (if p1 then cell_text c1 else Some []);
     (p2, c2, w) \<leftarrow> sqlite3ValueText al c2 (cEnc c) w;
     v2 \<leftarrow> (if p2 then cell_text c2 else Some []);
     rc \<leftarrow> xCmp c v1 v2;
     (_, w) \<leftarrow> sqlite3VdbeMemRelease c1 w;
     (_, w) \<leftarrow> sqlite3VdbeMemRelease c2 w;
     Some (rc, w)
   }"

definition cmp_blob :: "Mem \<Rightarrow> Mem \<Rightarrow> int option" where
  "cmp_blob m1 m2 = do {
     z1 \<leftarrow> cell_text m1;
     z2 \<leftarrow> cell_text m2;
     rc \<leftarrow> memcmp z1 z2 (if mn m2 < mn m1 then mn m2 else mn m1);
     Some (if rc = 0 then int (mn m1) - int (mn m2) else rc)
   }"

definition sqlite3MemCompare ::
    "alloc \<Rightarrow> Mem \<Rightarrow> Mem \<Rightarrow> CollSeq option \<Rightarrow> world \<Rightarrow> (int \<times> world) option" where
  "sqlite3MemCompare al m1 m2 pColl w =
    (let f1 = mflags m1; f2 = mflags m2; combined = f1 OR f2 in
     if hasf combined MEM_Null then Some (uint (f2 AND MEM_Null) - uint (f1 AND MEM_Null), w)
     else if hasf combined (MEM_Int OR MEM_Real) then
       if \<not> hasf f1 (MEM_Int OR MEM_Real) then Some (1, w)
       else if \<not> hasf f2 (MEM_Int OR MEM_Real) then Some (-1, w)
       else map_option (\<lambda>r. (r, w)) (cmp_num m1 m2)
     else if hasf combined MEM_Str \<and> \<not> hasf f1 MEM_Str then Some (1, w)
     else if hasf combined MEM_Str \<and> \<not> hasf f2 MEM_Str then Some (-1, w)
     else
       (case (if hasf combined MEM_Str then pColl else None) of
          Some c \<Rightarrow>
            if menc m1 = cEnc c then do {
              z1 \<leftarrow> cell_text m1;
              z2 \<leftarrow> cell_text m2;
              rc \<leftarrow> xCmp c z1 z2;
              Some (rc, w)
            } else cmp_translated al m1 m2 c w
        | None \<Rightarrow> map_option (\<lambda>r. (r, w)) (cmp_blob m1 m2)))"

section \<open>Comparison of a record with a key\<close>

definition UNPACKED_INCRKEY :: u8 where "UNPACKED_INCRKEY = 0x01"
definition UNPACKED_PREFIX_MATCH :: u8 where "UNPACKED_PREFIX_MATCH = 0x02"
definition UNPACKED_PREFIX_SEARCH :: u8 where "UNPACKED_PREFIX_SEARCH = 0x04"

record UnpackedRecord =
  pKeyInfo :: KeyInfo
  uFlags :: u8
  uRowid :: int
  aMem :: "Mem list"

definition sort_desc :: "KeyInfo \<Rightarrow> nat \<Rightarrow> bool" where
  "sort_desc ki i =
    (case aSortOrder ki of None \<Rightarrow> False | Some so \<Rightarrow> i < kField ki \<and> i < length so \<and> so ! i)"

definition coll_at :: "KeyInfo \<Rightarrow> nat \<Rightarrow> CollSeq option" where
  "coll_at ki i = (if i < kField ki \<and> i < length (aColl ki) then aColl ki ! i else None)"

text \<open>
  The result of the first field that differs, with the bookkeeping of \<^verbatim>\<open>UNPACKED_PREFIX_SEARCH\<close>;
  \<open>ended\<close> says that it is the last field of the record, which the code asserts.
\<close>

definition rc_differ :: "UnpackedRecord \<Rightarrow> nat \<Rightarrow> bool \<Rightarrow> Mem \<Rightarrow> int \<Rightarrow> (int \<times> UnpackedRecord) option" where
  "rc_differ p i ended m1 rc =
    (let rc = (if sort_desc (pKeyInfo p) i then - rc else rc) in
     if uFlags p AND UNPACKED_PREFIX_SEARCH \<noteq> 0 \<and> i + 1 = length (aMem p) then
       (case mu m1 of
          U_i v \<Rightarrow>
            if ended then Some (rc, p\<lparr>uFlags := uFlags p AND NOT UNPACKED_PREFIX_SEARCH, uRowid := v\<rparr>) else None
        | _ \<Rightarrow> None)
     else Some (rc, p))"

definition rc_tie :: "UnpackedRecord \<Rightarrow> bool \<Rightarrow> int" where
  "rc_tie p more1 =
    (if uFlags p AND UNPACKED_INCRKEY \<noteq> 0 then -1
     else if uFlags p AND UNPACKED_PREFIX_MATCH \<noteq> 0 then 0
     else if more1 then 1 else 0)"

fun rc_loop :: "alloc \<Rightarrow> u8 list \<Rightarrow> int \<Rightarrow> UnpackedRecord \<Rightarrow> u32 \<Rightarrow> Mem list \<Rightarrow> nat \<Rightarrow> nat \<Rightarrow> u32 \<Rightarrow> Mem \<Rightarrow>
    world \<Rightarrow> (int \<times> UnpackedRecord \<times> world) option" where
  "rc_loop al aKey1 nKey1 p szHdr1 [] i idx1 d1 mem1 w = Some (rc_tie p (idx1 < unat szHdr1), p, w)"
| "rc_loop al aKey1 nKey1 p szHdr1 (m2 # ms) i idx1 d1 mem1 w =
    (if idx1 < unat szHdr1 then do {
       (serial_type1, n) \<leftarrow> getVarint32 (drop idx1 aKey1);
       if nKey1 \<le> sint d1 \<and> 0 < sqlite3VdbeSerialTypeLen (unat serial_type1) then
         Some (rc_tie p (idx1 + n < unat szHdr1), p, w)
       else do {
         buf \<leftarrow> at_key aKey1 d1;
         (len, mem1) \<leftarrow> sqlite3VdbeSerialGet buf (unat serial_type1) mem1;
         (rc, w) \<leftarrow> sqlite3MemCompare al mem1 m2 (coll_at (pKeyInfo p) i) w;
         if rc \<noteq> 0 then do {
           (rc, p) \<leftarrow> rc_differ p i (idx1 + n = unat szHdr1) mem1 rc;
           Some (rc, p, w)
         } else rc_loop al aKey1 nKey1 p szHdr1 ms (i + 1) (idx1 + n) (d1 + of_nat len) mem1 w
       }
     } else Some (rc_tie p False, p, w))"

text \<open>
  \<^verbatim>\<open>mem1\<close> is not initialised by the code except for its encoding; \<open>junk\<close> is what its memory
  holds.
\<close>

definition sqlite3VdbeRecordCompare ::
    "alloc \<Rightarrow> Mem \<Rightarrow> int \<Rightarrow> u8 list \<Rightarrow> UnpackedRecord \<Rightarrow> world \<Rightarrow> (int \<times> UnpackedRecord \<times> world) option" where
  "sqlite3VdbeRecordCompare al junk nKey1 aKey1 p w = do {
     (szHdr1, idx1) \<leftarrow> getVarint32 aKey1;
     rc_loop al aKey1 nKey1 p szHdr1 (aMem p) 0 idx1 szHdr1 (junk\<lparr>menc := kEnc (pKeyInfo p)\<rparr>) w
   }"

section \<open>The comparison as a function of the values\<close>

fun blob_cmp :: "u8 list \<Rightarrow> u8 list \<Rightarrow> int" where
  "blob_cmp [] bs = - int (length bs)"
| "blob_cmp (a # as) [] = int (length (a # as))"
| "blob_cmp (a # as) (b # bs) = (if a = b then blob_cmp as bs else uint a - uint b)"

definition num_cmp :: "'a::linorder \<Rightarrow> 'a \<Rightarrow> int" where
  "num_cmp a b = (if a < b then -1 else if b < a then 1 else 0)"

definition dbl_cmp :: "u64 \<Rightarrow> u64 \<Rightarrow> int" where
  "dbl_cmp a b = (if dbl_lt a b then -1 else if dbl_lt b a then 1 else 0)"

text \<open>NULL first, then numbers, then texts in the order of the collating sequence, then blobs.\<close>

fun val_cmp :: "CollSeq option \<Rightarrow> sqlval \<Rightarrow> sqlval \<Rightarrow> int option" where
  "val_cmp c VNull VNull = Some 0"
| "val_cmp c VNull _ = Some (-1)"
| "val_cmp c _ VNull = Some 1"
| "val_cmp c (VInt i) (VInt j) = Some (num_cmp i j)"
| "val_cmp c (VInt i) (VReal r) = Some (dbl_cmp (dbl_of_i64 i) r)"
| "val_cmp c (VReal r) (VInt i) = Some (dbl_cmp r (dbl_of_i64 i))"
| "val_cmp c (VReal r) (VReal s) = Some (dbl_cmp r s)"
| "val_cmp c (VInt _) _ = Some (-1)"
| "val_cmp c (VReal _) _ = Some (-1)"
| "val_cmp c _ (VInt _) = Some 1"
| "val_cmp c _ (VReal _) = Some 1"
| "val_cmp c (VText t) (VText u) =
    (case c of None \<Rightarrow> Some (blob_cmp t u) | Some coll \<Rightarrow> xCmp coll t u)"
| "val_cmp c (VText _) (VBlob _) = Some (-1)"
| "val_cmp c (VBlob _) (VText _) = Some 1"
| "val_cmp c (VBlob a) (VBlob b) = Some (blob_cmp a b)"

lemma memcmp_blob:
  "map_option (\<lambda>r. if r = 0 then int (length a) - int (length b) else r)
     (memcmp a b (if length b < length a then length b else length a)) = Some (blob_cmp a b)"
  by (induction a b rule: blob_cmp.induct) (auto simp: word_uint_eq_iff split: if_splits)

lemma cmp_blob_val:
  assumes "cell_text m1 = Some a" "mn m1 = length a" "cell_text m2 = Some b" "mn m2 = length b"
  shows "cmp_blob m1 m2 = Some (blob_cmp a b)"
  using memcmp_blob [of a b] assms by (auto simp: cmp_blob_def)

text \<open>
  A cell that can be compared: an integer with a real representation has the right one, and the
  text or blob is readable.
\<close>

definition key_cell :: "Mem \<Rightarrow> bool" where
  "key_cell m \<longleftrightarrow>
    (hasf (mflags m) MEM_Null \<or>
     (hasf (mflags m) MEM_Int \<longrightarrow> (\<exists>i. mu m = U_i i \<and> (hasf (mflags m) MEM_Real \<longrightarrow> mr m = dbl_of_i64 i))) \<and>
     (\<not> hasf (mflags m) (MEM_Int OR MEM_Real) \<longrightarrow>
        hasf (mflags m) (MEM_Str OR MEM_Blob) \<and> cell_text m = Some (full_text m) \<and>
        length (full_text m) = mn m))"

lemma key_cell_cases:
  assumes "key_cell m"
  obtains (null) "hasf (mflags m) MEM_Null" "val_of m = VNull"
  | (int) i where "\<not> hasf (mflags m) MEM_Null" "hasf (mflags m) MEM_Int" "mu m = U_i i" "val_of m = VInt i"
      "hasf (mflags m) MEM_Real \<Longrightarrow> mr m = dbl_of_i64 i"
  | (real) "\<not> hasf (mflags m) MEM_Null" "\<not> hasf (mflags m) MEM_Int" "hasf (mflags m) MEM_Real" "val_of m = VReal (mr m)"
  | (str) "\<not> hasf (mflags m) (MEM_Null OR MEM_Int OR MEM_Real)" "hasf (mflags m) MEM_Str"
      "val_of m = VText (full_text m)" "cell_text m = Some (full_text m)" "mn m = length (full_text m)"
  | (blob) "\<not> hasf (mflags m) (MEM_Null OR MEM_Int OR MEM_Real OR MEM_Str)" "hasf (mflags m) MEM_Blob"
      "val_of m = VBlob (full_text m)" "cell_text m = Some (full_text m)" "mn m = length (full_text m)"
  using assms unfolding key_cell_def val_of_def
  by (cases "hasf (mflags m) MEM_Null"; cases "hasf (mflags m) MEM_Int"; cases "hasf (mflags m) MEM_Real";
      cases "hasf (mflags m) MEM_Str") auto

lemma key_cell_storable:
  assumes st: "storable L m" and z: "\<not> hasf (mflags m) MEM_Zero"
    and d: "\<not> (hasf (mflags m) MEM_Int \<and> hasf (mflags m) MEM_Real)"
  shows "key_cell m"
proof (cases "hasf (mflags m) (MEM_Null OR MEM_Int OR MEM_Real)")
  case True
  then show ?thesis using storableD(2) [OF st] d by (auto simp: key_cell_def)
next
  case False
  note sb = storableD(3) [OF st False]
  have tl: "text_len_ok m" using mem_okD(2) [OF storableD(1) [OF st] sb] .
  have ft: "full_text m = text_of m" using z by (simp add: full_text_def)
  have "cell_text m = Some (text_of m)"
    using tl by (cases "zbytes m") (auto simp: cell_text_def text_of_def text_len_ok_def)
  then show ?thesis using sb length_text_of [OF tl] False unfolding key_cell_def ft by simp
qed

lemma key_cell_read:
  assumes "val_ok v"
  shows "key_cell (read_cell m v (val_data ff v @ rest))"
  by (cases v) (simp_all add: key_cell_def read_cell_def flag_simps cell_text_def zbytes_def full_text_def text_of_def)

text \<open>The comparison of two cells is that of their values; no cell is copied on the way.\<close>

lemma uint_and_null: "uint (f AND MEM_Null) = of_bool (bit f 0)"
proof -
  have "f AND 1 = (if bit f 0 then 1 else 0)"
    by (rule bit_word_eqI) (auto simp: bit_simps intro: gr0I)
  then show ?thesis by (simp add: MEM_Null_def)
qed

lemmas cmp_flags = sqlite3MemCompare_def Let_def bit_or_iff uint_and_null

lemma memCompare_num:
  assumes "\<not> hasf (mflags m1 OR mflags m2) MEM_Null" "hasf (mflags m1) (MEM_Int OR MEM_Real)"
    "hasf (mflags m2) (MEM_Int OR MEM_Real)"
  shows "sqlite3MemCompare al m1 m2 pColl w = map_option (\<lambda>r. (r, w)) (cmp_num m1 m2)"
  using assms by (simp add: cmp_flags) blast

lemma and_int_zero: "f AND g AND MEM_Int = 0 \<longleftrightarrow> \<not> (bit f 2 \<and> bit g 2)"
  using hasf_bits(3) [of "f AND g"] by (auto simp: hasf_def bit_simps and.assoc)

lemma memCompare_val:
  assumes k1: "key_cell m1" and k2: "key_cell m2"
    and enc: "\<And>c t u. pColl = Some c \<Longrightarrow> val_of m1 = VText t \<Longrightarrow> val_of m2 = VText u \<Longrightarrow> cEnc c = menc m1"
  shows "sqlite3MemCompare al m1 m2 pColl w = map_option (\<lambda>r. (r, w)) (val_cmp pColl (val_of m1) (val_of m2))"
  using k1
proof (cases rule: key_cell_cases)
  case null
  note n1 = this
  show ?thesis using k2 n1 by (cases rule: key_cell_cases) (simp_all add: cmp_flags)
next
  case int
  note n1 = this
  show ?thesis using k2 n1
    by (cases rule: key_cell_cases)
      (simp_all add: cmp_flags cmp_num_def and_int_zero num_cmp_def dbl_cmp_def)
next
  case real
  note n1 = this
  show ?thesis using k2 n1
    by (cases rule: key_cell_cases)
      (simp_all add: cmp_flags cmp_num_def and_int_zero num_cmp_def dbl_cmp_def)
next
  case str
  note n1 = this
  show ?thesis using k2 
  proof (cases rule: key_cell_cases)
    case str
    then show ?thesis using n1 enc
      by (cases pColl) (simp_all add: cmp_flags cmp_blob_val map_conv_bind_option comp_def)
  qed (use n1 in \<open>simp_all add: cmp_flags\<close>)
next
  case blob
  note n1 = this
  show ?thesis using k2 n1
    by (cases rule: key_cell_cases) (simp_all add: cmp_flags cmp_blob_val)
qed

section \<open>A record against a key\<close>

text \<open>
  What the documentation of the routine promises, on the values alone and with the bits of the flags
  written out. The fields that both sides have are compared in their order, each with the collating
  sequence and the direction of its column; columns beyond \<^verbatim>\<open>nField\<close> have neither. The first
  difference decides. Without one, bit 0 of the flags (\<^verbatim>\<open>UNPACKED_INCRKEY\<close>) makes the key larger, else bit 1
  (\<^verbatim>\<open>UNPACKED_PREFIX_MATCH\<close>) makes the two equal, else the record is larger if it has more fields. Bit 2
  (\<^verbatim>\<open>UNPACKED_PREFIX_SEARCH\<close>) asks for the rowid, the last field of the record, of an entry that differs
  from the key in the last field only.
\<close>

definition field_order :: "KeyInfo \<Rightarrow> nat \<Rightarrow> sqlval \<Rightarrow> sqlval \<Rightarrow> int option" where
  "field_order ki i v k = val_cmp (if i < kField ki then aColl ki ! i else None) v k"

definition descending :: "KeyInfo \<Rightarrow> nat \<Rightarrow> bool" where
  "descending ki i \<longleftrightarrow> i < kField ki \<and> (\<exists>so. aSortOrder ki = Some so \<and> so ! i)"

definition key_result :: "UnpackedRecord \<Rightarrow> nat \<Rightarrow> sqlval list \<Rightarrow> sqlval list \<Rightarrow> int \<Rightarrow> UnpackedRecord \<Rightarrow> bool" where
  "key_result p m vs ks r p' \<longleftrightarrow>
    (\<exists>i \<le> min (length vs) (length ks). (\<forall>j < i. field_order (pKeyInfo p) (m + j) (vs ! j) (ks ! j) = Some 0) \<and>
      (if i = min (length vs) (length ks)
       then p' = p \<and> r = (if bit (uFlags p) 0 then -1 else if bit (uFlags p) 1 then 0
              else if length ks < length vs then 1 else 0)
       else (\<exists>c. field_order (pKeyInfo p) (m + i) (vs ! i) (ks ! i) = Some c \<and> c \<noteq> 0 \<and>
              r = (if descending (pKeyInfo p) (m + i) then - c else c)) \<and>
            (if bit (uFlags p) 2 \<and> i + 1 = length ks
             then length vs = i + 1 \<and> (\<exists>rowid. vs ! i = VInt rowid \<and> p' = p\<lparr>uFlags := unset_bit 2 (uFlags p), uRowid := rowid\<rparr>)
             else p' = p)))"

text \<open>The same as a recursion over the fields, the form that the loop follows.\<close>

fun key_cmp :: "UnpackedRecord \<Rightarrow> nat \<Rightarrow> sqlval list \<Rightarrow> sqlval list \<Rightarrow> (int \<times> UnpackedRecord) option" where
  "key_cmp p i vs [] = Some (rc_tie p (vs \<noteq> []), p)"
| "key_cmp p i [] (k # ks) = Some (rc_tie p False, p)"
| "key_cmp p i (v # vs) (k # ks) = do {
     rc \<leftarrow> val_cmp (coll_at (pKeyInfo p) i) v k;
     if rc = 0 then key_cmp p (i + 1) vs ks
     else
       (let rc = (if sort_desc (pKeyInfo p) i then - rc else rc) in
        if uFlags p AND UNPACKED_PREFIX_SEARCH \<noteq> 0 \<and> i + 1 = length (aMem p) then
          (case v of
             VInt r \<Rightarrow>
               if vs = [] then Some (rc, p\<lparr>uFlags := uFlags p AND NOT UNPACKED_PREFIX_SEARCH, uRowid := r\<rparr>) else None
           | _ \<Rightarrow> None)
        else Some (rc, p))
   }"

definition key_ok :: "UnpackedRecord \<Rightarrow> bool" where
  "key_ok p \<longleftrightarrow> list_all key_cell (aMem p) \<and>
     kField (pKeyInfo p) \<le> length (aColl (pKeyInfo p)) \<and>
     (\<forall>so. aSortOrder (pKeyInfo p) = Some so \<longrightarrow> kField (pKeyInfo p) \<le> length so) \<and>
     (\<forall>i < kField (pKeyInfo p). \<forall>c. aColl (pKeyInfo p) ! i = Some c \<longrightarrow> cEnc c = kEnc (pKeyInfo p))"

lemma key_okD:
  assumes "key_ok p"
  shows "list_all key_cell (aMem p)" "coll_at (pKeyInfo p) i = Some c \<Longrightarrow> cEnc c = kEnc (pKeyInfo p)"
    "val_cmp (coll_at (pKeyInfo p) i) v k = field_order (pKeyInfo p) i v k" "sort_desc (pKeyInfo p) i = descending (pKeyInfo p) i"
  using assms by (auto simp: key_ok_def coll_at_def field_order_def sort_desc_def descending_def split: if_splits option.splits)

lemma flag_bits:
  "f AND UNPACKED_INCRKEY \<noteq> 0 \<longleftrightarrow> bit f 0" "f AND UNPACKED_PREFIX_MATCH \<noteq> 0 \<longleftrightarrow> bit f 1"
  "f AND UNPACKED_PREFIX_SEARCH \<noteq> 0 \<longleftrightarrow> bit f 2" "f AND NOT UNPACKED_PREFIX_SEARCH = unset_bit 2 f"
proof -
  have "f AND 2 ^ n \<noteq> 0 \<longleftrightarrow> bit f n" for n by (simp only: and_exp_eq_0_iff_not_bit not_not)
  from this [of 0] this [of 1] this [of 2]
  show "f AND UNPACKED_INCRKEY \<noteq> 0 \<longleftrightarrow> bit f 0" "f AND UNPACKED_PREFIX_MATCH \<noteq> 0 \<longleftrightarrow> bit f 1"
    "f AND UNPACKED_PREFIX_SEARCH \<noteq> 0 \<longleftrightarrow> bit f 2"
    by (simp_all add: UNPACKED_INCRKEY_def UNPACKED_PREFIX_MATCH_def UNPACKED_PREFIX_SEARCH_def)
  show "f AND NOT UNPACKED_PREFIX_SEARCH = unset_bit 2 f"
    by (simp add: UNPACKED_PREFIX_SEARCH_def unset_bit_eq_and_not)
qed

lemma key_result_cmp:
  assumes "key_ok p"
  shows "key_result p m vs ks r p' \<Longrightarrow> m + length ks = length (aMem p) \<Longrightarrow> key_cmp p m vs ks = Some (r, p')"
proof (induction vs arbitrary: m ks)
  case Nil
  then show ?case by (cases ks) (auto simp: key_result_def rc_tie_def flag_bits)
next
  case (Cons v vs)
  show ?case
  proof (cases ks)
    case Nil
    then show ?thesis using Cons.prems by (auto simp: key_result_def rc_tie_def flag_bits)
  next
    case ks: (Cons k ks')
    obtain i where i: "i \<le> min (length (v # vs)) (length ks)"
      "\<And>j. j < i \<Longrightarrow> field_order (pKeyInfo p) (m + j) ((v # vs) ! j) (ks ! j) = Some 0"
      "if i = min (length (v # vs)) (length ks)
       then p' = p \<and> r = (if bit (uFlags p) 0 then -1 else if bit (uFlags p) 1 then 0
              else if length ks < length (v # vs) then 1 else 0)
       else (\<exists>c. field_order (pKeyInfo p) (m + i) ((v # vs) ! i) (ks ! i) = Some c \<and> c \<noteq> 0 \<and>
              r = (if descending (pKeyInfo p) (m + i) then - c else c)) \<and>
            (if bit (uFlags p) 2 \<and> i + 1 = length ks
             then length (v # vs) = i + 1 \<and>
               (\<exists>rowid. (v # vs) ! i = VInt rowid \<and> p' = p\<lparr>uFlags := unset_bit 2 (uFlags p), uRowid := rowid\<rparr>)
             else p' = p)"
      using Cons.prems(1) unfolding key_result_def by blast
    show ?thesis
    proof (cases i)
      case 0
      have "m + 1 = length (aMem p) \<longleftrightarrow> ks' = []" using Cons.prems(2) ks by (cases ks') auto
      with 0 show ?thesis using i(3) ks
        by (auto simp: key_okD [OF assms] flag_bits split: if_splits)
    next
      case (Suc i')
      have e: "i = Suc i'" "ks = k # ks'" "length (v # vs) = Suc (length vs)" "length (k # ks') = Suc (length ks')"
        "min (Suc (length vs)) (Suc (length ks')) = Suc (min (length vs) (length ks'))" "m + Suc i' = m + 1 + i'"
        "(v # vs) ! Suc i' = vs ! i'" "(k # ks') ! Suc i' = ks' ! i'" "Suc i' + 1 = Suc (i' + 1)"
        using Suc ks by simp_all
      have "key_result p (m + 1) vs ks' r p'"
        unfolding key_result_def
      proof (intro exI conjI allI impI)
        show "i' \<le> min (length vs) (length ks')" using i(1) Suc ks by simp
        show "field_order (pKeyInfo p) (m + 1 + j) (vs ! j) (ks' ! j) = Some 0" if "j < i'" for j
          using i(2) [of "Suc j"] that Suc ks by simp
        show "if i' = min (length vs) (length ks')
       then p' = p \<and> r = (if bit (uFlags p) 0 then -1 else if bit (uFlags p) 1 then 0
              else if length ks' < length vs then 1 else 0)
       else (\<exists>c. field_order (pKeyInfo p) (m + 1 + i') (vs ! i') (ks' ! i') = Some c \<and> c \<noteq> 0 \<and>
              r = (if descending (pKeyInfo p) (m + 1 + i') then - c else c)) \<and>
            (if bit (uFlags p) 2 \<and> i' + 1 = length ks'
             then length vs = i' + 1 \<and> (\<exists>rowid. vs ! i' = VInt rowid \<and> p' = p\<lparr>uFlags := unset_bit 2 (uFlags p), uRowid := rowid\<rparr>)
             else p' = p)"
          using i(3) unfolding e nat.inject Suc_less_eq .
      qed
      then have "key_cmp p (m + 1) vs ks' = Some (r, p')" using Cons.IH Cons.prems(2) ks by simp
      then show ?thesis using i(2) [of 0] Suc ks by (simp add: key_okD [OF assms])
    qed
  qed
qed

lemma menc_read_cell [simp]: "menc (read_cell m v b) = menc m"
  by (simp add: read_cell_def split: sqlval.split)

lemma rc_loop_ok:
  assumes big: "length aKey < 2 ^ 31" and H: "H < 2 ^ 32"
    and coll: "\<And>i c. coll_at (pKeyInfo p) i = Some c \<Longrightarrow> cEnc c = kEnc (pKeyInfo p)"
  shows "list_all val_ok vs \<Longrightarrow> list_all (\<lambda>v. val_type ff v < 2 ^ 32) vs \<Longrightarrow> list_all key_cell ms \<Longrightarrow>
    menc mem1 = kEnc (pKeyInfo p) \<Longrightarrow>
    drop idx aKey = types ff vs @ X \<Longrightarrow> idx + length (types ff vs) = H \<Longrightarrow>
    drop D aKey = datas ff vs @ Y \<Longrightarrow> D \<le> length aKey \<Longrightarrow>
    key_cmp p i vs (map val_of ms) = Some (r, p') \<Longrightarrow>
    rc_loop al aKey (int (length aKey)) p (of_nat H) ms i idx (of_nat D) mem1 w = Some (r, p', w)"
proof (induction vs arbitrary: ms i idx D mem1)
  case Nil
  have "unat (of_nat H :: u32) = H" using H by (simp add: unsigned_of_nat take_bit_nat_eq_self)
  with Nil show ?case by (cases ms) auto
next
  case (Cons v vs)
  let ?t = "val_type ff v" and ?d = "val_data ff v"
  have H': "unat (of_nat H :: u32) = H" using H by (simp add: unsigned_of_nat take_bit_nat_eq_self)
  have idx: "idx < H" using Cons.prems(6) length_vb(1) [of ?t] by simp
  show ?case
  proof (cases ms)
    case Nil
    then show ?thesis using Cons.prems(9) idx H' by auto
  next
    case ms: (Cons m2 ms')
    have D31: "D < 2 ^ 31" using Cons.prems(8) big by linarith
    have g: "getVarint32 (drop idx aKey) = Some (of_nat ?t, length (vb ?t))"
      using getVarint32_vb [of ?t "types ff vs @ X"] Cons.prems(2,5) by simp
    have t: "unat (of_nat ?t :: u32) = ?t" using Cons.prems(2) by (simp add: unsigned_of_nat take_bit_nat_eq_self)
    let ?c = "read_cell mem1 v (?d @ datas ff vs @ Y)"
    have k: "at_key aKey (of_nat D) = Some (?d @ datas ff vs @ Y)"
      using at_key_of_nat [OF D31 Cons.prems(8)] Cons.prems(7) by simp
    have s: "sqlite3VdbeSerialGet (?d @ datas ff vs @ Y) ?t mem1 = Some (length ?d, ?c)"
      using Cons.prems(1) by (intro serialGet_val) simp
    have "drop (idx + length (vb ?t)) aKey = drop (length (vb ?t)) (drop idx aKey)" by (simp add: add.commute)
    also have "\<dots> = types ff vs @ X" unfolding Cons.prems(5) by simp
    finally have dt: "drop (idx + length (vb ?t)) aKey = types ff vs @ X" .
    have "drop (D + length ?d) aKey = drop (length ?d) (drop D aKey)" by (simp add: add.commute)
    also have "\<dots> = datas ff vs @ Y" unfolding Cons.prems(7) by simp
    finally have dd: "drop (D + length ?d) aKey = datas ff vs @ Y" .
    have ld: "length ?d \<le> length (drop D aKey)" unfolding Cons.prems(7) by simp
    then have De: "D + length ?d \<le> length aKey" using Cons.prems(8) by simp
    have nb: "\<not> (int (length aKey) \<le> int D \<and> 0 < sqlite3VdbeSerialTypeLen ?t)"
      using ld by (auto simp: serialTypeLen_data)
    have kc: "key_cell ?c" using Cons.prems(1) by (intro key_cell_read) simp
    have km: "key_cell m2" using Cons.prems(3) ms by simp
    have vc: "val_of ?c = v" by (rule val_of_read_cell)
    have cmp: "sqlite3MemCompare al ?c m2 (coll_at (pKeyInfo p) i) w =
        map_option (\<lambda>r. (r, w)) (val_cmp (coll_at (pKeyInfo p) i) v (val_of m2))"
      using memCompare_val [OF kc km, of "coll_at (pKeyInfo p) i"] coll Cons.prems(4)
      unfolding vc by simp
    from Cons.prems(9) obtain rc where
      rc: "val_cmp (coll_at (pKeyInfo p) i) v (val_of m2) = Some rc"
      by (auto simp: ms bind_eq_Some_conv)
    note step = idx g k s t H' D31 nb sint_of_nat_u32 cmp rc
    show ?thesis
    proof (cases "rc = 0")
      case True
      have "rc_loop al aKey (int (length aKey)) p (of_nat H) ms' (i + 1) (idx + length (vb ?t))
          (of_nat (D + length ?d)) ?c w = Some (r, p', w)"
        using Cons.prems dt dd De rc True
        by (intro Cons.IH) (simp_all add: ms)
      with True show ?thesis using step by (auto simp: ms)
    next
      case False
      have mu: "\<And>x b. mu (read_cell mem1 (VInt x) b) = U_i x" by (simp add: read_cell_def)
      have "idx + length (vb ?t) = H \<longleftrightarrow> vs = []"
      proof -
        have "idx + length (vb ?t) + length (types ff vs) = H" using Cons.prems(6) by simp
        moreover have "length (types ff vs) = 0 \<longleftrightarrow> vs = []" using length_vb(1) by (cases vs) (auto simp: Suc_le_eq)
        ultimately show ?thesis by linarith
      qed
      with Cons.prems(9) rc False have "rc_differ p i (idx + length (vb ?t) = H) ?c rc = Some (r, p')"
        by (auto simp: ms rc_differ_def Let_def mu split: if_splits sqlval.splits)
      with False show ?thesis using step by (auto simp: ms)
    qed
  qed
qed

text \<open>
  \<^bold>\<open>C3\<close> Comparing a record with a key. \<^verbatim>\<open>sqlite3VdbeRecordCompare\<close> decodes the serialised record as
  it goes. On the record of any values it gives the result of comparing the values themselves with
  those of the key: the first field that differs decides, with the collating sequence and the
  direction of its column; a tie is settled by the flags of the key and by whether the record has more
  fields. It stays inside the record, allocates nothing, and under \<^verbatim>\<open>UNPACKED_PREFIX_SEARCH\<close> hands
  out the rowid of an entry that differs in the last field only. (Contrary to the comments in \<^verbatim>\<open>vdbeaux.c\<close>,
  a key with more fields than the record is not larger: without flags the result is 0.)
\<close>

theorem recordCompare_values:
  assumes "key_ok p" "list_all val_ok vs" "list_all (\<lambda>v. val_type ff v < 2 ^ 32) vs"
    and big: "length (rec_bytes ff vs) < 2 ^ 31"
    and spec: "key_result p 0 vs (map val_of (aMem p)) r p'"
  shows "sqlite3VdbeRecordCompare al junk (int (length (rec_bytes ff vs))) (rec_bytes ff vs) p w = Some (r, p', w)"
proof -
  let ?R = "rec_bytes ff vs" and ?H = "hdr_total (length (types ff vs))"
  have "length (types ff vs) < 2 ^ 31" using big by (simp add: rec_bytes_def)
  then have H: "?H = length (vb ?H) + length (types ff vs)" by (rule hdr_total_fixed)
  have H32: "?H < 2 ^ 32" using H big by (simp add: rec_bytes_def)
  have g: "getVarint32 ?R = Some (of_nat ?H, length (vb ?H))"
    using getVarint32_vb [OF H32, of "types ff vs @ datas ff vs"] by (simp add: rec_bytes_def)
  have 1: "drop (length (vb ?H)) ?R = types ff vs @ datas ff vs" by (simp add: rec_bytes_def)
  have "drop ?H ?R = drop (length (types ff vs)) (drop (length (vb ?H)) ?R)"
    using H by (simp add: add.commute)
  then have 2: "drop ?H ?R = datas ff vs @ []" unfolding 1 by simp
  have 3: "?H \<le> length ?R" using H by (simp add: rec_bytes_def)
  have "key_cmp p 0 vs (map val_of (aMem p)) = Some (r, p')"
    using key_result_cmp [OF assms(1) spec] by simp
  then show ?thesis
    using assms(1) H key_okD(1,2) [OF assms(1)]
    by (simp add: sqlite3VdbeRecordCompare_def g)
      (rule rc_loop_ok [OF big H32 _ assms(2,3) _ _ 1 _ 2 3], auto)
qed

text \<open>The key \<^verbatim>\<open>(7, 'ab')\<close> of an index on two columns, the second one descending.\<close>

definition demo_key :: UnpackedRecord where
  "demo_key = \<lparr>pKeyInfo = \<lparr>kEnc = SQLITE_UTF8, kField = 2, aSortOrder = Some [False, True],
       aColl = [None, Some \<lparr>cEnc = SQLITE_UTF8, xCmp = nocaseCollatingFunc\<rparr>]\<rparr>,
     uFlags = UNPACKED_PREFIX_MATCH, uRowid = 0,
     aMem = [blank_cell\<lparr>mu := U_i 7, mflags := MEM_Int\<rparr>,
             blank_cell\<lparr>mz := ZExt [0x61, 0x62], mn := 2, mflags := MEM_Str OR MEM_Static\<rparr>]\<rparr>"

lemma nocase_demo: "nocaseCollatingFunc [0x41, 0x43] [0x61, 0x62] = Some 1"
  by code_simp

theorem recordCompare_values_witness:
  "\<forall>al junk w. sqlite3VdbeRecordCompare al junk
     (int (length (rec_bytes 4 [VInt 7, VText [0x41, 0x43]]))) (rec_bytes 4 [VInt 7, VText [0x41, 0x43]])
     demo_key w = Some (-1, demo_key, w)"
proof (intro allI recordCompare_values)
  note defs = demo_key_def blank_cell_def flag_simps
  show "key_ok demo_key"
    by (auto simp: key_ok_def key_cell_def cell_text_def zbytes_def full_text_def text_of_def coll_at_def
        less_Suc_eq numeral_2_eq_2 defs split: if_splits)
  show "length (rec_bytes 4 [VInt 7, VText [0x41, 0x43]]) < 2 ^ 31"
    using length_vb(2) [of 1] length_vb(2) [of 17]
      length_vb(2) [of "hdr_total (length (vb 1) + length (vb 17))"]
    by (simp add: rec_bytes_def int_type_def int_size_def sqlite3VdbeSerialTypeLen_def MAX_6BYTE_def)
  have "map val_of (aMem demo_key) = [VInt 7, VText [0x61, 0x62]]"
    by (simp add: val_of_def full_text_def text_of_def zbytes_def defs)
  then show "key_result demo_key 0 [VInt 7, VText [0x41, 0x43]] (map val_of (aMem demo_key)) (-1) demo_key"
    unfolding key_result_def
    by (intro exI [of _ 1]) (simp add: field_order_def descending_def num_cmp_def nocase_demo less_Suc_eq UNPACKED_PREFIX_MATCH_def
        demo_key_def)
qed (simp_all add: int_type_def int_size_def i64_limits)

end
