(* ===== verification/MemOrder.thy ===== *)
theory MemOrder
  imports MemCmp "HOL-Library.List_Lexorder" "HOL-Library.Product_Lexorder"
begin

text \<open>
  The order that \<^verbatim>\<open>sqlite3MemCompare\<close> imposes on values. As long as every integer is exactly
  representable as a \<^verbatim>\<open>double\<close> it is the linear order of a key; beyond \<open>2 ^ 53\<close> it is not even
  transitive, as integers are compared exactly among themselves and rounded against reals.
\<close>

section \<open>Integers as doubles\<close>

lemma ilog2_bounds: "0 < m \<Longrightarrow> 2 ^ ilog2 m \<le> m \<and> m < 2 ^ Suc (ilog2 m)"
proof (induction m rule: ilog2.induct)
  case (1 n)
  show ?case
  proof (cases "n < 2")
    case True
    then have "n = 1" using 1(2) by simp
    then show ?thesis by (simp add: ilog2.simps)
  next
    case False
    then have "2 ^ ilog2 (n div 2) \<le> n div 2 \<and> n div 2 < 2 ^ Suc (ilog2 (n div 2))" using 1 by simp
    moreover have "ilog2 n = Suc (ilog2 (n div 2))" using False by (simp add: ilog2.simps [of n])
    ultimately show ?thesis by auto
  qed
qed

lemma ilog2_le: "0 < m \<Longrightarrow> m < 2 ^ Suc k \<Longrightarrow> ilog2 m \<le> k"
  using ilog2_bounds [of m] power_less_imp_less_exp [of "2::nat" "ilog2 m" "Suc k"] by auto

definition mag :: "nat \<Rightarrow> nat" where "mag m = (if m = 0 then 0 else dbl_of_mag m)"

lemma mag_small:
  assumes "0 < m" "m < 2 ^ 53"
  shows "(ilog2 m + 1023) * 2 ^ 52 \<le> mag m" "mag m < (ilog2 m + 1024) * 2 ^ 52"
    "mag m = (ilog2 m + 1022) * 2 ^ 52 + m * 2 ^ (52 - ilog2 m)"
proof -
  let ?e = "ilog2 m"
  have e: "?e \<le> 52" using ilog2_le [of m 52] assms by simp
  have p: "(2::nat) ^ ?e * 2 ^ (52 - ?e) = 2 ^ 52" using e by (simp flip: power_add)
  have "2 ^ ?e * 2 ^ (52 - ?e) \<le> m * 2 ^ (52 - ?e)"
    using ilog2_bounds [OF assms(1)] by (intro mult_right_mono) simp_all
  then have b: "2 ^ 52 \<le> m * 2 ^ (52 - ?e)" unfolding p .
  have "m * 2 ^ (52 - ?e) < 2 ^ Suc ?e * 2 ^ (52 - ?e)"
    using ilog2_bounds [OF assms(1)] by (intro mult_strict_right_mono) (simp_all del: power_Suc)
  also have "\<dots> = 2 * 2 ^ 52" using p by simp
  finally have b2: "m * 2 ^ (52 - ?e) < 2 * 2 ^ 52" .
  show "mag m = (?e + 1022) * 2 ^ 52 + m * 2 ^ (52 - ?e)"
    using assms(1) e b by (simp add: mag_def dbl_of_mag_def Let_def)
  then show "(?e + 1023) * 2 ^ 52 \<le> mag m" "mag m < (?e + 1024) * 2 ^ 52" using b b2 by simp_all
qed

lemma mag_exact: "mag (2 ^ 53) = 1076 * 2 ^ 52"
proof -
  have "ilog2 (2 ^ 53) = 53" by (simp add: ilog2.simps)
  then show ?thesis by (simp add: mag_def dbl_of_mag_def)
qed

lemma mag_mono:
  assumes "m < n" "n \<le> 2 ^ 53"
  shows "mag m < mag n"
proof -
  have n0: "0 < n" using assms by simp
  consider "m = 0" "n < 2 ^ 53" | "m = 0" "n = 2 ^ 53" | "0 < m" "n = 2 ^ 53" | "0 < m" "n < 2 ^ 53"
    using assms by fastforce
  then show ?thesis
  proof cases
    case 1
    then show ?thesis using mag_small(1) [OF n0] by (simp add: mag_def)
  next
    case 2
    then show ?thesis using mag_exact by (simp add: mag_def)
  next
    case 3
    have "m < 2 ^ 53" using 3 assms by simp
    then have "mag m < (ilog2 m + 1024) * 2 ^ 52" "ilog2 m \<le> 52"
      using mag_small(2) [of m] ilog2_le [of m 52] 3 by simp_all
    moreover have "(ilog2 m + 1024) * 2 ^ 52 \<le> (52 + 1024) * (2::nat) ^ 52"
      using \<open>ilog2 m \<le> 52\<close> by (intro mult_right_mono) simp_all
    ultimately show ?thesis using 3 mag_exact by simp
  next
    case 4
    have m: "m < 2 ^ 53" using 4 assms by simp
    note M = mag_small [OF 4(1) m] and N = mag_small [OF n0 4(2)]
    have le: "ilog2 m \<le> ilog2 n"
      using ilog2_bounds [OF 4(1)] ilog2_bounds [OF n0] assms(1)
        power_less_imp_less_exp [of "2::nat" "ilog2 m" "Suc (ilog2 n)"] by simp
    show ?thesis
    proof (cases "ilog2 m = ilog2 n")
      case True
      then show ?thesis using M(3) N(3) assms(1) by simp
    next
      case False
      then have "(ilog2 m + 1024) * 2 ^ 52 \<le> (ilog2 n + 1023) * (2::nat) ^ 52"
        using le by (intro mult_right_mono) simp_all
      then show ?thesis using M(2) N(1) by simp
    qed
  qed
qed

lemma mag_less_iff: "m \<le> 2 ^ 53 \<Longrightarrow> n \<le> 2 ^ 53 \<Longrightarrow> mag m < mag n \<longleftrightarrow> m < n"
  using mag_mono [of m n] mag_mono [of n m] by (cases m n rule: linorder_cases) auto

lemma mag_bound: "m \<le> 2 ^ 53 \<Longrightarrow> mag m < 2047 * 2 ^ 52"
  using mag_less_iff [of m "2 ^ 53"] mag_exact by (cases "m = 2 ^ 53") auto

lemma dbl_parts:
  fixes n :: nat and s :: bool
  assumes n: "n < 2 ^ 63"
  defines "x \<equiv> of_nat (n + (if s then 2 ^ 63 else 0)) :: u64"
  shows "dbl_key x = (if s then - int n else int n)" "n < 2047 * 2 ^ 52 \<Longrightarrow> \<not> sqlite3IsNaN x"
proof -
  have u: "unat x = n + (if s then 2 ^ 63 else 0)"
    using n by (simp add: x_def unsigned_of_nat take_bit_nat_eq_self del: of_nat_add)
  have m: "0x7FFFFFFFFFFFFFFF = (mask 63 :: u64)" "(0x7FF :: u64) = mask 11" by (simp_all add: mask_numeral)
  have "unat (take_bit 63 x) = n" unfolding unsigned_take_bit_eq u using n by (simp add: take_bit_eq_mod)
  moreover have "bit x 63 \<longleftrightarrow> s"
  proof -
    have "bit x 63 \<longleftrightarrow> bit (unat x) 63" by (simp add: bit_unsigned_iff)
    moreover have "(n + 2 ^ 63) div 2 ^ 63 = 1" using n by (simp add: div_add_self2)
    ultimately show ?thesis using n by (simp add: u bit_iff_odd)
  qed
  ultimately show "dbl_key x = (if s then - int n else int n)"
    by (simp add: dbl_key_def m(1) uint_nat flip: take_bit_eq_mask)
  assume "n < 2047 * 2 ^ 52"
  then have "n div 2 ^ 52 < 2047" by (simp add: div_less_iff_less_mult)
  moreover have "unat (take_bit 11 (drop_bit 52 x)) = n div 2 ^ 52"
    unfolding unsigned_take_bit_eq unat_drop_bit_eq u
    using \<open>n div 2 ^ 52 < 2047\<close> div_mult_self2 [of "2 ^ 52" n 2048]
    by (simp add: take_bit_eq_mod drop_bit_eq_div)
  ultimately have "take_bit 11 (drop_bit 52 x) \<noteq> 0x7FF" by auto
  then show "\<not> sqlite3IsNaN x" by (simp add: sqlite3IsNaN_def m(2) flip: take_bit_eq_mask)
qed

section \<open>The order\<close>

fun num_key :: "sqlval \<Rightarrow> int" where
  "num_key (VInt i) = (if i < 0 then - int (mag (nat (- i))) else int (mag (nat i)))"
| "num_key (VReal r) = dbl_key r"
| "num_key _ = 0"

text \<open>The class of a value, its number and its bytes, compared lexicographically.\<close>

fun val_key :: "sqlval \<Rightarrow> nat \<times> int \<times> u8 list" where
  "val_key VNull = (0, 0, [])"
| "val_key (VText t) = (2, 0, t)"
| "val_key (VBlob b) = (3, 0, b)"
| "val_key v = (1, num_key v, [])"

fun exact :: "sqlval \<Rightarrow> bool" where
  "exact (VInt i) \<longleftrightarrow> \<bar>i\<bar> \<le> 2 ^ 53"
| "exact (VReal r) \<longleftrightarrow> \<not> sqlite3IsNaN r"
| "exact _ \<longleftrightarrow> True"

lemma dbl_of_i64_key:
  assumes "\<bar>i\<bar> \<le> 2 ^ 53"
  shows "dbl_key (dbl_of_i64 i) = num_key (VInt i)" "\<not> sqlite3IsNaN (dbl_of_i64 i)"
proof -
  have m: "nat \<bar>i\<bar> \<le> 2 ^ 53" using assms by (simp add: nat_le_iff)
  have b: "mag (nat \<bar>i\<bar>) < 2047 * 2 ^ 52" by (rule mag_bound [OF m])
  have eq: "dbl_of_i64 i = of_nat (mag (nat \<bar>i\<bar>) + (if i < 0 then 2 ^ 63 else 0))"
    by (simp add: dbl_of_i64_def mag_def)
  show "dbl_key (dbl_of_i64 i) = num_key (VInt i)"
    unfolding eq using dbl_parts(1) [of "mag (nat \<bar>i\<bar>)" "i < 0"] b by (simp del: of_nat_add)
  show "\<not> sqlite3IsNaN (dbl_of_i64 i)"
    unfolding eq using dbl_parts(2) [of "mag (nat \<bar>i\<bar>)" "i < 0"] b by (simp del: of_nat_add)
qed

lemma num_key_mono:
  assumes "\<bar>i\<bar> \<le> 2 ^ 53" "\<bar>j\<bar> \<le> 2 ^ 53"
  shows "num_cmp i j = num_cmp (num_key (VInt i)) (num_key (VInt j))"
proof -
  have m: "nat i \<le> 2 ^ 53" "nat (- i) \<le> 2 ^ 53" "nat j \<le> 2 ^ 53" "nat (- j) \<le> 2 ^ 53"
    using assms by (simp_all add: nat_le_iff)
  have "num_key (VInt i) < num_key (VInt j) \<longleftrightarrow> i < j" if "\<bar>i\<bar> \<le> 2 ^ 53" "\<bar>j\<bar> \<le> 2 ^ 53" for i j
  proof -
    have m: "nat i \<le> 2 ^ 53" "nat (- i) \<le> 2 ^ 53" "nat j \<le> 2 ^ 53" "nat (- j) \<le> 2 ^ 53"
      using that by (simp_all add: nat_le_iff)
    have pos: "0 < mag k" if "0 < k" "k \<le> 2 ^ 53" for k
      using mag_mono [OF that] by simp
    show ?thesis
      using mag_less_iff [OF m(1,3)] mag_less_iff [OF m(4,2)] pos [OF _ m(2)] pos [OF _ m(4)]
      by (cases "i < 0"; cases "j < 0") auto
  qed
  then show ?thesis using assms by (simp add: num_cmp_def del: num_key.simps)
qed

lemma dbl_cmp_key: "\<not> sqlite3IsNaN a \<Longrightarrow> \<not> sqlite3IsNaN b \<Longrightarrow> dbl_cmp a b = num_cmp (dbl_key a) (dbl_key b)"
  by (simp add: dbl_cmp_def num_cmp_def dbl_lt_def)

lemma blob_cmp_key: "sgn (blob_cmp a b) = num_cmp a b"
  by (induction a b rule: blob_cmp.induct)
    (auto simp: num_cmp_def word_less_def word_uint_eq_iff sgn_if neq_Nil_conv split: if_splits)

text \<open>The collating sequence \<^verbatim>\<open>BINARY\<close>, or none.\<close>

definition binary :: "CollSeq option \<Rightarrow> bool" where
  "binary c \<longleftrightarrow> (\<forall>coll. c = Some coll \<longrightarrow> xCmp coll = binCollFunc False)"

lemma binColl_blob: "binCollFunc False a b = Some (blob_cmp a b)"
  using memcmp_blob [of a b]
  by (auto simp: binCollFunc_def Let_def split: if_splits)

lemma val_cmp_key:
  assumes "exact v" "exact u" "binary c"
  shows "\<exists>r. val_cmp c v u = Some r \<and> sgn r = num_cmp (val_key v) (val_key u)"
proof -
  have t: "\<exists>r. (case c of None \<Rightarrow> Some (blob_cmp s t) | Some coll \<Rightarrow> xCmp coll s t) = Some r \<and>
      sgn r = num_cmp s t" for s t
    using assms(3) by (cases c) (simp_all add: binary_def binColl_blob blob_cmp_key)
  have pair: "num_cmp (a, x, l) (a, y, l) = num_cmp x y" "num_cmp (a, x, l) (a, x, l') = num_cmp l l'"
    for a :: nat and x y :: int and l l' :: "u8 list" by (simp_all add: num_cmp_def)
  show ?thesis
    using assms(1,2) t
    by (cases v; cases u)
      (simp_all add: pair dbl_cmp_key dbl_of_i64_key num_key_mono blob_cmp_key del: num_key.simps,
       simp_all add: num_cmp_def)
qed

text \<open>
  \<^bold>\<open>C13\<close> The order of values. Under \<^verbatim>\<open>BINARY\<close>, with integers up to \<open>2 ^ 53\<close> and reals that are
  no NaN, \<^verbatim>\<open>sqlite3MemCompare\<close> always returns, and the sign of its result is that of a linear order:
  NULL, then numbers by value, then texts, then blobs, each bytewise. So it is reflexive,
  antisymmetric and transitive there.
\<close>

theorem memCompare_linear:
  assumes "key_cell m1" "key_cell m2" "exact (val_of m1)" "exact (val_of m2)" "binary pColl"
    and "\<And>c. pColl = Some c \<Longrightarrow> cEnc c = menc m1"
  shows "\<exists>r. sqlite3MemCompare al m1 m2 pColl w = Some (r, w) \<and>
    (r < 0 \<longleftrightarrow> val_key (val_of m1) < val_key (val_of m2)) \<and>
    (r = 0 \<longleftrightarrow> val_key (val_of m1) = val_key (val_of m2))"
proof -
  obtain r where r: "val_cmp pColl (val_of m1) (val_of m2) = Some r"
    "sgn r = num_cmp (val_key (val_of m1)) (val_key (val_of m2))"
    using val_cmp_key [OF assms(3-5)] by blast
  have "sqlite3MemCompare al m1 m2 pColl w = Some (r, w)"
    using memCompare_val [OF assms(1,2), of pColl al w] assms(6) r(1) by simp
  moreover have "(r < 0 \<longleftrightarrow> val_key (val_of m1) < val_key (val_of m2)) \<and>
      (r = 0 \<longleftrightarrow> val_key (val_of m1) = val_key (val_of m2))"
    using r(2) by (auto simp: num_cmp_def sgn_if split: if_splits)
  ultimately show ?thesis by blast
qed

definition int_cell :: "int \<Rightarrow> Mem" where
  "int_cell i = blank_cell\<lparr>mu := U_i i, mflags := MEM_Int\<rparr>"

definition real_cell :: "u64 \<Rightarrow> Mem" where
  "real_cell r = blank_cell\<lparr>mr := r, mflags := MEM_Real\<rparr>"

lemma cell_values [simp]:
  "key_cell (int_cell i)" "val_of (int_cell i) = VInt i"
  "key_cell (real_cell r)" "val_of (real_cell r) = VReal r"
  by (simp_all add: int_cell_def real_cell_def key_cell_def val_of_def blank_cell_def flag_simps)

theorem memCompare_linear_witness:
  "\<forall>al w. \<exists>r. sqlite3MemCompare al (int_cell 3) (real_cell 0x4008000000000001) None w = Some (r, w) \<and>
    (r < 0 \<longleftrightarrow> val_key (VInt 3) < val_key (VReal 0x4008000000000001)) \<and>
    (r = 0 \<longleftrightarrow> val_key (VInt 3) = val_key (VReal 0x4008000000000001))"
proof (intro allI)
  fix al w
  show "\<exists>r. sqlite3MemCompare al (int_cell 3) (real_cell 0x4008000000000001) None w = Some (r, w) \<and>
    (r < 0 \<longleftrightarrow> val_key (VInt 3) < val_key (VReal 0x4008000000000001)) \<and>
    (r = 0 \<longleftrightarrow> val_key (VInt 3) = val_key (VReal 0x4008000000000001))"
    using memCompare_linear [of "int_cell 3" "real_cell 0x4008000000000001" None al w]
    by (simp add: sqlite3IsNaN_def binary_def)
qed

text \<open>
  \<^bold>\<open>C35\<close> Beyond \<open>2 ^ 53\<close> the comparison is not transitive: \<open>2 ^ 53\<close> and \<open>2 ^ 53 + 1\<close> both compare equal
  to the real \<open>2 ^ 53\<close>, and the first is still less than the second.
\<close>

theorem memCompare_not_transitive:
  "sqlite3MemCompare al (int_cell (2 ^ 53 + 1)) (real_cell 0x4340000000000000) c w = Some (0, w) \<and>
   sqlite3MemCompare al (real_cell 0x4340000000000000) (int_cell (2 ^ 53)) c w = Some (0, w) \<and>
   sqlite3MemCompare al (int_cell (2 ^ 53)) (int_cell (2 ^ 53 + 1)) c w = Some (-1, w)"
proof -
  have l: "ilog2 (2 ^ 53) = 53" "ilog2 (2 ^ 53 + 1) = 53" by (simp_all add: ilog2.simps)
  have d: "dbl_of_i64 (2 ^ 53) = 0x4340000000000000" "dbl_of_i64 (2 ^ 53 + 1) = 0x4340000000000000"
    using l by (simp_all add: dbl_of_i64_def dbl_of_mag_def)
  have c: "sqlite3MemCompare al m1 m2 c w = map_option (\<lambda>r. (r, w)) (val_cmp c (val_of m1) (val_of m2))"
    if "key_cell m1" "key_cell m2" "\<And>t. val_of m1 \<noteq> VText t" for m1 m2
    using that by (intro memCompare_val) auto
  show ?thesis
    by (simp add: c d dbl_cmp_def dbl_lt_def num_cmp_def del: power_numeral)
qed

end
