(* ===== verification/UnixLock.thy ===== *)
theory UnixLock
  imports Sqlite_Prelude
begin

text \<open>
  The locking layer of \<^verbatim>\<open>os_unix.c\<close>: the five lock levels of a database file on top of POSIX
  advisory locks. A process has one \<^verbatim>\<open>unixInodeInfo\<close> for the file, shared by its \<^verbatim>\<open>unixFile\<close>
  handles and protected by a mutex. A routine is a tree of the system calls it makes, so that
  the calls of different processes can be interleaved between any two of them.
\<close>

section \<open>System calls\<close>

datatype errno = EAGAIN | ETIMEDOUT | EBUSY | EINTR | ENOLCK | EACCES | EPERM | E_other nat

datatype ltype = F_UNLCK | F_RDLCK | F_WRLCK

text \<open>\<^verbatim>\<open>struct flock\<close> with \<^verbatim>\<open>l_whence = SEEK_SET\<close>; a length of 0 reaches to the end of the file.\<close>

record flock =
  l_type :: ltype
  l_start :: nat
  l_len :: nat

definition covers :: "flock \<Rightarrow> nat \<Rightarrow> bool" where
  "covers l b \<longleftrightarrow> l_start l \<le> b \<and> (l_len l = 0 \<or> b < l_start l + l_len l)"

text \<open>
  A routine returns, fails an assertion, or makes a call: \<^verbatim>\<open>fcntl(F_SETLK)\<close> and \<^verbatim>\<open>fcntl(F_GETLK)\<close>
  with the error they may report, and \<^verbatim>\<open>close\<close>, whose failure is only logged.
\<close>

datatype 'a sysm =
    Ret 'a
  | Abort
  | Setlk int flock "errno option \<Rightarrow> 'a sysm"
  | Getlk int flock "errno option \<times> ltype \<Rightarrow> 'a sysm"
  | OsClose int "'a sysm"

primrec sbind :: "'a sysm \<Rightarrow> ('a \<Rightarrow> 'b sysm) \<Rightarrow> 'b sysm" where
  "sbind (Ret a) k = k a"
| "sbind Abort k = Abort"
| "sbind (Setlk fd l c) k = Setlk fd l (\<lambda>e. sbind (c e) k)"
| "sbind (Getlk fd l c) k = Getlk fd l (\<lambda>r. sbind (c r) k)"
| "sbind (OsClose fd c) k = OsClose fd (sbind c k)"

definition assertm :: "bool \<Rightarrow> 'a sysm \<Rightarrow> 'a sysm" where
  "assertm b m = (if b then m else Abort)"

section \<open>State of a process\<close>

abbreviation (input) NO_LOCK :: nat where "NO_LOCK \<equiv> 0"
abbreviation (input) SHARED_LOCK :: nat where "SHARED_LOCK \<equiv> 1"
abbreviation (input) RESERVED_LOCK :: nat where "RESERVED_LOCK \<equiv> 2"
abbreviation (input) PENDING_LOCK :: nat where "PENDING_LOCK \<equiv> 3"
abbreviation (input) EXCLUSIVE_LOCK :: nat where "EXCLUSIVE_LOCK \<equiv> 4"

definition PENDING_BYTE :: nat where "PENDING_BYTE = 0x40000000"
definition RESERVED_BYTE :: nat where "RESERVED_BYTE = PENDING_BYTE + 1"
definition SHARED_FIRST :: nat where "SHARED_FIRST = PENDING_BYTE + 2"
definition SHARED_SIZE :: nat where "SHARED_SIZE = 510"

abbreviation (input) SQLITE_PERM :: rc where "SQLITE_PERM \<equiv> 3"
definition SQLITE_IOERR_UNLOCK :: rc where "SQLITE_IOERR_UNLOCK = 10 + 8 * 256"
definition SQLITE_IOERR_RDLOCK :: rc where "SQLITE_IOERR_RDLOCK = 10 + 9 * 256"
definition SQLITE_IOERR_CHECKRESERVEDLOCK :: rc where "SQLITE_IOERR_CHECKRESERVEDLOCK = 10 + 14 * 256"
definition SQLITE_IOERR_LOCK :: rc where "SQLITE_IOERR_LOCK = 10 + 15 * 256"

definition UNIXFILE_EXCL :: u16 where "UNIXFILE_EXCL = 0x01"
definition UNIXFILE_RDONLY :: u16 where "UNIXFILE_RDONLY = 0x02"

text \<open>Descriptors that wait to be closed until the last lock on the file is gone.\<close>

record UnixUnusedFd =
  ufd :: int
  uflags :: nat

text \<open>\<^verbatim>\<open>ctrlFlags\<close> as the two bits that matter for locks.\<close>

record unixFile =
  fh :: int
  eFileLock :: nat
  ctrlFlags :: u16
  lastErrno :: "errno option"
  pUnused :: "UnixUnusedFd option"

record unixInodeInfo =
  nShared :: int
  iFileLock :: nat
  bProcessLock :: bool
  nRef :: int
  nLock :: int
  iUnused :: "UnixUnusedFd list"

text \<open>The handles of a process on the file, and the \<^verbatim>\<open>pInode\<close> they share.\<close>

record proc =
  pInode :: "unixInodeInfo option"
  pFiles :: "nat \<rightharpoonup> unixFile"

definition inode :: "proc \<Rightarrow> unixInodeInfo" where "inode s = the (pInode s)"
definition handle :: "proc \<Rightarrow> nat \<Rightarrow> unixFile" where "handle s f = the (pFiles s f)"

definition upd_inode :: "proc \<Rightarrow> (unixInodeInfo \<Rightarrow> unixInodeInfo) \<Rightarrow> proc" where
  "upd_inode s g = s\<lparr>pInode := Some (g (inode s))\<rparr>"

definition upd_file :: "proc \<Rightarrow> nat \<Rightarrow> (unixFile \<Rightarrow> unixFile) \<Rightarrow> proc" where
  "upd_file s f g = s\<lparr>pFiles := (pFiles s)(f \<mapsto> g (handle s f))\<rparr>"

section \<open>Taking a lock\<close>

definition sqliteErrorFromPosixError :: "errno \<Rightarrow> rc \<Rightarrow> rc" where
  "sqliteErrorFromPosixError posixError sqliteIOErr =
    (case posixError of
       EAGAIN \<Rightarrow> SQLITE_BUSY | ETIMEDOUT \<Rightarrow> SQLITE_BUSY | EBUSY \<Rightarrow> SQLITE_BUSY
     | EINTR \<Rightarrow> SQLITE_BUSY | ENOLCK \<Rightarrow> SQLITE_BUSY
     | EACCES \<Rightarrow>
         if sqliteIOErr = SQLITE_IOERR_LOCK \<or> sqliteIOErr = SQLITE_IOERR_UNLOCK \<or>
            sqliteIOErr = SQLITE_IOERR_RDLOCK \<or> sqliteIOErr = SQLITE_IOERR_CHECKRESERVEDLOCK
         then SQLITE_BUSY else SQLITE_PERM
     | EPERM \<Rightarrow> SQLITE_PERM
     | E_other _ \<Rightarrow> sqliteIOErr)"

definition unixCheckReservedLock :: "proc \<Rightarrow> nat \<Rightarrow> (rc \<times> bool \<times> proc) sysm" where
  "unixCheckReservedLock s f =
    (let reserved = SHARED_LOCK < iFileLock (inode s) in
     if \<not> reserved \<and> \<not> bProcessLock (inode s) then
       Getlk (fh (handle s f)) \<lparr>l_type = F_WRLCK, l_start = RESERVED_BYTE, l_len = 1\<rparr> (\<lambda>(e, t).
         case e of
           Some err \<Rightarrow> Ret (SQLITE_IOERR_CHECKRESERVEDLOCK, reserved, upd_file s f (lastErrno_update (\<lambda>_. Some err)))
         | None \<Rightarrow> Ret (SQLITE_OK, t \<noteq> F_UNLCK, s))
     else Ret (SQLITE_OK, reserved, s))"

definition unixFileLock :: "proc \<Rightarrow> nat \<Rightarrow> flock \<Rightarrow> (errno option \<times> proc) sysm" where
  "unixFileLock s f pLock =
    (if (ctrlFlags (handle s f) AND UNIXFILE_EXCL \<noteq> 0 \<or> bProcessLock (inode s)) \<and>
        ctrlFlags (handle s f) AND UNIXFILE_RDONLY = 0 then
       if \<not> bProcessLock (inode s) then
         assertm (nLock (inode s) = 0)
           (Setlk (fh (handle s f)) \<lparr>l_type = F_WRLCK, l_start = SHARED_FIRST, l_len = SHARED_SIZE\<rparr> (\<lambda>e.
              case e of
                Some err \<Rightarrow> Ret (e, s)
              | None \<Rightarrow> Ret (None, upd_inode s (\<lambda>i. i\<lparr>bProcessLock := True, nLock := nLock i + 1\<rparr>))))
       else Ret (None, s)
     else Setlk (fh (handle s f)) pLock (\<lambda>e. Ret (e, s)))"

text \<open>The translation of a failed call, with \<^verbatim>\<open>lastErrno\<close> set unless the file is just busy.\<close>

definition lock_error :: "proc \<Rightarrow> nat \<Rightarrow> errno \<Rightarrow> rc \<times> proc" where
  "lock_error s f err =
    (let rc = sqliteErrorFromPosixError err SQLITE_IOERR_LOCK in
     (rc, if rc \<noteq> SQLITE_BUSY then upd_file s f (lastErrno_update (\<lambda>_. Some err)) else s))"

text \<open>The first lock on the file: a read lock on the shared bytes, the pending byte released.\<close>

definition unixLock_shared :: "proc \<Rightarrow> nat \<Rightarrow> (rc \<times> proc) sysm" where
  "unixLock_shared s f =
    assertm (nShared (inode s) = 0 \<and> iFileLock (inode s) = NO_LOCK)
      (sbind (unixFileLock s f \<lparr>l_type = F_RDLCK, l_start = SHARED_FIRST, l_len = SHARED_SIZE\<rparr>) (\<lambda>(e1, s).
         let rc = (case e1 of None \<Rightarrow> SQLITE_OK | Some err \<Rightarrow> sqliteErrorFromPosixError err SQLITE_IOERR_LOCK) in
         sbind (unixFileLock s f \<lparr>l_type = F_UNLCK, l_start = PENDING_BYTE, l_len = 1\<rparr>) (\<lambda>(e2, s).
           let (rc, tErrno) =
             (if e2 \<noteq> None \<and> rc = SQLITE_OK then (SQLITE_IOERR_UNLOCK, e2) else (rc, e1)) in
           if rc \<noteq> SQLITE_OK then
             Ret (rc, if rc \<noteq> SQLITE_BUSY then upd_file s f (lastErrno_update (\<lambda>_. tErrno)) else s)
           else
             Ret (SQLITE_OK,
               upd_inode (upd_file s f (eFileLock_update (\<lambda>_. SHARED_LOCK)))
                 (\<lambda>i. i\<lparr>nLock := nLock i + 1, nShared := 1, iFileLock := SHARED_LOCK\<rparr>)))))"

text \<open>A \<^verbatim>\<open>RESERVED\<close> or \<^verbatim>\<open>EXCLUSIVE\<close> lock by a handle that has a lock already.\<close>

definition unixLock_write :: "proc \<Rightarrow> nat \<Rightarrow> nat \<Rightarrow> (rc \<times> proc) sysm" where
  "unixLock_write s f lvl =
    assertm (eFileLock (handle s f) \<noteq> NO_LOCK)
      (assertm (lvl = RESERVED_LOCK \<or> lvl = EXCLUSIVE_LOCK)
        (sbind (unixFileLock s f
            (if lvl = RESERVED_LOCK then \<lparr>l_type = F_WRLCK, l_start = RESERVED_BYTE, l_len = 1\<rparr>
             else \<lparr>l_type = F_WRLCK, l_start = SHARED_FIRST, l_len = SHARED_SIZE\<rparr>)) (\<lambda>(e, s).
          Ret (case e of None \<Rightarrow> (SQLITE_OK, s) | Some err \<Rightarrow> lock_error s f err))))"

text \<open>The new levels, also after a failed request for \<^verbatim>\<open>EXCLUSIVE\<close>.\<close>

definition unixLock_levels :: "nat \<Rightarrow> nat \<Rightarrow> rc \<Rightarrow> proc \<Rightarrow> rc \<times> proc" where
  "unixLock_levels f lvl rc s =
    (let set_lvl = (\<lambda>l. upd_inode (upd_file s f (eFileLock_update (\<lambda>_. l))) (iFileLock_update (\<lambda>_. l))) in
     (rc, if rc = SQLITE_OK then set_lvl lvl
          else if lvl = EXCLUSIVE_LOCK then set_lvl PENDING_LOCK
          else s))"

definition unixLock_rest :: "proc \<Rightarrow> nat \<Rightarrow> nat \<Rightarrow> (rc \<times> proc) sysm" where
  "unixLock_rest s f lvl =
    (if lvl = SHARED_LOCK then unixLock_shared s f
     else if lvl = EXCLUSIVE_LOCK \<and> 1 < nShared (inode s) then Ret (unixLock_levels f lvl SQLITE_BUSY s)
     else sbind (unixLock_write s f lvl) (\<lambda>(rc, s). Ret (unixLock_levels f lvl rc s)))"

definition unixLock :: "proc \<Rightarrow> nat \<Rightarrow> nat \<Rightarrow> (rc \<times> proc) sysm" where
  "unixLock s f lvl =
    (if lvl \<le> eFileLock (handle s f) then Ret (SQLITE_OK, s)
     else
       assertm (eFileLock (handle s f) \<noteq> NO_LOCK \<or> lvl = SHARED_LOCK)
      (assertm (lvl \<noteq> PENDING_LOCK)
      (assertm (lvl \<noteq> RESERVED_LOCK \<or> eFileLock (handle s f) = SHARED_LOCK)
        (if eFileLock (handle s f) \<noteq> iFileLock (inode s) \<and>
            (PENDING_LOCK \<le> iFileLock (inode s) \<or> SHARED_LOCK < lvl) then Ret (SQLITE_BUSY, s)
         else if lvl = SHARED_LOCK \<and>
            (iFileLock (inode s) = SHARED_LOCK \<or> iFileLock (inode s) = RESERVED_LOCK) then
           assertm (eFileLock (handle s f) = NO_LOCK \<and> 0 < nShared (inode s))
             (Ret (SQLITE_OK, upd_inode (upd_file s f (eFileLock_update (\<lambda>_. SHARED_LOCK)))
                (\<lambda>i. i\<lparr>nShared := nShared i + 1, nLock := nLock i + 1\<rparr>)))
         else if lvl = SHARED_LOCK \<or> lvl = EXCLUSIVE_LOCK \<and> eFileLock (handle s f) < PENDING_LOCK then
           sbind (unixFileLock s f
               \<lparr>l_type = (if lvl = SHARED_LOCK then F_RDLCK else F_WRLCK), l_start = PENDING_BYTE, l_len = 1\<rparr>)
             (\<lambda>(e, s). case e of
                Some err \<Rightarrow> Ret (lock_error s f err)
              | None \<Rightarrow> unixLock_rest s f lvl)
         else unixLock_rest s f lvl))))"

section \<open>Releasing a lock\<close>

definition closePendingFds :: "proc \<Rightarrow> proc sysm" where
  "closePendingFds s =
    foldr (\<lambda>p k. OsClose (ufd p) k) (iUnused (inode s)) (Ret (upd_inode s (iUnused_update (\<lambda>_. []))))"

text \<open>The part for \<^verbatim>\<open>NO_LOCK\<close>: the counters, and the release of the bytes by the last handle.\<close>

definition posixUnlock_none :: "proc \<Rightarrow> nat \<Rightarrow> (rc \<times> proc) sysm" where
  "posixUnlock_none s f =
    (let s = upd_inode s (\<lambda>i. i\<lparr>nShared := nShared i - 1\<rparr>) in
     sbind (if nShared (inode s) = 0 then
              sbind (unixFileLock s f \<lparr>l_type = F_UNLCK, l_start = 0, l_len = 0\<rparr>) (\<lambda>(e, s).
                case e of
                  None \<Rightarrow> Ret (SQLITE_OK, upd_inode s (iFileLock_update (\<lambda>_. NO_LOCK)))
                | Some err \<Rightarrow>
                    Ret (SQLITE_IOERR_UNLOCK,
                      upd_file (upd_inode s (iFileLock_update (\<lambda>_. NO_LOCK))) f
                        (\<lambda>x. x\<lparr>lastErrno := Some err, eFileLock := NO_LOCK\<rparr>)))
            else Ret (SQLITE_OK, s)) (\<lambda>(rc, s).
       let s = upd_inode s (\<lambda>i. i\<lparr>nLock := nLock i - 1\<rparr>) in
       assertm (0 \<le> nLock (inode s))
         (sbind (if nLock (inode s) = 0 then closePendingFds s else Ret s) (\<lambda>s. Ret (rc, s)))))"

text \<open>The pending and the reserved byte, which are neighbours.\<close>

definition drop_pending :: "proc \<Rightarrow> nat \<Rightarrow> (bool \<times> rc \<times> proc) sysm" where
  "drop_pending s f =
    assertm (PENDING_BYTE + 1 = RESERVED_BYTE)
      (sbind (unixFileLock s f \<lparr>l_type = F_UNLCK, l_start = PENDING_BYTE, l_len = 2\<rparr>) (\<lambda>(e, s).
         Ret (case e of
             None \<Rightarrow> (True, SQLITE_OK, upd_inode s (iFileLock_update (\<lambda>_. SHARED_LOCK)))
           | Some err \<Rightarrow> (False, SQLITE_IOERR_UNLOCK, upd_file s f (lastErrno_update (\<lambda>_. Some err))))))"

text \<open>
  The part for a handle above \<^verbatim>\<open>SHARED\<close>: the shared bytes back to a read lock if it keeps
  \<^verbatim>\<open>SHARED\<close>, then the other two. The first component tells whether the routine goes on.
\<close>

definition posixUnlock_write :: "proc \<Rightarrow> nat \<Rightarrow> nat \<Rightarrow> (bool \<times> rc \<times> proc) sysm" where
  "posixUnlock_write s f lvl =
    (if lvl = SHARED_LOCK then
       sbind (unixFileLock s f \<lparr>l_type = F_RDLCK, l_start = SHARED_FIRST, l_len = SHARED_SIZE\<rparr>) (\<lambda>(e, s).
         case e of
           Some err \<Rightarrow>
             Ret (False, SQLITE_IOERR_RDLOCK, upd_file s f (lastErrno_update (\<lambda>_. Some err)))
         | None \<Rightarrow> drop_pending s f)
     else drop_pending s f)"

definition posixUnlock :: "proc \<Rightarrow> nat \<Rightarrow> nat \<Rightarrow> bool \<Rightarrow> (rc \<times> proc) sysm" where
  "posixUnlock s f lvl handleNFSUnlock =
    assertm (lvl \<le> SHARED_LOCK)
      (if eFileLock (handle s f) \<le> lvl then Ret (SQLITE_OK, s)
       else
         assertm (nShared (inode s) \<noteq> 0)
           (sbind (if SHARED_LOCK < eFileLock (handle s f) then
                     assertm (iFileLock (inode s) = eFileLock (handle s f))
                       (assertm (lvl = SHARED_LOCK \<longrightarrow> \<not> handleNFSUnlock) (posixUnlock_write s f lvl))
                   else Ret (True, SQLITE_OK, s)) (\<lambda>(go, rc, s).
              sbind (if go \<and> lvl = NO_LOCK then posixUnlock_none s f else Ret (rc, s)) (\<lambda>(rc, s).
                Ret (rc, if rc = SQLITE_OK then upd_file s f (eFileLock_update (\<lambda>_. lvl)) else s)))))"

definition unixUnlock :: "proc \<Rightarrow> nat \<Rightarrow> nat \<Rightarrow> (rc \<times> proc) sysm" where
  "unixUnlock s f lvl = posixUnlock s f lvl False"

section \<open>Opening and closing\<close>

definition findReusableFd :: "proc \<Rightarrow> nat \<Rightarrow> UnixUnusedFd option \<times> proc" where
  "findReusableFd s flags =
    (case pInode s of
       None \<Rightarrow> (None, s)
     | Some i \<Rightarrow>
         let before = takeWhile (\<lambda>u. uflags u \<noteq> flags) (iUnused i);
             rest = dropWhile (\<lambda>u. uflags u \<noteq> flags) (iUnused i)
         in case rest of
              [] \<Rightarrow> (None, s)
            | u # us \<Rightarrow> (Some u, upd_inode s (iUnused_update (\<lambda>_. before @ us))))"

definition findInodeInfo :: "proc \<Rightarrow> proc" where
  "findInodeInfo s =
    (case pInode s of
       None \<Rightarrow> s\<lparr>pInode := Some \<lparr>nShared = 0, iFileLock = 0, bProcessLock = False, nRef = 1,
                                   nLock = 0, iUnused = []\<rparr>\<rparr>
     | Some i \<Rightarrow> upd_inode s (\<lambda>i. i\<lparr>nRef := nRef i + 1\<rparr>))"

text \<open>
  The part of opening a database that concerns locks: a waiting descriptor with the same flags
  is taken over, otherwise the system gives a new one, \<open>fd\<close>.
\<close>

definition open_file :: "proc \<Rightarrow> nat \<Rightarrow> int \<Rightarrow> nat \<Rightarrow> u16 \<Rightarrow> proc" where
  "open_file s f fd flags ctrl =
    (let (r, s) = findReusableFd s flags;
         fd = (case r of Some u \<Rightarrow> ufd u | None \<Rightarrow> fd);
         s = findInodeInfo s
     in s\<lparr>pFiles := (pFiles s)(f \<mapsto> \<lparr>fh = fd, eFileLock = 0, ctrlFlags = ctrl, lastErrno = None,
          pUnused = Some \<lparr>ufd = fd, uflags = flags\<rparr>\<rparr>)\<rparr>)"

definition setPendingFd :: "proc \<Rightarrow> nat \<Rightarrow> proc" where
  "setPendingFd s f =
    upd_file
      (upd_inode s (\<lambda>i. i\<lparr>iUnused :=
         (case pUnused (handle s f) of Some p \<Rightarrow> p # iUnused i | None \<Rightarrow> iUnused i)\<rparr>))
      f (\<lambda>x. x\<lparr>fh := -1, pUnused := None\<rparr>)"

definition releaseInodeInfo :: "proc \<Rightarrow> proc sysm" where
  "releaseInodeInfo s =
    (let s = upd_inode s (\<lambda>i. i\<lparr>nRef := nRef i - 1\<rparr>) in
     if nRef (inode s) = 0 then sbind (closePendingFds s) (\<lambda>s. Ret (s\<lparr>pInode := None\<rparr>))
     else Ret s)"

definition closeUnixFile :: "proc \<Rightarrow> nat \<Rightarrow> (rc \<times> proc) sysm" where
  "closeUnixFile s f =
    (let r = Ret (SQLITE_OK, s\<lparr>pFiles := (pFiles s)(f := None)\<rparr>) in
     if 0 \<le> fh (handle s f) then OsClose (fh (handle s f)) r else r)"

definition unixClose :: "proc \<Rightarrow> nat \<Rightarrow> (rc \<times> proc) sysm" where
  "unixClose s f =
    sbind (unixUnlock s f NO_LOCK) (\<lambda>(_, s).
      assertm (0 < nLock (inode s) \<or> \<not> bProcessLock (inode s))
        (let s = (if nLock (inode s) \<noteq> 0 then setPendingFd s f else s) in
         sbind (releaseInodeInfo s) (\<lambda>s. closeUnixFile s f)))"

end
