(* ===== verification/LockSafe.thy ===== *)
theory LockSafe
  imports UnixLock
begin

text \<open>
  Mutual exclusion of the lock levels of \<^verbatim>\<open>os_unix.c\<close> between any number of processes, each with
  any number of handles. The processes are interleaved at every system call, and every call may
  fail. The proof is a rely-guarantee argument: \<open>lsafe\<close> checks a routine against what its own
  process holds, and promises to the others never to take a shared lock past a pending one.
\<close>

section \<open>The operating system\<close>

text \<open>
  The advisory locks of the operating system are a parameter: a state, the calls, and the lock
  that a process holds on a byte.
\<close>

record 'os posix =
  p_setlk :: "nat \<Rightarrow> int \<Rightarrow> flock \<Rightarrow> 'os \<Rightarrow> errno option \<times> 'os"
  p_getlk :: "nat \<Rightarrow> int \<Rightarrow> flock \<Rightarrow> 'os \<Rightarrow> errno option \<times> ltype"
  p_close :: "nat \<Rightarrow> int \<Rightarrow> 'os \<Rightarrow> 'os"
  p_held :: "'os \<Rightarrow> nat \<Rightarrow> nat \<Rightarrow> ltype"

definition apply_lock :: "(nat \<Rightarrow> ltype) \<Rightarrow> flock \<Rightarrow> nat \<Rightarrow> ltype" where
  "apply_lock v l = (\<lambda>b. if covers l b then l_type l else v b)"

definition compatible :: "ltype \<Rightarrow> ltype \<Rightarrow> bool" where
  "compatible t u \<longleftrightarrow> t = F_UNLCK \<or> u = F_UNLCK \<or> t = F_RDLCK \<and> u = F_RDLCK"

text \<open>
  What POSIX documents: a request that succeeds replaces the caller's locks on the range and was
  compatible with those of all other processes, one that fails changes nothing, and closing any
  descriptor of the file drops the caller's locks (or fails and keeps them).
\<close>

definition posix_ok :: "'os posix \<Rightarrow> bool" where
  "posix_ok api \<longleftrightarrow>
    (\<forall>p fd l os os'. p_setlk api p fd l os = (None, os') \<longrightarrow>
       p_held api os' = (p_held api os)(p := apply_lock (p_held api os p) l) \<and>
       (\<forall>q b. q \<noteq> p \<longrightarrow> covers l b \<longrightarrow> compatible (l_type l) (p_held api os q b))) \<and>
    (\<forall>p fd l os os' e. p_setlk api p fd l os = (Some e, os') \<longrightarrow> p_held api os' = p_held api os) \<and>
    (\<forall>p fd os. p_held api (p_close api p fd os) = p_held api os \<or>
       p_held api (p_close api p fd os) = (p_held api os)(p := (\<lambda>_. F_UNLCK)))"

section \<open>Calls and steps\<close>

datatype call = Open nat int nat u16 | Lock nat nat | Unlock nat nat | CheckReserved nat | Close nat

definition level :: "proc \<Rightarrow> nat \<Rightarrow> nat" where
  "level s f = (case pFiles s f of None \<Rightarrow> 0 | Some x \<Rightarrow> eFileLock x)"

fun run_call :: "proc \<Rightarrow> call \<Rightarrow> (rc \<times> proc) sysm" where
  "run_call s (Open f fd flags ctrl) = Ret (SQLITE_OK, open_file s f fd flags ctrl)"
| "run_call s (Lock f lvl) = unixLock s f lvl"
| "run_call s (Unlock f lvl) = unixUnlock s f lvl"
| "run_call s (CheckReserved f) = sbind (unixCheckReservedLock s f) (\<lambda>(rc, _, s). Ret (rc, s))"
| "run_call s (Close f) = unixClose s f"

text \<open>
  The protocol of the callers: levels are taken in order, \<^verbatim>\<open>PENDING\<close> is never asked for. The
  connections of a process are all \<^verbatim>\<open>unix-excl\<close> and writable (\<open>excl\<close>), or none is \<^verbatim>\<open>unix-excl\<close>.
\<close>

fun call_ok :: "proc \<Rightarrow> call \<Rightarrow> bool" where
  "call_ok s (Open f fd flags ctrl) \<longleftrightarrow> pFiles s f = None"
| "call_ok s (Lock f lvl) \<longleftrightarrow> pFiles s f \<noteq> None \<and> lvl \<in> {SHARED_LOCK, RESERVED_LOCK, EXCLUSIVE_LOCK} \<and>
     (level s f < lvl \<longrightarrow> (level s f = NO_LOCK \<longrightarrow> lvl = SHARED_LOCK) \<and>
       (lvl = RESERVED_LOCK \<longrightarrow> level s f = SHARED_LOCK))"
| "call_ok s (Unlock f lvl) \<longleftrightarrow> pFiles s f \<noteq> None \<and> lvl \<le> SHARED_LOCK"
| "call_ok s (CheckReserved f) \<longleftrightarrow> pFiles s f \<noteq> None"
| "call_ok s (Close f) \<longleftrightarrow> pFiles s f \<noteq> None"

fun mode_ok :: "bool \<Rightarrow> call \<Rightarrow> bool" where
  "mode_ok excl (Open f fd flags ctrl) \<longleftrightarrow>
     (if excl then ctrl AND UNIXFILE_EXCL \<noteq> 0 \<and> ctrl AND UNIXFILE_RDONLY = 0
      else ctrl AND UNIXFILE_EXCL = 0)"
| "mode_ok excl _ \<longleftrightarrow> True"

text \<open>Every process is idle between calls, with its last result, or in the middle of a routine.\<close>

record 'os lsys =
  osys :: 'os
  progs :: "nat \<Rightarrow> (rc \<times> proc) sysm"

definition goto_prog :: "'os lsys \<Rightarrow> nat \<Rightarrow> (rc \<times> proc) sysm \<Rightarrow> 'os lsys" where
  "goto_prog s p m = s\<lparr>progs := (progs s)(p := m)\<rparr>"

inductive lock_step :: "'os posix \<Rightarrow> (nat \<Rightarrow> call \<Rightarrow> bool) \<Rightarrow> 'os lsys \<Rightarrow> 'os lsys \<Rightarrow> bool" for api ok where
  start: "progs s p = Ret (r, a) \<Longrightarrow> call_ok a c \<Longrightarrow> ok p c \<Longrightarrow>
    lock_step api ok s (goto_prog s p (run_call a c))"
| setlk: "progs s p = Setlk fd l k \<Longrightarrow> p_setlk api p fd l (osys s) = (e, os') \<Longrightarrow>
    lock_step api ok s ((goto_prog s p (k e))\<lparr>osys := os'\<rparr>)"
| getlk: "progs s p = Getlk fd l k \<Longrightarrow> p_getlk api p fd l (osys s) = r \<Longrightarrow>
    lock_step api ok s (goto_prog s p (k r))"
| close: "progs s p = OsClose fd k \<Longrightarrow>
    lock_step api ok s ((goto_prog s p k)\<lparr>osys := p_close api p fd (osys s)\<rparr>)"

definition idle :: "(rc \<times> proc) sysm" where
  "idle = Ret (SQLITE_OK, \<lparr>pInode = None, pFiles = Map.empty\<rparr>)"

inductive lock_reach :: "'os posix \<Rightarrow> (nat \<Rightarrow> call \<Rightarrow> bool) \<Rightarrow> 'os \<Rightarrow> 'os lsys \<Rightarrow> bool" for api ok os0 where
  init: "lock_reach api ok os0 \<lparr>osys = os0, progs = \<lambda>_. idle\<rparr>"
| step: "lock_reach api ok os0 s \<Longrightarrow> lock_step api ok s t \<Longrightarrow> lock_reach api ok os0 t"

section \<open>Local safety of a routine\<close>

text \<open>
  A barrier keeps every other process away from the shared bytes once there is none on them. The
  flag \<open>x\<close> says that there is none.
\<close>

definition barrier :: "(nat \<Rightarrow> ltype) \<Rightarrow> bool" where
  "barrier v \<longleftrightarrow> v SHARED_FIRST = F_WRLCK \<or> v SHARED_FIRST \<noteq> F_UNLCK \<and> v PENDING_BYTE = F_WRLCK"

definition alone :: "bool \<Rightarrow> (nat \<Rightarrow> ltype) \<Rightarrow> flock \<Rightarrow> bool" where
  "alone x v l \<longleftrightarrow> barrier (apply_lock v l) \<and> (x \<or> l_type l = F_WRLCK \<and> covers l SHARED_FIRST)"

definition fair :: "(nat \<Rightarrow> ltype) \<Rightarrow> flock \<Rightarrow> bool" where
  "fair v l \<longleftrightarrow> (l_type l = F_RDLCK \<and> covers l SHARED_FIRST \<longrightarrow>
     v PENDING_BYTE \<noteq> F_UNLCK \<or> v SHARED_FIRST \<noteq> F_UNLCK)"

primrec lsafe :: "(bool \<Rightarrow> (nat \<Rightarrow> ltype) \<Rightarrow> 'a \<Rightarrow> bool) \<Rightarrow> bool \<Rightarrow> (nat \<Rightarrow> ltype) \<Rightarrow> 'a sysm \<Rightarrow> bool" where
  "lsafe Q x v (Ret a) \<longleftrightarrow> Q x v a"
| "lsafe Q x v Abort \<longleftrightarrow> False"
| "lsafe Q x v (Setlk fd l k) \<longleftrightarrow> fair v l \<and> (\<forall>e. lsafe Q x v (k (Some e))) \<and>
     lsafe Q (alone x v l) (apply_lock v l) (k None)"
| "lsafe Q x v (Getlk fd l k) \<longleftrightarrow> (\<forall>r. lsafe Q x v (k r))"
| "lsafe Q x v (OsClose fd k) \<longleftrightarrow> lsafe Q x v k \<and> lsafe Q False (\<lambda>_. F_UNLCK) k"

lemma lsafe_sbind [simp]: "lsafe Q x v (sbind m k) \<longleftrightarrow> lsafe (\<lambda>x v a. lsafe Q x v (k a)) x v m"
  by (induction m arbitrary: x v) simp_all

lemma lsafe_assertm [simp]: "lsafe Q x v (assertm b m) \<longleftrightarrow> b \<and> lsafe Q x v m"
  by (simp add: assertm_def)

lemma lsafe_mono: "lsafe P x v m \<Longrightarrow> (\<And>x v a. P x v a \<Longrightarrow> Q x v a) \<Longrightarrow> lsafe Q x v m"
  by (induction m arbitrary: x v) auto

section \<open>The global invariant\<close>

definition lock_inv :: "'os posix \<Rightarrow> (nat \<Rightarrow> bool \<Rightarrow> (nat \<Rightarrow> ltype) \<Rightarrow> rc \<times> proc \<Rightarrow> bool) \<Rightarrow> 'os lsys \<Rightarrow> bool" where
  "lock_inv api I s \<longleftrightarrow>
    (\<forall>p q b. p \<noteq> q \<longrightarrow> compatible (p_held api (osys s) p b) (p_held api (osys s) q b)) \<and>
    (\<exists>x. \<forall>p. lsafe (I p) (x p) (p_held api (osys s) p) (progs s p) \<and>
       (x p \<longrightarrow> barrier (p_held api (osys s) p) \<and>
          (\<forall>q. q \<noteq> p \<longrightarrow> p_held api (osys s) q SHARED_FIRST = F_UNLCK)))"

lemma posix_setlk:
  assumes "posix_ok api" "p_setlk api p fd l os = (e, os')"
  shows "e = None \<Longrightarrow> p_held api os' = (p_held api os)(p := apply_lock (p_held api os p) l)"
    and "e = None \<Longrightarrow> q \<noteq> p \<Longrightarrow> covers l b \<Longrightarrow> compatible (l_type l) (p_held api os q b)"
    and "e \<noteq> None \<Longrightarrow> p_held api os' = p_held api os"
proof -
  show "e = None \<Longrightarrow> p_held api os' = (p_held api os)(p := apply_lock (p_held api os p) l)"
    using assms unfolding posix_ok_def by blast
  show "e = None \<Longrightarrow> q \<noteq> p \<Longrightarrow> covers l b \<Longrightarrow> compatible (l_type l) (p_held api os q b)"
    using assms unfolding posix_ok_def by blast
  show "e \<noteq> None \<Longrightarrow> p_held api os' = p_held api os"
    using assms unfolding posix_ok_def by blast
qed

lemma compatible_sym: "compatible t u \<longleftrightarrow> compatible u t"
  by (auto simp: compatible_def)

lemma lock_inv_setlk:
  assumes ok: "posix_ok api" and inv: "lock_inv api I s"
    and prog: "progs s p = Setlk fd l k" and os: "p_setlk api p fd l (osys s) = (e, os')"
  shows "lock_inv api I ((goto_prog s p (k e))\<lparr>osys := os'\<rparr>)"
proof -
  note os = posix_setlk [OF ok os]
  let ?h = "p_held api (osys s)"
  from inv obtain x where
    comp: "\<And>p q b. p \<noteq> q \<Longrightarrow> compatible (?h p b) (?h q b)" and
    ls: "\<And>p. lsafe (I p) (x p) (?h p) (progs s p)" and
    xb: "\<And>p. x p \<Longrightarrow> barrier (?h p)" and
    xo: "\<And>p q. x p \<Longrightarrow> q \<noteq> p \<Longrightarrow> ?h q SHARED_FIRST = F_UNLCK"
    unfolding lock_inv_def by blast
  note lp = ls [of p, unfolded prog lsafe.simps]
  show ?thesis
  proof (cases e)
    case (Some err)
    then have "p_held api os' = ?h" using os(3) by simp
    then show ?thesis using Some comp ls lp xb xo
      unfolding lock_inv_def by (intro conjI exI [of _ x]) (simp_all add: goto_prog_def)
  next
    case None
    let ?v = "apply_lock (?h p) l"
    let ?x = "x(p := alone (x p) (?h p) l)"
    have h': "p_held api os' = ?h(p := ?v)" using os(1) None by simp
    have cp: "compatible (l_type l) (?h q b)" if "q \<noteq> p" "covers l b" for q b using os(2) None that by simp
    have comp': "compatible (?v b) (?h q b)" if "q \<noteq> p" for q b
      using cp that comp [of p q b] by (auto simp: apply_lock_def)
    have mine: "?h q SHARED_FIRST = F_UNLCK" if "q \<noteq> p" "alone (x p) (?h p) l" for q
      using that xo [of p q] cp [of q SHARED_FIRST] by (auto simp: alone_def compatible_def)
    have yours: "?v SHARED_FIRST = F_UNLCK" if "q \<noteq> p" "x q" for q
    proof (cases "covers l SHARED_FIRST")
      case True
      have u: "?h p SHARED_FIRST = F_UNLCK" using xo [of q p] that by simp
      have b: "barrier (?h q)" using xb that by simp
      have "l_type l \<noteq> F_WRLCK"
        using cp [OF that(1) True] b by (auto simp: compatible_def barrier_def)
      moreover have "l_type l \<noteq> F_RDLCK"
      proof
        assume rd: "l_type l = F_RDLCK"
        then have "?h p PENDING_BYTE \<noteq> F_UNLCK" using lp True u by (auto simp: fair_def)
        then have "?h q PENDING_BYTE \<noteq> F_WRLCK" using comp [of q p PENDING_BYTE] that by (auto simp: compatible_def)
        then have "?h q SHARED_FIRST = F_WRLCK" using b by (auto simp: barrier_def)
        then show False using cp [OF that(1) True] rd by (simp add: compatible_def)
      qed
      ultimately have "l_type l = F_UNLCK" by (cases "l_type l") auto
      then show ?thesis using True by (simp add: apply_lock_def)
    next
      case False
      then show ?thesis using xo [of q p] that by (simp add: apply_lock_def)
    qed
    show ?thesis
      unfolding lock_inv_def
    proof (intro conjI allI impI exI [of _ ?x])
      fix q r b assume "q \<noteq> (r::nat)"
      then show "compatible (p_held api (osys ((goto_prog s p (k e))\<lparr>osys := os'\<rparr>)) q b)
          (p_held api (osys ((goto_prog s p (k e))\<lparr>osys := os'\<rparr>)) r b)"
        using comp comp' by (cases "q = p"; cases "r = p") (simp_all add: h' compatible_sym)
    next
      fix q
      show "lsafe (I q) (?x q) (p_held api (osys ((goto_prog s p (k e))\<lparr>osys := os'\<rparr>)) q)
          (progs ((goto_prog s p (k e))\<lparr>osys := os'\<rparr>) q)"
        using ls [of q] lp None by (cases "q = p") (simp_all add: h' goto_prog_def)
      assume "?x q"
      then show "barrier (p_held api (osys ((goto_prog s p (k e))\<lparr>osys := os'\<rparr>)) q)"
        using xb [of q] by (cases "q = p") (simp_all add: h' alone_def)
      fix r assume "r \<noteq> q"
      with \<open>?x q\<close> show "p_held api (osys ((goto_prog s p (k e))\<lparr>osys := os'\<rparr>)) r SHARED_FIRST = F_UNLCK"
        using xo [of q r] mine [of r] yours [of q] by (cases "q = p"; cases "r = p") (simp_all add: h')
    qed
  qed
qed

lemma lock_inv_close:
  assumes ok: "posix_ok api" and inv: "lock_inv api I s" and prog: "progs s p = OsClose fd k"
  shows "lock_inv api I ((goto_prog s p k)\<lparr>osys := p_close api p fd (osys s)\<rparr>)"
proof -
  let ?h = "p_held api (osys s)" and ?h' = "p_held api (p_close api p fd (osys s))"
  from inv obtain x where
    comp: "\<And>p q b. p \<noteq> q \<Longrightarrow> compatible (?h p b) (?h q b)" and
    ls: "\<And>p. lsafe (I p) (x p) (?h p) (progs s p)" and
    xb: "\<And>p. x p \<Longrightarrow> barrier (?h p)" and
    xo: "\<And>p q. x p \<Longrightarrow> q \<noteq> p \<Longrightarrow> ?h q SHARED_FIRST = F_UNLCK"
    unfolding lock_inv_def by blast
  note lp = ls [of p, unfolded prog lsafe.simps]
  have "?h' = ?h \<or> ?h' = ?h(p := (\<lambda>_. F_UNLCK))" using ok by (simp add: posix_ok_def)
  then show ?thesis
  proof
    assume "?h' = ?h"
    then show ?thesis using comp ls lp xb xo
      unfolding lock_inv_def by (intro conjI exI [of _ x]) (simp_all add: goto_prog_def)
  next
    assume h: "?h' = ?h(p := (\<lambda>_. F_UNLCK))"
    then show ?thesis using comp ls lp xb xo
      unfolding lock_inv_def
      by (intro conjI exI [of _ "x(p := False)"]) (simp_all add: goto_prog_def compatible_def)
  qed
qed

end
