(* ===== verification/LockInv.thy ===== *)
theory LockInv
  imports LockSafe
begin

text \<open>
  The invariant of one process between its routines, and that every routine of the locking layer
  keeps it, whatever the system calls return and whatever the other processes do in between.
\<close>

declare One_nat_def [simp del]

section \<open>Reading the state after an update\<close>

lemma upd_simps [simp]:
  "inode (upd_inode s g) = g (inode s)" "inode (upd_file s f k) = inode s"
  "pInode (upd_inode s g) = Some (g (inode s))" "pInode (upd_file s f k) = pInode s"
  "pFiles (upd_inode s g) = pFiles s" "pFiles (upd_file s f k) = (pFiles s)(f \<mapsto> k (handle s f))"
  "handle (upd_inode s g) f = handle s f" "handle (upd_file s f k) f = k (handle s f)"
  by (simp_all add: upd_inode_def upd_file_def inode_def handle_def)

lemma level_upd [simp]:
  "level (upd_inode s g) = level s" "level (upd_file s f k) = (level s)(f := eFileLock (k (handle s f)))"
  by (auto simp: level_def fun_eq_iff)

lemma handle_level: "pFiles s f = Some y \<Longrightarrow> eFileLock (handle s f) = level s f"
  by (simp add: handle_def level_def)

section \<open>The invariant of a process\<close>

definition holders :: "(nat \<Rightarrow> nat) \<Rightarrow> nat set" where "holders lv = {f. 0 < lv f}"

lemma holders_upd: "holders (lv(f := k)) = (if 0 < k then insert f (holders lv) else holders lv - {f})"
  by (auto simp: holders_def)

text \<open>
  The counters of the inode agree with the levels of the handles. After a failed release the
  inode may count a handle that is gone, so \<^verbatim>\<open>nShared\<close> is only an upper bound.
\<close>

definition counts :: "unixInodeInfo \<Rightarrow> (nat \<Rightarrow> nat) \<Rightarrow> bool" where
  "counts i lv \<longleftrightarrow>
    finite (holders lv) \<and> int (card (holders lv)) \<le> nShared i \<and>
    nLock i = nShared i + of_bool (bProcessLock i) \<and>
    (iFileLock i = 0 \<longleftrightarrow> nShared i = 0) \<and>
    (\<forall>f. lv f \<le> 4 \<and> (1 < lv f \<longrightarrow> lv f = iFileLock i \<and> (\<forall>g. g \<noteq> f \<longrightarrow> lv g \<le> 1)) \<and>
         (lv f = 4 \<longrightarrow> nShared i = 1))"

text \<open>What the levels mean for the locks that the process holds.\<close>

definition claims :: "bool \<Rightarrow> bool \<Rightarrow> (nat \<Rightarrow> ltype) \<Rightarrow> unixInodeInfo \<Rightarrow> (nat \<Rightarrow> nat) \<Rightarrow> bool" where
  "claims excl x v i lv \<longleftrightarrow>
    (if excl then
       (bProcessLock i \<longrightarrow> v SHARED_FIRST = F_WRLCK \<and> x) \<and> (\<not> bProcessLock i \<longrightarrow> nShared i = 0)
     else \<not> bProcessLock i \<and> (0 < nShared i \<longrightarrow> v SHARED_FIRST \<noteq> F_UNLCK) \<and>
       (\<forall>f. (lv f = 2 \<longrightarrow> v RESERVED_BYTE = F_WRLCK) \<and>
            (3 \<le> lv f \<longrightarrow> v PENDING_BYTE = F_WRLCK) \<and> (lv f = 4 \<longrightarrow> x)))"

definition flags_ok :: "bool \<Rightarrow> u16 \<Rightarrow> bool" where
  "flags_ok excl c \<longleftrightarrow> mode_ok excl (Open 0 0 0 c)"

definition files_ok :: "bool \<Rightarrow> proc \<Rightarrow> bool" where
  "files_ok excl s \<longleftrightarrow> pInode s \<noteq> None \<and> finite (dom (pFiles s)) \<and>
     nRef (inode s) = int (card (dom (pFiles s))) \<and>
     (\<forall>f y. pFiles s f = Some y \<longrightarrow> flags_ok excl (ctrlFlags y))"

definition pinv :: "bool \<Rightarrow> bool \<Rightarrow> (nat \<Rightarrow> ltype) \<Rightarrow> proc \<Rightarrow> bool" where
  "pinv excl x v s \<longleftrightarrow>
    (if pInode s = None then pFiles s = Map.empty
     else files_ok excl s \<and> counts (inode s) (level s) \<and> claims excl x v (inode s) (level s))"

lemma countsD:
  assumes "counts i lv"
  shows "finite (holders lv)" "int (card (holders lv)) \<le> nShared i" "nLock i = nShared i + of_bool (bProcessLock i)"
    "iFileLock i = 0 \<longleftrightarrow> nShared i = 0" "lv f \<le> 4" "1 < lv f \<Longrightarrow> lv f = iFileLock i"
    "1 < lv f \<Longrightarrow> g \<noteq> f \<Longrightarrow> lv g \<le> 1" "lv f = 4 \<Longrightarrow> nShared i = 1" "0 \<le> nShared i"
  using assms by (auto simp: counts_def)

lemma counts_one:
  assumes c: "counts i lv" "0 < lv f"
  shows "0 < nShared i" "nShared i = 1 \<Longrightarrow> g \<noteq> f \<Longrightarrow> lv g = 0"
proof -
  have f: "f \<in> holders lv" using c by (simp add: holders_def)
  then have "0 < card (holders lv)" using countsD(1) [OF c(1)] by (auto simp: card_gt_0_iff)
  then show "0 < nShared i" using countsD(2) [OF c(1)] by linarith
  assume n: "nShared i = 1" "g \<noteq> f"
  show "lv g = 0"
  proof (rule ccontr)
    assume "lv g \<noteq> 0"
    then have "{f, g} \<subseteq> holders lv" using f by (simp add: holders_def)
    then have "card {f, g} \<le> card (holders lv)" using countsD(1) [OF c(1)] by (intro card_mono)
    then show False using n countsD(2) [OF c(1)] by simp
  qed
qed

lemma counts_zero: "counts i lv \<Longrightarrow> nShared i = 0 \<Longrightarrow> lv f = 0"
  using counts_one(1) [of i lv f] by auto

text \<open>The one step that all routines take: a new level for a handle, with new counters.\<close>

lemma counts_upd:
  assumes c: "counts i lv" and k: "k \<le> 4" "1 < k \<Longrightarrow> k = iFileLock i' \<and> (\<forall>g. g \<noteq> f \<longrightarrow> lv g \<le> 1)"
      "k = 4 \<Longrightarrow> nShared i' = 1"
    and n: "nLock i' = nShared i' + of_bool (bProcessLock i')" "iFileLock i' = 0 \<longleftrightarrow> nShared i' = 0"
      "nShared i + of_bool (0 < k) \<le> nShared i' + of_bool (0 < lv f)"
    and o: "\<And>g. g \<noteq> f \<Longrightarrow> 1 < lv g \<Longrightarrow> iFileLock i' = iFileLock i \<and> k \<le> 1"
      "\<And>g. g \<noteq> f \<Longrightarrow> lv g = 4 \<Longrightarrow> nShared i' = 1"
  shows "counts i' (lv(f := k))"
proof -
  note cd = countsD [OF c]
  have mem: "f \<in> holders lv \<longleftrightarrow> 0 < lv f" by (simp add: holders_def)
  have "f \<in> holders lv \<Longrightarrow> card (holders lv) \<noteq> 0" using cd(1) by auto
  then have "f \<in> holders lv \<Longrightarrow> int (card (holders lv) - Suc 0) = int (card (holders lv)) - 1" by simp
  then have "int (card (holders (lv(f := k)))) \<le> nShared i'"
    using cd(1,2) n(3) mem by (cases "0 < lv f"; cases "0 < k") (auto simp: holders_upd insert_absorb card_Diff_singleton)
  moreover have "(lv(f := k)) g \<le> 4 \<and> (1 < (lv(f := k)) g \<longrightarrow> (lv(f := k)) g = iFileLock i' \<and>
      (\<forall>g'. g' \<noteq> g \<longrightarrow> (lv(f := k)) g' \<le> 1)) \<and> ((lv(f := k)) g = 4 \<longrightarrow> nShared i' = 1)" for g
  proof (cases "g = f")
    case True
    then show ?thesis using k by simp
  next
    case False
    then show ?thesis using cd(5,6,7) [of g] o [of g] by simp
  qed
  moreover have "finite (holders (lv(f := k)))" using cd(1) by (simp add: holders_upd)
  ultimately show ?thesis using n(1,2) unfolding counts_def by blast
qed

lemma top_others:
  assumes c: "counts i lv" and l: "lv f \<noteq> 0" "lv f = iFileLock i" and g: "g \<noteq> f"
  shows "lv g \<le> 1"
  using countsD(6) [OF c, of g] countsD(7) [OF c, of g f] countsD(7) [OF c, of f g] g l
  by (cases "1 < lv g"; cases "1 < lv f") auto

lemma counts_write:
  assumes c: "counts i lv" and l: "lv f \<noteq> 0" "lv f = iFileLock i"
    and k: "0 < k" "k \<le> 4" "k = 4 \<Longrightarrow> nShared i = 1"
  shows "counts (i\<lparr>iFileLock := k\<rparr>) (lv(f := k))"
proof -
  have "0 < nShared i" using counts_one(1) [OF c, of f] l by simp
  then show ?thesis
    using countsD(3) [OF c] top_others [OF c l] l k by (intro counts_upd [OF c]) (auto dest: top_others [OF c l])
qed

text \<open>Nothing but the counters and the handle \<open>f\<close> may differ.\<close>

definition frame :: "proc \<Rightarrow> proc \<Rightarrow> bool" where
  "frame s t \<longleftrightarrow> pInode t \<noteq> None \<and> nRef (inode t) = nRef (inode s) \<and> dom (pFiles t) = dom (pFiles s) \<and>
     (\<forall>g. map_option ctrlFlags (pFiles t g) = map_option ctrlFlags (pFiles s g))"

lemma frame_refl: "pInode s \<noteq> None \<Longrightarrow> frame s s"
  by (simp add: frame_def)

lemma frame_upd_inode: "frame s t \<Longrightarrow> nRef (g (inode t)) = nRef (inode t) \<Longrightarrow> frame s (upd_inode t g)"
  by (simp add: frame_def)

lemma frame_upd_file:
  "frame s t \<Longrightarrow> pFiles t f \<noteq> None \<Longrightarrow> ctrlFlags (k (handle t f)) = ctrlFlags (handle t f) \<Longrightarrow> frame s (upd_file t f k)"
  unfolding frame_def by (cases "pFiles t f") (auto simp: handle_def dest: spec [of _ f])

lemma files_ok_frame: "files_ok excl s \<Longrightarrow> frame s t \<Longrightarrow> files_ok excl t"
proof -
  assume a: "files_ok excl s" "frame s t"
  have "flags_ok excl (ctrlFlags y)" if "pFiles t g = Some y" for g y
  proof -
    have "map_option ctrlFlags (pFiles s g) = Some (ctrlFlags y)" using a(2) that unfolding frame_def by (metis option.simps(9))
    then obtain z where "pFiles s g = Some z" "ctrlFlags z = ctrlFlags y" by auto
    then show ?thesis using a(1) unfolding files_ok_def by metis
  qed
  then show "files_ok excl t" using a by (simp add: files_ok_def frame_def)
qed

lemma pinvI:
  "files_ok excl s \<Longrightarrow> frame s t \<Longrightarrow> counts (inode t) (level t) \<Longrightarrow> claims excl x v (inode t) (level t) \<Longrightarrow>
    pinv excl x v t"
  using files_ok_frame by (auto simp: pinv_def frame_def)

section \<open>System locks\<close>

lemma covers_simps [simp]:
  "covers \<lparr>l_type = t, l_start = PENDING_BYTE, l_len = 1\<rparr> b \<longleftrightarrow> b = PENDING_BYTE"
  "covers \<lparr>l_type = t, l_start = RESERVED_BYTE, l_len = 1\<rparr> b \<longleftrightarrow> b = RESERVED_BYTE"
  "covers \<lparr>l_type = t, l_start = PENDING_BYTE, l_len = 2\<rparr> b \<longleftrightarrow> b = PENDING_BYTE \<or> b = RESERVED_BYTE"
  "covers \<lparr>l_type = t, l_start = SHARED_FIRST, l_len = SHARED_SIZE\<rparr> SHARED_FIRST"
  "\<not> covers \<lparr>l_type = t, l_start = SHARED_FIRST, l_len = SHARED_SIZE\<rparr> PENDING_BYTE"
  "\<not> covers \<lparr>l_type = t, l_start = SHARED_FIRST, l_len = SHARED_SIZE\<rparr> RESERVED_BYTE"
  "covers \<lparr>l_type = t, l_start = 0, l_len = 0\<rparr> b"
  by (auto simp: covers_def PENDING_BYTE_def RESERVED_BYTE_def SHARED_FIRST_def SHARED_SIZE_def)

lemma bytes_distinct [simp]:
  "PENDING_BYTE \<noteq> RESERVED_BYTE" "RESERVED_BYTE \<noteq> PENDING_BYTE" "SHARED_FIRST \<noteq> PENDING_BYTE"
  "PENDING_BYTE \<noteq> SHARED_FIRST" "SHARED_FIRST \<noteq> RESERVED_BYTE" "RESERVED_BYTE \<noteq> SHARED_FIRST"
  by (simp_all add: PENDING_BYTE_def RESERVED_BYTE_def SHARED_FIRST_def)

lemma next_byte [simp]: "PENDING_BYTE + 1 = RESERVED_BYTE"
  by (simp add: RESERVED_BYTE_def)

lemmas lock_simps = apply_lock_def alone_def barrier_def fair_def claims_def

lemma claims_idle: "\<not> bProcessLock i \<Longrightarrow> nShared i = 0 \<Longrightarrow> (\<And>f. lv f = 0) \<Longrightarrow> claims False x v i lv"
  by (simp add: claims_def)

text \<open>\<^verbatim>\<open>unixFileLock\<close> on a plain handle passes the request on; under \<^verbatim>\<open>unix-excl\<close> it takes the process lock once.\<close>

lemma fileLock_plain:
  assumes "ctrlFlags (handle s f) AND UNIXFILE_EXCL = 0" "\<not> bProcessLock (inode s)"
  shows "lsafe Q x v (unixFileLock s f l) \<longleftrightarrow>
    fair v l \<and> (\<forall>e. Q x v (Some e, s)) \<and> Q (alone x v l) (apply_lock v l) (None, s)"
  using assms by (simp add: unixFileLock_def)

lemma fileLock_excl:
  assumes "ctrlFlags (handle s f) AND UNIXFILE_EXCL \<noteq> 0" "ctrlFlags (handle s f) AND UNIXFILE_RDONLY = 0"
  shows "lsafe Q x v (unixFileLock s f l) \<longleftrightarrow>
    (if bProcessLock (inode s) then Q x v (None, s)
     else nLock (inode s) = 0 \<and> (\<forall>e. Q x v (Some e, s)) \<and>
       Q True (apply_lock v \<lparr>l_type = F_WRLCK, l_start = SHARED_FIRST, l_len = SHARED_SIZE\<rparr>)
         (None, upd_inode s (\<lambda>i. i\<lparr>bProcessLock := True, nLock := nLock i + 1\<rparr>)))"
  using assms by (auto simp: unixFileLock_def lock_simps)

section \<open>Taking a lock on a plain handle\<close>

definition post :: "bool \<Rightarrow> proc \<Rightarrow> bool \<Rightarrow> (nat \<Rightarrow> ltype) \<Rightarrow> rc \<times> proc \<Rightarrow> bool" where
  "post excl s x v r \<longleftrightarrow> frame s (snd r) \<and> counts (inode (snd r)) (level (snd r)) \<and>
     claims excl x v (inode (snd r)) (level (snd r))"

lemma post_same:
  "pInode s \<noteq> None \<Longrightarrow> counts (inode s) (level s) \<Longrightarrow> claims excl x v (inode s) (level s) \<Longrightarrow>
    post excl s x v (rc, s)"
  by (simp add: post_def frame_refl)

lemma level_same: "pFiles s f = Some y \<Longrightarrow> (level s)(f := eFileLock (handle s f)) = level s"
  by (simp add: handle_level)

lemma errors_nonzero [simp]:
  "sqliteErrorFromPosixError e SQLITE_IOERR_LOCK \<noteq> 0" "SQLITE_IOERR_UNLOCK \<noteq> 0" "SQLITE_IOERR_RDLOCK \<noteq> 0"
  by (simp_all add: sqliteErrorFromPosixError_def SQLITE_IOERR_LOCK_def SQLITE_IOERR_UNLOCK_def
      SQLITE_IOERR_RDLOCK_def split: errno.split)

text \<open>Remembering an error number changes nothing.\<close>

lemma post_errno:
  "post excl s x v (rc, t) \<Longrightarrow> pFiles t f = Some y \<Longrightarrow> post excl s x v (rc', upd_file t f (lastErrno_update k))"
  by (simp add: post_def frame_upd_file level_same)

lemma post_rc: "post excl s x v (rc, t) \<Longrightarrow> post excl s x v (rc', t)"
  by (simp add: post_def)

lemma post_lock_error:
  "post excl s x v (rc, t) \<Longrightarrow> pFiles t f = Some y \<Longrightarrow> post excl s x v (lock_error t f err)"
  by (simp add: lock_error_def Let_def post_rc post_errno)

text \<open>An open handle of a process that uses no \<^verbatim>\<open>unix-excl\<close> connections.\<close>

definition plain :: "proc \<Rightarrow> nat \<Rightarrow> bool" where
  "plain s f \<longleftrightarrow> pFiles s f \<noteq> None \<and> pInode s \<noteq> None \<and>
     ctrlFlags (handle s f) AND UNIXFILE_EXCL = 0 \<and> \<not> bProcessLock (inode s) \<and> counts (inode s) (level s)"

lemma plainD:
  assumes "plain s f"
  shows "pFiles s f \<noteq> None" "pInode s \<noteq> None" "\<not> bProcessLock (inode s)" "counts (inode s) (level s)"
    "eFileLock (handle s f) = level s f"
    "lsafe Q x v (unixFileLock s f l) \<longleftrightarrow>
      fair v l \<and> (\<forall>e. Q x v (Some e, s)) \<and> Q (alone x v l) (apply_lock v l) (None, s)"
    "nLock (inode s) = nShared (inode s)"
  using assms fileLock_plain countsD(3) by (auto simp: plain_def handle_level)

lemma frame_set:
  assumes "pFiles s f \<noteq> None" "pInode s \<noteq> None"
    and "\<And>z. ctrlFlags (k z) = ctrlFlags z" "\<And>i. nRef (g i) = nRef i"
  shows "frame s (upd_inode (upd_file s f k) g)"
  using assms by (intro frame_upd_inode frame_upd_file frame_refl) simp_all

lemma lock_shared_plain:
  assumes p: "plain s f"
    and z: "nShared (inode s) = 0" "iFileLock (inode s) = 0" and v: "v PENDING_BYTE \<noteq> F_UNLCK"
  shows "lsafe (post False s) x v (unixLock_shared s f)"
proof -
  note pd = plainD [OF p]
  obtain y where y: "pFiles s f = Some y" using pd(1) by blast
  have l0: "level s g = 0" for g using counts_zero [OF pd(4) z(1)] .
  have idle: "post False s x' v' (rc, s)" for x' v' rc
    using pd by (intro post_same claims_idle l0 z)
  have new: "counts ((inode s)\<lparr>nLock := nLock (inode s) + 1, nShared := 1, iFileLock := 1\<rparr>) ((level s)(f := 1))"
    using pd(3,7) z l0 by (intro counts_upd [OF pd(4)]) simp_all
  have final: "post False s x' v'
      (0, upd_inode (upd_file s f (eFileLock_update (\<lambda>_. 1)))
        (\<lambda>i. i\<lparr>nLock := nLock i + 1, nShared := 1, iFileLock := 1\<rparr>))"
    if "v' SHARED_FIRST \<noteq> F_UNLCK" for x' v'
    using new pd(3) l0 that by (simp add: post_def frame_set pd(1,2) claims_def)
  show ?thesis
    using v z
    by (auto simp: unixLock_shared_def Let_def pd(6) fair_def apply_lock_def
        intro!: idle post_errno [OF idle y] final)
qed

text \<open>A \<^verbatim>\<open>RESERVED\<close> or \<^verbatim>\<open>EXCLUSIVE\<close> lock for the handle with the highest level.\<close>

lemma lock_write_plain:
  assumes p: "plain s f"
    and l: "level s f \<noteq> 0" "level s f = iFileLock (inode s)" and lvl: "lvl = 2 \<or> lvl = 4"
    and r: "lvl = 2 \<Longrightarrow> level s f = 1" and e: "lvl = 4 \<Longrightarrow> v PENDING_BYTE = F_WRLCK"
    and c: "claims False x v (inode s) (level s)" and l4: "level s f < 4"
  shows "lsafe (post False s) x v (unixLock_rest s f lvl)"
proof -
  note pd = plainD [OF p]
  note cd = countsD [OF pd(4)]
  obtain y where y: "pFiles s f = Some y" using pd(1) by blast
  note others = top_others [OF pd(4) l]
  have one: "0 < nShared (inode s)" using counts_one(1) [OF pd(4), of f] l by simp
  note new = counts_write [OF pd(4) l]
  have set: "post False s x' v' (rc, upd_inode (upd_file s f (eFileLock_update (\<lambda>_. k))) (iFileLock_update (\<lambda>_. k)))"
    if "0 < k" "k \<le> 4" "k = 4 \<Longrightarrow> nShared (inode s) = 1" "v' SHARED_FIRST \<noteq> F_UNLCK"
      "k = 2 \<Longrightarrow> v' RESERVED_BYTE = F_WRLCK" "3 \<le> k \<Longrightarrow> v' PENDING_BYTE = F_WRLCK" "k = 4 \<Longrightarrow> x'"
    for k x' v' rc
    using new [OF that(1-3)] that(4-) others pd(3)
    by (fastforce simp: post_def frame_set pd(1,2) claims_def)
  have same: "post False s x v (rc, s)" for rc using pd c by (intro post_same)
  have set_err: "post False s x' v' (rc, upd_inode (upd_file (upd_file s f (lastErrno_update m)) f
      (eFileLock_update (\<lambda>_. k))) (iFileLock_update (\<lambda>_. k)))"
    if "post False s x' v' (rc, upd_inode (upd_file s f (eFileLock_update (\<lambda>_. k))) (iFileLock_update (\<lambda>_. k)))"
    for k x' v' rc m
    using that pd(1,2) by (auto simp: post_def intro!: frame_upd_inode frame_upd_file frame_refl)
  have v: "v SHARED_FIRST \<noteq> F_UNLCK" using c one by (auto simp: claims_def)
  show ?thesis
  proof (cases "lvl = 2")
    case True
    then have "level s f = 1" using r by simp
    then show ?thesis using True same v
      by (auto simp: unixLock_rest_def unixLock_write_def pd(5,6) lock_simps unixLock_levels_def Let_def
          lock_error_def intro!: set_err set post_errno [OF same y])
  next
    case False
    then show ?thesis using same v l e lvl one
      by (auto simp: unixLock_rest_def unixLock_write_def pd(5,6) lock_simps unixLock_levels_def Let_def
          lock_error_def intro!: set_err set post_errno [OF same y])
  qed
qed

lemma unixLock_plain:
  assumes p: "plain s f" and c: "claims False x v (inode s) (level s)" and ok: "call_ok s (Lock f lvl)"
  shows "lsafe (post False s) x v (unixLock s f lvl)"
proof -
  note pd = plainD [OF p]
  note cd = countsD [OF pd(4)]
  obtain y where y: "pFiles s f = Some y" using pd(1) by blast
  have same: "post False s x v (rc, s)" for rc using pd c by (intro post_same)
  let ?L = "level s f" and ?I = "iFileLock (inode s)"
  consider "lvl \<le> ?L" | "?L < lvl" "?L \<noteq> ?I \<and> (3 \<le> ?I \<or> 1 < lvl)"
    | "?L < lvl" "lvl = 1" "?I = 1 \<or> ?I = 2" | "?L < lvl" "lvl = 1" "?I = 0"
    | "?L < lvl" "lvl \<noteq> 1" "?L = ?I"
    by fastforce
  then show ?thesis
  proof cases
    case 1
    then show ?thesis using same by (simp add: unixLock_def pd(5))
  next
    case 2
    then show ?thesis using same ok by (auto simp: unixLock_def pd(5))
  next
    case 3
    have n: "0 < nShared (inode s)" using 3 cd(4,9) by auto
    let ?i = "(inode s)\<lparr>nShared := nShared (inode s) + 1, nLock := nLock (inode s) + 1\<rparr>"
    have o: "level s g \<noteq> 4" for g using 3 cd(6) [of g] by auto
    have "counts ?i ((level s)(f := 1))"
      using 3 n o cd(4) pd(3,7) by (intro counts_upd [OF pd(4)]) simp_all
    moreover have "claims False x v ?i ((level s)(f := 1))"
      using c n by (simp add: claims_def)
    ultimately have "post False s x v (0, upd_inode (upd_file s f (eFileLock_update (\<lambda>_. 1)))
        (\<lambda>i. i\<lparr>nShared := nShared i + 1, nLock := nLock i + 1\<rparr>))"
      using pd(1,2) by (simp add: post_def frame_set)
    then show ?thesis using 3 n ok by (auto simp: unixLock_def pd(5))
  next
    case 4
    have n: "nShared (inode s) = 0" using 4 cd(4) by simp
    have f: "?L = 0" using counts_zero [OF pd(4) n] .
    show ?thesis using 4 f same ok y
      by (auto simp: unixLock_def unixLock_rest_def pd(5,6) lock_simps(1,4) n
          intro!: post_lock_error [OF same y] lock_shared_plain [OF p n])
  next
    case 5
    have l: "?L \<noteq> 0" "lvl = 2 \<or> lvl = 4" "?L < 4" "lvl = 2 \<Longrightarrow> ?L = 1" using 5 ok by auto
    let ?l = "\<lparr>l_type = F_WRLCK, l_start = PENDING_BYTE, l_len = 1\<rparr>"
    have "level s g < 4" for g using cd(5) [of g] cd(6) [of g] l 5 by (cases "level s g = 4") auto
    then have g4: "level s g \<noteq> 4" for g by (metis less_irrefl)
    have c2: "claims False x' (apply_lock v ?l) (inode s) (level s)" for x'
      using c g4 by (auto simp: claims_def apply_lock_def)
    have step: "lsafe (post False s) (alone x v ?l) (apply_lock v ?l) (unixLock_rest s f 4)" if "lvl = 4"
      using l 5 by (intro lock_write_plain [OF p] c2) (simp_all add: apply_lock_def)
    have pe: "3 \<le> ?L \<Longrightarrow> v PENDING_BYTE = F_WRLCK" using c unfolding claims_def by metis
    have direct: "lsafe (post False s) x v (unixLock_rest s f lvl)" if "lvl = 4 \<Longrightarrow> 3 \<le> ?L"
      using l 5 c that pe by (intro lock_write_plain [OF p]) auto
    have fair: "fair v ?l" by (simp add: fair_def)
    show ?thesis
    proof (cases "lvl = 4 \<and> ?L < 3")
      case True
      then show ?thesis using l 5 step fair
        by (simp add: unixLock_def pd(5,6) post_lock_error [OF same y])
    next
      case False
      then show ?thesis using l 5 direct by (auto simp: unixLock_def pd(5))
    qed
  qed
qed

section \<open>Releasing a lock\<close>

lemma lsafe_closePendingFds:
  assumes "\<And>x v. lsafe (Q::bool \<Rightarrow> (nat \<Rightarrow> ltype) \<Rightarrow> proc \<Rightarrow> bool) x v (Ret (upd_inode s (iUnused_update (\<lambda>_. []))))"
  shows "lsafe Q x v (closePendingFds s)"
proof -
  have "lsafe Q x v (foldr (\<lambda>p k. OsClose (ufd p) k) us (Ret (upd_inode s (iUnused_update (\<lambda>_. [])))))"
    for us x v
    using assms by (induction us arbitrary: x v) simp_all
  then show ?thesis by (simp add: closePendingFds_def)
qed

text \<open>
  Giving up the lock: the counters go down, and \<open>w\<close> is what is left of the inode level. The
  handle's own level is set at the end; a failed release of the last lock has set it already.
\<close>

lemma counts_release:
  assumes c: "counts i lv" and l: "0 < lv f"
    and w: "iFileLock i' = iFileLock i \<or> lv f = iFileLock i \<and> iFileLock i' = 1" and n: "nShared i \<noteq> 1"
    and i': "nShared i' = nShared i - 1" "nLock i' = nLock i - 1" "bProcessLock i' = bProcessLock i"
  shows "counts i' (lv(f := 0))"
proof -
  note cd = countsD [OF c]
  have p: "0 < nShared i" by (rule counts_one(1) [OF c l])
  have "lv g \<noteq> 4" for g using cd(8) [of g] n by auto
  moreover have "1 < lv g \<Longrightarrow> iFileLock i' = iFileLock i" if "g \<noteq> f" for g
    using w cd(6) [of g] cd(7) [of g f] that l by auto
  ultimately show ?thesis
    using cd(3,4) p n w l i' by (intro counts_upd [OF c]) auto
qed

lemma counts_release_last:
  assumes c: "counts i lv" and l: "0 < lv f" and n: "nShared i = 1"
    and i': "nShared i' = 0" "iFileLock i' = 0" "nLock i' = of_bool (bProcessLock i')"
  shows "counts i' (lv(f := 0))"
proof -
  have "lv g = 0" if "g \<noteq> f" for g using counts_one(2) [OF c l n that] .
  then show ?thesis by (intro counts_upd [OF c]) (use n l i' in simp_all)
qed

definition others_ok :: "bool \<Rightarrow> (nat \<Rightarrow> ltype) \<Rightarrow> proc \<Rightarrow> nat \<Rightarrow> bool" where
  "others_ok x v s f \<longleftrightarrow> v SHARED_FIRST \<noteq> F_UNLCK \<and>
     (\<forall>g. g \<noteq> f \<longrightarrow> (level s g = 2 \<longrightarrow> v RESERVED_BYTE = F_WRLCK) \<and>
        (3 \<le> level s g \<longrightarrow> v PENDING_BYTE = F_WRLCK) \<and> (level s g = 4 \<longrightarrow> x))"

abbreviation set_level :: "proc \<Rightarrow> nat \<Rightarrow> nat \<Rightarrow> proc" where
  "set_level s f k \<equiv> upd_file s f (eFileLock_update (\<lambda>_. k))"

lemma unlock_none_plain:
  assumes p: "plain s f" and l: "0 < level s f" and o: "others_ok x v s f"
    and w: "w = iFileLock (inode s) \<or> level s f = iFileLock (inode s) \<and> w = 1"
  shows "lsafe (\<lambda>x v (rc, t). post False s x v (rc, if rc = 0 then set_level t f 0 else t))
    x v (posixUnlock_none (upd_inode s (iFileLock_update (\<lambda>_. w))) f)"
proof -
  let ?i = "inode s"
  note pd = plainD [OF p]
  have one: "0 < nShared ?i" by (rule counts_one(1) [OF pd(4) l])
  have flags: "ctrlFlags (handle s f) AND UNIXFILE_EXCL = 0" using p by (simp add: plain_def)
  show ?thesis
  proof (cases "nShared ?i = 1")
    case True
    have others: "level s g = 0" if "g \<noteq> f" for g using counts_one(2) [OF pd(4) l True that] .
    have cl: "claims False x' v' i' ((level s)(f := 0))" if "\<not> bProcessLock i'" "nShared i' = 0" for x' v' i'
      using others that by (intro claims_idle) auto
    note cr = counts_release_last [OF pd(4) l True]
    show ?thesis
      unfolding posixUnlock_none_def Let_def
      using True pd(1,2,3,7) flags
      by (auto simp: fileLock_plain fair_def post_def intro!: cl cr lsafe_closePendingFds frame_upd_inode frame_upd_file frame_refl)
  next
    case False
    note cr = counts_release [OF pd(4) l _ False]
    have "claims False x v i' ((level s)(f := 0))" if "\<not> bProcessLock i'" for i'
      using o that by (auto simp: claims_def others_ok_def)
    then show ?thesis
      unfolding posixUnlock_none_def Let_def
      using False one pd(1,2,3,7) w
      by (auto simp: post_def intro!: cr frame_upd_inode frame_upd_file frame_refl)
  qed
qed

lemma posixUnlock_plain:
  assumes p: "plain s f" and c: "claims False x v (inode s) (level s)" and lvl: "lvl \<le> 1"
  shows "lsafe (post False s) x v (posixUnlock s f lvl False)"
proof -
  let ?i = "inode s" and ?L = "level s f" and ?I = "iFileLock (inode s)"
  note pd = plainD [OF p]
  note cd = countsD [OF pd(4)]
  obtain y where y: "pFiles s f = Some y" using pd(1) by blast
  have same: "post False s x v (rc, s)" for rc using pd c by (intro post_same)
  show ?thesis
  proof (cases "?L \<le> lvl")
    case True
    then show ?thesis using same lvl by (simp add: posixUnlock_def pd(5))
  next
    case L: False
    then have l: "0 < ?L" by simp
    have n: "0 < nShared ?i" by (rule counts_one(1) [OF pd(4) l])
    have vs: "v SHARED_FIRST \<noteq> F_UNLCK" using c n by (simp add: claims_def)
    have o1: "others_ok x v s f" using c vs unfolding others_ok_def claims_def by auto
    have fin: "lsafe (\<lambda>x v (rc, t). post False s x v (rc, if rc = 0 then set_level t f 0 else t)) x' v'
        (posixUnlock_none (upd_inode s (iFileLock_update (\<lambda>_. w))) f)"
      if "others_ok x' v' s f" "w = ?I \<or> ?L = ?I \<and> w = 1" for x' v' w
      by (rule unlock_none_plain [OF p l that])
    show ?thesis
    proof (cases "?L = 1")
      case True
      then have z: "lvl = 0" using L by simp
      have "upd_inode s (iFileLock_update (\<lambda>_. ?I)) = s"
        using pd(2) by (auto simp: upd_inode_def inode_def)
      with fin [OF o1, of ?I] have "lsafe (\<lambda>x v (rc, t). post False s x v (rc, if rc = 0 then set_level t f 0 else t))
        x v (posixUnlock_none s f)" by simp
      then show ?thesis using True z n pd(5)
        by (simp add: posixUnlock_def) (rule lsafe_mono, assumption, auto simp: post_def)
    next
      case False
      then have L1: "1 < ?L" using l by simp
      then have I: "?I = ?L" using cd(6) by simp
      have others: "level s g \<le> 1" if "g \<noteq> f" for g using cd(7) [OF L1 that] .
      have o2: "others_ok x' v' s f" if "v' SHARED_FIRST \<noteq> F_UNLCK" for x' v'
      proof -
        have "level s g \<noteq> 2 \<and> \<not> 3 \<le> level s g \<and> level s g \<noteq> 4" if "g \<noteq> f" for g
          using others [OF that] by auto
        then show ?thesis using that by (simp add: others_ok_def)
      qed
      have c1: "counts (?i\<lparr>iFileLock := 1\<rparr>) ((level s)(f := 1))"
        using L1 I by (intro counts_write [OF pd(4)]) simp_all
      have shared: "post False s x' v' (rc, set_level (upd_inode s (iFileLock_update (\<lambda>_. 1))) f 1)"
        if "v' SHARED_FIRST \<noteq> F_UNLCK" for x' v' rc
      proof -
        have "claims False x' v' (?i\<lparr>iFileLock := 1\<rparr>) ((level s)(f := 1))"
          using that others pd(3) by (fastforce simp: claims_def)
        with c1 show ?thesis using pd(1,2)
          by (auto simp: post_def intro!: frame_upd_inode frame_upd_file frame_refl)
      qed
      have keep: "post False s x' v' (rc, s)"
        if "v' SHARED_FIRST \<noteq> F_UNLCK" "v' RESERVED_BYTE = v RESERVED_BYTE" "v' PENDING_BYTE = v PENDING_BYTE" "?L = 4 \<Longrightarrow> x'" for x' v' rc
      proof -
        have "level s g = 4 \<Longrightarrow> x'" for g using that(4) others [of g] by (cases "g = f") auto
        then have "claims False x' v' ?i (level s)" using c that by (simp add: claims_def)
        then show ?thesis using pd by (intro post_same)
      qed
      have x4: "?L = 4 \<Longrightarrow> x \<and> v PENDING_BYTE = F_WRLCK" using c by (auto simp: claims_def)
      have pend: "lsafe (\<lambda>x v a. lsafe (post False s) x v (case a of (go, rc, t) \<Rightarrow>
            sbind (if go \<and> lvl = 0 then posixUnlock_none t f else Ret (rc, t))
              (\<lambda>(rc, t). Ret (rc, if rc = 0 then set_level t f lvl else t)))) x' v' (drop_pending s f)"
        if "v' SHARED_FIRST \<noteq> F_UNLCK" "v' RESERVED_BYTE = v RESERVED_BYTE" "v' PENDING_BYTE = v PENDING_BYTE"
          "?L = 4 \<Longrightarrow> x'" for x' v'
      proof (cases "lvl = 0")
        case True
        have "lsafe (\<lambda>x v a. lsafe (post False s) x v
            (case a of (rc, t) \<Rightarrow> Ret (rc, if rc = 0 then set_level t f 0 else t))) x'' v''
            (posixUnlock_none (upd_inode s (iFileLock_update (\<lambda>_. 1))) f)"
          if "v'' SHARED_FIRST \<noteq> F_UNLCK" for x'' v''
          by (rule lsafe_mono [OF fin [of x'' v'' 1]]) (use I o2 that in auto)
        then show ?thesis using that True
          by (auto simp: drop_pending_def pd(6) lock_simps(1,4) intro!: post_errno [OF keep y])
      next
        case False
        then have "lvl = 1" using lvl by simp
        then show ?thesis using that
          by (auto simp: drop_pending_def pd(6) lock_simps(1,4) intro!: post_errno [OF keep y] shared)
      qed
      have x4': "?L = 4 \<Longrightarrow> x" "?L = 4 \<Longrightarrow> v PENDING_BYTE = F_WRLCK" using x4 by blast+
      let ?l = "\<lparr>l_type = F_RDLCK, l_start = SHARED_FIRST, l_len = SHARED_SIZE\<rparr>"
      show ?thesis
      proof (cases "lvl = 0")
        case True
        show ?thesis
          using pend [OF vs refl refl x4'(1), unfolded True] L1 I n unfolding True
          by (simp add: posixUnlock_def posixUnlock_write_def pd(5))
      next
        case False
        then have l1: "lvl = 1" using lvl by simp
        have "lsafe (\<lambda>x v a. lsafe (post False s) x v (case a of (go, rc, t) \<Rightarrow>
            sbind (if go \<and> lvl = 0 then posixUnlock_none t f else Ret (rc, t))
              (\<lambda>(rc, t). Ret (rc, if rc = 0 then set_level t f lvl else t)))) (alone x v ?l) (apply_lock v ?l) (drop_pending s f)"
          by (rule pend) (use x4' in \<open>simp_all add: lock_simps\<close>)
        moreover have "post False s x v (rc, upd_file s f (lastErrno_update k))" for rc k
          by (rule post_errno [OF same y])
        moreover have "fair v ?l" using vs by (simp add: fair_def)
        ultimately show ?thesis
          using L1 I n unfolding l1 by (simp add: posixUnlock_def posixUnlock_write_def pd(5,6))
      qed
    qed
  qed
qed

section \<open>Exclusive-mode processes\<close>

text \<open>
  All connections are \<^verbatim>\<open>unix-excl\<close> and writable. The first request takes a write lock on the
  shared bytes, which the process keeps until the last descriptor is closed.
\<close>

definition excl :: "proc \<Rightarrow> nat \<Rightarrow> bool" where
  "excl s f \<longleftrightarrow> pFiles s f \<noteq> None \<and> pInode s \<noteq> None \<and> counts (inode s) (level s) \<and>
     ctrlFlags (handle s f) AND UNIXFILE_EXCL \<noteq> 0 \<and> ctrlFlags (handle s f) AND UNIXFILE_RDONLY = 0"

lemma exclD:
  assumes "excl s f"
  shows "pFiles s f \<noteq> None" "pInode s \<noteq> None" "counts (inode s) (level s)"
    "eFileLock (handle s f) = level s f"
    "bProcessLock (inode s) \<Longrightarrow> lsafe Q x v (unixFileLock s f l) \<longleftrightarrow> Q x v (None, s)"
  using assms by (auto simp: excl_def handle_level fileLock_excl)

lemma excl_upd_inode [simp]: "counts (g (inode s)) (level s) \<Longrightarrow> excl s f \<Longrightarrow> excl (upd_inode s g) f"
  by (simp add: excl_def)

lemma unixLock_held:
  assumes e: "excl s f" and b: "bProcessLock (inode s)" and c: "x" "v SHARED_FIRST = F_WRLCK"
    and ok: "call_ok s (Lock f lvl)"
  shows "lsafe (post True s) x v (unixLock s f lvl)"
proof -
  note ed = exclD [OF e]
  note cd = countsD [OF ed(3)]
  note fl = ed(5) [OF b]
  let ?i = "inode s" and ?L = "level s f" and ?I = "iFileLock (inode s)"
  have claims: "claims True x v i' lv" if "bProcessLock i'" for i' lv using c that by (simp add: claims_def)
  have same: "post True s x v (rc, s)" for rc using ed b by (intro post_same claims)
  have set: "post True s x v (rc, upd_inode (set_level s f k) g)"
    if "counts (g ?i) ((level s)(f := k))" "\<And>i. nRef (g i) = nRef i" "bProcessLock (g ?i)" for k g rc
    using that ed by (simp add: post_def frame_set claims)
  consider "lvl \<le> ?L" | "?L < lvl" "?L \<noteq> ?I \<and> (3 \<le> ?I \<or> 1 < lvl)"
    | "?L < lvl" "lvl = 1" "?I = 1 \<or> ?I = 2" | "?L < lvl" "lvl = 1" "?I = 0"
    | "?L < lvl" "lvl \<noteq> 1" "?L = ?I"
    by fastforce
  then show ?thesis
  proof cases
    case 1
    then show ?thesis using same by (simp add: unixLock_def ed(4))
  next
    case 2
    then show ?thesis using same ok by (auto simp: unixLock_def ed(4))
  next
    case 3
    have n: "0 < nShared ?i" using 3 cd(4,9) by auto
    have "level s g \<noteq> 4" for g using 3 cd(6) [of g] by auto
    then have "counts (?i\<lparr>nShared := nShared ?i + 1, nLock := nLock ?i + 1\<rparr>) ((level s)(f := 1))"
      using 3 n cd(3,4) by (intro counts_upd [OF ed(3)]) simp_all
    then show ?thesis using 3 n ok b by (auto simp: unixLock_def ed(4) intro!: set)
  next
    case 4
    have n: "nShared ?i = 0" using 4 cd(4) by simp
    have l0: "level s g = 0" for g using counts_zero [OF ed(3) n] .
    have "counts (?i\<lparr>nLock := nLock ?i + 1, nShared := 1, iFileLock := 1\<rparr>) ((level s)(f := 1))"
      using n l0 cd(3) by (intro counts_upd [OF ed(3)]) simp_all
    then show ?thesis using 4 n l0 b
      by (simp add: unixLock_def unixLock_rest_def unixLock_shared_def Let_def ed(4) fl set)
  next
    case 5
    have l: "?L \<noteq> 0" "lvl = 2 \<or> lvl = 4" "lvl = 2 \<Longrightarrow> ?L = 1" using 5 ok by auto
    have one: "0 < nShared ?i" using counts_one(1) [OF ed(3), of f] l by simp
    have "post True s x v (rc, upd_inode (set_level s f k) (iFileLock_update (\<lambda>_. k)))"
      if "0 < k" "k \<le> 4" "k = 4 \<Longrightarrow> nShared ?i = 1" for k rc
      using counts_write [OF ed(3) l(1) 5(3) that] b by (intro set) simp_all
    then show ?thesis using 5 l one
      by (auto simp: unixLock_def unixLock_rest_def unixLock_write_def unixLock_levels_def Let_def ed(4) fl)
  qed
qed

lemma unixLock_excl:
  assumes e: "excl s f" and c: "claims True x v (inode s) (level s)" and ok: "call_ok s (Lock f lvl)"
  shows "lsafe (post True s) x v (unixLock s f lvl)"
proof (cases "bProcessLock (inode s)")
  case True
  then show ?thesis using c by (intro unixLock_held [OF e _ _ _ ok]) (simp_all add: claims_def)
next
  case False
  note ed = exclD [OF e]
  note cd = countsD [OF ed(3)]
  let ?i = "inode s"
  have n: "nShared ?i = 0" using c False by (simp add: claims_def)
  have l0: "level s g = 0" for g using counts_zero [OF ed(3) n] .
  have same: "post True s x v (rc, s)" for rc using ed c by (intro post_same)
  obtain y where y: "pFiles s f = Some y" using ed(1) by blast
  have lvl: "lvl = 1" using ok l0 by auto
  let ?s = "upd_inode s (\<lambda>i. i\<lparr>bProcessLock := True, nLock := nLock i + 1\<rparr>)"
  let ?v = "apply_lock v \<lparr>l_type = F_WRLCK, l_start = SHARED_FIRST, l_len = SHARED_SIZE\<rparr>"
  have "counts (inode ?s) (level s)" using ed(3) n cd False l0 by (simp add: counts_def)
  then have e1: "excl ?s f" using e by simp
  have "counts (?i\<lparr>bProcessLock := True, nLock := nLock ?i + 2, nShared := 1, iFileLock := 1\<rparr>) ((level s)(f := 1))"
    using n l0 cd(3) False by (intro counts_upd [OF ed(3)]) simp_all
  then have final: "post True s True ?v (0, upd_inode (set_level ?s f 1)
      (\<lambda>i. i\<lparr>nLock := nLock i + 1, nShared := 1, iFileLock := 1\<rparr>))"
    using ed by (auto simp: post_def claims_def apply_lock_def add.assoc intro!: frame_upd_inode frame_upd_file frame_refl)
  have "lsafe (post True s) True ?v (unixLock_rest ?s f 1)"
    using n final exclD(5) [OF e1] cd(4) by (simp add: unixLock_rest_def unixLock_shared_def Let_def)
  moreover have "nLock ?i = 0" using cd(3) n False by simp
  ultimately show ?thesis
    using lvl l0 n cd(4) False ed(4) e
    by (auto simp: unixLock_def fileLock_excl excl_def intro!: post_lock_error [OF same y])
qed

lemma posixUnlock_excl:
  assumes e: "excl s f" and c: "claims True x v (inode s) (level s)" and lvl: "lvl \<le> 1"
  shows "lsafe (post True s) x v (posixUnlock s f lvl False)"
proof (cases "level s f \<le> lvl")
  case True
  then show ?thesis using lvl c by (simp add: posixUnlock_def exclD [OF e] post_same)
next
  case L: False
  note ed = exclD [OF e]
  note cd = countsD [OF ed(3)]
  let ?i = "inode s" and ?L = "level s f"
  have l: "0 < ?L" using L by simp
  have n: "0 < nShared ?i" by (rule counts_one(1) [OF ed(3) l])
  have b: "bProcessLock ?i" using c n by (auto simp: claims_def)
  have cl: "claims True x v i' lv" if "bProcessLock i'" for i' lv
    using c b that by (simp add: claims_def)
  have fg: "ctrlFlags (handle s f) AND UNIXFILE_EXCL \<noteq> 0" "ctrlFlags (handle s f) AND UNIXFILE_RDONLY = 0"
    using e by (simp_all add: excl_def)
  have fl: "lsafe Q x v (unixFileLock (upd_inode s g) f k) \<longleftrightarrow> Q x v (None, upd_inode s g)"
    if "bProcessLock (g ?i)" for Q g k and x :: bool and v
    using e that by (simp add: fileLock_excl excl_def)
  have done0: "lsafe (\<lambda>x v (rc, t). post True s x v (rc, if rc = 0 then set_level t f 0 else t)) x v
      (posixUnlock_none (upd_inode s (iFileLock_update (\<lambda>_. w))) f)"
    if w: "w = iFileLock ?i \<or> ?L = iFileLock ?i \<and> w = 1" for w
  proof (cases "nShared ?i = 1")
    case True
    note cr = counts_release_last [OF ed(3) l True]
    show ?thesis
      unfolding posixUnlock_none_def Let_def
      using True ed(1,2) cd(3) b
      by (auto simp: fileLock_excl post_def fg intro!: cr cl frame_upd_inode frame_upd_file frame_refl)
  next
    case False
    note cr = counts_release [OF ed(3) l _ False]
    show ?thesis
      unfolding posixUnlock_none_def Let_def
      using False ed(1,2) cd(3) b n w
      by (auto simp: post_def intro!: cr cl frame_upd_inode frame_upd_file frame_refl)
  qed
  have id: "upd_inode s (iFileLock_update (\<lambda>_. iFileLock ?i)) = s"
    using ed(2) by (auto simp: upd_inode_def inode_def)
  note fl0 = ed(5) [OF b]
  have goal: "lsafe (\<lambda>x v a. lsafe (post True s) x v (case a of (rc, t) \<Rightarrow>
      Ret (rc, if rc = 0 then set_level t f 0 else t))) x v
      (posixUnlock_none (upd_inode s (iFileLock_update (\<lambda>_. w))) f)"
    if w: "w = iFileLock ?i \<or> ?L = iFileLock ?i \<and> w = 1" for w
    by (rule lsafe_mono [OF done0 [OF w]]) auto
  show ?thesis
  proof (cases "?L = 1")
    case True
    then have "lvl = 0" using L by simp
    then show ?thesis using goal [of "iFileLock ?i"] True n unfolding \<open>lvl = 0\<close>
      by (simp add: posixUnlock_def ed(4) id)
  next
    case False
    then have L1: "1 < ?L" using l by simp
    then have I: "iFileLock ?i = ?L" using cd(6) by simp
    show ?thesis
    proof (cases "lvl = 0")
      case True
      show ?thesis using goal [of 1] L1 I n unfolding True
        by (simp add: posixUnlock_def posixUnlock_write_def drop_pending_def ed(4) fl0)
    next
      case False
      then have l1: "lvl = 1" using lvl by simp
      have "counts (?i\<lparr>iFileLock := 1\<rparr>) ((level s)(f := 1))"
        using L1 I by (intro counts_write [OF ed(3)]) simp_all
      then have "post True s x v (0, set_level (upd_inode s (iFileLock_update (\<lambda>_. 1))) f 1)"
        using ed(1,2) b by (auto simp: post_def intro!: cl frame_upd_inode frame_upd_file frame_refl)
      then show ?thesis using L1 I n unfolding l1
        by (simp add: posixUnlock_def posixUnlock_write_def drop_pending_def ed(4) fl0)
    qed
  qed
qed

end
