(* ===== verification/LockMutex.thy ===== *)
theory LockMutex
  imports LockInv
begin

text \<open>
  The calls that open and close handles, the invariant of the whole system, and mutual
  exclusion.
\<close>

section \<open>Opening and closing\<close>

lemma claims_zero:
  assumes "counts i lv" "nLock i = 0"
  shows "nShared i = 0" "\<not> bProcessLock i" "claims m x v i (lv(f := 0))"
proof -
  show n: "nShared i = 0" "\<not> bProcessLock i"
    using countsD(3,9) [OF assms(1)] assms(2) by (cases "bProcessLock i"; simp)+
  have "lv g = 0" for g using counts_zero [OF assms(1) n(1)] .
  then show "claims m x v i (lv(f := 0))" using n by (simp add: claims_def)
qed

lemma counts_cong:
  "nShared i' = nShared i \<Longrightarrow> nLock i' = nLock i \<Longrightarrow> bProcessLock i' = bProcessLock i \<Longrightarrow>
    iFileLock i' = iFileLock i \<Longrightarrow> counts i' lv \<longleftrightarrow> counts i lv"
  by (simp add: counts_def)

lemma claims_cong:
  "nShared i' = nShared i \<Longrightarrow> bProcessLock i' = bProcessLock i \<Longrightarrow> claims m x v i' lv \<longleftrightarrow> claims m x v i lv"
  by (simp add: claims_def)

lemma unused_fields [simp]:
  "counts (i\<lparr>nRef := n\<rparr>) lv \<longleftrightarrow> counts i lv" "claims m x v (i\<lparr>nRef := n\<rparr>) lv \<longleftrightarrow> claims m x v i lv"
  "counts (i\<lparr>iUnused := u\<rparr>) lv \<longleftrightarrow> counts i lv" "claims m x v (i\<lparr>iUnused := u\<rparr>) lv \<longleftrightarrow> claims m x v i lv"
  by (simp_all add: counts_def claims_def)

lemma counts_forget:
  assumes "counts i lv"
  shows "counts i (lv(f := 0))"
proof -
  note cd = countsD [OF assms]
  show ?thesis using cd(3,4,8) by (intro counts_upd [OF assms]) auto
qed

lemma claims_forget: "claims m x v i lv \<Longrightarrow> claims m x v i (lv(f := 0))"
  by (auto simp: claims_def)

lemma level_remove [simp]: "level (s\<lparr>pFiles := (pFiles s)(f := None)\<rparr>) = (level s)(f := 0)"
  by (auto simp: level_def fun_eq_iff)

definition done_ok :: "bool \<Rightarrow> bool \<Rightarrow> (nat \<Rightarrow> ltype) \<Rightarrow> rc \<times> proc \<Rightarrow> bool" where
  "done_ok m x v r \<longleftrightarrow> pinv m x v (snd r)"

lemma post_done: "files_ok m s \<Longrightarrow> post m s x v r \<Longrightarrow> done_ok m x v r"
  by (auto simp: post_def done_ok_def intro: pinvI)

lemma inode_pFiles [simp]: "inode (s\<lparr>pFiles := g\<rparr>) = inode s"
  by (simp add: inode_def)

text \<open>The end of \<^verbatim>\<open>unixClose\<close>: the inode is released, then the descriptor closed unless it waits.\<close>

lemma release_close:
  assumes fo: "files_ok m s" and f: "pFiles s f \<noteq> None"
    and c: "counts (inode s) (level s)" "claims m x v (inode s) (level s)"
    and h: "nLock (inode s) \<noteq> 0 \<Longrightarrow> fh (handle s f) < 0"
  shows "lsafe (done_ok m) x v (sbind (releaseInodeInfo s) (\<lambda>s. closeUnixFile s f))"
proof -
  let ?s = "upd_inode s (\<lambda>i. i\<lparr>nRef := nRef i - 1\<rparr>)"
  have fin: "finite (dom (pFiles s))" and card: "nRef (inode s) = int (card (dom (pFiles s)))"
    and fl: "\<And>g y. pFiles s g = Some y \<Longrightarrow> flags_ok m (ctrlFlags y)" using fo by (auto simp: files_ok_def)
  have fd: "f \<in> dom (pFiles s)" using f by auto
  show ?thesis
  proof (cases "nRef (inode s) - 1 = 0")
    case True
    then have "card (dom (pFiles s)) = 1" using card by simp
    then obtain g where "dom (pFiles s) = {g}" by (metis card_1_singletonE)
    then have "dom (pFiles s) = {f}" using fd by simp
    then have e: "(pFiles s)(f := None) = Map.empty" by (auto simp: fun_eq_iff dom_def)
    have "lsafe (\<lambda>x v t. lsafe (done_ok m) x v (closeUnixFile (t\<lparr>pInode := None\<rparr>) f)) x v (closePendingFds ?s)"
      using e by (intro lsafe_closePendingFds) (simp add: closeUnixFile_def Let_def done_ok_def pinv_def)
    then show ?thesis using True by (simp add: releaseInodeInfo_def Let_def)
  next
    case False
    let ?t = "?s\<lparr>pFiles := (pFiles s)(f := None)\<rparr>"
    have "0 < card (dom (pFiles s))" using fin fd by (auto simp: card_gt_0_iff)
    then have "int (card (dom (pFiles s) - {f})) = int (card (dom (pFiles s))) - 1"
      using fin fd by (simp add: card_Diff_singleton of_nat_diff)
    then have fo': "files_ok m ?t" using fin card fl by (simp add: files_ok_def)
    have lv: "level ?t = (level s)(f := 0)" using level_remove [of ?s f] by simp
    have ok: "pinv m x' v' ?t" if "claims m x' v' (inode s) ((level s)(f := 0))" for x' v'
    proof -
      have "counts (inode ?t) (level ?t)" "claims m x' v' (inode ?t) (level ?t)"
        using counts_forget [OF c(1), of f] that unfolding lv
        by simp_all
      then show ?thesis using fo' by (simp add: pinv_def)
    qed
    have now: "pinv m x v ?t" by (intro ok claims_forget c(2))
    show ?thesis
    proof (cases "nLock (inode s) = 0")
      case True
      have "pinv m x' v' ?t" for x' v' by (intro ok claims_zero(3) [OF c(1) True])
      then show ?thesis using False by (simp add: releaseInodeInfo_def Let_def closeUnixFile_def done_ok_def)
    next
      case nl: False
      then show ?thesis using False now h by (simp add: releaseInodeInfo_def Let_def closeUnixFile_def done_ok_def)
    qed
  qed
qed

lemma setPendingFd_simps [simp]:
  "level (setPendingFd s f) = level s" if "pFiles s f \<noteq> None"
  using that by (auto simp: setPendingFd_def level_same)

lemma unixClose_ok:
  assumes fo: "files_ok m s" and f: "pFiles s f \<noteq> None"
    and u: "lsafe (post m s) x v (posixUnlock s f 0 False)"
  shows "lsafe (done_ok m) x v (unixClose s f)"
  unfolding unixClose_def unixUnlock_def lsafe_sbind
proof (rule lsafe_mono [OF u])
  fix x v r
  assume "post m s x v r"
  moreover obtain rc t where r: "r = (rc, t)" by (cases r)
  ultimately have p: "frame s t" "counts (inode t) (level t)" "claims m x v (inode t) (level t)" by (simp_all add: post_def)
  have ft: "files_ok m t" by (rule files_ok_frame [OF fo p(1)])
  have f': "pFiles t f \<noteq> None" 
  proof -
    have "dom (pFiles t) = dom (pFiles s)" using p(1) by (simp add: frame_def)
    then show ?thesis using f by (metis domIff)
  qed
  have a: "0 < nLock (inode t) \<or> \<not> bProcessLock (inode t)"
    using countsD(3,9) [OF p(2)] by (cases "bProcessLock (inode t)") auto
  let ?t = "if nLock (inode t) \<noteq> 0 then setPendingFd t f else t"
  have "pInode t \<noteq> None" using p(1) by (simp add: frame_def)
  then have ff: "frame t (setPendingFd t f)"
    unfolding setPendingFd_def using f' by (intro frame_upd_file frame_upd_inode frame_refl) simp_all
  have i: "nShared (inode (setPendingFd t f)) = nShared (inode t)" "nLock (inode (setPendingFd t f)) = nLock (inode t)"
    "bProcessLock (inode (setPendingFd t f)) = bProcessLock (inode t)"
    "iFileLock (inode (setPendingFd t f)) = iFileLock (inode t)" by (simp_all add: setPendingFd_def)
  have "lsafe (done_ok m) x v (sbind (releaseInodeInfo ?t) (\<lambda>s. closeUnixFile s f))"
  proof (cases "nLock (inode t) = 0")
    case True
    then show ?thesis using release_close [OF ft f' p(2,3)] by simp
  next
    case False
    have "pFiles (setPendingFd t f) f \<noteq> None" by (simp add: setPendingFd_def)
    moreover have "fh (handle (setPendingFd t f) f) < 0" by (simp add: setPendingFd_def)
    ultimately show ?thesis
      using False p f' by (simp only: if_True simp_thms, intro release_close files_ok_frame [OF ft ff])
        (simp_all add: counts_cong [OF i(1,2,3,4)] claims_cong [OF i(1,3)])
  qed
  then show "lsafe (done_ok m) x v (case r of (_, s) \<Rightarrow> assertm (0 < nLock (inode s) \<or> \<not> bProcessLock (inode s))
        (let s = if nLock (inode s) \<noteq> 0 then setPendingFd s f else s
         in sbind (releaseInodeInfo s) (\<lambda>s. closeUnixFile s f)))"
    using a unfolding r by (simp only: prod.case Let_def lsafe_assertm simp_thms)
qed

text \<open>A new handle, with a descriptor that was waiting or a new one.\<close>

lemma pinv_cong:
  assumes "pFiles t = pFiles s" "inode t = i\<lparr>iUnused := u\<rparr>" "pInode t \<noteq> None" "pInode s = Some i"
  shows "pinv m x v t \<longleftrightarrow> pinv m x v s"
proof -
  have "level t = level s" using assms(1) by (simp add: level_def fun_eq_iff)
  moreover have "inode s = i" using assms(4) by (simp add: inode_def)
  moreover obtain z where "pInode t = Some z" using assms(3) by blast
  ultimately show ?thesis using assms(1,2,4) by (simp add: pinv_def files_ok_def)
qed

lemma findReusableFd_ok:
  "pinv m x v s \<Longrightarrow> pinv m x v (snd (findReusableFd s flags))" "pFiles (snd (findReusableFd s flags)) = pFiles s"
proof -
  have *: "pFiles (snd (findReusableFd s flags)) = pFiles s \<and> (pinv m x v s \<longrightarrow> pinv m x v (snd (findReusableFd s flags)))"
  proof (cases "pInode s")
    case None
    then show ?thesis by (simp add: findReusableFd_def)
  next
    case (Some i)
    have "pinv m x v (upd_inode s (iUnused_update (\<lambda>_. u))) \<longleftrightarrow> pinv m x v s" for u
      using Some by (intro pinv_cong [where i = i and u = u]) (simp_all add: inode_def)
    then show ?thesis using Some by (simp add: findReusableFd_def Let_def split: list.split)
  qed
  then show "pinv m x v s \<Longrightarrow> pinv m x v (snd (findReusableFd s flags))" by blast
  show "pFiles (snd (findReusableFd s flags)) = pFiles s" using * by blast
qed

lemma findInodeInfo_open:
  assumes p: "pinv m x v s" and f: "pFiles s f = None" and y: "eFileLock y = 0" "flags_ok m (ctrlFlags y)"
  shows "pinv m x v ((findInodeInfo s)\<lparr>pFiles := (pFiles (findInodeInfo s))(f \<mapsto> y)\<rparr>)"
proof (cases "pInode s")
  case None
  then have "pFiles s = Map.empty" using p by (simp add: pinv_def)
  then have "holders (level (s\<lparr>pInode := k, pFiles := [f \<mapsto> y]\<rparr>)) = {}" "level (s\<lparr>pInode := k, pFiles := [f \<mapsto> y]\<rparr>) g = 0" for k g
    using y by (auto simp: holders_def level_def)
  then show ?thesis using None y \<open>pFiles s = Map.empty\<close>
    by (cases m) (simp_all add: findInodeInfo_def pinv_def files_ok_def inode_def counts_def claims_def)
next
  case (Some i)
  let ?t = "(upd_inode s (\<lambda>i. i\<lparr>nRef := nRef i + 1\<rparr>))\<lparr>pFiles := (pFiles s)(f \<mapsto> y)\<rparr>"
  have lv: "level ?t = level s" using f y by (auto simp: level_def fun_eq_iff)
  have fo: "files_ok m s" "counts (inode s) (level s)" "claims m x v (inode s) (level s)"
    using p Some by (simp_all add: pinv_def)
  have "f \<notin> dom (pFiles s)" using f by auto
  then have "files_ok m ?t" using fo(1) y by (auto simp: files_ok_def)
  then have "pinv m x v ?t" using fo(2,3) lv by (simp add: pinv_def)
  then show ?thesis using Some by (simp add: findInodeInfo_def)
qed

lemma open_file_ok:
  assumes "pinv m x v s" "pFiles s f = None" "flags_ok m ctrl"
  shows "pinv m x v (open_file s f fd flags ctrl)"
  using findInodeInfo_open [of m x v "snd (findReusableFd s flags)" f] findReusableFd_ok(1) [of m x v s flags]
    findReusableFd_ok(2) [of s flags] assms
  by (cases "findReusableFd s flags") (simp add: open_file_def Let_def)

section \<open>Every call keeps the invariant of its process\<close>

lemma handle_mode:
  assumes "pinv m x v s" "pFiles s f \<noteq> None"
  shows "files_ok m s" "claims m x v (inode s) (level s)" "m \<Longrightarrow> excl s f" "\<not> m \<Longrightarrow> plain s f"
proof -
  have i: "pInode s \<noteq> None" using assms by (auto simp: pinv_def split: if_splits)
  then have p: "files_ok m s" "counts (inode s) (level s)" "claims m x v (inode s) (level s)"
    using assms(1) by (simp_all add: pinv_def)
  then show "files_ok m s" "claims m x v (inode s) (level s)" by simp_all
  obtain y where y: "pFiles s f = Some y" using assms(2) by blast
  then have "flags_ok m (ctrlFlags y)" using p(1) by (simp add: files_ok_def)
  then show "m \<Longrightarrow> excl s f" "\<not> m \<Longrightarrow> plain s f" using i y p
    by (auto simp: excl_def plain_def flags_ok_def handle_def claims_def)
qed

lemma unixLock_ok:
  assumes p: "pinv m x v s" and ok: "call_ok s (Lock f lvl)"
  shows "lsafe (post m s) x v (unixLock s f lvl)"
proof -
  have f: "pFiles s f \<noteq> None" using ok by simp
  note hm = handle_mode [OF p f]
  show ?thesis
  proof (cases m)
    case True
    then show ?thesis using unixLock_excl [OF hm(3) _ ok] hm(2) by simp
  next
    case False
    then show ?thesis using unixLock_plain [OF hm(4) _ ok] hm(2) by simp
  qed
qed

lemma posixUnlock_ok:
  assumes p: "pinv m x v s" and f: "pFiles s f \<noteq> None" and lvl: "lvl \<le> 1"
  shows "lsafe (post m s) x v (posixUnlock s f lvl False)"
proof -
  note hm = handle_mode [OF p f]
  show ?thesis
  proof (cases m)
    case True
    then show ?thesis using posixUnlock_excl [OF hm(3) _ lvl] hm(2) by simp
  next
    case False
    then show ?thesis using posixUnlock_plain [OF hm(4) _ lvl] hm(2) by simp
  qed
qed

lemma checkReserved_ok:
  assumes p: "pinv m x v s" and f: "pFiles s f \<noteq> None"
  shows "lsafe (done_ok m) x v (sbind (unixCheckReservedLock s f) (\<lambda>(rc, _, s). Ret (rc, s)))"
proof -
  note hm = handle_mode [OF p f]
  obtain y where y: "pFiles s f = Some y" using f by blast
  have "pInode s \<noteq> None" "counts (inode s) (level s)" using p f by (auto simp: pinv_def split: if_splits)
  then have same: "post m s x v (rc, s)" for rc using hm(2) by (intro post_same)
  have "lsafe (post m s) x v (sbind (unixCheckReservedLock s f) (\<lambda>(rc, _, s). Ret (rc, s)))"
    using same by (auto simp: unixCheckReservedLock_def Let_def split: option.split intro!: post_errno [OF same y])
  then show ?thesis by (rule lsafe_mono) (rule post_done [OF hm(1)])
qed

lemma run_call_ok:
  assumes p: "pinv m x v s" and ok: "call_ok s c" "mode_ok m c"
  shows "lsafe (done_ok m) x v (run_call s c)"
proof (cases c)
  case (Open f fd flags ctrl)
  then show ?thesis using open_file_ok [OF p] ok by (simp add: done_ok_def flags_ok_def)
next
  case (Lock f lvl)
  then have l: "call_ok s (Lock f lvl)" "pFiles s f \<noteq> None" using ok by simp_all
  show ?thesis unfolding Lock run_call.simps
    by (rule lsafe_mono [OF unixLock_ok [OF p l(1)]]) (rule post_done [OF handle_mode(1) [OF p l(2)]])
next
  case (Unlock f lvl)
  then have l: "lvl \<le> 1" "pFiles s f \<noteq> None" using ok by simp_all
  show ?thesis unfolding Unlock run_call.simps unixUnlock_def
    by (rule lsafe_mono [OF posixUnlock_ok [OF p l(2,1)]]) (rule post_done [OF handle_mode(1) [OF p l(2)]])
next
  case (CheckReserved f)
  then show ?thesis using checkReserved_ok [OF p] ok by simp
next
  case (Close f)
  then have f: "pFiles s f \<noteq> None" using ok by simp
  show ?thesis unfolding Close run_call.simps
    by (rule unixClose_ok [OF handle_mode(1) [OF p f] f posixUnlock_ok [OF p f]]) simp
qed

section \<open>The whole system\<close>

lemma lock_inv_prog:
  assumes "lock_inv api I s" "\<And>x v. lsafe (I p) x v (progs s p) \<Longrightarrow> lsafe (I p) x v m"
  shows "lock_inv api I (goto_prog s p m)"
proof -
  let ?h = "p_held api (osys s)"
  from assms(1) obtain x where
    comp: "\<forall>p q b. p \<noteq> q \<longrightarrow> compatible (?h p b) (?h q b)" and
    ls: "\<And>p. lsafe (I p) (x p) (?h p) (progs s p)" and
    xb: "\<forall>p. x p \<longrightarrow> barrier (?h p) \<and> (\<forall>q. q \<noteq> p \<longrightarrow> ?h q SHARED_FIRST = F_UNLCK)"
    unfolding lock_inv_def by blast
  have "lsafe (I q) (x q) (?h q) (progs (goto_prog s p m) q)" for q
    using ls [of q] assms(2) [of "x p" "?h p"] by (cases "q = p") (simp_all add: goto_prog_def)
  then show ?thesis using comp xb
    unfolding lock_inv_def by (intro conjI exI [of _ x]) (simp_all add: goto_prog_def)
qed

definition sys_inv :: "'os posix \<Rightarrow> (nat \<Rightarrow> bool) \<Rightarrow> 'os lsys \<Rightarrow> bool" where
  "sys_inv api mode s \<longleftrightarrow> lock_inv api (\<lambda>p. done_ok (mode p)) s"

lemma sys_inv_init:
  assumes "\<And>p b. p_held api os0 p b = F_UNLCK"
  shows "sys_inv api mode \<lparr>osys = os0, progs = \<lambda>_. idle\<rparr>"
  unfolding sys_inv_def lock_inv_def
  by (intro conjI exI [of _ "\<lambda>_. False"]) (simp_all add: assms compatible_def idle_def done_ok_def pinv_def)

lemma sys_inv_step:
  assumes ok: "posix_ok api" and st: "lock_step api (\<lambda>p. mode_ok (mode p)) s t" and inv: "sys_inv api mode s"
  shows "sys_inv api mode t"
  using st
proof cases
  case (start p r a c)
  have "lsafe (done_ok (mode p)) x v (run_call a c)" if "lsafe (done_ok (mode p)) x v (progs s p)" for x v
    using that start run_call_ok [of "mode p" x v a c] by (simp add: done_ok_def)
  then show ?thesis using inv unfolding start(1) sys_inv_def by (rule lock_inv_prog [rotated])
next
  case (setlk p fd l k e os')
  then show ?thesis using lock_inv_setlk [OF ok _ setlk(2,3)] inv by (simp add: sys_inv_def)
next
  case (getlk p fd l k r)
  have "lsafe (done_ok (mode p)) x v (k r)" if "lsafe (done_ok (mode p)) x v (progs s p)" for x v
    using that getlk by (cases r) simp
  then show ?thesis using inv unfolding getlk(1) sys_inv_def by (rule lock_inv_prog [rotated])
next
  case (close p fd k)
  then show ?thesis using lock_inv_close [OF ok _ close(2)] inv by (simp add: sys_inv_def)
qed

lemma lock_reach_inv:
  assumes "posix_ok api" "\<And>p b. p_held api os0 p b = F_UNLCK" "lock_reach api (\<lambda>p. mode_ok (mode p)) os0 s"
  shows "sys_inv api mode s"
  using assms(3)
proof induction
  case init
  show ?case by (rule sys_inv_init) (rule assms(2))
next
  case (step s t)
  show ?case by (rule sys_inv_step [OF assms(1) step(2) step.IH])
qed

text \<open>What the level of a handle tells of its process.\<close>

lemma pinv_level:
  assumes p: "pinv m x v a" and l: "0 < level a f"
  shows "v SHARED_FIRST \<noteq> F_UNLCK" "m \<Longrightarrow> x" "level a f = 4 \<Longrightarrow> x"
    "\<not> m \<Longrightarrow> level a f = 2 \<Longrightarrow> v RESERVED_BYTE = F_WRLCK" "\<not> m \<Longrightarrow> 3 \<le> level a f \<Longrightarrow> v PENDING_BYTE = F_WRLCK"
    "g \<noteq> f \<Longrightarrow> 1 < level a f \<Longrightarrow> level a g \<le> 1" "g \<noteq> f \<Longrightarrow> level a f = 4 \<Longrightarrow> level a g = 0"
proof -
  have "pFiles a f \<noteq> None" using l by (cases "pFiles a f") (simp_all add: level_def)
  then have c: "counts (inode a) (level a)" "claims m x v (inode a) (level a)"
    using p by (auto simp: pinv_def split: if_splits)
  have n: "0 < nShared (inode a)" by (rule counts_one(1) [OF c(1) l])
  show "v SHARED_FIRST \<noteq> F_UNLCK" "m \<Longrightarrow> x" "level a f = 4 \<Longrightarrow> x"
    "\<not> m \<Longrightarrow> level a f = 2 \<Longrightarrow> v RESERVED_BYTE = F_WRLCK" "\<not> m \<Longrightarrow> 3 \<le> level a f \<Longrightarrow> v PENDING_BYTE = F_WRLCK"
    using c(2) n by (auto simp: claims_def split: if_splits)
  show "g \<noteq> f \<Longrightarrow> 1 < level a f \<Longrightarrow> level a g \<le> 1" using countsD(7) [OF c(1)] by blast
  show "g \<noteq> f \<Longrightarrow> level a f = 4 \<Longrightarrow> level a g = 0"
    using counts_one(2) [OF c(1) l countsD(8) [OF c(1)]] by blast
qed

lemma two_processes:
  assumes inv: "sys_inv api mode s" and pq: "p \<noteq> q"
    and p: "progs s p = Ret (r, a)" and q: "progs s q = Ret (r', b)" and l: "0 < level a f" "0 < level b g"
  shows "level a f \<noteq> 4" "\<not> (level a f = 2 \<and> level b g = 2)" "\<not> (3 \<le> level a f \<and> 3 \<le> level b g)"
proof -
  let ?h = "p_held api (osys s)"
  from inv obtain x where
    comp: "\<forall>p q b. p \<noteq> q \<longrightarrow> compatible (?h p b) (?h q b)" and
    all: "\<forall>p. lsafe (done_ok (mode p)) (x p) (?h p) (progs s p) \<and>
       (x p \<longrightarrow> barrier (?h p) \<and> (\<forall>q. q \<noteq> p \<longrightarrow> ?h q SHARED_FIRST = F_UNLCK))"
    unfolding sys_inv_def lock_inv_def by blast
  have ls: "lsafe (done_ok (mode p)) (x p) (?h p) (progs s p)" for p using all by blast
  have cpq: "compatible (?h p b) (?h q b)" for b using comp pq by blast
  have xp: "x p \<Longrightarrow> ?h q SHARED_FIRST = F_UNLCK" using all pq by metis
  have xq: "x q \<Longrightarrow> ?h p SHARED_FIRST = F_UNLCK" using all pq by metis
  have P: "pinv (mode p) (x p) (?h p) a" using ls [of p] p by (simp add: done_ok_def)
  have Q: "pinv (mode q) (x q) (?h q) b" using ls [of q] q by (simp add: done_ok_def)
  note lp = pinv_level [OF P l(1)] and lq = pinv_level [OF Q l(2)]
  have nx: "\<not> x p" "\<not> x q" using xp xq lp(1) lq(1) by auto
  then have nm: "\<not> mode p" "\<not> mode q" using lp(2) lq(2) by auto
  show "level a f \<noteq> 4" using lp(3) nx by blast
  show "\<not> (level a f = 2 \<and> level b g = 2)"
    using lp(4) lq(4) nm cpq [of RESERVED_BYTE] by (auto simp: compatible_def)
  show "\<not> (3 \<le> level a f \<and> 3 \<le> level b g)"
    using lp(5) lq(5) nm cpq [of PENDING_BYTE] by (auto simp: compatible_def)
qed

section \<open>Running a process alone\<close>

primrec exec :: "'os posix \<Rightarrow> nat \<Rightarrow> 'a sysm \<Rightarrow> 'os \<Rightarrow> 'a option \<times> 'os" where
  "exec api p (Ret a) = (\<lambda>os. (Some a, os))"
| "exec api p Abort = (\<lambda>os. (None, os))"
| "exec api p (Setlk fd l k) = (\<lambda>os. let r = p_setlk api p fd l os in exec api p (k (fst r)) (snd r))"
| "exec api p (Getlk fd l k) = (\<lambda>os. exec api p (k (p_getlk api p fd l os)) os)"
| "exec api p (OsClose fd k) = (\<lambda>os. exec api p k (p_close api p fd os))"

definition put_prog :: "'os lsys \<Rightarrow> 'os \<Rightarrow> nat \<Rightarrow> (rc \<times> proc) sysm \<Rightarrow> 'os lsys" where
  "put_prog s os p m = s\<lparr>osys := os, progs := (progs s)(p := m)\<rparr>"

lemma put_prog_simps [simp]:
  "progs (put_prog s os p m) p = m" "osys (put_prog s os p m) = os"
  "goto_prog (put_prog s os p m) p k = put_prog s os p k"
  "(put_prog s os p m)\<lparr>osys := os'\<rparr> = put_prog s os' p m"
  by (simp_all add: put_prog_def goto_prog_def)

lemma exec_reach:
  "lock_reach api ok os0 (put_prog s os p m) \<Longrightarrow> exec api p m os = (Some r, os') \<Longrightarrow>
    lock_reach api ok os0 (put_prog s os' p (Ret r))"
proof (induction m arbitrary: os)
  case (Setlk fd l k)
  obtain e os1 where e: "p_setlk api p fd l os = (e, os1)" by fastforce
  have "lock_reach api ok os0 (put_prog s os1 p (k e))"
    using lock_reach.step [OF Setlk(2) lock_step.setlk [of _ p fd l k _ e os1]] e by simp
  from Setlk(1) [OF _ this] Setlk(3) e show ?case by simp
next
  case (Getlk fd l k)
  have "lock_reach api ok os0 (put_prog s os p (k (p_getlk api p fd l os)))"
    using lock_reach.step [OF Getlk(2) lock_step.getlk [of _ p fd l k]] by simp
  from Getlk(1) [OF _ this] Getlk(3) show ?case by simp
next
  case (OsClose fd k)
  have "lock_reach api ok os0 (put_prog s (p_close api p fd os) p k)"
    using lock_reach.step [OF OsClose(2) lock_step.close [of _ p fd k]] by simp
  from OsClose(1) [OF this] OsClose(3) show ?case by simp
qed simp_all

text \<open>A script of calls by several processes, each run to its end before the next.\<close>

fun script :: "'os posix \<Rightarrow> (nat \<times> call) list \<Rightarrow> 'os \<Rightarrow> (nat \<Rightarrow> rc \<times> proc) \<Rightarrow> ('os \<times> (nat \<Rightarrow> rc \<times> proc)) option" where
  "script api [] os ps = Some (os, ps)"
| "script api ((p, c) # cs) os ps =
    (if call_ok (snd (ps p)) c then
       (case exec api p (run_call (snd (ps p)) c) os of
          (Some r, os') \<Rightarrow> script api cs os' (ps(p := r))
        | _ \<Rightarrow> None)
     else None)"

lemma script_reach:
  "script api cs os ps = Some (os', ps') \<Longrightarrow> \<forall>(p, c) \<in> set cs. ok p c \<Longrightarrow>
    lock_reach api ok os0 \<lparr>osys = os, progs = \<lambda>p. Ret (ps p)\<rparr> \<Longrightarrow>
    lock_reach api ok os0 \<lparr>osys = os', progs = \<lambda>p. Ret (ps' p)\<rparr>"
proof (induction api cs os ps rule: script.induct)
  case (2 api p c cs os ps)
  obtain r os1 where e: "exec api p (run_call (snd (ps p)) c) os = (Some r, os1)"
    and c: "call_ok (snd (ps p)) c" and rest: "script api cs os1 (ps(p := r)) = Some (os', ps')"
    using 2(2) by (auto split: if_splits prod.splits option.splits)
  let ?s = "\<lparr>osys = os, progs = \<lambda>p. Ret (ps p)\<rparr>"
  have "lock_step api ok ?s (goto_prog ?s p (run_call (snd (ps p)) c))"
    using c 2(3) by (intro lock_step.start [of _ _ "fst (ps p)"]) auto
  moreover have "goto_prog ?s p (run_call (snd (ps p)) c) = put_prog ?s os p (run_call (snd (ps p)) c)"
    by (simp add: goto_prog_def put_prog_def)
  ultimately have "lock_reach api ok os0 (put_prog ?s os p (run_call (snd (ps p)) c))"
    using lock_reach.step [OF 2(4)] by simp
  moreover have "put_prog ?s os1 p (Ret r) = \<lparr>osys = os1, progs = \<lambda>q. Ret ((ps(p := r)) q)\<rparr>"
    by (auto simp: put_prog_def)
  ultimately have "lock_reach api ok os0 \<lparr>osys = os1, progs = \<lambda>q. Ret ((ps(p := r)) q)\<rparr>"
    using exec_reach [OF _ e] by metis
  then show ?case using 2(1) [OF c e [symmetric] refl rest] 2(3) by auto
qed simp

text \<open>
  A system in which a process holds what it was granted last, and a request is refused when a
  conflicting request of another process is on record.
\<close>

definition overlap :: "flock \<Rightarrow> flock \<Rightarrow> bool" where
  "overlap l k \<longleftrightarrow> (l_len k = 0 \<or> l_start l < l_start k + l_len k) \<and> (l_len l = 0 \<or> l_start k < l_start l + l_len l)"

fun log_held :: "(nat \<times> flock) list \<Rightarrow> nat \<Rightarrow> nat \<Rightarrow> ltype" where
  "log_held [] q b = F_UNLCK"
| "log_held ((p, l) # log) q b = (if p = q \<and> covers l b then l_type l else log_held log q b)"

definition log_drop :: "nat \<Rightarrow> (nat \<times> flock) list \<Rightarrow> (nat \<times> flock) list" where
  "log_drop p log = filter (\<lambda>(q, l). q \<noteq> p) log"

definition log_setlk :: "nat \<Rightarrow> int \<Rightarrow> flock \<Rightarrow> (nat \<times> flock) list \<Rightarrow> errno option \<times> (nat \<times> flock) list" where
  "log_setlk p fd l log =
    (if list_all (\<lambda>(q, k). q = p \<or> \<not> overlap l k \<or> compatible (l_type l) (l_type k)) log
     then (None, if l_type l = F_UNLCK \<and> l_start l = 0 \<and> l_len l = 0 then log_drop p log else (p, l) # log)
     else (Some EAGAIN, log))"

definition log_api :: "(nat \<times> flock) list posix" where
  "log_api = \<lparr>p_setlk = log_setlk, p_getlk = \<lambda>p fd l log. (None, F_UNLCK),
     p_close = \<lambda>p fd log. log_drop p log, p_held = log_held\<rparr>"

lemma log_held_drop: "log_held (log_drop p log) = (log_held log)(p := (\<lambda>_. F_UNLCK))"
proof -
  have "log_held (log_drop p log) q b = ((log_held log)(p := (\<lambda>_. F_UNLCK))) q b" for q b
    by (induction log) (auto simp: log_drop_def)
  then show ?thesis by blast
qed

lemma log_api_ok: "posix_ok log_api"
proof -
  have drop: "(log_held log)(p := (\<lambda>_. F_UNLCK)) = (log_held log)(p := apply_lock (log_held log p) l)"
    if "l_type l = F_UNLCK \<and> l_start l = 0 \<and> l_len l = 0" for log p l
    using that by (auto simp: apply_lock_def covers_def fun_eq_iff)
  have add: "log_held ((p, l) # log) = (log_held log)(p := apply_lock (log_held log p) l)" for log p l
    by (auto simp: apply_lock_def fun_eq_iff)
  have ov: "overlap l k" if "covers l b" "covers k b" for l k b
    using that by (auto simp: overlap_def covers_def)
  have comp: "compatible (l_type l) (log_held log q b)"
    if "list_all (\<lambda>(q, k). q = p \<or> \<not> overlap l k \<or> compatible (l_type l) (l_type k)) log" "q \<noteq> p" "covers l b" for log p q l b
    using that(1)
  proof (induction log)
    case Nil
    then show ?case by (simp add: compatible_def)
  next
    case (Cons e log)
    obtain r k where e: "e = (r, k)" by (cases e)
    show ?case
    proof (cases "r = q \<and> covers k b")
      case True
      then have "overlap l k" using ov [OF that(3)] by blast
      then show ?thesis using True Cons.prems that(2) e by simp
    next
      case False
      then show ?thesis using Cons e by auto
    qed
  qed
  show ?thesis
    unfolding posix_ok_def log_api_def
    by (auto simp: log_setlk_def log_held_drop drop add comp split: if_splits)
qed

section \<open>Mutual exclusion\<close>

text \<open>
  \<^bold>\<open>C1\<close> Mutual exclusion. Any number of processes with any number of handles lock, unlock, open and
  close the file, interleaved at every system call, with system calls that may fail. Of two
  different handles that are between calls, in the same process or not: if one is
  \<^verbatim>\<open>EXCLUSIVE\<close> the other has no lock, they are not both \<^verbatim>\<open>RESERVED\<close>, and they are not
  both \<^verbatim>\<open>PENDING\<close> or above. It holds for plain processes and for \<^verbatim>\<open>unix-excl\<close> ones.
\<close>

theorem lock_mutual_exclusion:
  assumes "posix_ok api" "\<And>p b. p_held api os0 p b = F_UNLCK"
    and "lock_reach api (\<lambda>p. mode_ok (mode p)) os0 s"
    and p: "progs s p = Ret (r, a)" and q: "progs s q = Ret (r', b)" and ne: "(p, f) \<noteq> (q, g)"
  shows "(level a f = EXCLUSIVE_LOCK \<longrightarrow> level b g = NO_LOCK) \<and>
    \<not> (level a f = RESERVED_LOCK \<and> level b g = RESERVED_LOCK) \<and>
    \<not> (PENDING_LOCK \<le> level a f \<and> PENDING_LOCK \<le> level b g)"
proof (cases "0 < level a f \<and> 0 < level b g")
  case False
  then show ?thesis by auto
next
  case l: True
  have inv: "sys_inv api mode s" by (rule lock_reach_inv [OF assms(1-3)])
  show ?thesis
  proof (cases "p = q")
    case False
    then show ?thesis using two_processes [OF inv False p q] l by blast
  next
    case True
    then have ba: "b = a" and gf: "g \<noteq> f" using p q ne by auto
    obtain x v where "pinv (mode p) x v a"
      using inv p unfolding sys_inv_def lock_inv_def by (metis done_ok_def lsafe.simps(1) snd_conv)
    note pl = pinv_level [OF this]
    have "1 < level a f \<Longrightarrow> level a g \<le> 1" "level a f = 4 \<Longrightarrow> level a g = 0"
      using pl(6,7) [OF _ gf] l by auto
    then show ?thesis unfolding ba by auto
  qed
qed

definition demo_calls :: "(nat \<times> call) list" where
  "demo_calls = [(0, Open 0 5 0 0), (1, Open 0 6 0 0), (0, Lock 0 1), (0, Lock 0 2), (0, Lock 0 4), (1, Lock 0 1)]"

lemmas lock_defs = unixLock_def unixLock_rest_def unixLock_shared_def unixLock_write_def unixLock_levels_def
  unixFileLock_def posixUnlock_def posixUnlock_write_def posixUnlock_none_def drop_pending_def unixUnlock_def
  assertm_def Let_def open_file_def findReusableFd_def findInodeInfo_def upd_inode_def upd_file_def inode_def
  handle_def level_def lock_error_def sqliteErrorFromPosixError_def closePendingFds_def
  UNIXFILE_EXCL_def UNIXFILE_RDONLY_def PENDING_BYTE_def RESERVED_BYTE_def SHARED_FIRST_def SHARED_SIZE_def

lemmas log_defs = log_api_def log_setlk_def overlap_def compatible_def log_drop_def

lemma demo_run:
  "\<exists>os ps. script log_api demo_calls [] (\<lambda>_. (0, \<lparr>pInode = None, pFiles = Map.empty\<rparr>)) = Some (os, ps) \<and>
    level (snd (ps 0)) 0 = 4 \<and> fst (ps 1) = 5 \<and> level (snd (ps 1)) 0 = 0"
  by (simp add: demo_calls_def lock_defs log_defs)

lemma script_start:
  assumes "script api cs os0 (\<lambda>_. (0, \<lparr>pInode = None, pFiles = Map.empty\<rparr>)) = Some (os, ps)" "\<forall>(p, c) \<in> set cs. ok p c"
  shows "lock_reach api ok os0 \<lparr>osys = os, progs = \<lambda>p. Ret (ps p)\<rparr>"
proof -
  have "lock_reach api ok os0 \<lparr>osys = os0, progs = \<lambda>p. Ret (0, \<lparr>pInode = None, pFiles = Map.empty\<rparr>)\<rparr>"
    using lock_reach.init [of api ok os0] by (simp add: idle_def)
  then show ?thesis by (rule script_reach [OF assms])
qed

theorem lock_mutual_exclusion_witness:
  "\<exists>s r a r' b. lock_reach log_api (\<lambda>p. mode_ok False) [] s \<and> progs s 0 = Ret (r, a) \<and> progs s 1 = Ret (r', b) \<and>
    level a 0 = EXCLUSIVE_LOCK \<and> r' = SQLITE_BUSY \<and> level b 0 = NO_LOCK"
proof -
  obtain os ps where run: "script log_api demo_calls [] (\<lambda>_. (0, \<lparr>pInode = None, pFiles = Map.empty\<rparr>)) = Some (os, ps)"
    and l: "level (snd (ps 0)) 0 = 4" "fst (ps 1) = 5" using demo_run by blast
  let ?s = "\<lparr>osys = os, progs = \<lambda>p. Ret (ps p)\<rparr>"
  have ok: "\<forall>(p, c) \<in> set demo_calls. mode_ok False c" by (simp add: demo_calls_def)
  have reach: "lock_reach log_api (\<lambda>p. mode_ok False) [] ?s"
    using script_start [OF run, where ok = "\<lambda>p. mode_ok False"] ok by simp
  have init: "p_held log_api [] p b = F_UNLCK" for p b by (simp add: log_api_def)
  have 0: "progs ?s 0 = Ret (fst (ps 0), snd (ps 0))" and 1: "progs ?s 1 = Ret (fst (ps 1), snd (ps 1))" by simp_all
  have "level (snd (ps 1)) 0 = 0"
    using lock_mutual_exclusion [OF log_api_ok init, where mode = "\<lambda>_. False", OF reach 0 1, of 0 0] l(1) by simp
  with reach l show ?thesis using 0 1 by blast
qed

text \<open>
  \<^bold>\<open>C10\<close> No assertion of the locking layer can fail. In every reachable state every process is
  idle, or waits for a system call whose every result leads on: the counters of the
  inode always agree with the levels of the handles, error paths and deferred closes included.
\<close>

theorem lock_no_assertion_fails:
  assumes "posix_ok api" "\<And>p b. p_held api os0 p b = F_UNLCK" "lock_reach api (\<lambda>p. mode_ok (mode p)) os0 s"
  shows "progs s p \<noteq> Abort \<and> (\<forall>r a i. progs s p = Ret (r, a) \<and> pInode a = Some i \<longrightarrow>
    nRef i = int (card (dom (pFiles a))) \<and> nLock i = nShared i + of_bool (bProcessLock i) \<and>
    int (card {f. level a f \<noteq> NO_LOCK}) \<le> nShared i \<and> (iFileLock i = NO_LOCK \<longleftrightarrow> nShared i = 0))"
proof -
  have "sys_inv api mode s" by (rule lock_reach_inv [OF assms])
  then obtain x v where l: "lsafe (done_ok (mode p)) x v (progs s p)"
    unfolding sys_inv_def lock_inv_def by blast
  have "nRef i = int (card (dom (pFiles a))) \<and> nLock i = nShared i + of_bool (bProcessLock i) \<and>
    int (card {f. level a f \<noteq> NO_LOCK}) \<le> nShared i \<and> (iFileLock i = NO_LOCK \<longleftrightarrow> nShared i = 0)"
    if "progs s p = Ret (r, a)" "pInode a = Some i" for r a i
  proof -
    have "inode a = i" "pinv (mode p) x v a" using l that by (simp_all add: done_ok_def inode_def)
    then have "files_ok (mode p) a" "counts i (level a)" using that by (auto simp: pinv_def)
    then show ?thesis using \<open>inode a = i\<close> by (auto simp: files_ok_def counts_def holders_def)
  qed
  moreover have "progs s p \<noteq> Abort" using l by auto
  ultimately show ?thesis by blast
qed

theorem lock_no_assertion_fails_witness:
  "\<exists>s r a. lock_reach log_api (\<lambda>p. mode_ok False) [] s \<and> progs s 0 = Ret (r, a) \<and> level a 0 = EXCLUSIVE_LOCK \<and>
    int (card {f. level a f \<noteq> NO_LOCK}) \<le> nShared (inode a)"
proof -
  obtain os ps where run: "script log_api demo_calls [] (\<lambda>_. (0, \<lparr>pInode = None, pFiles = Map.empty\<rparr>)) = Some (os, ps)"
    and l: "level (snd (ps 0)) 0 = 4" using demo_run by blast
  let ?s = "\<lparr>osys = os, progs = \<lambda>p. Ret (ps p)\<rparr>"
  have ok: "\<forall>(p, c) \<in> set demo_calls. mode_ok False c" by (simp add: demo_calls_def)
  have reach: "lock_reach log_api (\<lambda>p. mode_ok False) [] ?s"
    using script_start [OF run, where ok = "\<lambda>p. mode_ok False"] ok by simp
  have init: "p_held log_api [] p b = F_UNLCK" for p b by (simp add: log_api_def)
  have 0: "progs ?s 0 = Ret (fst (ps 0), snd (ps 0))" by simp
  have i: "pInode (snd (ps 0)) = Some (inode (snd (ps 0)))"
  proof -
    have "pInode (snd (ps 0)) \<noteq> None"
      using lock_reach_inv [OF log_api_ok init, where mode = "\<lambda>_. False", OF reach] l 0
      by (fastforce simp: sys_inv_def lock_inv_def done_ok_def pinv_def level_def split: if_splits option.splits dest: spec [of _ 0])
    then show ?thesis by (auto simp: inode_def)
  qed
  show ?thesis
    using lock_no_assertion_fails [OF log_api_ok init, where mode = "\<lambda>_. False", OF reach, of 0] reach l 0 i by blast
qed

fun excl_vfs :: "nat \<Rightarrow> call \<Rightarrow> bool" where
  "excl_vfs p (Open f fd flags ctrl) \<longleftrightarrow> (p = 0 \<longleftrightarrow> ctrl AND UNIXFILE_EXCL \<noteq> 0)"
| "excl_vfs p _ \<longleftrightarrow> True"

definition bug_calls :: "(nat \<times> call) list" where
  "bug_calls = [(0, Open 0 5 0 1), (0, Open 1 6 1 3), (0, Lock 0 1), (0, Lock 1 1), (0, Unlock 0 0), (0, Unlock 1 0),
     (0, Lock 0 1), (0, Lock 0 4), (1, Open 0 7 0 0), (1, Lock 0 1), (1, Lock 0 4)]"

text \<open>
  \<^bold>\<open>C36\<close> A read-only connection breaks \<^verbatim>\<open>unix-excl\<close>. When the connections of process 0 are all
  \<^verbatim>\<open>unix-excl\<close> but one is read-only, its release of the last lock goes to the system and drops
  the process lock, which the process still believes to hold: two processes become \<^verbatim>\<open>EXCLUSIVE\<close>
  on a system that respects POSIX.
\<close>

theorem excl_readonly_breaks_exclusion:
  "\<exists>s r a r' b. posix_ok log_api \<and> lock_reach log_api excl_vfs [] s \<and>
    progs s 0 = Ret (r, a) \<and> progs s 1 = Ret (r', b) \<and>
    level a 0 = EXCLUSIVE_LOCK \<and> level b 0 = EXCLUSIVE_LOCK"
proof -
  have "\<exists>os ps. script log_api bug_calls [] (\<lambda>_. (0, \<lparr>pInode = None, pFiles = Map.empty\<rparr>)) = Some (os, ps) \<and>
    level (snd (ps 0)) 0 = 4 \<and> level (snd (ps 1)) 0 = 4"
    by (simp add: bug_calls_def lock_defs log_defs)
  then obtain os ps where run: "script log_api bug_calls [] (\<lambda>_. (0, \<lparr>pInode = None, pFiles = Map.empty\<rparr>)) = Some (os, ps)"
    and l: "level (snd (ps 0)) 0 = 4" "level (snd (ps 1)) 0 = 4" by blast
  have "\<forall>(p, c) \<in> set bug_calls. excl_vfs p c" by (simp add: bug_calls_def UNIXFILE_EXCL_def)
  from script_start [OF run this] l log_api_ok show ?thesis
    by (metis lsys.select_convs(2) prod.collapse)
qed

end
