(* ===== verification/LockLive.thy ===== *)
theory LockLive
  imports LockMutex
begin

text \<open>
  Progress: when no other process holds a lock and the system grants what does not conflict, a
  handle gets through all levels and back, and leaves no lock behind.
\<close>

text \<open>The run of a routine whose requests are all granted; what a \<^verbatim>\<open>close\<close> leaves is open.\<close>

primrec granted :: "((nat \<Rightarrow> ltype) \<Rightarrow> 'a \<Rightarrow> bool) \<Rightarrow> (nat \<Rightarrow> ltype) \<Rightarrow> 'a sysm \<Rightarrow> bool" where
  "granted Q v (Ret a) \<longleftrightarrow> Q v a"
| "granted Q v Abort \<longleftrightarrow> False"
| "granted Q v (Setlk fd l k) \<longleftrightarrow> granted Q (apply_lock v l) (k None)"
| "granted Q v (Getlk fd l k) \<longleftrightarrow> (\<forall>r. granted Q v (k r))"
| "granted Q v (OsClose fd k) \<longleftrightarrow> granted Q v k \<and> granted Q (\<lambda>_. F_UNLCK) k"

lemma granted_sbind [simp]: "granted Q v (sbind m k) \<longleftrightarrow> granted (\<lambda>v a. granted Q v (k a)) v m"
  by (induction m arbitrary: v) simp_all

lemma granted_assertm [simp]: "granted Q v (assertm b m) \<longleftrightarrow> b \<and> granted Q v m"
  by (simp add: assertm_def)

definition solo :: "'os posix \<Rightarrow> nat \<Rightarrow> 'os \<Rightarrow> bool" where
  "solo api p os \<longleftrightarrow> (\<forall>q b. q \<noteq> p \<longrightarrow> p_held api os q b = F_UNLCK)"

definition granting :: "'os posix \<Rightarrow> nat \<Rightarrow> bool" where
  "granting api p \<longleftrightarrow> (\<forall>fd l os. solo api p os \<longrightarrow> fst (p_setlk api p fd l os) = None)"

lemma granted_exec:
  assumes ok: "posix_ok api" "granting api p"
  shows "granted Q (p_held api os p) m \<Longrightarrow> solo api p os \<Longrightarrow>
    \<exists>a os'. exec api p m os = (Some a, os') \<and> Q (p_held api os' p) a \<and> solo api p os'"
proof (induction m arbitrary: os)
  case (Setlk fd l k)
  obtain os1 where s: "p_setlk api p fd l os = (None, os1)"
    using ok(2) Setlk.prems(2) unfolding granting_def by (metis prod.collapse)
  have h: "p_held api os1 = (p_held api os)(p := apply_lock (p_held api os p) l)"
    using posix_setlk(1) [OF ok(1) s] by simp
  then have "solo api p os1" using Setlk.prems(2) by (simp add: solo_def)
  then show ?case using Setlk.IH [of "k None" os1] Setlk.prems(1) s h by simp
next
  case (OsClose fd k)
  have "p_held api (p_close api p fd os) = p_held api os \<or>
      p_held api (p_close api p fd os) = (p_held api os)(p := (\<lambda>_. F_UNLCK))"
    using ok(1) unfolding posix_ok_def by blast
  then have "solo api p (p_close api p fd os) \<and>
      (p_held api (p_close api p fd os) p = p_held api os p \<or> p_held api (p_close api p fd os) p = (\<lambda>_. F_UNLCK))"
    using OsClose.prems(2) by (auto simp: solo_def)
  then show ?case using OsClose.IH [of "p_close api p fd os"] OsClose.prems(1) by auto
next
  case (Getlk fd l k)
  let ?r = "p_getlk api p fd l os"
  have "granted Q (p_held api os p) (k ?r)" using Getlk.prems(1) by (cases ?r) simp
  then show ?case using Getlk.IH [of "k ?r" os] Getlk.prems(2) by simp
qed auto

lemma granted_closePendingFds:
  assumes "Q v (upd_inode s (iUnused_update (\<lambda>_. [])))" "Q (\<lambda>_. F_UNLCK) (upd_inode s (iUnused_update (\<lambda>_. [])))"
  shows "granted Q v (closePendingFds s)"
proof -
  have "granted Q v (foldr (\<lambda>p k. OsClose (ufd p) k) us (Ret (upd_inode s (iUnused_update (\<lambda>_. [])))))"
    if "Q v (upd_inode s (iUnused_update (\<lambda>_. [])))" for us v
    using that assms(2) by (induction us arbitrary: v) simp_all
  then show ?thesis using assms(1) by (simp add: closePendingFds_def)
qed

lemma granted_fileLock:
  assumes "ctrlFlags (handle s f) AND UNIXFILE_EXCL = 0" "\<not> bProcessLock (inode s)"
  shows "granted Q v (unixFileLock s f l) \<longleftrightarrow> Q (apply_lock v l) (None, s)"
  using assms by (simp add: unixFileLock_def)

text \<open>A write transaction on the file as the pager runs it, with the results of the calls.\<close>

definition write_txn :: "proc \<Rightarrow> nat \<Rightarrow> (rc list \<times> nat \<times> proc) sysm" where
  "write_txn s f =
    sbind (unixLock s f SHARED_LOCK) (\<lambda>(r1, s).
    sbind (unixLock s f RESERVED_LOCK) (\<lambda>(r2, s).
    sbind (unixLock s f EXCLUSIVE_LOCK) (\<lambda>(r3, s).
    let top = level s f in
    sbind (unixUnlock s f SHARED_LOCK) (\<lambda>(r4, s).
    sbind (unixUnlock s f NO_LOCK) (\<lambda>(r5, s). Ret ([r1, r2, r3, r4, r5], top, s))))))"

text \<open>
  \<^bold>\<open>C14\<close> Progress. On a handle that is idle in a process without locks, while no other process holds
  a lock and the system grants requests that do not conflict, the sequence \<^verbatim>\<open>SHARED\<close>, \<^verbatim>\<open>RESERVED\<close>,
  \<^verbatim>\<open>EXCLUSIVE\<close>, back to \<^verbatim>\<open>SHARED\<close> and to nothing succeeds at every call, reaches
  \<^verbatim>\<open>EXCLUSIVE\<close>, and leaves neither a level nor a byte lock behind.
\<close>

theorem lock_progress:
  assumes ok: "posix_ok api" "granting api p" "solo api p os"
    and s: "plain s f" "nShared (inode s) = 0"
  shows "\<exists>t os'. exec api p (write_txn s f) os = (Some ([SQLITE_OK, SQLITE_OK, SQLITE_OK, SQLITE_OK, SQLITE_OK], EXCLUSIVE_LOCK, t), os') \<and>
    level t f = NO_LOCK \<and> iFileLock (inode t) = NO_LOCK \<and> (\<forall>b. p_held api os' p b = F_UNLCK)"
proof -
  note pd = plainD [OF s(1)]
  have i: "iFileLock (inode s) = 0" using countsD(4) [OF pd(4)] s(2) by simp
  have l: "level s f = 0" by (rule counts_zero [OF pd(4) s(2)])
  have fl: "ctrlFlags (handle s f) AND UNIXFILE_EXCL = 0" using s(1) by (simp add: plain_def)
  let ?Q = "\<lambda>v (rs, top, t). rs = [0, 0, 0, 0, 0] \<and> top = 4 \<and> level t f = 0 \<and> iFileLock (inode t) = 0 \<and> v = (\<lambda>_. F_UNLCK)"
  have "granted ?Q (p_held api os p) (write_txn s f)"
    using pd(3,5,7) i l fl s(2)
    by (simp add: write_txn_def Let_def unixLock_def unixLock_rest_def unixLock_shared_def unixLock_write_def
        unixLock_levels_def unixUnlock_def posixUnlock_def posixUnlock_write_def posixUnlock_none_def drop_pending_def
        granted_fileLock apply_lock_def granted_closePendingFds)
  from granted_exec [OF ok(1,2) this ok(3)] show ?thesis by auto
qed

text \<open>A system that keeps exactly what is held and grants whatever does not conflict.\<close>

definition table_api :: "(nat \<Rightarrow> nat \<Rightarrow> ltype) posix" where
  "table_api =
    \<lparr>p_setlk = \<lambda>p fd l os.
       (if \<forall>q b. q \<noteq> p \<longrightarrow> covers l b \<longrightarrow> compatible (l_type l) (os q b) then (None, os(p := apply_lock (os p) l))
        else (Some EAGAIN, os)),
     p_getlk = \<lambda>p fd l os. (None, F_UNLCK), p_close = \<lambda>p fd os. os(p := (\<lambda>_. F_UNLCK)), p_held = \<lambda>os. os\<rparr>"

lemma table_api_ok: "posix_ok table_api" "granting table_api p"
  by (auto simp: posix_ok_def granting_def solo_def table_api_def compatible_def split: if_splits)

definition fresh :: proc where
  "fresh = open_file \<lparr>pInode = None, pFiles = Map.empty\<rparr> 0 7 0 0"

lemma plain_fresh: "plain fresh 0" "nShared (inode fresh) = 0"
proof -
  have "holders (level fresh) = {}" "\<And>f. level fresh f = 0"
    by (auto simp: holders_def level_def fresh_def open_file_def findReusableFd_def findInodeInfo_def Let_def)
  then show "plain fresh 0" "nShared (inode fresh) = 0"
    by (simp_all add: plain_def counts_def fresh_def open_file_def findReusableFd_def findInodeInfo_def Let_def
        inode_def handle_def)
qed

theorem lock_progress_witness:
  "\<exists>t os'. exec table_api 0 (write_txn fresh 0) (\<lambda>_ _. F_UNLCK) =
      (Some ([SQLITE_OK, SQLITE_OK, SQLITE_OK, SQLITE_OK, SQLITE_OK], EXCLUSIVE_LOCK, t), os') \<and>
    level t 0 = NO_LOCK \<and> iFileLock (inode t) = NO_LOCK \<and> (\<forall>b. p_held table_api os' 0 b = F_UNLCK)"
  by (rule lock_progress [OF table_api_ok _ plain_fresh]) (simp add: solo_def table_api_def)

end
