(* ===== verification/Like.thy ===== *)
theory Like
  imports MemConv Ctype
begin

text \<open>
  The \<^verbatim>\<open>LIKE\<close> and \<^verbatim>\<open>GLOB\<close> operators of \<^verbatim>\<open>func.c\<close>. A pointer into a NUL-terminated text is the list
  of the bytes from there to the end of its buffer; \<^const>\<open>None\<close> is a read outside. The main
  theorem relates \<^verbatim>\<open>patternCompare\<close> on UTF-8 to a declarative meaning of patterns on characters.
\<close>

section \<open>Definitions\<close>

record compareInfo =
  matchAll :: u8
  matchOne :: u8
  matchSet :: u8
  noCase :: bool

definition globInfo :: compareInfo where
  "globInfo = \<lparr>matchAll = 0x2A, matchOne = 0x3F, matchSet = 0x5B, noCase = False\<rparr>"

definition likeInfoNorm :: compareInfo where
  "likeInfoNorm = \<lparr>matchAll = 0x25, matchOne = 0x5F, matchSet = 0, noCase = True\<rparr>"

definition likeInfoAlt :: compareInfo where
  "likeInfoAlt = \<lparr>matchAll = 0x25, matchOne = 0x5F, matchSet = 0, noCase = False\<rparr>"

definition GlogUpperToLower :: "u32 \<Rightarrow> u32" where
  "GlogUpperToLower A = (if A AND NOT 0x7f = 0 then ucast (sqlite3UpperToLower (ucast A)) else A)"

definition fold_char :: "compareInfo \<Rightarrow> u32 \<Rightarrow> u32" where
  "fold_char I c = (if noCase I then GlogUpperToLower c else c)"

text \<open>\<^verbatim>\<open>sqlite3Utf8Read(z, &z)\<close>.\<close>

definition next_char :: "u8 list \<Rightarrow> (u32 \<times> u8 list) option" where
  "next_char z = do { (c, n) \<leftarrow> sqlite3Utf8Read z 0; Some (c, drop n z) }"

lemma utf8_more_skip: "utf8_more z None i c = Some (c', j) \<Longrightarrow> skip_cont z i = Some j"
proof (induction z "None :: nat option" i c rule: utf8_more.induct)
  case (1 zIn i c)
  then show ?case
    by (subst skip_cont.simps, subst (asm) (2) utf8_more.simps) (auto split: option.splits if_splits)
qed

lemma sqlite3Utf8Read_skip: "sqlite3Utf8Read z i = Some (c, j) \<Longrightarrow> SQLITE_SKIP_UTF8 z i = Some j"
  by (auto simp: sqlite3Utf8Read_def SQLITE_SKIP_UTF8_def utf8_more_skip bind_eq_Some_conv split: if_splits)

lemma sqlite3Utf8Read_bounds: "sqlite3Utf8Read z i = Some (c, j) \<Longrightarrow> i < j \<and> j \<le> length z"
  by (rule SQLITE_SKIP_UTF8_bounds) (rule sqlite3Utf8Read_skip)

lemma next_char_less: "next_char z = Some (c, z') \<Longrightarrow> length z' < length z"
  by (auto simp: next_char_def bind_eq_Some_conv dest!: sqlite3Utf8Read_bounds)

text \<open>
  The loop behind a \<^verbatim>\<open>matchAll\<close>: further wildcards, each \<^verbatim>\<open>matchOne\<close> with a character of the text.
  The result is \<^const>\<open>None\<close> when the text ends, else the first other character \<open>c\<close>, the pattern
  before and behind it, and the text.
\<close>

function star :: "compareInfo \<Rightarrow> u8 list \<Rightarrow> u8 list \<Rightarrow> (u32 \<times> u8 list \<times> u8 list \<times> u8 list) option option" where
  "star I p s = do {
     (c, p1) \<leftarrow> next_char p;
     if c = ucast (matchAll I) then star I p1 s
     else if c = ucast (matchOne I) then do {
       (c2, s1) \<leftarrow> next_char s;
       if c2 = 0 then Some None else star I p1 s1
     } else Some (Some (c, p, p1, s))
   }"
  by pat_completeness auto
termination
  by (relation "measure (\<lambda>(I, p, s). length p)") (auto dest: next_char_less)

declare star.simps [simp del]

lemma star_less: "star I p s = Some (Some (c, pat, p2, s2)) \<Longrightarrow> length p2 < length p \<and> length pat \<le> length p"
proof (induction p arbitrary: s rule: measure_induct_rule [where f = length])
  case (less p)
  from less.prems show ?case
    by (subst (asm) star.simps)
      (auto simp: bind_eq_Some_conv split: if_splits dest!: next_char_less dest: less.IH [rotated])
qed

text \<open>The search for the next character equal to \<open>c\<close>; \<open>c2\<close> has been read.\<close>

function find_char :: "compareInfo \<Rightarrow> u32 \<Rightarrow> u32 \<Rightarrow> u8 list \<Rightarrow> (u32 \<times> u8 list) option" where
  "find_char I c c2 s =
    (if c2 \<noteq> 0 \<and> fold_char I c2 \<noteq> fold_char I c then do {
       (c2, s) \<leftarrow> next_char s;
       find_char I c c2 s
     } else Some (c2, s))"
  by pat_completeness auto
termination
  by (relation "measure (\<lambda>(I, c, c2, s). length s)") (auto dest: next_char_less)

declare find_char.simps [simp del]

lemma find_char_le: "find_char I c c2 s = Some (c', s') \<Longrightarrow> length s' \<le> length s"
proof (induction s arbitrary: c2 rule: measure_induct_rule [where f = length])
  case (less s)
  from less.prems show ?case
    by (subst (asm) find_char.simps)
      (auto simp: bind_eq_Some_conv split: if_splits dest!: next_char_less dest: less.IH [rotated])
qed

text \<open>
  The body of a \<^verbatim>\<open>[...]\<close>: \<open>c\<close> is the character of the text, \<open>c2\<close> the last one of the pattern. The
  pointer behind the closing bracket, or \<^const>\<open>None\<close> at the end of the pattern, and \<^verbatim>\<open>seen\<close>.
\<close>

function set_loop :: "u32 \<Rightarrow> u32 \<Rightarrow> u8 list \<Rightarrow> u32 \<Rightarrow> bool \<Rightarrow> (u8 list option \<times> bool) option" where
  "set_loop c c2 p prior_c seen =
    (if c2 = 0 then Some (None, seen)
     else if c2 = 0x5D then Some (Some p, seen)
     else do {
       range \<leftarrow> (if c2 = 0x2D then do { b \<leftarrow> rd p 0; Some (b \<noteq> 0x5D \<and> b \<noteq> 0 \<and> 0 < prior_c) } else Some False);
       if range then do {
         (c2, p) \<leftarrow> next_char p;
         let seen = (seen \<or> prior_c \<le> c \<and> c \<le> c2);
         (c2, p) \<leftarrow> next_char p;
         set_loop c c2 p 0 seen
       } else do {
         let seen = (seen \<or> c = c2);
         let prior_c = c2;
         (c2, p) \<leftarrow> next_char p;
         set_loop c c2 p prior_c seen
       }
     })"
  by pat_completeness auto
termination
  by (relation "measure (\<lambda>(c, c2, p, prior_c, seen). length p)") (auto dest!: next_char_less)

declare set_loop.simps [simp del]

definition match_set :: "u8 list \<Rightarrow> u8 list \<Rightarrow> (u8 list \<times> u8 list) option option" where
  "match_set p s = do {
     (c, s) \<leftarrow> next_char s;
     if c = 0 then Some None
     else do {
       (c2, p) \<leftarrow> next_char p;
       let invert = (c2 = 0x5E);
       (c2, p) \<leftarrow> (if invert then next_char p else Some (c2, p));
       let seen = (c2 = 0x5D \<and> c = 0x5D);
       (c2, p) \<leftarrow> (if c2 = 0x5D then next_char p else Some (c2, p));
       (r, seen) \<leftarrow> set_loop c c2 p 0 seen;
       Some (case r of None \<Rightarrow> None | Some p \<Rightarrow> if seen = invert then None else Some (p, s))
     }
   }"

lemma set_loop_le: "set_loop c c2 p prior seen = Some (Some p', seen') \<Longrightarrow> length p' \<le> length p"
proof (induction p arbitrary: c2 prior seen rule: measure_induct_rule [where f = length])
  case (less p)
  from less.prems show ?case
    by (subst (asm) set_loop.simps)
      (auto simp: bind_eq_Some_conv Let_def split: if_splits dest!: next_char_less dest: less.IH [rotated])
qed

lemma opt_next_le: "(if b then next_char p else Some (c, p)) = Some (c', p') \<Longrightarrow> length p' \<le> length p"
  by (auto split: if_splits dest: next_char_less)

lemma bind_pairE:
  assumes "Option.bind x f = Some y"
  obtains a b where "x = Some (a, b)" "f (a, b) = Some y"
  using assms by (cases x) auto

lemma match_set_less:
  assumes "match_set p s = Some (Some (p', s'))"
  shows "length p' < length p"
  using assms unfolding match_set_def Let_def
  apply -
  apply (erule bind_pairE, simp only: prod.case split: if_split_asm, simp)
  apply (erule bind_pairE, simp only: prod.case)+
  apply (drule next_char_less opt_next_le)+
  apply (auto split: option.splits if_splits dest!: set_loop_le)
  done

text \<open>
  \<^verbatim>\<open>patternCompare\<close>: the main loop with \<^verbatim>\<open>prevEscape\<close>, and the two loops behind a \<^verbatim>\<open>matchAll\<close> that try
  the rest of the pattern on suffixes of the text.
\<close>

function patternCompare :: "compareInfo \<Rightarrow> u32 \<Rightarrow> u8 list \<Rightarrow> u8 list \<Rightarrow> bool \<Rightarrow> bool option"
  and try_char :: "compareInfo \<Rightarrow> u32 \<Rightarrow> u32 \<Rightarrow> u8 list \<Rightarrow> u8 list \<Rightarrow> bool option"
  and try_set :: "compareInfo \<Rightarrow> u32 \<Rightarrow> u8 list \<Rightarrow> u8 list \<Rightarrow> bool option" where
  "patternCompare I esc p s prevEscape = do {
     (c, p1) \<leftarrow> next_char p;
     if c = 0 then do { b \<leftarrow> rd s 0; Some (b = 0) }
     else if \<not> prevEscape \<and> c = ucast (matchAll I) then do {
       r \<leftarrow> star I p1 s;
       case r of
         None \<Rightarrow> Some False
       | Some (c, pat, p2, s2) \<Rightarrow>
           if c = 0 then Some True
           else if c = esc then do {
             (c, p3) \<leftarrow> next_char p2;
             if c = 0 then Some False else try_char I esc c p3 s2
           }
           else if c = ucast (matchSet I) then try_set I esc pat s2
           else try_char I esc c p2 s2
     }
     else if \<not> prevEscape \<and> c = ucast (matchOne I) then do {
       (c2, s1) \<leftarrow> next_char s;
       if c2 = 0 then Some False else patternCompare I esc p1 s1 prevEscape
     }
     else if c = ucast (matchSet I) then do {
       r \<leftarrow> match_set p1 s;
       case r of
         None \<Rightarrow> Some False
       | Some (p2, s2) \<Rightarrow> patternCompare I esc p2 s2 prevEscape
     }
     else if esc = c \<and> \<not> prevEscape then patternCompare I esc p1 s True
     else do {
       (c2, s1) \<leftarrow> next_char s;
       if fold_char I c \<noteq> fold_char I c2 then Some False else patternCompare I esc p1 s1 False
     }
   }"
| "try_char I esc c p s = do {
     (c2, s1) \<leftarrow> next_char s;
     if c2 = 0 then Some False
     else do {
       (c2, s2) \<leftarrow> find_char I c c2 s1;
       if c2 = 0 then Some False
       else do {
         r \<leftarrow> patternCompare I esc p s2 False;
         if r then Some True else try_char I esc c p s2
       }
     }
   }"
| "try_set I esc p s = do {
     b \<leftarrow> rd s 0;
     if b = 0 then Some False
     else do {
       r \<leftarrow> patternCompare I esc p s False;
       if r then Some True
       else do {
         n \<leftarrow> SQLITE_SKIP_UTF8 s 0;
         try_set I esc p (drop n s)
       }
     }
   }"
  by pat_completeness auto
termination
  by (relation "measures [case_sum (\<lambda>(I, esc, p, s, e). length p) (case_sum (\<lambda>(I, esc, c, p, s). length p) (\<lambda>(I, esc, p, s). length p)),
     case_sum (\<lambda>(I, esc, p, s, e). length s) (case_sum (\<lambda>(I, esc, c, p, s). length s) (\<lambda>(I, esc, p, s). length s)),
     case_sum (\<lambda>_. 0) (case_sum (\<lambda>_. 0) (\<lambda>_. 1 :: nat))]")
    (auto dest!: next_char_less star_less match_set_less find_char_le SQLITE_SKIP_UTF8_bounds)

declare patternCompare.simps [simp del] try_char.simps [simp del] try_set.simps [simp del]

text \<open>
  \<^verbatim>\<open>likeFunc\<close> on what \<^verbatim>\<open>sqlite3_value_text\<close> and \<^verbatim>\<open>sqlite3_value_bytes\<close> return for its arguments:
  \<open>zB\<close> of \<open>nPat\<close> bytes is the pattern, \<open>zA\<close> the text, \<open>zEsc\<close> the third argument if there is one, and
  \<^const>\<open>None\<close> is the null pointer of an SQL \<^verbatim>\<open>NULL\<close>. The outer option is a read outside.
\<close>

datatype func_result = ResNull | ResInt bool | ResError string

definition likeFunc ::
  "nat \<Rightarrow> compareInfo \<Rightarrow> u8 list option \<Rightarrow> nat \<Rightarrow> u8 list option \<Rightarrow> u8 list option option \<Rightarrow> func_result option" where
  "likeFunc limit I zB nPat zA argEsc =
    (if limit < nPat then Some (ResError ''LIKE or GLOB pattern too complex'')
     else
       let compare = (\<lambda>esc. case (zA, zB) of
             (Some a, Some b) \<Rightarrow> map_option ResInt (patternCompare I esc b a False)
           | _ \<Rightarrow> Some ResNull)
       in case argEsc of
         None \<Rightarrow> compare 0
       | Some None \<Rightarrow> Some ResNull
       | Some (Some zEsc) \<Rightarrow> do {
           n \<leftarrow> sqlite3Utf8CharLen zEsc (-1);
           if n \<noteq> 1 then Some (ResError ''ESCAPE expression must be a single character'')
           else do {
             (esc, _) \<leftarrow> next_char zEsc;
             compare esc
           }
         })"

section \<open>Patterns on characters\<close>

datatype item = Single u32 | Range u32 u32
datatype token = PAny | POne | PLit u32 | PSet bool "item list" | PFail

text \<open>
  The items of a set behind its opening: a closing bracket ends it, a minus between two characters is
  a range, an unclosed set is \<^const>\<open>None\<close>.
\<close>

fun set_items :: "u32 \<Rightarrow> u32 list \<Rightarrow> (item list \<times> u32 list) option" where
  "set_items prior [] = None"
| "set_items prior [c] = (if c = 0x5D then Some ([], []) else None)"
| "set_items prior (c # d # p) =
    (if c = 0x5D then Some ([], d # p)
     else if c = 0x2D \<and> d \<noteq> 0x5D \<and> 0 < prior
     then do { (its, q) \<leftarrow> set_items 0 p; Some (Range prior d # its, q) }
     else do { (its, q) \<leftarrow> set_items c (d # p); Some (Single c # its, q) })"

definition set_token :: "u32 list \<Rightarrow> (bool \<times> item list \<times> u32 list) option" where
  "set_token p = (let neg = (take 1 p = [0x5E]); p = (if neg then tl p else p);
     first = (take 1 p = [0x5D]); p = (if first then tl p else p)
   in do { (its, q) \<leftarrow> set_items 0 p; Some (neg, (if first then [Single 0x5D] else []) @ its, q) })"

lemma set_items_less: "set_items prior p = Some (its, q) \<Longrightarrow> length q < length p"
  by (induction prior p arbitrary: its q rule: set_items.induct)
    (auto simp: bind_eq_Some_conv less_SucI split: if_splits)

lemma set_token_less: "set_token p = Some (neg, its, q) \<Longrightarrow> length q < length p"
  by (auto simp: set_token_def Let_def bind_eq_Some_conv dest!: set_items_less split: if_splits)

lemma list_all_tl: "list_all P xs \<Longrightarrow> list_all P (tl xs)"
  by (cases xs) auto

lemma set_items_rest: "set_items prior ps = Some (its, q) \<Longrightarrow> list_all P ps \<Longrightarrow> list_all P q"
  by (induction prior ps arbitrary: its q rule: set_items.induct) (auto simp: bind_eq_Some_conv split: if_splits)

lemma set_token_rest: "set_token ps = Some (neg, its, q) \<Longrightarrow> list_all P ps \<Longrightarrow> list_all P q"
  by (auto simp: set_token_def Let_def bind_eq_Some_conv list_all_tl dest!: set_items_rest [where P = P] split: if_splits)

text \<open>
  The tokens of a pattern, as they are documented: the escape character takes the special meaning from
  the character behind it, whatever that is, a second escape character included. A pattern that ends
  with its escape character has none.
\<close>

function tokens :: "compareInfo \<Rightarrow> u32 \<Rightarrow> u32 list \<Rightarrow> token list option" where
  "tokens I esc [] = Some []"
| "tokens I esc (c # p) =
    (if c = esc then
       (case p of [] \<Rightarrow> None | d # q \<Rightarrow> map_option ((#) (PLit d)) (tokens I esc q))
     else if c = ucast (matchAll I) then map_option ((#) PAny) (tokens I esc p)
     else if c = ucast (matchOne I) then map_option ((#) POne) (tokens I esc p)
     else if c = ucast (matchSet I) then
       (case set_token p of
          None \<Rightarrow> Some [PFail]
        | Some (neg, its, q) \<Rightarrow> map_option ((#) (PSet neg its)) (tokens I esc q))
     else map_option ((#) (PLit c)) (tokens I esc p))"
  by pat_completeness auto
termination
  by (relation "measure (\<lambda>(I, esc, p). length p)") (auto dest: set_token_less)

declare tokens.simps(2) [simp del]

fun in_item :: "u32 \<Rightarrow> item \<Rightarrow> bool" where
  "in_item c (Single d) = (c = d)"
| "in_item c (Range a b) = (a \<le> c \<and> c \<le> b)"

text \<open>
  What a pattern means: \<open>PAny\<close> stands for any characters, \<open>POne\<close> for one, a literal for itself (up to
  the case of ASCII letters when the operator ignores case), a set for one character inside it or,
  inverted, outside it.
\<close>

fun matches :: "compareInfo \<Rightarrow> token list \<Rightarrow> u32 list \<Rightarrow> bool" where
  "matches I [] cs = (cs = [])"
| "matches I (PAny # t) cs = (\<exists>k \<le> length cs. matches I t (drop k cs))"
| "matches I (POne # t) cs = (cs \<noteq> [] \<and> matches I t (tl cs))"
| "matches I (PLit c # t) cs = (cs \<noteq> [] \<and> fold_char I (hd cs) = fold_char I c \<and> matches I t (tl cs))"
| "matches I (PSet neg its # t) cs = (cs \<noteq> [] \<and> list_ex (in_item (hd cs)) its \<noteq> neg \<and> matches I t (tl cs))"
| "matches I (PFail # t) cs = False"

section \<open>Reading the encoded characters\<close>

abbreviation okc :: "u32 \<Rightarrow> bool" where "okc c \<equiv> valid_char c \<and> c \<noteq> 0"

text \<open>The characters of a text with the terminator behind them.\<close>

definition Z :: "u32 list \<Rightarrow> u8 list" where "Z cs = enc8 cs @ [0]"

lemma next_char_Nil [simp]: "next_char (Z []) = Some (0, [])"
  by (simp add: Z_def next_char_def sqlite3Utf8Read_def rd_def)

lemma Utf8Read_Z:
  assumes "okc c"
  shows "sqlite3Utf8Read (pre @ Z (c # cs)) (length pre) = Some (c, length pre + length (WRITE_UTF8 c))"
proof -
  let ?z = "pre @ Z (c # cs)" and ?j = "length pre + length (WRITE_UTF8 c)"
  have "c < 0x200000" using assms by (simp add: valid_char_def word_less_nat_alt)
  moreover have "ends ?z None ?j"
  proof (cases cs)
    case Nil
    then show ?thesis by (simp add: ends_def Z_def rd_def nth_append)
  next
    case (Cons d ds)
    have "rd ?z ?j = Some ((WRITE_UTF8 c @ WRITE_UTF8 d) ! length (WRITE_UTF8 c))"
      by (rule rd_drop_append [where r = "enc8 ds @ [0]"])
        (use Cons length_WRITE_UTF8(1) [of d] in \<open>simp_all add: Z_def\<close>)
    then have "rd ?z ?j = Some (WRITE_UTF8 d ! 0)" by (simp add: nth_append)
    then show ?thesis using first_WRITE_UTF8 [of d] by (simp add: ends_def)
  qed
  ultimately have "utf8_read None ?z (length pre) = Some (if c < 0x80 then c else utf8_fix c, ?j)"
    by (intro utf8_read_WRITE [where r = "enc8 cs @ [0]"]) (auto simp: Z_def)
  then show ?thesis
    using assms by (simp only: valid_char_fix utf8_read_def) simp
qed

lemma next_char_Cons [simp]: "okc c \<Longrightarrow> next_char (Z (c # cs)) = Some (c, Z cs)"
  using Utf8Read_Z [of c "[]" cs] by (simp add: next_char_def) (simp add: Z_def)

lemma rd_Z_Nil [simp]: "rd (Z []) 0 = Some 0"
  by (simp add: Z_def rd_def)

lemma rd_Z_Cons:
  assumes "okc c"
  obtains b where "rd (Z (c # cs)) 0 = Some b" "\<And>k. k < 0x80 \<Longrightarrow> b = k \<longleftrightarrow> c = ucast k"
proof -
  have "sqlite3Utf8Read (Z (c # cs)) 0 \<noteq> None"
    using next_char_Cons [OF assms, of cs] by (auto simp: next_char_def bind_eq_Some_conv)
  then obtain b where b: "rd (Z (c # cs)) 0 = Some b" by (cases "rd (Z (c # cs)) 0") (auto simp: sqlite3Utf8Read_def)
  have "b = k \<longleftrightarrow> c = ucast k" if k: "k < 0x80" for k
  proof
    assume "b = k"
    then have "b < 0xc0" using k by (simp add: word_less_nat_alt)
    then have "next_char (Z (c # cs)) = Some (ucast b, drop 1 (Z (c # cs)))"
      using b by (simp add: next_char_def sqlite3Utf8Read_def linorder_not_le [symmetric])
    then show "c = ucast k" using assms \<open>b = k\<close> by simp
  next
    assume c: "c = ucast k"
    then have "c < 0x80" using k by (simp add: word_less_nat_alt unat_ucast_u8_u32)
    moreover have M: "0xFF = (mask 8 :: u32)" by (simp add: mask_eq_exp_minus_1)
    have "ucast (c AND 0xFF) = k" unfolding c M by (rule bit_word_eqI) (simp add: bit_simps)
    ultimately show "b = k" using b by (simp add: Z_def WRITE_UTF8_def rd_def)
  qed
  with b that show ?thesis by blast
qed

section \<open>The loops on characters\<close>

lemma matches_PAny_Nil [simp]: "matches I (PAny # t) [] = matches I t []"
  by simp

lemma matches_PAny_Cons: "matches I (PAny # t) (c # cs) \<longleftrightarrow> matches I t (c # cs) \<or> matches I (PAny # t) cs"
proof
  assume "matches I (PAny # t) (c # cs)"
  then obtain k where "k \<le> Suc (length cs)" "matches I t (drop k (c # cs))" by auto
  then show "matches I t (c # cs) \<or> matches I (PAny # t) cs" by (cases k) auto
next
  assume "matches I t (c # cs) \<or> matches I (PAny # t) cs"
  then show "matches I (PAny # t) (c # cs)"
  proof
    assume "matches I t (c # cs)"
    then show ?thesis by (auto intro: exI [of _ 0])
  next
    assume "matches I (PAny # t) cs"
    then obtain k where "k \<le> length cs" "matches I t (drop k cs)" by auto
    then show ?thesis by (auto intro: exI [of _ "Suc k"])
  qed
qed

declare matches.simps(2) [simp del]

lemma matches_PAny_PAny [simp]: "matches I (PAny # PAny # t) cs = matches I (PAny # t) cs"
  by (induction cs) (auto simp: matches_PAny_Cons)

lemma matches_PAny_POne [simp]: "matches I (PAny # POne # t) cs \<longleftrightarrow> cs \<noteq> [] \<and> matches I (PAny # t) (tl cs)"
proof (induction cs)
  case (Cons c cs)
  then show ?case by (cases cs) (auto simp: matches_PAny_Cons)
qed simp

lemma matches_PAny_all [simp]: "matches I [PAny] cs"
  by (simp add: matches.simps(2)) auto

lemma try_char_Nil: "try_char I esc c p (Z []) = Some False"
  by (subst try_char.simps) simp

lemma try_char_Cons:
  assumes "okc d" "list_all okc cs"
  shows "try_char I esc c p (Z (d # cs)) =
    (if fold_char I d = fold_char I c
     then do { r \<leftarrow> patternCompare I esc p (Z cs) False; if r then Some True else try_char I esc c p (Z cs) }
     else try_char I esc c p (Z cs))"
proof (cases "fold_char I d = fold_char I c")
  case True
  then show ?thesis using assms by (subst try_char.simps) (subst find_char.simps, simp)
next
  case False
  show ?thesis
  proof (cases cs)
    case Nil
    then show ?thesis using assms False
      by (subst try_char.simps) (subst find_char.simps, simp add: try_char_Nil find_char.simps [of I c 0])
  next
    case (Cons e es)
    have "find_char I c d (Z cs) = find_char I c e (Z es)"
      using assms False Cons by (subst find_char.simps) simp
    moreover have "try_char I esc c p (Z cs) = do {
       (c2, s2) \<leftarrow> find_char I c e (Z es);
       if c2 = 0 then Some False
       else do { r \<leftarrow> patternCompare I esc p s2 False; if r then Some True else try_char I esc c p s2 } }"
      using assms Cons by (subst try_char.simps) simp
    ultimately show ?thesis using assms False by (subst try_char.simps) simp
  qed
qed

lemma try_char_ok:
  assumes "\<And>cs. list_all okc cs \<Longrightarrow> patternCompare I esc p (Z cs) False = Some (matches I ts cs)"
  shows "list_all okc cs \<Longrightarrow> try_char I esc c p (Z cs) = Some (matches I (PAny # PLit c # ts) cs)"
  by (induction cs) (auto simp: try_char_Nil try_char_Cons assms matches_PAny_Cons)

lemma skip_Z_Cons:
  assumes "okc d"
  shows "do { n \<leftarrow> SQLITE_SKIP_UTF8 (Z (d # cs)) 0; f (drop n (Z (d # cs))) } = f (Z cs)"
proof -
  obtain n where "sqlite3Utf8Read (Z (d # cs)) 0 = Some (d, n)" "drop n (Z (d # cs)) = Z cs"
    using next_char_Cons [OF assms, of cs] by (auto simp: next_char_def bind_eq_Some_conv)
  then show ?thesis by (simp add: sqlite3Utf8Read_skip)
qed

lemma try_set_ok:
  assumes "\<And>cs. list_all okc cs \<Longrightarrow> patternCompare I esc p (Z cs) False = Some (matches I ts cs)"
    and "\<not> matches I ts []"
  shows "list_all okc cs \<Longrightarrow> try_set I esc p (Z cs) = Some (matches I (PAny # ts) cs)"
proof (induction cs)
  case Nil
  then show ?case using assms(2) by (subst try_set.simps) simp
next
  case (Cons d cs)
  then obtain b where b: "rd (Z (d # cs)) 0 = Some b" "b \<noteq> 0" using rd_Z_Cons [of d cs] by force
  show ?case using b Cons
    by (subst try_set.simps) (simp add: skip_Z_Cons assms(1) matches_PAny_Cons)
qed

lemma set_loop_ok:
  "list_all okc ps \<Longrightarrow> \<exists>sn. do { (c2, p) \<leftarrow> next_char (Z ps); set_loop c c2 p prior seen } =
     Some (case set_items prior ps of None \<Rightarrow> (None, sn) | Some (its, q) \<Rightarrow> (Some (Z q), seen \<or> list_ex (in_item c) its))"
proof (induction prior ps arbitrary: seen rule: set_items.induct)
  case (1 prior)
  show ?case by (simp add: set_loop.simps [of c 0])
next
  case (2 prior d)
  then show ?case by (subst set_loop.simps) (simp add: set_loop.simps [of c 0])
next
  case (3 prior d e p)
  from 3(3) have ok: "okc d" "okc e" "list_all okc (e # p)" "list_all okc p" by auto
  obtain b where b: "rd (Z (e # p)) 0 = Some b" "b = 0x5D \<longleftrightarrow> e = 0x5D" "b \<noteq> 0"
    using rd_Z_Cons [of e p] ok(2) by force
  consider "d = 0x5D" | "d = 0x2D" "e \<noteq> 0x5D" "0 < prior" | "d \<noteq> 0x5D" "\<not> (d = 0x2D \<and> e \<noteq> 0x5D \<and> 0 < prior)"
    by blast
  then show ?case
  proof cases
    case 1
    then show ?thesis using ok by (subst set_loop.simps) simp
  next
    case 2
    then have "do { (c2, p) \<leftarrow> next_char (Z (d # e # p)); set_loop c c2 p prior seen } =
        do { (c2, p) \<leftarrow> next_char (Z p); set_loop c c2 p 0 (seen \<or> prior \<le> c \<and> c \<le> e) }"
      using ok b by (subst set_loop.simps) simp
    then show ?thesis
      using 3(1) [OF _ _ ok(4), of "seen \<or> prior \<le> c \<and> c \<le> e"] 2
      by (auto simp: bind_eq_Some_conv split: option.splits)
  next
    case 3
    then have "do { (c2, p) \<leftarrow> next_char (Z (d # e # p)); set_loop c c2 p prior seen } =
        do { (c2, p) \<leftarrow> next_char (Z (e # p)); set_loop c c2 p d (seen \<or> c = d) }"
      using ok b by (subst set_loop.simps) auto
    then show ?thesis
      using "3.IH"(2) [OF _ _ ok(3), of "seen \<or> c = d"] 3
      by (auto simp: bind_eq_Some_conv split: option.splits)
  qed
qed

lemma match_set_Nil: "match_set p (Z []) = Some None"
  by (simp add: match_set_def)

lemma match_set_ok:
  assumes "list_all okc ps" "okc d"
  shows "match_set (Z ps) (Z (d # cs)) =
    Some (case set_token ps of None \<Rightarrow> None
      | Some (neg, its, q) \<Rightarrow> if list_ex (in_item d) its \<noteq> neg then Some (Z q, Z cs) else None)"
proof -
  define neg where "neg = (take 1 ps = [0x5E])"
  define ps1 where "ps1 = (if neg then tl ps else ps)"
  define first where "first = (take 1 ps1 = [0x5D])"
  define ps2 where "ps2 = (if first then tl ps1 else ps1)"
  have ok: "list_all okc ps1" "list_all okc ps2"
    using assms(1) by (simp_all add: ps1_def ps2_def list_all_tl)
  have "match_set (Z ps) (Z (d # cs)) = do {
       (c2, p) \<leftarrow> next_char (Z ps1);
       let seen = (c2 = 0x5D \<and> d = 0x5D);
       (c2, p) \<leftarrow> (if c2 = 0x5D then next_char p else Some (c2, p));
       (r, seen) \<leftarrow> set_loop d c2 p 0 seen;
       Some (case r of None \<Rightarrow> None | Some p \<Rightarrow> if seen = neg then None else Some (p, Z cs)) }"
    using assms by (cases ps) (auto simp: match_set_def ps1_def neg_def cong: option.case_cong)
  also obtain c2 p2 where nx: "next_char (Z ps2) = Some (c2, p2)"
    using ok(2) by (cases ps2) auto
  have "do {
       (c2, p) \<leftarrow> next_char (Z ps1);
       let seen = (c2 = 0x5D \<and> d = 0x5D);
       (c2, p) \<leftarrow> (if c2 = 0x5D then next_char p else Some (c2, p));
       (r, seen) \<leftarrow> set_loop d c2 p 0 seen;
       Some (case r of None \<Rightarrow> None | Some p \<Rightarrow> if seen = neg then None else Some (p, Z cs)) } = do {
       (r, seen) \<leftarrow> set_loop d c2 p2 0 (first \<and> d = 0x5D);
       Some (case r of None \<Rightarrow> None | Some p \<Rightarrow> if seen = neg then None else Some (p, Z cs)) }"
    using ok nx by (cases ps1) (auto simp: ps2_def first_def cong: option.case_cong)
  also obtain sn where "set_loop d c2 p2 0 (first \<and> d = 0x5D) =
     Some (case set_items 0 ps2 of None \<Rightarrow> (None, sn)
       | Some (its, q) \<Rightarrow> (Some (Z q), (first \<and> d = 0x5D) \<or> list_ex (in_item d) its))"
    using set_loop_ok [OF ok(2), of d 0 "first \<and> d = 0x5D"] nx by auto
  finally have "match_set (Z ps) (Z (d # cs)) = do {
       (r, seen) \<leftarrow> Some (case set_items 0 ps2 of None \<Rightarrow> (None, sn)
         | Some (its, q) \<Rightarrow> (Some (Z q), (first \<and> d = 0x5D) \<or> list_ex (in_item d) its));
       Some (case r of None \<Rightarrow> None | Some p \<Rightarrow> if seen = neg then None else Some (p, Z cs)) }" .
  moreover have "set_token ps =
      do { (its, q) \<leftarrow> set_items 0 ps2; Some (neg, (if first then [Single 0x5D] else []) @ its, q) }"
    by (simp only: set_token_def Let_def neg_def ps1_def first_def ps2_def)
  ultimately show ?thesis by (cases "set_items 0 ps2") auto
qed

text \<open>
  The ways \<^verbatim>\<open>likeFunc\<close> calls \<^verbatim>\<open>patternCompare\<close>. Only \<^verbatim>\<open>LIKE\<close> has an escape character; that it is neither
  of the wildcards is a restriction (see \<^verbatim>\<open>like_escape_wildcard\<close>).
\<close>

definition like_call :: "compareInfo \<Rightarrow> u32 \<Rightarrow> bool" where
  "like_call I esc \<longleftrightarrow> I = globInfo \<and> esc = 0 \<or> (I = likeInfoNorm \<or> I = likeInfoAlt) \<and> esc \<noteq> 0x25 \<and> esc \<noteq> 0x5F"

lemma like_call_wild:
  assumes "like_call I esc"
  shows "ucast (matchAll I) \<noteq> (0 :: u32)" "ucast (matchOne I) \<noteq> (0 :: u32)" "ucast (matchAll I) \<noteq> esc" "ucast (matchOne I) \<noteq> esc"
    "ucast (matchSet I) = (c :: u32) \<Longrightarrow> c \<noteq> 0 \<Longrightarrow> esc = 0 \<and> ucast (matchAll I) \<noteq> c \<and> ucast (matchOne I) \<noteq> c"
  using assms by (auto simp: like_call_def globInfo_def likeInfoNorm_def likeInfoAlt_def)

text \<open>For such an escape character, the order of the tests in the code makes no difference.\<close>

lemma tokens_Cons:
  assumes "like_call I esc" "c \<noteq> 0"
  shows "tokens I esc (c # p) =
    (if c = ucast (matchAll I) then map_option ((#) PAny) (tokens I esc p)
     else if c = ucast (matchOne I) then map_option ((#) POne) (tokens I esc p)
     else if c = ucast (matchSet I) then
       (case set_token p of
          None \<Rightarrow> Some [PFail]
        | Some (neg, its, q) \<Rightarrow> map_option ((#) (PSet neg its)) (tokens I esc q))
     else if c = esc then
       (case p of [] \<Rightarrow> None | d # q \<Rightarrow> map_option ((#) (PLit d)) (tokens I esc q))
     else map_option ((#) (PLit c)) (tokens I esc p))"
proof -
  have "c = esc \<Longrightarrow> c \<noteq> ucast (matchAll I) \<and> c \<noteq> ucast (matchOne I) \<and> c \<noteq> ucast (matchSet I)"
    using like_call_wild(3,4) [OF assms(1)] like_call_wild(5) [OF assms(1), of c] assms(2) by auto
  then show ?thesis by (subst tokens.simps) auto
qed

lemma star_ok:
  assumes L: "like_call I esc"
  shows "list_all okc ps \<Longrightarrow> list_all okc cs \<Longrightarrow> tokens I esc ps = Some ts \<Longrightarrow>
    star I (Z ps) (Z cs) = Some None \<and> \<not> matches I (PAny # ts) cs \<or>
    (\<exists>ps' cs' ts'. star I (Z ps) (Z cs) =
        Some (Some (case ps' of [] \<Rightarrow> (0, Z [], [], Z cs') | c # q \<Rightarrow> (c, Z ps', Z q, Z cs'))) \<and>
      list_all okc ps' \<and> list_all okc cs' \<and> length ps' \<le> length ps \<and> tokens I esc ps' = Some ts' \<and>
      matches I (PAny # ts) cs = matches I (PAny # ts') cs' \<and>
      (ps' \<noteq> [] \<longrightarrow> hd ps' \<noteq> ucast (matchAll I) \<and> hd ps' \<noteq> ucast (matchOne I)))"
proof (induction ps arbitrary: cs ts)
  case Nil
  have "star I (Z []) (Z cs) = Some (Some (0, Z [], [], Z cs))" using like_call_wild(1,2) [OF L] by (subst star.simps) auto
  then show ?case using Nil by (intro disjI2 exI [of _ "[]"] exI [of _ cs] exI [of _ ts]) simp
next
  case (Cons c ps)
  then have ok: "okc c" "list_all okc ps" by auto
  consider (all) "c = ucast (matchAll I)" | (one) "c \<noteq> ucast (matchAll I)" "c = ucast (matchOne I)"
    | (other) "c \<noteq> ucast (matchAll I)" "c \<noteq> ucast (matchOne I)" by blast
  then show ?case
  proof cases
    case all
    then obtain t where t: "ts = PAny # t" "tokens I esc ps = Some t"
      using Cons.prems(3) ok(1) by (auto simp: tokens_Cons [OF L])
    have "star I (Z (c # ps)) (Z cs) = star I (Z ps) (Z cs)"
      using ok all by (subst star.simps) simp
    then show ?thesis using Cons.IH [OF ok(2) Cons.prems(2) t(2)] t(1) by (simp add: le_Suc_eq) blast
  next
    case one
    then obtain t where t: "ts = POne # t" "tokens I esc ps = Some t"
      using Cons.prems(3) ok(1) by (auto simp: tokens_Cons [OF L])
    show ?thesis
    proof (cases cs)
      case Nil
      then have "star I (Z (c # ps)) (Z cs) = Some None" using ok one by (subst star.simps) simp
      then show ?thesis using t Nil by simp
    next
      case (Cons d ds)
      then have "star I (Z (c # ps)) (Z cs) = star I (Z ps) (Z ds)"
        using ok one Cons.prems(2) by (subst star.simps) simp
      then show ?thesis using Cons.IH [OF ok(2) _ t(2), of ds] Cons.prems(2) t(1) Cons by (simp add: le_Suc_eq) blast
    qed
  next
    case other
    then have "star I (Z (c # ps)) (Z cs) = Some (Some (c, Z (c # ps), Z ps, Z cs))"
      using ok by (subst star.simps) simp
    then show ?thesis
      using other Cons.prems by (intro disjI2 exI [of _ "c # ps"] exI [of _ cs] exI [of _ ts]) simp
  qed
qed

section \<open>patternCompare decides the meaning of the pattern\<close>

lemma fold_char_0: "fold_char I c = fold_char I 0 \<longleftrightarrow> c = 0"
proof -
  have M: "0x7F = (mask 7 :: u32)" by (simp add: mask_eq_exp_minus_1)
  have "c = 0" if *: "c AND NOT (mask 7) = 0" "(ucast c :: u8) = 0"
  proof (rule bit_word_eqI)
    fix n assume "n < LENGTH(32)"
    show "bit c n = bit 0 n"
    proof (cases "n < 7")
      case True
      then show ?thesis using arg_cong [OF *(2), of "\<lambda>w. bit w n"] by (simp add: bit_simps)
    next
      case False
      then show ?thesis using arg_cong [OF *(1), of "\<lambda>w. bit w n"] \<open>n < LENGTH(32)\<close> by (simp add: bit_simps)
    qed
  qed
  then have c: "c = 0" if "c AND NOT 0x7F = 0" "(ucast c :: u8) = 0"
    using that unfolding M by blast
  have u: "ucast w = (0 :: u32) \<longleftrightarrow> w = 0" for w :: u8
    by (metis unat_ucast_u8_u32 unat_eq_zero)
  have "GlogUpperToLower c = 0 \<longleftrightarrow> c = 0"
  proof (cases "c AND NOT 0x7F = 0")
    case True
    then have "GlogUpperToLower c = ucast (sqlite3UpperToLower (ucast c))" unfolding GlogUpperToLower_def by (rule if_P)
    then show ?thesis using c [OF True] u [of "sqlite3UpperToLower (ucast c)"] by auto
  next
    case False
    then have "GlogUpperToLower c = c" unfolding GlogUpperToLower_def by (rule if_not_P)
    then show ?thesis by simp
  qed
  moreover have "GlogUpperToLower 0 = 0" by (simp add: GlogUpperToLower_def)
  ultimately show ?thesis by (simp add: fold_char_def)
qed

lemma patternCompare_literal:
  assumes "okc d" "list_all okc q" "list_all okc cs" "d \<noteq> ucast (matchSet I)" "e \<or> d \<noteq> ucast (matchAll I) \<and> d \<noteq> ucast (matchOne I) \<and> d \<noteq> esc"
  shows "patternCompare I esc (Z (d # q)) (Z cs) e =
    (case cs of [] \<Rightarrow> Some False
     | c # cs \<Rightarrow> if fold_char I c = fold_char I d then patternCompare I esc (Z q) (Z cs) False else Some False)"
  using assms by (subst patternCompare.simps) (auto simp: fold_char_0 split: list.splits)

lemma patternCompare_any:
  assumes L: "like_call I esc" and ok: "list_all okc (c # ps)" "list_all okc cs" and c: "c = ucast (matchAll I)"
    and t: "tokens I esc ps = Some ts"
    and IH: "\<And>q cs ts. length q \<le> length ps \<Longrightarrow> list_all okc q \<Longrightarrow> list_all okc cs \<Longrightarrow>
      tokens I esc q = Some ts \<Longrightarrow> patternCompare I esc (Z q) (Z cs) False = Some (matches I ts cs)"
  shows "patternCompare I esc (Z (c # ps)) (Z cs) False = Some (matches I (PAny # ts) cs)"
proof -
  let ?rest = "\<lambda>r. case r of None \<Rightarrow> Some False
       | Some (c, pat, p2, s2) \<Rightarrow>
           if c = 0 then Some True
           else if c = esc then do {
             (c, p3) \<leftarrow> next_char p2;
             if c = 0 then Some False else try_char I esc c p3 s2
           }
           else if c = ucast (matchSet I) then try_set I esc pat s2
           else try_char I esc c p2 s2"
  have u: "patternCompare I esc (Z (c # ps)) (Z cs) False = do { r \<leftarrow> star I (Z ps) (Z cs); ?rest r }"
    using ok c by (subst patternCompare.simps) simp
  from star_ok [OF L, of ps cs ts] ok t
  consider "star I (Z ps) (Z cs) = Some None" "\<not> matches I (PAny # ts) cs"
    | ps' cs' ts' where "star I (Z ps) (Z cs) =
        Some (Some (case ps' of [] \<Rightarrow> (0, Z [], [], Z cs') | c # q \<Rightarrow> (c, Z ps', Z q, Z cs')))"
      "list_all okc ps'" "list_all okc cs'" "length ps' \<le> length ps" "tokens I esc ps' = Some ts'"
      "matches I (PAny # ts) cs = matches I (PAny # ts') cs'"
      "ps' \<noteq> [] \<longrightarrow> hd ps' \<noteq> ucast (matchAll I) \<and> hd ps' \<noteq> ucast (matchOne I)"
    by auto
  then show ?thesis
  proof cases
    case 1
    then show ?thesis by (simp add: u)
  next
    case 2
    show ?thesis
    proof (cases ps')
      case Nil
      then show ?thesis using 2 by (simp add: u)
    next
      case (Cons d q)
      note two = 2 [unfolded Cons]
      have q: "list_all okc q" "length q \<le> length ps" "okc d" using two by auto
      have IHq: "patternCompare I esc (Z q) (Z cs) False = Some (matches I t cs)"
        if "tokens I esc q = Some t" "list_all okc cs" for t cs
        using IH [of q cs t] q that by simp
      consider (esc) "d = esc" "d \<noteq> ucast (matchSet I)" | (set) "d \<noteq> esc" "d = ucast (matchSet I)" | (lit) "d \<noteq> esc" "d \<noteq> ucast (matchSet I)"
        using like_call_wild(5) [OF L, of d] q(3) by metis
      then show ?thesis
      proof cases
        case esc
        then obtain f q' t where f: "q = f # q'" "ts' = PLit f # t" "tokens I esc q' = Some t"
          using two(5,7) q(3) by (auto simp: tokens_Cons [OF L] split: list.splits)
        have "try_char I esc f (Z q') (Z cs') = Some (matches I (PAny # PLit f # t) cs')"
          by (rule try_char_ok) (use IH [of q'] f q two in auto)
        then show ?thesis using esc two f q by (simp add: u)
      next
        case lit
        then obtain t where t: "ts' = PLit d # t" "tokens I esc q = Some t"
          using two(5,7) q(3) by (auto simp: tokens_Cons [OF L])
        have "try_char I esc d (Z q) (Z cs') = Some (matches I (PAny # PLit d # t) cs')"
          by (rule try_char_ok) (use IHq t two in auto)
        then show ?thesis using lit two t q by (simp add: u)
      next
        case set
        then have "\<not> matches I ts' []"
          using two(5,7) q(3) by (auto simp: tokens_Cons [OF L] split: option.splits)
        then have "try_set I esc (Z (d # q)) (Z cs') = Some (matches I (PAny # ts') cs')"
          by (intro try_set_ok) (use IH [of "d # q"] two in auto)
        then show ?thesis using set two q by (simp add: u)
      qed
    qed
  qed
qed

lemma patternCompare_matches:
  assumes L: "like_call I esc"
  shows "list_all okc ps \<Longrightarrow> list_all okc cs \<Longrightarrow> tokens I esc ps = Some ts \<Longrightarrow>
    patternCompare I esc (Z ps) (Z cs) False = Some (matches I ts cs)"
proof (induction ps arbitrary: cs ts rule: measure_induct_rule [where f = length])
  case (less ps)
  show ?case
  proof (cases ps)
    case Nil
    show ?thesis
    proof (cases cs)
      case Nil
      then show ?thesis using \<open>ps = []\<close> less.prems by (subst patternCompare.simps) simp
    next
      case (Cons c cs')
      then obtain b where "rd (Z cs) 0 = Some b" "b \<noteq> 0" using rd_Z_Cons [of c cs'] less.prems(2) by force
      then show ?thesis using \<open>ps = []\<close> less.prems Cons by (subst patternCompare.simps) simp
    qed
  next
    case (Cons c q)
    note prems = less.prems [unfolded Cons]
    have ok: "okc c" "list_all okc q" using prems by auto
    have IH: "patternCompare I esc (Z p) (Z cs) False = Some (matches I ts cs)"
      if "length p \<le> length q" "list_all okc p" "list_all okc cs" "tokens I esc p = Some ts" for p cs ts
      using less.IH [of p cs ts] that Cons by simp
    consider (all) "c = ucast (matchAll I)" | (one) "c \<noteq> ucast (matchAll I)" "c = ucast (matchOne I)"
      | (set) "c \<noteq> ucast (matchAll I)" "c \<noteq> ucast (matchOne I)" "c = ucast (matchSet I)"
      | (esc) "c \<noteq> ucast (matchAll I)" "c \<noteq> ucast (matchOne I)" "c \<noteq> ucast (matchSet I)" "c = esc"
      | (lit) "c \<noteq> ucast (matchAll I)" "c \<noteq> ucast (matchOne I)" "c \<noteq> ucast (matchSet I)" "c \<noteq> esc"
      by blast
    then show ?thesis
    proof cases
      case all
      then obtain t where "ts = PAny # t" "tokens I esc q = Some t" using prems(3) ok(1) by (auto simp: tokens_Cons [OF L])
      then show ?thesis using patternCompare_any [OF L prems(1,2) all, of t] IH Cons by simp
    next
      case one
      then obtain t where t: "ts = POne # t" "tokens I esc q = Some t" using prems(3) ok(1) by (auto simp: tokens_Cons [OF L])
      show ?thesis
        using one ok t prems(2) IH [of q] Cons by (cases cs; subst patternCompare.simps) auto
    next
      case set
      have e: "esc = 0" using like_call_wild(5) [OF L, of c] set ok by simp
      have u: "patternCompare I esc (Z (c # q)) (Z cs) False = do {
          r \<leftarrow> match_set (Z q) (Z cs);
          case r of None \<Rightarrow> Some False | Some (p2, s2) \<Rightarrow> patternCompare I esc p2 s2 False }"
        using set ok by (subst patternCompare.simps) simp
      show ?thesis
      proof (cases cs)
        case Nil
        then show ?thesis using u Cons set prems(3)
          using ok(1) by (auto simp: match_set_Nil tokens_Cons [OF L] split: option.splits)
      next
        case (Cons d ds)
        then show ?thesis using u \<open>ps = c # q\<close> set prems IH match_set_ok [OF ok(2), of d ds]
          using ok(1) by (auto simp: tokens_Cons [OF L] less_imp_le set_token_less set_token_rest split: option.splits)
      qed
    next
      case esc
      then obtain d q' t where q: "q = d # q'" "ts = PLit d # t" "tokens I esc q' = Some t"
        using prems(3) ok(1) by (auto simp: tokens_Cons [OF L] split: list.splits)
      have "patternCompare I esc (Z (c # q)) (Z cs) False = patternCompare I esc (Z q) (Z cs) True"
        using esc ok by (subst patternCompare.simps) simp
      moreover have "d \<noteq> ucast (matchSet I)"
        using like_call_wild(5) [OF L, of d] esc ok q(1) by auto
      ultimately show ?thesis
        using q ok prems(2) IH [of q'] Cons by (auto simp: patternCompare_literal split: list.splits)
    next
      case lit
      then obtain t where "ts = PLit c # t" "tokens I esc q = Some t" using prems(3) ok(1) by (auto simp: tokens_Cons [OF L])
      then show ?thesis
        using lit ok prems(2) IH [of q] Cons by (auto simp: patternCompare_literal split: list.splits)
    qed
  qed
qed

lemma charLen_loop_Z:
  "list_all okc es \<Longrightarrow> charLen_loop (pre @ Z es) None (length pre) r = Some (r + length es)"
proof (induction es arbitrary: pre r)
  case Nil
  then show ?case by (subst charLen_loop.simps) (simp add: rd_def Z_def)
next
  case (Cons c cs)
  then have ok: "okc c" "list_all okc cs" by auto
  obtain b where b: "rd (Z (c # cs)) 0 = Some b" "b \<noteq> 0" using rd_Z_Cons [of c cs] ok(1) by force
  then have "rd (pre @ Z (c # cs)) (length pre) = Some b" by (auto simp: rd_def nth_append split: if_splits)
  then have "charLen_loop (pre @ Z (c # cs)) None (length pre) r =
      charLen_loop (pre @ Z (c # cs)) None (length pre + length (WRITE_UTF8 c)) (r + 1)"
    using b(2) sqlite3Utf8Read_skip [OF Utf8Read_Z [OF ok(1), of pre cs]]
    by (subst charLen_loop.simps) simp
  also have "\<dots> = charLen_loop ((pre @ WRITE_UTF8 c) @ Z cs) None (length pre + length (WRITE_UTF8 c)) (r + 1)"
    by (simp add: Z_def)
  also have "\<dots> = Some (r + length (c # cs))"
    using Cons.IH [OF ok(2), of "pre @ WRITE_UTF8 c" "r + 1"] by simp
  finally show ?case .
qed

lemma CharLen_Z: "list_all okc es \<Longrightarrow> sqlite3Utf8CharLen (Z es) (-1) = Some (length es)"
  using charLen_loop_Z [of es "[]" 0] by (simp add: sqlite3Utf8CharLen_def)

text \<open>
  \<^bold>\<open>C19\<close> The operators \<^verbatim>\<open>LIKE\<close> and \<^verbatim>\<open>GLOB\<close> decide what the pattern means: on well-formed UTF-8
  texts \<^verbatim>\<open>likeFunc\<close> reads inside the texts, always ends, refuses a pattern longer than the limit and
  an escape text that is not one character, and otherwise returns whether the whole text matches the
  tokens of the pattern, in which the escape character makes a literal of the percent sign, the
  underscore, itself or any other character behind it. Not covered are a pattern whose last character is
  its escape character (see \<^verbatim>\<open>like_trailing_escape\<close>) and the escape characters percent sign and
  underscore, for which the code deviates from that meaning (see \<^verbatim>\<open>like_escape_wildcard\<close>).
\<close>

theorem like_matches:
  assumes "list_all (\<lambda>c. valid_char c \<and> c \<noteq> 0) ps" "list_all (\<lambda>c. valid_char c \<and> c \<noteq> 0) cs"
    and "\<And>e. argEsc = Some e \<Longrightarrow> list_all (\<lambda>c. valid_char c \<and> c \<noteq> 0) e"
    and "esc = (case argEsc of Some [c] \<Rightarrow> c | _ \<Rightarrow> 0)" "like_call I esc" "tokens I esc ps = Some ts"
  shows "likeFunc limit I (Some (enc8 ps @ [0])) (length (enc8 ps)) (Some (enc8 cs @ [0]))
      (map_option (\<lambda>e. Some (enc8 e @ [0])) argEsc) =
    Some (if limit < length (enc8 ps) then ResError ''LIKE or GLOB pattern too complex''
      else if \<exists>e. argEsc = Some e \<and> length e \<noteq> 1 then ResError ''ESCAPE expression must be a single character''
      else ResInt (matches I ts cs))"
proof -
  have pc: "patternCompare I esc (Z ps) (Z cs) False = Some (matches I ts cs)"
    using patternCompare_matches assms by blast
  show ?thesis unfolding Z_def [symmetric]
  proof (cases argEsc)
    case None
    then show "likeFunc limit I (Some (Z ps)) (length (enc8 ps)) (Some (Z cs)) (map_option (\<lambda>e. Some (Z e)) argEsc) =
      Some (if limit < length (enc8 ps) then ResError ''LIKE or GLOB pattern too complex''
        else if \<exists>e. argEsc = Some e \<and> length e \<noteq> 1 then ResError ''ESCAPE expression must be a single character''
        else ResInt (matches I ts cs))"
      using pc assms(4) by (simp add: likeFunc_def)
  next
    case (Some e)
    have n: "sqlite3Utf8CharLen (Z e) (-1) = Some (length e)" using CharLen_Z assms(3) [OF Some] by blast
    show "likeFunc limit I (Some (Z ps)) (length (enc8 ps)) (Some (Z cs)) (map_option (\<lambda>e. Some (Z e)) argEsc) =
      Some (if limit < length (enc8 ps) then ResError ''LIKE or GLOB pattern too complex''
        else if \<exists>e. argEsc = Some e \<and> length e \<noteq> 1 then ResError ''ESCAPE expression must be a single character''
        else ResInt (matches I ts cs))"
    proof (cases "length e = 1")
      case True
      then obtain c where "e = [c]" by (auto simp: length_Suc_conv)
      then show ?thesis using Some n pc assms(3) [OF Some] assms(4) by (simp add: likeFunc_def)
    next
      case False
      then show ?thesis using Some n by (simp add: likeFunc_def)
    qed
  qed
qed

text \<open>The pattern \<^verbatim>\<open>%x!%_\<close> with the escape character \<^verbatim>\<open>!\<close> on the text \<^verbatim>\<open>aX%b\<close>.\<close>

theorem like_matches_witness:
  "likeFunc 100 likeInfoNorm (Some [0x25, 0x78, 0x21, 0x25, 0x5F, 0]) 5 (Some [0x61, 0x58, 0x25, 0x62, 0])
     (Some (Some [0x21, 0])) = Some (ResInt True)"
proof -
  let ?ps = "[0x25, 0x78, 0x21, 0x25, 0x5F] :: u32 list" and ?cs = "[0x61, 0x58, 0x25, 0x62] :: u32 list"
  let ?ts = "[PAny, PLit 0x78, PLit 0x25, POne]"
  have "tokens likeInfoNorm 0x21 ?ps = Some ?ts"
    by (simp add: tokens.simps likeInfoNorm_def)
  moreover have "matches likeInfoNorm ?ts ?cs"
    by (simp add: matches_PAny_Cons fold_char_def likeInfoNorm_def GlogUpperToLower_def sqlite3UpperToLower_eq)
  moreover have n5: "Suc (Suc (Suc (Suc (Suc 0)))) = 5" by simp
  ultimately show ?thesis
    using like_matches [where ps = ?ps and cs = ?cs and argEsc = "Some [0x21]" and esc = "0x21" and I = likeInfoNorm
      and ts = ?ts and limit = 100]
    by (simp add: valid_char_def like_call_def WRITE_UTF8_def n5)
qed

text \<open>
  At its end the escape character of a pattern is ignored behind an ordinary character but never
  matches behind a percent sign.
\<close>

lemma like_trailing_escape:
  assumes "list_all (\<lambda>c. valid_char c \<and> c \<noteq> 0) cs"
  shows "patternCompare likeInfoNorm 0x5C (enc8 [0x61, 0x5C] @ [0]) (enc8 [0x61] @ [0]) False = Some True"
    and "patternCompare likeInfoNorm 0x5C (enc8 [0x25, 0x5C] @ [0]) (enc8 cs @ [0]) False = Some False"
proof -
  have v: "okc 0x61" "okc 0x5C" "okc 0x25" by (simp_all add: valid_char_def)
  have l: "matchAll likeInfoNorm = 0x25" "matchOne likeInfoNorm = 0x5F" "matchSet likeInfoNorm = 0"
    by (simp_all add: likeInfoNorm_def)
  have e: "patternCompare likeInfoNorm 0x5C (Z []) (Z []) b = Some True" for b
    by (subst patternCompare.simps) simp
  have "patternCompare likeInfoNorm 0x5C (Z [0x5C]) (Z []) False = Some True"
    using v by (subst patternCompare.simps) (simp add: l e)
  then have "patternCompare likeInfoNorm 0x5C (Z [0x61, 0x5C]) (Z [0x61]) False = Some True"
    using v by (simp add: patternCompare_literal l)
  then show "patternCompare likeInfoNorm 0x5C (enc8 [0x61, 0x5C] @ [0]) (enc8 [0x61] @ [0]) False = Some True"
    by (simp only: Z_def)
  have "star likeInfoNorm (Z [0x5C]) (Z cs) = Some (Some (0x5C, Z [0x5C], Z [], Z cs))"
    using v by (subst star.simps) (simp add: l)
  then have "patternCompare likeInfoNorm 0x5C (Z [0x25, 0x5C]) (Z cs) False = Some False"
    using v by (subst patternCompare.simps) (simp add: l)
  then show "patternCompare likeInfoNorm 0x5C (enc8 [0x25, 0x5C] @ [0]) (enc8 cs @ [0]) False = Some False"
    by (simp only: Z_def)
qed

text \<open>
  A wildcard as the escape character of \<^verbatim>\<open>LIKE\<close> has no effect at all: the code tests for the wildcards first. So
  the text \<^verbatim>\<open>a\<close> matches the pattern \<^verbatim>\<open>%%\<close> with the escape character \<^verbatim>\<open>%\<close>, although the doubled escape
  character should stand for one percent sign only (\<^verbatim>\<open>like_escape_percent\<close>).
\<close>

lemma star_stops: "star I p s = Some (Some (c, pat, p2, s2)) \<Longrightarrow> c \<noteq> ucast (matchAll I) \<and> c \<noteq> ucast (matchOne I)"
proof (induction I p s rule: star.induct)
  case (1 I p s)
  from "1.prems" obtain c1 p1 where n: "next_char p = Some (c1, p1)"
    by (cases "next_char p") (auto simp: star.simps [of I p s])
  show ?case
  proof (cases "c1 = ucast (matchAll I)")
    case True
    then show ?thesis using "1.IH"(1) [OF n refl True] "1.prems" n by (simp add: star.simps [of I p s])
  next
    case all: False
    show ?thesis
    proof (cases "c1 = ucast (matchOne I)")
      case True
      then obtain c3 s1 where "next_char s = Some (c3, s1)" "c3 \<noteq> 0" "star I p1 s1 = Some (Some (c, pat, p2, s2))"
        using "1.prems" n all by (auto simp: star.simps [of I p s] bind_eq_Some_conv split: if_splits)
      then show ?thesis using "1.IH"(2) [OF n refl all True] by simp
    next
      case False
      then show ?thesis using "1.prems" n all by (auto simp: star.simps [of I p s])
    qed
  qed
qed

lemma like_escape_wildcard:
  assumes I: "matchSet I = 0" and nz: "matchAll I \<noteq> 0" "matchOne I \<noteq> 0"
    and w: "esc = ucast (matchAll I) \<or> esc = ucast (matchOne I)"
  shows "\<not> e \<Longrightarrow> patternCompare I esc p s e = patternCompare I 0 p s e"
    and "try_char I esc c p s = try_char I 0 c p s" and "try_set I esc p s = try_set I 0 p s"
  using assms
proof (induction I esc p s e and I esc c p s and I esc p s rule: patternCompare_try_char_try_set.induct)
  case (1 I esc p s e)
  show ?case
  proof (cases "next_char p")
    case None
    then show ?thesis by (simp add: patternCompare.simps)
  next
    case (Some cp)
    obtain c p1 where n: "next_char p = Some (c, p1)" using Some by (cases cp) auto
    note pc = patternCompare.simps [of I _ p s] and prems = "1.prems"
    note IH = "1.IH" [OF n refl]
    have z: "ucast (matchSet I) = (0::u32)" using prems by simp
    show ?thesis
    proof (cases "c = 0 \<or> c = ucast (matchAll I) \<or> c = ucast (matchOne I)")
      case False
      then have "c \<noteq> esc" using prems by auto
      then show ?thesis
        using IH(7) False prems n z by (cases "next_char s") (auto simp: pc)
    next
      case spec: True
      show ?thesis
      proof (cases "c \<noteq> 0 \<and> c = ucast (matchAll I)")
        case all: True
        show ?thesis
        proof (cases "star I p1 s")
          case None
          then show ?thesis using all n prems by (simp add: pc)
        next
          case (Some r)
          show ?thesis
          proof (cases r)
            case None
            then show ?thesis using Some all n prems by (simp add: pc)
          next
            case (Some q)
            obtain x pat p2 s2 where q: "q = (x, pat, p2, s2)" by (cases q)
            note st = \<open>star I p1 s = Some r\<close> [unfolded Some q]
            have x: "x \<noteq> esc" using star_stops [OF st] prems by auto
            have "try_char I esc x p2 s2 = try_char I 0 x p2 s2" if "x \<noteq> 0"
              using IH(3) [OF _ _ _ refl refl refl refl] that all prems st x z by auto
            then show ?thesis using st x all n prems z by (auto simp: pc)
          qed
        qed
      next
        case False
        show ?thesis
        proof (cases "c = 0")
          case True
          then show ?thesis using n by (simp add: pc)
        next
          case nz: False
          then have one: "c = ucast (matchOne I)" using spec False by auto
          then show ?thesis
            using IH(4) nz False prems n by (cases "next_char s") (auto simp: pc)
        qed
      qed
    qed
  qed
next
  case (2 I esc c p s)
  then show ?case by (subst (1 2) try_char.simps) (auto intro!: Option.bind_cong)
next
  case (3 I esc p s)
  then show ?case by (subst (1 2) try_set.simps) (auto intro!: Option.bind_cong)
qed

lemma like_escape_percent:
  "likeFunc 100 likeInfoNorm (Some [0x25, 0x25, 0]) 2 (Some [0x61, 0]) (Some (Some [0x25, 0])) = Some (ResInt True)"
  by code_simp

end
