(* ===== verification/BtPage.thy ===== *)
theory BtPage
  imports VdbeRecord
begin

text \<open>
  The b-tree page of \<^verbatim>\<open>btree.c\<close>: the sizes of cells, the space management inside one page, and
  the insertion and removal of cells. A page is its image, a list of bytes of the page size, with the
  fields of \<^verbatim>\<open>MemPage\<close>; a pointer into the image is its offset. An access outside a buffer and a
  failed assertion are \<^const>\<open>None\<close>.
\<close>

section \<open>Bytes of a page\<close>

definition get2byte :: "u8 list \<Rightarrow> nat \<Rightarrow> nat option" where
  "get2byte x a = do {
     h \<leftarrow> rd x a;
     l \<leftarrow> rd x (a + 1);
     Some (256 * unat h + unat l) }"

definition put2byte :: "u8 list \<Rightarrow> nat \<Rightarrow> nat \<Rightarrow> u8 list option" where
  "put2byte p a v = do {
     p \<leftarrow> wr p a (word_of_nat (v div 256));
     wr p (a + 1) (word_of_nat v) }"

definition get2byteNotZero :: "u8 list \<Rightarrow> nat \<Rightarrow> nat option" where
  "get2byteNotZero x a = map_option (\<lambda>v. nat ((int v - 1) mod 65536 + 1)) (get2byte x a)"

text \<open>\<^verbatim>\<open>memcpy\<close> out of a buffer and into a buffer, \<^verbatim>\<open>memset\<close> to zero, \<^verbatim>\<open>assert\<close>.\<close>

definition get_bytes :: "u8 list \<Rightarrow> nat \<Rightarrow> nat \<Rightarrow> u8 list option" where
  "get_bytes z a n = (if a + n \<le> length z then Some (take n (drop a z)) else None)"

definition blit :: "u8 list \<Rightarrow> nat \<Rightarrow> u8 list \<Rightarrow> u8 list option" where
  "blit z a bs = (if a + length bs \<le> length z then Some (take a z @ bs @ drop (a + length bs) z) else None)"

abbreviation zero_fill :: "u8 list \<Rightarrow> nat \<Rightarrow> nat \<Rightarrow> u8 list option" where
  "zero_fill z a n \<equiv> blit z a (replicate n 0)"

definition assert_that :: "bool \<Rightarrow> unit option" where
  "assert_that b = (if b then Some () else None)"

section \<open>State\<close>

definition PTF_INTKEY :: nat where "PTF_INTKEY = 0x01"
definition PTF_ZERODATA :: nat where "PTF_ZERODATA = 0x02"
definition PTF_LEAFDATA :: nat where "PTF_LEAFDATA = 0x04"
definition PTF_LEAF :: nat where "PTF_LEAF = 0x08"

text \<open>
  The fields of \<^verbatim>\<open>BtShared\<close> that the page routines read; \<open>secure_delete\<close> is the bit
  \<^verbatim>\<open>BTS_SECURE_DELETE\<close> of \<^verbatim>\<open>btsFlags\<close>.
\<close>

record BtShared =
  secure_delete :: bool
  bt_max1bytePayload :: nat
  bt_maxLocal :: nat
  bt_minLocal :: nat
  bt_maxLeaf :: nat
  bt_minLeaf :: nat
  pageSize :: nat
  usableSize :: nat

text \<open>The payload limits that \<^verbatim>\<open>lockBtree\<close> derives from the page size.\<close>

definition payload_limits :: "BtShared \<Rightarrow> BtShared" where
  "payload_limits b =
    (let maxL = nat (((int (usableSize b) - 12) * 64 div 255 - 23) mod 65536);
         minL = nat (((int (usableSize b) - 12) * 32 div 255 - 23) mod 65536)
     in b\<lparr>bt_maxLocal := maxL, bt_minLocal := minL,
          bt_maxLeaf := nat ((int (usableSize b) - 35) mod 65536), bt_minLeaf := minL,
          bt_max1bytePayload := (if 127 < maxL then 127 else maxL)\<rparr>)"

text \<open>
  \<^verbatim>\<open>aDataEnd\<close> and \<^verbatim>\<open>aCellIdx\<close> are offsets into \<open>aData\<close>. The overflow cells are the contents that
  \<^verbatim>\<open>apOvfl\<close> points to.
\<close>

record MemPage =
  isInit :: bool
  nOverflow :: nat
  intKey :: bool
  leaf :: nat
  hasData :: bool
  hdrOffset :: nat
  childPtrSize :: nat
  max1bytePayload :: nat
  maxLocal :: nat
  minLocal :: nat
  cellOffset :: nat
  nFree :: nat
  nCell :: nat
  maskPage :: nat
  aiOvfl :: "nat list"
  apOvfl :: "u8 list list"
  aData :: "u8 list"
  aDataEnd :: nat
  aCellIdx :: nat

definition MX_CELL :: "BtShared \<Rightarrow> nat" where
  "MX_CELL b = (pageSize b - 8) div 6"

section \<open>Cells\<close>

record CellInfo =
  ci_nKey :: int
  ci_pCell :: "u8 list"
  ci_nData :: u32
  ci_nPayload :: u32
  ci_nHeader :: nat
  ci_nLocal :: nat
  ci_iOverflow :: nat
  ci_nSize :: nat

text \<open>The local part of a payload that is longer than \<^verbatim>\<open>maxLocal\<close>, in the \<^verbatim>\<open>u32\<close> arithmetic of the code.\<close>

definition surplus :: "BtShared \<Rightarrow> MemPage \<Rightarrow> u32 \<Rightarrow> u32" where
  "surplus b p nPayload =
    of_nat (minLocal p) + (nPayload - of_nat (minLocal p)) mod (of_nat (usableSize b) - 4)"

text \<open>\<^verbatim>\<open>btreeParseCellPtr\<close>: the fields of the header, then the part of the payload in the cell.\<close>

definition cell_fields :: "MemPage \<Rightarrow> u8 list \<Rightarrow> (nat \<times> u32 \<times> int \<times> u32) option" where
  "cell_fields p pCell =
    (let n = childPtrSize p in
     if intKey p then do {
       (nPayload, n) \<leftarrow> (if hasData p then do { (v, k) \<leftarrow> getVarint32 (drop n pCell); Some (v, n + k) }
                          else Some (0, n));
       (key, k) \<leftarrow> sqlite3GetVarint (drop n pCell);
       Some (n + k, nPayload, sint key, nPayload)
     } else do {
       (nPayload, k) \<leftarrow> getVarint32 (drop n pCell);
       Some (n + k, nPayload, uint nPayload, 0)
     })"

definition cell_local :: "BtShared \<Rightarrow> MemPage \<Rightarrow> CellInfo \<Rightarrow> CellInfo" where
  "cell_local b p info =
    (let n = ci_nHeader info; nPayload = ci_nPayload info in
     if nPayload \<le> of_nat (maxLocal p) then
       let nSize = (n + unat nPayload) mod 65536
       in info\<lparr>ci_nSize := (if nSize < 4 then 4 else nSize), ci_nLocal := unat nPayload mod 65536, ci_iOverflow := 0\<rparr>
     else
       let s = surplus b p nPayload;
           nLocal = (if sint s \<le> int (maxLocal p) then unat s mod 65536 else minLocal p);
           iOverflow = (nLocal + n) mod 65536
       in info\<lparr>ci_nLocal := nLocal, ci_iOverflow := iOverflow, ci_nSize := (iOverflow + 4) mod 65536\<rparr>)"

definition btreeParseCellPtr :: "BtShared \<Rightarrow> MemPage \<Rightarrow> u8 list \<Rightarrow> CellInfo option" where
  "btreeParseCellPtr b p pCell = do {
     assert_that (leaf p = 0 \<or> leaf p = 1);
     assert_that (childPtrSize p = 4 - 4 * leaf p);
     (n, nPayload, nKey, nData) \<leftarrow> cell_fields p pCell;
     Some (cell_local b p \<lparr>ci_nKey = nKey, ci_pCell = pCell, ci_nData = nData, ci_nPayload = nPayload, ci_nHeader = n,
       ci_nLocal = 0, ci_iOverflow = 0, ci_nSize = 0\<rparr>) }"

text \<open>The bytes of a varint are skipped up to \<^verbatim>\<open>pEnd\<close>.\<close>

function skip_varint :: "u8 list \<Rightarrow> nat \<Rightarrow> nat \<Rightarrow> nat option" where
  "skip_varint z pIter pEnd = do {
     c \<leftarrow> rd z pIter;
     if c AND 0x80 \<noteq> 0 \<and> pIter + 1 < pEnd then skip_varint z (pIter + 1) pEnd else Some (pIter + 1) }"
  by pat_completeness auto
termination
  by (relation "measure (\<lambda>(z, i, e). e - i)") auto

declare skip_varint.simps [simp del]

text \<open>\<^verbatim>\<open>cellSizePtr\<close>: the payload size and the first byte behind the header, then the size of the cell.\<close>

definition cell_head :: "MemPage \<Rightarrow> u8 list \<Rightarrow> (u32 \<times> nat) option" where
  "cell_head p pCell =
    (let pIter = childPtrSize p in
     if intKey p then do {
       (nSize, pIter) \<leftarrow> (if hasData p then do { (v, k) \<leftarrow> getVarint32 (drop pIter pCell); Some (v, pIter + k) }
                           else Some (0, pIter));
       pIter \<leftarrow> skip_varint pCell pIter (pIter + 9);
       Some (nSize, pIter)
     } else do {
       (v, k) \<leftarrow> getVarint32 (drop pIter pCell);
       Some (v, pIter + k)
     })"

definition cell_total :: "BtShared \<Rightarrow> MemPage \<Rightarrow> u32 \<Rightarrow> nat \<Rightarrow> nat" where
  "cell_total b p nSize pIter =
    (let nSize = (if of_nat (maxLocal p) < nSize then
           let s = surplus b p nSize in (if of_nat (maxLocal p) < s then of_nat (minLocal p) else s) + 4
         else nSize);
         nSize = nSize + of_nat pIter;
         nSize = (if nSize < 4 then 4 else nSize)
     in unat nSize mod 65536)"

definition cellSizePtr :: "BtShared \<Rightarrow> MemPage \<Rightarrow> u8 list \<Rightarrow> nat option" where
  "cellSizePtr b p pCell = do {
     (nSize, pIter) \<leftarrow> cell_head p pCell;
     Some (cell_total b p nSize pIter) }"

definition findCell :: "MemPage \<Rightarrow> nat \<Rightarrow> nat option" where
  "findCell p i = do {
     a \<leftarrow> get2byte (aData p) (aCellIdx p + 2 * i);
     Some (maskPage p AND a) }"

definition btreeParseCell :: "BtShared \<Rightarrow> MemPage \<Rightarrow> nat \<Rightarrow> CellInfo option" where
  "btreeParseCell b p iCell = do {
     a \<leftarrow> findCell p iCell;
     btreeParseCellPtr b p (drop a (aData p)) }"

definition cellSize :: "BtShared \<Rightarrow> MemPage \<Rightarrow> nat \<Rightarrow> nat option" where
  "cellSize b p iCell = do {
     a \<leftarrow> findCell p iCell;
     cellSizePtr b p (drop a (aData p)) }"

text \<open>\<^verbatim>\<open>findOverflowCell\<close> returns the bytes behind the pointer; the loop index runs from \<open>i - 1\<close> to 0.\<close>

fun findOverflowCell_loop :: "MemPage \<Rightarrow> nat \<Rightarrow> nat \<Rightarrow> u8 list option" where
  "findOverflowCell_loop p 0 iCell = do { a \<leftarrow> findCell p iCell; Some (drop a (aData p)) }"
| "findOverflowCell_loop p (Suc i) iCell = do {
     k \<leftarrow> rd (aiOvfl p) i;
     if k \<le> iCell then
       if k = iCell then rd (apOvfl p) i
       else findOverflowCell_loop p i (iCell - 1)
     else findOverflowCell_loop p i iCell }"

definition findOverflowCell :: "MemPage \<Rightarrow> nat \<Rightarrow> u8 list option" where
  "findOverflowCell p iCell = findOverflowCell_loop p (nOverflow p) iCell"

section \<open>Initialising a page\<close>

definition decodeFlags :: "BtShared \<Rightarrow> MemPage \<Rightarrow> nat \<Rightarrow> rc \<times> MemPage" where
  "decodeFlags b p flagByte =
    (let l = drop_bit 3 flagByte;
         flag = flagByte - (flagByte AND PTF_LEAF);
         p = p\<lparr>leaf := l, childPtrSize := nat ((4 - 4 * int l) mod 256)\<rparr>
     in if flag = (PTF_LEAFDATA OR PTF_INTKEY) then
          (SQLITE_OK, p\<lparr>intKey := True, hasData := (l \<noteq> 0), maxLocal := bt_maxLeaf b, minLocal := bt_minLeaf b,
                       max1bytePayload := bt_max1bytePayload b\<rparr>)
        else if flag = PTF_ZERODATA then
          (SQLITE_OK, p\<lparr>intKey := False, hasData := False, maxLocal := bt_maxLocal b, minLocal := bt_minLocal b,
                       max1bytePayload := bt_max1bytePayload b\<rparr>)
        else (SQLITE_CORRUPT, p))"

text \<open>The walk along the freeblocks; the result is \<^verbatim>\<open>nFree\<close> or \<^const>\<open>None\<close> for a corrupt page.\<close>

function init_free :: "u8 list \<Rightarrow> nat \<Rightarrow> nat \<Rightarrow> nat \<Rightarrow> nat \<Rightarrow> nat option option" where
  "init_free data usable iCellFirst pc free =
    (if pc = 0 then Some (Some free)
     else if pc < iCellFirst \<or> usable - 4 < pc then Some None
     else do {
       next \<leftarrow> get2byte data pc;
       sz \<leftarrow> get2byte data (pc + 2);
       if 0 < next \<and> next \<le> pc + sz + 3 \<or> usable < pc + sz then Some None
       else init_free data usable iCellFirst next (free + sz) })"
  by pat_completeness auto
termination
  by (relation "measure (\<lambda>(data, u, i, pc, n). if pc = 0 then 0 else u + 1 - pc)") auto

declare init_free.simps [simp del]

definition btreeInitPage :: "BtShared \<Rightarrow> MemPage \<Rightarrow> (rc \<times> MemPage) option" where
  "btreeInitPage b p =
    (if isInit p then Some (SQLITE_OK, p)
     else do {
       let hdr = hdrOffset p; let data = aData p;
       flags \<leftarrow> rd data hdr;
       let (rc, p) = decodeFlags b p (unat flags);
       if rc \<noteq> SQLITE_OK then Some (SQLITE_CORRUPT, p)
       else do {
         assert_that (512 \<le> pageSize b \<and> pageSize b \<le> 65536);
         let usable = usableSize b;
         let off = hdr + 12 - 4 * leaf p;
         let p = p\<lparr>maskPage := (pageSize b - 1) mod 65536, nOverflow := 0, cellOffset := off, aDataEnd := usable,
                   aCellIdx := off\<rparr>;
         ctop \<leftarrow> get2byteNotZero data (hdr + 5);
         n \<leftarrow> get2byte data (hdr + 3);
         let p = p\<lparr>nCell := n\<rparr>;
         if MX_CELL b < n then Some (SQLITE_CORRUPT, p)
         else do {
           let iCellFirst = off + 2 * n;
           pc \<leftarrow> get2byte data (hdr + 1);
           frag \<leftarrow> rd data (hdr + 7);
           r \<leftarrow> init_free data usable iCellFirst pc (unat frag + ctop);
           case r of
             None \<Rightarrow> Some (SQLITE_CORRUPT, p)
           | Some free \<Rightarrow>
               if usable < free then Some (SQLITE_CORRUPT, p)
               else Some (SQLITE_OK, p\<lparr>nFree := nat ((int free - int iCellFirst) mod 65536), isInit := True\<rparr>)
         }
       }
     })"

definition zeroPage :: "BtShared \<Rightarrow> MemPage \<Rightarrow> nat \<Rightarrow> MemPage option" where
  "zeroPage b p flags = do {
     let hdr = hdrOffset p;
     data \<leftarrow> (if secure_delete b then zero_fill (aData p) hdr (usableSize b - hdr) else Some (aData p));
     data \<leftarrow> wr data hdr (word_of_nat flags);
     let first = hdr + 8 + 4 * (if flags AND PTF_LEAF = 0 then 1 else 0);
     data \<leftarrow> zero_fill data (hdr + 1) 4;
     data \<leftarrow> wr data (hdr + 7) 0;
     data \<leftarrow> put2byte data (hdr + 5) (usableSize b);
     let (rc, p) = decodeFlags b (p\<lparr>aData := data, nFree := nat ((int (usableSize b) - int first) mod 65536)\<rparr>) flags;
     assert_that (512 \<le> pageSize b \<and> pageSize b \<le> 65536);
     Some (p\<lparr>hdrOffset := hdr, cellOffset := first, aDataEnd := usableSize b, aCellIdx := first, nOverflow := 0,
             maskPage := (pageSize b - 1) mod 65536, nCell := 0, isInit := True\<rparr>) }"

section \<open>Space inside a page\<close>

text \<open>
  \<^verbatim>\<open>defragmentPage\<close>. The temporary buffer \<open>tmp\<close> of the pager is scratch memory: its contents
  before the call are arbitrary and those after it are never read. The loop returns \<^verbatim>\<open>cbrk\<close>, or
  \<^const>\<open>None\<close> for a corrupt page.
\<close>

function defrag_loop ::
  "BtShared \<Rightarrow> MemPage \<Rightarrow> u8 list \<Rightarrow> nat \<Rightarrow> nat \<Rightarrow> u8 list \<Rightarrow> (nat option \<times> u8 list) option" where
  "defrag_loop b p temp i cbrk data =
    (if nCell p \<le> i then Some (Some cbrk, data)
     else do {
       let iCellFirst = cellOffset p + 2 * nCell p; let iCellLast = usableSize b - 4;
       pc \<leftarrow> get2byte data (cellOffset p + i * 2);
       if pc < iCellFirst \<or> iCellLast < pc then Some (None, data)
       else do {
         sz \<leftarrow> cellSizePtr b p (drop pc temp);
         if int cbrk - int sz < int iCellFirst \<or> usableSize b < pc + sz then Some (None, data)
         else do {
           let cbrk = cbrk - sz;
           bs \<leftarrow> get_bytes temp pc sz;
           data \<leftarrow> blit data cbrk bs;
           data \<leftarrow> put2byte data (cellOffset p + i * 2) cbrk;
           defrag_loop b p temp (i + 1) cbrk data
         }
       }
     })"
  by pat_completeness auto
termination
  by (relation "measure (\<lambda>(b, p, t, i, c, d). nCell p - i)") auto

declare defrag_loop.simps [simp del]

definition defragmentPage :: "BtShared \<Rightarrow> MemPage \<Rightarrow> u8 list \<Rightarrow> (rc \<times> MemPage) option" where
  "defragmentPage b p tmp = do {
     assert_that (nOverflow p = 0);
     let data = aData p; let hdr = hdrOffset p;
     n \<leftarrow> get2byte data (hdr + 3);
     assert_that (nCell p = n);
     let usable = usableSize b;
     cbrk \<leftarrow> get2byte data (hdr + 5);
     assert_that (cbrk \<le> usable);
     bs \<leftarrow> get_bytes data cbrk (usable - cbrk);
     temp \<leftarrow> blit tmp cbrk bs;
     let iCellFirst = cellOffset p + 2 * nCell p;
     (r, data) \<leftarrow> defrag_loop b p temp 0 usable data;
     case r of
       None \<Rightarrow> Some (SQLITE_CORRUPT, p\<lparr>aData := data\<rparr>)
     | Some cbrk \<Rightarrow> do {
         assert_that (iCellFirst \<le> cbrk);
         data \<leftarrow> put2byte data (hdr + 5) cbrk;
         data \<leftarrow> wr data (hdr + 1) 0;
         data \<leftarrow> wr data (hdr + 2) 0;
         data \<leftarrow> wr data (hdr + 7) 0;
         data \<leftarrow> zero_fill data iCellFirst (cbrk - iCellFirst);
         if cbrk - iCellFirst \<noteq> nFree p then Some (SQLITE_CORRUPT, p\<lparr>aData := data\<rparr>)
         else Some (SQLITE_OK, p\<lparr>aData := data\<rparr>)
       } }"

text \<open>
  The search for a freeblock of \<^verbatim>\<open>allocateSpace\<close>: the address of the allocation with the new image,
  no block, or a corrupt list.
\<close>

datatype found = Found nat "u8 list" | NotFound | BadList

function search_free :: "u8 list \<Rightarrow> nat \<Rightarrow> nat \<Rightarrow> nat \<Rightarrow> nat \<Rightarrow> nat \<Rightarrow> found option" where
  "search_free data usable hdr nFrag nByte addr = do {
     pc \<leftarrow> get2byte data addr;
     if pc = 0 then Some NotFound
     else if usable - 4 < pc \<or> pc < addr + 4 then Some BadList
     else do {
       sz \<leftarrow> get2byte data (pc + 2);
       if nByte \<le> sz then
         let x = sz - nByte in
         if x < 4 then do {
           bs \<leftarrow> get_bytes data pc 2;
           data \<leftarrow> blit data addr bs;
           data \<leftarrow> wr data (hdr + 7) (word_of_nat (nFrag + x));
           Some (Found (pc + x) data)
         }
         else if usable < sz + pc then Some BadList
         else do {
           data \<leftarrow> put2byte data (pc + 2) x;
           Some (Found (pc + x) data)
         }
       else search_free data usable hdr nFrag nByte pc
     } }"
  by pat_completeness auto
termination
  by (relation "measure (\<lambda>(data, usable, hdr, nFrag, nByte, addr). usable - addr)") auto

declare search_free.simps [simp del]

text \<open>The end of \<^verbatim>\<open>allocateSpace\<close>: the allocation from the gap, after a defragmentation if it is too small.\<close>

definition alloc_gap :: "BtShared \<Rightarrow> MemPage \<Rightarrow> u8 list \<Rightarrow> nat \<Rightarrow> nat \<Rightarrow> nat \<Rightarrow> (rc \<times> MemPage \<times> nat) option" where
  "alloc_gap b p tmp nByte gap ctop = do {
     (rc, p, ctop) \<leftarrow>
       (if ctop < gap + 2 + nByte then do {
          (rc, p) \<leftarrow> defragmentPage b p tmp;
          if rc \<noteq> SQLITE_OK then Some (rc, p, ctop)
          else do {
            ctop \<leftarrow> get2byteNotZero (aData p) (hdrOffset p + 5);
            assert_that (gap + nByte \<le> ctop);
            Some (rc, p, ctop)
          }
        } else Some (SQLITE_OK, p, ctop));
     if rc \<noteq> SQLITE_OK then Some (rc, p, 0)
     else do {
       let ctop = ctop - nByte;
       data \<leftarrow> put2byte (aData p) (hdrOffset p + 5) ctop;
       assert_that (ctop + nByte \<le> usableSize b);
       Some (SQLITE_OK, p\<lparr>aData := data\<rparr>, ctop)
     } }"

definition allocateSpace :: "BtShared \<Rightarrow> MemPage \<Rightarrow> u8 list \<Rightarrow> nat \<Rightarrow> (rc \<times> MemPage \<times> nat) option" where
  "allocateSpace b p tmp nByte = do {
     let hdr = hdrOffset p;
     assert_that (nByte \<le> nFree p \<and> nOverflow p = 0 \<and> nByte < usableSize b - 8);
     frag \<leftarrow> rd (aData p) (hdr + 7);
     let nFrag = unat frag;
     assert_that (cellOffset p = hdr + 12 - 4 * leaf p);
     let gap = cellOffset p + 2 * nCell p;
     ctop \<leftarrow> get2byteNotZero (aData p) (hdr + 5);
     if ctop < gap then Some (SQLITE_CORRUPT, p, 0)
     else if 60 \<le> nFrag then do {
       (rc, p) \<leftarrow> defragmentPage b p tmp;
       if rc \<noteq> SQLITE_OK then Some (rc, p, 0)
       else do {
         ctop \<leftarrow> get2byteNotZero (aData p) (hdr + 5);
         alloc_gap b p tmp nByte gap ctop
       }
     }
     else if gap + 2 \<le> ctop then do {
       r \<leftarrow> search_free (aData p) (usableSize b) hdr nFrag nByte (hdr + 1);
       case r of
         BadList \<Rightarrow> Some (SQLITE_CORRUPT, p, 0)
       | Found idx data \<Rightarrow> Some (SQLITE_OK, p\<lparr>aData := data\<rparr>, idx)
       | NotFound \<Rightarrow> alloc_gap b p tmp nByte gap ctop
     }
     else alloc_gap b p tmp nByte gap ctop }"

text \<open>
  \<^verbatim>\<open>freeSpace\<close>: the place in the list of freeblocks, \<^const>\<open>None\<close> for a corrupt list, and the loop
  that merges neighbours. On a corrupt list the second loop need not end: it has fuel, and a page
  of \<^const>\<open>usableSize\<close> bytes has fewer freeblocks than that.
\<close>

function free_place :: "u8 list \<Rightarrow> nat \<Rightarrow> nat \<Rightarrow> (nat \<times> nat) option option" where
  "free_place data start addr = do {
     pbegin \<leftarrow> get2byte data addr;
     if pbegin < start \<and> 0 < pbegin then
       if pbegin < addr + 4 then Some None
       else free_place data start pbegin
     else Some (Some (addr, pbegin)) }"
  by pat_completeness auto
termination
  by (relation "measure (\<lambda>(data, start, addr). start - addr)") auto

declare free_place.simps [simp del]

fun coalesce :: "nat \<Rightarrow> u8 list \<Rightarrow> nat \<Rightarrow> nat \<Rightarrow> nat \<Rightarrow> (bool \<times> u8 list) option" where
  "coalesce 0 data usable hdr addr = None"
| "coalesce (Suc fuel) data usable hdr addr = do {
     pbegin \<leftarrow> get2byte data addr;
     if pbegin = 0 then Some (True, data)
     else do {
       assert_that (addr < pbegin \<and> pbegin \<le> usable - 4);
       pnext \<leftarrow> get2byte data pbegin;
       psize \<leftarrow> get2byte data (pbegin + 2);
       if pnext \<le> pbegin + psize + 3 \<and> 0 < pnext then do {
         nFrag \<leftarrow> rd data (hdr + 7);
         let frag = int pnext - int (pbegin + psize);
         if frag < 0 \<or> int (unat nFrag) < frag then Some (False, data)
         else do {
           data \<leftarrow> wr data (hdr + 7) (nFrag - word_of_int frag);
           x \<leftarrow> get2byte data pnext;
           data \<leftarrow> put2byte data pbegin x;
           s \<leftarrow> get2byte data (pnext + 2);
           data \<leftarrow> put2byte data (pbegin + 2) (pnext + s - pbegin);
           coalesce fuel data usable hdr addr
         }
       }
       else coalesce fuel data usable hdr pbegin
     } }"

definition freeSpace :: "BtShared \<Rightarrow> MemPage \<Rightarrow> nat \<Rightarrow> nat \<Rightarrow> (rc \<times> MemPage) option" where
  "freeSpace b p start sz = do {
     let hdr = hdrOffset p; let usable = usableSize b;
     assert_that (hdr + 6 + childPtrSize p \<le> start \<and> start + sz \<le> usable \<and> start \<le> usable - 4);
     data \<leftarrow> (if secure_delete b then zero_fill (aData p) start sz else Some (aData p));
     r \<leftarrow> free_place data start (hdr + 1);
     case r of
       None \<Rightarrow> Some (SQLITE_CORRUPT, p\<lparr>aData := data\<rparr>)
     | Some (addr, pbegin) \<Rightarrow>
         if usable - 4 < pbegin then Some (SQLITE_CORRUPT, p\<lparr>aData := data\<rparr>)
         else do {
           assert_that (addr < pbegin \<or> pbegin = 0);
           data \<leftarrow> put2byte data addr start;
           data \<leftarrow> put2byte data start pbegin;
           data \<leftarrow> put2byte data (start + 2) sz;
           let p = p\<lparr>nFree := (nFree p + sz) mod 65536\<rparr>;
           (ok, data) \<leftarrow> coalesce usable data usable hdr (hdr + 1);
           if \<not> ok then Some (SQLITE_CORRUPT, p\<lparr>aData := data\<rparr>)
           else do {
             a1 \<leftarrow> rd data (hdr + 1); a5 \<leftarrow> rd data (hdr + 5);
             a2 \<leftarrow> rd data (hdr + 2); a6 \<leftarrow> rd data (hdr + 6);
             data \<leftarrow> (if a1 = a5 \<and> a2 = a6 then do {
                 pbegin \<leftarrow> get2byte data (hdr + 1);
                 bs \<leftarrow> get_bytes data pbegin 2;
                 data \<leftarrow> blit data (hdr + 1) bs;
                 t \<leftarrow> get2byte data (hdr + 5);
                 s \<leftarrow> get2byte data (pbegin + 2);
                 put2byte data (hdr + 5) (t + s)
               } else Some data);
             Some (SQLITE_OK, p\<lparr>aData := data\<rparr>)
           }
         } }"

section \<open>Cells of a page\<close>

text \<open>The loops that close and open a slot of the cell pointer array, two bytes at a time.\<close>

function shift_down :: "u8 list \<Rightarrow> nat \<Rightarrow> nat \<Rightarrow> u8 list option" where
  "shift_down data ptr endPtr =
    (if ptr < endPtr then do {
       bs \<leftarrow> get_bytes data (ptr + 2) 2;
       data \<leftarrow> blit data ptr bs;
       shift_down data (ptr + 2) endPtr
     } else Some data)"
  by pat_completeness auto
termination
  by (relation "measure (\<lambda>(data, ptr, e). e - ptr)") auto

function shift_up :: "u8 list \<Rightarrow> nat \<Rightarrow> nat \<Rightarrow> u8 list option" where
  "shift_up data ptr endPtr =
    (if endPtr < ptr then do {
       bs \<leftarrow> get_bytes data (ptr - 2) 2;
       data \<leftarrow> blit data ptr bs;
       shift_up data (ptr - 2) endPtr
     } else Some data)"
  by pat_completeness auto
termination
  by (relation "measure (\<lambda>(data, ptr, e). ptr - e)") auto

declare shift_down.simps [simp del] shift_up.simps [simp del]

definition dropCell :: "BtShared \<Rightarrow> MemPage \<Rightarrow> nat \<Rightarrow> nat \<Rightarrow> rc \<Rightarrow> (rc \<times> MemPage) option" where
  "dropCell b p idx sz rc =
    (if rc \<noteq> SQLITE_OK then Some (rc, p)
     else do {
       n \<leftarrow> cellSize b p idx;
       assert_that (idx < nCell p \<and> sz = n);
       let ptr = aCellIdx p + 2 * idx; let hdr = hdrOffset p;
       pc \<leftarrow> get2byte (aData p) ptr;
       ctop \<leftarrow> get2byte (aData p) (hdr + 5);
       if pc < ctop \<or> usableSize b < pc + sz then Some (SQLITE_CORRUPT, p)
       else do {
         (rc, p) \<leftarrow> freeSpace b p pc sz;
         if rc \<noteq> SQLITE_OK then Some (rc, p)
         else do {
           data \<leftarrow> shift_down (aData p) ptr (aCellIdx p + 2 * nCell p - 2);
           let n = nCell p - 1;
           data \<leftarrow> put2byte data (hdr + 3) n;
           Some (SQLITE_OK, p\<lparr>nCell := n, aData := data, nFree := (nFree p + 2) mod 65536\<rparr>)
         }
       }
     })"

text \<open>
  \<^verbatim>\<open>insertCell\<close> in a database without auto-vacuum. \<open>pagerWrite\<close> is the result of
  \<^verbatim>\<open>sqlite3PagerWrite\<close>. An overflow cell has the contents that \<^verbatim>\<open>pTemp\<close>, or else \<^verbatim>\<open>pCell\<close>, has in
  the end; with a child pointer its first four bytes are those of \<^verbatim>\<open>iChild\<close>.
\<close>

definition cell_with_child :: "u8 list \<Rightarrow> u32 \<Rightarrow> u8 list option" where
  "cell_with_child pCell iChild = (if iChild \<noteq> 0 then sqlite3Put4byte pCell iChild else Some pCell)"

definition insertCell ::
  "BtShared \<Rightarrow> MemPage \<Rightarrow> u8 list \<Rightarrow> nat \<Rightarrow> u8 list \<Rightarrow> nat \<Rightarrow> u32 \<Rightarrow> rc \<Rightarrow> rc \<Rightarrow> (rc \<times> MemPage) option" where
  "insertCell b p tmp i pCell sz iChild pagerWrite rc =
    (if rc \<noteq> SQLITE_OK then Some (rc, p)
     else do {
       let nSkip = (if iChild \<noteq> 0 then 4 else 0);
       assert_that (i \<le> nCell p + nOverflow p \<and> nCell p \<le> MX_CELL b \<and> MX_CELL b \<le> 10921 \<and> nOverflow p \<le> 5);
       n \<leftarrow> cellSizePtr b p pCell;
       assert_that (sz = n \<or> sz = 8 \<and> iChild \<noteq> 0);
       if nOverflow p \<noteq> 0 \<or> nFree p < sz + 2 then do {
         bs \<leftarrow> get_bytes pCell 0 sz;
         c \<leftarrow> cell_with_child bs iChild;
         assert_that (nOverflow p < 5);
         Some (SQLITE_OK, p\<lparr>nOverflow := nOverflow p + 1, apOvfl := take (nOverflow p) (apOvfl p) @ [c],
           aiOvfl := take (nOverflow p) (aiOvfl p) @ [i mod 65536]\<rparr>)
       }
       else if pagerWrite \<noteq> SQLITE_OK then Some (pagerWrite, p)
       else do {
         let end = cellOffset p + 2 * nCell p; let ins = cellOffset p + 2 * i;
         (rc, p, idx) \<leftarrow> allocateSpace b p tmp sz;
         if rc \<noteq> SQLITE_OK then Some (rc, p)
         else do {
           assert_that (end + 2 \<le> idx \<and> idx + sz \<le> usableSize b);
           let n = nCell p + 1;
           bs \<leftarrow> get_bytes pCell nSkip (sz - nSkip);
           data \<leftarrow> blit (aData p) (idx + nSkip) bs;
           data \<leftarrow> (if iChild \<noteq> 0 then map_option (\<lambda>d. take idx data @ d) (sqlite3Put4byte (drop idx data) iChild)
                     else Some data);
           data \<leftarrow> shift_up data end ins;
           data \<leftarrow> put2byte data ins idx;
           data \<leftarrow> put2byte data (hdrOffset p + 3) n;
           Some (SQLITE_OK, p\<lparr>nCell := n, nFree := nat ((int (nFree p) - int (2 + sz)) mod 65536), aData := data\<rparr>)
         }
       }
     })"

text \<open>\<^verbatim>\<open>assemblePage\<close>: the loop runs over the cells from the last one down.\<close>

fun assemble_loop :: "u8 list \<Rightarrow> u8 list list \<Rightarrow> nat \<Rightarrow> nat \<Rightarrow> nat \<Rightarrow> (nat \<times> u8 list) option" where
  "assemble_loop data apCell idxArea cellbody 0 = Some (cellbody, data)"
| "assemble_loop data apCell idxArea cellbody (Suc i) = do {
     c \<leftarrow> rd apCell i;
     assert_that (length c \<le> cellbody);
     let cellbody = cellbody - length c;
     data \<leftarrow> put2byte data (idxArea + 2 * i) cellbody;
     data \<leftarrow> blit data cellbody c;
     assemble_loop data apCell idxArea cellbody i }"

definition assemblePage :: "BtShared \<Rightarrow> MemPage \<Rightarrow> u8 list list \<Rightarrow> MemPage option" where
  "assemblePage b p apCell = do {
     let n = length apCell; let hdr = hdrOffset p; let nUsable = usableSize b;
     assert_that (nOverflow p = 0 \<and> n \<le> MX_CELL b \<and> MX_CELL b \<le> 10921 \<and> nCell p = 0);
     ctop \<leftarrow> get2byteNotZero (aData p) (hdr + 5);
     assert_that (ctop = nUsable);
     (cellbody, data) \<leftarrow> assemble_loop (aData p) apCell (aCellIdx p) nUsable n;
     data \<leftarrow> put2byte data (hdr + 3) n;
     data \<leftarrow> put2byte data (hdr + 5) cellbody;
     Some (p\<lparr>aData := data, nFree := nat ((int (nFree p) - int (n * 2 + nUsable - cellbody)) mod 65536), nCell := n\<rparr>) }"

end
