(* ===== verification/BtSpace.thy ===== *)
theory BtSpace
  imports BtPage
begin

text \<open>
  The space management of a b-tree page. The image of a page is seen as a list of freeblocks, a set of
  bytes in use and the fragments between them; the lemmas say how \<^verbatim>\<open>allocateSpace\<close> and
  \<^verbatim>\<open>freeSpace\<close> move bytes from one to the other and which bytes they leave alone.
\<close>

section \<open>Reading and writing\<close>

definition g2 :: "u8 list \<Rightarrow> nat \<Rightarrow> nat" where "g2 d a = 256 * unat (d ! a) + unat (d ! (a + 1))"

definition p2 :: "u8 list \<Rightarrow> nat \<Rightarrow> nat \<Rightarrow> u8 list" where
  "p2 d a v = d[a := word_of_nat (v div 256), a + 1 := word_of_nat v]"

definition ov :: "u8 list \<Rightarrow> nat \<Rightarrow> u8 list \<Rightarrow> u8 list" where
  "ov d a bs = take a d @ bs @ drop (a + length bs) d"

lemma get2byte_g2: "a + 1 < length d \<Longrightarrow> get2byte d a = Some (g2 d a)"
  by (simp add: get2byte_def rd_def g2_def)

lemma put2byte_p2: "a + 1 < length d \<Longrightarrow> put2byte d a v = Some (p2 d a v)"
  by (simp add: put2byte_def wr_def p2_def)

lemma blit_ov: "a + length bs \<le> length d \<Longrightarrow> blit d a bs = Some (ov d a bs)"
  by (simp add: blit_def ov_def)

lemma get_bytes_Some: "a + n \<le> length d \<Longrightarrow> get_bytes d a n = Some (take n (drop a d))"
  by (simp add: get_bytes_def)

lemma assert_that_True [simp]: "b \<Longrightarrow> assert_that b = Some ()"
  by (simp add: assert_that_def)

lemma length_p2 [simp]: "length (p2 d a v) = length d"
  by (simp add: p2_def)

lemma length_ov [simp]: "a + length bs \<le> length d \<Longrightarrow> length (ov d a bs) = length d"
  by (simp add: ov_def)

lemma nth_p2: "i \<noteq> a \<Longrightarrow> i \<noteq> Suc a \<Longrightarrow> p2 d a v ! i = d ! i"
  by (simp add: p2_def)

lemma nth_ov:
  "a + length bs \<le> length d \<Longrightarrow> i < length d \<Longrightarrow>
   ov d a bs ! i = (if a \<le> i \<and> i < a + length bs then bs ! (i - a) else d ! i)"
  by (auto simp: ov_def nth_append min_def)

lemma g2_less: "g2 d a < 65536"
  using unsigned_less [of "d ! a", where ?'a = nat] unsigned_less [of "d ! (a + 1)", where ?'a = nat]
  by (simp add: g2_def)

lemma g2_cong: "d ! a = d' ! a \<Longrightarrow> d ! Suc a = d' ! Suc a \<Longrightarrow> g2 d a = g2 d' a"
  by (simp add: g2_def)

lemma g2_p2_mod: "a + 1 < length d \<Longrightarrow> g2 (p2 d a v) a = v mod 65536"
proof -
  have "256 * (v div 256 mod 256) + v mod 256 = v mod (256 * 256)" by (simp only: mod_mult2_eq)
  then show "a + 1 < length d \<Longrightarrow> g2 (p2 d a v) a = v mod 65536"
    by (simp add: g2_def p2_def unat_of_nat)
qed

lemma g2_p2: "a + 1 < length d \<Longrightarrow> v < 65536 \<Longrightarrow> g2 (p2 d a v) a = v"
  by (simp add: g2_p2_mod)

lemma g2_p2_other: "b + 1 < a \<or> a + 1 < b \<Longrightarrow> g2 (p2 d a v) b = g2 d b"
  by (auto simp: g2_def nth_p2)

lemma g2_upd_other: "b + 1 < a \<or> a < b \<Longrightarrow> g2 (d[a := v]) b = g2 d b"
  by (auto simp: g2_def)

lemma p2_copy: "a + 1 < length d \<Longrightarrow> q + 1 < length d \<Longrightarrow> ov d a (take 2 (drop q d)) = p2 d a (g2 d q)"
proof (rule nth_equalityI)
  assume a: "a + 1 < length d" and q: "q + 1 < length d"
  then have l: "length (take 2 (drop q d)) = 2" by simp
  then show "length (ov d a (take 2 (drop q d))) = length (p2 d a (g2 d q))" using a by simp
  fix i assume "i < length (ov d a (take 2 (drop q d)))"
  then have i: "i < length d" using l a by simp
  have w: "word_of_nat (g2 d q div 256) = d ! q" "word_of_nat (g2 d q) = d ! Suc q"
    unfolding g2_def using unsigned_less [of "d ! (q + 1)", where ?'a = nat]
    by (simp_all add: word_unat_eq_iff unat_of_nat del: of_nat_add of_nat_mult)
  show "ov d a (take 2 (drop q d)) ! i = p2 d a (g2 d q) ! i"
  proof -
    consider "i = a" | "i = Suc a" | "i < a \<or> Suc a < i" by linarith
    then show ?thesis using i l a q by cases (simp_all add: nth_ov p2_def w, auto simp: nth_ov nth_list_update)
  qed
qed

lemma get2byteNotZero_g2:
  "a + 1 < length d \<Longrightarrow> get2byteNotZero d a = Some (if g2 d a = 0 then 65536 else g2 d a)"
proof (cases "g2 d a")
  case (Suc v)
  assume "a + 1 < length d"
  moreover have "int v mod 65536 = int v" using Suc g2_less [of d a] by simp
  ultimately show ?thesis using Suc by (simp add: get2byteNotZero_def get2byte_g2)
qed (simp add: get2byteNotZero_def get2byte_g2)

section \<open>Freeblocks\<close>

text \<open>The list of freeblocks that starts at the link at \<open>a\<close>: offsets and sizes.\<close>

fun fl :: "u8 list \<Rightarrow> nat \<Rightarrow> (nat \<times> nat) list \<Rightarrow> bool" where
  "fl d a [] = (g2 d a = 0)"
| "fl d a ((q, s) # r) = (g2 d a = q \<and> 0 < q \<and> g2 d (q + 2) = s \<and> fl d q r)"

text \<open>Freeblocks in ascending order, each of at least four bytes, at least \<open>g\<close> bytes apart.\<close>

fun chain :: "nat \<Rightarrow> nat \<Rightarrow> nat \<Rightarrow> (nat \<times> nat) list \<Rightarrow> bool" where
  "chain g m u [] = True"
| "chain g m u ((q, s) # r) = (m \<le> q \<and> 4 \<le> s \<and> q + s \<le> u \<and> chain g (q + s + g) u r)"

fun blocks :: "(nat \<times> nat) list \<Rightarrow> nat set" where
  "blocks [] = {}"
| "blocks ((q, s) # r) = {q..<q + s} \<union> blocks r"

lemma blocks_append [simp]: "blocks (xs @ ys) = blocks xs \<union> blocks ys"
  by (induction xs rule: blocks.induct) auto

lemma finite_blocks [simp]: "finite (blocks fb)"
  by (induction fb rule: blocks.induct) auto

lemma chain_mono: "chain g m u fb \<Longrightarrow> m' \<le> m \<Longrightarrow> chain g m' u fb"
  by (cases fb) auto

lemma chain_gap: "chain g m u fb \<Longrightarrow> g' \<le> g \<Longrightarrow> chain g' m u fb"
  by (induction g m u fb rule: chain.induct) (auto elim: chain_mono)

lemma chain_blocks: "chain g m u fb \<Longrightarrow> blocks fb \<subseteq> {m..<u}"
proof (induction g m u fb rule: chain.induct)
  case (2 g m u q s r)
  then have "blocks r \<subseteq> {q + s + g..<u}" by simp
  then show ?case using 2(2) by fastforce
qed simp

lemma chain_length: "chain g m u fb \<Longrightarrow> m \<le> u \<Longrightarrow> m + 4 * length fb \<le> u"
proof (induction fb arbitrary: m)
  case (Cons x fb)
  obtain q s where x: "x = (q, s)" by (cases x)
  show ?case
  proof (cases fb)
    case Nil
    then show ?thesis using Cons.prems x by simp
  next
    case (Cons y ys)
    obtain q' s' where y: "y = (q', s')" by (cases y)
    have "q + s + g \<le> u" using Cons.prems x y Cons by simp
    then have "q + s + g + 4 * length fb \<le> u" using Cons.IH Cons.prems x by simp
    then show ?thesis using Cons.prems x by simp
  qed
qed simp

text \<open>The list depends only on its links and on the first four bytes of its blocks.\<close>

lemma fl_move:
  "fl d a fb \<Longrightarrow> chain g m u fb \<Longrightarrow> g2 d' b = g2 d a \<Longrightarrow> (\<And>i. i \<in> blocks fb \<Longrightarrow> d' ! i = d ! i) \<Longrightarrow> fl d' b fb"
proof (induction d a fb arbitrary: m b rule: fl.induct)
  case (2 d a q s r)
  have "g2 d' q = g2 d q" "g2 d' (q + 2) = g2 d (q + 2)"
    using 2(3,5) by (auto intro!: g2_cong)
  then show ?case using 2 by auto
qed simp

section \<open>The space of a page\<close>

definition thick :: "nat set \<Rightarrow> bool" where
  "thick C \<longleftrightarrow> (\<forall>x \<in> C. \<exists>a. x \<in> {a..<a + 4} \<and> {a..<a + 4} \<subseteq> C)"

lemma thick_Un [intro]: "thick A \<Longrightarrow> thick B \<Longrightarrow> thick (A \<union> B)"
  unfolding thick_def by blast

lemma thick_ivl [intro]: "4 \<le> n \<Longrightarrow> thick {a..<a + n}"
  unfolding thick_def
proof
  fix x assume n: "4 \<le> n" and x: "x \<in> {a..<a + n}"
  show "\<exists>a'. x \<in> {a'..<a' + 4} \<and> {a'..<a' + 4} \<subseteq> {a..<a + n}"
  proof (cases "x + 4 \<le> a + n")
    case True
    then show ?thesis using x by (intro exI [of _ x]) auto
  next
    case False
    then show ?thesis using x n by (intro exI [of _ "a + n - 4"]) auto
  qed
qed

lemma thick_empty [simp]: "thick {}"
  by (simp add: thick_def)

text \<open>
  The header at \<open>hdr\<close> of the image \<open>d\<close> says that the cell content begins at \<open>t\<close>. From there to
  \<open>u\<close> every byte is in use (the set \<open>C\<close>), in a freeblock, or one of the fragments the header counts.
\<close>

definition space :: "nat \<Rightarrow> nat \<Rightarrow> u8 list \<Rightarrow> nat \<Rightarrow> (nat \<times> nat) list \<Rightarrow> nat set \<Rightarrow> bool" where
  "space hdr u d t fb C \<longleftrightarrow>
     u \<le> length d \<and> u \<le> 65536 \<and> hdr + 8 \<le> t \<and> t \<le> u \<and> g2 d (hdr + 5) = t mod 65536 \<and>
     fl d (hdr + 1) fb \<and> chain 4 t u fb \<and> C \<subseteq> {t..<u} \<and> C \<inter> blocks fb = {} \<and> thick C \<and>
     unat (d ! (hdr + 7)) = card ({t..<u} - C - blocks fb)"

lemma space_top:
  assumes "space hdr u d t fb C"
  shows "get2byteNotZero d (hdr + 5) = Some t" "get2byte d (hdr + 5) = Some (t mod 65536)"
    "rd d (hdr + 7) = Some (d ! (hdr + 7))"
proof -
  have "hdr + 6 < length d" "t < 65536 \<or> t = 65536" "0 < t" using assms by (auto simp: space_def)
  then show "get2byteNotZero d (hdr + 5) = Some t" "get2byte d (hdr + 5) = Some (t mod 65536)"
    using assms by (auto simp: space_def get2byteNotZero_g2 get2byte_g2)
  show "rd d (hdr + 7) = Some (d ! (hdr + 7))" using assms by (auto simp: space_def rd_def)
qed

section \<open>Allocating from the list of freeblocks\<close>

definition taken :: "nat \<Rightarrow> nat \<Rightarrow> nat \<Rightarrow> (nat \<times> nat) list" where
  "taken n q s = (if s - n < 4 then [] else [(q, s - n)])"

lemma search_free_ok:
  assumes "fl d a fb" "chain 4 m u fb" "a + 4 \<le> m" "u \<le> length d" "a + 1 < hdr + 7 \<or> hdr + 7 < a" "hdr + 7 < m" "a + 1 < length d"
  shows "search_free d u hdr nFrag n a = Some NotFound \<and> (\<forall>(q, s) \<in> set fb. s < n) \<or>
    (\<exists>pre q s post d'. fb = pre @ (q, s) # post \<and> n \<le> s \<and>
       search_free d u hdr nFrag n a = Some (Found (q + (s - n)) d') \<and> length d' = length d \<and>
       fl d' a (pre @ taken n q s @ post) \<and>
       d' ! (hdr + 7) = (if s - n < 4 then word_of_nat (nFrag + (s - n)) else d ! (hdr + 7)) \<and>
       (\<forall>i. i \<notin> blocks fb \<longrightarrow> i \<noteq> a \<longrightarrow> i \<noteq> a + 1 \<longrightarrow> i \<noteq> hdr + 7 \<longrightarrow> d' ! i = d ! i))"
  using assms
proof (induction fb arbitrary: a m)
  case Nil
  then show ?case by (subst search_free.simps) (simp add: get2byte_g2)
next
  case (Cons x fb)
  obtain q s where x: "x = (q, s)" by (cases x)
  note p = Cons.prems [unfolded x]
  have f: "g2 d a = q" "0 < q" "g2 d (q + 2) = s" "fl d q fb" using p(1) by auto
  have c: "m \<le> q" "4 \<le> s" "q + s \<le> u" "chain 4 (q + s + 4) u fb" using p(2) by auto
  have b: "blocks fb \<subseteq> {q + s + 4..<u}" using chain_blocks [OF c(4)] .
  have rds: "get2byte d a = Some q" "get2byte d (q + 2) = Some s"
    using f c p by (simp_all add: get2byte_g2)
  have nb: "\<not> (u - 4 < q \<or> q < a + 4)" "\<not> u < s + q" using c p by linarith+
  show ?case
  proof (cases "n \<le> s")
    case False
    have st: "search_free d u hdr nFrag n a = search_free d u hdr nFrag n q"
      using rds f(2) nb False by (subst search_free.simps) simp
    have "q + 4 \<le> q + s + 4" "q + 1 < hdr + 7 \<or> hdr + 7 < q" "hdr + 7 < q + s + 4" "q + 1 < length d" using p c by auto
    from Cons.IH [OF f(4) c(4) this(1) p(4) this(2,3,4)]
    show ?thesis
    proof (elim disjE exE conjE)
      assume "search_free d u hdr nFrag n q = Some NotFound" "\<forall>(q, s) \<in> set fb. s < n"
      then show ?thesis using st False x by simp
    next
      fix pre q' s' post d'
      assume A: "fb = pre @ (q', s') # post" "n \<le> s'" "search_free d u hdr nFrag n q = Some (Found (q' + (s' - n)) d')"
        "length d' = length d" "fl d' q (pre @ taken n q' s' @ post)"
        "d' ! (hdr + 7) = (if s' - n < 4 then word_of_nat (nFrag + (s' - n)) else d ! (hdr + 7))"
        and same: "\<forall>i. i \<notin> blocks fb \<longrightarrow> i \<noteq> q \<longrightarrow> i \<noteq> q + 1 \<longrightarrow> i \<noteq> hdr + 7 \<longrightarrow> d' ! i = d ! i"
      have "a \<notin> blocks fb" "Suc a \<notin> blocks fb" "q + 2 \<notin> blocks fb" "Suc (q + 2) \<notin> blocks fb"
        using b p c by auto
      then have "g2 d' a = g2 d a" "g2 d' (q + 2) = g2 d (q + 2)"
        using same p c by (auto intro!: g2_cong)
      then have "fl d' a ((q, s) # pre @ taken n q' s' @ post)" using A(5) f by simp
      moreover have "d' ! i = d ! i" if "i \<notin> blocks (x # fb)" "i \<noteq> hdr + 7" for i
      proof -
        have "i \<notin> blocks fb" "i \<noteq> q" "i \<noteq> q + 1" using that(1) c(2) x by auto
        then show ?thesis using same that(2) by simp
      qed
      moreover have "x # fb = ((q, s) # pre) @ (q', s') # post" using x A(1) by simp
      ultimately show ?thesis
        using A(2,3,4,6) st by (intro disjI2 exI [of _ "(q, s) # pre"] exI [of _ q'] exI [of _ s'] exI [of _ post] exI [of _ d'])
          (simp only: append_Cons, blast)
    qed
  next
    case True
    have notin: "a \<notin> blocks fb" "Suc a \<notin> blocks fb" "hdr + 7 \<notin> blocks fb"
      using b p c by auto
    show ?thesis
    proof (cases "s - n < 4")
      case small: True
      let ?g = "g2 d q"
      let ?d = "(p2 d a ?g)[hdr + 7 := word_of_nat (nFrag + (s - n))]"
      have "g2 ?d a = ?g"
        using p c g2_less [of d q] by (subst g2_upd_other) (auto simp: g2_p2)
      then have "fl ?d a fb"
        by (rule fl_move [OF f(4) c(4)]) (metis nth_list_update_neq nth_p2 notin)
      moreover have "search_free d u hdr nFrag n a = Some (Found (q + (s - n)) ?d)"
        using rds f(2) c p nb True small
        by (subst search_free.simps) (simp add: get_bytes_Some blit_ov p2_copy wr_def)
      moreover have "?d ! i = d ! i" if "i \<noteq> a" "i \<noteq> a + 1" "i \<noteq> hdr + 7" for i
        using that by (simp add: nth_p2)
      moreover have "?d ! (hdr + 7) = word_of_nat (nFrag + (s - n))" using p(4,6) c by simp
      moreover have "taken n q s = []" using small by (simp add: taken_def)
      ultimately show ?thesis
        using True x small
        by (intro disjI2 exI [of _ "[]"] exI [of _ q] exI [of _ s] exI [of _ fb] exI [of _ ?d] conjI allI impI) simp_all
    next
      case big: False
      let ?d = "p2 d (q + 2) (s - n)"
      have sn: "s - n < 65536" using f(3) g2_less [of d "q + 2"] by linarith
      have "g2 ?d a = q" using f(1) p c by (simp add: g2_p2_other)
      moreover have "g2 ?d (q + 2) = s - n" using c p sn by (intro g2_p2) auto
      moreover have "fl ?d q fb"
        by (rule fl_move [OF f(4) c(4)]) (use b in \<open>auto simp: nth_p2 g2_p2_other\<close>)
      moreover have "search_free d u hdr nFrag n a = Some (Found (q + (s - n)) ?d)"
        using rds f(2) c p nb True big by (subst search_free.simps) (simp add: put2byte_p2)
      moreover have "?d ! i = d ! i" if "i \<notin> {q..<q + s}" for i
        using that c(2) by (intro nth_p2) auto
      moreover have "?d ! (hdr + 7) = d ! (hdr + 7)" using p(6) c(1) by (intro nth_p2) auto
      moreover have "taken n q s = [(q, s - n)]" using big by (simp add: taken_def)
      ultimately show ?thesis
        using True x big f(2)
        by (intro disjI2 exI [of _ "[]"] exI [of _ q] exI [of _ s] exI [of _ fb] exI [of _ ?d] conjI allI impI) simp_all
    qed
  qed
qed

end
