(* ===== verification/BtFree.thy ===== *)
theory BtFree
  imports BtSpace
begin

text \<open>
  Taking bytes out of the free space of a page and giving them back: the bytes in use are a set, and
  the header, the freeblocks and the fragments always describe its complement.
\<close>

section \<open>Allocation\<close>

lemma chain_mid:
  "chain g m u (pre @ (q, s) # post) \<Longrightarrow>
     m \<le> q \<and> 4 \<le> s \<and> q + s \<le> u \<and> chain g m u (pre @ post) \<and> (\<forall>x. 4 \<le> x \<longrightarrow> x \<le> s \<longrightarrow> chain g m u (pre @ (q, x) # post)) \<and>
     blocks pre \<subseteq> {m..<q} \<and> blocks post \<subseteq> {q + s..<u}"
proof (induction pre arbitrary: m)
  case Nil
  then have c: "chain g (q + s + g) u post" and h: "m \<le> q" "4 \<le> s" "q + s \<le> u" by auto
  have "chain g m u post" by (rule chain_mono [OF c]) (use h in simp)
  moreover have "chain g (q + x + g) u post" if "x \<le> s" for x by (rule chain_mono [OF c]) (use that in simp)
  moreover have "blocks post \<subseteq> {q + s..<u}" using chain_blocks [OF c] by auto
  ultimately show ?case using h by simp
next
  case (Cons y pre)
  obtain q' s' where y: "y = (q', s')" by (cases y)
  have "chain g (q' + s' + g) u (pre @ (q, s) # post)" using Cons.prems y by simp
  note I = Cons.IH [OF this]
  have "blocks (y # pre) \<subseteq> {m..<q}" using I Cons.prems y by auto
  then show ?case using I Cons.prems y by simp
qed

lemma frag_take:
  assumes "P \<inter> S = {}" "Q \<inter> S = {}" "S = L \<union> I" "L \<inter> I = {}" "C \<inter> (P \<union> S \<union> Q) = {}" "S \<subseteq> R"
  shows "R - (C \<union> I) - (P \<union> Q) = (R - C - (P \<union> S \<union> Q)) \<union> L"
    and "R - (C \<union> I) - (P \<union> L \<union> Q) = R - C - (P \<union> S \<union> Q)"
  using assms by blast+

lemma search_space:
  assumes S: "space hdr u d t fb C" and n: "4 \<le> n" and F: "unat (d ! (hdr + 7)) < 60"
  shows "search_free d u hdr (unat (d ! (hdr + 7))) n (hdr + 1) = Some NotFound \<or>
    (\<exists>idx d' fb'. search_free d u hdr (unat (d ! (hdr + 7))) n (hdr + 1) = Some (Found idx d') \<and>
       space hdr u d' t fb' (C \<union> {idx..<idx + n}) \<and> {idx..<idx + n} \<subseteq> blocks fb \<and> length d' = length d \<and>
       (\<forall>i. i \<notin> blocks fb \<longrightarrow> i \<notin> {hdr + 1, hdr + 2, hdr + 7} \<longrightarrow> d' ! i = d ! i))"
proof -
  let ?f = "unat (d ! (hdr + 7))"
  note sp = S [unfolded space_def]
  have "hdr + 1 + 4 \<le> t" "u \<le> length d" "hdr + 1 + 1 < hdr + 7 \<or> hdr + 7 < hdr + 1" "hdr + 7 < t" "hdr + 1 + 1 < length d"
    using sp by auto
  from search_free_ok [OF _ _ this, of fb ?f n] sp
  consider "search_free d u hdr ?f n (hdr + 1) = Some NotFound"
    | pre q s post d' where "fb = pre @ (q, s) # post" "n \<le> s"
       "search_free d u hdr ?f n (hdr + 1) = Some (Found (q + (s - n)) d')" "length d' = length d"
       "fl d' (hdr + 1) (pre @ taken n q s @ post)"
       "d' ! (hdr + 7) = (if s - n < 4 then word_of_nat (?f + (s - n)) else d ! (hdr + 7))"
       "\<forall>i. i \<notin> blocks fb \<longrightarrow> i \<noteq> hdr + 1 \<longrightarrow> i \<noteq> hdr + 1 + 1 \<longrightarrow> i \<noteq> hdr + 7 \<longrightarrow> d' ! i = d ! i"
    by blast
  then show ?thesis
  proof cases
    case 1
    then show ?thesis by simp
  next
    case 2
    let ?x = "s - n" and ?fb = "pre @ taken n q s @ post" and ?I = "{q + (s - n)..<q + (s - n) + n}"
    have ch: "chain 4 t u (pre @ (q, s) # post)" using sp 2(1) by simp
    note M = chain_mid [OF ch]
    have I: "?I = {q + ?x..<q + s}" using 2(2) by simp
    have ch': "chain 4 t u ?fb" using M by (simp add: taken_def)
    have bl: "blocks fb = blocks pre \<union> {q..<q + s} \<union> blocks post" using 2(1) by auto
    have bl': "blocks ?fb = blocks pre \<union> (if ?x < 4 then {} else {q..<q + ?x}) \<union> blocks post" by (auto simp: taken_def)
    have dj: "blocks pre \<inter> {q..<q + s} = {}" "blocks post \<inter> {q..<q + s} = {}" using M by auto
    have Cd: "C \<inter> blocks fb = {}" using sp by blast
    have frag: "{t..<u} - (C \<union> ?I) - blocks ?fb =
        ({t..<u} - C - blocks fb) \<union> (if ?x < 4 then {q..<q + ?x} else {})"
    proof -
      have "{q..<q + s} = {q..<q + ?x} \<union> {q + ?x..<q + s}" "{q..<q + ?x} \<inter> {q + ?x..<q + s} = {}" "{q..<q + s} \<subseteq> {t..<u}"
        using 2(2) M by auto
      note fr = frag_take [OF dj this(1,2) Cd [unfolded bl] this(3)]
      show ?thesis unfolding I bl bl'
        by (cases "?x < 4") (simp_all only: if_True if_False Un_empty_right fr)
    qed
    have L: "{q..<q + ?x} \<subseteq> {q..<q + s}" "{q + ?x..<q + s} \<subseteq> {q..<q + s}" by auto
    then have "({t..<u} - C - blocks fb) \<inter> {q..<q + ?x} = {}" unfolding bl by blast
    then have "card ({t..<u} - (C \<union> ?I) - blocks ?fb) = card ({t..<u} - C - blocks fb) + (if ?x < 4 then ?x else 0)"
      unfolding frag by (simp add: card_Un_disjoint)
    also have "\<dots> = unat (d' ! (hdr + 7))"
    proof -
      have "unat (word_of_nat (?f + ?x) :: u8) = ?f + ?x" if "?x < 4"
        using that F by (simp add: unat_of_nat del: of_nat_add)
      moreover have "card ({t..<u} - C - blocks fb) = ?f" using sp by simp
      ultimately show ?thesis using 2(6) by simp
    qed
    finally have F': "unat (d' ! (hdr + 7)) = card ({t..<u} - (C \<union> ?I) - blocks ?fb)" by simp
    have "g2 d' (hdr + 5) = g2 d (hdr + 5)"
    proof (rule g2_cong)
      have "hdr + 5 \<notin> blocks fb" "Suc (hdr + 5) \<notin> blocks fb"
        using sp chain_blocks [of 4 t u fb] by auto
      then show "d' ! (hdr + 5) = d ! (hdr + 5)" "d' ! Suc (hdr + 5) = d ! Suc (hdr + 5)"
        using 2(7) by auto
    qed
    moreover have "C \<union> ?I \<subseteq> {t..<u}" using sp M I by auto
    moreover have "(C \<union> ?I) \<inter> blocks ?fb = {}"
    proof -
      have "blocks ?fb \<subseteq> blocks fb" unfolding bl bl' using L by (cases "?x < 4") auto
      moreover have "{q + ?x..<q + s} \<inter> {q..<q + ?x} = {}" by auto
      then have "?I \<inter> blocks ?fb = {}" unfolding I bl' using dj L by (cases "?x < 4") auto
      ultimately show ?thesis using Cd by blast
    qed
    moreover have "thick (C \<union> ?I)" using sp n by (intro thick_Un) auto
    ultimately have "space hdr u d' t ?fb (C \<union> ?I)"
      using sp 2(4,5) ch' F' unfolding space_def by simp
    moreover have "?I \<subseteq> blocks fb" unfolding I bl using L by blast
    moreover have "d' ! i = d ! i" if "i \<notin> blocks fb" "i \<notin> {hdr + 1, hdr + 2, hdr + 7}" for i
      using 2(7) that by simp
    ultimately show ?thesis using 2(3,4) by blast
  qed
qed

lemma space_gap:
  assumes S: "space hdr u d t fb C" and n: "4 \<le> n" "hdr + 8 + n \<le> t"
  shows "space hdr u (p2 d (hdr + 5) (t - n)) (t - n) fb (C \<union> {t - n..<t})"
proof -
  let ?d = "p2 d (hdr + 5) (t - n)"
  note sp = S [unfolded space_def]
  have b: "blocks fb \<subseteq> {t..<u}" using sp chain_blocks [of 4 t u fb] by blast
  have g: "g2 ?d (hdr + 5) = (t - n) mod 65536" using sp n by (intro g2_p2_mod) auto
  have "fl ?d (hdr + 1) fb"
  proof (rule fl_move)
    show "fl d (hdr + 1) fb" "chain 4 t u fb" using sp by auto
    show "g2 ?d (hdr + 1) = g2 d (hdr + 1)" by (simp add: g2_p2_other)
    fix i assume "i \<in> blocks fb"
    then show "?d ! i = d ! i" using b sp by (intro nth_p2) auto
  qed
  moreover have "chain 4 (t - n) u fb" using sp by (auto elim: chain_mono)
  moreover have "C \<union> {t - n..<t} \<subseteq> {t - n..<u}"
  proof -
    have "C \<subseteq> {t..<u}" "t \<le> u" using sp by blast+
    moreover from this(2) have "{t..<u} \<subseteq> {t - n..<u}" "{t - n..<t} \<subseteq> {t - n..<u}" by auto
    ultimately show ?thesis by blast
  qed
  moreover have "(C \<union> {t - n..<t}) \<inter> blocks fb = {}" using sp b by auto
  moreover have "thick (C \<union> {t - n..<t})" using sp n thick_ivl [of n "t - n"] by (intro thick_Un) auto
  moreover have "{t - n..<u} - (C \<union> {t - n..<t}) - blocks fb = {t..<u} - C - blocks fb" using sp by auto
  moreover have "?d ! (hdr + 7) = d ! (hdr + 7)" by (intro nth_p2) auto
  moreover have "hdr + 8 \<le> t - n" "t - n \<le> u" using sp n by linarith+
  ultimately show ?thesis using sp g unfolding space_def by simp
qed

section \<open>Release\<close>

text \<open>Where a block goes in the list, and the list with the block linked in.\<close>

lemma free_place_ok:
  assumes "fl d a fb" "chain 4 m u fb" "a + 4 \<le> m" "u \<le> length d" "a + 1 < length d" "start \<notin> blocks fb" "0 < start"
  shows "\<exists>pre post. fb = pre @ post \<and> (\<forall>(q, s) \<in> set pre. q + s \<le> start) \<and> (\<forall>(q, s) \<in> set post. start < q) \<and>
    free_place d start a = Some (Some (last (a # map fst pre), case post of [] \<Rightarrow> 0 | (q, s) # _ \<Rightarrow> q))"
  using assms
proof (induction fb arbitrary: a m)
  case Nil
  then show ?case by (subst free_place.simps) (simp add: get2byte_g2)
next
  case (Cons x fb)
  obtain q s where x: "x = (q, s)" by (cases x)
  note p = Cons.prems [unfolded x]
  have f: "g2 d a = q" "0 < q" "fl d q fb" using p(1) by auto
  have c: "m \<le> q" "4 \<le> s" "q + s \<le> u" "chain 4 (q + s + 4) u fb" using p(2) by auto
  have r: "get2byte d a = Some q" using f p by (simp add: get2byte_g2)
  show ?case
  proof (cases "q < start")
    case True
    have "q + s \<le> start" using True p(6) by auto
    have "q + 4 \<le> q + s + 4" "q + 1 < length d" "start \<notin> blocks fb" using p c by auto
    from Cons.IH [OF f(3) c(4) this(1) p(4) this(2,3) p(7)] obtain pre post where
      I: "fb = pre @ post" "\<forall>(q, s) \<in> set pre. q + s \<le> start" "\<forall>(q, s) \<in> set post. start < q"
        "free_place d start q = Some (Some (last (q # map fst pre), case post of [] \<Rightarrow> 0 | (q, s) # _ \<Rightarrow> q))"
      by blast
    have "\<not> q < a + 4" using p c by linarith
    then have "free_place d start a = free_place d start q"
      using r f True by (subst free_place.simps) simp
    then show ?thesis
      using I x \<open>q + s \<le> start\<close> by (intro exI [of _ "(q, s) # pre"] exI [of _ post]) simp
  next
    case False
    then have "start < q" using p(6) c x by (cases "start = q") auto
    have "start < q'" if mem: "(q', s') \<in> set fb" for q' s'
    proof -
      have "q' \<in> blocks fb"
      proof -
        obtain ys zs where e: "fb = ys @ (q', s') # zs" using split_list [OF mem] by blast
        then have "chain 4 (q + s + 4) u (ys @ (q', s') # zs)" using c(4) by simp
        from chain_mid [OF this] have "4 \<le> s'" by blast
        then show ?thesis using e by auto
      qed
      then show ?thesis using chain_blocks [OF c(4)] \<open>start < q\<close> by auto
    qed
    then show ?thesis
      using r x False \<open>start < q\<close> by (subst free_place.simps) (auto intro!: exI [of _ "[]"])
  qed
qed

text \<open>
  The merging loop. \<open>P\<close> are the bytes of the blocks before the link \<open>a\<close>; between neighbours that are
  less than four bytes apart there are only fragments.
\<close>

lemma gap_is_fragment:
  assumes "thick C" "C \<inter> {q..<q + s} = {}" "C \<inter> {q'..<q' + s'} = {}" "4 \<le> s" "4 \<le> s'"
    "q + s \<le> q'" "q' \<le> q + s + 3"
  shows "C \<inter> {q + s..<q'} = {}"
proof -
  have False if x: "x \<in> C" "x \<in> {q + s..<q'}" for x
  proof -
    obtain a where a: "x \<in> {a..<a + 4}" "{a..<a + 4} \<subseteq> C"
      using bspec [OF assms(1) [unfolded thick_def] x(1)] by blast
    show False
    proof (cases "a < q + s")
      case True
      then have "q + s - 1 \<in> {a..<a + 4}" "q + s - 1 \<in> {q..<q + s}" using a(1) x(2) assms(4) by auto
      then show False using a(2) assms(2) by blast
    next
      case False
      then have "q' \<in> {a..<a + 4}" "q' \<in> {q'..<q' + s'}" using a(1) x(2) assms(5,7) by auto
      then show False using a(2) assms(3) by blast
    qed
  qed
  then show ?thesis by blast
qed

lemma coalesce_ok:
  assumes "fl d a fb" "chain 0 m u fb" "a + 4 \<le> m" "u \<le> length d" "a + 1 < length d" "a + 1 < hdr + 7 \<or> hdr + 7 < a" "hdr + 7 < t"
    "t \<le> m" "thick C" "(C \<union> P) \<inter> blocks fb = {}" "P \<inter> {m..} = {}"
    "unat (d ! (hdr + 7)) = card ({t..<u} - C - P - blocks fb)" "length fb < fuel" "u \<le> 65536"
  shows "\<exists>d' fb'. coalesce fuel d u hdr a = Some (True, d') \<and> length d' = length d \<and> fl d' a fb' \<and> chain 4 m u fb' \<and>
    blocks fb \<subseteq> blocks fb' \<and> (fb = [] \<longleftrightarrow> fb' = []) \<and> C \<inter> blocks fb' = {} \<and> P \<inter> blocks fb' = {} \<and>
    unat (d' ! (hdr + 7)) = card ({t..<u} - C - P - blocks fb') \<and>
    (\<forall>i. i \<notin> blocks fb' \<longrightarrow> i \<noteq> hdr + 7 \<longrightarrow> d' ! i = d ! i)"
  using assms
proof (induction fuel arbitrary: d a fb m P)
  case 0
  then show ?case by simp
next
  case (Suc fuel)
  show ?case
  proof (cases fb)
    case Nil
    then show ?thesis using Suc.prems(1,5,12) by (intro exI [of _ d] exI [of _ "[]"]) (simp add: get2byte_g2)
  next
    case (Cons x r)
    obtain q s where x: "x = (q, s)" by (cases x)
    note p = Suc.prems [unfolded Cons x]
    have f: "g2 d a = q" "0 < q" "g2 d (q + 2) = s" "fl d q r" using p(1) by auto
    have c: "m \<le> q" "4 \<le> s" "q + s \<le> u" "chain 0 (q + s) u r" using p(2) by auto
    have b: "blocks r \<subseteq> {q + s..<u}" using chain_blocks [OF c(4)] by simp
    have rds: "get2byte d a = Some q" "get2byte d q = Some (g2 d q)" "get2byte d (q + 2) = Some s"
      using f c p(4,5) by (simp_all add: get2byte_g2)
    have as: "assert_that (a < q \<and> q \<le> u - 4) = Some ()" using c p(3) by simp
    have h: "rd d (hdr + 7) = Some (d ! (hdr + 7))" using p(4,7,8) c by (simp add: rd_def)
    show ?thesis
    proof (cases "g2 d q \<le> q + s + 3 \<and> 0 < g2 d q")
      case False
      let ?P = "P \<union> {q..<q + s}"
      have st: "coalesce (Suc fuel) d u hdr a = coalesce fuel d u hdr q"
        using rds as f(2) False by auto
      have c4: "chain 0 (q + s + 4) u r" using False f(4) c(4) by (cases r) auto
      have b4: "blocks r \<subseteq> {q + s + 4..<u}" using chain_blocks [OF c4] .
      have F: "{t..<u} - C - ?P - blocks r = {t..<u} - C - P - blocks ((q, s) # r)" by auto
      have "(C \<union> ?P) \<inter> blocks r = {}" using p(10) b by auto
      moreover have "?P \<inter> {q + s + 4..} = {}" using p(11) c(1) by fastforce
      moreover have "unat (d ! (hdr + 7)) = card ({t..<u} - C - ?P - blocks r)" using p(12) unfolding F .
      moreover have "q + 4 \<le> q + s + 4" "q + 1 < length d" "q + 1 < hdr + 7 \<or> hdr + 7 < q" "t \<le> q + s + 4" "length r < fuel"
        using p c by auto
      ultimately obtain d' fb' where I: "coalesce fuel d u hdr q = Some (True, d')" "length d' = length d" "fl d' q fb'"
        "chain 4 (q + s + 4) u fb'" "blocks r \<subseteq> blocks fb'" "C \<inter> blocks fb' = {}" "?P \<inter> blocks fb' = {}"
        "unat (d' ! (hdr + 7)) = card ({t..<u} - C - ?P - blocks fb')"
        "\<And>i. i \<notin> blocks fb' \<Longrightarrow> i \<noteq> hdr + 7 \<Longrightarrow> d' ! i = d ! i"
        using Suc.IH [OF f(4) c4 _ p(4) _ _ p(7) _ p(9) _ _ _ _ p(14), of ?P] by blast
      have b': "blocks fb' \<subseteq> {q + s + 4..<u}" using chain_blocks [OF I(4)] .
      have "a \<notin> blocks fb'" "Suc a \<notin> blocks fb'" "q + 2 \<notin> blocks fb'" "Suc (q + 2) \<notin> blocks fb'"
        using b' p(3) c by auto
      moreover have "q + 2 \<noteq> hdr + 7" "Suc (q + 2) \<noteq> hdr + 7" "a \<noteq> hdr + 7" "Suc a \<noteq> hdr + 7" using p(6,7,8) c by auto
      ultimately have "g2 d' a = g2 d a" "g2 d' (q + 2) = g2 d (q + 2)"
        using I(9) by (auto intro!: g2_cong)
      then have "fl d' a ((q, s) # fb')" using f I(3) by simp
      moreover have "chain 4 m u ((q, s) # fb')" using c I(4) by simp
      moreover have "C \<inter> blocks ((q, s) # fb') = {}" using p(10) I(6) by auto
      moreover have "P \<inter> blocks ((q, s) # fb') = {}" using p(10) I(7) by auto
      moreover have "{t..<u} - C - ?P - blocks fb' = {t..<u} - C - P - blocks ((q, s) # fb')" by auto
      ultimately show ?thesis
        using I(1,2,5,8,9) st Cons x by (intro exI [of _ d'] exI [of _ "(q, s) # fb'"]) auto
    next
      case True
      then obtain q' s' r' where r: "r = (q', s') # r'" using f(4) by (cases r) auto
      have f': "g2 d q = q'" "0 < q'" "g2 d (q' + 2) = s'" "fl d q' r'" using f(4) r by auto
      have c': "q + s \<le> q'" "4 \<le> s'" "q' + s' \<le> u" "chain 0 (q' + s') u r'" "q' \<le> q + s + 3" using c(4) r True f' by auto
      have b': "blocks r' \<subseteq> {q' + s'..<u}" using chain_blocks [OF c'(4)] by simp
      let ?G = "{q + s..<q'}" and ?F = "{t..<u} - C - P - blocks ((q, s) # r)" and ?fb = "(q, q' + s' - q) # r'"
      have "C \<inter> {q..<q + s} = {}" "C \<inter> {q'..<q' + s'} = {}" using p(10) r by auto
      then have CG: "C \<inter> ?G = {}" by (rule gap_is_fragment [OF p(9) _ _ c(2) c'(2,1,5)])
      have PG: "P \<inter> ?G = {}" using p(11) c(1) by fastforce
      have GF: "?G \<subseteq> ?F" using CG PG b' c c' p(8) r by fastforce
      then have le: "q' - (q + s) \<le> unat (d ! (hdr + 7))" using card_mono [OF _ GF] p(12) by simp
      let ?frag = "int q' - int (q + s)" and ?w = "d ! (hdr + 7) - word_of_int (int q' - int (q + s))"
      define d1 where "d1 = d[hdr + 7 := ?w]"
      define d2 where "d2 = p2 d1 q (g2 d q')"
      define d3 where "d3 = p2 d2 (q + 2) (q' + s' - q)"
      have l: "length d1 = length d" "length d2 = length d" "length d3 = length d" by (simp_all add: d1_def d2_def d3_def)
      have h7: "hdr + 7 < q" "hdr + 7 < length d" using p(4,7,8) c by auto
      have q4: "q + 4 \<le> q'" "q' + 3 < length d" using p(4) c c' by auto
      have keep: "d3 ! i = d ! i" if "i \<notin> {q..<q + 4}" "i \<noteq> hdr + 7" for i
        using that by (auto simp: d3_def d2_def d1_def nth_p2)
      have frag: "\<not> (?frag < 0 \<or> int (unat (d ! (hdr + 7))) < ?frag)" using le c'(1) by linarith
      have v: "q' + s' - q < 65536" using p(14) c' h7 by auto
      have st: "coalesce (Suc fuel) d u hdr a = coalesce fuel d3 u hdr a"
      proof -
        have "get2byte d1 q' = Some (g2 d q')" using q4 h7 by (simp add: get2byte_g2 d1_def g2_upd_other)
        moreover have "put2byte d1 q (g2 d q') = Some d2" using q4 l by (simp add: put2byte_p2 d2_def)
        moreover have "get2byte d2 (q' + 2) = Some s'"
          using q4 h7 f'(3) l by (simp add: get2byte_g2 d2_def d1_def g2_p2_other g2_upd_other)
        moreover have "put2byte d2 (q + 2) (q' + s' - q) = Some d3" using q4 l by (simp add: put2byte_p2 d3_def)
        moreover have "wr d (hdr + 7) ?w = Some d1" using h7 by (simp add: wr_def d1_def)
        ultimately show ?thesis using rds as h f(2) f' True frag by simp
      qed
      have g: "g2 d3 a = q" "g2 d3 q = g2 d q'" "g2 d3 (q + 2) = q' + s' - q"
      proof -
        have "g2 d3 a = g2 d a" using p(3,6) c by (intro g2_cong) (auto intro!: keep)
        then show "g2 d3 a = q" using f(1) by simp
        have "g2 d3 q = g2 d2 q" by (simp add: d3_def g2_p2_other)
        also have "\<dots> = g2 d q'" unfolding d2_def using q4 l g2_less by (intro g2_p2) auto
        finally show "g2 d3 q = g2 d q'" .
        show "g2 d3 (q + 2) = q' + s' - q" unfolding d3_def using q4 l v by (intro g2_p2) auto
      qed
      have "fl d3 q r'"
        by (rule fl_move [OF f'(4) c'(4) g(2)]) (use b' q4 h7 in \<open>auto intro!: keep\<close>)
      then have fl3: "fl d3 a ?fb" using g f(2) by simp
      have bl3: "blocks ?fb = {q..<q'} \<union> {q'..<q' + s'} \<union> blocks r'" using c' by auto
      have bl: "blocks ((q, s) # r) = {q..<q + s} \<union> {q'..<q' + s'} \<union> blocks r'" using r by auto
      have spl: "{q..<q'} = {q..<q + s} \<union> ?G" using c' by auto
      have blG: "blocks ?fb = blocks ((q, s) # r) \<union> ?G" unfolding bl3 bl spl by blast
      have F3: "{t..<u} - C - P - blocks ?fb = ?F - ?G" unfolding blG by blast
      have "unat (d3 ! (hdr + 7)) = unat (d ! (hdr + 7)) - (q' - (q + s))"
      proof -
        have "d3 ! (hdr + 7) = ?w" using h7 by (simp add: d3_def d2_def d1_def nth_p2)
        moreover have "int q' - int (q + s) = int (q' - (q + s))" using c'(1) by linarith
        then have "word_of_int (int q' - int (q + s)) = (word_of_nat (q' - (q + s)) :: u8)"
          by (simp only: of_int_of_nat_eq)
        moreover have "unat (word_of_nat k :: u8) = k" if "k \<le> 3" for k using that by (simp add: unat_of_nat)
        then have "unat (word_of_nat (q' - (q + s)) :: u8) = q' - (q + s)" using c'(5) by simp
        ultimately show ?thesis using le by (simp only: unat_sub word_le_nat_alt)
      qed
      then have u3: "unat (d3 ! (hdr + 7)) = card ({t..<u} - C - P - blocks ?fb)"
        unfolding F3 using p(12) GF by (simp add: card_Diff_subset)
      have dj3: "(C \<union> P) \<inter> blocks ?fb = {}" unfolding blG using p(10) CG PG by blast
      have ch3: "chain 0 m u ?fb" using c c' by simp
      have lf3: "length ?fb < fuel" using p(13) r by simp
      have len3: "u \<le> length d3" "a + 1 < length d3" using p(4,5) l by simp_all
      from Suc.IH [OF fl3 ch3 p(3) len3 p(6,7,8,9) dj3 p(11) u3 lf3 p(14)]
      obtain d' fb' where I: "coalesce fuel d3 u hdr a = Some (True, d')" "length d' = length d3" "fl d' a fb'"
        "chain 4 m u fb'" "blocks ?fb \<subseteq> blocks fb'" "?fb = [] \<longleftrightarrow> fb' = []" "C \<inter> blocks fb' = {}" "P \<inter> blocks fb' = {}"
        "unat (d' ! (hdr + 7)) = card ({t..<u} - C - P - blocks fb')"
        "\<forall>i. i \<notin> blocks fb' \<longrightarrow> i \<noteq> hdr + 7 \<longrightarrow> d' ! i = d3 ! i"
        by blast
      have "d' ! i = d ! i" if "i \<notin> blocks fb'" "i \<noteq> hdr + 7" for i
      proof -
        have "i \<notin> {q..<q + 4}" using that(1) I(5) c(2) unfolding bl3 spl by fastforce
        then show ?thesis using I(10) keep that by simp
      qed
      moreover have "blocks ((q, s) # r) \<subseteq> blocks fb'" using I(5) blG by blast
      ultimately show ?thesis
        using I(1,2,3,4,6,7,8,9) st l(3) Cons x by (intro exI [of _ d'] exI [of _ fb']) simp
    qed
  qed
qed

end
