(* ===== verification/BtRelease.thy ===== *)
theory BtRelease
  imports BtFree
begin

text \<open>
  Correctness of \<^verbatim>\<open>freeSpace\<close>: the released bytes leave the bytes in use, and the list of freeblocks, the
  fragments and the begin of the cell content describe the new free space.
\<close>

lemma chain_raise: "chain g m u fb \<Longrightarrow> (\<forall>(q, s) \<in> set fb. m' \<le> q) \<Longrightarrow> chain g m' u fb"
  by (cases fb) auto

lemma chain_insert:
  "chain 0 m u (pre @ post) \<Longrightarrow> (\<forall>(q, s) \<in> set pre. q + s \<le> start) \<Longrightarrow> (\<forall>(q, s) \<in> set post. start + n \<le> q) \<Longrightarrow>
   m \<le> start \<Longrightarrow> 4 \<le> n \<Longrightarrow> start + n \<le> u \<Longrightarrow> chain 0 m u (pre @ (start, n) # post)"
proof (induction pre arbitrary: m)
  case Nil
  then have "chain 0 (start + n) u post" by (auto intro: chain_raise [of 0 m])
  then show ?case using Nil by simp
next
  case (Cons x pre)
  then show ?case by (cases x) auto
qed

lemma fl_head: "fl d a fb \<Longrightarrow> g2 d a = (case fb of [] \<Rightarrow> 0 | (q, s) # _ \<Rightarrow> q)"
  by (cases fb) auto

lemma fl_insert:
  "fl d a (pre @ post) \<Longrightarrow> chain 4 m u (pre @ post) \<Longrightarrow> a + 4 \<le> m \<Longrightarrow>
   (\<And>i. i \<in> blocks (pre @ post) \<Longrightarrow> i \<noteq> last (a # map fst pre) \<Longrightarrow> i \<noteq> Suc (last (a # map fst pre)) \<Longrightarrow> d' ! i = d ! i) \<Longrightarrow>
   (pre \<noteq> [] \<Longrightarrow> g2 d' a = g2 d a) \<Longrightarrow> g2 d' (last (a # map fst pre)) = start \<Longrightarrow> 0 < start \<Longrightarrow>
   g2 d' start = (case post of [] \<Rightarrow> 0 | (q, s) # _ \<Rightarrow> q) \<Longrightarrow> g2 d' (start + 2) = n \<Longrightarrow>
   fl d' a (pre @ (start, n) # post)"
proof (induction pre arbitrary: a m)
  case Nil
  have f: "fl d a post" and c: "chain 4 m u post" using Nil(1,2) by simp_all
  have "fl d' start post"
  proof (rule fl_move [OF f c])
    show "g2 d' start = g2 d a" using fl_head [OF f] Nil(8) by simp
    fix i assume i: "i \<in> blocks post"
    then have "m \<le> i" using chain_blocks [OF c] by auto
    then show "d' ! i = d ! i" using i Nil(3) by (intro Nil(4)) auto
  qed
  moreover have "g2 d' a = start" using Nil(6) by simp
  ultimately show ?case using Nil(7,9) by simp
next
  case (Cons x pre)
  obtain q s where x: "x = (q, s)" by (cases x)
  let ?l = "last (q # map fst pre)"
  have l: "last (a # map fst (x # pre)) = ?l" using x by simp
  note p = Cons.prems [unfolded l, unfolded x]
  have c: "m \<le> q" "4 \<le> s" "chain 4 (q + s + 4) u (pre @ post)" using p(2) by auto
  have b: "blocks (pre @ post) \<subseteq> {q + s + 4..<u}" using chain_blocks [OF c(3)] .
  have ll: "?l = q \<or> q + s + 4 \<le> ?l"
  proof (cases pre rule: rev_cases)
    case (snoc ys y)
    obtain q' s' where y: "y = (q', s')" by (cases y)
    have "chain 4 (q + s + 4) u (ys @ (q', s') # post)" using c(3) snoc y by simp
    from chain_mid [OF this] show ?thesis using snoc y by simp
  qed simp
  have q2: "g2 d' (q + 2) = g2 d (q + 2)"
    using p(4) c(2) ll by (intro g2_cong) auto
  have sub: "i \<in> blocks (pre @ post) \<Longrightarrow> i \<in> blocks (((q, s) # pre) @ post)" for i by simp
  have g: "pre \<noteq> [] \<Longrightarrow> g2 d' q = g2 d q"
  proof -
    assume "pre \<noteq> []"
    then have "q + s + 4 \<le> ?l"
    proof (cases pre rule: rev_cases)
      case (snoc ys y)
      obtain q' s' where y: "y = (q', s')" by (cases y)
      have "chain 4 (q + s + 4) u (ys @ (q', s') # post)" using c(3) snoc y by simp
      from chain_mid [OF this] show ?thesis using snoc y by simp
    qed simp
    then show ?thesis using p(4) c(2) by (intro g2_cong) auto
  qed
  have "fl d' q (pre @ (start, n) # post)"
    using p(1) c by (intro Cons.IH [OF _ c(3) _ p(4) [OF sub] g p(6,7,8,9)]) auto
  then show ?case using p(1,5) q2 x by simp
qed

lemma g2_eq_iff: "g2 d a = g2 d b \<longleftrightarrow> d ! a = d ! b \<and> d ! (a + 1) = d ! (b + 1)"
proof
  assume e: "g2 d a = g2 d b"
  have l: "unat (d ! k) < 256" for k using unsigned_less [of "d ! k", where ?'a = nat] by simp
  have "unat (d ! (a + 1)) = g2 d a mod 256" "unat (d ! (b + 1)) = g2 d b mod 256"
    "unat (d ! a) = g2 d a div 256" "unat (d ! b) = g2 d b div 256"
    using l by (simp_all add: g2_def)
  then show "d ! a = d ! b \<and> d ! (a + 1) = d ! (b + 1)" using e by (simp add: word_unat_eq_iff)
qed (simp add: g2_def)

theorem freeSpace_ok:
  assumes S: "space hdr u (aData p) t fb C" and hdr: "hdr = hdrOffset p" and u: "u = usableSize b"
    and I: "{start..<start + n} \<subseteq> C" and n: "4 \<le> n" and tk: "thick (C - {start..<start + n})"
    and lo: "hdr + 6 + childPtrSize p \<le> t"
  shows "\<exists>d' t' fb'. freeSpace b p start n = Some (SQLITE_OK, p\<lparr>nFree := (nFree p + n) mod 65536, aData := d'\<rparr>) \<and>
    length d' = length (aData p) \<and> space hdr u d' t' fb' (C - {start..<start + n}) \<and> t \<le> t' \<and>
    (\<forall>i. i < t \<or> i \<in> C - {start..<start + n} \<longrightarrow> i \<notin> {hdr + 1, hdr + 2, hdr + 5, hdr + 6, hdr + 7} \<longrightarrow> d' ! i = aData p ! i)"
proof -
  let ?I = "{start..<start + n}" and ?d = "aData p"
  let ?C = "C - ?I"
  note sp = S [unfolded space_def]
  have C: "C \<subseteq> {t..<u}" "C \<inter> blocks fb = {}" and ch: "chain 4 t u fb" and fl: "fl ?d (hdr + 1) fb" using sp by blast+
  have ul: "u \<le> length ?d" "u \<le> 65536" "hdr + 8 \<le> t" "t \<le> u" using sp by blast+
  have st: "t \<le> start" "start + n \<le> u"
  proof -
    have "start \<in> ?I" "start + n - 1 \<in> ?I" using n by auto
    then have "start \<in> {t..<u}" "start + n - 1 \<in> {t..<u}" using I C(1) by blast+
    then show "t \<le> start" "start + n \<le> u" by auto
  qed
  have bl: "blocks fb \<subseteq> {t..<u}" using chain_blocks [OF ch] .
  define d0 where "d0 = (if secure_delete b then ov ?d start (replicate n 0) else ?d)"
  have l0: "length d0 = length ?d" using st ul by (simp add: d0_def)
  have d0: "d0 ! i = ?d ! i" if "i \<notin> ?I" "i < length ?d" for i
    using that st ul by (auto simp: d0_def nth_ov)
  have sd: "(if secure_delete b then zero_fill ?d start n else Some ?d) = Some d0"
    using st ul by (simp add: d0_def blit_ov)
  have dj: "?I \<inter> blocks fb = {}" using I C(2) by blast
  have fl0: "fl d0 (hdr + 1) fb"
    by (rule fl_move [OF fl ch]) (use dj bl ul st in \<open>auto intro!: g2_cong d0\<close>)
  have "start \<in> ?I" using n by simp
  then have "start \<notin> blocks fb" using dj by blast
  moreover have "hdr + 1 + 4 \<le> t" "u \<le> length d0" "hdr + 1 + 1 < length d0" "0 < start"
    using ul l0 st by auto
  ultimately have "hdr + 1 + 4 \<le> t" "u \<le> length d0" "hdr + 1 + 1 < length d0" "start \<notin> blocks fb" "0 < start" by blast+
  from free_place_ok [OF fl0 ch this] obtain pre post where P: "fb = pre @ post"
    "\<forall>(q, s) \<in> set pre. q + s \<le> start" "\<forall>(q, s) \<in> set post. start < q"
    "free_place d0 start (hdr + 1) = Some (Some (last ((hdr + 1) # map fst pre), case post of [] \<Rightarrow> 0 | (q, s) # _ \<Rightarrow> q))"
    by blast
  define addr where "addr = last ((hdr + 1) # map fst pre)"
  define pb where "pb = (case post of [] \<Rightarrow> 0 | (q, s) # _ \<Rightarrow> q)"
  have addr: "addr + 4 \<le> start" "addr = hdr + 1 \<or> t \<le> addr \<and> {addr..<addr + 4} \<subseteq> blocks fb"
  proof -
    have "addr + 4 \<le> start \<and> (addr = hdr + 1 \<or> t \<le> addr \<and> {addr..<addr + 4} \<subseteq> blocks fb)"
    proof (cases pre rule: rev_cases)
      case Nil
      then show ?thesis using ul st by (simp add: addr_def)
    next
      case (snoc ys y)
      obtain q s where y: "y = (q, s)" by (cases y)
      have "chain 4 t u (ys @ (q, s) # post)" using ch P(1) snoc y by simp
      from chain_mid [OF this] have "t \<le> q" "4 \<le> s" by blast+
      moreover have "q + s \<le> start" using P(2) snoc y by simp
      ultimately show ?thesis using snoc y P(1) by (auto simp: addr_def)
    qed
    then show "addr + 4 \<le> start" "addr = hdr + 1 \<or> t \<le> addr \<and> {addr..<addr + 4} \<subseteq> blocks fb" by blast+
  qed
  have post: "\<forall>(q, s) \<in> set post. start + n \<le> q"
  proof clarify
    fix q s assume m: "(q, s) \<in> set post"
    obtain ys zs where "fb = ys @ (q, s) # zs" using split_list [OF m] P(1) by (metis append.assoc)
    then have "chain 4 t u (ys @ (q, s) # zs)" "q \<in> blocks fb \<longleftrightarrow> q \<in> blocks (ys @ (q, s) # zs)" using ch by simp_all
    then have "q \<in> blocks fb" using chain_mid [of 4 t u ys q s zs] by auto
    then have "q \<notin> ?I" using dj by blast
    moreover have "start < q" using P(3) m by auto
    ultimately show "start + n \<le> q" by auto
  qed
  have pb: "pb = 0 \<or> start + n \<le> pb \<and> pb + 4 \<le> u"
  proof (cases post)
    case (Cons y zs)
    obtain q s where y: "y = (q, s)" by (cases y)
    have "chain 4 t u (pre @ (q, s) # zs)" using ch P(1) Cons y by simp
    from chain_mid [OF this] have "q + 4 \<le> u" by linarith
    then show ?thesis using post Cons y by (simp add: pb_def)
  qed (simp add: pb_def)
  define d1 where "d1 = p2 d0 addr start"
  define d2 where "d2 = p2 d1 start pb"
  define d3 where "d3 = p2 d2 (start + 2) n"
  have l: "length d1 = length ?d" "length d2 = length ?d" "length d3 = length ?d"
    by (simp_all add: d1_def d2_def d3_def l0)
  have small: "start < 65536" "pb < 65536" "n < 65536" using st ul n pb \<open>0 < start\<close> by auto
  have keep: "d3 ! i = ?d ! i" if "i \<notin> ?I" "i \<noteq> addr" "i \<noteq> Suc addr" "i < length ?d" for i
  proof -
    have "i \<noteq> start" "i \<noteq> Suc start" "i \<noteq> start + 2" "i \<noteq> Suc (start + 2)" using that(1) n by auto
    then show ?thesis using that by (simp add: d3_def d2_def d1_def nth_p2 d0)
  qed
  let ?fb = "pre @ (start, n) # post"
  have fl3: "fl d3 (hdr + 1) ?fb"
  proof (rule fl_insert)
    show "fl ?d (hdr + 1) (pre @ post)" "chain 4 t u (pre @ post)" using fl ch P(1) by simp_all
    show "hdr + 1 + 4 \<le> t" using ul by simp
    show "d3 ! i = ?d ! i" if "i \<in> blocks (pre @ post)" "i \<noteq> last ((hdr + 1) # map fst pre)"
      "i \<noteq> Suc (last ((hdr + 1) # map fst pre))" for i
      using that dj bl P(1) ul by (intro keep) (auto simp: addr_def)
    show "g2 d3 (last ((hdr + 1) # map fst pre)) = start"
    proof -
      have "g2 d3 addr = g2 d1 addr" using addr(1) by (simp add: d3_def d2_def g2_p2_other)
      also have "\<dots> = start" unfolding d1_def using addr(1) st ul l0 small by (intro g2_p2) auto
      finally show ?thesis by (simp add: addr_def)
    qed
    show "g2 d3 (hdr + 1) = g2 ?d (hdr + 1)" if "pre \<noteq> []"
    proof -
      have "addr \<noteq> hdr + 1"
      proof (cases pre rule: rev_cases)
        case (snoc ys y)
        obtain q s where y: "y = (q, s)" by (cases y)
        have "chain 4 t u (ys @ (q, s) # post)" using ch P(1) snoc y by simp
        from chain_mid [OF this] show ?thesis using snoc y ul by (simp add: addr_def)
      qed (use that in simp)
      then have "t \<le> addr" using addr(2) by blast
      then show ?thesis using ul st by (intro g2_cong keep) auto
    qed
    show "0 < start" by (rule \<open>0 < start\<close>)
    have "g2 d3 start = g2 d2 start" by (simp add: d3_def g2_p2_other)
    also have "\<dots> = pb" unfolding d2_def using l st ul n small by (intro g2_p2) auto
    finally show "g2 d3 start = (case post of [] \<Rightarrow> 0 | (q, s) # _ \<Rightarrow> q)" by (simp add: pb_def)
    show "g2 d3 (start + 2) = n" unfolding d3_def using l st ul n small by (intro g2_p2) auto
  qed
  have ch3: "chain 0 t u ?fb"
    using ch P(1,2) post st n by (intro chain_insert) (auto intro: chain_gap)
  have bl3: "blocks ?fb = blocks fb \<union> ?I" using P(1) by auto
  have dj3: "(?C \<union> {}) \<inter> blocks ?fb = {}" unfolding bl3 using C(2) by blast
  have h7: "d3 ! (hdr + 7) = ?d ! (hdr + 7)" using addr ul st by (intro keep) auto
  have F3: "{t..<u} - ?C - {} - blocks ?fb = {t..<u} - C - blocks fb" unfolding bl3 using I by blast
  have u3: "unat (d3 ! (hdr + 7)) = card ({t..<u} - ?C - {} - blocks ?fb)" unfolding F3 h7 using sp by blast
  have fuel: "length ?fb < u" using chain_length [OF ch3 ul(4)] ul by linarith
  have "hdr + 1 + 4 \<le> t" "u \<le> length d3" "hdr + 1 + 1 < length d3" "hdr + 1 + 1 < hdr + 7 \<or> hdr + 7 < hdr + 1" "hdr + 7 < t" "t \<le> t"
    using ul l by auto
  from coalesce_ok [OF fl3 ch3 this tk dj3 _ u3 fuel ul(2)]
  obtain d4 fb4 where co: "coalesce u d3 u hdr (hdr + 1) = Some (True, d4)" "length d4 = length d3" "fl d4 (hdr + 1) fb4"
    "chain 4 t u fb4" "blocks ?fb \<subseteq> blocks fb4" "?fb = [] \<longleftrightarrow> fb4 = []" "?C \<inter> blocks fb4 = {}"
    "unat (d4 ! (hdr + 7)) = card ({t..<u} - ?C - {} - blocks fb4)"
    "\<forall>i. i \<notin> blocks fb4 \<longrightarrow> i \<noteq> hdr + 7 \<longrightarrow> d4 ! i = d3 ! i"
    by auto
  have b4: "blocks fb4 \<subseteq> {t..<u}" using chain_blocks [OF co(4)] .
  have frame4: "d4 ! i = ?d ! i" if "i < t \<or> i \<in> ?C" "i \<notin> {hdr + 1, hdr + 2, hdr + 7}" for i
  proof -
    have "i \<notin> blocks fb4" using that(1) b4 co(7) by auto
    then have "d4 ! i = d3 ! i" using co(9) that(2) by simp
    also have "\<dots> = ?d ! i"
    proof (rule keep)
      show "i \<notin> ?I" using that(1) st by auto
      have "i \<notin> blocks fb" using that(1) bl C(2) by auto
      moreover have "addr \<in> {addr..<addr + 4}" "Suc addr \<in> {addr..<addr + 4}" by auto
      then have "addr = hdr + 1 \<or> addr \<in> blocks fb \<and> Suc addr \<in> blocks fb" using addr(2) by blast
      ultimately show "i \<noteq> addr" "i \<noteq> Suc addr" using that(2) by auto
      show "i < length ?d" using that(1) C(1) ul by auto
    qed
    finally show ?thesis .
  qed
  have top4: "g2 d4 (hdr + 5) = t mod 65536"
    using sp frame4 ul by (subst g2_cong [of d4 _ ?d]) auto
  have S4: "space hdr u d4 t fb4 ?C"
    using ul l co top4 tk C(1) unfolding space_def by auto
  define p' where "p' = p\<lparr>nFree := (nFree p + n) mod 65536\<rparr>"
  have step: "freeSpace b p start n = do {
      data \<leftarrow> (if d4 ! (hdr + 1) = d4 ! (hdr + 5) \<and> d4 ! (hdr + 2) = d4 ! (hdr + 6) then do {
                 pbegin \<leftarrow> get2byte d4 (hdr + 1);
                 bs \<leftarrow> get_bytes d4 pbegin 2;
                 data \<leftarrow> blit d4 (hdr + 1) bs;
                 t \<leftarrow> get2byte data (hdr + 5);
                 s \<leftarrow> get2byte data (pbegin + 2);
                 put2byte data (hdr + 5) (t + s)
               } else Some d4);
      Some (SQLITE_OK, p'\<lparr>aData := data\<rparr>) }"
  proof -
    have "start \<le> u - 4" "hdr + 6 + childPtrSize p \<le> start" "addr < pb \<or> pb = 0" "\<not> u - 4 < pb"
      using st n lo addr(1) pb by linarith+
    moreover have "put2byte d0 addr start = Some d1" using addr(1) st ul l0 by (simp add: d1_def put2byte_p2)
    moreover have "put2byte d1 start pb = Some d2" using st ul l n by (simp add: d2_def put2byte_p2)
    moreover have "put2byte d2 (start + 2) n = Some d3" using st ul l n by (simp add: d3_def put2byte_p2)
    moreover have "rd d4 (Suc hdr) = Some (d4 ! Suc hdr)" "rd d4 (Suc (Suc hdr)) = Some (d4 ! Suc (Suc hdr))"
      "rd d4 (hdr + 5) = Some (d4 ! (hdr + 5))" "rd d4 (hdr + 6) = Some (d4 ! (hdr + 6))"
      using ul l co(2) by (simp_all add: rd_def)
    ultimately show ?thesis
      using P(4) [folded addr_def pb_def] co(1) st sd
      by (simp add: freeSpace_def Let_def p'_def flip: hdr u)
  qed
  obtain q s r where fb4: "fb4 = (q, s) # r" using co(6) by (cases fb4) auto
  have f4: "g2 d4 (hdr + 1) = q" "0 < q" "g2 d4 (q + 2) = s" "fl d4 q r" using co(3) fb4 by auto
  have c4: "t \<le> q" "4 \<le> s" "q + s \<le> u" "chain 4 (q + s + 4) u r" using co(4) fb4 by auto
  have eq: "d4 ! (hdr + 1) = d4 ! (hdr + 5) \<and> d4 ! (hdr + 2) = d4 ! (hdr + 6) \<longleftrightarrow> q = t"
    using g2_eq_iff [of d4 "hdr + 1" "hdr + 5"] f4(1) top4 c4 f4(2) ul by (auto simp: add.commute)
  show ?thesis
  proof (cases "q = t")
    case False
    then have nP: "\<not> (d4 ! (hdr + 1) = d4 ! (hdr + 5) \<and> d4 ! (hdr + 2) = d4 ! (hdr + 6))" using eq by blast
    have "freeSpace b p start n = Some (SQLITE_OK, p'\<lparr>aData := d4\<rparr>)" unfolding step if_not_P [OF nP] by simp
    then show ?thesis
      using S4 l co(2) frame4 by (intro exI [of _ d4] exI [of _ t] exI [of _ fb4]) (auto simp: p'_def)
  next
    case True
    define d5 where "d5 = p2 d4 (hdr + 1) (g2 d4 q)"
    define d6 where "d6 = p2 d5 (hdr + 5) (t + s)"
    have tl: "t < 65536" using True c4 ul by linarith
    have l6: "length d5 = length ?d" "length d6 = length ?d" using l co(2) by (simp_all add: d5_def d6_def)
    have "freeSpace b p start n = Some (SQLITE_OK, p'\<lparr>aData := d6\<rparr>)"
    proof -
      have "get2byte d4 (hdr + 1) = Some q" using f4(1) ul l co(2) by (simp add: get2byte_g2)
      moreover have "get_bytes d4 q 2 = Some (take 2 (drop q d4))" using c4 ul l co(2) by (simp add: get_bytes_Some)
      moreover have "blit d4 (hdr + 1) (take 2 (drop q d4)) = Some d5"
        using c4 ul l co(2) by (simp add: blit_ov p2_copy d5_def)
      moreover have "get2byte d5 (hdr + 5) = Some t"
        using top4 tl ul l6 by (simp add: get2byte_g2 d5_def g2_p2_other)
      moreover have "get2byte d5 (q + 2) = Some s"
        using f4(3) c4 ul l6 by (simp add: get2byte_g2 d5_def g2_p2_other)
      moreover have "put2byte d5 (hdr + 5) (t + s) = Some d6" using ul l6 by (simp add: put2byte_p2 d6_def)
      moreover have P: "d4 ! (hdr + 1) = d4 ! (hdr + 5) \<and> d4 ! (hdr + 2) = d4 ! (hdr + 6)" using eq True by blast
      ultimately show ?thesis unfolding step if_P [OF P] by simp
    qed
    moreover have keep6: "d6 ! i = d4 ! i" if "i \<notin> {hdr + 1, hdr + 2, hdr + 5, hdr + 6}" for i
      using that by (auto simp: d6_def d5_def nth_p2)
    moreover have "space hdr u d6 (t + s) r ?C"
    proof -
      have b: "blocks r \<subseteq> {q + s + 4..<u}" using chain_blocks [OF c4(4)] .
      have "fl d6 (hdr + 1) r"
      proof (rule fl_move [OF f4(4) c4(4)])
        have "g2 d6 (hdr + 1) = g2 d5 (hdr + 1)" by (simp add: d6_def g2_p2_other)
        also have "\<dots> = g2 d4 q" unfolding d5_def using ul l co(2) g2_less by (intro g2_p2) auto
        finally show "g2 d6 (hdr + 1) = g2 d4 q" .
        show "d6 ! i = d4 ! i" if "i \<in> blocks r" for i using that b c4 ul by (intro keep6) auto
      qed
      moreover have "g2 d6 (hdr + 5) = (t + s) mod 65536" unfolding d6_def using ul l6 by (intro g2_p2_mod) auto
      moreover have "chain 4 (t + s) u r" using c4(4) True by (auto elim: chain_mono)
      moreover have "?C \<inter> {t..<t + s} = {}" using co(7) fb4 True by auto
      then have "?C \<subseteq> {t + s..<u}" using C(1) by fastforce
      moreover have "?C \<inter> blocks r = {}" using co(7) fb4 by auto
      moreover have "{t + s..<u} - ?C - blocks r = {t..<u} - ?C - {} - blocks fb4"
      proof -
        have "{t + s..<u} = {t..<u} - {t..<t + s}" using c4 True by auto
        then show ?thesis unfolding fb4 True by auto
      qed
      then have "unat (d6 ! (hdr + 7)) = card ({t + s..<u} - ?C - blocks r)" using co(8) keep6 by simp
      ultimately show ?thesis using ul l6 tk c4 True unfolding space_def by simp
    qed
    ultimately show ?thesis
      using l6 frame4 by (intro exI [of _ d6] exI [of _ "t + s"] exI [of _ r]) (auto simp: p'_def)
  qed
qed

end
