(* ===== verification/BtCells.thy ===== *)
theory BtCells
  imports BtRelease
begin

text \<open>
  Cells: the two ways the code computes the size of a cell agree, the size depends only on the bytes
  of the cell, and the cells of a page are a list of such byte strings.
\<close>

section \<open>The header of a cell\<close>

lemma and_80: "c AND 0x80 \<noteq> 0 \<longleftrightarrow> bit (c :: u8) 7"
  by (simp add: and_0x80_eq_0)

lemma rd_drop: "rd (drop m z) i = rd z (m + i)"
  by (auto simp: rd_def)

lemma skip_varint_ref:
  "i \<le> 8 \<Longrightarrow> skip_varint z (m + i) (m + 9) = map_option (\<lambda>(v, k). m + k) (varint_ref (drop m z) i acc)"
proof (induction "drop m z" i acc rule: varint_ref.induct)
  case (1 i acc)
  show ?case
  proof (cases "rd z (m + i)")
    case None
    then show ?thesis by (subst skip_varint.simps, subst varint_ref.simps) (simp add: rd_drop)
  next
    case (Some c)
    show ?thesis
    proof (cases "8 \<le> i")
      case True
      then have "i = 8" using 1(2) by simp
      then show ?thesis using Some by (subst skip_varint.simps, subst varint_ref.simps) (simp add: rd_drop)
    next
      case False
      then have IH: "bit c 7 \<Longrightarrow> skip_varint z (m + (i + 1)) (m + 9) =
          map_option (\<lambda>(v, k). m + k) (varint_ref (drop m z) (i + 1) (push_bit 7 acc OR ucast (c AND 0x7f)))"
        using 1(1) [of c] Some by (simp add: rd_drop)
      then show ?thesis using Some False
        by (subst skip_varint.simps, subst varint_ref.simps) (simp add: rd_drop and_80)
    qed
  qed
qed

lemma skip_varint_eq: "skip_varint z m (m + 9) = map_option (\<lambda>(v, k). m + k) (sqlite3GetVarint (drop m z))"
  using skip_varint_ref [of 0 z m 0] by (simp add: sqlite3GetVarint_ref)

lemma varint_ref_local:
  "varint_ref z i acc = Some (v, k) \<Longrightarrow> i \<le> 8 \<Longrightarrow> (\<And>j. j < k \<Longrightarrow> rd z' j = rd z j) \<Longrightarrow> varint_ref z' i acc = Some (v, k)"
proof (induction z i acc rule: varint_ref.induct)
  case (1 z i acc)
  from 1(2) obtain c where c: "rd z i = Some c" by (subst (asm) varint_ref.simps) (auto simp: bind_eq_Some_conv)
  have "i < k" using varint_ref_bounds [OF 1(2,3)] by simp
  then have c': "rd z' i = Some c" using 1(4) c by simp
  show ?case
  proof (cases "\<not> 8 \<le> i \<and> bit c 7")
    case True
    then have "varint_ref z (i + 1) (push_bit 7 acc OR ucast (c AND 0x7f)) = Some (v, k)"
      using 1(2) c by (subst (asm) varint_ref.simps) simp
    then have "varint_ref z' (i + 1) (push_bit 7 acc OR ucast (c AND 0x7f)) = Some (v, k)"
      using 1(1) [OF c] True 1(4) by simp
    then show ?thesis using True c' by (subst varint_ref.simps) simp
  next
    case False
    then show ?thesis using 1(2) c c' by (subst varint_ref.simps, subst (asm) (2) varint_ref.simps) auto
  qed
qed

lemma getVarint_local:
  assumes "sqlite3GetVarint (drop m z) = Some (v, k)" "\<And>j. j < m + k \<Longrightarrow> rd z' j = rd z j"
  shows "sqlite3GetVarint (drop m z') = Some (v, k)" "0 < k" "k \<le> 9" "m + k \<le> length z"
proof -
  have r: "varint_ref (drop m z) 0 0 = Some (v, k)" using assms(1) by (simp add: sqlite3GetVarint_ref)
  have "varint_ref (drop m z') 0 0 = Some (v, k)"
    by (rule varint_ref_local [OF r]) (simp_all add: rd_drop assms(2))
  then show "sqlite3GetVarint (drop m z') = Some (v, k)" by (simp add: sqlite3GetVarint_ref)
  show "0 < k" "k \<le> 9" "m + k \<le> length z" using varint_ref_bounds [OF r] by auto
qed

lemma getVarint32_local:
  assumes "getVarint32 (drop m z) = Some (v, k)" "\<And>j. j < m + k \<Longrightarrow> rd z' j = rd z j"
  shows "getVarint32 (drop m z') = Some (v, k)" "0 < k" "k \<le> 9" "m + k \<le> length z"
proof -
  obtain w where w: "sqlite3GetVarint (drop m z) = Some (w, k)" "v = sat32 w"
    using assms(1) by (auto simp: getVarint32_eq)
  note l = getVarint_local [OF w(1) assms(2)]
  show "getVarint32 (drop m z') = Some (v, k)" using l(1) w by (simp add: getVarint32_eq)
  show "0 < k" "k \<le> 9" "m + k \<le> length z" using l by auto
qed

section \<open>Well-formed pages and the size of a cell\<close>

definition valid_bt :: "BtShared \<Rightarrow> bool" where
  "valid_bt b \<longleftrightarrow> (\<exists>k. 9 \<le> k \<and> k \<le> 16 \<and> pageSize b = 2 ^ k) \<and> 480 \<le> usableSize b \<and> usableSize b \<le> pageSize b"

definition wf_page :: "BtShared \<Rightarrow> MemPage \<Rightarrow> bool" where
  "wf_page b p \<longleftrightarrow> valid_bt b \<and> leaf p \<le> 1 \<and> childPtrSize p = 4 - 4 * leaf p \<and> minLocal p \<le> maxLocal p \<and>
     maxLocal p + 35 \<le> usableSize b \<and> hdrOffset p \<le> 100 \<and> cellOffset p = hdrOffset p + 12 - 4 * leaf p \<and>
     aCellIdx p = cellOffset p \<and> maskPage p = pageSize b - 1 \<and> length (aData p) = pageSize b \<and> nOverflow p = 0"

lemma valid_bt_bounds:
  assumes "valid_bt b"
  shows "480 \<le> usableSize b" "usableSize b \<le> pageSize b" "512 \<le> pageSize b" "pageSize b \<le> 65536"
proof -
  obtain k where k: "9 \<le> k" "k \<le> 16" "pageSize b = 2 ^ k" using assms unfolding valid_bt_def by blast
  have "(2 :: nat) ^ 9 \<le> 2 ^ k" "(2 :: nat) ^ k \<le> 2 ^ 16" using k by (intro power_increasing; simp)+
  then show "512 \<le> pageSize b" "pageSize b \<le> 65536" using k by simp_all
  show "480 \<le> usableSize b" "usableSize b \<le> pageSize b" using assms by (auto simp: valid_bt_def)
qed

lemma wf_pageD:
  assumes "wf_page b p"
  shows "valid_bt b" "childPtrSize p \<le> 4" "minLocal p \<le> maxLocal p" "maxLocal p + 35 \<le> usableSize b" "maxLocal p \<le> 65501"
  using assms valid_bt_bounds [of b] by (auto simp: wf_page_def)

text \<open>The header of a cell and its extent.\<close>

lemma cell_head_local:
  assumes "cell_head p z = Some (v, h)" "\<And>j. j < h \<Longrightarrow> rd z' j = rd z j"
  shows "cell_head p z' = Some (v, h)" "childPtrSize p < h" "h \<le> childPtrSize p + 18" "h \<le> length z"
proof -
  have "cell_head p z' = Some (v, h) \<and> childPtrSize p < h \<and> h \<le> childPtrSize p + 18 \<and> h \<le> length z"
  proof (cases "intKey p")
    case False
    then obtain k where k: "getVarint32 (drop (childPtrSize p) z) = Some (v, k)" "h = childPtrSize p + k"
      using assms(1) by (auto simp: cell_head_def Let_def bind_eq_Some_conv)
    then show ?thesis
      using getVarint32_local [OF k(1), of z'] assms(2) False by (simp add: cell_head_def)
  next
    case True
    obtain i where i: "(if hasData p then do { (v, k) \<leftarrow> getVarint32 (drop (childPtrSize p) z); Some (v, childPtrSize p + k) }
        else Some (0, childPtrSize p)) = Some (v, i)" "skip_varint z i (i + 9) = Some h"
      using assms(1) True by (auto simp: cell_head_def Let_def bind_eq_Some_conv)
    obtain w k where w: "sqlite3GetVarint (drop i z) = Some (w, k)" "h = i + k"
      using i(2) unfolding skip_varint_eq by (auto split: prod.splits)
    have key: "sqlite3GetVarint (drop i z') = Some (w, k)" "0 < k" "k \<le> 9" "i + k \<le> length z"
      using getVarint_local [OF w(1), of z'] assms(2) w(2) by simp_all
    show ?thesis
    proof (cases "hasData p")
      case data: True
      then obtain n where n: "getVarint32 (drop (childPtrSize p) z) = Some (v, n)" "i = childPtrSize p + n"
        using i(1) by (auto simp: bind_eq_Some_conv)
      have "getVarint32 (drop (childPtrSize p) z') = Some (v, n)" "n \<le> 9" "0 < n"
        using getVarint32_local [OF n(1), of z'] assms(2) w(2) n(2) by simp_all
      then show ?thesis
        using True data n(2) key w(2) by (simp add: cell_head_def skip_varint_eq add.assoc)
    next
      case False
      then show ?thesis using True i(1) key w(2) by (auto simp: cell_head_def skip_varint_eq)
    qed
  qed
  then show "cell_head p z' = Some (v, h)" "childPtrSize p < h" "h \<le> childPtrSize p + 18" "h \<le> length z" by simp_all
qed

lemma unat_of_nat_u32: "n < 2 ^ 32 \<Longrightarrow> unat (of_nat n :: u32) = n"
  by (simp add: unat_of_nat)

text \<open>The bytes of the payload that stay in the cell, with the overflow page number.\<close>

definition local_bytes :: "BtShared \<Rightarrow> MemPage \<Rightarrow> nat \<Rightarrow> nat" where
  "local_bytes b p n =
    (if maxLocal p < n then
       let s = minLocal p + (n - minLocal p) mod (usableSize b - 4) in (if maxLocal p < s then minLocal p else s) + 4
     else n)"

lemma local_bytes_le: "minLocal p \<le> maxLocal p \<Longrightarrow> local_bytes b p n \<le> maxLocal p + 4"
  by (auto simp: local_bytes_def Let_def)

lemma unat_surplus:
  assumes "wf_page b p" "maxLocal p < unat v"
  shows "unat (surplus b p v) = minLocal p + (unat v - minLocal p) mod (usableSize b - 4)"
proof -
  note w = wf_pageD [OF assms(1)] valid_bt_bounds [OF wf_pageD(1) [OF assms(1)]]
  let ?m = "of_nat (minLocal p) :: u32" and ?u = "of_nat (usableSize b) - 4 :: u32"
  have m: "unat ?m = minLocal p" using w by (intro unat_of_nat_u32) auto
  have "?u = of_nat (usableSize b - 4)" using w by (simp add: of_nat_diff)
  then have u: "unat ?u = usableSize b - 4" using w by (simp only:) (rule unat_of_nat_u32, simp)
  have "?m \<le> v" using assms(2) w(3) m by (simp add: word_le_nat_alt)
  then have d: "unat (v - ?m) = unat v - minLocal p" using m by (simp add: unat_sub)
  have r: "unat ((v - ?m) mod ?u) = (unat v - minLocal p) mod (usableSize b - 4)" using d u by (simp add: unat_mod)
  have "(unat v - minLocal p) mod (usableSize b - 4) < usableSize b - 4" using w by simp
  then have "unat ?m + unat ((v - ?m) mod ?u) < 131072" unfolding m r using w(3,5,7,9) by linarith
  then have "unat ?m + unat ((v - ?m) mod ?u) < 2 ^ LENGTH(32)" by simp
  then have "unat (?m + (v - ?m) mod ?u) = unat ?m + unat ((v - ?m) mod ?u)"
    by (subst unat_add_lem [symmetric]) simp
  then show ?thesis unfolding surplus_def m r .
qed

lemma cell_total_eq:
  assumes W: "wf_page b p" and h: "h \<le> 22"
  shows "cell_total b p v h = max 4 (local_bytes b p (unat v) + h)"
proof -
  note w = wf_pageD [OF W] valid_bt_bounds [OF wf_pageD(1) [OF W]]
  define n where "n = (if of_nat (maxLocal p) < v then
           let s = surplus b p v in (if of_nat (maxLocal p) < s then of_nat (minLocal p) else s) + 4 else v)"
  have M: "unat (of_nat (maxLocal p) :: u32) = maxLocal p" "unat (of_nat (minLocal p) :: u32) = minLocal p"
    using w by (auto intro!: unat_of_nat_u32)
  have n: "unat n = local_bytes b p (unat v)"
  proof (cases "maxLocal p < unat v")
    case True
    let ?s = "surplus b p v"
    have s: "unat ?s = minLocal p + (unat v - minLocal p) mod (usableSize b - 4)" using unat_surplus [OF W True] .
    have "unat (if of_nat (maxLocal p) < ?s then of_nat (minLocal p) else ?s) \<le> maxLocal p"
      using M w(3) by (auto simp: word_less_nat_alt)
    then have "unat ((if of_nat (maxLocal p) < ?s then of_nat (minLocal p) else ?s) + 4) =
        unat (if of_nat (maxLocal p) < ?s then of_nat (minLocal p) else ?s) + 4"
      using w(5) by (subst unat_add_lem [THEN iffD1]) auto
    then show ?thesis using True M s by (auto simp: n_def local_bytes_def Let_def word_less_nat_alt)
  next
    case False
    then show ?thesis using M by (simp add: n_def local_bytes_def word_less_nat_alt)
  qed
  have le: "unat n \<le> maxLocal p + 4" unfolding n using local_bytes_le w(3) by blast
  have H: "unat (of_nat h :: u32) = h" using h by (intro unat_of_nat_u32) auto
  have "unat (n + of_nat h) = unat n + h"
    using le w(5) h H by (subst unat_add_lem [THEN iffD1]) auto
  then have "unat (if n + of_nat h < 4 then 4 else n + of_nat h) = max 4 (unat n + h)"
    by (auto simp: word_less_nat_alt)
  moreover have "max 4 (unat n + h) mod 65536 = max 4 (unat n + h)" using le w(5) h by simp
  moreover have "cell_total b p v h = unat (if n + of_nat h < 4 then 4 else n + of_nat h) mod 65536"
    unfolding cell_total_def Let_def n_def ..
  ultimately show ?thesis using n by simp
qed

lemma cell_head_bound:
  assumes "wf_page b p" "cell_head p z = Some (v, h)"
  shows "h \<le> 22" "h \<le> length z" "0 < h"
  using cell_head_local [OF assms(2), of z] wf_pageD(2) [OF assms(1)] by auto

lemma cellSizePtr_eq:
  assumes "wf_page b p"
  shows "cellSizePtr b p z = map_option (\<lambda>(v, h). max 4 (local_bytes b p (unat v) + h)) (cell_head p z)"
proof (cases "cell_head p z")
  case (Some a)
  obtain v h where a: "a = (v, h)" by (cases a)
  show ?thesis using Some cell_total_eq [OF assms cell_head_bound(1) [OF assms]] a by (simp add: cellSizePtr_def)
qed (simp add: cellSizePtr_def)

lemma cellSizePtr_local:
  assumes "wf_page b p" "cellSizePtr b p z = Some n" "\<And>j. j < n \<Longrightarrow> rd z' j = rd z j"
  shows "cellSizePtr b p z' = Some n" "4 \<le> n" "n + 9 \<le> usableSize b"
proof -
  obtain v h where c: "cell_head p z = Some (v, h)" "n = max 4 (local_bytes b p (unat v) + h)"
    using assms(2) unfolding cellSizePtr_eq [OF assms(1)] by auto
  have "cell_head p z' = Some (v, h)" by (rule cell_head_local [OF c(1)]) (use c(2) assms(3) in simp)
  then show "cellSizePtr b p z' = Some n" unfolding cellSizePtr_eq [OF assms(1)] using c(2) by simp
  show "4 \<le> n" using c by simp
  show "n + 9 \<le> usableSize b"
    using c(2) cell_head_bound(1) [OF assms(1) c(1)] local_bytes_le [OF wf_pageD(3) [OF assms(1)], of b "unat v"]
      wf_pageD(4) [OF assms(1)] valid_bt_bounds(1) [OF wf_pageD(1) [OF assms(1)]] by linarith
qed

lemma cellSizePtr_prefix:
  assumes "wf_page b p" "cellSizePtr b p c = Some (length c)" "take (length c) z = c"
  shows "cellSizePtr b p z = Some (length c)"
proof (rule cellSizePtr_local(1) [OF assms(1,2)])
  fix j assume "j < length c"
  moreover have "length c \<le> length z" using assms(3) by (metis length_take min.cobounded1)
  ultimately show "rd z j = rd c j" using assms(3) by (metis nth_take order_less_le_trans rd_Some)
qed

lemma cell_head_upd [simp]:
  "cell_head (p\<lparr>aData := d\<rparr>) z = cell_head p z"
  "cell_head (p\<lparr>nFree := f\<rparr>) z = cell_head p z"
  "cell_head (p\<lparr>nCell := n\<rparr>) z = cell_head p z"
  unfolding cell_head_def by (simp_all cong: if_cong)

lemma cellSizePtr_upd [simp]:
  "cellSizePtr b (p\<lparr>aData := d\<rparr>) z = cellSizePtr b p z"
  "cellSizePtr b (p\<lparr>nFree := f\<rparr>) z = cellSizePtr b p z"
  "cellSizePtr b (p\<lparr>nCell := n\<rparr>) z = cellSizePtr b p z"
  by (simp_all add: cellSizePtr_def cell_total_def surplus_def Let_def cong: if_cong)

lemma wf_page_upd:
  "length d = length (aData p) \<Longrightarrow> wf_page b (p\<lparr>aData := d\<rparr>) = wf_page b p"
  "wf_page b (p\<lparr>nFree := f\<rparr>) = wf_page b p"
  "wf_page b (p\<lparr>nCell := n\<rparr>) = wf_page b p"
  by (simp_all add: wf_page_def)

text \<open>The assertion at the end of \<^verbatim>\<open>cellSizePtr\<close>.\<close>

lemma cell_fields_head: "cell_head p z = map_option (\<lambda>(n, v, key, dat). (v, n)) (cell_fields p z)"
proof (cases "intKey p")
  case False
  then show ?thesis
    by (cases "getVarint32 (drop (childPtrSize p) z)") (auto simp: cell_fields_def cell_head_def)
next
  case True
  let ?r = "if hasData p then do { (v, k) \<leftarrow> getVarint32 (drop (childPtrSize p) z); Some (v, childPtrSize p + k) }
      else Some (0, childPtrSize p)"
  have "cell_head p z = do { (v, i) \<leftarrow> ?r; i \<leftarrow> skip_varint z i (i + 9); Some (v, i) }"
    using True unfolding cell_head_def Let_def by simp
  moreover have "cell_fields p z = do { (v, n) \<leftarrow> ?r; (key, k) \<leftarrow> sqlite3GetVarint (drop n z); Some (n + k, v, sint key, v) }"
    using True unfolding cell_fields_def Let_def by simp
  moreover have "do { i \<leftarrow> skip_varint z i (i + 9); Some (v, i) } =
      map_option (\<lambda>(n, v, key, dat). (v, n)) (do { (key, k) \<leftarrow> sqlite3GetVarint (drop i z); Some (i + k, v, sint key, v) })"
    for v i unfolding skip_varint_eq by (cases "sqlite3GetVarint (drop i z)") auto
  ultimately show ?thesis by (cases ?r) auto
qed

lemma cell_local_size:
  assumes W: "wf_page b p" and n: "n \<le> 22"
  shows "ci_nSize (cell_local b p \<lparr>ci_nKey = key, ci_pCell = z, ci_nData = dat, ci_nPayload = v, ci_nHeader = n,
       ci_nLocal = 0, ci_iOverflow = 0, ci_nSize = 0\<rparr>) = max 4 (local_bytes b p (unat v) + n)"
proof -
  note w = wf_pageD [OF W] valid_bt_bounds [OF wf_pageD(1) [OF W]]
  have M: "unat (of_nat (maxLocal p) :: u32) = maxLocal p" using w by (auto intro!: unat_of_nat_u32)
  show ?thesis
  proof (cases "maxLocal p < unat v")
    case False
    then have "v \<le> of_nat (maxLocal p)" using M by (simp add: word_le_nat_alt)
    then show ?thesis using n w(5) False by (simp add: cell_local_def local_bytes_def Let_def)
  next
    case True
    let ?s = "surplus b p v"
    have s: "unat ?s = minLocal p + (unat v - minLocal p) mod (usableSize b - 4)" using unat_surplus [OF W True] .
    have "(unat v - minLocal p) mod (usableSize b - 4) < usableSize b - 4" using w by simp
    then have "unat ?s < 131072" unfolding s using w(3,5,7,9) by linarith
    then have si: "sint ?s = int (unat ?s)"
    proof -
      assume "unat ?s < 131072"
      moreover have "uint ?s = int (unat ?s)" by simp
      ultimately have "uint ?s < 131072" by linarith
      then have "uint ?s < 2 ^ 31" by simp
      moreover have "- (2 ^ 31) \<le> uint ?s" by (rule order_trans [of _ 0]) simp_all
      ultimately have "signed_take_bit 31 (uint ?s) = uint ?s" by (intro signed_take_bit_int_eq_self)
      then show ?thesis by (simp add: sint_uint)
    qed
    have "\<not> v \<le> of_nat (maxLocal p)" using M True by (simp add: word_le_nat_alt)
    then show ?thesis using n w(3,5) True s si by (simp add: cell_local_def local_bytes_def Let_def)
  qed
qed

lemma cellSize_parse:
  assumes W: "wf_page b p"
  shows "cellSizePtr b p z = map_option ci_nSize (btreeParseCellPtr b p z)"
proof (cases "cell_fields p z")
  case None
  then show ?thesis by (cases "leaf p = 0 \<or> leaf p = 1"; cases "childPtrSize p = 4 - 4 * leaf p")
      (simp_all add: cellSizePtr_def cell_fields_head btreeParseCellPtr_def assert_that_def)
next
  case (Some y)
  obtain n v key dat where y: "y = (n, v, key, dat)" by (cases y)
  then have h: "cell_head p z = Some (v, n)" using Some by (simp add: cell_fields_head)
  have "leaf p = 0 \<or> leaf p = 1" "childPtrSize p = 4 - 4 * leaf p" using W by (auto simp: wf_page_def)
  then show ?thesis
    using Some y h cell_local_size [OF W cell_head_bound(1) [OF W h]]
    unfolding cellSizePtr_eq [OF W] by (simp add: btreeParseCellPtr_def)
qed

end
