(* ===== verification/BtDefrag.thy ===== *)
theory BtDefrag
  imports BtCells
begin

text \<open>
  A page as the list of its cells, and the correctness of \<^verbatim>\<open>defragmentPage\<close> and \<^verbatim>\<open>allocateSpace\<close>
  under this view: the cells are unchanged, the space found is free.
\<close>

section \<open>The cells of a page\<close>

text \<open>The cell pointers at \<open>off\<close> are the offsets \<open>os\<close> and the bytes there are the cells \<open>cs\<close>.\<close>

definition cells_at :: "u8 list \<Rightarrow> nat \<Rightarrow> nat list \<Rightarrow> u8 list list \<Rightarrow> bool" where
  "cells_at d off os cs \<longleftrightarrow> length os = length cs \<and>
     (\<forall>i < length cs. g2 d (off + 2 * i) = os ! i \<and> take (length (cs ! i)) (drop (os ! i) d) = cs ! i)"

definition ext :: "nat list \<Rightarrow> u8 list list \<Rightarrow> nat \<Rightarrow> nat set" where
  "ext os cs i = {os ! i..<os ! i + length (cs ! i)}"

definition used :: "nat list \<Rightarrow> u8 list list \<Rightarrow> nat set" where
  "used os cs = (\<Union>i < length cs. ext os cs i)"

definition apart :: "nat list \<Rightarrow> u8 list list \<Rightarrow> bool" where
  "apart os cs \<longleftrightarrow> (\<forall>i < length cs. \<forall>j < length cs. i \<noteq> j \<longrightarrow> ext os cs i \<inter> ext os cs j = {})"

abbreviation csize :: "u8 list list \<Rightarrow> nat" where "csize cs \<equiv> sum_list (map length cs)"

text \<open>
  The image \<open>d\<close> of the page \<open>p\<close> holds the cells \<open>cs\<close>, and the bytes \<open>X\<close> are reserved for a cell that is
  being inserted; the cell content begins at \<open>t\<close>, at \<open>g\<close> or behind it.
\<close>

definition img :: "BtShared \<Rightarrow> MemPage \<Rightarrow> u8 list \<Rightarrow> u8 list list \<Rightarrow> nat set \<Rightarrow> nat \<Rightarrow> nat list \<Rightarrow> nat \<Rightarrow> (nat \<times> nat) list \<Rightarrow> bool" where
  "img b p d cs X g os t fb \<longleftrightarrow> length d = pageSize b \<and> cells_at d (cellOffset p) os cs \<and> apart os cs \<and> used os cs \<inter> X = {} \<and>
     space (hdrOffset p) (usableSize b) d t fb (used os cs \<union> X) \<and> g \<le> t"

text \<open>The abstraction relation between a page and the list of its cells.\<close>

definition page_rep :: "BtShared \<Rightarrow> MemPage \<Rightarrow> u8 list list \<Rightarrow> bool" where
  "page_rep b p cs \<longleftrightarrow> wf_page b p \<and> nCell p = length cs \<and> g2 (aData p) (hdrOffset p + 3) = length cs \<and>
     list_all (\<lambda>c. cellSizePtr b p c = Some (length c)) cs \<and>
     nFree p + cellOffset p + 2 * length cs + csize cs = usableSize b \<and>
     (\<exists>os t fb. img b p (aData p) cs {} (cellOffset p + 2 * length cs) os t fb)"

lemma page_repI:
  "wf_page b p \<Longrightarrow> nCell p = length cs \<Longrightarrow> g2 (aData p) (hdrOffset p + 3) = length cs \<Longrightarrow>
   list_all (\<lambda>c. cellSizePtr b p c = Some (length c)) cs \<Longrightarrow>
   nFree p + cellOffset p + 2 * length cs + csize cs = usableSize b \<Longrightarrow>
   img b p (aData p) cs {} (cellOffset p + 2 * length cs) os t fb \<Longrightarrow> page_rep b p cs"
  unfolding page_rep_def by blast

lemma thick_used: "(\<And>i. i < length cs \<Longrightarrow> 4 \<le> length (cs ! i)) \<Longrightarrow> thick (used os cs)"
  unfolding used_def thick_def ext_def
proof (intro ballI)
  fix x assume l: "\<And>i. i < length cs \<Longrightarrow> 4 \<le> length (cs ! i)"
    and "x \<in> (\<Union>i<length cs. {os ! i..<os ! i + length (cs ! i)})"
  then obtain i where i: "i < length cs" "x \<in> {os ! i..<os ! i + length (cs ! i)}" by blast
  have "thick {os ! i..<os ! i + length (cs ! i)}" using l [OF i(1)] by (rule thick_ivl)
  then obtain a where "x \<in> {a..<a + 4}" "{a..<a + 4} \<subseteq> {os ! i..<os ! i + length (cs ! i)}"
    using i(2) unfolding thick_def by blast
  then show "\<exists>a. x \<in> {a..<a + 4} \<and> {a..<a + 4} \<subseteq> (\<Union>i<length cs. {os ! i..<os ! i + length (cs ! i)})"
    using i(1) by blast
qed

lemma cell_length:
  assumes "wf_page b p" "list_all (\<lambda>c. cellSizePtr b p c = Some (length c)) cs" "i < length cs"
  shows "4 \<le> length (cs ! i)" "length (cs ! i) + 9 \<le> usableSize b"
  using assms cellSizePtr_local [OF assms(1), of "cs ! i" "length (cs ! i)" "cs ! i"] by (auto simp: list_all_length)

lemma take_drop_cong:
  assumes "length d' = length d" "\<And>i. a \<le> i \<Longrightarrow> i < a + n \<Longrightarrow> i < length d \<Longrightarrow> d' ! i = d ! i"
  shows "take n (drop a d') = take n (drop a d)"
  using assms by (intro nth_equalityI) auto

text \<open>The cells survive a change of the image that leaves their pointers and their bytes alone.\<close>

lemma cells_at_cong:
  assumes "cells_at d off os cs" "length d' = length d" "\<And>i. i \<in> used os cs \<Longrightarrow> d' ! i = d ! i"
    "\<And>i. off \<le> i \<Longrightarrow> i < off + 2 * length cs \<Longrightarrow> d' ! i = d ! i"
  shows "cells_at d' off os cs"
  unfolding cells_at_def
proof (intro conjI allI impI)
  show "length os = length cs" using assms(1) by (simp add: cells_at_def)
  fix i assume i: "i < length cs"
  have "g2 d' (off + 2 * i) = g2 d (off + 2 * i)" using i by (intro g2_cong assms(4)) auto
  then show "g2 d' (off + 2 * i) = os ! i" using assms(1) i by (simp add: cells_at_def)
  have "take (length (cs ! i)) (drop (os ! i) d') = take (length (cs ! i)) (drop (os ! i) d)"
    by (rule take_drop_cong [OF assms(2)], rule assms(3)) (use i in \<open>auto simp: used_def ext_def\<close>)
  then show "take (length (cs ! i)) (drop (os ! i) d') = cs ! i" using assms(1) i by (simp add: cells_at_def)
qed

section \<open>Defragmentation\<close>

text \<open>The cells packed against the end of the page, the first one last.\<close>

definition pack :: "nat \<Rightarrow> u8 list list \<Rightarrow> nat \<Rightarrow> nat" where
  "pack u cs i = u - csize (take (Suc i) cs)"

lemma total_take_Suc: "i < length cs \<Longrightarrow> csize (take (Suc i) cs) = csize (take i cs) + length (cs ! i)"
  by (simp add: take_Suc_conv_app_nth)

lemma total_take_le: "csize (take i cs) \<le> csize cs"
  by (metis append_take_drop_id le_add1 map_append sum_list_append)

lemma total_take_mono: "i \<le> j \<Longrightarrow> csize (take i cs) \<le> csize (take j cs)"
  by (metis min.absorb1 take_take total_take_le)

lemma defrag_loop_ok:
  assumes W: "wf_page b p" and n: "nCell p = length cs" and sz: "list_all (\<lambda>c. cellSizePtr b p c = Some (length c)) cs"
    and fits: "cellOffset p + 2 * length cs + csize cs \<le> usableSize b"
    and T: "length temp = pageSize b" "\<And>j. j < length cs \<Longrightarrow> cellOffset p + 2 * length cs \<le> os ! j \<and>
        os ! j + length (cs ! j) \<le> usableSize b \<and> take (length (cs ! j)) (drop (os ! j) temp) = cs ! j"
  shows "i \<le> length cs \<Longrightarrow> length d = pageSize b \<Longrightarrow>
    (\<And>j. i \<le> j \<Longrightarrow> j < length cs \<Longrightarrow> g2 d (cellOffset p + 2 * j) = os ! j) \<Longrightarrow>
    (\<And>j. j < i \<Longrightarrow> g2 d (cellOffset p + 2 * j) = pack (usableSize b) cs j \<and>
       take (length (cs ! j)) (drop (pack (usableSize b) cs j) d) = cs ! j) \<Longrightarrow>
    \<exists>d'. defrag_loop b p temp i (usableSize b - csize (take i cs)) d = Some (Some (usableSize b - csize cs), d') \<and>
      length d' = length d \<and>
      (\<forall>j < length cs. g2 d' (cellOffset p + 2 * j) = pack (usableSize b) cs j \<and>
         take (length (cs ! j)) (drop (pack (usableSize b) cs j) d') = cs ! j) \<and>
      (\<forall>k < cellOffset p. d' ! k = d ! k)"
proof (induction "length cs - i" arbitrary: i d)
  case 0
  then have "i = length cs" by simp
  then show ?case using 0 n by (subst defrag_loop.simps) auto
next
  case (Suc x)
  let ?u = "usableSize b" and ?off = "cellOffset p"
  have i: "i < length cs" using Suc.hyps(2) by linarith
  note vb = valid_bt_bounds [OF wf_pageD(1) [OF W]]
  let ?len = "length (cs ! i)"
  define c0 where "c0 = ?u - csize (take i cs)"
  have tt: "csize (take (Suc i) cs) = csize (take i cs) + ?len" "csize (take (Suc i) cs) \<le> csize cs"
    by (rule total_take_Suc [OF i], rule total_take_le)
  define nc where "nc = c0 - ?len"
  have nc: "nc = ?u - csize (take (Suc i) cs)" "nc + ?len = c0" "?off + 2 * length cs \<le> nc" "nc + ?len \<le> ?u"
    using tt fits by (auto simp: nc_def c0_def)
  note Ti = T(2) [OF i]
  have len4: "4 \<le> ?len" using cell_length(1) [OF W sz i] .
  have pc: "get2byte d (?off + i * 2) = Some (os ! i)"
    using Suc.prems(2,3) i nc vb by (simp add: get2byte_g2 mult.commute)
  have size: "cellSizePtr b p (drop (os ! i) temp) = Some ?len"
    using cellSizePtr_prefix [OF W _ Ti [THEN conjunct2, THEN conjunct2]] sz i by (simp add: list_all_length)
  define d1 where "d1 = ov d nc (cs ! i)"
  define d2 where "d2 = p2 d1 (?off + i * 2) nc"
  have l: "length d1 = length d" "length d2 = length d"
    using nc Suc.prems(2) vb by (auto simp: d1_def d2_def)
  have keep: "d2 ! k = d ! k" if "k \<notin> {nc..<nc + ?len}" "k \<noteq> ?off + i * 2" "k \<noteq> Suc (?off + i * 2)" "k < length d" for k
    using that nc(3,4) Suc.prems(2) vb by (auto simp: d2_def d1_def nth_p2 nth_ov)
  have step: "defrag_loop b p temp i c0 d = defrag_loop b p temp (i + 1) nc d2"
  proof -
    have "\<not> (os ! i < ?off + 2 * nCell p \<or> ?u - 4 < os ! i)" using Ti len4 n by linarith
    moreover have "\<not> (int c0 - int ?len < int (?off + 2 * nCell p) \<or> ?u < os ! i + ?len)" using Ti nc n by linarith
    moreover have "get_bytes temp (os ! i) ?len = Some (cs ! i)" using Ti T(1) vb by (simp add: get_bytes_Some)
    moreover have "blit d nc (cs ! i) = Some d1" using nc Suc.prems(2) vb by (simp add: blit_ov d1_def)
    moreover have "put2byte d1 (?off + i * 2) nc = Some d2" using nc i l Suc.prems(2) vb by (simp add: put2byte_p2 d2_def)
    ultimately show ?thesis using pc size i n
      by (subst defrag_loop.simps) (simp add: Let_def flip: nc_def)
  qed
  have g_new: "g2 d2 (?off + 2 * i) = nc"
    using nc i l Suc.prems(2) vb len4 unfolding d2_def by (subst mult.commute) (intro g2_p2, auto)
  have g_old: "g2 d2 (?off + 2 * j) = g2 d (?off + 2 * j)" if "j < length cs" "j \<noteq> i" for j
  proof (rule g2_cong)
    have e: "?off + 2 * j \<noteq> ?off + i * 2" "?off + 2 * j \<noteq> Suc (?off + i * 2)"
      "Suc (?off + 2 * j) \<noteq> ?off + i * 2" "Suc (?off + 2 * j) \<noteq> Suc (?off + i * 2)" using that(2) by presburger+
    show "d2 ! (?off + 2 * j) = d ! (?off + 2 * j)" "d2 ! Suc (?off + 2 * j) = d ! Suc (?off + 2 * j)"
      using e that(1) nc(3,4) Suc.prems(2) vb by (auto intro!: keep)
  qed
  have c_new: "take ?len (drop nc d2) = cs ! i"
  proof -
    have "take ?len (drop nc d2) = take ?len (drop nc d1)"
      by (rule take_drop_cong) (use nc i l in \<open>auto simp: d2_def nth_p2\<close>)
    also have "\<dots> = cs ! i" using nc Suc.prems(2) vb by (simp add: d1_def ov_def)
    finally show ?thesis .
  qed
  have c_old: "take (length (cs ! j)) (drop (pack ?u cs j) d2) = take (length (cs ! j)) (drop (pack ?u cs j) d)" if "j < i" for j
  proof (rule take_drop_cong [OF l(2)])
    fix k assume k: "pack ?u cs j \<le> k" "k < length d"
    have "csize (take (Suc j) cs) \<le> csize (take i cs)" using that by (intro total_take_mono) simp
    then have "c0 \<le> pack ?u cs j" by (simp add: pack_def c0_def)
    then show "d2 ! k = d ! k" using k nc i by (intro keep) auto
  qed
  have "\<exists>d'. defrag_loop b p temp (i + 1) (?u - csize (take (i + 1) cs)) d2 = Some (Some (?u - csize cs), d') \<and>
      length d' = length d2 \<and>
      (\<forall>j < length cs. g2 d' (?off + 2 * j) = pack ?u cs j \<and> take (length (cs ! j)) (drop (pack ?u cs j) d') = cs ! j) \<and>
      (\<forall>k < ?off. d' ! k = d2 ! k)"
  proof (rule Suc.hyps(1))
    show "x = length cs - (i + 1)" using Suc.hyps(2) by simp
    show "i + 1 \<le> length cs" using i by simp
    show "length d2 = pageSize b" using l Suc.prems(2) by simp
    show "g2 d2 (?off + 2 * j) = os ! j" if "i + 1 \<le> j" "j < length cs" for j
      using that g_old Suc.prems(3) by simp
    show "g2 d2 (?off + 2 * j) = pack ?u cs j \<and> take (length (cs ! j)) (drop (pack ?u cs j) d2) = cs ! j" if "j < i + 1" for j
    proof (cases "j = i")
      case True
      then show ?thesis using g_new c_new nc(1) by (simp add: pack_def)
    next
      case False
      then show ?thesis using that g_old [of j] c_old [of j] Suc.prems(4) [of j] i by simp
    qed
  qed
  moreover have "d2 ! k = d ! k" if "k < ?off" for k using that nc Suc.prems(2) vb by (intro keep) auto
  ultimately show ?case using step nc(1) l by (auto simp: c0_def)
qed

lemma pack_union:
  assumes "csize cs \<le> u"
  shows "k \<le> length cs \<Longrightarrow> (\<Union>i < k. {pack u cs i..<pack u cs i + length (cs ! i)}) = {u - csize (take k cs)..<u}"
proof (induction k)
  case (Suc k)
  then have k: "k < length cs" by simp
  let ?a = "u - csize (take (Suc k) cs)" and ?m = "u - csize (take k cs)"
  have "csize (take (Suc k) cs) \<le> u" using total_take_le assms le_trans by blast
  then have "?a + length (cs ! k) = ?m" "?m \<le> u" using total_take_Suc [OF k] by simp_all
  then have "{pack u cs k..<pack u cs k + length (cs ! k)} \<union> {?m..<u} = {?a..<u}" by (auto simp: pack_def)
  then show ?case using Suc by (simp add: lessThan_Suc)
qed simp

lemma pack_disj:
  assumes "csize cs \<le> u" "i < length cs" "j < i"
  shows "pack u cs i + length (cs ! i) \<le> pack u cs j"
proof -
  have "csize (take (Suc j) cs) \<le> csize (take i cs)" using assms(3) by (intro total_take_mono) simp
  moreover have "csize (take (Suc i) cs) = csize (take i cs) + length (cs ! i)" "csize (take (Suc i) cs) \<le> u"
    using total_take_Suc [OF assms(2)] total_take_le [of "Suc i" cs] assms(1) by linarith+
  ultimately show ?thesis by (simp add: pack_def)
qed

lemma space_packed:
  assumes "u \<le> length d" "u \<le> 65536" "hdr + 8 \<le> t" "t \<le> u" "g2 d (hdr + 5) = t mod 65536" "g2 d (hdr + 1) = 0"
    "d ! (hdr + 7) = 0" "thick {t..<u}"
  shows "space hdr u d t [] {t..<u}"
  using assms by (simp add: space_def)

text \<open>
  \<^verbatim>\<open>defragmentPage\<close> keeps the cells, whatever the temporary buffer held, and leaves one block of free
  space of the size the page claims.
\<close>

theorem defragmentPage_ok:
  assumes R: "page_rep b p cs" and tmp: "length tmp = pageSize b"
  shows "\<exists>d os. defragmentPage b p tmp = Some (SQLITE_OK, p\<lparr>aData := d\<rparr>) \<and> page_rep b (p\<lparr>aData := d\<rparr>) cs \<and>
    img b p d cs {} (cellOffset p + 2 * length cs) os (usableSize b - csize cs) [] \<and>
    (\<forall>k < cellOffset p. k \<notin> {hdrOffset p + 1, hdrOffset p + 2, hdrOffset p + 5, hdrOffset p + 6, hdrOffset p + 7} \<longrightarrow> d ! k = aData p ! k)"
proof -
  let ?u = "usableSize b" and ?off = "cellOffset p" and ?hdr = "hdrOffset p" and ?d = "aData p"
  let ?g = "?off + 2 * length cs" and ?t = "?u - csize cs"
  have W: "wf_page b p" and n: "nCell p = length cs" "g2 ?d (?hdr + 3) = length cs"
    and sz: "list_all (\<lambda>c. cellSizePtr b p c = Some (length c)) cs" and fr: "nFree p + ?g + csize cs = ?u"
    using R unfolding page_rep_def by simp_all
  obtain os t fb where im: "img b p ?d cs {} ?g os t fb" using R unfolding page_rep_def by blast
  have ld: "length ?d = pageSize b" and ca: "cells_at ?d ?off os cs" and sp: "space ?hdr ?u ?d t fb (used os cs)" and gt: "?g \<le> t"
    using im by (simp_all add: img_def)
  note vb = valid_bt_bounds [OF wf_pageD(1) [OF W]]
  have off: "?hdr + 8 \<le> ?off" using W by (auto simp: wf_page_def)
  have us: "used os cs \<subseteq> {t..<?u}" "t \<le> ?u" using sp by (auto simp: space_def)
  have in_u: "t \<le> os ! j \<and> os ! j + length (cs ! j) \<le> ?u" if "j < length cs" for j
  proof -
    have "4 \<le> length (cs ! j)" using cell_length(1) [OF W sz that] .
    then have "os ! j \<in> ext os cs j" "os ! j + length (cs ! j) - 1 \<in> ext os cs j" by (auto simp: ext_def)
    then have "os ! j \<in> used os cs" "os ! j + length (cs ! j) - 1 \<in> used os cs" using that by (auto simp: used_def)
    then have "os ! j \<in> {t..<?u}" "os ! j + length (cs ! j) - 1 \<in> {t..<?u}" using us(1) by blast+
    then show ?thesis by auto
  qed
  define cb where "cb = t mod 65536"
  have cb: "cb \<le> t" "cb \<le> ?u" using us by (auto simp: cb_def)
  define temp where "temp = ov tmp cb (take (?u - cb) (drop cb ?d))"
  have lt: "length temp = pageSize b" using cb vb ld tmp by (simp add: temp_def)
  have temp: "temp ! k = ?d ! k" if "t \<le> k" "k < ?u" for k
    using that cb vb ld tmp by (simp add: temp_def nth_ov)
  have T: "?g \<le> os ! j \<and> os ! j + length (cs ! j) \<le> ?u \<and> take (length (cs ! j)) (drop (os ! j) temp) = cs ! j"
    if "j < length cs" for j
  proof -
    have "take (length (cs ! j)) (drop (os ! j) temp) = take (length (cs ! j)) (drop (os ! j) ?d)"
      using in_u [OF that] by (intro take_drop_cong) (simp_all add: lt ld temp)
    then show ?thesis using in_u [OF that] gt ca that by (simp add: cells_at_def)
  qed
  have fits: "?g + csize cs \<le> ?u" using fr by simp
  have p0: "?u - csize (take 0 cs) = ?u" by simp
  from defrag_loop_ok [OF W n(1) sz fits lt T, of 0 ?d, unfolded p0] ca ld
  obtain d1 where L: "defrag_loop b p temp 0 ?u ?d = Some (Some ?t, d1)" "length d1 = pageSize b"
    "\<forall>j < length cs. g2 d1 (?off + 2 * j) = pack ?u cs j \<and> take (length (cs ! j)) (drop (pack ?u cs j) d1) = cs ! j"
    "\<forall>k < ?off. d1 ! k = ?d ! k"
    by (auto simp: cells_at_def)
  define d2 where "d2 = (p2 d1 (?hdr + 5) ?t)[?hdr + 1 := 0, ?hdr + 2 := 0, ?hdr + 7 := 0]"
  define d3 where "d3 = ov d2 ?g (replicate (?t - ?g) 0)"
  have tg: "?g \<le> ?t" "?t \<le> ?u" using fits by simp_all
  have l2: "length d2 = pageSize b" "length d3 = pageSize b" using L(2) tg vb by (simp_all add: d2_def d3_def)
  have h8: "?hdr + 8 < pageSize b" using off tg vb W by (auto simp: wf_page_def)
  have keep3: "d3 ! k = d1 ! k" if "k \<notin> {?hdr + 1, ?hdr + 2, ?hdr + 5, ?hdr + 6, ?hdr + 7}" "k < ?g \<or> ?t \<le> k" "k < pageSize b" for k
  proof -
    have "d3 ! k = d2 ! k" using that l2 tg vb by (simp add: d3_def nth_ov) linarith
    then show ?thesis using that(1) by (auto simp: d2_def nth_p2)
  qed
  have hd3: "d3 ! k = d2 ! k" if "k < ?off" for k using that l2 tg vb by (simp add: d3_def nth_ov)
  have step: "defragmentPage b p tmp = Some (SQLITE_OK, p\<lparr>aData := d3\<rparr>)"
  proof -
    have "get2byte ?d (?hdr + 3) = Some (length cs)" "get2byte ?d (?hdr + 5) = Some cb"
      using n(2) sp ld h8 by (simp_all add: get2byte_g2 cb_def space_def)
    moreover have "get_bytes ?d cb (?u - cb) = Some (take (?u - cb) (drop cb ?d))" using cb ld vb by (simp add: get_bytes_Some)
    moreover have "blit tmp cb (take (?u - cb) (drop cb ?d)) = Some temp" using cb ld vb tmp by (simp add: blit_ov temp_def)
    moreover have "put2byte d1 (?hdr + 5) ?t = Some (p2 d1 (?hdr + 5) ?t)" using L(2) h8 by (simp add: put2byte_p2)
    moreover have "blit d2 ?g (replicate (?t - ?g) 0) = Some d3" using l2 tg vb by (simp add: blit_ov d3_def)
    moreover have "wr (p2 d1 (?hdr + 5) ?t) (?hdr + 1) 0 = Some ((p2 d1 (?hdr + 5) ?t)[?hdr + 1 := 0])"
      "wr ((p2 d1 (?hdr + 5) ?t)[?hdr + 1 := 0]) (?hdr + 2) 0 = Some ((p2 d1 (?hdr + 5) ?t)[?hdr + 1 := 0, ?hdr + 2 := 0])"
      "wr ((p2 d1 (?hdr + 5) ?t)[?hdr + 1 := 0, ?hdr + 2 := 0]) (?hdr + 7) 0 = Some d2"
      using L(2) h8 by (simp_all add: wr_def d2_def)
    moreover have "?t - ?g = nFree p" using fr by simp
    moreover have "nOverflow p = 0" using W by (simp add: wf_page_def)
    ultimately show ?thesis using L(1) n(1) cb(2) tg(1) by (simp add: defragmentPage_def Let_def)
  qed
  let ?os = "map (pack ?u cs) [0..<length cs]"
  have ca3: "cells_at d3 ?off ?os cs"
    unfolding cells_at_def
  proof (intro conjI allI impI)
    fix i assume i: "i < length cs"
    have "csize (take (Suc i) cs) \<le> csize cs" by (rule total_take_le)
    then have pk: "?t \<le> pack ?u cs i" by (simp add: pack_def)
    have "g2 d3 (?off + 2 * i) = g2 d1 (?off + 2 * i)"
      using i off tg vb by (intro g2_cong keep3) auto
    then show "g2 d3 (?off + 2 * i) = ?os ! i" using L(3) i by simp
    have "take (length (cs ! i)) (drop (pack ?u cs i) d3) = take (length (cs ! i)) (drop (pack ?u cs i) d1)"
      using pk off tg L(2) l2 by (intro take_drop_cong keep3) auto
    then show "take (length (cs ! i)) (drop (?os ! i) d3) = cs ! i" using L(3) i by simp
  qed simp
  have tot: "csize cs \<le> ?u" using fits by simp
  have ua: "used ?os cs = {?t..<?u}"
    using pack_union [OF tot le_refl] by (simp add: used_def ext_def)
  have dj: "apart ?os cs"
    unfolding apart_def
  proof (intro allI impI)
    fix i j assume ij: "i < length cs" "j < length cs" "i \<noteq> j"
    then consider "j < i" | "i < j" by linarith
    then show "ext ?os cs i \<inter> ext ?os cs j = {}"
      using pack_disj [OF tot ij(1), of j] pack_disj [OF tot ij(2), of i] ij by cases (auto simp: ext_def)
  qed
  have "thick (used ?os cs)" using cell_length(1) [OF W sz] by (rule thick_used)
  then have "thick {?t..<?u}" unfolding ua .
  moreover have "g2 d3 (?hdr + 5) = ?t mod 65536"
  proof -
    have "g2 d3 (?hdr + 5) = g2 d2 (?hdr + 5)" using off by (intro g2_cong hd3) auto
    also have "\<dots> = g2 (p2 d1 (?hdr + 5) ?t) (?hdr + 5)" by (simp add: d2_def g2_upd_other)
    finally show ?thesis using h8 L(2) by (simp add: g2_p2_mod)
  qed
  moreover have "g2 d3 (?hdr + 1) = 0"
  proof -
    have "d3 ! (?hdr + 1) = 0" "d3 ! Suc (?hdr + 1) = 0" using hd3 off h8 L(2) by (simp_all add: d2_def)
    then show ?thesis by (simp add: g2_def)
  qed
  moreover have "d3 ! (?hdr + 7) = 0" using hd3 off h8 L(2) by (simp add: d2_def)
  ultimately have "space ?hdr ?u d3 ?t [] (used ?os cs)"
    unfolding ua using off tg l2 vb by (intro space_packed) simp_all
  then have im3: "img b p d3 cs {} ?g ?os ?t []"
    using ca3 dj l2 tg by (simp add: img_def)
  have hdr_keep: "d3 ! k = ?d ! k" if "k < ?off" "k \<notin> {?hdr + 1, ?hdr + 2, ?hdr + 5, ?hdr + 6, ?hdr + 7}" for k
    using that keep3 [of k] L(4) tg vb by simp
  have "g2 d3 (?hdr + 3) = length cs"
    using n(2) off by (subst g2_cong [of d3 _ ?d]) (auto intro!: hdr_keep)
  moreover have "wf_page b (p\<lparr>aData := d3\<rparr>)" using W l2 ld by (simp add: wf_page_upd)
  ultimately have "page_rep b (p\<lparr>aData := d3\<rparr>) cs"
    using n(1) sz fr im3 by (intro page_repI [of _ _ _ ?os ?t "[]"]) (simp_all add: img_def)
  then show ?thesis using step im3 hdr_keep by blast
qed

end
