(* ===== verification/BtAlloc.thy ===== *)
theory BtAlloc
  imports BtDefrag
begin

text \<open>
  \<^verbatim>\<open>allocateSpace\<close>: the bytes it returns are free, the cells of the page stay, and two bytes are left
  for the pointer of the cell to come.
\<close>

lemma img_upd [simp]:
  "img b (p\<lparr>aData := x\<rparr>) d cs X g os t fb = img b p d cs X g os t fb"
  "img b (p\<lparr>nFree := f\<rparr>) d cs X g os t fb = img b p d cs X g os t fb"
  "img b (p\<lparr>nCell := k\<rparr>) d cs X g os t fb = img b p d cs X g os t fb"
  by (simp_all add: img_def)

lemma page_repD:
  assumes "page_rep b p cs"
  shows "wf_page b p" "nCell p = length cs" "g2 (aData p) (hdrOffset p + 3) = length cs"
    "list_all (\<lambda>c. cellSizePtr b p c = Some (length c)) cs"
    "nFree p + (cellOffset p + 2 * length cs) + csize cs = usableSize b"
    "\<exists>os t fb. img b p (aData p) cs {} (cellOffset p + 2 * length cs) os t fb"
  using assms unfolding page_rep_def by (simp, simp, simp, simp, simp, blast)

lemma page_bounds:
  assumes "wf_page b p"
  shows "hdrOffset p + 8 \<le> cellOffset p" "480 \<le> usableSize b" "usableSize b \<le> pageSize b" "pageSize b \<le> 65536"
    "512 \<le> pageSize b" "nOverflow p = 0" "aCellIdx p = cellOffset p" "cellOffset p = hdrOffset p + 12 - 4 * leaf p" "cellOffset p \<le> 112"
    "length (aData p) = pageSize b" "hdrOffset p + 6 + childPtrSize p \<le> cellOffset p"
  using assms valid_bt_bounds [OF wf_pageD(1) [OF assms]] by (auto simp: wf_page_def)

lemma imgD:
  assumes "img b p d cs X g os t fb"
  shows "length d = pageSize b" "cells_at d (cellOffset p) os cs" "apart os cs" "used os cs \<inter> X = {}" "g \<le> t" "t \<le> usableSize b"
    "space (hdrOffset p) (usableSize b) d t fb (used os cs \<union> X)" "used os cs \<subseteq> {t..<usableSize b}" "X \<subseteq> {t..<usableSize b}"
  using assms unfolding img_def space_def by simp_all

text \<open>The bytes below the cell content are taken for the new cell.\<close>

lemma gap_take:
  assumes W: "wf_page b p" and I: "img b p d cs {} g os t fb" and n: "4 \<le> n" "g + 2 + n \<le> t"
    and g: "g = cellOffset p + 2 * length cs"
  shows "img b p (p2 d (hdrOffset p + 5) (t - n)) cs {t - n..<t} (g + 2) os (t - n) fb"
proof -
  let ?d = "p2 d (hdrOffset p + 5) (t - n)"
  note i = imgD [OF I] and w = page_bounds [OF W]
  have "space (hdrOffset p) (usableSize b) ?d (t - n) fb (used os cs \<union> {} \<union> {t - n..<t})"
    using space_gap [OF i(7) n(1)] n(2) g w by simp
  moreover have "cells_at ?d (cellOffset p) os cs"
    using i(2) by (rule cells_at_cong) (use i w g in \<open>auto intro!: nth_p2\<close>)
  moreover have "used os cs \<inter> {t - n..<t} = {}" using i(8) by auto
  ultimately show ?thesis using i n by (simp add: img_def)
qed

lemma defragment_hdr:
  assumes "page_rep b p cs" "length tmp = pageSize b"
  shows "\<exists>d os. defragmentPage b p tmp = Some (SQLITE_OK, p\<lparr>aData := d\<rparr>) \<and> page_rep b (p\<lparr>aData := d\<rparr>) cs \<and>
    img b p d cs {} (cellOffset p + 2 * length cs) os (usableSize b - csize cs) [] \<and> d ! hdrOffset p = aData p ! hdrOffset p"
proof -
  have "hdrOffset p < cellOffset p" using page_bounds(1) [OF page_repD(1) [OF assms(1)]] by simp
  then show ?thesis using defragmentPage_ok [OF assms] by fastforce
qed

lemma alloc_gap_ok:
  assumes R: "page_rep b p cs" and I: "img b p (aData p) cs {} g os t fb" and n: "4 \<le> n" "n + 2 \<le> nFree p"
    and tmp: "length tmp = pageSize b" and g: "g = cellOffset p + 2 * length cs"
  shows "\<exists>d idx os' t' fb'. alloc_gap b p tmp n g t = Some (SQLITE_OK, p\<lparr>aData := d\<rparr>, idx) \<and>
    img b p d cs {idx..<idx + n} (g + 2) os' t' fb' \<and> g2 d (hdrOffset p + 3) = length cs \<and> d ! hdrOffset p = aData p ! hdrOffset p"
proof -
  note W = page_repD(1) [OF R]
  note w = page_bounds [OF W]
  have fit: "\<exists>d1 os1 t1 fb1. g + 2 + n \<le> t1 \<and> img b p d1 cs {} g os1 t1 fb1 \<and> g2 d1 (hdrOffset p + 3) = length cs \<and> d1 ! hdrOffset p = aData p ! hdrOffset p \<and>
    alloc_gap b p tmp n g t = do {
       data \<leftarrow> put2byte d1 (hdrOffset p + 5) (t1 - n);
       assert_that (t1 - n + n \<le> usableSize b);
       Some (SQLITE_OK, p\<lparr>aData := data\<rparr>, t1 - n) }"
  proof (cases "t < g + 2 + n")
    case False
    then show ?thesis using I page_repD(3) [OF R]
      by (intro exI [of _ "aData p"] exI [of _ os] exI [of _ t] exI [of _ fb]) (simp add: alloc_gap_def Let_def)
  next
    case True
    obtain d1 os1 where D: "defragmentPage b p tmp = Some (SQLITE_OK, p\<lparr>aData := d1\<rparr>)" "page_rep b (p\<lparr>aData := d1\<rparr>) cs"
      "img b p d1 cs {} g os1 (usableSize b - csize cs) []" "d1 ! hdrOffset p = aData p ! hdrOffset p"
      using defragment_hdr [OF R tmp] unfolding g by blast
    let ?t = "usableSize b - csize cs"
    have t: "g + 2 + n \<le> ?t" using page_repD(5) [OF R] n(2) g by simp
    have "get2byteNotZero d1 (hdrOffset p + 5) = Some ?t" using space_top(1) [OF imgD(7) [OF D(3)]] .
    then show ?thesis using True D t page_repD(3) [OF D(2)]
      by (intro exI [of _ d1] exI [of _ os1] exI [of _ ?t] exI [of _ "[]"]) (simp add: alloc_gap_def Let_def)
  qed
  then obtain d1 os1 t1 fb1 where A: "g + 2 + n \<le> t1" "img b p d1 cs {} g os1 t1 fb1" "g2 d1 (hdrOffset p + 3) = length cs" "d1 ! hdrOffset p = aData p ! hdrOffset p"
    "alloc_gap b p tmp n g t = do {
       data \<leftarrow> put2byte d1 (hdrOffset p + 5) (t1 - n);
       assert_that (t1 - n + n \<le> usableSize b);
       Some (SQLITE_OK, p\<lparr>aData := data\<rparr>, t1 - n) }" by blast
  let ?d = "p2 d1 (hdrOffset p + 5) (t1 - n)"
  have "put2byte d1 (hdrOffset p + 5) (t1 - n) = Some ?d" using imgD [OF A(2)] w by (simp add: put2byte_p2)
  then have "alloc_gap b p tmp n g t = Some (SQLITE_OK, p\<lparr>aData := ?d\<rparr>, t1 - n)"
    using A(1,5) imgD(6) [OF A(2)] by simp
  moreover have "img b p ?d cs {t1 - n..<t1 - n + n} (g + 2) os1 (t1 - n) fb1"
    using gap_take [OF W A(2) n(1) A(1) g] A(1) by simp
  moreover have "g2 ?d (hdrOffset p + 3) = length cs" using A(3) by (simp add: g2_p2_other)
  moreover have "?d ! hdrOffset p = aData p ! hdrOffset p" using A(4) by (simp add: nth_p2)
  ultimately show ?thesis by blast
qed

theorem allocateSpace_ok:
  assumes R: "page_rep b p cs" and n: "4 \<le> n" "n + 2 \<le> nFree p" and tmp: "length tmp = pageSize b"
  shows "\<exists>d idx os' t' fb'. allocateSpace b p tmp n = Some (SQLITE_OK, p\<lparr>aData := d\<rparr>, idx) \<and>
    img b p d cs {idx..<idx + n} (cellOffset p + 2 * length cs + 2) os' t' fb' \<and> g2 d (hdrOffset p + 3) = length cs \<and> d ! hdrOffset p = aData p ! hdrOffset p"
proof -
  define g where "g = cellOffset p + 2 * length cs"
  let ?hdr = "hdrOffset p" and ?d = "aData p" and ?u = "usableSize b"
  note W = page_repD(1) [OF R]
  note w = page_bounds [OF W]
  obtain os t fb where I: "img b p ?d cs {} g os t fb" using page_repD(6) [OF R] g_def by blast
  note i = imgD [OF I]
  have pre: "n \<le> nFree p" "n < ?u - 8" using n page_repD(5) [OF R] w by auto
  let ?alloc = "\<lambda>x. \<exists>d idx os' t' fb'. x = Some (SQLITE_OK, p\<lparr>aData := d\<rparr>, idx) \<and>
    img b p d cs {idx..<idx + n} (g + 2) os' t' fb' \<and> g2 d (?hdr + 3) = length cs \<and> d ! ?hdr = ?d ! ?hdr"
  have gap: "?alloc (alloc_gap b p tmp n g t)" using alloc_gap_ok [OF R I n tmp g_def] .
  let ?f = "unat (?d ! (?hdr + 7))"
  have eq: "allocateSpace b p tmp n =
    (if 60 \<le> ?f then do {
       (rc, p) \<leftarrow> defragmentPage b p tmp;
       if rc \<noteq> SQLITE_OK then Some (rc, p, 0)
       else do { ctop \<leftarrow> get2byteNotZero (aData p) (?hdr + 5); alloc_gap b p tmp n g ctop } }
     else if g + 2 \<le> t then do {
       r \<leftarrow> search_free ?d ?u ?hdr ?f n (?hdr + 1);
       case r of
         BadList \<Rightarrow> Some (SQLITE_CORRUPT, p, 0)
       | Found idx data \<Rightarrow> Some (SQLITE_OK, p\<lparr>aData := data\<rparr>, idx)
       | NotFound \<Rightarrow> alloc_gap b p tmp n g t }
     else alloc_gap b p tmp n g t)"
  proof -
    have "assert_that (cellOffset p = ?hdr + 12 - 4 * leaf p) = Some ()" using w(8) by simp
    moreover have "cellOffset p + 2 * nCell p = g" using page_repD(2) [OF R] g_def by simp
    ultimately show ?thesis using space_top(1,3) [OF i(7)] pre w(6) i(5) by (simp add: allocateSpace_def Let_def)
  qed
  consider "60 \<le> ?f" | "?f < 60" "g + 2 \<le> t" | "?f < 60" "t < g + 2" by linarith
  then have "?alloc (allocateSpace b p tmp n)"
  proof cases
    case 1
    obtain d1 os1 where D: "defragmentPage b p tmp = Some (SQLITE_OK, p\<lparr>aData := d1\<rparr>)" "page_rep b (p\<lparr>aData := d1\<rparr>) cs"
      "img b p d1 cs {} g os1 (?u - csize cs) []" "d1 ! ?hdr = ?d ! ?hdr"
      using defragment_hdr [OF R tmp] unfolding g_def by blast
    have "img b (p\<lparr>aData := d1\<rparr>) (aData (p\<lparr>aData := d1\<rparr>)) cs {} g os1 (?u - csize cs) []" using D(3) by simp
    from alloc_gap_ok [OF D(2) this n(1) _ tmp]
    have "?alloc (alloc_gap b (p\<lparr>aData := d1\<rparr>) tmp n g (?u - csize cs))" using n(2) D(4) by (simp add: g_def)
    moreover have "get2byteNotZero d1 (?hdr + 5) = Some (?u - csize cs)" using space_top(1) [OF imgD(7) [OF D(3)]] .
    ultimately show ?thesis unfolding eq using 1 D(1) by simp
  next
    case 2
    from search_space [OF i(7) n(1) 2(1)] show ?thesis
    proof (elim disjE exE conjE)
      assume "search_free ?d ?u ?hdr ?f n (?hdr + 1) = Some NotFound"
      then show ?thesis unfolding eq using 2 gap by simp
    next
      fix idx d' fb'
      assume f: "search_free ?d ?u ?hdr ?f n (?hdr + 1) = Some (Found idx d')"
        and s: "space ?hdr ?u d' t fb' (used os cs \<union> {} \<union> {idx..<idx + n})" and sub: "{idx..<idx + n} \<subseteq> blocks fb"
        and l: "length d' = length ?d" and k: "\<forall>j. j \<notin> blocks fb \<longrightarrow> j \<notin> {?hdr + 1, ?hdr + 2, ?hdr + 7} \<longrightarrow> d' ! j = ?d ! j"
      have ub: "used os cs \<inter> blocks fb = {}" and bt: "blocks fb \<subseteq> {t..<?u}"
        using i(7) chain_blocks [of 4 t ?u fb] by (auto simp: space_def)
      have low: "d' ! j = ?d ! j" if "j < t" "j \<notin> {?hdr + 1, ?hdr + 2, ?hdr + 7}" for j using k that bt by auto
      have "cells_at d' (cellOffset p) os cs"
      proof (rule cells_at_cong [OF i(2) l])
        show "d' ! j = ?d ! j" if "j \<in> used os cs" for j using that k ub i(5,8) w(1) g_def by fastforce
        show "d' ! j = ?d ! j" if "cellOffset p \<le> j" "j < cellOffset p + 2 * length cs" for j
          using that w(1) i(5) g_def by (intro low) auto
      qed
      moreover have "used os cs \<inter> {idx..<idx + n} = {}" using ub sub by blast
      ultimately have "img b p d' cs {idx..<idx + n} (g + 2) os t fb'"
        using i s l 2(2) by (simp add: img_def)
      moreover have "g2 d' (?hdr + 3) = length cs"
        using page_repD(3) [OF R] w(1) i(5) g_def by (subst g2_cong [of d' _ ?d]) (auto intro!: low)
      moreover have "d' ! ?hdr = ?d ! ?hdr" using w(1) i(5) g_def by (intro low) auto
      ultimately show ?thesis unfolding eq using f 2 by auto
    qed
  next
    case 3
    then show ?thesis unfolding eq using gap by simp
  qed
  then show ?thesis by (simp add: g_def)
qed

end
