(* ===== verification/BtCell.thy ===== *)
theory BtCell
  imports BtAlloc
begin

text \<open>
  The pieces of \<^verbatim>\<open>insertCell\<close> and \<^verbatim>\<open>dropCell\<close>: moving the cell pointers, writing the bytes of the
  cell, and what that does to the cells of the image.
\<close>

section \<open>Moving the cell pointers\<close>

lemma shift_up_ok:
  "e + 2 * k + 2 \<le> length d \<Longrightarrow> \<exists>d'. shift_up d (e + 2 * k) e = Some d' \<and> length d' = length d \<and>
     (\<forall>j < length d. d' ! j = (if e + 2 \<le> j \<and> j < e + 2 * k + 2 then d ! (j - 2) else d ! j))"
proof (induction k arbitrary: d)
  case 0
  show ?case by (subst shift_up.simps) auto
next
  case (Suc k)
  let ?q = "e + 2 * k"
  define d1 where "d1 = ov d (?q + 2) (take 2 (drop ?q d))"
  have l: "length (take 2 (drop ?q d)) = 2" using Suc.prems by simp
  have l1: "length d1 = length d" using Suc.prems l by (simp add: d1_def)
  have n1: "d1 ! j = (if ?q + 2 \<le> j \<and> j < ?q + 4 then d ! (j - 2) else d ! j)" if "j < length d" for j
  proof (cases "?q + 2 \<le> j \<and> j < ?q + 4")
    case True
    then have "?q + (j - (?q + 2)) = j - 2" "j - (?q + 2) < 2" by auto
    then have "take 2 (drop ?q d) ! (j - (?q + 2)) = d ! (j - 2)" using Suc.prems by simp
    then show ?thesis using that True Suc.prems l unfolding d1_def by (subst nth_ov) simp_all
  next
    case False
    then show ?thesis using that Suc.prems l unfolding d1_def by (subst nth_ov) auto
  qed
  have step: "shift_up d (e + 2 * Suc k) e = shift_up d1 ?q e"
    using Suc.prems l by (subst shift_up.simps) (simp add: get_bytes_Some blit_ov d1_def)
  obtain d' where d': "shift_up d1 ?q e = Some d'" "length d' = length d1"
      "\<forall>j < length d1. d' ! j = (if e + 2 \<le> j \<and> j < ?q + 2 then d1 ! (j - 2) else d1 ! j)"
    using Suc.IH [of d1] Suc.prems l1 by auto
  have "d' ! j = (if e + 2 \<le> j \<and> j < e + 2 * Suc k + 2 then d ! (j - 2) else d ! j)" if "j < length d" for j
    using that d'(3) l1 n1 [of j] n1 [of "j - 2"] by auto
  then show ?case using d' step l1 by auto
qed

lemma shift_down_ok:
  "a + 2 * k + 2 \<le> length d \<Longrightarrow> \<exists>d'. shift_down d a (a + 2 * k) = Some d' \<and> length d' = length d \<and>
     (\<forall>j < length d. d' ! j = (if a \<le> j \<and> j < a + 2 * k then d ! (j + 2) else d ! j))"
proof (induction k arbitrary: d a)
  case 0
  show ?case by (subst shift_down.simps) auto
next
  case (Suc k)
  define d1 where "d1 = ov d a (take 2 (drop (a + 2) d))"
  have l: "length (take 2 (drop (a + 2) d)) = 2" using Suc.prems by simp
  have l1: "length d1 = length d" using Suc.prems l by (simp add: d1_def)
  have n1: "d1 ! j = (if a \<le> j \<and> j < a + 2 then d ! (j + 2) else d ! j)" if "j < length d" for j
    using that Suc.prems l by (auto simp: d1_def nth_ov)
  have step: "shift_down d a (a + 2 * Suc k) = shift_down d1 (a + 2) (a + 2 + 2 * k)"
    using Suc.prems l by (subst shift_down.simps) (simp add: get_bytes_Some blit_ov d1_def)
  obtain d' where d': "shift_down d1 (a + 2) (a + 2 + 2 * k) = Some d'" "length d' = length d1"
      "\<forall>j < length d1. d' ! j = (if a + 2 \<le> j \<and> j < a + 2 + 2 * k then d1 ! (j + 2) else d1 ! j)"
    using Suc.IH [of "a + 2" d1] Suc.prems l1 by auto
  have "d' ! j = (if a \<le> j \<and> j < a + 2 * Suc k then d ! (j + 2) else d ! j)" if "j < length d" for j
    using that d'(3) l1 n1 [of j] n1 [of "j + 2"] Suc.prems by auto
  then show ?case using d' step l1 by auto
qed

section \<open>The bytes of the cell\<close>

definition be4 :: "u32 \<Rightarrow> u8 list" where
  "be4 v = [ucast (drop_bit 24 v), ucast (drop_bit 16 v), ucast (drop_bit 8 v), ucast v]"

lemma put4_eq: "4 \<le> length z \<Longrightarrow> sqlite3Put4byte z v = Some (be4 v @ drop 4 z)"
proof -
  assume "4 \<le> length z"
  then obtain a b c d r where "z = a # b # c # d # r"
    by (cases z; cases "tl z"; cases "tl (tl z)"; cases "tl (tl (tl z))") auto
  then show ?thesis by (simp add: sqlite3Put4byte_def wr_def be4_def numeral_eq_Suc)
qed

lemma cell_with_child_eq:
  "4 \<le> length c \<Longrightarrow> cell_with_child c ch = Some (if ch = 0 then c else be4 ch @ drop 4 c)"
  by (simp add: cell_with_child_def put4_eq)

lemma write_cell:
  assumes "idx + n \<le> length d" "n \<le> length z" "4 \<le> n" "cell_with_child (take n z) ch = Some c" "k = (if ch \<noteq> 0 then 4 else 0)"
  shows "do { bs \<leftarrow> get_bytes z k (n - k);
      data \<leftarrow> blit d (idx + k) bs;
      (if ch \<noteq> 0 then map_option (\<lambda>d. take idx data @ d) (sqlite3Put4byte (drop idx data) ch) else Some data) } =
    Some (ov d idx c)" and "length c = n"
proof -
  let ?z = "take n z"
  have c: "c = (if ch = 0 then ?z else be4 ch @ drop 4 ?z)" using assms by (simp add: cell_with_child_eq)
  then show "length c = n" using assms by (auto simp: be4_def)
  show "do { bs \<leftarrow> get_bytes z k (n - k);
      data \<leftarrow> blit d (idx + k) bs;
      (if ch \<noteq> 0 then map_option (\<lambda>d. take idx data @ d) (sqlite3Put4byte (drop idx data) ch) else Some data) } =
    Some (ov d idx c)"
  proof (cases "ch = 0")
    case True
    then show ?thesis using assms c by (simp add: get_bytes_Some blit_ov)
  next
    case False
    have "get_bytes z k (n - k) = Some (drop 4 ?z)" using assms False by (simp add: get_bytes_Some drop_take)
    moreover have l: "length (drop 4 ?z) = n - 4" using assms by simp
    moreover have "Suc (Suc (Suc (Suc (idx + n - 4)))) = idx + n" using assms by simp
    ultimately show ?thesis using assms False c
      by (simp add: blit_ov put4_eq ov_def be4_def min_absorb2)
  qed
qed

text \<open>In an interior page the child pointer does not matter for the size.\<close>

lemma cell_head_child:
  assumes "drop (childPtrSize p) z' = drop (childPtrSize p) z"
  shows "cell_head p z' = cell_head p z"
proof -
  have "drop (childPtrSize p + k) z' = drop (childPtrSize p + k) z" for k
    using assms by (metis drop_drop add.commute)
  then show ?thesis using assms
    by (cases "getVarint32 (drop (childPtrSize p) z)") (auto simp: cell_head_def skip_varint_eq Let_def)
qed

end
