(* ===== verification/BtPages.thy ===== *)
theory BtPages
  imports BtCell UtilInt
begin

text \<open>
  The pages of the database file that are not in use: \<^verbatim>\<open>allocateBtreePage\<close> and \<^verbatim>\<open>freePage2\<close> of
  \<^verbatim>\<open>btree.c\<close> for a database without auto-vacuum. The free pages are on a list of trunk pages, whose
  head and length are in the header of page 1; a trunk page holds the number of the next trunk page,
  the number of its leaves and their page numbers.
\<close>

section \<open>The file and the pager\<close>

text \<open>
  The contents of the pages as the pager shows them, \<^verbatim>\<open>BtShared.nPage\<close>, and a count of the calls that
  may fail. Page numbers are \<^typ>\<open>nat\<close>.
\<close>

record Db =
  db_page :: "nat \<Rightarrow> u8 list"
  db_nPage :: nat
  db_calls :: nat

text \<open>
  What the pager and the rest of the process decide: the result of the n-th call of
  \<^verbatim>\<open>sqlite3PagerWrite\<close>, \<^verbatim>\<open>sqlite3PagerAcquire\<close> or \<^verbatim>\<open>btreeSetHasContent\<close>; whether a page that is
  acquired with \<^verbatim>\<open>noContent\<close> keeps its content instead of being zeroed, since it is in the cache or
  \<^verbatim>\<open>btreeGetHasContent\<close> says that it is needed; whether somebody else holds a reference to a page.
\<close>

record Pager =
  pg_rc :: "nat \<Rightarrow> rc"
  pg_cached :: "nat \<Rightarrow> bool"
  pg_shared :: "nat \<Rightarrow> bool"

definition pager_call :: "Pager \<Rightarrow> Db \<Rightarrow> rc \<times> Db" where
  "pager_call pg db = (pg_rc pg (db_calls db), db\<lparr>db_calls := db_calls db + 1\<rparr>)"

text \<open>\<^verbatim>\<open>btreeGetPage\<close>; the pager refuses page 0.\<close>

definition btreeGetPage :: "Pager \<Rightarrow> BtShared \<Rightarrow> Db \<Rightarrow> nat \<Rightarrow> bool \<Rightarrow> rc \<times> Db" where
  "btreeGetPage pg b db pgno noContent =
    (if pgno = 0 then (SQLITE_CORRUPT, db)
     else let (rc, db) = pager_call pg db in
       if rc = SQLITE_OK \<and> noContent \<and> \<not> pg_cached pg (db_calls db)
       then (rc, db\<lparr>db_page := (db_page db)(pgno := replicate (pageSize b) 0)\<rparr>)
       else (rc, db))"

definition get4 :: "u8 list \<Rightarrow> nat \<Rightarrow> nat option" where
  "get4 d a = map_option unat (sqlite3Get4byte (drop a d))"

definition put4 :: "u8 list \<Rightarrow> nat \<Rightarrow> nat \<Rightarrow> u8 list option" where
  "put4 d a v = map_option (\<lambda>r. take a d @ r) (sqlite3Put4byte (drop a d) (word_of_nat v))"

definition set_page :: "Db \<Rightarrow> nat \<Rightarrow> u8 list \<Rightarrow> Db" where
  "set_page db pgno d = db\<lparr>db_page := (db_page db)(pgno := d)\<rparr>"

definition PENDING_BYTE_PAGE :: "BtShared \<Rightarrow> nat" where
  "PENDING_BYTE_PAGE b = 0x40000000 div pageSize b + 1"

section \<open>Allocation\<close>

text \<open>The distance of two page numbers, a \<^verbatim>\<open>u32\<close> difference read as \<^verbatim>\<open>int\<close>.\<close>

definition page_dist :: "nat \<Rightarrow> nat \<Rightarrow> int" where
  "page_dist x nearby = sqlite3AbsInt32 (sint (word_of_nat x - word_of_nat nearby :: u32))"

text \<open>The loop over the leaves of a trunk page for the one closest to \<open>nearby\<close>.\<close>

function closest_leaf :: "u8 list \<Rightarrow> nat \<Rightarrow> nat \<Rightarrow> nat \<Rightarrow> nat \<Rightarrow> int \<Rightarrow> nat option" where
  "closest_leaf d nearby k i closest dist =
    (if i < k then do {
       x \<leftarrow> get4 d (8 + i * 4);
       let d2 = page_dist x nearby;
       if d2 < dist then closest_leaf d nearby k (i + 1) i d2
       else closest_leaf d nearby k (i + 1) closest dist
     } else Some closest)"
  by pat_completeness auto
termination
  by (relation "measure (\<lambda>(z, n, k, i, c, x). k - i)") auto

declare closest_leaf.simps [simp del]

definition choose_leaf :: "u8 list \<Rightarrow> nat \<Rightarrow> nat \<Rightarrow> nat option" where
  "choose_leaf d nearby k =
    (if 0 < nearby then do { x \<leftarrow> get4 d 8; closest_leaf d nearby k 1 0 (page_dist x nearby) } else Some 0)"

text \<open>The end of \<^verbatim>\<open>allocateBtreePage\<close>, for the page that it has found.\<close>

definition end_allocate_page :: "Pager \<Rightarrow> Db \<Rightarrow> rc \<Rightarrow> nat \<Rightarrow> rc \<times> Db \<times> nat" where
  "end_allocate_page pg db rc pgno =
    (if rc = SQLITE_OK \<and> pg_shared pg pgno then (SQLITE_CORRUPT, db, pgno) else (rc, db, pgno))"

text \<open>A leaf of the trunk page \<open>iTrunk\<close>, which has \<open>k\<close> of them.\<close>

definition alloc_leaf :: "Pager \<Rightarrow> BtShared \<Rightarrow> Db \<Rightarrow> nat \<Rightarrow> nat \<Rightarrow> nat \<Rightarrow> (rc \<times> Db \<times> nat) option" where
  "alloc_leaf pg b db nearby iTrunk k = do {
     let aData = db_page db iTrunk;
     closest \<leftarrow> choose_leaf aData nearby k;
     iPage \<leftarrow> get4 aData (8 + closest * 4);
     if db_nPage db < iPage then Some (SQLITE_CORRUPT, db, 0)
     else do {
       let (rc, db) = pager_call pg db;
       if rc \<noteq> SQLITE_OK then Some (rc, db, iPage)
       else do {
         aData \<leftarrow> (if closest < k - 1 then do { bs \<leftarrow> get_bytes aData (4 + k * 4) 4; blit aData (8 + closest * 4) bs }
                   else Some aData);
         aData \<leftarrow> put4 aData 4 (k - 1);
         let (rc, db) = btreeGetPage pg b (set_page db iTrunk aData) iPage True;
         let (rc, db) = (if rc = SQLITE_OK then pager_call pg db else (rc, db));
         assert_that (iPage \<noteq> PENDING_BYTE_PAGE b);
         Some (end_allocate_page pg db rc iPage)
       }
     } }"

definition alloc_free :: "Pager \<Rightarrow> BtShared \<Rightarrow> Db \<Rightarrow> nat \<Rightarrow> nat \<Rightarrow> (rc \<times> Db \<times> nat) option" where
  "alloc_free pg b db nearby n = do {
     let mxPage = db_nPage db;
     let (rc, db) = pager_call pg db;
     if rc \<noteq> SQLITE_OK then Some (rc, db, 0)
     else do {
       page1 \<leftarrow> put4 (db_page db 1) 36 (n - 1);
       let db = set_page db 1 page1;
       iTrunk \<leftarrow> get4 page1 32;
       if mxPage < iTrunk then Some (SQLITE_CORRUPT, db, 0)
       else do {
         let (rc, db) = btreeGetPage pg b db iTrunk False;
         if rc \<noteq> SQLITE_OK then Some (rc, db, 0)
         else do {
           k \<leftarrow> get4 (db_page db iTrunk) 4;
           if k = 0 then do {
             let (rc, db) = pager_call pg db;
             if rc \<noteq> SQLITE_OK then Some (rc, db, 0)
             else do {
               bs \<leftarrow> get_bytes (db_page db iTrunk) 0 4;
               page1 \<leftarrow> blit (db_page db 1) 32 bs;
               assert_that (iTrunk \<noteq> PENDING_BYTE_PAGE b);
               Some (end_allocate_page pg (set_page db 1 page1) SQLITE_OK iTrunk)
             }
           }
           else if usableSize b div 4 - 2 < k then Some (SQLITE_CORRUPT, db, 0)
           else alloc_leaf pg b db nearby iTrunk k
         }
       }
     } }"

text \<open>A new page at the end of the file.\<close>

definition alloc_new :: "Pager \<Rightarrow> BtShared \<Rightarrow> Db \<Rightarrow> (rc \<times> Db \<times> nat) option" where
  "alloc_new pg b db = do {
     let (rc, db) = pager_call pg db;
     if rc \<noteq> SQLITE_OK then Some (rc, db, 0)
     else do {
       let n = (db_nPage db + 1) mod 2 ^ 32;
       let n = (if n = PENDING_BYTE_PAGE b then n + 1 else n);
       page1 \<leftarrow> put4 (db_page db 1) 28 n;
       let db = set_page (db\<lparr>db_nPage := n\<rparr>) 1 page1;
       assert_that (n \<noteq> PENDING_BYTE_PAGE b);
       let (rc, db) = btreeGetPage pg b db n True;
       if rc \<noteq> SQLITE_OK then Some (rc, db, n)
       else do {
         let (rc, db) = pager_call pg db;
         Some (end_allocate_page pg db rc n)
       }
     } }"

definition allocateBtreePage :: "Pager \<Rightarrow> BtShared \<Rightarrow> Db \<Rightarrow> nat \<Rightarrow> (rc \<times> Db \<times> nat) option" where
  "allocateBtreePage pg b db nearby = do {
     n \<leftarrow> get4 (db_page db 1) 36;
     if db_nPage db \<le> n then Some (SQLITE_CORRUPT, db, 0)
     else if 0 < n then alloc_free pg b db nearby n
     else alloc_new pg b db }"

section \<open>Release\<close>

text \<open>
  \<^verbatim>\<open>freePage2\<close>; \<open>held\<close> says whether the page is given or in the cache. First the page becomes a trunk
  page in front of \<open>iTrunk\<close>.
\<close>

definition free_trunk :: "Pager \<Rightarrow> BtShared \<Rightarrow> Db \<Rightarrow> bool \<Rightarrow> nat \<Rightarrow> nat \<Rightarrow> (rc \<times> Db) option" where
  "free_trunk pg b db held iPage iTrunk = do {
     let (rc, db) = (if held then (SQLITE_OK, db) else btreeGetPage pg b db iPage False);
     if rc \<noteq> SQLITE_OK then Some (rc, db)
     else do {
       let (rc, db) = pager_call pg db;
       if rc \<noteq> SQLITE_OK then Some (rc, db)
       else do {
         d \<leftarrow> put4 (db_page db iPage) 0 iTrunk;
         d \<leftarrow> put4 d 4 0;
         let db = set_page db iPage d;
         page1 \<leftarrow> put4 (db_page db 1) 32 iPage;
         Some (SQLITE_OK, set_page db 1 page1)
       }
     } }"

definition free_leaf :: "Pager \<Rightarrow> Db \<Rightarrow> nat \<Rightarrow> nat \<Rightarrow> nat \<Rightarrow> (rc \<times> Db) option" where
  "free_leaf pg db iPage iTrunk nLeaf = do {
     let (rc, db) = pager_call pg db;
     if rc \<noteq> SQLITE_OK then Some (rc, db)
     else do {
       d \<leftarrow> put4 (db_page db iTrunk) 4 (nLeaf + 1);
       d \<leftarrow> put4 d (8 + nLeaf * 4) iPage;
       Some (pager_call pg (set_page db iTrunk d))
     } }"

definition secure_zero :: "Pager \<Rightarrow> BtShared \<Rightarrow> Db \<Rightarrow> bool \<Rightarrow> nat \<Rightarrow> rc \<times> Db" where
  "secure_zero pg b db held iPage =
    (if \<not> secure_delete b then (SQLITE_OK, db)
     else let (rc, db) = (if held then (SQLITE_OK, db) else btreeGetPage pg b db iPage False) in
     if rc \<noteq> SQLITE_OK then (rc, db)
     else let (rc, db) = pager_call pg db in
       if rc \<noteq> SQLITE_OK then (rc, db) else (rc, set_page db iPage (replicate (pageSize b) 0)))"

definition freePage2 :: "Pager \<Rightarrow> BtShared \<Rightarrow> Db \<Rightarrow> bool \<Rightarrow> nat \<Rightarrow> (rc \<times> Db) option" where
  "freePage2 pg b db held iPage = do {
     assert_that (1 < iPage);
     let (rc, db) = pager_call pg db;
     if rc \<noteq> SQLITE_OK then Some (rc, db)
     else do {
       nFree \<leftarrow> get4 (db_page db 1) 36;
       page1 \<leftarrow> put4 (db_page db 1) 36 (nFree + 1);
       let db = set_page db 1 page1;
       let (rc, db) = secure_zero pg b db held iPage;
       let held = (held \<or> secure_delete b);
       if rc \<noteq> SQLITE_OK then Some (rc, db)
       else if nFree \<noteq> 0 then do {
         iTrunk \<leftarrow> get4 (db_page db 1) 32;
         let (rc, db) = btreeGetPage pg b db iTrunk False;
         if rc \<noteq> SQLITE_OK then Some (rc, db)
         else do {
           nLeaf \<leftarrow> get4 (db_page db iTrunk) 4;
           assert_that (32 < usableSize b);
           if usableSize b div 4 - 2 < nLeaf then Some (SQLITE_CORRUPT, db)
           else if nLeaf < usableSize b div 4 - 8 then free_leaf pg db iPage iTrunk nLeaf
           else free_trunk pg b db held iPage iTrunk
         }
       }
       else free_trunk pg b db held iPage 0
     } }"

end
