(* ===== verification/BtFreeList.thy ===== *)
theory BtFreeList
  imports BtPages
begin

text \<open>
  The list of free pages as a list of trunk pages with their leaves, and what \<^verbatim>\<open>allocateBtreePage\<close> and
  \<^verbatim>\<open>freePage2\<close> do to it.
\<close>

section \<open>Four byte fields\<close>

definition P4 :: "u8 list \<Rightarrow> nat \<Rightarrow> nat \<Rightarrow> u8 list" where "P4 d a v = ov d a (be4 (word_of_nat v))"

lemma length_be4 [simp]: "length (be4 v) = 4"
  by (simp add: be4_def)

lemma length_P4 [simp]: "a + 4 \<le> length d \<Longrightarrow> length (P4 d a v) = length d"
  by (simp add: P4_def)

lemma put4_P4: "a + 4 \<le> length d \<Longrightarrow> put4 d a v = Some (P4 d a v)"
  by (simp add: put4_def put4_eq P4_def ov_def add.commute)

lemma nth_P4: "a + 4 \<le> length d \<Longrightarrow> i < length d \<Longrightarrow> i \<notin> {a..<a + 4} \<Longrightarrow> P4 d a v ! i = d ! i"
  by (auto simp: P4_def nth_ov)

lemma get4_prefix: "a + 4 \<le> length d \<Longrightarrow> get4 d a = get4 (take 4 (drop a d)) 0"
  by (simp add: get4_def sqlite3Get4byte_def rd_def)

lemma get4_cong:
  assumes "length d' = length d" "a + 4 \<le> length d" "\<And>i. a \<le> i \<Longrightarrow> i < a + 4 \<Longrightarrow> d' ! i = d ! i"
  shows "get4 d' a = get4 d a"
proof -
  have "take 4 (drop a d') = take 4 (drop a d)" using assms by (intro take_drop_cong) auto
  then show ?thesis using get4_prefix [of a d] get4_prefix [of a d'] assms by simp
qed

lemma get4_total: "a + 4 \<le> length d \<Longrightarrow> \<exists>v. get4 d a = Some v \<and> v < 2 ^ 32"
proof -
  assume a: "a + 4 \<le> length d"
  then have "\<exists>w. sqlite3Get4byte (drop a d) = Some w" by (simp add: sqlite3Get4byte_def rd_def)
  then obtain w where "sqlite3Get4byte (drop a d) = Some w" by blast
  then have "get4 d a = Some (unat w)" by (simp add: get4_def)
  then show ?thesis using unsigned_less [of w, where ?'a = nat] by auto
qed

lemma get4_P4: "a + 4 \<le> length d \<Longrightarrow> v < 2 ^ 32 \<Longrightarrow> get4 (P4 d a v) a = Some v"
proof -
  assume a: "a + 4 \<le> length d" and v: "v < 2 ^ 32"
  have "drop a (P4 d a v) = be4 (word_of_nat v) @ drop 4 (drop a d)" using a by (simp add: P4_def ov_def add.commute)
  moreover have "sqlite3Get4byte (be4 (word_of_nat v) @ drop 4 (drop a d)) = Some (word_of_nat v)"
    using sqlite3Get4byte_Put4byte [of "drop a d" "word_of_nat v"] a by (auto simp: put4_eq)
  ultimately show ?thesis using v by (simp add: get4_def unat_of_nat)
qed

lemma get4_P4_other: "a + 4 \<le> length d \<Longrightarrow> c + 4 \<le> length d \<Longrightarrow> a + 4 \<le> c \<or> c + 4 \<le> a \<Longrightarrow> get4 (P4 d a v) c = get4 d c"
  by (rule get4_cong) (auto intro!: nth_P4)

lemma get4_copy:
  assumes "a + 4 \<le> length d" "c + 4 \<le> length d'"
  shows "get4 (ov d' c (take 4 (drop a d))) c = get4 d a"
proof -
  have "take 4 (drop c (ov d' c (take 4 (drop a d)))) = take 4 (drop a d)" using assms by (simp add: ov_def)
  then show ?thesis using assms get4_prefix [of c "ov d' c (take 4 (drop a d))"] get4_prefix [of a d] by simp
qed

lemma get4_copy_other:
  assumes "length bs = 4" "a + 4 \<le> length d" "c + 4 \<le> length d" "a + 4 \<le> c \<or> c + 4 \<le> a"
  shows "get4 (ov d a bs) c = get4 d c"
  using assms by (intro get4_cong) (auto simp: nth_ov)

section \<open>The list\<close>

definition max_leaves :: "BtShared \<Rightarrow> nat" where "max_leaves b = usableSize b div 4 - 2"

fun trunks :: "nat \<Rightarrow> (nat \<Rightarrow> u8 list) \<Rightarrow> nat \<Rightarrow> (nat \<times> nat list) list \<Rightarrow> bool" where
  "trunks mx pgs a [] = (a = 0)"
| "trunks mx pgs a ((t, ls) # r) = (a = t \<and> 0 < t \<and> length ls \<le> mx \<and> get4 (pgs t) 4 = Some (length ls) \<and>
     (\<forall>i < length ls. get4 (pgs t) (8 + i * 4) = Some (ls ! i)) \<and> (\<exists>n. get4 (pgs t) 0 = Some n \<and> trunks mx pgs n r))"

fun free_pages :: "(nat \<times> nat list) list \<Rightarrow> nat list" where
  "free_pages [] = []"
| "free_pages ((t, ls) # r) = t # ls @ free_pages r"

lemma trunks_cong: "trunks mx pgs a ts \<Longrightarrow> (\<And>t. t \<in> fst ` set ts \<Longrightarrow> pgs' t = pgs t) \<Longrightarrow> trunks mx pgs' a ts"
  by (induction mx pgs a ts rule: trunks.induct) auto

lemma fst_free_pages: "fst ` set ts \<subseteq> set (free_pages ts)"
  by (induction ts rule: free_pages.induct) auto

definition free_list :: "BtShared \<Rightarrow> Db \<Rightarrow> (nat \<times> nat list) list \<Rightarrow> bool" where
  "free_list b db ts \<longleftrightarrow> valid_bt b \<and> (\<forall>p. length (db_page db p) = pageSize b) \<and> 1 \<le> db_nPage db \<and> db_nPage db < 2 ^ 32 \<and>
     get4 (db_page db 1) 28 = Some (db_nPage db) \<and> get4 (db_page db 1) 36 = Some (length (free_pages ts)) \<and>
     (\<exists>a. get4 (db_page db 1) 32 = Some a \<and> trunks (max_leaves b) (db_page db) a ts) \<and> distinct (free_pages ts) \<and>
     (\<forall>p \<in> set (free_pages ts). 2 \<le> p \<and> p \<le> db_nPage db \<and> p \<noteq> PENDING_BYTE_PAGE b)"

lemma free_list_calls [simp]: "free_list b (db\<lparr>db_calls := n\<rparr>) ts = free_list b db ts"
  by (simp add: free_list_def)

lemma free_list_count: "free_list b db ts \<Longrightarrow> length (free_pages ts) < db_nPage db"
proof -
  assume f: "free_list b db ts"
  then have "set (free_pages ts) \<subseteq> {2..db_nPage db}" by (auto simp: free_list_def)
  then have "card (set (free_pages ts)) \<le> card {2..db_nPage db}" by (intro card_mono) auto
  moreover have "distinct (free_pages ts)" "1 \<le> db_nPage db" using f by (simp_all add: free_list_def)
  ultimately show ?thesis by (simp add: distinct_card)
qed

text \<open>Taking the leaf with index \<open>c\<close>: the last one takes its place.\<close>

definition without_leaf :: "nat list \<Rightarrow> nat \<Rightarrow> nat list" where "without_leaf ls c = (butlast ls)[c := last ls]"

lemma without_leaf:
  assumes "c < length ls" "distinct ls"
  shows "distinct (without_leaf ls c)" "set (without_leaf ls c) = set ls - {ls ! c}" "length (without_leaf ls c) = length ls - 1"
proof -
  obtain bs x where l: "ls = bs @ [x]" using assms(1) by (cases ls rule: rev_cases) auto
  have w: "without_leaf ls c = bs[c := x]" by (simp add: without_leaf_def l)
  have d: "distinct bs" "x \<notin> set bs" using assms(2) l by auto
  show "length (without_leaf ls c) = length ls - 1" unfolding w by (simp add: l)
  show "distinct (without_leaf ls c)" unfolding w using d by (intro distinct_list_update) auto
  show "set (without_leaf ls c) = set ls - {ls ! c}"
  proof (cases "c < length bs")
    case True
    then show ?thesis unfolding w using d by (auto simp: set_update_distinct l nth_append)
  next
    case False
    then show ?thesis unfolding w using assms(1) d by (auto simp: l nth_append list_update_beyond)
  qed
qed

lemma nth_without_leaf:
  assumes "i < length ls - 1"
  shows "without_leaf ls c ! i = (if i = c then last ls else ls ! i)"
  using assms by (simp add: without_leaf_def nth_list_update nth_butlast)

end
