(* ===== verification/BtAllocPage.thy ===== *)
theory BtAllocPage
  imports BtFreeList
begin

text \<open>The correctness of \<^verbatim>\<open>allocateBtreePage\<close> and \<^verbatim>\<open>freePage2\<close> on a list of free pages.\<close>

text \<open>No call of the pager fails, and nobody holds a reference to a free page.\<close>

definition io_ok :: "Pager \<Rightarrow> bool" where
  "io_ok pg \<longleftrightarrow> (\<forall>n. pg_rc pg n = SQLITE_OK) \<and> (\<forall>p. \<not> pg_shared pg p)"

lemma pager_call_cases:
  obtains r n where "pager_call pg db = (r, db\<lparr>db_calls := n\<rparr>)" "io_ok pg \<longrightarrow> r = SQLITE_OK"
  by (rule that [of "pg_rc pg (db_calls db)" "db_calls db + 1"]) (simp_all add: pager_call_def io_ok_def)

lemma get_page_cases:
  assumes "p \<noteq> 0"
  obtains r n where "btreeGetPage pg b db p False = (r, db\<lparr>db_calls := n\<rparr>)" "io_ok pg \<longrightarrow> r = SQLITE_OK"
proof -
  obtain r n where "pager_call pg db = (r, db\<lparr>db_calls := n\<rparr>)" "io_ok pg \<longrightarrow> r = SQLITE_OK" by (rule pager_call_cases)
  then show thesis using assms by (intro that [of r n]) (simp_all add: btreeGetPage_def)
qed

lemma get_new_page_cases:
  assumes "p \<noteq> 0" "\<forall>q. length (db_page db q) = pageSize b"
  obtains r n d where "btreeGetPage pg b db p True = (r, (set_page db p d)\<lparr>db_calls := n\<rparr>)" "io_ok pg \<longrightarrow> r = SQLITE_OK"
    "length d = pageSize b"
proof -
  obtain r n where r: "pager_call pg db = (r, db\<lparr>db_calls := n\<rparr>)" "io_ok pg \<longrightarrow> r = SQLITE_OK" by (rule pager_call_cases)
  have same: "db\<lparr>db_calls := n\<rparr> = (set_page db p (db_page db p))\<lparr>db_calls := n\<rparr>" by (simp add: set_page_def)
  show thesis
  proof (cases "r = SQLITE_OK \<and> \<not> pg_cached pg n")
    case True
    then show thesis using r assms(1)
      by (intro that [of r n "replicate (pageSize b) 0"]) (simp_all add: btreeGetPage_def set_page_def)
  next
    case False
    then have "btreeGetPage pg b db p True = (r, db\<lparr>db_calls := n\<rparr>)" using r assms(1) False by (auto simp: btreeGetPage_def)
    then show thesis using r(2) assms(2) same by (intro that [of r n "db_page db p"]) simp_all
  qed
qed

text \<open>
  What may change: the header of page 1, the page handed out or taken back, and pages that are free.
\<close>

definition same_pages :: "Db \<Rightarrow> Db \<Rightarrow> nat set \<Rightarrow> bool" where
  "same_pages db db' F \<longleftrightarrow> (\<forall>q. q \<noteq> 1 \<longrightarrow> q \<notin> F \<longrightarrow> db_page db' q = db_page db q) \<and>
     (\<forall>i < length (db_page db 1). i \<notin> {28..<40} \<longrightarrow> db_page db' 1 ! i = db_page db 1 ! i)"

text \<open>The last page number that the file will have when it grows by one page.\<close>

definition next_page :: "BtShared \<Rightarrow> Db \<Rightarrow> nat" where
  "next_page b db = (if db_nPage db + 1 = PENDING_BYTE_PAGE b then db_nPage db + 2 else db_nPage db + 1)"

text \<open>The contract of an allocation.\<close>

definition allocated :: "BtShared \<Rightarrow> Db \<Rightarrow> (nat \<times> nat list) list \<Rightarrow> Db \<Rightarrow> nat \<Rightarrow> bool" where
  "allocated b db ts db' p \<longleftrightarrow> (\<exists>ts'. free_list b db' ts' \<and> same_pages db db' (insert p (set (free_pages ts))) \<and>
     (if ts = [] then p = next_page b db \<and> db_nPage db' = p \<and> ts' = []
      else p \<in> set (free_pages ts) \<and> set (free_pages ts') = set (free_pages ts) - {p} \<and> db_nPage db' = db_nPage db))"

lemma end_alloc:
  assumes "allocated b db ts (db'\<lparr>db_calls := n\<rparr>) p" "io_ok pg \<longrightarrow> r = SQLITE_OK"
  shows "\<exists>rc db2 q. end_allocate_page pg (db'\<lparr>db_calls := n\<rparr>) r p = (rc, db2, q) \<and>
    (rc = SQLITE_OK \<longrightarrow> allocated b db ts db2 q) \<and> (io_ok pg \<longrightarrow> rc = SQLITE_OK)"
  using assms by (auto simp: end_allocate_page_def io_ok_def)

lemma allocated_calls [simp]: "allocated b db ts (db'\<lparr>db_calls := n\<rparr>) p = allocated b db ts db' p"
  "allocated b (db\<lparr>db_calls := n\<rparr>) ts db' p = allocated b db ts db' p"
  by (simp_all add: allocated_def same_pages_def next_page_def)

lemma usable_bounds:
  assumes "free_list b db ts"
  shows "valid_bt b" "480 \<le> usableSize b" "usableSize b \<le> pageSize b" "8 + 4 * max_leaves b \<le> usableSize b"
    "length (db_page db p) = pageSize b" "120 \<le> usableSize b div 4"
  using assms valid_bt_bounds [of b] by (auto simp: free_list_def max_leaves_def)

section \<open>Allocation\<close>

lemma choose_leaf_ok:
  assumes "8 + 4 * k \<le> length d" "0 < k"
  shows "\<exists>c < k. choose_leaf d nearby k = Some c"
proof -
  have loop: "c < k \<Longrightarrow> \<exists>c' < k. closest_leaf d nearby k i c dist = Some c'" for i c dist
  proof (induction "k - i" arbitrary: i c dist)
    case 0
    then show ?case by (subst closest_leaf.simps) auto
  next
    case (Suc x)
    then have i: "i < k" by simp
    obtain v where v: "get4 d (8 + i * 4) = Some v" using get4_total [of "8 + i * 4" d] i assms by auto
    show ?case using Suc.hyps(1) [of "i + 1"] Suc.hyps(2) Suc.prems i v
      by (subst closest_leaf.simps) (simp add: Let_def)
  qed
  obtain v where "get4 d 8 = Some v" using get4_total [of 8 d] assms by auto
  then show ?thesis using loop [of 0 1] assms(2) by (simp add: choose_leaf_def)
qed

text \<open>Page 1 after the count of free pages went down.\<close>

lemma alloc_leaf_ok:
  assumes F: "free_list b db ((t, ls) # r)" and ls: "ls \<noteq> []"
    and db1: "db1 = (set_page db 1 (P4 (db_page db 1) 36 (length (free_pages ((t, ls) # r)) - 1)))\<lparr>db_calls := m\<rparr>"
  shows "\<exists>rc db' p. alloc_leaf pg b db1 nearby t (length ls) = Some (rc, db', p) \<and>
    (rc = SQLITE_OK \<longrightarrow> allocated b db ((t, ls) # r) db' p) \<and> (io_ok pg \<longrightarrow> rc = SQLITE_OK)"
proof -
  let ?ts = "(t, ls) # r" and ?k = "length ls"
  note u = usable_bounds [OF F]
  have f: "get4 (db_page db 1) 32 = Some t" "?k \<le> max_leaves b" "get4 (db_page db t) 4 = Some ?k"
    "\<And>i. i < ?k \<Longrightarrow> get4 (db_page db t) (8 + i * 4) = Some (ls ! i)"
    "\<exists>n. get4 (db_page db t) 0 = Some n \<and> trunks (max_leaves b) (db_page db) n r"
    using F by (auto simp: free_list_def)
  have dist: "distinct (t # ls @ free_pages r)" and rng: "\<And>p. p \<in> set (t # ls @ free_pages r) \<Longrightarrow> 2 \<le> p \<and> p \<le> db_nPage db \<and> p \<noteq> PENDING_BYTE_PAGE b"
    using F by (auto simp: free_list_def)
  have t1: "t \<noteq> 1" "t \<noteq> 0" using rng [of t] by auto
  let ?d = "db_page db t"
  have d1: "db_page db1 t = ?d" "db_nPage db1 = db_nPage db" using t1 by (simp_all add: db1 set_page_def)
  have kl: "8 + 4 * ?k \<le> pageSize b" using f(2) u by linarith
  obtain c where c: "c < ?k" "choose_leaf ?d nearby ?k = Some c" using choose_leaf_ok [of ?k ?d nearby] kl u(5) ls by auto
  let ?p = "ls ! c"
  have p: "2 \<le> ?p" "?p \<le> db_nPage db" "?p \<noteq> PENDING_BYTE_PAGE b" "?p \<noteq> t" using rng [of ?p] c(1) dist by auto
  obtain r1 n1 where r1: "pager_call pg db1 = (r1, db1\<lparr>db_calls := n1\<rparr>)" "io_ok pg \<longrightarrow> r1 = SQLITE_OK" by (rule pager_call_cases)
  show ?thesis
  proof (cases "r1 = SQLITE_OK")
    case False
    then show ?thesis using r1 c f(4) [OF c(1)] d1 p(2) by (auto simp: alloc_leaf_def Let_def)
  next
    case True
    define e where "e = (if c < ?k - 1 then ov ?d (8 + c * 4) (take 4 (drop (4 + ?k * 4) ?d)) else ?d)"
    define d2 where "d2 = P4 e 4 (?k - 1)"
    have le: "length e = pageSize b" "length d2 = pageSize b" using kl u(5) c(1) by (auto simp: e_def d2_def)
    have e: "(if c < ?k - 1 then do { bs \<leftarrow> get_bytes ?d (4 + ?k * 4) 4; blit ?d (8 + c * 4) bs } else Some ?d) = Some e"
      using kl u(5) c(1) by (auto simp: e_def get_bytes_Some blit_ov)
    have d2: "put4 e 4 (?k - 1) = Some d2" using le(1) kl ls by (simp add: put4_P4 d2_def)
    have ge: "get4 e a = get4 ?d a" if "a + 4 \<le> 8" for a
      using that kl u(5) c(1) ls by (auto simp: e_def intro!: get4_copy_other)
    have lf: "get4 d2 (8 + i * 4) = Some (without_leaf ls c ! i)" if i: "i < ?k - 1" for i
    proof -
      have "get4 d2 (8 + i * 4) = get4 e (8 + i * 4)" unfolding d2_def using i kl le(1) by (intro get4_P4_other) auto
      also have "\<dots> = Some (without_leaf ls c ! i)"
      proof (cases "i = c")
        case True
        then have "get4 e (8 + i * 4) = get4 ?d (4 + ?k * 4)" using i kl u(5) by (simp add: e_def get4_copy)
        also have "4 + ?k * 4 = 8 + (?k - 1) * 4" using ls by (cases ls) auto
        finally show ?thesis using True i f(4) [of "?k - 1"] ls by (simp add: nth_without_leaf last_conv_nth)
      next
        case False
        have "get4 e (8 + i * 4) = get4 ?d (8 + i * 4)"
          using i False kl u(5) c(1) by (auto simp: e_def intro!: get4_copy_other)
        then show ?thesis using False i f(4) [of i] by (simp add: nth_without_leaf)
      qed
      finally show ?thesis .
    qed
    let ?db2 = "set_page (db1\<lparr>db_calls := n1\<rparr>) t d2"
    have "?p \<noteq> 0" "\<forall>q. length (db_page ?db2 q) = pageSize b" using p(1) le u(2,3,5) ls by (auto simp: set_page_def db1)
    then obtain r2 n2 pd where r2: "btreeGetPage pg b ?db2 ?p True = (r2, (set_page ?db2 ?p pd)\<lparr>db_calls := n2\<rparr>)" "io_ok pg \<longrightarrow> r2 = SQLITE_OK"
      "length pd = pageSize b" by (rule get_new_page_cases)
    define db3 where "db3 = set_page ?db2 ?p pd"
    have A: "allocated b db ?ts db3 ?p"
    proof -
      let ?ts' = "(t, without_leaf ls c) # r"
      note wl = without_leaf [OF c(1)]
      have dl: "distinct ls" using dist by simp
      have pg: "db_page db3 q = (if q = ?p then pd else if q = t then d2 else if q = 1 then P4 (db_page db 1) 36 (length (free_pages ?ts) - 1) else db_page db q)" for q
        by (simp add: db3_def set_page_def db1)
      have cnt: "length (free_pages ?ts) < 2 ^ 32" using free_list_count [OF F] F by (simp add: free_list_def)
      have h: "get4 (db_page db3 1) 28 = Some (db_nPage db)" "get4 (db_page db3 1) 32 = Some t"
        "get4 (db_page db3 1) 36 = Some (length (free_pages ?ts'))"
      proof -
        have e1: "db_page db3 1 = P4 (db_page db 1) 36 (length (free_pages ?ts) - 1)" using pg [of 1] p(1) t1 by simp
        show "get4 (db_page db3 1) 28 = Some (db_nPage db)" unfolding e1 using F u by (subst get4_P4_other) (auto simp: free_list_def)
        show "get4 (db_page db3 1) 32 = Some t" unfolding e1 using f(1) u by (subst get4_P4_other) auto
        have "get4 (db_page db3 1) 36 = Some (length (free_pages ?ts) - 1)" unfolding e1 using u cnt by (intro get4_P4) auto
        then show "get4 (db_page db3 1) 36 = Some (length (free_pages ?ts'))" using wl(3) dl ls by (simp add: Suc_le_eq)
      qed
      have tr: "trunks (max_leaves b) (db_page db3) t ?ts'"
      proof -
        obtain n where n: "get4 ?d 0 = Some n" "trunks (max_leaves b) (db_page db) n r" using f(5) by blast
        have "trunks (max_leaves b) (db_page db3) n r"
        proof (rule trunks_cong [OF n(2)])
          fix x assume "x \<in> fst ` set r"
          then have x: "x \<in> set (free_pages r)" using fst_free_pages by blast
          moreover have "?p \<in> set ls" using c(1) by simp
          ultimately have "x \<noteq> t" "x \<noteq> ?p" "x \<noteq> 1" using dist rng [of x] by auto
          then show "db_page db3 x = db_page db x" by (simp add: pg)
        qed
        moreover have "db_page db3 t = d2" using p(4) by (simp add: pg)
        moreover have "get4 d2 4 = Some (?k - 1)" unfolding d2_def using le(1) kl f(2) cnt ls by (intro get4_P4) auto
        moreover have "get4 d2 0 = Some n" unfolding d2_def using le(1) kl ls n(1) ge [of 0] by (subst get4_P4_other) auto
        ultimately show ?thesis using t1 f(2) lf wl(3) dl by (simp add: without_leaf)
      qed
      have st: "set (free_pages ?ts') = set (free_pages ?ts) - {?p}" using wl(2) dl dist nth_mem [OF c(1)] p(4) by auto
      have "distinct (free_pages ?ts')" using wl(1,2) dl dist by auto
      moreover have "\<forall>q. length (db_page db3 q) = pageSize b" using r2(3) le u by (simp add: pg)
      moreover have "db_nPage db3 = db_nPage db" by (simp add: db3_def set_page_def db1)
      ultimately have "free_list b db3 ?ts'"
        unfolding free_list_def using h tr st rng F by (auto simp: free_list_def)
      moreover have "same_pages db db3 (insert ?p (set (free_pages ?ts)))"
        unfolding same_pages_def using u t1 p(1) by (auto simp: pg intro!: nth_P4)
      ultimately show ?thesis unfolding allocated_def
        using st c(1) by (intro exI [of _ ?ts']) (auto simp: db3_def set_page_def db1)
    qed
    define r3 where "r3 = (if r2 = SQLITE_OK then pg_rc pg n2 else r2)"
    define n3 where "n3 = (if r2 = SQLITE_OK then n2 + 1 else n2)"
    have call: "(if r2 = SQLITE_OK then pager_call pg (db3\<lparr>db_calls := n2\<rparr>) else (r2, db3\<lparr>db_calls := n2\<rparr>)) = (r3, db3\<lparr>db_calls := n3\<rparr>)"
      by (simp add: pager_call_def r3_def n3_def)
    have r3: "io_ok pg \<longrightarrow> r3 = SQLITE_OK" using r2(2) by (simp add: r3_def io_ok_def)
    have "alloc_leaf pg b db1 nearby t ?k = Some (end_allocate_page pg (db3\<lparr>db_calls := n3\<rparr>) r3 ?p)"
      using c(2) f(4) [OF c(1)] d1 p(2,3) r1(1) True e d2 r2(1) call unfolding db3_def
      by (simp add: alloc_leaf_def Let_def)
    then show ?thesis using end_alloc [where b = b and db = db and ts = ?ts and db' = db3 and n = n3 and p = ?p and pg = pg and r = r3] A r3 by auto
  qed
qed

lemma alloc_free_ok:
  assumes F: "free_list b db ts" and ts: "ts \<noteq> []"
  shows "\<exists>rc db' p. alloc_free pg b db nearby (length (free_pages ts)) = Some (rc, db', p) \<and>
    (rc = SQLITE_OK \<longrightarrow> allocated b db ts db' p) \<and> (io_ok pg \<longrightarrow> rc = SQLITE_OK)"
proof -
  obtain t ls r where ts: "ts = (t, ls) # r" using ts by (cases ts) auto
  let ?n = "length (free_pages ts)" and ?k = "length ls"
  note u = usable_bounds [OF F]
  have f: "get4 (db_page db 1) 32 = Some t" "?k \<le> max_leaves b" "get4 (db_page db t) 4 = Some ?k"
    "\<exists>n. get4 (db_page db t) 0 = Some n \<and> trunks (max_leaves b) (db_page db) n r"
    using F by (auto simp: free_list_def ts)
  have dist: "distinct (t # ls @ free_pages r)" and rng: "\<And>p. p \<in> set (t # ls @ free_pages r) \<Longrightarrow> 2 \<le> p \<and> p \<le> db_nPage db \<and> p \<noteq> PENDING_BYTE_PAGE b"
    using F by (auto simp: free_list_def ts)
  have t: "t \<noteq> 1" "t \<noteq> 0" "t \<le> db_nPage db" "t \<noteq> PENDING_BYTE_PAGE b" using rng [of t] by auto
  have cnt: "?n < 2 ^ 32" using free_list_count [OF F] F by (simp add: free_list_def)
  define p1 where "p1 = P4 (db_page db 1) 36 (?n - 1)"
  have l1: "length p1 = pageSize b" using u by (simp add: p1_def)
  have g1: "get4 p1 32 = Some t" "get4 p1 36 = Some (?n - 1)" "get4 p1 28 = Some (db_nPage db)"
  proof -
    show "get4 p1 28 = Some (db_nPage db)" unfolding p1_def using F u by (subst get4_P4_other) (auto simp: free_list_def)
    show "get4 p1 32 = Some t" unfolding p1_def using f(1) u by (subst get4_P4_other) auto
    show "get4 p1 36 = Some (?n - 1)" unfolding p1_def using u cnt by (intro get4_P4) auto
  qed
  have put1: "put4 (db_page db 1) 36 (?n - 1) = Some p1" using u by (simp add: put4_P4 p1_def)
  obtain r0 n0 where r0: "pager_call pg db = (r0, db\<lparr>db_calls := n0\<rparr>)" "io_ok pg \<longrightarrow> r0 = SQLITE_OK" by (rule pager_call_cases)
  define db1 where "db1 = set_page (db\<lparr>db_calls := n0\<rparr>) 1 p1"
  have db1: "set_page (db\<lparr>db_calls := n0\<rparr>) (Suc 0) p1 = db1" by (simp add: db1_def)
  obtain r1 n1 where r1: "btreeGetPage pg b db1 t False = (r1, db1\<lparr>db_calls := n1\<rparr>)" "io_ok pg \<longrightarrow> r1 = SQLITE_OK"
    using get_page_cases [OF t(2)] .
  have pt: "db_page db1 t = db_page db t" using t by (simp add: db1_def set_page_def)
  show ?thesis
  proof (cases "r0 = SQLITE_OK \<and> r1 = SQLITE_OK")
    case False
    then show ?thesis using r0 r1 put1 g1 t(3) unfolding alloc_free_def
      by (auto simp: Let_def db1)
  next
    case True
    show ?thesis
    proof (cases "ls = []")
      case False
      have d: "db1\<lparr>db_calls := n1\<rparr> = (set_page db 1 (P4 (db_page db 1) 36 (length (free_pages ((t, ls) # r)) - 1)))\<lparr>db_calls := n1\<rparr>"
        by (simp add: db1_def set_page_def p1_def ts)
      have "\<not> usableSize b div 4 - 2 < ?k" using f(2) by (simp add: max_leaves_def)
      then have eq: "alloc_free pg b db nearby ?n = alloc_leaf pg b (db1\<lparr>db_calls := n1\<rparr>) nearby t ?k"
        using r0(1) r1(1) True put1 g1 t(3) pt f(3) False unfolding alloc_free_def by (simp add: Let_def db1)
      show ?thesis using alloc_leaf_ok [OF F [unfolded ts] False d, of pg nearby] unfolding eq unfolding ts by blast
    next
      case leaf: True
      obtain r2 n2 where r2: "pager_call pg (db1\<lparr>db_calls := n1\<rparr>) = (r2, db1\<lparr>db_calls := n1, db_calls := n2\<rparr>)"
        "io_ok pg \<longrightarrow> r2 = SQLITE_OK" by (rule pager_call_cases)
      obtain nx where nx: "get4 (db_page db t) 0 = Some nx" "trunks (max_leaves b) (db_page db) nx r" using f(4) by blast
      define p2 where "p2 = ov p1 32 (take 4 (drop 0 (db_page db t)))"
      have l2: "length p2 = pageSize b" using l1 u by (simp add: p2_def)
      have bl: "get_bytes (db_page db t) 0 4 = Some (take 4 (db_page db t))" "blit p1 32 (take 4 (db_page db t)) = Some p2"
        using l1 u by (simp_all add: get_bytes_Some blit_ov p2_def)
      define db2 where "db2 = set_page (db1\<lparr>db_calls := n2\<rparr>) 1 p2"
      have pg: "db_page db2 q = (if q = 1 then p2 else db_page db q)" for q by (simp add: db2_def db1_def set_page_def)
      have A: "allocated b db ts db2 t"
      proof -
        have "get4 (db_page db2 1) 32 = Some nx"
          using get4_copy [of 0 "db_page db t" 32 p1] u l1 nx(1) by (simp add: pg p2_def)
        moreover have "get4 (db_page db2 1) 36 = Some (length (free_pages r))" "get4 (db_page db2 1) 28 = Some (db_nPage db)"
          using g1(2,3) l1 u leaf by (simp_all add: pg p2_def get4_copy_other ts)
        moreover have "trunks (max_leaves b) (db_page db2) nx r"
        proof (rule trunks_cong [OF nx(2)])
          fix x assume "x \<in> fst ` set r"
          then have "x \<in> set (free_pages r)" using fst_free_pages by blast
          then show "db_page db2 x = db_page db x" using rng [of x] by (auto simp: pg)
        qed
        moreover have "\<forall>q. length (db_page db2 q) = pageSize b" using u l2 by (simp add: pg)
        moreover have np: "db_nPage db2 = db_nPage db" by (simp add: db2_def db1_def set_page_def)
        ultimately have "free_list b db2 r" using F dist rng by (auto simp: free_list_def ts)
        moreover have "same_pages db db2 (insert t (set (free_pages ts)))"
          using u l1 by (auto simp: same_pages_def pg p2_def nth_ov p1_def nth_P4)
        moreover have "set (free_pages r) = set (free_pages ts) - {t}" using dist leaf by (auto simp: ts)
        moreover have "t \<in> set (free_pages ts)" "ts \<noteq> []" by (simp_all add: ts)
        ultimately show ?thesis unfolding allocated_def using np by (simp only: if_False) blast
      qed
      have q1: "db_page db1 (Suc 0) = p1" by (simp add: db1_def set_page_def)
      have "alloc_free pg b db nearby ?n =
        (if r2 \<noteq> SQLITE_OK then Some (r2, db1\<lparr>db_calls := n2\<rparr>, 0) else Some (end_allocate_page pg db2 SQLITE_OK t))"
        using r0(1) r1(1) True put1 g1(1) t(3,4) pt f(3) leaf r2(1) bl q1
        unfolding alloc_free_def db2_def by (simp add: Let_def db1)
      moreover have "db2 = db2\<lparr>db_calls := n2\<rparr>" by (simp add: db2_def set_page_def)
      ultimately show ?thesis
        using end_alloc [where b = b and db = db and ts = ts and db' = db2 and n = n2 and p = t and pg = pg and r = SQLITE_OK] A r2(2) by auto
    qed
  qed
qed

lemma alloc_new_ok:
  assumes F: "free_list b db []" and room: "db_nPage db + 2 < 2 ^ 32"
  shows "\<exists>rc db' p. alloc_new pg b db = Some (rc, db', p) \<and> (rc = SQLITE_OK \<longrightarrow> allocated b db [] db' p) \<and> (io_ok pg \<longrightarrow> rc = SQLITE_OK)"
proof -
  note u = usable_bounds [OF F]
  let ?n = "next_page b db"
  have n: "(let n = (db_nPage db + 1) mod 2 ^ 32 in if n = PENDING_BYTE_PAGE b then n + 1 else n) = ?n"
    using room by (simp add: next_page_def)
  have nb: "?n \<noteq> PENDING_BYTE_PAGE b" "?n \<noteq> 0" "?n \<noteq> 1" "?n < 2 ^ 32" "db_nPage db < ?n"
    using room F by (auto simp: next_page_def free_list_def)
  define p1 where "p1 = P4 (db_page db 1) 28 ?n"
  have p1: "put4 (db_page db 1) 28 ?n = Some p1" "length p1 = pageSize b" using u by (simp_all add: put4_P4 p1_def)
  obtain r0 n0 where r0: "pager_call pg db = (r0, db\<lparr>db_calls := n0\<rparr>)" "io_ok pg \<longrightarrow> r0 = SQLITE_OK" by (rule pager_call_cases)
  define db1 where "db1 = set_page (db\<lparr>db_calls := n0, db_nPage := ?n\<rparr>) 1 p1"
  have db1: "set_page (db\<lparr>db_calls := n0, db_nPage := ?n\<rparr>) (Suc 0) p1 = db1" by (simp add: db1_def)
  have "\<forall>q. length (db_page db1 q) = pageSize b" using u p1 by (simp add: db1_def set_page_def)
  with nb(2) obtain r1 n1 d where r1: "btreeGetPage pg b db1 ?n True = (r1, (set_page db1 ?n d)\<lparr>db_calls := n1\<rparr>)"
    "io_ok pg \<longrightarrow> r1 = SQLITE_OK" "length d = pageSize b" by (rule get_new_page_cases)
  define db2 where "db2 = set_page db1 ?n d"
  obtain r2 n2 where r2: "pager_call pg (db2\<lparr>db_calls := n1\<rparr>) = (r2, db2\<lparr>db_calls := n1, db_calls := n2\<rparr>)"
    "io_ok pg \<longrightarrow> r2 = SQLITE_OK" by (rule pager_call_cases)
  have pg: "db_page db2 q = (if q = ?n then d else if q = 1 then p1 else db_page db q)" for q by (simp add: db2_def db1_def set_page_def)
  have A: "allocated b db [] db2 ?n"
  proof -
    have "get4 (db_page db2 1) 32 = Some 0" "get4 (db_page db2 1) 36 = Some 0" "get4 (db_page db2 1) 28 = Some ?n"
      using F u nb(3,4) by (auto simp: pg p1_def get4_P4_other get4_P4 free_list_def)
    moreover have "\<forall>q. length (db_page db2 q) = pageSize b" using u p1 r1(3) by (simp add: pg)
    moreover have np: "db_nPage db2 = ?n" by (simp add: db2_def db1_def set_page_def)
    ultimately have "free_list b db2 []" using u(1) nb by (simp add: free_list_def)
    moreover have "same_pages db db2 (insert ?n (set (free_pages [])))"
      using u nb(3) by (auto simp: same_pages_def pg p1_def nth_P4)
    ultimately show ?thesis unfolding allocated_def using np by auto
  qed
  have "alloc_new pg b db = (if r0 \<noteq> SQLITE_OK then Some (r0, db\<lparr>db_calls := n0\<rparr>, 0)
      else if r1 \<noteq> SQLITE_OK then Some (r1, db2\<lparr>db_calls := n1\<rparr>, ?n)
      else Some (end_allocate_page pg (db2\<lparr>db_calls := n2\<rparr>) r2 ?n))"
    using r0(1) r1(1) r2(1) p1(1) n nb(1) unfolding alloc_new_def db2_def by (simp add: Let_def db1)
  then show ?thesis
    using end_alloc [where b = b and db = db and ts = "[]" and db' = db2 and n = n2 and p = "?n" and pg = pg and r = r2] A r0(2) r1(2) r2(2)
    by auto
qed

theorem allocateBtreePage_ok:
  assumes F: "free_list b db ts" and room: "db_nPage db + 2 < 2 ^ 32"
  shows "\<exists>rc db' p. allocateBtreePage pg b db nearby = Some (rc, db', p) \<and> (rc = SQLITE_OK \<longrightarrow> allocated b db ts db' p) \<and>
    (io_ok pg \<longrightarrow> rc = SQLITE_OK)"
proof -
  have "get4 (db_page db 1) 36 = Some (length (free_pages ts))" using F by (simp add: free_list_def)
  moreover have "\<not> db_nPage db \<le> length (free_pages ts)" using free_list_count [OF F] by simp
  moreover have "0 < length (free_pages ts) \<longleftrightarrow> ts \<noteq> []" by (cases ts rule: free_pages.cases) auto
  ultimately show ?thesis using alloc_free_ok [OF F] alloc_new_ok [OF _ room] F
    by (cases "ts = []") (auto simp: allocateBtreePage_def)
qed

end
