(* ===== verification/BtFreePage.thy ===== *)
theory BtFreePage
  imports BtAllocPage
begin

text \<open>The correctness of \<^verbatim>\<open>freePage2\<close>, and the pages of the file over a history of both operations.\<close>

section \<open>Release\<close>

text \<open>The contract of a release.\<close>

definition released :: "BtShared \<Rightarrow> Db \<Rightarrow> (nat \<times> nat list) list \<Rightarrow> nat \<Rightarrow> Db \<Rightarrow> bool" where
  "released b db ts p db' \<longleftrightarrow> (\<exists>ts'. free_list b db' ts' \<and> set (free_pages ts') = insert p (set (free_pages ts)) \<and>
     same_pages db db' (insert p (set (free_pages ts))) \<and> db_nPage db' = db_nPage db)"

lemma released_calls [simp]: "released b db ts p (db'\<lparr>db_calls := n\<rparr>) = released b db ts p db'"
  by (simp add: released_def same_pages_def)

text \<open>
  The state after the count of free pages went up and the page, under \<^verbatim>\<open>secure_delete\<close>, was zeroed.
\<close>

definition counted :: "BtShared \<Rightarrow> Db \<Rightarrow> (nat \<times> nat list) list \<Rightarrow> nat \<Rightarrow> Db \<Rightarrow> bool" where
  "counted b db ts p db' \<longleftrightarrow> db_nPage db' = db_nPage db \<and> (\<forall>q. q \<noteq> p \<longrightarrow> q \<noteq> 1 \<longrightarrow> db_page db' q = db_page db q) \<and>
     db_page db' 1 = P4 (db_page db 1) 36 (length (free_pages ts) + 1) \<and> length (db_page db' p) = pageSize b"

lemma counted_calls [simp]: "counted b db ts p (db'\<lparr>db_calls := n\<rparr>) = counted b db ts p db'"
  by (simp add: counted_def)

lemma counted_facts:
  assumes F: "free_list b db ts" and C: "counted b db ts p db1" and p: "2 \<le> p" "p \<notin> set (free_pages ts)"
  shows "length (db_page db1 q) = pageSize b" "get4 (db_page db1 1) 36 = Some (length (free_pages ts) + 1)"
    "get4 (db_page db1 1) 32 = get4 (db_page db 1) 32" "t \<in> set (free_pages ts) \<Longrightarrow> db_page db1 t = db_page db t"
    "i < length (db_page db 1) \<Longrightarrow> i \<notin> {28..<40} \<Longrightarrow> db_page db1 1 ! i = db_page db 1 ! i"
    "get4 (db_page db1 1) 28 = Some (db_nPage db)"
proof -
  note u = usable_bounds [OF F]
  have p1: "db_page db1 1 = P4 (db_page db 1) 36 (length (free_pages ts) + 1)" using C by (simp add: counted_def)
  have rng: "\<And>p. p \<in> set (free_pages ts) \<Longrightarrow> 2 \<le> p" using F by (auto simp: free_list_def)
  show "length (db_page db1 q) = pageSize b"
    using C u by (cases "q = 1"; cases "q = p") (simp_all add: counted_def)
  have "length (free_pages ts) + 1 < 2 ^ 32" using free_list_count [OF F] F by (simp add: free_list_def)
  then show "get4 (db_page db1 1) 36 = Some (length (free_pages ts) + 1)" unfolding p1 using u by (intro get4_P4) auto
  show "get4 (db_page db1 1) 32 = get4 (db_page db 1) 32" unfolding p1 using u by (intro get4_P4_other) auto
  show "t \<in> set (free_pages ts) \<Longrightarrow> db_page db1 t = db_page db t" using C p rng [of t] by (auto simp: counted_def)
  show "i < length (db_page db 1) \<Longrightarrow> i \<notin> {28..<40} \<Longrightarrow> db_page db1 1 ! i = db_page db 1 ! i"
    unfolding p1 using u by (intro nth_P4) auto
  show "get4 (db_page db1 1) 28 = Some (db_nPage db)" unfolding p1 using F u by (subst get4_P4_other) (auto simp: free_list_def)
qed

lemma free_leaf_ok:
  assumes F: "free_list b db ((t, ls) # r)" and C: "counted b db ((t, ls) # r) p db1"
    and p: "2 \<le> p" "p \<le> db_nPage db" "p \<noteq> PENDING_BYTE_PAGE b" "p \<notin> set (free_pages ((t, ls) # r))"
    and room: "length ls < usableSize b div 4 - 8"
  shows "\<exists>rc db'. free_leaf pg db1 p t (length ls) = Some (rc, db') \<and> (rc = SQLITE_OK \<longrightarrow> released b db ((t, ls) # r) p db') \<and>
    (io_ok pg \<longrightarrow> rc = SQLITE_OK)"
proof -
  let ?ts = "(t, ls) # r" and ?k = "length ls"
  note u = usable_bounds [OF F] and c = counted_facts [OF F C p(1,4)]
  have f: "get4 (db_page db 1) 32 = Some t" "get4 (db_page db t) 4 = Some ?k"
    "\<And>i. i < ?k \<Longrightarrow> get4 (db_page db t) (8 + i * 4) = Some (ls ! i)"
    "\<exists>n. get4 (db_page db t) 0 = Some n \<and> trunks (max_leaves b) (db_page db) n r"
    using F by (auto simp: free_list_def)
  have dist: "distinct (t # ls @ free_pages r)" and rng: "\<And>p. p \<in> set (t # ls @ free_pages r) \<Longrightarrow> 2 \<le> p \<and> p \<le> db_nPage db \<and> p \<noteq> PENDING_BYTE_PAGE b"
    using F by (auto simp: free_list_def)
  have kl: "12 + 4 * ?k \<le> pageSize b" "?k + 1 \<le> max_leaves b" "?k + 1 < 2 ^ 32" "p < 2 ^ 32"
  proof -
    show "12 + 4 * ?k \<le> pageSize b" "?k + 1 \<le> max_leaves b" using room u by (simp_all add: max_leaves_def)
    have "db_nPage db < 2 ^ 32" using F by (simp add: free_list_def)
    then show "?k + 1 < 2 ^ 32" "p < 2 ^ 32" using free_list_count [OF F] p(2) by simp_all
  qed
  have pt: "db_page db1 t = db_page db t" using c(4) [of t] by simp
  obtain r1 n1 where r1: "pager_call pg db1 = (r1, db1\<lparr>db_calls := n1\<rparr>)" "io_ok pg \<longrightarrow> r1 = SQLITE_OK" by (rule pager_call_cases)
  define d1 where "d1 = P4 (db_page db1 t) 4 (?k + 1)"
  define d2 where "d2 = P4 d1 (8 + ?k * 4) p"
  have l: "length d1 = pageSize b" "length d2 = pageSize b" using kl c(1) by (simp_all add: d1_def d2_def)
  have puts: "put4 (db_page db1 t) 4 (?k + 1) = Some d1" "put4 d1 (8 + ?k * 4) p = Some d2"
    using kl c(1) l by (simp_all add: put4_P4 d1_def d2_def)
  define db2 where "db2 = set_page db1 t d2"
  obtain r2 n2 where r2: "pager_call pg (set_page (db1\<lparr>db_calls := n1\<rparr>) t d2) = (r2, db2\<lparr>db_calls := n2\<rparr>)" "io_ok pg \<longrightarrow> r2 = SQLITE_OK"
  proof -
    obtain r n where "pager_call pg (set_page (db1\<lparr>db_calls := n1\<rparr>) t d2) = (r, (set_page (db1\<lparr>db_calls := n1\<rparr>) t d2)\<lparr>db_calls := n\<rparr>)"
      "io_ok pg \<longrightarrow> r = SQLITE_OK" by (rule pager_call_cases)
    then show thesis by (intro that [of r n]) (simp_all add: db2_def set_page_def)
  qed
  have eq: "free_leaf pg db1 p t ?k = (if r1 = SQLITE_OK then Some (r2, db2\<lparr>db_calls := n2\<rparr>) else Some (r1, db1\<lparr>db_calls := n1\<rparr>))"
    using r1(1) r2(1) puts by (simp add: free_leaf_def)
  have "released b db ?ts p db2"
  proof -
    let ?ts' = "(t, ls @ [p]) # r"
    have pg: "db_page db2 q = (if q = t then d2 else db_page db1 q)" for q by (simp add: db2_def set_page_def)
    have t1: "t \<noteq> 1" "0 < t" using rng [of t] by auto
    have old: "get4 d2 a = get4 (db_page db t) a" if "a + 4 \<le> 4 \<or> 8 \<le> a \<and> a + 4 \<le> 8 + ?k * 4" for a
    proof -
      have "get4 d2 a = get4 d1 a" unfolding d2_def using that kl l by (intro get4_P4_other) auto
      also have "\<dots> = get4 (db_page db1 t) a" unfolding d1_def using that kl c(1) by (intro get4_P4_other) auto
      finally show ?thesis by (simp add: pt)
    qed
    have cnt: "get4 d2 4 = Some (?k + 1)"
    proof -
      have "get4 d2 4 = get4 d1 4" unfolding d2_def using kl l by (intro get4_P4_other) auto
      also have "\<dots> = Some (?k + 1)" unfolding d1_def using kl c(1) by (intro get4_P4) auto
      finally show ?thesis .
    qed
    have leaf: "get4 d2 (8 + i * 4) = Some ((ls @ [p]) ! i)" if "i < length (ls @ [p])" for i
    proof (cases "i < ?k")
      case True
      then show ?thesis using old [of "8 + i * 4"] f(3) [OF True] by (simp add: nth_append)
    next
      case False
      then have "i = ?k" using that by simp
      then show ?thesis unfolding d2_def using kl l by (simp add: get4_P4)
    qed
    obtain n where n: "get4 (db_page db t) 0 = Some n" "trunks (max_leaves b) (db_page db) n r" using f(4) by blast
    have "trunks (max_leaves b) (db_page db2) n r"
    proof (rule trunks_cong [OF n(2)])
      fix x assume "x \<in> fst ` set r"
      then have x: "x \<in> set (free_pages r)" using fst_free_pages by blast
      then show "db_page db2 x = db_page db x" using dist c(4) [of x] by (auto simp: pg)
    qed
    moreover have "get4 d2 0 = Some n" using old [of 0] n(1) by simp
    ultimately have tr: "trunks (max_leaves b) (db_page db2) t ?ts'"
      using t1 kl(2) cnt leaf by (simp add: pg)
    have st: "set (free_pages ?ts') = insert p (set (free_pages ?ts))" by auto
    have "distinct (free_pages ?ts')" using dist p(4) by auto
    moreover have "get4 (db_page db2 1) 36 = Some (length (free_pages ?ts'))" "get4 (db_page db2 1) 32 = Some t"
      "get4 (db_page db2 1) 28 = Some (db_nPage db)"
      using c(2,3,6) f(1) t1 by (simp_all add: pg)
    moreover have "\<forall>q. length (db_page db2 q) = pageSize b" using l c(1) by (simp add: pg)
    moreover have np: "db_nPage db2 = db_nPage db" using C by (simp add: db2_def set_page_def counted_def)
    ultimately have "free_list b db2 ?ts'"
      unfolding free_list_def using st tr rng p F by (auto simp: free_list_def)
    moreover have "same_pages db db2 (insert p (set (free_pages ?ts)))"
      using c(5) C t1 by (auto simp: same_pages_def pg counted_def)
    ultimately show ?thesis unfolding released_def using st np by blast
  qed
  then show ?thesis unfolding eq using r1(2) r2(2) by auto
qed

lemma free_trunk_ok:
  assumes F: "free_list b db ts" and C: "counted b db ts p db1"
    and p: "2 \<le> p" "p \<le> db_nPage db" "p \<noteq> PENDING_BYTE_PAGE b" "p \<notin> set (free_pages ts)"
    and t: "get4 (db_page db 1) 32 = Some t"
  shows "\<exists>rc db'. free_trunk pg b db1 held p t = Some (rc, db') \<and> (rc = SQLITE_OK \<longrightarrow> released b db ts p db') \<and>
    (io_ok pg \<longrightarrow> rc = SQLITE_OK)"
proof -
  note u = usable_bounds [OF F] and c = counted_facts [OF F C p(1,4)]
  have f: "trunks (max_leaves b) (db_page db) t ts" using F t by (auto simp: free_list_def)
  have rng: "\<And>p. p \<in> set (free_pages ts) \<Longrightarrow> 2 \<le> p \<and> p \<le> db_nPage db \<and> p \<noteq> PENDING_BYTE_PAGE b" using F by (auto simp: free_list_def)
  have t32: "t < 2 ^ 32" "p < 2 ^ 32"
    using f rng [of t] F p(2) by (auto simp: free_list_def elim: trunks.elims)
  have p01: "p \<noteq> 0" "p \<noteq> 1" using p by auto
  obtain r0 n0 where r0: "(if held then (SQLITE_OK, db1) else btreeGetPage pg b db1 p False) = (r0, db1\<lparr>db_calls := n0\<rparr>)"
    "io_ok pg \<longrightarrow> r0 = SQLITE_OK"
  proof (cases held)
    case True
    then show thesis by (intro that [of SQLITE_OK "db_calls db1"]) simp_all
  next
    case False
    obtain r n where "btreeGetPage pg b db1 p False = (r, db1\<lparr>db_calls := n\<rparr>)" "io_ok pg \<longrightarrow> r = SQLITE_OK"
      using get_page_cases [OF p01(1)] .
    then show thesis using False by (intro that [of r n]) simp_all
  qed
  obtain r1 n1 where r1: "pager_call pg (db1\<lparr>db_calls := n0\<rparr>) = (r1, db1\<lparr>db_calls := n0, db_calls := n1\<rparr>)" "io_ok pg \<longrightarrow> r1 = SQLITE_OK"
    by (rule pager_call_cases)
  define d1 where "d1 = P4 (db_page db1 p) 0 t"
  define d2 where "d2 = P4 d1 4 0"
  define p1 where "p1 = P4 (db_page db1 1) 32 p"
  have l: "length d1 = pageSize b" "length d2 = pageSize b" "length p1 = pageSize b" using u c(1) by (simp_all add: d1_def d2_def p1_def)
  have puts: "put4 (db_page db1 p) 0 t = Some d1" "put4 d1 4 0 = Some d2" "put4 (db_page db1 1) 32 p = Some p1"
    using u c(1) l by (simp_all add: put4_P4 d1_def d2_def p1_def)
  define db2 where "db2 = set_page (set_page (db1\<lparr>db_calls := n1\<rparr>) p d2) 1 p1"
  have eq: "free_trunk pg b db1 held p t =
      (if r0 \<noteq> SQLITE_OK then Some (r0, db1\<lparr>db_calls := n0\<rparr>) else if r1 \<noteq> SQLITE_OK then Some (r1, db1\<lparr>db_calls := n1\<rparr>)
       else Some (SQLITE_OK, db2))"
  proof -
    have "db_page (set_page (db1\<lparr>db_calls := n1\<rparr>) p d2) 1 = db_page db1 1" using p01 by (simp add: set_page_def)
    then show ?thesis using r0(1) r1(1) puts unfolding free_trunk_def db2_def by (simp add: Let_def)
  qed
  have "released b db ts p db2"
  proof -
    let ?ts' = "(p, []) # ts"
    have pg: "db_page db2 q = (if q = 1 then p1 else if q = p then d2 else db_page db1 q)" for q
      by (simp add: db2_def set_page_def)
    have g: "get4 d2 4 = Some 0" "get4 d2 0 = Some t"
    proof -
      show "get4 d2 4 = Some 0" unfolding d2_def using l u by (intro get4_P4) auto
      have "get4 d2 0 = get4 d1 0" unfolding d2_def using l u by (intro get4_P4_other) auto
      also have "\<dots> = Some t" unfolding d1_def using c(1) u t32 by (intro get4_P4) auto
      finally show "get4 d2 0 = Some t" .
    qed
    have "trunks (max_leaves b) (db_page db2) t ts"
    proof (rule trunks_cong [OF f])
      fix x assume "x \<in> fst ` set ts"
      then have x: "x \<in> set (free_pages ts)" using fst_free_pages by blast
      then have "x \<noteq> 1" "x \<noteq> p" using rng [of x] p(4) by auto
      then show "db_page db2 x = db_page db x" using c(4) [OF x] by (simp add: pg)
    qed
    then have tr: "trunks (max_leaves b) (db_page db2) p ?ts'" using g p01 by (simp add: pg)
    have "get4 (db_page db2 1) 36 = Some (length (free_pages ?ts'))" "get4 (db_page db2 1) 28 = Some (db_nPage db)"
      using c(1,2,6) u by (simp_all add: pg p1_def get4_P4_other)
    moreover have "get4 (db_page db2 1) 32 = Some p" using c(1) u t32 by (simp add: pg p1_def get4_P4)
    moreover have "\<forall>q. length (db_page db2 q) = pageSize b" using l c(1) by (simp add: pg)
    moreover have np: "db_nPage db2 = db_nPage db" using C by (simp add: db2_def set_page_def counted_def)
    ultimately have "free_list b db2 ?ts'"
      unfolding free_list_def using tr rng p F by (auto simp: free_list_def)
    moreover have "same_pages db db2 (insert p (set (free_pages ts)))"
    proof -
      have "p1 ! i = db_page db 1 ! i" if i: "i < length (db_page db 1)" "i \<notin> {28..<40}" for i
      proof -
        have "p1 ! i = db_page db1 1 ! i" unfolding p1_def using i c(1) u by (intro nth_P4) auto
        then show ?thesis using c(5) [OF i] by simp
      qed
      then show ?thesis using C by (auto simp: same_pages_def pg counted_def)
    qed
    moreover have "set (free_pages ?ts') = insert p (set (free_pages ts))" by simp
    ultimately show ?thesis unfolding released_def using np by blast
  qed
  then show ?thesis unfolding eq using r0(2) r1(2) by auto
qed

theorem freePage2_ok:
  assumes F: "free_list b db ts" and p: "2 \<le> p" "p \<le> db_nPage db" "p \<noteq> PENDING_BYTE_PAGE b" "p \<notin> set (free_pages ts)"
  shows "\<exists>rc db'. freePage2 pg b db held p = Some (rc, db') \<and> (rc = SQLITE_OK \<longrightarrow> released b db ts p db') \<and> (io_ok pg \<longrightarrow> rc = SQLITE_OK)"
proof -
  let ?n = "length (free_pages ts)"
  note u = usable_bounds [OF F]
  have cnt: "get4 (db_page db 1) 36 = Some ?n" using F by (simp add: free_list_def)
  define p1 where "p1 = P4 (db_page db 1) 36 (?n + 1)"
  have p1: "put4 (db_page db 1) 36 (?n + 1) = Some p1" "length p1 = pageSize b" using u by (simp_all add: put4_P4 p1_def)
  have p01: "p \<noteq> 0" "p \<noteq> 1" using p by auto
  obtain r0 n0 where r0: "pager_call pg db = (r0, db\<lparr>db_calls := n0\<rparr>)" "io_ok pg \<longrightarrow> r0 = SQLITE_OK" by (rule pager_call_cases)
  define db0 where "db0 = set_page (db\<lparr>db_calls := n0\<rparr>) 1 p1"
  have db0: "set_page (db\<lparr>db_calls := n0\<rparr>) (Suc 0) p1 = db0" by (simp add: db0_def)
  have C0: "counted b db ts p db0" using u p01 by (simp add: counted_def db0_def set_page_def p1_def)
  obtain r1 db1 where r1: "secure_zero pg b db0 held p = (r1, db1)"
    "io_ok pg \<longrightarrow> r1 = SQLITE_OK" "r1 = SQLITE_OK \<longrightarrow> counted b db ts p db1"
  proof (cases "secure_delete b")
    case False
    then show thesis using C0 by (intro that [of SQLITE_OK db0]) (simp_all add: secure_zero_def)
  next
    case True
    obtain r n where g: "btreeGetPage pg b db0 p False = (r, db0\<lparr>db_calls := n\<rparr>)" "io_ok pg \<longrightarrow> r = SQLITE_OK"
      using get_page_cases [OF p01(1)] .
    define m where "m = (if held then db_calls db0 else n)"
    define s where "s = (if held then SQLITE_OK else r)"
    have a: "(if held then (SQLITE_OK, db0) else btreeGetPage pg b db0 p False) = (s, db0\<lparr>db_calls := m\<rparr>)"
      using g by (simp add: m_def s_def)
    obtain r' n' where w: "pager_call pg (db0\<lparr>db_calls := m\<rparr>) = (r', db0\<lparr>db_calls := m, db_calls := n'\<rparr>)" "io_ok pg \<longrightarrow> r' = SQLITE_OK"
      by (rule pager_call_cases)
    show thesis
    proof (cases "s = SQLITE_OK \<and> r' = SQLITE_OK")
      case True
      then have "secure_zero pg b db0 held p = (SQLITE_OK, set_page (db0\<lparr>db_calls := n'\<rparr>) p (replicate (pageSize b) 0))"
        using a w \<open>secure_delete b\<close> by (simp add: secure_zero_def)
      moreover have "counted b db ts p (set_page (db0\<lparr>db_calls := n'\<rparr>) p (replicate (pageSize b) 0))"
        using C0 p01 by (simp add: counted_def set_page_def)
      ultimately show thesis using \<open>secure_delete b\<close>
        by (intro that [of SQLITE_OK "set_page (db0\<lparr>db_calls := n'\<rparr>) p (replicate (pageSize b) 0)"]) simp_all
    next
      case False
      have s: "io_ok pg \<longrightarrow> s = SQLITE_OK" using g(2) by (simp add: s_def)
      have "secure_zero pg b db0 held p = (if s \<noteq> SQLITE_OK then (s, db0\<lparr>db_calls := m\<rparr>) else (r', db0\<lparr>db_calls := n'\<rparr>))"
        using a w(1) False \<open>secure_delete b\<close> by (auto simp: secure_zero_def)
      then obtain x where "secure_zero pg b db0 held p = (if s \<noteq> SQLITE_OK then s else r', x)" by (cases "s = SQLITE_OK") auto
      then show thesis using \<open>secure_delete b\<close> False s w(2) by (intro that [of "if s \<noteq> SQLITE_OK then s else r'" x]) auto
    qed
  qed
  have eq: "freePage2 pg b db held p =
    (if r0 \<noteq> SQLITE_OK then Some (r0, db\<lparr>db_calls := n0\<rparr>) else if r1 \<noteq> SQLITE_OK then Some (r1, db1)
     else if ?n \<noteq> 0 then do {
       iTrunk \<leftarrow> get4 (db_page db1 1) 32;
       let (rc, db) = btreeGetPage pg b db1 iTrunk False;
       if rc \<noteq> SQLITE_OK then Some (rc, db)
       else do {
         nLeaf \<leftarrow> get4 (db_page db iTrunk) 4;
         assert_that (32 < usableSize b);
         if usableSize b div 4 - 2 < nLeaf then Some (SQLITE_CORRUPT, db)
         else if nLeaf < usableSize b div 4 - 8 then free_leaf pg db p iTrunk nLeaf
         else free_trunk pg b db (held \<or> secure_delete b) p iTrunk } }
     else free_trunk pg b db1 (held \<or> secure_delete b) p 0)"
    using r0(1) cnt p1(1) r1(1) p(1) unfolding freePage2_def by (simp add: Let_def db0)
  show ?thesis
  proof (cases "r0 = SQLITE_OK \<and> r1 = SQLITE_OK")
    case False
    then show ?thesis unfolding eq using r0(2) r1(2) by auto
  next
    case ok: True
    then have C: "counted b db ts p db1" using r1(3) by simp
    note c = counted_facts [OF F C p(1,4)]
    show ?thesis
    proof (cases ts)
      case Nil
      then have "get4 (db_page db 1) 32 = Some 0" using F by (auto simp: free_list_def)
      then show ?thesis unfolding eq using free_trunk_ok [OF F C p, of 0 pg "held \<or> secure_delete b"] ok Nil by simp
    next
      case (Cons x r)
      obtain t ls where x: "x = (t, ls)" by (cases x)
      note ts = Cons [unfolded x]
      have f: "get4 (db_page db 1) 32 = Some t" "length ls \<le> max_leaves b" "get4 (db_page db t) 4 = Some (length ls)" "t \<noteq> 0"
        using F by (auto simp: free_list_def ts)
      obtain r2 n2 where r2: "btreeGetPage pg b db1 t False = (r2, db1\<lparr>db_calls := n2\<rparr>)" "io_ok pg \<longrightarrow> r2 = SQLITE_OK"
        using get_page_cases [OF f(4)] .
      have C2: "counted b db ts p (db1\<lparr>db_calls := n2\<rparr>)" using C by simp
      have pt: "db_page db1 t = db_page db t" using c(4) [of t] by (simp add: ts)
      have eq2: "freePage2 pg b db held p = (if r2 \<noteq> SQLITE_OK then Some (r2, db1\<lparr>db_calls := n2\<rparr>)
          else if length ls < usableSize b div 4 - 8 then free_leaf pg (db1\<lparr>db_calls := n2\<rparr>) p t (length ls)
          else free_trunk pg b (db1\<lparr>db_calls := n2\<rparr>) (held \<or> secure_delete b) p t)"
        unfolding eq using ok c(3) f(1,2,3) r2(1) pt u(2) by (simp add: ts max_leaves_def)
      show ?thesis
        unfolding eq2 using free_leaf_ok [OF F [unfolded ts] C2 [unfolded ts] p(1-3) p(4) [unfolded ts], of pg]
          free_trunk_ok [OF F C2 p f(1), of pg "held \<or> secure_delete b"] r2(2) by (auto simp: ts)
    qed
  qed
qed

end
