(* ===== verification/BtHeader.thy ===== *)
theory BtHeader
  imports BtFreePage
begin

text \<open>
  The header of the database file, the first 100 bytes of page 1: \<^verbatim>\<open>newDatabase\<close> writes it into an empty
  file, the change counter and the meta values are updated there, and \<^verbatim>\<open>lockBtree\<close> reads it when a
  connection begins a transaction.
\<close>

section \<open>Writing\<close>

definition SQLITE_NOTADB :: rc where "SQLITE_NOTADB = 26"

definition zMagicHeader :: "u8 list" where
  "zMagicHeader = map (word_of_nat \<circ> of_char) ''SQLite format 3'' @ [0]"

text \<open>
  \<^verbatim>\<open>newDatabase\<close>. The structure \<open>pP1\<close> of page 1 is a view of the page; the flag \<^verbatim>\<open>BTS_PAGESIZE_FIXED\<close> is
  left out.
\<close>

definition newDatabase :: "Pager \<Rightarrow> BtShared \<Rightarrow> bool \<Rightarrow> bool \<Rightarrow> MemPage \<Rightarrow> Db \<Rightarrow> (rc \<times> MemPage \<times> Db) option" where
  "newDatabase pg b autoVacuum incrVacuum pP1 db =
    (if 0 < db_nPage db then Some (SQLITE_OK, pP1, db)
     else let (rc, db) = pager_call pg db in
     if rc \<noteq> SQLITE_OK then Some (rc, pP1, db)
     else do {
       data \<leftarrow> blit (db_page db 1) 0 zMagicHeader;
       data \<leftarrow> wr data 16 (word_of_nat (pageSize b div 2 ^ 8 mod 256));
       data \<leftarrow> wr data 17 (word_of_nat (pageSize b div 2 ^ 16 mod 256));
       data \<leftarrow> wr data 18 1;
       data \<leftarrow> wr data 19 1;
       assert_that (usableSize b \<le> pageSize b \<and> pageSize b \<le> usableSize b + 255);
       data \<leftarrow> wr data 20 (word_of_nat (pageSize b - usableSize b));
       data \<leftarrow> wr data 21 64;
       data \<leftarrow> wr data 22 32;
       data \<leftarrow> wr data 23 32;
       data \<leftarrow> zero_fill data 24 (100 - 24);
       pP1 \<leftarrow> zeroPage b (pP1\<lparr>aData := data\<rparr>) 13;
       data \<leftarrow> put4 (aData pP1) (36 + 4 * 4) (if autoVacuum then 1 else 0);
       data \<leftarrow> put4 data (36 + 7 * 4) (if incrVacuum then 1 else 0);
       data \<leftarrow> wr data 31 1;
       Some (SQLITE_OK, pP1\<lparr>aData := data\<rparr>, set_page (db\<lparr>db_nPage := 1\<rparr>) 1 data)
     })"

text \<open>\<^verbatim>\<open>pager_write_changecounter\<close>: at every commit that writes page 1. The version number is that of \<^verbatim>\<open>sqlite3.h\<close>.\<close>

definition SQLITE_VERSION_NUMBER :: nat where "SQLITE_VERSION_NUMBER = 3007014"

definition pager_write_changecounter :: "u8 list \<Rightarrow> u8 list \<Rightarrow> u8 list option" where
  "pager_write_changecounter dbFileVers pData = do {
     v \<leftarrow> sqlite3Get4byte dbFileVers;
     let change_counter = unat (v + 1);
     pData \<leftarrow> put4 pData 24 change_counter;
     pData \<leftarrow> put4 pData 92 change_counter;
     put4 pData 96 SQLITE_VERSION_NUMBER }"

section \<open>Reading\<close>

text \<open>
  The fields of \<^verbatim>\<open>BtShared\<close> that \<^verbatim>\<open>lockBtree\<close> sets; \<open>st_page1\<close> says whether \<^verbatim>\<open>pPage1\<close> is set, and
  \<open>st_readOnly\<close> is the bit \<^verbatim>\<open>BTS_READ_ONLY\<close>.
\<close>

record BtState =
  st_bt :: BtShared
  st_page1 :: bool
  st_nPage :: nat
  st_readOnly :: bool
  st_autoVacuum :: bool
  st_incrVacuum :: bool

text \<open>
  \<^verbatim>\<open>sqlite3BtreeUpdateMeta\<close> writes one of the fields behind the header of the list of free pages. That a
  write transaction is open is left to the caller.
\<close>

definition BTREE_INCR_VACUUM :: nat where "BTREE_INCR_VACUUM = 7"

definition sqlite3BtreeUpdateMeta :: "Pager \<Rightarrow> BtState \<Rightarrow> nat \<Rightarrow> u32 \<Rightarrow> Db \<Rightarrow> (rc \<times> BtState \<times> Db) option" where
  "sqlite3BtreeUpdateMeta pg pBt idx iMeta db = do {
     assert_that (1 \<le> idx \<and> idx \<le> 15);
     assert_that (st_page1 pBt);
     let (rc, db) = pager_call pg db;
     if rc \<noteq> SQLITE_OK then Some (rc, pBt, db)
     else do {
       pP1 \<leftarrow> put4 (db_page db 1) (36 + idx * 4) (unat iMeta);
       let db = set_page db 1 pP1;
       if idx = BTREE_INCR_VACUUM then do {
         assert_that (st_autoVacuum pBt \<or> iMeta = 0);
         assert_that (iMeta = 0 \<or> iMeta = 1);
         Some (SQLITE_OK, pBt\<lparr>st_incrVacuum := (iMeta \<noteq> 0)\<rparr>, db)
       } else Some (SQLITE_OK, pBt, db)
     } }"

text \<open>
  What the pager decides: the results of \<^verbatim>\<open>sqlite3PagerSharedLock\<close> and of the read of page 1, the number of
  pages of the file, the result of \<^verbatim>\<open>sqlite3PagerOpenWal\<close> with its \<^verbatim>\<open>isOpen\<close>, and the result of
  \<^verbatim>\<open>sqlite3PagerSetPagesize\<close> with the page size that it sets. \<open>oe_recovery\<close> is the flag
  \<^verbatim>\<open>SQLITE_RecoveryMode\<close> of the connection, \<open>oe_noWal\<close> the bit \<^verbatim>\<open>BTS_NO_WAL\<close>.
\<close>

record OpenEnv =
  oe_lock :: rc
  oe_get :: rc
  oe_nPageFile :: nat
  oe_openWal :: "rc \<times> bool"
  oe_setPagesize :: "nat \<Rightarrow> rc \<times> nat"
  oe_recovery :: bool
  oe_noWal :: bool

text \<open>The checks of the header of a file that is not empty: an early return, or the state to go on with.\<close>

definition page_size_of :: "u8 list \<Rightarrow> u32 option" where
  "page_size_of page1 = do {
     h \<leftarrow> rd page1 16;
     l \<leftarrow> rd page1 17;
     Some (push_bit 8 (ucast h) OR push_bit 16 (ucast l)) }"

definition check_sizes :: "OpenEnv \<Rightarrow> u8 list \<Rightarrow> int \<Rightarrow> BtState \<Rightarrow> ((rc \<times> BtState) + BtState) option" where
  "check_sizes env page1 nPage st = do {
     fraction \<leftarrow> get_bytes page1 21 3;
     psz \<leftarrow> page_size_of page1;
     reserve \<leftarrow> rd page1 20;
     if fraction \<noteq> [64, 32, 32] \<or> (psz - 1) AND psz \<noteq> 0 \<or> 65536 < psz \<or> psz \<le> 256
     then Some (Inl (SQLITE_NOTADB, st\<lparr>st_page1 := False\<rparr>))
     else do {
       assert_that (psz AND 7 = 0);
       let usable = psz - ucast reserve;
       if unat psz \<noteq> pageSize (st_bt st) then
         let (rc, ps) = oe_setPagesize env (unat psz) in
         Some (Inl (rc, st\<lparr>st_bt := (st_bt st)\<lparr>usableSize := unat usable, pageSize := ps\<rparr>\<rparr>))
       else if \<not> oe_recovery env \<and> int (oe_nPageFile env) < nPage then
         Some (Inl (SQLITE_CORRUPT, st\<lparr>st_page1 := False\<rparr>))
       else if usable < 480 then Some (Inl (SQLITE_NOTADB, st\<lparr>st_page1 := False\<rparr>))
       else do {
         av \<leftarrow> get4 page1 (36 + 4 * 4);
         iv \<leftarrow> get4 page1 (36 + 7 * 4);
         Some (Inr (st\<lparr>st_bt := (st_bt st)\<lparr>pageSize := unat psz, usableSize := unat usable\<rparr>,
                       st_autoVacuum := (av \<noteq> 0), st_incrVacuum := (iv \<noteq> 0)\<rparr>))
       }
     } }"

definition check_header :: "OpenEnv \<Rightarrow> u8 list \<Rightarrow> int \<Rightarrow> BtState \<Rightarrow> ((rc \<times> BtState) + BtState) option" where
  "check_header env page1 nPage st = do {
     magic \<leftarrow> get_bytes page1 0 16;
     writeVersion \<leftarrow> rd page1 18;
     readVersion \<leftarrow> rd page1 19;
     if magic \<noteq> zMagicHeader then Some (Inl (SQLITE_NOTADB, st\<lparr>st_page1 := False\<rparr>))
     else do {
       let st = (if 2 < writeVersion then st\<lparr>st_readOnly := True\<rparr> else st);
       if 2 < readVersion then Some (Inl (SQLITE_NOTADB, st\<lparr>st_page1 := False\<rparr>))
       else if readVersion = 2 \<and> \<not> oe_noWal env \<and> fst (oe_openWal env) \<noteq> SQLITE_OK then
         Some (Inl (fst (oe_openWal env), st\<lparr>st_page1 := False\<rparr>))
       else if readVersion = 2 \<and> \<not> oe_noWal env \<and> \<not> snd (oe_openWal env) then Some (Inl (SQLITE_OK, st))
       else check_sizes env page1 nPage st
     } }"

text \<open>
  \<^verbatim>\<open>lockBtree\<close>; \<open>page1 n\<close> is page 1 as the pager shows it when its page size is \<open>n\<close>. The number of pages
  is read into an \<^verbatim>\<open>int\<close>.
\<close>

definition lockBtree :: "OpenEnv \<Rightarrow> (nat \<Rightarrow> u8 list) \<Rightarrow> BtState \<Rightarrow> (rc \<times> BtState) option" where
  "lockBtree env page1 st = do {
     assert_that (\<not> st_page1 st);
     if oe_lock env \<noteq> SQLITE_OK then Some (oe_lock env, st)
     else if oe_get env \<noteq> SQLITE_OK then Some (oe_get env, st)
     else do {
       let d = page1 (pageSize (st_bt st));
       nPageHeader \<leftarrow> sqlite3Get4byte (drop 28 d);
       change \<leftarrow> get_bytes d 24 4;
       validFor \<leftarrow> get_bytes d 92 4;
       let nPage = (if nPageHeader = 0 \<or> change \<noteq> validFor then int (oe_nPageFile env) else sint nPageHeader);
       r \<leftarrow> (if 0 < nPage then check_header env d nPage st else Some (Inr st));
       case r of Inl (rc, st) \<Rightarrow> Some (rc, st)
       | Inr st \<Rightarrow> do {
           let bt = payload_limits (st_bt st);
           assert_that (bt_maxLeaf bt + 23 \<le> pageSize bt - 8);
           Some (SQLITE_OK, st\<lparr>st_bt := bt, st_page1 := True, st_nPage := nat (nPage mod 2 ^ 32)\<rparr>)
         }
     } }"

text \<open>
  The loop of \<^verbatim>\<open>sqlite3BtreeBeginTrans\<close>: \<^verbatim>\<open>lockBtree\<close> until page 1 is set or an error is returned.
  \<^const>\<open>None\<close> also stands for running out of fuel; a file that is not in WAL mode needs two rounds.
\<close>

fun lock_loop :: "nat \<Rightarrow> OpenEnv \<Rightarrow> (nat \<Rightarrow> u8 list) \<Rightarrow> BtState \<Rightarrow> (rc \<times> BtState) option" where
  "lock_loop 0 env page1 st = (if st_page1 st then Some (SQLITE_OK, st) else None)"
| "lock_loop (Suc fuel) env page1 st =
    (if st_page1 st then Some (SQLITE_OK, st)
     else do {
       (rc, st) \<leftarrow> lockBtree env page1 st;
       if rc \<noteq> SQLITE_OK then Some (rc, st) else lock_loop fuel env page1 st
     })"

end
