(* ===== verification/BtOps.thy ===== *)
theory BtOps
  imports BtCell
begin

text \<open>\<^verbatim>\<open>insertCell\<close> and \<^verbatim>\<open>dropCell\<close> insert into and remove from the list of the cells of a page.\<close>

section \<open>Lists with one element more or less\<close>

definition ins_at :: "nat \<Rightarrow> 'a \<Rightarrow> 'a list \<Rightarrow> 'a list" where "ins_at i x xs = take i xs @ x # drop i xs"

definition del_at :: "nat \<Rightarrow> 'a list \<Rightarrow> 'a list" where "del_at i xs = take i xs @ drop (Suc i) xs"

lemma length_ins_at [simp]: "i \<le> length xs \<Longrightarrow> length (ins_at i x xs) = Suc (length xs)"
  by (simp add: ins_at_def)

lemma nth_ins_at:
  "i \<le> length xs \<Longrightarrow> j \<le> length xs \<Longrightarrow> ins_at i x xs ! j = (if j < i then xs ! j else if j = i then x else xs ! (j - 1))"
  by (auto simp: ins_at_def nth_append nth_Cons' min_def)

lemma length_del_at [simp]: "i < length xs \<Longrightarrow> length (del_at i xs) = length xs - 1"
  by (simp add: del_at_def)

lemma nth_del_at: "i < length xs \<Longrightarrow> j < length xs - 1 \<Longrightarrow> del_at i xs ! j = (if j < i then xs ! j else xs ! Suc j)"
  by (auto simp: del_at_def nth_append min_def)

lemma list_all_ins_at: "i \<le> length xs \<Longrightarrow> list_all P xs \<Longrightarrow> P x \<Longrightarrow> list_all P (ins_at i x xs)"
  by (auto simp: ins_at_def list_all_iff dest: in_set_takeD in_set_dropD)

lemma list_all_del_at: "list_all P xs \<Longrightarrow> list_all P (del_at i xs)"
  by (auto simp: del_at_def list_all_iff dest: in_set_takeD in_set_dropD)

lemma csize_ins_at: "csize (ins_at i c cs) = length c + csize cs"
proof -
  have "csize (take i cs) + csize (drop i cs) = csize cs" by (metis append_take_drop_id map_append sum_list_append)
  then show ?thesis by (simp add: ins_at_def)
qed

lemma csize_del_at: "i < length cs \<Longrightarrow> csize (del_at i cs) + length (cs ! i) = csize cs"
proof -
  assume "i < length cs"
  then have "csize cs = csize (take i cs @ cs ! i # drop (Suc i) cs)" by (simp add: id_take_nth_drop [symmetric])
  then show ?thesis by (simp add: del_at_def)
qed

section \<open>The image under an insertion and a removal\<close>

lemma space_cong:
  assumes S: "space hdr u d t fb C" and l: "length d' = length d"
    and k: "\<And>i. i \<notin> C \<Longrightarrow> t \<le> i \<and> i < u \<or> i \<in> {hdr + 1, hdr + 2, hdr + 5, hdr + 6, hdr + 7} \<Longrightarrow> d' ! i = d ! i"
  shows "space hdr u d' t fb C"
proof -
  note sp = S [unfolded space_def]
  have c: "i \<notin> C" if "i < t" for i using that sp by auto
  have h: "d' ! i = d ! i" if "i \<in> {hdr + 1, hdr + 2, hdr + 5, hdr + 6, hdr + 7}" for i
    using that sp by (intro k c) auto
  have g: "g2 d' (hdr + 1) = g2 d (hdr + 1)" "g2 d' (hdr + 5) = g2 d (hdr + 5)" "d' ! (hdr + 7) = d ! (hdr + 7)"
    using h by (simp_all add: g2_def)
  have b: "blocks fb \<subseteq> {t..<u}" using sp chain_blocks [of 4 t u fb] by blast
  have "fl d' (hdr + 1) fb"
  proof (rule fl_move)
    show "fl d (hdr + 1) fb" "chain 4 t u fb" using sp by blast+
    show "d' ! i = d ! i" if "i \<in> blocks fb" for i using that sp b by (intro k) auto
  qed (rule g(1))
  then show ?thesis unfolding space_def using sp g l by simp
qed

lemma ext_ins:
  assumes "length os = length cs" "i \<le> length cs" "j \<le> length cs"
  shows "ext (ins_at i a os) (ins_at i c cs) j =
    (if j < i then ext os cs j else if j = i then {a..<a + length c} else ext os cs (j - 1))"
  using assms by (simp add: ext_def nth_ins_at)

lemma ext_used: "j < length cs \<Longrightarrow> ext os cs j \<subseteq> used os cs"
  by (auto simp: used_def)

lemma used_ins:
  assumes "length os = length cs" "i \<le> length cs"
  shows "used (ins_at i a os) (ins_at i c cs) = used os cs \<union> {a..<a + length c}"
proof
  show "used (ins_at i a os) (ins_at i c cs) \<subseteq> used os cs \<union> {a..<a + length c}"
  proof
    fix x assume "x \<in> used (ins_at i a os) (ins_at i c cs)"
    then obtain j where j: "j \<le> length cs" "x \<in> ext (ins_at i a os) (ins_at i c cs) j"
      using assms by (auto simp: used_def less_Suc_eq_le)
    then show "x \<in> used os cs \<union> {a..<a + length c}"
      using assms ext_ins [OF assms(1,2) j(1), of a c] by (auto simp: used_def split: if_splits)
  qed
  have "ext os cs j \<subseteq> used (ins_at i a os) (ins_at i c cs)" if j: "j < length cs" for j
  proof -
    have "ext os cs j = ext (ins_at i a os) (ins_at i c cs) (if j < i then j else Suc j)"
      using assms j by (subst ext_ins) auto
    moreover have "(if j < i then j else Suc j) < length (ins_at i c cs)" using assms j by auto
    ultimately show ?thesis unfolding used_def by blast
  qed
  moreover have "{a..<a + length c} = ext (ins_at i a os) (ins_at i c cs) i" using assms by (simp add: ext_ins)
  then have "{a..<a + length c} \<subseteq> used (ins_at i a os) (ins_at i c cs)" using assms ext_used [of i "ins_at i c cs" "ins_at i a os"] by simp
  ultimately show "used os cs \<union> {a..<a + length c} \<subseteq> used (ins_at i a os) (ins_at i c cs)"
    by (auto simp: used_def)
qed

lemma apart_ins:
  assumes "length os = length cs" "i \<le> length cs" "apart os cs" "used os cs \<inter> {a..<a + length c} = {}"
  shows "apart (ins_at i a os) (ins_at i c cs)"
  unfolding apart_def
proof (intro allI impI)
  fix j k assume jk: "j < length (ins_at i c cs)" "k < length (ins_at i c cs)" "j \<noteq> k"
  then have l: "j \<le> length cs" "k \<le> length cs" using assms(2) by simp_all
  let ?s = "\<lambda>j. if j < i then j else j - 1"
  have old: "ext (ins_at i a os) (ins_at i c cs) x = ext os cs (?s x) \<and> ?s x < length cs" if "x \<noteq> i" "x \<le> length cs" for x
    using that assms(1,2) by (auto simp: ext_ins)
  have new: "ext (ins_at i a os) (ins_at i c cs) i = {a..<a + length c}" using assms by (simp add: ext_ins)
  have free: "ext os cs x \<inter> {a..<a + length c} = {}" if "x < length cs" for x using ext_used [OF that, of os] assms(4) by blast
  consider "j = i" "k \<noteq> i" | "k = i" "j \<noteq> i" | "j \<noteq> i" "k \<noteq> i" using jk(3) by blast
  then show "ext (ins_at i a os) (ins_at i c cs) j \<inter> ext (ins_at i a os) (ins_at i c cs) k = {}"
  proof cases
    case 1
    then show ?thesis using new old [of k] free [of "?s k"] l by blast
  next
    case 2
    then show ?thesis using new old [of j] free [of "?s j"] l by blast
  next
    case 3
    have "?s j \<noteq> ?s k" using 3 jk(3) by (simp split: if_splits) linarith
    then show ?thesis using 3 old [of j] old [of k] l assms(3) by (simp add: apart_def)
  qed
qed

lemma ext_del:
  assumes "length os = length cs" "i < length cs" "j < length cs - 1"
  shows "ext (del_at i os) (del_at i cs) j = ext os cs (if j < i then j else Suc j)"
  using assms by (simp add: ext_def nth_del_at)

lemma used_del:
  assumes "length os = length cs" "i < length cs" "apart os cs"
  shows "used (del_at i os) (del_at i cs) = used os cs - ext os cs i"
proof
  have e: "ext (del_at i os) (del_at i cs) j = ext os cs (if j < i then j else Suc j)" if "j < length cs - 1" for j
    using ext_del [OF assms(1,2) that] .
  show "used (del_at i os) (del_at i cs) \<subseteq> used os cs - ext os cs i"
  proof
    fix x assume "x \<in> used (del_at i os) (del_at i cs)"
    then obtain j where j: "j < length cs - 1" "x \<in> ext os cs (if j < i then j else Suc j)"
      using assms(1,2) e by (auto simp: used_def)
    define k where "k = (if j < i then j else Suc j)"
    have k: "k < length cs" "k \<noteq> i" "x \<in> ext os cs k" using j assms(2) by (auto simp: k_def)
    then have "ext os cs k \<inter> ext os cs i = {}" using assms(2,3) unfolding apart_def by blast
    then show "x \<in> used os cs - ext os cs i" using k ext_used [OF k(1), of os] by blast
  qed
  show "used os cs - ext os cs i \<subseteq> used (del_at i os) (del_at i cs)"
  proof
    fix x assume x: "x \<in> used os cs - ext os cs i"
    then obtain j where j: "j < length cs" "x \<in> ext os cs j" by (auto simp: used_def)
    then have "j \<noteq> i" using x by auto
    define k where "k = (if j < i then j else j - 1)"
    have k: "k < length cs - 1" "(if k < i then k else Suc k) = j" using j \<open>j \<noteq> i\<close> assms(2) by (auto simp: k_def)
    then have "x \<in> ext (del_at i os) (del_at i cs) k" using e [OF k(1)] j(2) by simp
    then show "x \<in> used (del_at i os) (del_at i cs)" using k(1) assms(2) by (auto simp: used_def)
  qed
qed

lemma apart_del:
  assumes "length os = length cs" "i < length cs" "apart os cs"
  shows "apart (del_at i os) (del_at i cs)"
  using assms unfolding apart_def by (auto simp: ext_del)

end
