(* ===== verification/BtInsert.thy ===== *)
theory BtInsert
  imports BtOps
begin

text \<open>The correctness of \<^verbatim>\<open>insertCell\<close> and \<^verbatim>\<open>dropCell\<close> on a page that represents a list of cells.\<close>

lemma csize_ge: "(\<And>i. i < length cs \<Longrightarrow> 4 \<le> length (cs ! i)) \<Longrightarrow> 4 * length cs \<le> csize cs"
proof (induction cs)
  case (Cons c cs)
  have "4 \<le> length (cs ! i)" if "i < length cs" for i using Cons.prems [of "Suc i"] that by simp
  then have "4 * length cs \<le> csize cs" by (rule Cons.IH)
  moreover have "4 \<le> length c" using Cons.prems [of 0] by simp
  ultimately show ?case by simp
qed simp

lemma page_mx:
  assumes "page_rep b p cs"
  shows "length cs \<le> MX_CELL b" "MX_CELL b \<le> 10921"
proof -
  note w = page_bounds [OF page_repD(1) [OF assms]]
  have "4 * length cs \<le> csize cs" using cell_length(1) [OF page_repD(1,4) [OF assms]] by (rule csize_ge)
  then have "6 * length cs + 8 \<le> pageSize b" using page_repD(5) [OF assms] w(1,3) by linarith
  then show "length cs \<le> MX_CELL b" by (simp add: MX_CELL_def less_eq_div_iff_mult_less_eq)
  show "MX_CELL b \<le> 10921" using w(4) by (simp add: MX_CELL_def)
qed

lemma cell_size_child:
  assumes W: "wf_page b p" and z: "cellSizePtr b p z = Some n" "n \<le> length z" and c: "cell_with_child (take n z) ch = Some c"
    and l: "ch \<noteq> 0 \<longrightarrow> leaf p = 0"
  shows "cellSizePtr b p c = Some (length c)" "length c = n" "4 \<le> n" "n + 9 \<le> usableSize b"
proof -
  have n: "4 \<le> n" "n + 9 \<le> usableSize b" using cellSizePtr_local [OF W z(1), of z] by auto
  have t: "cellSizePtr b p (take n z) = Some n" using z by (intro cellSizePtr_local(1) [OF W z(1)]) (simp add: rd_def)
  have c: "c = (if ch = 0 then take n z else be4 ch @ drop 4 (take n z))" using c n z by (simp add: cell_with_child_eq)
  then show len: "length c = n" using n z by (auto simp: be4_def)
  show "cellSizePtr b p c = Some (length c)"
  proof (cases "ch = 0")
    case True
    then show ?thesis using c t len by simp
  next
    case False
    then have "childPtrSize p = 4" using W l by (auto simp: wf_page_def)
    then have "cell_head p c = cell_head p (take n z)" using c False by (intro cell_head_child) (simp add: be4_def)
    then show ?thesis using t len by (simp add: cellSizePtr_def)
  qed
  show "4 \<le> n" "n + 9 \<le> usableSize b" by (fact n)+
qed

lemma img_inserted:
  assumes W: "wf_page b p" and I: "img b p d cs {idx..<idx + length c} (cellOffset p + 2 * length cs + 2) os t fb"
    and i: "i \<le> length cs" and n: "4 \<le> length c"
    and l: "length d' = length d" and new: "g2 d' (cellOffset p + 2 * i) = idx" "take (length c) (drop idx d') = c"
    and lo: "\<And>j. j < i \<Longrightarrow> g2 d' (cellOffset p + 2 * j) = g2 d (cellOffset p + 2 * j)"
    and hi: "\<And>j. i < j \<Longrightarrow> j \<le> length cs \<Longrightarrow> g2 d' (cellOffset p + 2 * j) = g2 d (cellOffset p + 2 * (j - 1))"
    and keep: "\<And>j. cellOffset p + 2 * length cs + 2 \<le> j \<Longrightarrow> j < usableSize b \<Longrightarrow> j \<notin> {idx..<idx + length c} \<Longrightarrow> d' ! j = d ! j"
    and hdr: "\<And>j. j < cellOffset p \<Longrightarrow> j \<notin> {hdrOffset p + 3, hdrOffset p + 4} \<Longrightarrow> d' ! j = d ! j"
  shows "img b p d' (ins_at i c cs) {} (cellOffset p + 2 * length (ins_at i c cs)) (ins_at i idx os) t fb"
proof -
  let ?off = "cellOffset p" and ?u = "usableSize b"
  note m = imgD [OF I] and w = page_bounds [OF W]
  have lo': "length os = length cs" using m(2) by (simp add: cells_at_def)
  have t: "?off + 2 * length cs + 2 \<le> t" by (rule m(5))
  have old: "take (length (cs ! j)) (drop (os ! j) d') = cs ! j" if j: "j < length cs" for j
  proof -
    have e: "ext os cs j \<subseteq> {t..<?u}" "ext os cs j \<inter> {idx..<idx + length c} = {}"
      using ext_used [OF j, of os] m(4,8) by blast+
    have "take (length (cs ! j)) (drop (os ! j) d') = take (length (cs ! j)) (drop (os ! j) d)"
    proof (rule take_drop_cong [OF l])
      fix x assume "os ! j \<le> x" "x < os ! j + length (cs ! j)"
      then have "x \<in> ext os cs j" by (simp add: ext_def)
      then have "x \<in> {t..<?u}" "x \<notin> {idx..<idx + length c}" using e by blast+
      then show "d' ! x = d ! x" using t by (intro keep) auto
    qed
    then show ?thesis using m(2) j by (simp add: cells_at_def)
  qed
  have "cells_at d' ?off (ins_at i idx os) (ins_at i c cs)"
    unfolding cells_at_def
  proof (intro conjI allI impI)
    show "length (ins_at i idx os) = length (ins_at i c cs)" using i lo' by simp
    fix j assume "j < length (ins_at i c cs)"
    then have j: "j \<le> length cs" using i by simp
    show "g2 d' (?off + 2 * j) = ins_at i idx os ! j"
      using j i lo' new(1) lo [of j] hi [of j] m(2) by (auto simp: nth_ins_at cells_at_def)
    show "take (length (ins_at i c cs ! j)) (drop (ins_at i idx os ! j) d') = ins_at i c cs ! j"
      using j i lo' new(2) old [of j] old [of "j - 1"] by (auto simp: nth_ins_at)
  qed
  moreover have "apart (ins_at i idx os) (ins_at i c cs)" using apart_ins [OF lo' i m(3,4)] .
  moreover have "space (hdrOffset p) ?u d' t fb (used os cs \<union> {idx..<idx + length c})"
    using m(7) l
  proof (rule space_cong)
    fix j assume a: "j \<notin> used os cs \<union> {idx..<idx + length c}"
      and c: "t \<le> j \<and> j < ?u \<or> j \<in> {hdrOffset p + 1, hdrOffset p + 2, hdrOffset p + 5, hdrOffset p + 6, hdrOffset p + 7}"
    from c show "d' ! j = d ! j"
    proof
      assume "t \<le> j \<and> j < ?u"
      then show ?thesis using a t by (intro keep) auto
    next
      assume "j \<in> {hdrOffset p + 1, hdrOffset p + 2, hdrOffset p + 5, hdrOffset p + 6, hdrOffset p + 7}"
      then show ?thesis using w(1) by (intro hdr) auto
    qed
  qed
  ultimately show ?thesis using m(1,5) l i by (simp add: img_def used_ins [OF lo' i])
qed

theorem insertCell_ok:
  assumes R: "page_rep b p cs" and tmp: "length tmp = pageSize b" and i: "i \<le> length cs"
    and z: "cellSizePtr b p z = Some n" "n \<le> length z" and ch: "cell_with_child (take n z) ch = Some c" "ch \<noteq> 0 \<longrightarrow> leaf p = 0"
    and fits: "n + 2 \<le> nFree p"
  shows "\<exists>d. insertCell b p tmp i z n ch SQLITE_OK SQLITE_OK =
      Some (SQLITE_OK, p\<lparr>nCell := length cs + 1, nFree := nFree p - (n + 2), aData := d\<rparr>) \<and>
    page_rep b (p\<lparr>nCell := length cs + 1, nFree := nFree p - (n + 2), aData := d\<rparr>) (ins_at i c cs) \<and>
    d ! hdrOffset p = aData p ! hdrOffset p"
proof -
  let ?off = "cellOffset p" and ?u = "usableSize b" and ?hdr = "hdrOffset p"
  let ?g = "?off + 2 * length cs"
  note W = page_repD(1) [OF R]
  note w = page_bounds [OF W] and r = page_repD [OF R]
  note C = cell_size_child [OF W z ch]
  obtain d idx os t fb where A: "allocateSpace b p tmp n = Some (SQLITE_OK, p\<lparr>aData := d\<rparr>, idx)"
    "img b p d cs {idx..<idx + n} (?g + 2) os t fb" "g2 d (?hdr + 3) = length cs" "d ! ?hdr = aData p ! ?hdr"
    using allocateSpace_ok [OF R C(3) fits tmp] by blast
  note m = imgD [OF A(2)]
  have idx: "?g + 2 \<le> idx" "idx + n \<le> ?u"
  proof -
    have "idx \<in> {idx..<idx + n}" "idx + n - 1 \<in> {idx..<idx + n}" using C(3) by auto
    then have "idx \<in> {t..<?u}" "idx + n - 1 \<in> {t..<?u}" using m(9) by blast+
    then show "?g + 2 \<le> idx" "idx + n \<le> ?u" using m(5) by auto
  qed
  define d1 where "d1 = ov d idx c"
  have l1: "length d1 = pageSize b" using idx C m(1) w by (simp add: d1_def)
  have n1: "d1 ! j = d ! j" if "j < pageSize b" "j \<notin> {idx..<idx + n}" for j
    using that idx C m(1) w by (auto simp: d1_def nth_ov)
  define k where "k = length cs - i"
  have k: "?off + 2 * i + 2 * k = ?g" using i by (simp add: k_def)
  obtain d2 where d2: "shift_up d1 ?g (?off + 2 * i) = Some d2" "length d2 = pageSize b"
    "\<forall>j < pageSize b. d2 ! j = (if ?off + 2 * i + 2 \<le> j \<and> j < ?g + 2 then d1 ! (j - 2) else d1 ! j)"
    using shift_up_ok [of "?off + 2 * i" k d1] idx l1 w k by auto
  define d4 where "d4 = p2 (p2 d2 (?off + 2 * i) idx) (?hdr + 3) (length cs + 1)"
  have sm: "?off + 2 * i + 1 < pageSize b" "?hdr + 4 < pageSize b" using idx i w by auto
  have l4: "length d4 = pageSize b" using d2 by (simp add: d4_def)
  have step: "insertCell b p tmp i z n ch SQLITE_OK SQLITE_OK =
      Some (SQLITE_OK, p\<lparr>nCell := length cs + 1, nFree := nFree p - (n + 2), aData := d4\<rparr>)"
  proof -
    let ?k = "if ch \<noteq> 0 then 4 else 0"
    have fr: "nat ((int (nFree p) - int (2 + n)) mod 65536) = nFree p - (n + 2)"
      using fits r(5) w by (simp add: nat_diff_distrib flip: zmod_int)
    obtain bs x where bs: "get_bytes z ?k (n - ?k) = Some bs" "blit d (idx + ?k) bs = Some x"
      "(if ch \<noteq> 0 then map_option (\<lambda>d. take idx x @ d) (sqlite3Put4byte (drop idx x) ch) else Some x) = Some d1"
      using write_cell(1) [of idx n d z ch c ?k] idx m(1) w C(3) z(2) ch(1) unfolding d1_def by (auto simp: bind_eq_Some_conv)
    have "put2byte d2 (?off + 2 * i) idx = Some (p2 d2 (?off + 2 * i) idx)" using d2 sm by (simp add: put2byte_p2)
    moreover have "put2byte (p2 d2 (?off + 2 * i) idx) (?hdr + 3) (length cs + 1) = Some d4"
      using d2 sm by (simp add: put2byte_p2 d4_def)
    moreover have "assert_that (i \<le> nCell p + nOverflow p \<and> nCell p \<le> MX_CELL b \<and> MX_CELL b \<le> 10921 \<and> nOverflow p \<le> 5) = Some ()"
      using w(6) i r(2) page_mx [OF R] by simp
    ultimately show ?thesis using z(1) w(6) fits A(1) bs d2(1) idx r(2) fr
      unfolding insertCell_def by (simp add: Let_def)
  qed
  have g_ptr: "g2 d4 (?off + 2 * j) = g2 (p2 d2 (?off + 2 * i) idx) (?off + 2 * j)" for j
    using w(1) unfolding d4_def by (intro g2_p2_other) auto
  have im: "img b p d4 (ins_at i c cs) {} (?off + 2 * length (ins_at i c cs)) (ins_at i idx os) t fb"
  proof (rule img_inserted [OF W, of d cs idx c os t fb i d4])
    show "img b p d cs {idx..<idx + length c} (?g + 2) os t fb" using A(2) C(2) by simp
    show "i \<le> length cs" "4 \<le> length c" "length d4 = length d" using i C l4 m(1) by simp_all
    show "g2 d4 (?off + 2 * i) = idx" using g_ptr [of i] sm d2(2) idx w C(3) by (simp add: g2_p2)
    show "take (length c) (drop idx d4) = c"
    proof -
      have "take n (drop idx d4) = take n (drop idx d1)"
      proof (rule take_drop_cong)
        fix j assume "idx \<le> j" "j < idx + n"
        then show "d4 ! j = d1 ! j" using idx i w d2(3) by (simp add: d4_def nth_p2)
      qed (simp add: l4 l1)
      also have "\<dots> = c" using C(2) idx m(1) w by (simp add: d1_def ov_def)
      finally show ?thesis using C(2) by simp
    qed
    have d2g: "g2 (p2 d2 (?off + 2 * i) idx) (?off + 2 * j) = g2 d2 (?off + 2 * j)" if "j \<noteq> i" for j
      using that by (intro g2_p2_other) auto
    show "g2 d4 (?off + 2 * j) = g2 d (?off + 2 * j)" if "j < i" for j
    proof -
      have "g2 d2 (?off + 2 * j) = g2 d1 (?off + 2 * j)" using that d2(3) sm by (intro g2_cong) auto
      also have "\<dots> = g2 d (?off + 2 * j)" using that idx i w by (intro g2_cong n1) auto
      finally show ?thesis using g_ptr [of j] d2g [of j] that by simp
    qed
    show "g2 d4 (?off + 2 * j) = g2 d (?off + 2 * (j - 1))" if "i < j" "j \<le> length cs" for j
    proof -
      have "0 < j" using that(1) by simp
      then obtain x where "j = Suc x" by (cases j) auto
      then have "d2 ! (?off + 2 * j) = d1 ! (?off + 2 * (j - 1))" "d2 ! Suc (?off + 2 * j) = d1 ! Suc (?off + 2 * (j - 1))"
        using that d2(3) idx w(2,3) by simp_all
      then have "g2 d2 (?off + 2 * j) = g2 d1 (?off + 2 * (j - 1))" by (simp add: g2_def)
      also have "\<dots> = g2 d (?off + 2 * (j - 1))" using that idx w by (intro g2_cong n1) auto
      finally show ?thesis using g_ptr [of j] d2g [of j] that by simp
    qed
    show "d4 ! j = d ! j" if "?g + 2 \<le> j" "j < ?u" "j \<notin> {idx..<idx + length c}" for j
      using that n1 [of j] C(2) d2(3) i w(1,2,3) by (simp add: d4_def nth_p2)
    show "d4 ! j = d ! j" if "j < ?off" "j \<notin> {?hdr + 3, ?hdr + 4}" for j
      using that n1 [of j] d2(3) idx w(1,2,3) by (simp add: d4_def nth_p2)
  qed
  have h: "d4 ! ?hdr = aData p ! ?hdr" using n1 [of ?hdr] d2(3) idx w(1,2,3) A(4) by (simp add: d4_def nth_p2)
  have "page_rep b (p\<lparr>nCell := length cs + 1, nFree := nFree p - (n + 2), aData := d4\<rparr>) (ins_at i c cs)"
  proof (rule page_repI)
    show "wf_page b (p\<lparr>nCell := length cs + 1, nFree := nFree p - (n + 2), aData := d4\<rparr>)"
      using W l4 w(10) by (simp add: wf_page_upd)
    show "g2 (aData (p\<lparr>nCell := length cs + 1, nFree := nFree p - (n + 2), aData := d4\<rparr>))
       (hdrOffset (p\<lparr>nCell := length cs + 1, nFree := nFree p - (n + 2), aData := d4\<rparr>) + 3) = length (ins_at i c cs)"
      using sm d2(2) i page_mx [OF R] by (simp add: d4_def g2_p2)
    show "list_all (\<lambda>c. cellSizePtr b (p\<lparr>nCell := length cs + 1, nFree := nFree p - (n + 2), aData := d4\<rparr>) c = Some (length c)) (ins_at i c cs)"
      using i r(4) C(1) by (simp add: list_all_ins_at)
    show "img b (p\<lparr>nCell := length cs + 1, nFree := nFree p - (n + 2), aData := d4\<rparr>)
       (aData (p\<lparr>nCell := length cs + 1, nFree := nFree p - (n + 2), aData := d4\<rparr>)) (ins_at i c cs) {}
       (cellOffset (p\<lparr>nCell := length cs + 1, nFree := nFree p - (n + 2), aData := d4\<rparr>) + 2 * length (ins_at i c cs)) (ins_at i idx os) t fb"
      using im by simp
  qed (use r(5) fits i C(2) csize_ins_at [of i c cs] in simp_all)
  then show ?thesis using step h by blast
qed

end
