(* ===== verification/BtDrop.thy ===== *)
theory BtDrop
  imports BtInsert
begin

text \<open>The correctness of \<^verbatim>\<open>dropCell\<close>.\<close>

lemma mask_pointer:
  assumes W: "wf_page b p" and a: "a < pageSize b"
  shows "maskPage p AND a = a"
proof -
  obtain k where k: "pageSize b = 2 ^ k" using wf_pageD(1) [OF W] unfolding valid_bt_def by blast
  have "maskPage p = mask k" using W k by (simp add: wf_page_def mask_eq_exp_minus_1)
  then have "maskPage p AND a = take_bit k a" by (simp add: take_bit_eq_mask and.commute)
  then show ?thesis using a k by (simp add: take_bit_nat_eq_self)
qed

lemma cell_extent:
  assumes W: "wf_page b p" and I: "img b p d cs X g os t fb" and i: "i < length cs" and n: "4 \<le> length (cs ! i)"
  shows "t \<le> os ! i" "os ! i + length (cs ! i) \<le> usableSize b"
proof -
  have "os ! i \<in> ext os cs i" "os ! i + length (cs ! i) - 1 \<in> ext os cs i" using n by (auto simp: ext_def)
  then have "os ! i \<in> {t..<usableSize b}" "os ! i + length (cs ! i) - 1 \<in> {t..<usableSize b}"
    using ext_used [OF i, of os] imgD(8) [OF I] by blast+
  then show "t \<le> os ! i" "os ! i + length (cs ! i) \<le> usableSize b" by auto
qed

lemma findCell_ok:
  assumes R: "page_rep b p cs" and I: "img b p (aData p) cs X g os t fb" and i: "i < length cs"
  shows "findCell p i = Some (os ! i)" "take (length (cs ! i)) (drop (os ! i) (aData p)) = cs ! i"
    "cellSize b p i = Some (length (cs ! i))" "get2byte (aData p) (aCellIdx p + 2 * i) = Some (os ! i)"
proof -
  note W = page_repD(1) [OF R]
  note w = page_bounds [OF W] and m = imgD [OF I]
  have n: "4 \<le> length (cs ! i)" using cell_length(1) [OF W page_repD(4) [OF R] i] .
  note e = cell_extent [OF W I i n]
  have "length cs \<le> MX_CELL b" using page_mx [OF R] by simp
  then have "cellOffset p + 2 * i + 1 < pageSize b"
    using i page_repD(5) [OF R] w(3) by simp
  then show g: "get2byte (aData p) (aCellIdx p + 2 * i) = Some (os ! i)"
    using m(2) i w by (simp add: get2byte_g2 cells_at_def)
  have "maskPage p AND (os ! i) = os ! i" using mask_pointer [OF W] e n w by simp
  then show f: "findCell p i = Some (os ! i)" using g by (simp add: findCell_def)
  show c: "take (length (cs ! i)) (drop (os ! i) (aData p)) = cs ! i" using m(2) i by (simp add: cells_at_def)
  have "cellSizePtr b p (cs ! i) = Some (length (cs ! i))" using page_repD(4) [OF R] i by (simp add: list_all_length)
  then show "cellSize b p i = Some (length (cs ! i))" using cellSizePtr_prefix [OF W _ c] f by (simp add: cellSize_def)
qed

theorem dropCell_ok:
  assumes R: "page_rep b p cs" and i: "i < length cs"
  shows "\<exists>d. dropCell b p i (length (cs ! i)) SQLITE_OK =
      Some (SQLITE_OK, p\<lparr>nCell := length cs - 1, nFree := nFree p + (length (cs ! i) + 2), aData := d\<rparr>) \<and>
    page_rep b (p\<lparr>nCell := length cs - 1, nFree := nFree p + (length (cs ! i) + 2), aData := d\<rparr>) (del_at i cs) \<and>
    d ! hdrOffset p = aData p ! hdrOffset p"
proof -
  let ?off = "cellOffset p" and ?u = "usableSize b" and ?hdr = "hdrOffset p" and ?d = "aData p" and ?n = "length (cs ! i)"
  let ?g = "?off + 2 * length cs"
  note W = page_repD(1) [OF R]
  note w = page_bounds [OF W] and r = page_repD [OF R]
  obtain os t fb where I: "img b p ?d cs {} ?g os t fb" using r(6) by blast
  note m = imgD [OF I]
  have n: "4 \<le> ?n" using cell_length(1) [OF W r(4) i] .
  note e = cell_extent [OF W I i n] and f = findCell_ok [OF R I i]
  have lo: "length os = length cs" using m(2) by (simp add: cells_at_def)
  have fit: "?n + nFree p + ?g \<le> ?u" using csize_del_at [OF i] r(5) by linarith
  let ?C = "used os cs" and ?E = "{os ! i..<os ! i + ?n}"
  have del: "used (del_at i os) (del_at i cs) = ?C - ?E" using used_del [OF lo i m(3)] by (simp add: ext_def)
  have len: "4 \<le> length (del_at i cs ! j)" if "j < length (del_at i cs)" for j
    using that i cell_length(1) [OF W r(4), of j] cell_length(1) [OF W r(4), of "Suc j"] by (auto simp: nth_del_at)
  have tk: "thick (?C - ?E)" using thick_used [of "del_at i cs" "del_at i os"] len del by simp
  have sp: "space ?hdr ?u ?d t fb ?C" using m(7) by simp
  have sub: "?E \<subseteq> ?C" using ext_used [OF i, of os] by (simp add: ext_def)
  obtain d1 t' fb' where F: "freeSpace b p (os ! i) ?n = Some (SQLITE_OK, p\<lparr>nFree := (nFree p + ?n) mod 65536, aData := d1\<rparr>)"
    "length d1 = length ?d" "space ?hdr ?u d1 t' fb' (?C - ?E)" "t \<le> t'"
    "\<forall>j. j < t \<or> j \<in> ?C - ?E \<longrightarrow> j \<notin> {?hdr + 1, ?hdr + 2, ?hdr + 5, ?hdr + 6, ?hdr + 7} \<longrightarrow> d1 ! j = ?d ! j"
    using freeSpace_ok [OF sp refl refl sub n tk] w(11) m(5) by force
  define k where "k = length cs - 1 - i"
  have k: "?off + 2 * i + 2 * k + 2 = ?g" using i by (simp add: k_def)
  have gp: "?g + 2 \<le> pageSize b" using fit n w(3) by linarith
  obtain d2 where d2: "shift_down d1 (?off + 2 * i) (?off + 2 * i + 2 * k) = Some d2" "length d2 = pageSize b"
    "\<forall>j < pageSize b. d2 ! j = (if ?off + 2 * i \<le> j \<and> j < ?off + 2 * i + 2 * k then d1 ! (j + 2) else d1 ! j)"
    using shift_down_ok [of "?off + 2 * i" k d1] k gp F(2) w(10) by auto
  define d3 where "d3 = p2 d2 (?hdr + 3) (length cs - 1)"
  have h8: "?hdr + 8 < pageSize b" using gp w(1) by linarith
  have l3: "length d3 = pageSize b" using d2 by (simp add: d3_def)
  have step: "dropCell b p i ?n SQLITE_OK =
      Some (SQLITE_OK, p\<lparr>nCell := length cs - 1, nFree := nFree p + (?n + 2), aData := d3\<rparr>)"
  proof -
    have "get2byte ?d (?hdr + 5) = Some (t mod 65536)" using space_top(2) [OF sp] .
    moreover have "\<not> (os ! i < t mod 65536 \<or> ?u < os ! i + ?n)" using e mod_less_eq_dividend [of t 65536] by linarith
    moreover have "aCellIdx p + 2 * nCell p - 2 = ?off + 2 * i + 2 * k" using k r(2) w(7) by simp
    moreover have "put2byte d2 (?hdr + 3) (length cs - 1) = Some d3" using d2 h8 by (simp add: put2byte_p2 d3_def)
    moreover have "((nFree p + ?n) mod 65536 + 2) mod 65536 = nFree p + (?n + 2)"
    proof -
      have "nFree p + ?n + 2 < 65536" using fit i w(1,3,4) by linarith
      then show ?thesis by simp
    qed
    ultimately show ?thesis using f(3,4) F(1) d2(1) i r(2) w(7)
      unfolding dropCell_def by (simp add: Let_def)
  qed
  have keep: "d3 ! j = ?d ! j" if "j \<in> ?C - ?E" for j
  proof -
    have j: "t \<le> j" "j < ?u" using that m(8) by auto
    then have "d1 ! j = ?d ! j" using F(5) that w(1) m(5) by auto
    then show ?thesis using j d2(3) k m(5) w by (simp add: d3_def nth_p2)
  qed
  have ptr: "g2 d3 (?off + 2 * j) = g2 ?d (?off + 2 * (if j < i then j else Suc j))" if j: "j < length cs - 1" for j
  proof -
    have "g2 d3 (?off + 2 * j) = g2 d2 (?off + 2 * j)" using w(1) unfolding d3_def by (intro g2_p2_other) auto
    also have "\<dots> = g2 d1 (?off + 2 * (if j < i then j else Suc j))"
      using j d2(3) k gp by (auto simp: g2_def)
    also have "\<dots> = g2 ?d (?off + 2 * (if j < i then j else Suc j))"
    proof (rule g2_cong)
      have "?off + 2 * (if j < i then j else Suc j) + 1 < t" "?hdr + 8 \<le> ?off" using j m(5) w(1) by auto
      then show "d1 ! (?off + 2 * (if j < i then j else Suc j)) = ?d ! (?off + 2 * (if j < i then j else Suc j))"
        "d1 ! Suc (?off + 2 * (if j < i then j else Suc j)) = ?d ! Suc (?off + 2 * (if j < i then j else Suc j))"
        using F(5) by simp_all
    qed
    finally show ?thesis .
  qed
  have "cells_at d3 ?off (del_at i os) (del_at i cs)"
    unfolding cells_at_def
  proof (intro conjI allI impI)
    show "length (del_at i os) = length (del_at i cs)" using i lo by simp
    fix j assume "j < length (del_at i cs)"
    then have j: "j < length cs - 1" using i by simp
    define x where "x = (if j < i then j else Suc j)"
    have x: "x < length cs" "x \<noteq> i" using j by (auto simp: x_def)
    have nx: "del_at i os ! j = os ! x" "del_at i cs ! j = cs ! x" using i j lo by (simp_all add: nth_del_at x_def)
    show "g2 d3 (?off + 2 * j) = del_at i os ! j" using ptr [OF j] x(1) m(2) nx by (simp add: cells_at_def flip: x_def)
    have "ext os cs x \<inter> ext os cs i = {}" using m(3) x i unfolding apart_def by blast
    then have sub: "ext os cs x \<subseteq> ?C - ?E" using ext_used [OF x(1), of os] by (auto simp: ext_def)
    have "take (length (cs ! x)) (drop (os ! x) d3) = take (length (cs ! x)) (drop (os ! x) ?d)"
    proof (rule take_drop_cong)
      fix y assume "os ! x \<le> y" "y < os ! x + length (cs ! x)"
      then have "y \<in> ext os cs x" by (simp add: ext_def)
      then show "d3 ! y = ?d ! y" using sub by (intro keep) blast
    qed (simp add: l3 w(10))
    then show "take (length (del_at i cs ! j)) (drop (del_at i os ! j) d3) = del_at i cs ! j"
      using nx x(1) m(2) by (simp add: cells_at_def)
  qed
  moreover have "apart (del_at i os) (del_at i cs)" using apart_del [OF lo i m(3)] .
  moreover have "space ?hdr ?u d3 t' fb' (?C - ?E)"
    using F(3)
  proof (rule space_cong)
    show "length d3 = length d1" using l3 F(2) w(10) by simp
    fix j assume "j \<notin> ?C - ?E" and "t' \<le> j \<and> j < ?u \<or> j \<in> {?hdr + 1, ?hdr + 2, ?hdr + 5, ?hdr + 6, ?hdr + 7}"
    then have "?g \<le> j \<and> j < ?u \<or> j \<in> {?hdr + 1, ?hdr + 2, ?hdr + 5, ?hdr + 6, ?hdr + 7}" using F(4) m(5) by linarith
    then show "d3 ! j = d1 ! j" using d2(3) k h8 w by (auto simp: d3_def nth_p2)
  qed
  ultimately have im: "img b p d3 (del_at i cs) {} (?off + 2 * length (del_at i cs)) (del_at i os) t' fb'"
    using l3 i F(4) m(5) by (simp add: img_def del)
  have h: "d3 ! ?hdr = ?d ! ?hdr"
  proof -
    have "d1 ! ?hdr = ?d ! ?hdr" using F(5) w(1) m(5) by simp
    then show ?thesis using d2(3) h8 w(1) by (simp add: d3_def nth_p2)
  qed
  let ?p = "p\<lparr>nCell := length cs - 1, nFree := nFree p + (?n + 2), aData := d3\<rparr>"
  have "page_rep b ?p (del_at i cs)"
  proof (rule page_repI)
    show "wf_page b ?p" using W l3 w(10) by (simp add: wf_page_upd)
    show "g2 (aData ?p) (hdrOffset ?p + 3) = length (del_at i cs)"
      using h8 d2(2) i page_mx [OF R] by (simp add: d3_def g2_p2)
    show "list_all (\<lambda>c. cellSizePtr b ?p c = Some (length c)) (del_at i cs)" using r(4) by (simp add: list_all_del_at)
    show "img b ?p (aData ?p) (del_at i cs) {} (cellOffset ?p + 2 * length (del_at i cs)) (del_at i os) t' fb'" using im by simp
  qed (use r(5) i csize_del_at [OF i] in simp_all)
  then show ?thesis using step h by blast
qed

end
