(* ===== verification/BtHist.thy ===== *)
theory BtHist
  imports BtDrop
begin

text \<open>
  Pages over their life: \<^verbatim>\<open>zeroPage\<close> gives the empty page, every sequence of insertions and removals
  that fits is carried out on the image exactly as on the list of cells, and \<^verbatim>\<open>btreeInitPage\<close> reads
  the fields of the page back from the image.
\<close>

section \<open>Simulation of a partial contract\<close>

fun iterate :: "('s \<Rightarrow> 'x \<Rightarrow> 's option) \<Rightarrow> 's \<Rightarrow> 'x list \<Rightarrow> 's option" where
  "iterate step s [] = Some s"
| "iterate step s (x # xs) = do { s' \<leftarrow> step s x; iterate step s' xs }"

text \<open>
  Whatever the contract allows, the component does, and it stays related to the contract: the
  contract is partial, and so says when an operation must succeed.
\<close>

locale simulation =
  fixes rel :: "'s \<Rightarrow> 'a \<Rightarrow> bool" and step :: "'s \<Rightarrow> 'x \<Rightarrow> 's option" and spec :: "'a \<Rightarrow> 'x \<Rightarrow> 'a option"
  assumes step_sim: "rel s a \<Longrightarrow> spec a x = Some a' \<Longrightarrow> \<exists>s'. step s x = Some s' \<and> rel s' a'"
begin

lemma run_sim: "rel s a \<Longrightarrow> iterate spec a xs = Some a' \<Longrightarrow> \<exists>s'. iterate step s xs = Some s' \<and> rel s' a'"
proof (induction xs arbitrary: s a)
  case (Cons x xs)
  then obtain a1 where a1: "spec a x = Some a1" "iterate spec a1 xs = Some a'" by (auto simp: bind_eq_Some_conv)
  obtain s1 where s1: "step s x = Some s1" "rel s1 a1" using step_sim [OF Cons.prems(1) a1(1)] by blast
  then show ?case using Cons.IH [OF s1(2) a1(2)] by simp
qed simp

end

section \<open>The operations on a page and on a list of cells\<close>

datatype page_op = InsertCell nat "u8 list" u32 | DropCell nat | Defragment

definition ok_page :: "(rc \<times> MemPage) option \<Rightarrow> MemPage option" where
  "ok_page r = do { (rc, p) \<leftarrow> r; if rc = SQLITE_OK then Some p else None }"

fun page_step :: "BtShared \<Rightarrow> u8 list \<Rightarrow> MemPage \<Rightarrow> page_op \<Rightarrow> MemPage option" where
  "page_step b tmp p (InsertCell i z child) =
     do { n \<leftarrow> cellSizePtr b p z; ok_page (insertCell b p tmp i z n child SQLITE_OK SQLITE_OK) }"
| "page_step b tmp p (DropCell i) = do { n \<leftarrow> cellSize b p i; ok_page (dropCell b p i n SQLITE_OK) }"
| "page_step b tmp p Defragment = ok_page (defragmentPage b p tmp)"

text \<open>The contract of a page of the kind of \<open>p0\<close>: a list of cells in the space of the page.\<close>

fun cells_step :: "BtShared \<Rightarrow> MemPage \<Rightarrow> u8 list list \<Rightarrow> page_op \<Rightarrow> u8 list list option" where
  "cells_step b p0 cs (InsertCell i z child) = do {
     n \<leftarrow> cellSizePtr b p0 z;
     if i \<le> length cs \<and> n \<le> length z \<and> (child \<noteq> 0 \<longrightarrow> leaf p0 = 0) \<and>
        cellOffset p0 + 2 * (length cs + 1) + (csize cs + n) \<le> usableSize b
     then do { c \<leftarrow> cell_with_child (take n z) child; Some (ins_at i c cs) } else None }"
| "cells_step b p0 cs (DropCell i) = (if i < length cs then Some (del_at i cs) else None)"
| "cells_step b p0 cs Defragment = Some cs"

definition page_rel :: "BtShared \<Rightarrow> MemPage \<Rightarrow> MemPage \<Rightarrow> u8 list list \<Rightarrow> bool" where
  "page_rel b p0 p cs \<longleftrightarrow> page_rep b p cs \<and> aData p ! hdrOffset p = aData p0 ! hdrOffset p0 \<and>
     p = p0\<lparr>nFree := nFree p, nCell := nCell p, aData := aData p\<rparr>"

lemma page_rel_static:
  assumes "page_rel b p0 p cs"
  shows "cellSizePtr b p z = cellSizePtr b p0 z" "leaf p = leaf p0" "cellOffset p = cellOffset p0" "hdrOffset p = hdrOffset p0"
proof -
  have p: "p = p0\<lparr>nFree := nFree p, nCell := nCell p, aData := aData p\<rparr>" using assms by (simp add: page_rel_def)
  show "cellSizePtr b p z = cellSizePtr b p0 z" by (subst p) simp
  show "leaf p = leaf p0" by (subst p) simp
  show "cellOffset p = cellOffset p0" by (subst p) simp
  show "hdrOffset p = hdrOffset p0" by (subst p) simp
qed

lemma page_rel_upd:
  assumes "page_rel b p0 p cs" "page_rep b (p\<lparr>nCell := k, nFree := f, aData := d\<rparr>) cs'" "d ! hdrOffset p = aData p ! hdrOffset p"
  shows "page_rel b p0 (p\<lparr>nCell := k, nFree := f, aData := d\<rparr>) cs'"
proof -
  have p: "p = p0\<lparr>nFree := nFree p, nCell := nCell p, aData := aData p\<rparr>" using assms(1) by (simp add: page_rel_def)
  have "p\<lparr>nCell := k, nFree := f, aData := d\<rparr> = p0\<lparr>nFree := f, nCell := k, aData := d\<rparr>" by (subst p) simp
  then show ?thesis using assms by (simp add: page_rel_def page_rel_static(4) [OF assms(1)])
qed

lemma page_step_sim:
  assumes tmp: "length tmp = pageSize b" and R: "page_rel b p0 p cs" and s: "cells_step b p0 cs x = Some cs'"
  shows "\<exists>p'. page_step b tmp p x = Some p' \<and> page_rel b p0 p' cs'"
proof -
  note st = page_rel_static [OF R]
  have P: "page_rep b p cs" using R by (simp add: page_rel_def)
  show ?thesis
  proof (cases x)
    case (InsertCell i z child)
    then obtain n c where n: "cellSizePtr b p z = Some n" "i \<le> length cs" "n \<le> length z" "child \<noteq> 0 \<longrightarrow> leaf p = 0"
        "cellOffset p + 2 * (length cs + 1) + (csize cs + n) \<le> usableSize b" "cell_with_child (take n z) child = Some c"
        "cs' = ins_at i c cs"
      using s st by (auto simp: bind_eq_Some_conv split: if_splits)
    have "n + 2 \<le> nFree p" using page_repD(5) [OF P] n(5) by simp
    from insertCell_ok [OF P tmp n(2,1,3,6,4) this] show ?thesis
      using page_rel_upd [OF R] n(1,7) InsertCell by (auto simp: ok_page_def)
  next
    case (DropCell i)
    then have i: "i < length cs" "cs' = del_at i cs" using s by (auto split: if_splits)
    obtain os t fb where "img b p (aData p) cs {} (cellOffset p + 2 * length cs) os t fb" using page_repD(6) [OF P] by blast
    then have "cellSize b p i = Some (length (cs ! i))" using findCell_ok(3) [OF P _ i(1)] by blast
    then show ?thesis using dropCell_ok [OF P i(1)] page_rel_upd [OF R] i(2) DropCell by (auto simp: ok_page_def)
  next
    case Defragment
    obtain d where d: "defragmentPage b p tmp = Some (SQLITE_OK, p\<lparr>aData := d\<rparr>)" "page_rep b (p\<lparr>aData := d\<rparr>) cs"
      "d ! hdrOffset p = aData p ! hdrOffset p" using defragment_hdr [OF P tmp] by blast
    have e: "p\<lparr>nCell := nCell p, nFree := nFree p, aData := d\<rparr> = p\<lparr>aData := d\<rparr>" by simp
    have "page_rel b p0 (p\<lparr>aData := d\<rparr>) cs" using page_rel_upd [OF R, where k = "nCell p" and f = "nFree p" and d = d] d unfolding e by blast
    then show ?thesis using d(1) s Defragment by (simp add: ok_page_def)
  qed
qed

interpretation pages: simulation "\<lambda>p cs. length tmp = pageSize b \<and> page_rel b p0 p cs" "page_step b tmp" "cells_step b p0"
  for b tmp p0
  by unfold_locales (use page_step_sim in blast)

section \<open>The empty page\<close>

lemma limit_fields:
  "bt_maxLocal (b\<lparr>bt_maxLocal := A, bt_minLocal := B, bt_maxLeaf := C, bt_minLeaf := D, bt_max1bytePayload := E\<rparr>) = A"
  "bt_minLocal (b\<lparr>bt_maxLocal := A, bt_minLocal := B, bt_maxLeaf := C, bt_minLeaf := D, bt_max1bytePayload := E\<rparr>) = B"
  "bt_maxLeaf (b\<lparr>bt_maxLocal := A, bt_minLocal := B, bt_maxLeaf := C, bt_minLeaf := D, bt_max1bytePayload := E\<rparr>) = C"
  "bt_minLeaf (b\<lparr>bt_maxLocal := A, bt_minLocal := B, bt_maxLeaf := C, bt_minLeaf := D, bt_max1bytePayload := E\<rparr>) = D"
  by simp_all

lemma limits:
  assumes "valid_bt b" "payload_limits b = b"
  shows "bt_minLocal b \<le> bt_maxLocal b" "bt_maxLocal b + 35 \<le> usableSize b" "bt_minLeaf b \<le> bt_maxLeaf b" "bt_maxLeaf b + 35 \<le> usableSize b"
proof -
  note v = valid_bt_bounds [OF assms(1)]
  define u where "u = int (usableSize b)"
  define x where "x = (u - 12) * 64 div 255"
  define y where "y = (u - 12) * 32 div 255"
  have "bt_maxLocal (payload_limits b) = nat ((x - 23) mod 65536)" "bt_minLocal (payload_limits b) = nat ((y - 23) mod 65536)"
    "bt_maxLeaf (payload_limits b) = nat ((u - 35) mod 65536)" "bt_minLeaf (payload_limits b) = nat ((y - 23) mod 65536)"
    unfolding payload_limits_def Let_def x_def y_def u_def by (rule limit_fields)+
  note lim = this [unfolded assms(2)]
  have u: "480 \<le> u" "u \<le> 65536" using v by (simp_all add: u_def)
  have dv: "255 * (z div 255) \<le> z" "z < 255 * (z div 255) + 255" for z :: int by presburger+
  have d: "(u - 12) * 64 = u * 64 - 768" "(u - 12) * 32 = u * 32 - 384" by (simp_all only: left_diff_distrib)
  have xy: "255 * x \<le> u * 64 - 768" "u * 64 - 768 < 255 * x + 255" "255 * y \<le> u * 32 - 384" "u * 32 - 384 < 255 * y + 255"
    using dv [of "u * 64 - 768"] dv [of "u * 32 - 384"] by (simp_all only: x_def y_def d)
  have r: "23 \<le> x" "23 \<le> y" "x < 65536" "y < 65536" "y \<le> x" "x + 12 \<le> u" "y + 12 \<le> u"
    using u xy by linarith+
  have m: "(x - 23) mod 65536 = x - 23" "(y - 23) mod 65536 = y - 23" "(u - 35) mod 65536 = u - 35"
    using u r by simp_all
  have n: "int (bt_maxLocal b) = x - 23" "int (bt_minLocal b) = y - 23" "int (bt_maxLeaf b) = u - 35" "int (bt_minLeaf b) = y - 23"
    unfolding lim m using u r by simp_all
  show "bt_minLocal b \<le> bt_maxLocal b" "bt_maxLocal b + 35 \<le> usableSize b" "bt_minLeaf b \<le> bt_maxLeaf b" "bt_maxLeaf b + 35 \<le> usableSize b"
    using n r u unfolding u_def by linarith+
qed

definition page_typed :: "BtShared \<Rightarrow> MemPage \<Rightarrow> bool" where
  "page_typed b p \<longleftrightarrow> isInit p \<and> aDataEnd p = usableSize b \<and> decodeFlags b p (unat (aData p ! hdrOffset p)) = (SQLITE_OK, p)"

lemma decodeFlags_cases:
  assumes "flags \<in> {2, 10, 5, 13}"
  shows "decodeFlags b p flags = (SQLITE_OK,
    p\<lparr>leaf := (if flags \<in> {10, 13} then 1 else 0), childPtrSize := (if flags \<in> {10, 13} then 0 else 4),
      intKey := flags \<in> {5, 13}, hasData := flags = 13, maxLocal := (if flags \<in> {5, 13} then bt_maxLeaf b else bt_maxLocal b),
      minLocal := (if flags \<in> {5, 13} then bt_minLeaf b else bt_minLocal b), max1bytePayload := bt_max1bytePayload b\<rparr>)"
proof -
  note d = decodeFlags_def PTF_LEAF_def PTF_LEAFDATA_def PTF_INTKEY_def PTF_ZERODATA_def Let_def drop_bit_eq_div
  consider "flags = 2" | "flags = 10" | "flags = 5" | "flags = 13" using assms by blast
  then show ?thesis by cases (simp_all add: d)
qed

lemma zeroPage_ok:
  assumes B: "valid_bt b" "payload_limits b = b" and p: "length (aData p) = pageSize b" "hdrOffset p \<le> 100"
    and f: "flags \<in> {2, 10, 5, 13}"
  shows "\<exists>q. zeroPage b p flags = Some q \<and> page_rep b q [] \<and> page_typed b q \<and> aData q ! hdrOffset q = word_of_nat flags \<and>
    hdrOffset q = hdrOffset p"
proof -
  let ?hdr = "hdrOffset p" and ?u = "usableSize b"
  note v = valid_bt_bounds [OF B(1)] and lim = limits [OF B]
  let ?l = "if flags \<in> {10, 13} then 1 else 0 :: nat"
  define d0 where "d0 = (if secure_delete b then ov (aData p) ?hdr (replicate (?u - ?hdr) 0) else aData p)"
  define d1 where "d1 = d0[?hdr := word_of_nat flags]"
  define d2 where "d2 = ov d1 (?hdr + 1) (replicate 4 0)"
  define d where "d = p2 (d2[?hdr + 7 := 0]) (?hdr + 5) ?u"
  define off where "off = ?hdr + 12 - 4 * ?l"
  have l0: "length d0 = pageSize b" using p v by (simp add: d0_def)
  have l2: "length d2 = pageSize b" using l0 p v by (simp add: d2_def d1_def)
  have ld: "length d = pageSize b" using l2 by (simp add: d_def)
  have first: "?hdr + 8 + 4 * (if flags AND PTF_LEAF = 0 then 1 else 0) = off"
    using f by (auto simp: off_def PTF_LEAF_def)
  have off: "?hdr + 8 \<le> off" "off \<le> ?u" "off \<le> 112" using p v f by (auto simp: off_def)
  have fr: "nat ((int ?u - int off) mod 65536) = ?u - off"
    using v off by (simp add: nat_diff_distrib)
  define cp where "cp = (if flags \<in> {10, 13} then 0 else 4 :: nat)"
  define ik where "ik = (flags \<in> {5, 13})"
  define hd where "hd = (flags = 13)"
  define mx where "mx = (if flags \<in> {5, 13} then bt_maxLeaf b else bt_maxLocal b)"
  define mn where "mn = (if flags \<in> {5, 13} then bt_minLeaf b else bt_minLocal b)"
  define L where "L = (if flags \<in> {10, 13} then 1 else 0 :: nat)"
  have D: "decodeFlags b p' flags = (SQLITE_OK, p'\<lparr>leaf := L, childPtrSize := cp, intKey := ik, hasData := hd, maxLocal := mx,
      minLocal := mn, max1bytePayload := bt_max1bytePayload b\<rparr>)" for p'
    unfolding decodeFlags_cases [OF f] L_def cp_def ik_def hd_def mx_def mn_def by (rule refl)
  define q where "q = p\<lparr>aData := d, nFree := ?u - off, leaf := L, childPtrSize := cp, intKey := ik, hasData := hd, maxLocal := mx,
    minLocal := mn, max1bytePayload := bt_max1bytePayload b, hdrOffset := ?hdr, cellOffset := off, aDataEnd := ?u, aCellIdx := off,
    nOverflow := 0, maskPage := pageSize b - 1, nCell := 0, isInit := True\<rparr>"
  have step: "zeroPage b p flags = Some q"
  proof -
    have 1: "(if secure_delete b then zero_fill (aData p) ?hdr (?u - ?hdr) else Some (aData p)) = Some d0"
      using p v by (simp add: d0_def blit_ov)
    have 2: "wr d0 ?hdr (word_of_nat flags) = Some d1" using l0 p v by (simp add: wr_def d1_def)
    have 3: "zero_fill d1 (?hdr + 1) 4 = Some d2" using l0 p v by (simp add: blit_ov d2_def d1_def)
    have 4: "wr d2 (?hdr + 7) 0 = Some (d2[?hdr + 7 := 0])" using l2 p v by (simp add: wr_def)
    have 5: "put2byte (d2[?hdr + 7 := 0]) (?hdr + 5) ?u = Some d" using l2 p v by (simp add: put2byte_p2 d_def)
    have 6: "(pageSize b - 1) mod 65536 = pageSize b - 1" "assert_that (512 \<le> pageSize b \<and> pageSize b \<le> 65536) = Some ()" using v by simp_all
    show ?thesis
      unfolding zeroPage_def Let_def 1 2 3 4 5 first fr D 6 prod.case Option.bind.bind_lunit q_def by simp
  qed
  have q: "aData q = d" "hdrOffset q = ?hdr" "cellOffset q = off" "aDataEnd q = ?u"
    "aCellIdx q = off" "nOverflow q = 0" "maskPage q = pageSize b - 1" "nCell q = 0" "isInit q" "nFree q = ?u - off"
    "leaf q = L" "childPtrSize q = cp" "intKey q = ik" "hasData q = hd" "maxLocal q = mx" "minLocal q = mn"
    "max1bytePayload q = bt_max1bytePayload b"
    by (simp_all add: q_def)
  have db: "d ! ?hdr = word_of_nat flags" "d ! (?hdr + 1) = 0" "d ! (?hdr + 2) = 0" "d ! (?hdr + 3) = 0" "d ! (?hdr + 4) = 0" "d ! (?hdr + 7) = 0"
    using l0 p v by (simp_all add: d_def d2_def d1_def nth_p2 nth_ov)
  have g: "g2 d (?hdr + 1) = 0" "g2 d (?hdr + 3) = 0" "g2 d (?hdr + 5) = ?u mod 65536"
  proof -
    show "g2 d (?hdr + 1) = 0" "g2 d (?hdr + 3) = 0" using db by (simp_all add: g2_def add.commute)
    show "g2 d (?hdr + 5) = ?u mod 65536" unfolding d_def by (rule g2_p2_mod) (use l2 p v in simp)
  qed
  have "space ?hdr ?u d ?u [] {}" using off v ld db g by (simp add: space_def)
  then have im: "img b q d [] {} off [] ?u []"
    using q ld off by (simp add: img_def cells_at_def apart_def used_def)
  have "L \<le> 1" "cp = 4 - 4 * L" "off = ?hdr + 12 - 4 * L" "mn \<le> mx" "mx + 35 \<le> ?u"
    using lim by (simp_all add: L_def cp_def off_def mx_def mn_def)
  then have W: "wf_page b q" using q ld B(1) p(2) by (simp add: wf_page_def)
  have "page_rep b q []"
    by (rule page_repI [of _ _ _ "[]" ?u "[]"]) (use W q g im off in simp_all)
  moreover have "page_typed b q"
  proof -
    have "unat (aData q ! hdrOffset q) = flags" using q(1,2) db(1) f by auto
    moreover have "decodeFlags b q flags = (SQLITE_OK, q)" by (simp add: D q_def)
    ultimately show ?thesis using q by (simp add: page_typed_def)
  qed
  ultimately show ?thesis using step q(1,2) db(1) by auto
qed

end
