(* ===== verification/BtHeaderOk.thy ===== *)
theory BtHeaderOk
  imports BtHeader BtHist
begin

text \<open>
  What \<^verbatim>\<open>newDatabase\<close> writes into an empty file, and that \<^verbatim>\<open>lockBtree\<close> reads it back.
\<close>

section \<open>The header of page 1\<close>

text \<open>
  The bytes that \<^verbatim>\<open>newDatabase\<close> writes, without those of the size and the list of free pages. Of these
  the first 24 stay for good, and the two fields of auto-vacuum; the change counter has a copy.
\<close>

definition header_bytes :: "BtShared \<Rightarrow> u8 list" where
  "header_bytes b = zMagicHeader @ [word_of_nat (pageSize b div 2 ^ 8 mod 256), word_of_nat (pageSize b div 2 ^ 16 mod 256), 1, 1,
     word_of_nat (pageSize b - usableSize b), 64, 32, 32] @ replicate 76 0"

definition same_header :: "BtShared \<Rightarrow> u8 list \<Rightarrow> bool" where
  "same_header b d \<longleftrightarrow> (\<forall>i < 24. d ! i = header_bytes b ! i) \<and> get4 d 52 = Some 0 \<and> get4 d 64 = Some 0 \<and>
     take 4 (drop 24 d) = take 4 (drop 92 d)"

lemma same_header_cong:
  assumes "same_header b d" "100 \<le> length d'" "100 \<le> length d" "\<And>i. i < 100 \<Longrightarrow> i \<notin> {28..<40} \<Longrightarrow> d' ! i = d ! i"
  shows "same_header b d'"
proof -
  have t: "take 4 (drop a d') = take 4 (drop a d)" if "a = 24 \<or> 40 \<le> a \<and> a + 4 \<le> 100" for a
    using that assms(2-4) by (intro nth_equalityI) auto
  have "get4 d' a = get4 d a" if "a = 52 \<or> a = 64" for a
    using that assms(2,3) t [of a] get4_prefix [of a d] get4_prefix [of a d'] by auto
  then show ?thesis using assms(1,4) t by (simp add: same_header_def)
qed

lemma length_header [simp]: "length zMagicHeader = 16" "length (header_bytes b) = 100"
  by (simp_all add: zMagicHeader_def header_bytes_def)

lemma take_drop_nth:
  "a + 3 \<le> length d \<Longrightarrow> take 3 (drop a d) = [d ! a, d ! (a + 1), d ! (a + 2)]"
  "a + 4 \<le> length d \<Longrightarrow> take 4 (drop a d) = [d ! a, d ! (a + 1), d ! (a + 2), d ! (a + 3)]"
proof -
  have s: "k < length d \<Longrightarrow> drop k d = d ! k # drop (Suc k) d" for k by (simp add: Cons_nth_drop_Suc)
  show "a + 3 \<le> length d \<Longrightarrow> take 3 (drop a d) = [d ! a, d ! (a + 1), d ! (a + 2)]"
    using s [of a] s [of "a + 1"] s [of "a + 2"] by (simp add: numeral_eq_Suc)
  show "a + 4 \<le> length d \<Longrightarrow> take 4 (drop a d) = [d ! a, d ! (a + 1), d ! (a + 2), d ! (a + 3)]"
    using s [of a] s [of "a + 1"] s [of "a + 2"] s [of "a + 3"] by (simp add: numeral_eq_Suc)
qed

lemma take_write:
  "wr d a v = Some d' \<Longrightarrow> k \<le> a \<Longrightarrow> take k d' = take k d"
  "blit d a bs = Some d' \<Longrightarrow> k \<le> a \<Longrightarrow> take k d' = take k d"
  by (auto simp: wr_def blit_def split: if_splits)

lemma decodeFlags_aData: "aData (snd (decodeFlags b p f)) = aData p"
  by (simp add: decodeFlags_def Let_def)

lemma zeroPage_below:
  assumes q: "zeroPage b p flags = Some q"
  shows "take (hdrOffset p) (aData q) = take (hdrOffset p) (aData p)"
proof -
  let ?h = "hdrOffset p"
  define d0 where "d0 = (if secure_delete b then zero_fill (aData p) ?h (usableSize b - ?h) else Some (aData p))"
  have "\<exists>d1 d2 d3 d4 d5. d0 = Some d1 \<and> wr d1 ?h (word_of_nat flags) = Some d2 \<and> zero_fill d2 (?h + 1) 4 = Some d3 \<and>
    wr d3 (?h + 7) 0 = Some d4 \<and> put2byte d4 (?h + 5) (usableSize b) = Some d5 \<and> aData q = d5"
    using q [unfolded zeroPage_def Let_def, folded d0_def]
    by (auto simp: Option.bind_eq_Some_conv case_prod_beta decodeFlags_aData)
  then obtain d1 d2 d3 d4 d5 where d: "d0 = Some d1" "wr d1 ?h (word_of_nat flags) = Some d2" "zero_fill d2 (?h + 1) 4 = Some d3"
    "wr d3 (?h + 7) 0 = Some d4" "put2byte d4 (?h + 5) (usableSize b) = Some d5" and e: "aData q = d5" by blast
  have "take ?h d1 = take ?h (aData p)" using d(1) take_write(2) by (auto simp: d0_def split: if_splits)
  moreover have "take ?h d5 = take ?h d4" using d(5) by (auto simp: put2byte_def Option.bind_eq_Some_conv take_write(1))
  moreover have "take ?h d4 = take ?h d3" "take ?h d2 = take ?h d1" using d(2,4) by (simp_all add: take_write(1))
  moreover have "take ?h d3 = take ?h d2" using d(3) by (rule take_write(2)) simp
  ultimately show ?thesis using e by simp
qed

text \<open>A buffer whose first bytes have been written.\<close>

definition pre :: "u8 list \<Rightarrow> u8 list \<Rightarrow> u8 list" where "pre h d = h @ drop (length h) d"

lemma wr_pre: "a = length h \<Longrightarrow> length h < length d \<Longrightarrow> wr (pre h d) a v = Some (pre (h @ [v]) d)"
  by (simp add: wr_def pre_def list_update_append Cons_nth_drop_Suc [symmetric])

lemma blit_pre: "a = length h \<Longrightarrow> length h + length bs \<le> length d \<Longrightarrow> blit (pre h d) a bs = Some (pre (h @ bs) d)"
  by (simp add: blit_def pre_def add.commute)

lemma length_pre [simp]: "length h \<le> length d \<Longrightarrow> length (pre h d) = length d"
  by (simp add: pre_def)

lemma newDatabase_ok:
  assumes B: "valid_bt b" "payload_limits b = b" "pageSize b \<le> usableSize b + 255"
    and db: "db_nPage db = 0" "\<And>p. length (db_page db p) = pageSize b" and h: "hdrOffset pP1 = 100"
  shows "\<exists>rc pP1' db'. newDatabase pg b False False pP1 db = Some (rc, pP1', db') \<and> (io_ok pg \<longrightarrow> rc = SQLITE_OK) \<and>
    (rc = SQLITE_OK \<longrightarrow> free_list b db' [] \<and> same_header b (db_page db' 1) \<and> db_nPage db' = 1)"
proof -
  note v = valid_bt_bounds [OF B(1)]
  obtain r n where r: "pager_call pg db = (r, db\<lparr>db_calls := n\<rparr>)" "io_ok pg \<longrightarrow> r = SQLITE_OK" by (rule pager_call_cases)
  define d where "d = pre (header_bytes b) (db_page db 1)"
  have ld: "length d = pageSize b" using db v by (simp add: d_def)
  obtain q where q: "zeroPage b (pP1\<lparr>aData := d\<rparr>) 13 = Some q" "page_rep b q []" "hdrOffset q = 100"
    using zeroPage_ok [OF B(1,2), of "pP1\<lparr>aData := d\<rparr>" 13] ld h by auto
  have lq: "length (aData q) = pageSize b" using page_repD(1) [OF q(2)] by (simp add: wf_page_def)
  define e where "e = (P4 (P4 (aData q) 52 0) 64 0)[31 := 1]"
  have le: "length e = pageSize b" using lq v by (simp add: e_def)
  have "take 100 (aData q) = header_bytes b"
    using zeroPage_below [OF q(1)] h db v by (simp add: d_def pre_def)
  then have nq: "aData q ! i = header_bytes b ! i" if "i < 100" for i using that by (metis nth_take)
  have z: "header_bytes b ! i = 0" if "24 \<le> i" "i < 100" for i
    using that by (simp add: header_bytes_def nth_append nth_Cons')
  have ne: "e ! i = (if i = 31 then 1 else header_bytes b ! i)" if "i < 100" for i
  proof -
    have "P4 x a 0 ! i = (if a \<le> i \<and> i < a + 4 then 0 else x ! i)" if "a \<le> 64" "length x = pageSize b" for x a
    proof -
      have "be4 (0 :: u32) = replicate 4 0" by (simp add: be4_def numeral_eq_Suc)
      then show ?thesis using that \<open>i < 100\<close> v by (auto simp: P4_def nth_ov)
    qed
    then show ?thesis using that v lq z [of i] nq [of i] by (simp add: e_def nth_list_update)
  qed
  have eq: "newDatabase pg b False False pP1 db =
    (if r \<noteq> SQLITE_OK then Some (r, pP1, db\<lparr>db_calls := n\<rparr>)
     else Some (SQLITE_OK, q\<lparr>aData := e\<rparr>, set_page (db\<lparr>db_calls := n, db_nPage := 1\<rparr>) 1 e))"
  proof -
    have b0: "blit (db_page db (Suc 0)) 0 zMagicHeader = Some (pre zMagicHeader (db_page db 1))"
      using blit_pre [of 0 "[]" zMagicHeader "db_page db 1"] db(2) [of 1] v by (simp add: pre_def)
    have z13: "zeroPage b (pP1\<lparr>aData := pre (header_bytes b) (db_page db 1)\<rparr>) 13 = Some q" using q(1) by (simp add: d_def)
    have p: "put4 (aData q) 52 0 = Some (P4 (aData q) 52 0)" "put4 (P4 (aData q) 52 0) 64 0 = Some (P4 (P4 (aData q) 52 0) 64 0)"
      "wr (P4 (P4 (aData q) 52 0) 64 0) 31 1 = Some e"
      using lq v by (simp_all add: put4_P4 wr_def e_def)
    show ?thesis using db B v r(1) b0 z13 p
      by (simp add: newDatabase_def wr_pre blit_pre assert_that_def header_bytes_def)
  qed
  have g: "get4 e 28 = Some 1" "get4 e 32 = Some 0" "get4 e 36 = Some 0" "get4 e 52 = Some 0" "get4 e 64 = Some 0"
  proof -
    have "get4 [0, 0, 0, 1] 0 = Some 1" "get4 [0, 0, 0, 0] 0 = Some 0"
      by (simp_all add: get4_def sqlite3Get4byte_def rd_def)
    then show "get4 e 28 = Some 1" "get4 e 32 = Some 0" "get4 e 36 = Some 0" "get4 e 52 = Some 0" "get4 e 64 = Some 0"
      using le v by (simp_all add: get4_prefix [of _ e] take_drop_nth(2) ne z)
  qed
  have "free_list b ((set_page (db\<lparr>db_calls := n, db_nPage := 1\<rparr>) 1 e)) []" "same_header b e"
    using g B(1) db(2) le v by (simp_all add: free_list_def set_page_def same_header_def take_drop_nth(2) ne z)
  then show ?thesis unfolding eq using r(2) by (auto simp: set_page_def)
qed

section \<open>Reading the header back\<close>

lemma header_page_size:
  assumes B: "valid_bt b" and d: "d ! 16 = word_of_nat (pageSize b div 2 ^ 8 mod 256)" "d ! 17 = word_of_nat (pageSize b div 2 ^ 16 mod 256)" "18 \<le> length d"
  shows "page_size_of d = Some (word_of_nat (pageSize b))"
    and "(word_of_nat (pageSize b) - 1 :: u32) AND word_of_nat (pageSize b) = 0" "(word_of_nat (pageSize b) :: u32) AND 7 = 0"
proof -
  obtain k where k: "9 \<le> k" "k \<le> 16" "pageSize b = 2 ^ k" using B unfolding valid_bt_def by blast
  then have "k \<in> {9, 10, 11, 12, 13, 14, 15, 16}" by auto
  then have "page_size_of d = Some (word_of_nat (pageSize b)) \<and> (word_of_nat (pageSize b) - 1 :: u32) AND word_of_nat (pageSize b) = 0 \<and>
      (word_of_nat (pageSize b) :: u32) AND 7 = 0"
    using d(3) by (auto simp: page_size_of_def rd_def d(1,2) k(3))
  then show "page_size_of d = Some (word_of_nat (pageSize b))"
    and "(word_of_nat (pageSize b) - 1 :: u32) AND word_of_nat (pageSize b) = 0" "(word_of_nat (pageSize b) :: u32) AND 7 = 0" by blast+
qed

lemma header_nth:
  "i < 16 \<Longrightarrow> header_bytes b ! i = zMagicHeader ! i"
  "header_bytes b ! 16 = word_of_nat (pageSize b div 2 ^ 8 mod 256)" "header_bytes b ! 17 = word_of_nat (pageSize b div 2 ^ 16 mod 256)"
  "header_bytes b ! 18 = 1" "header_bytes b ! 19 = 1" "header_bytes b ! 20 = word_of_nat (pageSize b - usableSize b)"
  "header_bytes b ! 21 = 64" "header_bytes b ! 22 = 32" "header_bytes b ! 23 = 32"
  "24 \<le> i \<Longrightarrow> i < 100 \<Longrightarrow> header_bytes b ! i = 0"
  by (simp_all add: header_bytes_def nth_append nth_Cons')

lemma limits_of:
  assumes "payload_limits b = b" "secure_delete x = secure_delete b"
  shows "payload_limits (x\<lparr>pageSize := pageSize b, usableSize := usableSize b\<rparr>) = b"
proof -
  have "payload_limits (x\<lparr>pageSize := pageSize b, usableSize := usableSize b\<rparr>) = payload_limits b"
    using assms(2) by (cases x; cases b) (simp add: payload_limits_def Let_def)
  then show ?thesis using assms(1) by simp
qed

text \<open>A list of bytes that begins like page 1 of the file.\<close>

definition shows_page1 :: "BtShared \<Rightarrow> nat \<Rightarrow> u8 list \<Rightarrow> bool" where
  "shows_page1 b n d \<longleftrightarrow> 100 \<le> length d \<and> same_header b d \<and> get4 d 28 = Some n"

lemma check_sizes_ok:
  assumes B: "valid_bt b" "pageSize b \<le> usableSize b + 255" and d: "100 \<le> length d" "same_header b d"
  shows "check_sizes env d n st =
    (if pageSize (st_bt st) \<noteq> pageSize b then
       let (rc, ps) = oe_setPagesize env (pageSize b) in
       Some (Inl (rc, st\<lparr>st_bt := (st_bt st)\<lparr>usableSize := usableSize b, pageSize := ps\<rparr>\<rparr>))
     else if \<not> oe_recovery env \<and> int (oe_nPageFile env) < n then Some (Inl (SQLITE_CORRUPT, st\<lparr>st_page1 := False\<rparr>))
     else Some (Inr (st\<lparr>st_bt := (st_bt st)\<lparr>pageSize := pageSize b, usableSize := usableSize b\<rparr>,
                       st_autoVacuum := False, st_incrVacuum := False\<rparr>)))"
proof -
  note v = valid_bt_bounds [OF B(1)]
  have nth: "d ! i = header_bytes b ! i" if "i < 24" for i using d(2) that by (simp add: same_header_def)
  note sz = header_page_size [OF B(1), of d]
  let ?w = "word_of_nat (pageSize b) :: u32"
  have fr: "get_bytes d 21 3 = Some [64, 32, 32]"
    using d(1) take_drop_nth(1) [of 21 d] by (simp add: get_bytes_Some nth header_nth)
  have uw: "unat ?w = pageSize b" using v by (simp add: unat_of_nat)
  have us: "?w - ucast (word_of_nat (pageSize b - usableSize b) :: u8) = word_of_nat (usableSize b)"
  proof -
    have "(ucast (word_of_nat x :: u8) :: u32) = word_of_nat x" if "x < 256" for x
      using that by (simp add: word_unat_eq_iff unat_of_nat unsigned_ucast_eq take_bit_nat_eq_self)
    from this [of "pageSize b - usableSize b"]
    have "(ucast (word_of_nat (pageSize b - usableSize b) :: u8) :: u32) = word_of_nat (pageSize b - usableSize b)"
      using B(2) v by linarith
    then show ?thesis using v by (simp add: of_nat_diff)
  qed
  have uu: "unat (word_of_nat (usableSize b) :: u32) = usableSize b" using v by (simp add: unat_of_nat)
  have cmp: "\<not> 65536 < ?w" "\<not> ?w \<le> 256" "\<not> (word_of_nat (usableSize b) :: u32) < 480"
    using v by (simp_all add: word_less_nat_alt word_le_nat_alt uw uu)
  have g: "get4 d 52 = Some 0" "get4 d 64 = Some 0" using d(2) by (simp_all add: same_header_def)
  show ?thesis
    using sz d(1) fr us uw uu cmp g by (simp add: check_sizes_def nth header_nth rd_def assert_that_def)
qed

text \<open>A pager without errors that shows a file of \<open>n\<close> pages and takes the page size.\<close>

definition open_ok :: "OpenEnv \<Rightarrow> BtShared \<Rightarrow> nat \<Rightarrow> bool" where
  "open_ok env b n \<longleftrightarrow> oe_lock env = SQLITE_OK \<and> oe_get env = SQLITE_OK \<and> n \<le> oe_nPageFile env \<and>
     oe_setPagesize env (pageSize b) = (SQLITE_OK, pageSize b)"

lemma check_header_ok:
  assumes "100 \<le> length d" "same_header b d"
  shows "check_header env d n st = check_sizes env d n st"
proof -
  have nth: "d ! i = header_bytes b ! i" if "i < 24" for i using assms that by (simp add: same_header_def)
  have "take 16 d = zMagicHeader" using assms(1) by (intro nth_equalityI) (simp_all add: nth header_nth)
  then show ?thesis using assms(1) by (simp add: check_header_def get_bytes_Some rd_def nth header_nth)
qed

lemma lockBtree_ok:
  assumes B: "valid_bt b" "payload_limits b = b" "pageSize b \<le> usableSize b + 255" and E: "open_ok env b n" and n: "0 < n" "n < 2 ^ 31"
    and d: "shows_page1 b n (page1 (pageSize (st_bt st)))" and st: "\<not> st_page1 st" "secure_delete (st_bt st) = secure_delete b"
  shows "lockBtree env page1 st = Some (SQLITE_OK,
    if pageSize (st_bt st) = pageSize b
    then st\<lparr>st_bt := b, st_page1 := True, st_nPage := n, st_autoVacuum := False, st_incrVacuum := False\<rparr>
    else st\<lparr>st_bt := (st_bt st)\<lparr>usableSize := usableSize b, pageSize := pageSize b\<rparr>\<rparr>)"
proof -
  let ?d = "page1 (pageSize (st_bt st))"
  note v = valid_bt_bounds [OF B(1)]
  have l: "100 \<le> length ?d" "same_header b ?d" "get4 ?d 28 = Some n" using d by (simp_all add: shows_page1_def)
  obtain w where w: "sqlite3Get4byte (drop 28 ?d) = Some w" "unat w = n" using l(3) by (auto simp: get4_def)
  have sw: "sint w = int n"
  proof -
    have "w = word_of_nat n" using w(2) by auto
    then show ?thesis using sint_of_nat_u32 [OF n(2)] by simp
  qed
  have w0: "w \<noteq> 0" using n(1) w(2) by auto
  have eq: "get_bytes ?d 24 4 = Some (take 4 (drop 24 ?d))" "get_bytes ?d 92 4 = Some (take 4 (drop 24 ?d))"
    using l(1,2) by (simp_all add: get_bytes_Some same_header_def)
  have E': "oe_lock env = SQLITE_OK" "oe_get env = SQLITE_OK" "n \<le> oe_nPageFile env" "oe_setPagesize env (pageSize b) = (SQLITE_OK, pageSize b)"
    using E by (simp_all add: open_ok_def)
  have m: "nat (int n mod 4294967296) = n" using n(2) by simp
  have lim: "payload_limits ((st_bt st)\<lparr>pageSize := pageSize b, usableSize := usableSize b\<rparr>) = b"
    by (rule limits_of [OF B(2) st(2)])
  have mx: "bt_maxLeaf b + 23 \<le> pageSize b - 8" using limits(4) [OF B(1,2)] v by linarith
  show ?thesis
    using check_sizes_ok [OF B(1,3) l(1,2), of env "int n" st] check_header_ok [OF l(1,2)] w sw w0 eq E' m lim mx n(1) st(1)
    by (simp add: lockBtree_def assert_that_def)
qed

end
