(* ===== verification/BtReach.thy ===== *)
theory BtReach
  imports BtHeaderOk
begin

text \<open>
  Histories of a database file: it is created, pages are taken into use, written and given back, meta
  values are stored, transactions are committed. What holds of every state of such a history.
\<close>

section \<open>Histories\<close>

text \<open>
  The states that the file can be in, with the set of the pages that are in use besides page 1. A step
  that fails is not one of the history, since its transaction is rolled back. A page in use may be
  written at will; of page 1 only what comes after the header. In the header the pager writes its
  change counter, whatever it is, and the connections write the meta values: any value at any place
  before the copy of the change counter, but no root page of an auto-vacuum database.
\<close>

inductive db_reach :: "BtShared \<Rightarrow> Db \<Rightarrow> nat set \<Rightarrow> bool" for b where
  new: "\<lbrakk>db_nPage db = 0; \<forall>p. length (db_page db p) = pageSize b; hdrOffset pP1 = 100;
    newDatabase pg b False False pP1 db = Some (SQLITE_OK, pP1', db')\<rbrakk> \<Longrightarrow> db_reach b db' {}"
| take: "\<lbrakk>db_reach b db U; db_nPage db + 2 < 2 ^ 32; allocateBtreePage pg b db nearby = Some (SQLITE_OK, db', p)\<rbrakk> \<Longrightarrow>
    db_reach b db' (insert p U)"
| give: "\<lbrakk>db_reach b db U; p \<in> U; freePage2 pg b db held p = Some (SQLITE_OK, db')\<rbrakk> \<Longrightarrow> db_reach b db' (U - {p})"
| store: "\<lbrakk>db_reach b db U; p \<in> insert 1 U; length d = pageSize b; p = 1 \<longrightarrow> take 100 d = take 100 (db_page db 1)\<rbrakk> \<Longrightarrow>
    db_reach b (set_page db p d) U"
| commit: "\<lbrakk>db_reach b db U; pager_write_changecounter dbFileVers (db_page db 1) = Some d\<rbrakk> \<Longrightarrow> db_reach b (set_page db 1 d) U"
| meta: "\<lbrakk>db_reach b db U; \<not> st_autoVacuum st; idx \<le> 13; idx = 4 \<longrightarrow> iMeta = 0;
    sqlite3BtreeUpdateMeta pg st idx iMeta db = Some (SQLITE_OK, st', db')\<rbrakk> \<Longrightarrow> db_reach b db' U"

inductive_cases db_reachE: "db_reach b db U"

text \<open>Every page is in exactly one place: page 1, the page of the lock bytes, in use, or on the list.\<close>

definition partition_of :: "BtShared \<Rightarrow> Db \<Rightarrow> nat set \<Rightarrow> (nat \<times> nat list) list \<Rightarrow> bool" where
  "partition_of b db U ts \<longleftrightarrow> free_list b db ts \<and> same_header b (db_page db 1) \<and> U \<inter> set (free_pages ts) = {} \<and>
     U \<union> set (free_pages ts) = {2..db_nPage db} - {PENDING_BYTE_PAGE b}"

lemma same_header_pages:
  assumes "same_pages db db' F" "same_header b (db_page db 1)" "length (db_page db 1) = pageSize b" "512 \<le> pageSize b"
    "length (db_page db' 1) = pageSize b"
  shows "same_header b (db_page db' 1)"
  by (rule same_header_cong [OF assms(2)]) (use assms in \<open>auto simp: same_pages_def\<close>)

lemma partition_page:
  assumes "partition_of b db U ts" "q \<in> U"
  shows "2 \<le> q" "q \<le> db_nPage db" "q \<noteq> PENDING_BYTE_PAGE b" "q \<notin> set (free_pages ts)"
proof -
  have "q \<in> U \<union> set (free_pages ts)" using assms(2) by blast
  also have "\<dots> = {2..db_nPage db} - {PENDING_BYTE_PAGE b}" using assms(1) unfolding partition_of_def by blast
  finally have "q \<in> {2..db_nPage db} - {PENDING_BYTE_PAGE b}" .
  then show "2 \<le> q" "q \<le> db_nPage db" "q \<noteq> PENDING_BYTE_PAGE b" by simp_all
  show "q \<notin> set (free_pages ts)" using assms by (auto simp: partition_of_def)
qed

lemma take_partition:
  assumes P: "partition_of b db U ts" and A: "allocated b db ts db' p"
  shows "p \<notin> U \<and> 2 \<le> p \<and> p \<le> db_nPage db' \<and> p \<noteq> PENDING_BYTE_PAGE b \<and> (\<forall>q \<in> U. db_page db' q = db_page db q) \<and>
    (db_nPage db' \<noteq> db_nPage db \<longrightarrow> U = {2..db_nPage db} - {PENDING_BYTE_PAGE b}) \<and> (\<exists>ts'. partition_of b db' (insert p U) ts')"
proof -
  have F: "free_list b db ts" and H: "same_header b (db_page db 1)" and D: "U \<inter> set (free_pages ts) = {}"
    and E: "U \<union> set (free_pages ts) = {2..db_nPage db} - {PENDING_BYTE_PAGE b}" using P by (simp_all add: partition_of_def)
  obtain ts' where a: "free_list b db' ts'" "same_pages db db' (insert p (set (free_pages ts)))"
    "if ts = [] then p = next_page b db \<and> db_nPage db' = p \<and> ts' = []
      else p \<in> set (free_pages ts) \<and> set (free_pages ts') = set (free_pages ts) - {p} \<and> db_nPage db' = db_nPage db"
    using A unfolding allocated_def by blast
  have l: "length (db_page db 1) = pageSize b" "512 \<le> pageSize b" "1 \<le> db_nPage db"
    using F valid_bt_bounds(3) by (auto simp: free_list_def)
  have h: "same_header b (db_page db' 1)" using same_header_pages [OF a(2) H l(1,2)] a(1) by (simp add: free_list_def)
  have u: "\<And>q. q \<in> U \<Longrightarrow> 2 \<le> q \<and> q \<le> db_nPage db \<and> q \<notin> set (free_pages ts)" using partition_page [OF P] by blast
  show ?thesis
  proof (cases "ts = []")
    case True
    then have p: "p = next_page b db" "db_nPage db' = p" "ts' = []" using a(3) by simp_all
    have new: "p = db_nPage db + 1 \<or> p = db_nPage db + 2 \<and> db_nPage db + 1 = PENDING_BYTE_PAGE b" "p \<noteq> PENDING_BYTE_PAGE b"
      using p(1) by (auto simp: next_page_def)
    have "p \<notin> U" using u [of p] new by auto
    moreover have U: "U = {2..db_nPage db} - {PENDING_BYTE_PAGE b}" using E True by simp
    then have "insert p U = {2..db_nPage db'} - {PENDING_BYTE_PAGE b}" using new p(2) l(3) by auto
    then have "partition_of b db' (insert p U) []" using a(1) h p(3) by (simp add: partition_of_def)
    moreover have "\<forall>q \<in> U. db_page db' q = db_page db q"
    proof
      fix q assume "q \<in> U"
      then have "q \<noteq> 1" "q \<notin> insert p (set (free_pages ts))" using u [of q] \<open>p \<notin> U\<close> by auto
      then show "db_page db' q = db_page db q" using a(2) by (simp add: same_pages_def)
    qed
    moreover have "2 \<le> p \<and> p \<le> db_nPage db' \<and> p \<noteq> PENDING_BYTE_PAGE b" using new p(2) l(3) by auto
    ultimately show ?thesis using U by blast
  next
    case False
    then have p: "p \<in> set (free_pages ts)" "set (free_pages ts') = set (free_pages ts) - {p}" "db_nPage db' = db_nPage db" using a(3) by simp_all
    have "2 \<le> p \<and> p \<le> db_nPage db \<and> p \<noteq> PENDING_BYTE_PAGE b" using p(1) F by (auto simp: free_list_def)
    moreover have "p \<notin> U" using p(1) D by blast
    moreover have "\<forall>q \<in> U. db_page db' q = db_page db q"
    proof
      fix q assume "q \<in> U"
      then have "q \<noteq> 1" "q \<notin> insert p (set (free_pages ts))" using u [of q] p(1) by auto
      then show "db_page db' q = db_page db q" using a(2) by (simp add: same_pages_def)
    qed
    moreover have "insert p U \<union> set (free_pages ts') = U \<union> set (free_pages ts)" "insert p U \<inter> set (free_pages ts') = {}"
      using p(1,2) D by blast+
    then have "insert p U \<union> set (free_pages ts') = {2..db_nPage db'} - {PENDING_BYTE_PAGE b}" "insert p U \<inter> set (free_pages ts') = {}"
      by (simp_all only: E p(3))
    then have "partition_of b db' (insert p U) ts'" unfolding partition_of_def using a(1) h by blast
    ultimately show ?thesis using p(3) by auto
  qed
qed

lemma give_partition:
  assumes P: "partition_of b db U ts" and R: "released b db ts p db'" and p: "p \<in> U"
  shows "(\<exists>ts'. partition_of b db' (U - {p}) ts') \<and> (\<forall>q \<in> U - {p}. db_page db' q = db_page db q)"
proof -
  have F: "free_list b db ts" and H: "same_header b (db_page db 1)" and D: "U \<inter> set (free_pages ts) = {}"
    and E: "U \<union> set (free_pages ts) = {2..db_nPage db} - {PENDING_BYTE_PAGE b}" using P by (simp_all add: partition_of_def)
  obtain ts' where r: "free_list b db' ts'" "set (free_pages ts') = insert p (set (free_pages ts))"
    "same_pages db db' (insert p (set (free_pages ts)))" "db_nPage db' = db_nPage db" using R unfolding released_def by blast
  have "length (db_page db 1) = pageSize b" "512 \<le> pageSize b" using F valid_bt_bounds(3) by (auto simp: free_list_def)
  then have h: "same_header b (db_page db' 1)" using same_header_pages [OF r(3) H] r(1) by (simp add: free_list_def)
  have "\<forall>q \<in> U - {p}. db_page db' q = db_page db q"
  proof
    fix q assume q: "q \<in> U - {p}"
    then have "q \<noteq> 1" "q \<notin> insert p (set (free_pages ts))" using partition_page [OF P, of q] by auto
    then show "db_page db' q = db_page db q" using r(3) by (simp add: same_pages_def)
  qed
  moreover have "U - {p} \<union> set (free_pages ts') = U \<union> set (free_pages ts)" "(U - {p}) \<inter> set (free_pages ts') = {}"
    unfolding r(2) using D p by auto
  then have "U - {p} \<union> set (free_pages ts') = {2..db_nPage db'} - {PENDING_BYTE_PAGE b}" "(U - {p}) \<inter> set (free_pages ts') = {}"
    by (simp_all only: E r(4))
  then have "partition_of b db' (U - {p}) ts'" unfolding partition_of_def using r(1) h by blast
  ultimately show ?thesis by blast
qed

lemma give_ok:
  assumes P: "partition_of b db U ts" and p: "p \<in> U"
  shows "\<exists>rc db'. freePage2 pg b db held p = Some (rc, db') \<and> (rc = SQLITE_OK \<longrightarrow> released b db ts p db') \<and> (io_ok pg \<longrightarrow> rc = SQLITE_OK)"
  using partition_page [OF P p] P by (intro freePage2_ok) (simp_all add: partition_of_def)

text \<open>A write into a page in use, or into page 1 such that its header stays one.\<close>

lemma write_partition:
  assumes P: "partition_of b db U ts" and p: "p \<in> insert 1 U" and d: "length d = pageSize b"
    and one: "p = 1 \<longrightarrow> same_header b d \<and> (\<forall>i \<in> {28..<40}. d ! i = db_page db 1 ! i)"
  shows "partition_of b (set_page db p d) U ts"
proof -
  have F: "free_list b db ts" and H: "same_header b (db_page db 1)" and D: "U \<inter> set (free_pages ts) = {}"
    and E: "U \<union> set (free_pages ts) = {2..db_nPage db} - {PENDING_BYTE_PAGE b}" using P by (simp_all add: partition_of_def)
  have l: "length (db_page db 1) = pageSize b" "512 \<le> pageSize b" using F valid_bt_bounds(3) by (auto simp: free_list_def)
  let ?db = "set_page db p d"
  have l1: "length (db_page ?db 1) = pageSize b" using l d by (simp add: set_page_def)
  have nth: "db_page ?db 1 ! i = db_page db 1 ! i" if "28 \<le> i" "i < 40" for i using one that by (simp add: set_page_def)
  have g: "get4 (db_page ?db 1) a = get4 (db_page db 1) a" if "a = 28 \<or> a = 32 \<or> a = 36" for a
    using that l l1 by (intro get4_cong) (auto simp del: One_nat_def intro: nth)
  have fp: "db_page ?db t = db_page db t" if "t \<in> set (free_pages ts)" for t
  proof -
    have "2 \<le> t" using that F by (auto simp: free_list_def)
    then have "t \<noteq> p" using that p partition_page(4) [OF P, of p] by auto
    then show ?thesis by (simp add: set_page_def)
  qed
  obtain a where a: "get4 (db_page db 1) 32 = Some a" "trunks (max_leaves b) (db_page db) a ts" using F by (auto simp: free_list_def)
  have "trunks (max_leaves b) (db_page ?db) a ts"
    by (rule trunks_cong [OF a(2)]) (use fst_free_pages fp in blast)
  moreover have "\<forall>q. length (db_page ?db q) = pageSize b" using F d(1) by (simp add: set_page_def free_list_def)
  moreover have "db_nPage ?db = db_nPage db" by (simp add: set_page_def)
  ultimately have "free_list b ?db ts" using F g a(1) by (auto simp: free_list_def)
  moreover have "same_header b (db_page ?db 1)" using H one by (simp add: set_page_def)
  ultimately show ?thesis using D E \<open>db_nPage ?db = db_nPage db\<close> by (simp add: partition_of_def)
qed

lemma partition_page1:
  assumes "partition_of b db U ts"
  shows "length (db_page db 1) = pageSize b" "512 \<le> pageSize b" "same_header b (db_page db 1)"
  using assms valid_bt_bounds(3) by (auto simp: partition_of_def free_list_def)

lemma partition_calls [simp]: "partition_of b (db\<lparr>db_calls := n\<rparr>) U ts = partition_of b db U ts"
  by (simp add: partition_of_def)

lemma store_partition:
  assumes P: "partition_of b db U ts" and p: "p \<in> insert 1 U" and d: "length d = pageSize b" "p = 1 \<longrightarrow> take 100 d = take 100 (db_page db 1)"
  shows "partition_of b (set_page db p d) U ts"
proof (rule write_partition [OF P p d(1)], intro impI conjI ballI)
  assume "p = 1"
  then have nth: "d ! i = db_page db 1 ! i" if "i < 100" for i using d(2) that by (metis nth_take)
  show "same_header b d"
    by (rule same_header_cong [OF partition_page1(3) [OF P]]) (use d(1) partition_page1 [OF P] nth in simp_all)
  show "d ! i = db_page db 1 ! i" if "i \<in> {28..<40}" for i using nth that by simp
qed

section \<open>Writing the header\<close>

lemma take_P4:
  "a + 4 \<le> length d \<Longrightarrow> take 4 (drop a (P4 d a v)) = be4 (word_of_nat v)"
  "a + 4 \<le> length d \<Longrightarrow> c + 4 \<le> length d \<Longrightarrow> a + 4 \<le> c \<or> c + 4 \<le> a \<Longrightarrow> take 4 (drop c (P4 d a v)) = take 4 (drop c d)"
proof -
  show "a + 4 \<le> length d \<Longrightarrow> take 4 (drop a (P4 d a v)) = be4 (word_of_nat v)" by (simp add: P4_def ov_def)
  show "a + 4 \<le> length d \<Longrightarrow> c + 4 \<le> length d \<Longrightarrow> a + 4 \<le> c \<or> c + 4 \<le> a \<Longrightarrow> take 4 (drop c (P4 d a v)) = take 4 (drop c d)"
    by (intro take_drop_cong) (auto intro!: nth_P4)
qed

lemma header_P4:
  assumes "same_header b d" "40 \<le> a" "a + 4 \<le> 92 \<or> 96 \<le> a" "a + 4 \<le> length d"
    "a \<noteq> 52 \<longrightarrow> a + 4 \<le> 52 \<or> 56 \<le> a" "a \<noteq> 64 \<longrightarrow> a + 4 \<le> 64 \<or> 68 \<le> a" "a = 52 \<or> a = 64 \<longrightarrow> v = 0" "100 \<le> length d"
  shows "same_header b (P4 d a v)"
proof -
  have "get4 (P4 d a v) c = Some 0" if "c = 52 \<or> c = 64" for c
  proof (cases "a = c")
    case True
    then show ?thesis using that assms(4,7) get4_P4 [of a d 0] by auto
  next
    case False
    then have "a + 4 \<le> c \<or> c + 4 \<le> a" using that assms(5,6) by auto
    then show ?thesis using that assms(1,4,8) get4_P4_other [of a d c v] by (auto simp: same_header_def)
  qed
  moreover have "take 4 (drop c (P4 d a v)) = take 4 (drop c d)" if "c = 24 \<or> c = 92" for c
    using that assms by (intro take_P4(2)) auto
  ultimately show ?thesis using assms by (simp add: same_header_def nth_P4)
qed

lemma commit_partition:
  assumes P: "partition_of b db U ts" and w: "pager_write_changecounter dbFileVers (db_page db 1) = Some d"
  shows "partition_of b (set_page db 1 d) U ts"
proof -
  let ?D = "db_page db 1"
  note l = partition_page1 [OF P]
  obtain c where d: "d = P4 (P4 (P4 ?D 24 c) 92 c) 96 SQLITE_VERSION_NUMBER"
    using w l(1,2) by (auto simp: pager_write_changecounter_def put4_P4 Let_def Option.bind_eq_Some_conv)
  let ?e = "P4 (P4 ?D 24 c) 92 c"
  have nth: "d ! i = ?D ! i" if "i < 100" "i \<notin> {24..<28}" "i \<notin> {92..<100}" for i
    using that l(1,2) by (simp add: d nth_P4)
  have "get4 ?e a = get4 ?D a" if "a = 52 \<or> a = 64" for a using that l(1,2) by (auto simp: get4_P4_other)
  moreover have "take 4 (drop 24 ?e) = take 4 (drop 92 ?e)" using l(1,2) by (simp add: take_P4)
  ultimately have "same_header b ?e" using l by (simp add: same_header_def nth_P4)
  then have "same_header b d" unfolding d by (rule header_P4) (use l(1,2) in simp_all)
  then show ?thesis using nth l(1,2) by (intro write_partition [OF P]) (simp_all add: d)
qed

lemma meta_partition:
  assumes P: "partition_of b db U ts" and st: "\<not> st_autoVacuum st" and i: "idx \<le> 13" "idx = 4 \<longrightarrow> iMeta = 0"
    and w: "sqlite3BtreeUpdateMeta pg st idx iMeta db = Some (SQLITE_OK, st', db')"
  shows "partition_of b db' U ts"
proof -
  note l = partition_page1 [OF P]
  let ?a = "36 + idx * 4"
  obtain r n where r: "pager_call pg db = (r, db\<lparr>db_calls := n\<rparr>)" by (rule pager_call_cases)
  have x: "1 \<le> idx" "idx = 7 \<longrightarrow> iMeta = 0" "db' = set_page (db\<lparr>db_calls := n\<rparr>) 1 (P4 (db_page db 1) ?a (unat iMeta))"
    using w l(1,2) i(1) st
    by (auto simp: sqlite3BtreeUpdateMeta_def r put4_P4 assert_that_def BTREE_INCR_VACUUM_def Let_def split: if_splits)
  have "same_header b (P4 (db_page db 1) ?a (unat iMeta))"
    by (rule header_P4 [OF l(3)]) (use l(1,2) i x(1,2) in auto)
  moreover have "P4 (db_page db 1) ?a (unat iMeta) ! k = db_page db 1 ! k" if "k \<in> {28..<40}" for k
    using that l(1,2) i(1) x(1) by (intro nth_P4) auto
  ultimately show ?thesis unfolding x(3)
    using P l(1,2) i(1) by (intro write_partition) simp_all
qed

text \<open>The invariant of all histories.\<close>

lemma reach_partition:
  assumes B: "valid_bt b" "payload_limits b = b" "pageSize b \<le> usableSize b + 255"
  shows "db_reach b db U \<Longrightarrow> \<exists>ts. partition_of b db U ts"
proof (induction rule: db_reach.induct)
  case (new db pP1 pg pP1' db')
  from newDatabase_ok [OF B, of db pP1 pg] new have "free_list b db' []" "same_header b (db_page db' 1)" "db_nPage db' = 1" by auto
  then show ?case by (auto simp: partition_of_def intro!: exI [of _ "[]"])
next
  case (take db U pg nearby db' p)
  then obtain ts where P: "partition_of b db U ts" by blast
  then have "allocated b db ts db' p"
    using allocateBtreePage_ok [of b db ts pg nearby] take by (auto simp: partition_of_def)
  then show ?case using take_partition [OF P] by blast
next
  case (give db U p pg held db')
  then obtain ts where P: "partition_of b db U ts" by blast
  then have "released b db ts p db'" using give_ok [OF P give.hyps(2), of pg held] give by auto
  then show ?case using give_partition [OF P _ give.hyps(2)] by blast
next
  case (store db U p d)
  then show ?case using store_partition by blast
next
  case (commit db U dbFileVers d)
  then show ?case using commit_partition by blast
next
  case (meta db U st idx iMeta pg st' db')
  then show ?case using meta_partition by blast
qed

end
