(* ===== verification/BtInit.thy ===== *)
theory BtInit
  imports BtHist
begin

text \<open>
  \<^verbatim>\<open>btreeInitPage\<close> recovers every field of a page from its image, and a cell that does not fit is kept
  beside the page, where \<^verbatim>\<open>findOverflowCell\<close> finds it.
\<close>

section \<open>Counting the free bytes\<close>

lemma card_used:
  assumes "apart os cs"
  shows "card (used os cs) = csize cs"
proof -
  have "card (used os cs) = (\<Sum>i < length cs. card (ext os cs i))"
    unfolding used_def using assms by (intro card_UN_disjoint) (auto simp: apart_def ext_def)
  also have "\<dots> = (\<Sum>i < length cs. map length cs ! i)" by (simp add: ext_def)
  also have "\<dots> = csize cs" by (simp add: sum_list_sum_nth atLeast0LessThan)
  finally show ?thesis .
qed

lemma init_free_ok:
  "fl d a fb \<Longrightarrow> chain 4 m u fb \<Longrightarrow> i \<le> m \<Longrightarrow> u \<le> length d \<Longrightarrow>
   init_free d u i (g2 d a) n = Some (Some (n + card (blocks fb)))"
proof (induction fb arbitrary: a m n)
  case Nil
  then show ?case by (subst init_free.simps) simp
next
  case (Cons x fb)
  obtain q s where x: "x = (q, s)" by (cases x)
  note f = Cons.prems(1,2) [unfolded x fl.simps chain.simps]
  have rds: "get2byte d q = Some (g2 d q)" "get2byte d (q + 2) = Some s"
    using f Cons.prems(4) by (simp_all add: get2byte_g2)
  have c: "(q = 0) = False" "(q < i \<or> u - 4 < q) = False" using f Cons.prems(3) by auto
  have nx: "(0 < g2 d q \<and> g2 d q \<le> q + s + 3 \<or> u < q + s) = False" using f by (cases fb) auto
  have ga: "g2 d a = q" using f by simp
  have disj: "{q..<q + s} \<inter> blocks fb = {}" using chain_blocks [of 4 "q + s + 4" u fb] f by auto
  have "init_free d u i (g2 d a) n = init_free d u i (g2 d q) (n + s)"
    unfolding ga by (subst init_free.simps) (simp only: rds c nx if_False Option.bind.bind_lunit)
  also have "\<dots> = Some (Some (n + s + card (blocks fb)))"
    using f Cons.prems(3,4) by (intro Cons.IH [of q "q + s + 4"]) auto
  also have "n + s + card (blocks fb) = n + card (blocks (x # fb))"
    using disj by (simp add: x card_Un_disjoint)
  finally show ?case .
qed

lemma space_count:
  assumes S: "space hdr u d t fb C"
  shows "unat (d ! (hdr + 7)) + t + card (blocks fb) + card C = u"
proof -
  note sp = S [unfolded space_def]
  have b: "blocks fb \<subseteq> {t..<u}" using sp chain_blocks [of 4 t u fb] by blast
  have fin: "finite C" using sp finite_subset [of C "{t..<u}"] by blast
  have "card ({t..<u} - C - blocks fb) = card ({t..<u} - C) - card (blocks fb)"
    using b sp by (intro card_Diff_subset) auto
  moreover have "card ({t..<u} - C) = u - t - card C" using sp fin by (simp add: card_Diff_subset)
  moreover have "card (C \<union> blocks fb) \<le> card {t..<u}" using sp b by (intro card_mono) auto
  then have "card C + card (blocks fb) \<le> u - t" using sp fin by (simp add: card_Un_disjoint)
  moreover have "unat (d ! (hdr + 7)) = card ({t..<u} - C - blocks fb)" "t \<le> u" using sp by blast+
  ultimately show ?thesis by linarith
qed

section \<open>Reading a page back\<close>

lemma MemPage_eqI:
  assumes "isInit p = isInit q" "nOverflow p = nOverflow q" "intKey p = intKey q" "leaf p = leaf q" "hasData p = hasData q"
    "hdrOffset p = hdrOffset q" "childPtrSize p = childPtrSize q" "max1bytePayload p = max1bytePayload q" "maxLocal p = maxLocal q"
    "minLocal p = minLocal q" "cellOffset p = cellOffset q" "nFree p = nFree q" "nCell p = nCell q" "maskPage p = maskPage q"
    "aiOvfl p = aiOvfl q" "apOvfl p = apOvfl q" "aData p = aData q" "aDataEnd p = aDataEnd q" "aCellIdx p = aCellIdx q"
  shows "p = (q :: MemPage)"
  by (rule MemPage.equality) (use assms in simp_all)

text \<open>What \<^verbatim>\<open>decodeFlags\<close> does depends on the flag byte alone.\<close>

lemma decodeFlags_fields:
  assumes "decodeFlags b p f = (SQLITE_OK, p)"
  shows "decodeFlags b q f = (SQLITE_OK, q\<lparr>leaf := leaf p, childPtrSize := childPtrSize p, intKey := intKey p, hasData := hasData p,
    maxLocal := maxLocal p, minLocal := minLocal p, max1bytePayload := max1bytePayload p\<rparr>)"
proof -
  obtain l c ik hd mx mn m1 where D: "\<And>q. decodeFlags b q f = (SQLITE_OK, q\<lparr>leaf := l, childPtrSize := c, intKey := ik, hasData := hd,
      maxLocal := mx, minLocal := mn, max1bytePayload := m1\<rparr>)"
  proof -
    let ?k = "f - (f AND PTF_LEAF)"
    consider "?k = (PTF_LEAFDATA OR PTF_INTKEY)" | "?k \<noteq> (PTF_LEAFDATA OR PTF_INTKEY)" "?k = PTF_ZERODATA"
      using assms by (auto simp: decodeFlags_def Let_def split: if_splits)
    then show thesis
    proof cases
      case 1
      show thesis
        by (rule that [of "bt_max1bytePayload b" "bt_minLeaf b" "bt_maxLeaf b" "drop_bit 3 f \<noteq> 0" True
              "nat ((4 - 4 * int (drop_bit 3 f)) mod 256)" "drop_bit 3 f"]) (simp only: decodeFlags_def Let_def 1 if_True refl)
    next
      case 2
      show thesis
        by (rule that [of "bt_max1bytePayload b" "bt_minLocal b" "bt_maxLocal b" False False
              "nat ((4 - 4 * int (drop_bit 3 f)) mod 256)" "drop_bit 3 f"]) (simp only: decodeFlags_def Let_def 2(1) 2(2) [symmetric] if_True if_False refl simp_thms)
    qed
  qed
  have p: "p\<lparr>leaf := l, childPtrSize := c, intKey := ik, hasData := hd, maxLocal := mx, minLocal := mn, max1bytePayload := m1\<rparr> = p"
    using assms D [of p] by simp
  have "leaf p = l" "childPtrSize p = c" "intKey p = ik" "hasData p = hd" "maxLocal p = mx" "minLocal p = mn" "max1bytePayload p = m1"
    by (subst p [symmetric], simp)+
  then show ?thesis using D [of q] by simp
qed

theorem reload:
  assumes R: "page_rep b p cs" and T: "page_typed b p" and q: "aData q = aData p" "hdrOffset q = hdrOffset p" "\<not> isInit q"
  shows "btreeInitPage b q = Some (SQLITE_OK, p\<lparr>aiOvfl := aiOvfl q, apOvfl := apOvfl q\<rparr>)"
proof -
  let ?d = "aData p" and ?hdr = "hdrOffset p" and ?u = "usableSize b" and ?off = "cellOffset p"
  let ?g = "?off + 2 * length cs"
  note r = page_repD [OF R]
  note w = page_bounds [OF r(1)]
  obtain os t fb where I: "img b p ?d cs {} ?g os t fb" using r(6) by blast
  note m = imgD [OF I]
  have sp: "space ?hdr ?u ?d t fb (used os cs)" using m(7) by simp
  note s = sp [unfolded space_def]
  have h8: "?hdr + 8 < pageSize b" using s w(1) m(5) r(5) cell_length [OF r(1,4)] w(3) wf_pageD(4) [OF r(1)] w by simp
  define free where "free = unat (?d ! (?hdr + 7)) + t + card (blocks fb)"
  have free: "free = nFree p + ?g" using space_count [OF sp] card_used [OF m(3)] r(5) by (simp add: free_def)
  define q1 where "q1 = q\<lparr>leaf := leaf p, childPtrSize := childPtrSize p, intKey := intKey p, hasData := hasData p,
    maxLocal := maxLocal p, minLocal := minLocal p, max1bytePayload := max1bytePayload p\<rparr>"
  have D: "decodeFlags b q (unat (?d ! ?hdr)) = (SQLITE_OK, q1)"
    unfolding q1_def using T by (intro decodeFlags_fields) (simp add: page_typed_def)
  define q2 where "q2 = q1\<lparr>maskPage := pageSize b - 1, nOverflow := 0, cellOffset := ?off, aDataEnd := ?u, aCellIdx := ?off,
    nCell := length cs, nFree := nFree p, isInit := True\<rparr>"
  have 1: "rd ?d ?hdr = Some (?d ! ?hdr)" "rd ?d (?hdr + 7) = Some (?d ! (?hdr + 7))" using h8 w(10) by (simp_all add: rd_def)
  have 2: "get2byteNotZero ?d (?hdr + 5) = Some t" using space_top(1) [OF sp] .
  have 3: "get2byte ?d (?hdr + 3) = Some (length cs)" "get2byte ?d (?hdr + 1) = Some (g2 ?d (?hdr + 1))"
    using r(3) h8 w(10) by (simp_all add: get2byte_g2)
  have 4: "init_free ?d ?u ?g (g2 ?d (?hdr + 1)) (unat (?d ! (?hdr + 7)) + t) = Some (Some free)"
    unfolding free_def using s m(5) by (intro init_free_ok [where m = t]) auto
  have 5: "nat ((int free - int ?g) mod 65536) = nFree p"
  proof -
    have "nFree p < 65536" using r(5) w(1,3,4) by linarith
    then show ?thesis unfolding free by simp
  qed
  have 6: "(pageSize b - 1) mod 65536 = pageSize b - 1" "\<not> MX_CELL b < length cs" "\<not> ?u < free"
    using w page_mx [OF R] free r(5) by simp_all
  have "btreeInitPage b q = Some (SQLITE_OK, q2)"
    using q(3) 6 1 2 3 4 5 w(4,5,8) D unfolding btreeInitPage_def q(1,2)
    by (simp add: Let_def q2_def q1_def)
  moreover have "q2 = p\<lparr>aiOvfl := aiOvfl q, apOvfl := apOvfl q\<rparr>"
    by (rule MemPage_eqI) (use r w q T in \<open>simp_all add: q2_def q1_def page_typed_def wf_page_def\<close>)
  ultimately show ?thesis by simp
qed

section \<open>Cells that do not fit\<close>

lemma insertCell_full:
  assumes R: "page_rep b p cs" and i: "i \<le> length cs"
    and z: "cellSizePtr b p z = Some n" "n \<le> length z" and ch: "cell_with_child (take n z) ch = Some c"
    and full: "nFree p < n + 2"
  shows "insertCell b p tmp i z n ch pw SQLITE_OK = Some (SQLITE_OK, p\<lparr>nOverflow := 1, apOvfl := [c], aiOvfl := [i]\<rparr>)"
proof -
  note r = page_repD [OF R]
  have "i mod 65536 = i" using i page_mx [OF R] by simp
  moreover have "get_bytes z 0 n = Some (take n z)" using z(2) by (simp add: get_bytes_Some)
  moreover have "assert_that (i \<le> nCell p + nOverflow p \<and> nCell p \<le> MX_CELL b \<and> MX_CELL b \<le> 10921 \<and> nOverflow p \<le> 5) = Some ()"
    using page_bounds(6) [OF r(1)] i r(2) page_mx [OF R] by simp
  ultimately show ?thesis using z(1) ch full page_bounds(6) [OF r(1)] by (simp add: insertCell_def Let_def)
qed

theorem overflow_found:
  assumes R: "page_rep b p cs" and i: "i \<le> length cs" and j: "j \<le> length cs"
    and p': "p' = p\<lparr>nOverflow := 1, apOvfl := [c], aiOvfl := [i]\<rparr>"
  shows "\<exists>z. findOverflowCell p' j = Some z \<and> take (length (ins_at i c cs ! j)) z = ins_at i c cs ! j"
proof -
  obtain os t fb where I: "img b p (aData p) cs {} (cellOffset p + 2 * length cs) os t fb" using page_repD(6) [OF R] by blast
  have f: "findCell p' k = Some (os ! k) \<and> take (length (cs ! k)) (drop (os ! k) (aData p')) = cs ! k" if "k < length cs" for k
    using findCell_ok(1,2) [OF R I that] by (simp add: findCell_def p')
  have "findOverflowCell p' j = (if i \<le> j then if i = j then Some c else do { a \<leftarrow> findCell p' (j - 1); Some (drop a (aData p')) }
      else do { a \<leftarrow> findCell p' j; Some (drop a (aData p')) })"
    by (simp add: findOverflowCell_def p' rd_def)
  then show ?thesis using f [of j] f [of "j - 1"] i j by (auto simp: nth_ins_at)
qed

end
