(* ===== verification/BtLaws.thy ===== *)
theory BtLaws
  imports BtInit
begin

text \<open>The properties of the b-tree page layer, with a page of 512 bytes for the witnesses.\<close>

section \<open>A page of 512 bytes\<close>

text \<open>The parameters of a database with pages of 512 bytes, and a page buffer before \<^verbatim>\<open>zeroPage\<close>.\<close>

definition bt512 :: BtShared where
  "bt512 = \<lparr>secure_delete = False, bt_max1bytePayload = 102, bt_maxLocal = 102, bt_minLocal = 39, bt_maxLeaf = 477,
     bt_minLeaf = 39, pageSize = 512, usableSize = 512\<rparr>"

definition raw512 :: MemPage where
  "raw512 = \<lparr>isInit = False, nOverflow = 0, intKey = False, leaf = 0, hasData = False, hdrOffset = 0, childPtrSize = 0,
     max1bytePayload = 0, maxLocal = 0, minLocal = 0, cellOffset = 0, nFree = 0, nCell = 0, maskPage = 0, aiOvfl = [], apOvfl = [],
     aData = replicate 512 0, aDataEnd = 0, aCellIdx = 0\<rparr>"

text \<open>A leaf of a table on that buffer, and two of its cells: payload size, rowid, payload.\<close>

definition leaf512 :: MemPage where "leaf512 = the (zeroPage bt512 raw512 13)"

definition cell_a :: "u8 list" where "cell_a = [2, 1, 11, 12]"
definition cell_b :: "u8 list" where "cell_b = [3, 2, 21, 22, 23]"

lemma valid_bt512: "valid_bt bt512" "payload_limits bt512 = bt512" "pageSize bt512 = 512" "usableSize bt512 = 512"
proof -
  show "valid_bt bt512" unfolding valid_bt_def by (intro conjI exI [of _ 9]) (simp_all add: bt512_def)
  show "payload_limits bt512 = bt512" by (simp add: payload_limits_def bt512_def Let_def)
qed (simp_all add: bt512_def)

lemma raw512_ok: "length (aData raw512) = 512" "hdrOffset raw512 = 0" "\<not> isInit raw512" "aiOvfl raw512 = []" "apOvfl raw512 = []"
  by (simp_all add: raw512_def)

lemma leaf512_ok: "zeroPage bt512 raw512 13 = Some leaf512" "page_rep bt512 leaf512 []" "page_typed bt512 leaf512"
  "hdrOffset leaf512 = 0"
proof -
  obtain q where q: "zeroPage bt512 raw512 13 = Some q" "page_rep bt512 q []" "page_typed bt512 q" "hdrOffset q = hdrOffset raw512"
    using zeroPage_ok [OF valid_bt512(1,2), of raw512 13] raw512_ok valid_bt512 by auto
  then have "leaf512 = q" by (simp add: leaf512_def)
  then show "zeroPage bt512 raw512 13 = Some leaf512" "page_rep bt512 leaf512 []" "page_typed bt512 leaf512" "hdrOffset leaf512 = 0"
    using q raw512_ok by simp_all
qed

lemma leaf512_fields: "intKey leaf512" "hasData leaf512" "leaf leaf512 = 1" "childPtrSize leaf512 = 0" "maxLocal leaf512 = 477"
  "minLocal leaf512 = 39" "cellOffset leaf512 = 8" "nFree leaf512 = 504"
proof -
  have d: "aData leaf512 ! 0 = 13"
    using zeroPage_ok [OF valid_bt512(1,2), of raw512 13] raw512_ok valid_bt512 leaf512_ok(1) by auto
  have "decodeFlags bt512 leaf512 13 = (SQLITE_OK, leaf512)" using leaf512_ok(3,4) d by (simp add: page_typed_def)
  moreover have "decodeFlags bt512 leaf512 13 = (SQLITE_OK, leaf512\<lparr>leaf := 1, childPtrSize := 0, intKey := True, hasData := True,
      maxLocal := 477, minLocal := 39, max1bytePayload := 102\<rparr>)"
    using decodeFlags_cases [of 13 bt512 leaf512] by (simp add: bt512_def)
  ultimately have e: "leaf512\<lparr>leaf := 1, childPtrSize := 0, intKey := True, hasData := True, maxLocal := 477, minLocal := 39,
      max1bytePayload := 102\<rparr> = leaf512" by simp
  show "intKey leaf512" "hasData leaf512" and l: "leaf leaf512 = 1" and "childPtrSize leaf512 = 0" "maxLocal leaf512 = 477"
    "minLocal leaf512 = 39" by (subst e [symmetric], simp)+
  show c: "cellOffset leaf512 = 8" using page_bounds(8) [OF page_repD(1) [OF leaf512_ok(2)]] l leaf512_ok(4) by simp
  show "nFree leaf512 = 504" using page_repD(5) [OF leaf512_ok(2)] c valid_bt512 by simp
qed

lemma cells512: "cellSizePtr bt512 leaf512 cell_a = Some 4" "cellSizePtr bt512 leaf512 cell_b = Some 5"
proof -
  note W = page_repD(1) [OF leaf512_ok(2)]
  have "cell_head leaf512 cell_a = Some (2, 2)" "cell_head leaf512 cell_b = Some (3, 2)"
    by (simp_all add: cell_head_def leaf512_fields cell_a_def cell_b_def getVarint32_def rd_def skip_varint.simps)
  then show "cellSizePtr bt512 leaf512 cell_a = Some 4" "cellSizePtr bt512 leaf512 cell_b = Some 5"
    by (simp_all add: cellSizePtr_eq [OF W] local_bytes_def leaf512_fields)
qed

lemma lens512: "length cell_a = 4" "length cell_b = 5"
  by (simp_all add: cell_a_def cell_b_def)

definition ops512 :: "page_op list" where
  "ops512 = [InsertCell 0 cell_b 0, InsertCell 0 cell_a 0, DropCell 1, Defragment]"

lemma run512:
  "iterate (cells_step bt512 leaf512) [] ops512 = Some [cell_a]"
  by (simp add: ops512_def cells512 leaf512_fields valid_bt512 cell_with_child_def ins_at_def del_at_def lens512)

text \<open>A page without room for another cell of the size of the one it holds.\<close>

definition cell_c :: "u8 list" where "cell_c = [0x83, 0x56, 1] @ replicate 470 0"

definition full512 :: MemPage where
  "full512 = the (iterate (page_step bt512 (replicate 512 7)) leaf512 [InsertCell 0 cell_c 0])"

lemma cell_c_ok: "length cell_c = 473" "cellSizePtr bt512 leaf512 cell_c = Some 473"
proof -
  show "length cell_c = 473" by (simp add: cell_c_def)
  have "cell_head leaf512 cell_c = Some (470, 3)"
    by (simp add: cell_head_def leaf512_fields cell_c_def getVarint32_def sqlite3GetVarint32_def rd_def skip_varint.simps)
  then show "cellSizePtr bt512 leaf512 cell_c = Some 473"
    by (simp add: cellSizePtr_eq [OF page_repD(1) [OF leaf512_ok(2)]] local_bytes_def leaf512_fields)
qed

text \<open>The header of a leaf with two cells whose content begins at byte 9, inside the pointer array.\<close>

definition bad512 :: MemPage where
  "bad512 = raw512\<lparr>aData := [13, 0, 0, 0, 2, 0, 9, 0] @ replicate 504 0\<rparr>"

section \<open>Properties\<close>

lemma page_from_zero:
  assumes "valid_bt b" "payload_limits b = b" "length (aData p) = pageSize b" "hdrOffset p \<le> 100" "flags \<in> {2, 10, 5, 13}"
    "length tmp = pageSize b" "zeroPage b p flags = Some p0" "iterate (cells_step b p0) [] ops = Some cs"
  shows "\<exists>q. iterate (page_step b tmp) p0 ops = Some q \<and> page_rel b p0 q cs" "page_typed b p0"
proof -
  obtain q where "zeroPage b p flags = Some q" "page_rep b q []" "page_typed b q" using zeroPage_ok [OF assms(1-5)] by blast
  then have p0: "page_rep b p0 []" "page_typed b p0" using assms(7) by simp_all
  have "page_rel b p0 p0 []" using p0 by (simp add: page_rel_def)
  then show "\<exists>q. iterate (page_step b tmp) p0 ops = Some q \<and> page_rel b p0 q cs"
    using pages.run_sim [of tmp b p0 p0 "[]" ops cs] assms(6,8) by auto
  show "page_typed b p0" by (fact p0(2))
qed

lemma image_cell:
  assumes W: "wf_page b p" and I: "img b p d cs X g os t fb" and sz: "list_all (\<lambda>c. cellSizePtr b p c = Some (length c)) cs"
    and g: "cellOffset p + 2 * length cs \<le> g" and i: "i < length cs"
  shows "\<exists>a. findCell (p\<lparr>aData := d\<rparr>) i = Some a \<and> take (length (cs ! i)) (drop a d) = cs ! i \<and> {a..<a + length (cs ! i)} \<inter> X = {}"
proof -
  note w = page_bounds [OF W] and m = imgD [OF I]
  note e = cell_extent [OF W I i cell_length(1) [OF W sz i]]
  have "cellOffset p + 2 * i + 1 < length d" using i g m(1,5,6) w(3) by linarith
  then have "get2byte d (aCellIdx p + 2 * i) = Some (os ! i)" using m(2) i w(7) by (simp add: get2byte_g2 cells_at_def)
  moreover have "maskPage p AND (os ! i) = os ! i" using mask_pointer [OF W] e cell_length(1) [OF W sz i] w(3) by simp
  moreover have "{os ! i..<os ! i + length (cs ! i)} \<inter> X = {}" using ext_used [OF i, of os] m(4) unfolding ext_def by blast
  ultimately show ?thesis using m(2) i by (intro exI [of _ "os ! i"]) (simp add: findCell_def cells_at_def)
qed

lemma page_cell_type:
  assumes R: "page_rep b q cs" and i: "i < nCell q"
  shows "\<exists>a info. findCell q i = Some a \<and> cellOffset q + 2 * nCell q \<le> a \<and> btreeParseCell b q i = Some info \<and>
    ci_nSize info = length (cs ! i) \<and> a + ci_nSize info \<le> usableSize b"
proof -
  have j: "i < length cs" using i page_repD(2) [OF R] by simp
  note W = page_repD(1) [OF R]
  obtain os t fb where I: "img b q (aData q) cs {} (cellOffset q + 2 * length cs) os t fb" using page_repD(6) [OF R] by blast
  note f = findCell_ok [OF R I j] and e = cell_extent [OF W I j cell_length(1) [OF W page_repD(4) [OF R] j]]
  have "cellSizePtr b q (drop (os ! i) (aData q)) = Some (length (cs ! i))" using f(1,3) by (simp add: cellSize_def)
  then obtain info where "btreeParseCellPtr b q (drop (os ! i) (aData q)) = Some info" "ci_nSize info = length (cs ! i)"
    unfolding cellSize_parse [OF W] by auto
  then show ?thesis using f(1) e imgD(5) [OF I] page_repD(2) [OF R] by (intro exI [of _ "os ! i"] exI [of _ info]) (simp add: btreeParseCell_def)
qed

lemma page_rel_typed:
  assumes "page_rel b p0 p cs" "page_typed b p0"
  shows "page_typed b p"
proof -
  have p: "p = p0\<lparr>nFree := nFree p, nCell := nCell p, aData := aData p\<rparr>" using assms(1) by (simp add: page_rel_def)
  have f: "leaf p = leaf p0" "childPtrSize p = childPtrSize p0" "intKey p = intKey p0" "hasData p = hasData p0" "maxLocal p = maxLocal p0"
    "minLocal p = minLocal p0" "max1bytePayload p = max1bytePayload p0" "isInit p = isInit p0" "aDataEnd p = aDataEnd p0"
    by (subst p, simp)+
  have "decodeFlags b p (unat (aData p ! hdrOffset p)) = (SQLITE_OK, p)"
    using decodeFlags_fields [of b p0 "unat (aData p ! hdrOffset p)" p] assms
    by (simp add: page_typed_def page_rel_def flip: f)
  then show ?thesis using assms(2) f(8,9) by (simp add: page_typed_def)
qed

lemma page_cells:
  assumes "page_rep b q cs" "i < length cs"
  shows "\<exists>a. findCell q i = Some a \<and> take (length (cs ! i)) (drop a (aData q)) = cs ! i"
  using findCell_ok(1,2) [OF assms(1) _ assms(2)] page_repD(6) [OF assms(1)] by blast

lemma page512: "\<exists>q. iterate (page_step bt512 (replicate 512 7)) leaf512 ops512 = Some q \<and> page_rel bt512 leaf512 q [cell_a]"
  using page_from_zero(1) [OF valid_bt512(1,2), of raw512 13 "replicate 512 7" leaf512 ops512 "[cell_a]"]
  by (auto simp: raw512_ok leaf512_ok run512 valid_bt512)

lemma full512_ok: "page_rep bt512 full512 [cell_c]" "nFree full512 = 29" "cellSizePtr bt512 full512 cell_c = Some 473"
proof -
  have "iterate (cells_step bt512 leaf512) [] [InsertCell 0 cell_c 0] = Some [cell_c]"
    by (simp add: cell_c_ok leaf512_fields valid_bt512 cell_with_child_def ins_at_def)
  then obtain q where q: "iterate (page_step bt512 (replicate 512 7)) leaf512 [InsertCell 0 cell_c 0] = Some q"
    "page_rel bt512 leaf512 q [cell_c]"
    using page_from_zero(1) [OF valid_bt512(1,2), of raw512 13 "replicate 512 7" leaf512 "[InsertCell 0 cell_c 0]" "[cell_c]"]
    by (auto simp: raw512_ok leaf512_ok valid_bt512 simp del: iterate.simps)
  have f: "full512 = q" unfolding full512_def q(1) by simp
  show R: "page_rep bt512 full512 [cell_c]" unfolding f using q(2) by (simp add: page_rel_def)
  show "cellSizePtr bt512 full512 cell_c = Some 473" unfolding f page_rel_static(1) [OF q(2)] by (rule cell_c_ok(2))
  have "cellOffset full512 = 8" unfolding f page_rel_static(3) [OF q(2)] by (rule leaf512_fields)
  then show "nFree full512 = 29" using page_repD(5) [OF R] cell_c_ok(1) valid_bt512 by simp
qed

text \<open>
  Property \<^bold>\<open>C4\<close>: a page under the space management and the cell operations of \<^verbatim>\<open>btree.c\<close> is a list of
  cells. After \<^verbatim>\<open>zeroPage\<close>, every sequence of insertions, removals and defragmentations for which the
  cells fit succeeds, whatever the buffer of the pager held; the pointer array then leads to exactly
  the cells that the list operations give, byte for byte, and \<^verbatim>\<open>nFree\<close> is exactly the space they leave.
\<close>

theorem page_history:
  assumes "valid_bt b" "payload_limits b = b" "length (aData p) = pageSize b" "hdrOffset p \<le> 100" "flags \<in> {2, 10, 5, 13}"
    "length tmp = pageSize b" "zeroPage b p flags = Some p0" "iterate (cells_step b p0) [] ops = Some cs"
  shows "\<exists>q. iterate (page_step b tmp) p0 ops = Some q \<and> nCell q = length cs \<and>
    (\<forall>i < length cs. \<exists>a. findCell q i = Some a \<and> take (length (cs ! i)) (drop a (aData q)) = cs ! i) \<and>
    nFree q = usableSize b - (cellOffset p0 + 2 * length cs + csize cs)"
proof -
  obtain q where q: "iterate (page_step b tmp) p0 ops = Some q" "page_rel b p0 q cs"
    using page_from_zero(1) [OF assms] by blast
  then have r: "page_rep b q cs" by (simp add: page_rel_def)
  have "nFree q = usableSize b - (cellOffset p0 + 2 * length cs + csize cs)"
    using page_repD(5) [OF r] page_rel_static(3) [OF q(2)] by simp
  then show ?thesis using q(1) page_cells [OF r] page_repD(2) [OF r] by blast
qed

theorem page_history_witness:
  "\<exists>q. iterate (page_step bt512 (replicate 512 7)) leaf512 ops512 = Some q \<and>
    nCell q = 1 \<and> nFree q = 498"
  using page_history [OF valid_bt512(1,2), of raw512 13 "replicate 512 7" leaf512
      ops512 "[cell_a]"]
  by (auto simp: raw512_ok leaf512_ok run512 valid_bt512 leaf512_fields lens512)

text \<open>
  Property \<^bold>\<open>C16\<close>: writing a page and reading it back loses nothing. From the image that such a sequence
  of operations leaves, \<^verbatim>\<open>btreeInitPage\<close> recovers the kind of the page, the number of its cells, the
  free space and every other field of the structure; only the overflow cells are not part of a page.
\<close>

theorem page_reload:
  assumes "valid_bt b" "payload_limits b = b" "length (aData p) = pageSize b" "hdrOffset p \<le> 100" "flags \<in> {2, 10, 5, 13}"
    "length tmp = pageSize b" "zeroPage b p flags = Some p0" "iterate (cells_step b p0) [] ops = Some cs"
    "iterate (page_step b tmp) p0 ops = Some q" "aData r = aData q" "hdrOffset r = hdrOffset q" "\<not> isInit r"
  shows "btreeInitPage b r = Some (SQLITE_OK, q\<lparr>aiOvfl := aiOvfl r, apOvfl := apOvfl r\<rparr>)"
proof -
  have "page_rel b p0 q cs" "page_typed b p0" using page_from_zero [OF assms(1-8)] assms(9) by auto
  then show ?thesis using page_rel_typed assms(10-12) by (intro reload) (auto simp: page_rel_def)
qed

theorem page_reload_witness:
  "\<exists>q. iterate (page_step bt512 (replicate 512 7)) leaf512 ops512 = Some q \<and>
    btreeInitPage bt512 (raw512\<lparr>aData := aData q\<rparr>) = Some (SQLITE_OK, q\<lparr>aiOvfl := [], apOvfl := []\<rparr>)"
proof -
  obtain q where q: "iterate (page_step bt512 (replicate 512 7)) leaf512 ops512 = Some q"
    "page_rel bt512 leaf512 q [cell_a]"
    using page512 by blast
  have "hdrOffset q = 0" using page_rel_static(4) [OF q(2)] leaf512_ok(4) by simp
  then show ?thesis using q(1) page_reload [OF valid_bt512(1,2), of raw512 13 "replicate 512 7" leaf512
      ops512 "[cell_a]" q "raw512\<lparr>aData := aData q\<rparr>"]
    by (auto simp: raw512_ok leaf512_ok run512 valid_bt512)
qed

text \<open>
  Property \<^bold>\<open>C15\<close>: the pages that these operations produce are well typed. The flag byte determines the
  kind and the payload limits of the page, the pointer array and the cells lie inside the usable
  space, the number of cells is at most \<^verbatim>\<open>MX_CELL\<close>, and \<^verbatim>\<open>btreeParseCell\<close> accepts every cell and finds
  the size that the cell was inserted with.
\<close>

theorem page_type:
  assumes "valid_bt b" "payload_limits b = b" "length (aData p) = pageSize b" "hdrOffset p \<le> 100" "flags \<in> {2, 10, 5, 13}"
    "length tmp = pageSize b" "zeroPage b p flags = Some p0" "iterate (cells_step b p0) [] ops = Some cs"
    "iterate (page_step b tmp) p0 ops = Some q"
  shows "wf_page b q \<and> page_typed b q \<and> nCell q \<le> MX_CELL b \<and> cellOffset q + 2 * nCell q \<le> usableSize b \<and>
    (\<forall>i < nCell q. \<exists>a info. findCell q i = Some a \<and> cellOffset q + 2 * nCell q \<le> a \<and> btreeParseCell b q i = Some info \<and>
       ci_nSize info = length (cs ! i) \<and> a + ci_nSize info \<le> usableSize b)"
proof (intro conjI allI impI)
  have rel: "page_rel b p0 q cs" "page_typed b p0" using page_from_zero [OF assms(1-8)] assms(9) by auto
  then have R: "page_rep b q cs" by (simp add: page_rel_def)
  show "wf_page b q" by (rule page_repD(1) [OF R])
  show "page_typed b q" by (rule page_rel_typed [OF rel])
  show "nCell q \<le> MX_CELL b" using page_mx(1) [OF R] page_repD(2) [OF R] by simp
  show "cellOffset q + 2 * nCell q \<le> usableSize b" using page_repD(2,5) [OF R] by linarith
  show "\<exists>a info. findCell q i = Some a \<and> cellOffset q + 2 * nCell q \<le> a \<and> btreeParseCell b q i = Some info \<and>
       ci_nSize info = length (cs ! i) \<and> a + ci_nSize info \<le> usableSize b" if "i < nCell q" for i
    using page_cell_type [OF R that] .
qed

theorem page_type_witness: "\<exists>q. iterate (page_step bt512 (replicate 512 7)) leaf512 ops512 = Some q \<and> wf_page bt512 q \<and>
    (\<exists>info. btreeParseCell bt512 q 0 = Some info \<and> ci_nSize info = 4)"
proof -
  obtain q where q: "iterate (page_step bt512 (replicate 512 7)) leaf512 ops512 = Some q" "page_rel bt512 leaf512 q [cell_a]"
    using page512 by blast
  have pre: "length (aData raw512) = pageSize bt512" "hdrOffset raw512 \<le> 100" "(13 :: nat) \<in> {2, 10, 5, 13}"
    "length (replicate 512 7 :: u8 list) = pageSize bt512" by (simp_all add: raw512_ok valid_bt512)
  note t = page_type [OF valid_bt512(1,2) pre leaf512_ok(1) run512 q(1)]
  have "nCell q = 1" using q(2) page_repD(2) [of bt512 q "[cell_a]"] by (simp add: page_rel_def)
  then have "\<exists>info. btreeParseCell bt512 q 0 = Some info \<and> ci_nSize info = 4" using t lens512 by auto
  then show ?thesis using q(1) t by blast
qed

text \<open>
  Property \<^bold>\<open>C22\<close>: what \<^verbatim>\<open>allocateSpace\<close> hands out is free. On a page that represents a list of cells, with
  room for \<open>n\<close> bytes and a pointer, it succeeds, whether it takes a freeblock, the gap, or has to
  defragment first; the bytes lie behind the grown pointer array and inside the usable space, no
  cell overlaps them, and every cell is still reached through its pointer, byte for byte.
\<close>

theorem allocate_free_bytes:
  assumes "page_rep b p cs" "4 \<le> n" "n + 2 \<le> nFree p" "length tmp = pageSize b"
  shows "\<exists>p' idx. allocateSpace b p tmp n = Some (SQLITE_OK, p', idx) \<and> cellOffset p + 2 * (length cs + 1) \<le> idx \<and>
    idx + n \<le> usableSize b \<and>
    (\<forall>i < length cs. \<exists>a. findCell p' i = Some a \<and> take (length (cs ! i)) (drop a (aData p')) = cs ! i \<and>
       {a..<a + length (cs ! i)} \<inter> {idx..<idx + n} = {})"
proof -
  note W = page_repD(1) [OF assms(1)]
  obtain d idx os t fb where A: "allocateSpace b p tmp n = Some (SQLITE_OK, p\<lparr>aData := d\<rparr>, idx)"
    "img b p d cs {idx..<idx + n} (cellOffset p + 2 * length cs + 2) os t fb"
    using allocateSpace_ok [OF assms] by blast
  have "idx \<in> {idx..<idx + n}" "idx + n - 1 \<in> {idx..<idx + n}" using assms(2) by auto
  then have "idx \<in> {t..<usableSize b}" "idx + n - 1 \<in> {t..<usableSize b}" using imgD(9) [OF A(2)] by blast+
  then have "cellOffset p + 2 * (length cs + 1) \<le> idx" "idx + n \<le> usableSize b" using imgD(5) [OF A(2)] assms(2) by auto
  then show ?thesis using A(1) image_cell [OF W A(2) page_repD(4) [OF assms(1)]] by fastforce
qed

theorem allocate_free_bytes_witness: "\<exists>p' idx. allocateSpace bt512 leaf512 (replicate 512 7) 10 = Some (SQLITE_OK, p', idx) \<and> 10 \<le> idx"
  using allocate_free_bytes [OF leaf512_ok(2), of 10 "replicate 512 7"] by (auto simp: leaf512_fields valid_bt512)

text \<open>
  Property \<^bold>\<open>C37\<close>: a cell that does not fit is not lost. \<^verbatim>\<open>insertCell\<close> leaves the image alone and keeps the
  cell beside the page, and \<^verbatim>\<open>findOverflowCell\<close> then shows the page as if the cell had been inserted.
\<close>

theorem overflow_cell:
  assumes "page_rep b p cs" "i \<le> length cs" "cellSizePtr b p z = Some n" "n \<le> length z" "cell_with_child (take n z) child = Some c"
    "nFree p < n + 2"
  shows "\<exists>p'. insertCell b p tmp i z n child pagerWrite SQLITE_OK = Some (SQLITE_OK, p') \<and> aData p' = aData p \<and> nOverflow p' = 1 \<and>
    (\<forall>j \<le> length cs. \<exists>x. findOverflowCell p' j = Some x \<and> take (length (ins_at i c cs ! j)) x = ins_at i c cs ! j)"
  using insertCell_full [OF assms, of tmp pagerWrite] overflow_found [OF assms(1,2)] by auto

theorem overflow_cell_witness: "\<exists>p'. insertCell bt512 full512 [] 0 cell_c 473 0 SQLITE_OK SQLITE_OK = Some (SQLITE_OK, p') \<and>
    (\<exists>x. findOverflowCell p' 1 = Some x \<and> take 473 x = cell_c)"
proof -
  have c: "cell_with_child (take 473 cell_c) 0 = Some cell_c" by (simp add: cell_with_child_def cell_c_ok)
  have "nFree full512 < 473 + 2" using full512_ok(2) by simp
  from overflow_cell [OF full512_ok(1) _ full512_ok(3) _ c this, of 0 "[]" SQLITE_OK] show ?thesis
    using cell_c_ok by (auto simp: ins_at_def)
qed

text \<open>
  Property \<^bold>\<open>C38\<close>: the two ways to measure a cell agree. \<^verbatim>\<open>cellSizePtr\<close>, which only skips over the header,
  returns the \<^verbatim>\<open>nSize\<close> that \<^verbatim>\<open>btreeParseCellPtr\<close> computes, for every content of the buffer, malformed
  cells included; the size is at least four and leaves at least nine bytes of the usable space.
\<close>

theorem cellSize_equiv:
  assumes "wf_page b p"
  shows "cellSizePtr b p z = map_option ci_nSize (btreeParseCellPtr b p z) \<and>
    cellSize b p i = map_option ci_nSize (btreeParseCell b p i) \<and>
    (\<forall>info. btreeParseCellPtr b p z = Some info \<longrightarrow> 4 \<le> ci_nSize info \<and> ci_nSize info + 9 \<le> usableSize b)"
proof (intro conjI allI impI)
  show e: "cellSizePtr b p z = map_option ci_nSize (btreeParseCellPtr b p z)" for z by (rule cellSize_parse [OF assms])
  show "cellSize b p i = map_option ci_nSize (btreeParseCell b p i)"
    by (cases "findCell p i") (simp_all add: cellSize_def btreeParseCell_def e)
  fix info assume "btreeParseCellPtr b p z = Some info"
  then show "4 \<le> ci_nSize info" "ci_nSize info + 9 \<le> usableSize b"
    using cellSizePtr_local(2,3) [OF assms, of z "ci_nSize info" z] e [of z] by simp_all
qed

theorem cellSize_equiv_witness: "map_option ci_nSize (btreeParseCellPtr bt512 leaf512 cell_b) = Some 5"
  using cellSize_equiv [OF page_repD(1) [OF leaf512_ok(2)], of cell_b] cells512 by simp

text \<open>
  Property \<^bold>\<open>C39\<close>: \<^verbatim>\<open>btreeInitPage\<close> does not notice a page whose content area is said to begin inside the
  cell pointer array. It reports success, and the difference stored in the 16 bits of \<^verbatim>\<open>nFree\<close> wraps
  around: with pages of at most 32768 bytes the page then claims more free space than it has bytes.
\<close>

theorem init_nFree_wraps:
  assumes "valid_bt b" "length (aData p) = pageSize b" "hdrOffset p \<le> 100" "\<not> isInit p"
    and "unat (aData p ! hdrOffset p) = flags" "flags \<in> {2, 10, 5, 13}" "get2byte (aData p) (hdrOffset p + 1) = Some 0"
    and "get2byte (aData p) (hdrOffset p + 3) = Some n" "n \<le> MX_CELL b" "get2byte (aData p) (hdrOffset p + 5) = Some ctop" "0 < ctop"
    and "off = hdrOffset p + (if flags \<in> {10, 13} then 8 else 12)" "aData p ! (hdrOffset p + 7) = frag" "unat frag + ctop < off + 2 * n" "off + 2 * n \<le> usableSize b"
  shows "\<exists>q. btreeInitPage b p = Some (SQLITE_OK, q) \<and> nFree q + (off + 2 * n) = 65536 + (unat frag + ctop) \<and>
    (pageSize b \<le> 32768 \<longrightarrow> usableSize b < nFree q)"
proof -
  let ?d = "aData p" and ?hdr = "hdrOffset p"
  note v = valid_bt_bounds [OF assms(1)]
  define L where "L = (if flags \<in> {10, 13} then 1 else 0 :: nat)"
  obtain p1 where D: "decodeFlags b p flags = (SQLITE_OK, p1)" "leaf p1 = L" "hdrOffset p1 = ?hdr"
    using decodeFlags_cases [OF assms(6), of b p] unfolding L_def by simp
  have off: "?hdr + 12 - 4 * L = off" "off \<le> 112" using assms(3,12) by (auto simp: L_def)
  have "get2byteNotZero ?d (?hdr + 5) = Some ctop"
  proof -
    have "?hdr + 5 + 1 < length ?d" using assms(2,3) v by simp
    then show ?thesis using assms(10,11) by (simp add: get2byteNotZero_g2 get2byte_g2)
  qed
  moreover have "rd ?d ?hdr = Some (?d ! ?hdr)" "rd ?d (?hdr + 7) = Some frag" using assms(2,3,13) v by (simp_all add: rd_def)
  moreover have "init_free ?d (usableSize b) (off + 2 * n) 0 x = Some (Some x)" for x by (subst init_free.simps) simp
  moreover have "\<not> usableSize b < unat frag + ctop" using assms(14,15) by linarith
  ultimately obtain q where q: "btreeInitPage b p = Some (SQLITE_OK, q)"
    "nFree q = nat ((int (unat frag + ctop) - int (off + 2 * n)) mod 65536)"
    using assms(4,5,7,8,9) D off(1) v by (simp add: btreeInitPage_def Let_def)
  define k where "k = off + 2 * n - (unat frag + ctop)"
  have k: "off + 2 * n = unat frag + ctop + k" "0 < k" "k < 65536" using assms(11,14,15) v by (auto simp: k_def)
  have "nFree q + k = 65536"
  proof -
    have "(int (unat frag + ctop) - int (off + 2 * n)) mod 65536 = (- int k) mod 65536" unfolding k(1) by simp
    also have "\<dots> = 65536 - int k" using k(2,3) by (simp add: zmod_zminus1_eq_if)
    finally show ?thesis using q(2) k(2,3) by simp
  qed
  moreover have "usableSize b < nFree q" if "pageSize b \<le> 32768"
    using that calculation k(1) assms(11,15) v by linarith
  ultimately show ?thesis using q(1) k(1) by auto
qed

theorem init_nFree_wraps_witness: "\<exists>q. btreeInitPage bt512 bad512 = Some (SQLITE_OK, q) \<and> 512 < nFree q"
proof -
  have b: "length (aData bad512) = 512" "hdrOffset bad512 = 0" "\<not> isInit bad512" "aData bad512 ! 0 = 13" "aData bad512 ! 7 = 0"
    "get2byte (aData bad512) 1 = Some 0" "get2byte (aData bad512) 3 = Some 2" "get2byte (aData bad512) 5 = Some 9"
    by (simp_all add: bad512_def raw512_def get2byte_def rd_def)
  have "2 \<le> MX_CELL bt512" by (simp add: MX_CELL_def valid_bt512)
  then show ?thesis using init_nFree_wraps [OF valid_bt512(1), of bad512 13 2 9 8 0] b
    by (auto simp: valid_bt512)
qed

end
