(* ===== verification/BtFileLaws.thy ===== *)
theory BtFileLaws
  imports BtReach BtLaws
begin

text \<open>The properties of the database file: its header, its free pages and its size.\<close>

section \<open>A file with pages of 512 bytes\<close>

definition pager_ok :: Pager where
  "pager_ok = \<lparr>pg_rc = (\<lambda>_. SQLITE_OK), pg_cached = (\<lambda>_. False), pg_shared = (\<lambda>_. False)\<rparr>"

definition empty512 :: Db where
  "empty512 = \<lparr>db_page = (\<lambda>_. replicate 512 0), db_nPage = 0, db_calls = 0\<rparr>"

definition env512 :: OpenEnv where
  "env512 = \<lparr>oe_lock = SQLITE_OK, oe_get = SQLITE_OK, oe_nPageFile = 1, oe_openWal = (SQLITE_OK, False),
     oe_setPagesize = (\<lambda>n. (SQLITE_OK, n)), oe_recovery = False, oe_noWal = False\<rparr>"

definition st1024 :: BtState where
  "st1024 = \<lparr>st_bt = bt512\<lparr>pageSize := 1024, usableSize := 1024\<rparr>, st_page1 = False, st_nPage = 0, st_readOnly = False,
     st_autoVacuum = False, st_incrVacuum = False\<rparr>"

lemma pager_ok: "io_ok pager_ok"
  by (simp add: io_ok_def pager_ok_def)

lemma reserve512: "pageSize bt512 \<le> usableSize bt512 + 255"
  by (simp add: valid_bt512)

lemma new512: "\<exists>db. db_reach bt512 db {} \<and> db_nPage db = 1 \<and> free_list bt512 db []"
proof -
  let ?p = "raw512\<lparr>hdrOffset := 100\<rparr>"
  have "db_nPage empty512 = 0" "\<And>p. length (db_page empty512 p) = pageSize bt512" "hdrOffset ?p = 100"
    by (simp_all add: empty512_def valid_bt512)
  note e = this
  obtain q db where n: "newDatabase pager_ok bt512 False False ?p empty512 = Some (SQLITE_OK, q, db)" "db_nPage db = 1" "free_list bt512 db []"
    using newDatabase_ok [OF valid_bt512(1,2) reserve512 e, of pager_ok] pager_ok by auto
  have "db_reach bt512 db {}" by (rule db_reach.new [OF e(1) _ e(3) n(1)]) (use e(2) in blast)
  then show ?thesis using n by blast
qed

lemma used512: "\<exists>db. db_reach bt512 db {2} \<and> db_nPage db = 2"
proof -
  obtain db where db: "db_reach bt512 db {}" "db_nPage db = 1" "free_list bt512 db []" using new512 by blast
  then obtain db' p where a: "allocateBtreePage pager_ok bt512 db 0 = Some (SQLITE_OK, db', p)" "allocated bt512 db [] db' p"
    using allocateBtreePage_ok [OF db(3), of pager_ok 0] pager_ok by auto
  have "p = 2" "db_nPage db' = 2"
    using a(2) db(2) by (auto simp: allocated_def next_page_def PENDING_BYTE_PAGE_def valid_bt512)
  moreover have "db_reach bt512 db' (insert p {})" by (rule db_reach.take [OF db(1) _ a(1)]) (use db(2) in simp)
  ultimately show ?thesis by auto
qed

lemma committed512:
  "\<exists>db. db_reach bt512 db {} \<and> db_nPage db = 1 \<and> get4 (db_page db 1) 24 = Some 8 \<and> get4 (db_page db 1) 88 = Some 5"
proof -
  obtain db where db: "db_reach bt512 db {}" "db_nPage db = 1" "free_list bt512 db []" using new512 by blast
  have l: "length (db_page db 1) = 512" using db(3) by (simp add: free_list_def valid_bt512)
  let ?d = "P4 (P4 (P4 (db_page db 1) 24 8) 92 8) 96 SQLITE_VERSION_NUMBER"
  have w: "pager_write_changecounter [0, 0, 0, 7] (db_page db 1) = Some ?d"
    using l by (simp add: pager_write_changecounter_def sqlite3Get4byte_def rd_def put4_P4)
  let ?db = "set_page db 1 ?d" and ?st = "st1024\<lparr>st_page1 := True\<rparr>"
  have r: "db_reach bt512 ?db {}" by (rule db_reach.commit [OF db(1) w])
  have p1: "db_page ?db 1 = ?d" and ld: "length ?d = 512" using l by (simp_all add: set_page_def)
  obtain n where n: "pager_call pager_ok ?db = (SQLITE_OK, ?db\<lparr>db_calls := n\<rparr>)"
    by (rule pager_call_cases [of pager_ok ?db]) (use pager_ok in auto)
  let ?db' = "set_page (?db\<lparr>db_calls := n\<rparr>) 1 (P4 ?d 88 5)"
  have "sqlite3BtreeUpdateMeta pager_ok ?st 13 5 ?db = Some (SQLITE_OK, ?st, ?db')"
    using n p1 ld by (simp add: sqlite3BtreeUpdateMeta_def put4_P4 BTREE_INCR_VACUUM_def)
  then have "db_reach bt512 ?db' {}" by (intro db_reach.meta [OF r]) (simp_all add: st1024_def)
  moreover have "get4 (db_page ?db' 1) 24 = Some 8" "get4 (db_page ?db' 1) 88 = Some 5"
    using ld l by (simp_all add: set_page_def get4_P4 get4_P4_other)
  moreover have "db_nPage ?db' = 1" using db(2) by (simp add: set_page_def)
  ultimately show ?thesis by blast
qed

section \<open>Properties\<close>

text \<open>
  Property \<^bold>\<open>C9\<close>: no page is lost and none is used twice. After every sequence of allocations,
  releases and writes, with whatever choices and cache contents of the pager, the pages from 2 to the
  size of the file, without the page of the lock bytes, are those in use and those on the list of free
  pages; no page is both, and none is on the list twice. The count in the header is the length of the
  list.
\<close>

theorem page_partition:
  assumes "valid_bt b" "payload_limits b = b" "pageSize b \<le> usableSize b + 255" "db_reach b db U"
  shows "\<exists>ts a. get4 (db_page db 1) 32 = Some a \<and> trunks (max_leaves b) (db_page db) a ts \<and>
    get4 (db_page db 1) 36 = Some (length (free_pages ts)) \<and> distinct (free_pages ts) \<and> U \<inter> set (free_pages ts) = {} \<and>
    U \<union> set (free_pages ts) = {2..db_nPage db} - {PENDING_BYTE_PAGE b} \<and> get4 (db_page db 1) 28 = Some (db_nPage db)"
  using reach_partition [OF assms] unfolding partition_of_def free_list_def by blast

theorem page_partition_witness: "\<exists>db. db_reach bt512 db {2} \<and> get4 (db_page db 1) 28 = Some 2"
  using page_partition [OF valid_bt512(1,2) reserve512] used512 by metis

text \<open>
  Property \<^bold>\<open>C18\<close>: \<^verbatim>\<open>allocateBtreePage\<close> never hands out a page that is in use. In every state of such a
  history it returns, and if it succeeds the page is new to the caller and a legal page number, the
  pages in use keep their contents, and the file has grown only if no page was free. It fails only
  when the pager does.
\<close>

theorem page_allocation:
  assumes "valid_bt b" "payload_limits b = b" "pageSize b \<le> usableSize b + 255" "db_reach b db U" "db_nPage db + 2 < 2 ^ 32"
  shows "\<exists>rc db' p. allocateBtreePage pg b db nearby = Some (rc, db', p) \<and> (io_ok pg \<longrightarrow> rc = SQLITE_OK) \<and>
    (rc = SQLITE_OK \<longrightarrow> p \<notin> U \<and> 2 \<le> p \<and> p \<le> db_nPage db' \<and> p \<noteq> PENDING_BYTE_PAGE b \<and> (\<forall>q \<in> U. db_page db' q = db_page db q) \<and>
      (db_nPage db' \<noteq> db_nPage db \<longrightarrow> U = {2..db_nPage db} - {PENDING_BYTE_PAGE b}))"
proof -
  obtain ts where P: "partition_of b db U ts" using reach_partition [OF assms(1-4)] by blast
  then have F: "free_list b db ts" by (simp add: partition_of_def)
  show ?thesis using allocateBtreePage_ok [OF F assms(5), of pg nearby] take_partition [OF P] by blast
qed

theorem page_allocation_witness: "\<exists>db db' p. db_reach bt512 db {2} \<and> allocateBtreePage pager_ok bt512 db 0 = Some (SQLITE_OK, db', p) \<and>
    p \<noteq> 2 \<and> db_page db' 2 = db_page db 2"
proof -
  obtain db where db: "db_reach bt512 db {2}" "db_nPage db = 2" using used512 by blast
  have "db_nPage db + 2 < 2 ^ 32" using db(2) by simp
  from page_allocation [OF valid_bt512(1,2) reserve512 db(1) this, of pager_ok 0] pager_ok
  obtain db' p where "allocateBtreePage pager_ok bt512 db 0 = Some (SQLITE_OK, db', p)" "p \<notin> {2}" "db_page db' 2 = db_page db 2" by auto
  then show ?thesis using db(1) by auto
qed

text \<open>
  Property \<^bold>\<open>C17\<close>: a file can be opened again. For every file that such a history leaves, with whatever
  change counter the commits have written and whatever meta values, a connection that
  knows neither its page size nor its number of pages finds both in the header, also if the file on the
  disk is longer than the database: after at most two rounds of \<^verbatim>\<open>lockBtree\<close>, the parameters of the file
  are those it was created with, the size is right and there is no auto-vacuum.
\<close>

theorem file_reopen:
  assumes "valid_bt b" "payload_limits b = b" "pageSize b \<le> usableSize b + 255" "db_reach b db U" "db_nPage db < 2 ^ 31"
    "open_ok env b (db_nPage db)" "\<forall>n. take 100 (page1 n) = take 100 (db_page db 1)" "\<not> st_page1 st" "secure_delete (st_bt st) = secure_delete b"
  shows "\<exists>st'. lock_loop 2 env page1 st = Some (SQLITE_OK, st') \<and> st_page1 st' \<and> st_bt st' = b \<and> st_nPage st' = db_nPage db \<and>
    \<not> st_autoVacuum st' \<and> \<not> st_incrVacuum st'"
proof -
  obtain ts where P: "partition_of b db U ts" using reach_partition [OF assms(1-4)] by blast
  then have F: "free_list b db ts" and H: "same_header b (db_page db 1)" by (simp_all add: partition_of_def)
  have l: "length (db_page db 1) = pageSize b" "512 \<le> pageSize b" "0 < db_nPage db" "get4 (db_page db 1) 28 = Some (db_nPage db)"
    using F valid_bt_bounds(3) by (auto simp: free_list_def)
  have sh: "shows_page1 b (db_nPage db) (page1 n)" for n
  proof -
    have t: "take 100 (page1 n) = take 100 (db_page db 1)" using assms(7) by blast
    then have "length (take 100 (page1 n)) = 100" using l(1,2) by simp
    then have n: "100 \<le> length (page1 n)" by simp
    have "page1 n ! i = db_page db 1 ! i" if "i < 100" for i using t that by (metis nth_take)
    then have "same_header b (page1 n)" using same_header_cong [OF H n] l(1,2) by simp
    moreover have "take 4 (drop 28 (page1 n)) = take 4 (drop 28 (db_page db 1))"
      using arg_cong [OF t, of "\<lambda>x. take 4 (drop 28 x)"] by (simp add: drop_take)
    ultimately show ?thesis using l n get4_prefix [of 28 "page1 n"] get4_prefix [of 28 "db_page db 1"]
      by (simp add: shows_page1_def)
  qed
  have ok: "lockBtree env page1 s = Some (SQLITE_OK,
    if pageSize (st_bt s) = pageSize b
    then s\<lparr>st_bt := b, st_page1 := True, st_nPage := db_nPage db, st_autoVacuum := False, st_incrVacuum := False\<rparr>
    else s\<lparr>st_bt := (st_bt s)\<lparr>usableSize := usableSize b, pageSize := pageSize b\<rparr>\<rparr>)"
    if "\<not> st_page1 s" "secure_delete (st_bt s) = secure_delete b" for s
    by (rule lockBtree_ok [OF assms(1-3,6) l(3) assms(5) sh that])
  show ?thesis
  proof (cases "pageSize (st_bt st) = pageSize b")
    case True
    then show ?thesis using ok [OF assms(8,9)] assms(8) by (simp add: numeral_2_eq_2)
  next
    case False
    let ?st = "st\<lparr>st_bt := (st_bt st)\<lparr>usableSize := usableSize b, pageSize := pageSize b\<rparr>\<rparr>"
    have "\<not> st_page1 ?st" "secure_delete (st_bt ?st) = secure_delete b" using assms(8,9) by simp_all
    from ok [OF this] ok [OF assms(8,9)] False assms(8) show ?thesis by (simp add: numeral_2_eq_2)
  qed
qed

text \<open>The file after a commit and the update of two meta values; on the disk it has nine pages.\<close>

theorem file_reopen_witness: "\<exists>db st. db_reach bt512 db {} \<and> get4 (db_page db 1) 24 = Some 8 \<and> get4 (db_page db 1) 88 = Some 5 \<and>
    lock_loop 2 (env512\<lparr>oe_nPageFile := 9\<rparr>) (\<lambda>_. db_page db 1) st1024 = Some (SQLITE_OK, st) \<and>
    pageSize (st_bt st) = 512 \<and> st_nPage st = 1"
proof -
  obtain db where db: "db_reach bt512 db {}" "db_nPage db = 1" "get4 (db_page db 1) 24 = Some 8" "get4 (db_page db 1) 88 = Some 5"
    using committed512 by blast
  let ?env = "env512\<lparr>oe_nPageFile := 9\<rparr>"
  have pre: "db_nPage db < 2 ^ 31" "open_ok ?env bt512 (db_nPage db)" "\<forall>n. take 100 (db_page db 1) = take 100 (db_page db 1)"
    "\<not> st_page1 st1024" "secure_delete (st_bt st1024) = secure_delete bt512"
    using db(2) by (simp_all add: open_ok_def env512_def st1024_def)
  from file_reopen [OF valid_bt512(1,2) reserve512 db(1) pre] show ?thesis using db valid_bt512 by metis
qed

text \<open>
  Property \<^bold>\<open>C40\<close>: \<^verbatim>\<open>lockBtree\<close> accepts a file that is not a database. The number of pages in the header is
  read into an \<^verbatim>\<open>int\<close>, and the checks are made only if it is positive: a header with the top bit of this
  field set, and equal counters, passes without a look at the magic string, the page size or the
  size of the file.
\<close>

theorem lockBtree_skips_checks:
  assumes "valid_bt (st_bt st)" "payload_limits (st_bt st) = st_bt st" "\<not> st_page1 st" "oe_lock env = SQLITE_OK" "oe_get env = SQLITE_OK"
    and "d = page1 (pageSize (st_bt st))" "get4 d 28 = Some n" "2 ^ 31 \<le> n" "get_bytes d 24 4 = Some v" "get_bytes d 92 4 = Some v"
  shows "lockBtree env page1 st = Some (SQLITE_OK, st\<lparr>st_page1 := True, st_nPage := n\<rparr>)"
proof -
  obtain w where w: "sqlite3Get4byte (drop 28 d) = Some w" "unat w = n" using assms(7) by (auto simp: get4_def)
  have s: "sint w < 0" "sint w mod 2 ^ 32 = int n"
  proof -
    have "uint w = sint w mod 2 ^ 32" using uint_sint [of w] by (simp add: take_bit_eq_mod)
    then show m: "sint w mod 2 ^ 32 = int n" using w(2) by (simp add: uint_nat)
    have "sint w < 2 ^ 31" using sint_lt [of w] by simp
    then show "sint w < 0" using m assms(8) by (cases "0 \<le> sint w") auto
  qed
  have "w \<noteq> 0" using w(2) assms(8) by auto
  moreover have "bt_maxLeaf (st_bt st) + 23 \<le> pageSize (st_bt st) - 8"
    using limits(4) [OF assms(1,2)] valid_bt_bounds [OF assms(1)] by linarith
  ultimately show ?thesis using assms s w(1) by (simp add: lockBtree_def assert_that_def)
qed

theorem lockBtree_skips_checks_witness:
  "lockBtree env512 (\<lambda>_. replicate 28 0 @ 128 # replicate 483 0) (st1024\<lparr>st_bt := bt512\<rparr>) =
    Some (SQLITE_OK, st1024\<lparr>st_bt := bt512, st_page1 := True, st_nPage := 2147483648\<rparr>)"
proof -
  let ?d = "replicate 28 0 @ 128 # replicate 483 0 :: u8 list"
  have "get4 ?d 28 = Some 2147483648" by (simp add: get4_def sqlite3Get4byte_def rd_def)
  moreover have "get_bytes ?d 24 4 = Some (replicate 4 0)" "get_bytes ?d 92 4 = Some (replicate 4 0)" by (simp_all add: get_bytes_def)
  moreover have "oe_lock env512 = SQLITE_OK" "oe_get env512 = SQLITE_OK" by (simp_all add: env512_def)
  ultimately show ?thesis
    using lockBtree_skips_checks [of "st1024\<lparr>st_bt := bt512\<rparr>" env512 ?d "\<lambda>_. ?d" 2147483648 "replicate 4 0"] valid_bt512
    by (simp add: st1024_def)
qed

end
