(* ===== verification/Spec2Isabelle.thy ===== *)
theory Spec2Isabelle
  imports Varint UtilInt UtilStr Bitvec RowSet HashMap Complete Tokenize MemConv MemOrder LockLive Like BtFileLaws
begin

text \<open>
  A verification development for SQLite 3.7.14.1. All file names below are those of
  \<^verbatim>\<open>src/sqlite-version-3.7.14.1/src\<close>.

  \<^bold>\<open>The program.\<close> A statement goes through the tokenizer and the parser to the code generator; the
  virtual machine executes the code on registers (value cells), builds and compares records, and keeps
  them in b-trees. A b-tree is made of pages of the database file; the pager reads and writes them under
  the locks of the operating system layer. Below all of these lie the containers and the number and
  text routines. The development models the parts that have a contract of their own: the routines at
  the bottom, the value cells and records in the middle, and of the storage layers the page, the list of
  free pages, the header of the file, and the locks.

  \<^bold>\<open>Conventions.\<close> \<open>Sqlite_Prelude\<close> names the machine integers (\<open>u8\<close>, \<open>u16\<close>, \<open>u32\<close>, \<open>u64\<close> are words,
  \<open>i64\<close> is \<open>int\<close> with the wrap-around written out), the result codes, and the checked access to buffers
  \<open>rd\<close> and \<open>wr\<close>. A definition returns \<^const>\<open>None\<close> where the code would read or write outside an object,
  use freed memory, fail an assertion or run out of fuel; so a theorem that gives \<^const>\<open>Some\<close> states memory
  safety, and termination. Errors that the code reports are values. A pointer into a buffer
  is the list of the bytes from there on, or an offset.

  \<^bold>\<open>Theories.\<close>
  \<^item> \<open>Varint\<close>, \<open>UtilInt\<close>, \<open>UtilStr\<close>, \<open>Ctype\<close> (\<^verbatim>\<open>util.c\<close>, \<^verbatim>\<open>global.c\<close>, and \<^verbatim>\<open>quote\<close> and \<^verbatim>\<open>hex\<close> of \<^verbatim>\<open>func.c\<close>):
    the codec of varints with its macros, checked 64-bit arithmetic, number parsing in three encodings,
    quoting, hexadecimal texts, the character tables. Round trips, equivalence with the format, exact results.
  \<^item> \<open>Bitvec\<close> on \<open>LinProbe\<close> (\<^verbatim>\<open>bitvec.c\<close>), \<open>RowSet\<close> on \<open>BucketSort\<close> (\<^verbatim>\<open>rowset.c\<close>), \<open>HashTable\<close> and \<open>HashMap\<close>
    on \<open>DList\<close> (\<^verbatim>\<open>hash.c\<close>): the containers, with allocation failures and, for the hash table, the
    pointers. Each history of operations refines a set, a set of batches, or a map.
  \<^item> \<open>Complete\<close> (\<^verbatim>\<open>complete.c\<close>) and \<open>Tokenize\<close> (\<^verbatim>\<open>tokenize.c\<close>): the state machine against a grammar of
    statements; the bounds of tokens and the end of the parser loop.
  \<^item> \<open>Utf\<close> (\<^verbatim>\<open>utf.c\<close>) and \<open>Like\<close> (\<^verbatim>\<open>func.c\<close>): the readers and writers of characters; \<^verbatim>\<open>patternCompare\<close> against a
    declarative meaning of patterns.
  \<^item> \<open>VdbeMem\<close>, \<open>MemInv\<close>, \<open>MemText\<close>, \<open>MemConv\<close> (\<^verbatim>\<open>vdbemem.c\<close>, \<^verbatim>\<open>utf.c\<close>): value cells, their invariant under
    all operations, and the change of the encoding of a text.
  \<^item> \<open>Serial\<close>, \<open>VdbeRecord\<close> (\<^verbatim>\<open>vdbeaux.c\<close>, \<^verbatim>\<open>OP_MakeRecord\<close> of \<^verbatim>\<open>vdbe.c\<close>), \<open>MemCmp\<close>, \<open>MemOrder\<close>: records and the
    order of values and of records.
  \<^item> \<open>BtPage\<close> (\<^verbatim>\<open>btree.c\<close>) holds the definitions of one page. \<open>BtCells\<close>, \<open>BtSpace\<close>, \<open>BtRelease\<close>, \<open>BtFree\<close>,
    \<open>BtDefrag\<close>, \<open>BtAlloc\<close>, \<open>BtCell\<close>, \<open>BtDrop\<close>, \<open>BtInsert\<close>, \<open>BtOps\<close>, \<open>BtInit\<close> and \<open>BtHist\<close> show that its image
    represents a list of cells together with its free space, \<open>BtLaws\<close> states the properties.
  \<^item> \<open>BtPages\<close> holds the definitions of the allocation and release of pages, \<open>BtHeader\<close> those of the header of the
    file (with the change counter of \<^verbatim>\<open>pager.c\<close>). \<open>BtFreeList\<close>, \<open>BtAllocPage\<close>, \<open>BtFreePage\<close>, \<open>BtHeaderOk\<close>
    and \<open>BtReach\<close> show the invariant of all histories of a file, \<open>BtFileLaws\<close> states the properties.
  \<^item> \<open>UnixLock\<close> (\<^verbatim>\<open>os_unix.c\<close>) has the locking routines as trees of system calls; \<open>LockInv\<close>, \<open>LockSafe\<close>,
    \<open>LockMutex\<close> and \<open>LockLive\<close> show their invariant, mutual exclusion over all interleavings, and progress.

  \<^bold>\<open>Interfaces.\<close> The locales of \<open>Refines\<close> (histories that refine a contract, or stay safe), \<open>lin_probe\<close>,
  \<open>bounded_set\<close>, \<open>bucket_merge\<close> and \<open>simulation\<close> state what a component owes to its clients. Each is interpreted on
  the definitions of the code, in the theory that provides them.

  \<^bold>\<open>Bounds and fuel.\<close>
  \<^item> A \<^verbatim>\<open>Bitvec\<close> nests at most ten deep (\<open>bv_fuel\<close>): every level divides its size by the number of
    sub-bitmaps, and sizes are below \<open>2 ^ 32\<close>. A search for a slot of its hash form has the number of slots.
  \<^item> The sort of \<^verbatim>\<open>rowset.c\<close> has the 40 buckets of the source; lists are shorter than \<open>2 ^ 40\<close>.
  \<^item> The loops of \<^verbatim>\<open>hash.c\<close> over the elements run with one round more than there are elements.
  \<^item> The loop of \<^verbatim>\<open>sqlite3RunParser\<close> has the length of the text as its fuel: every token has at least one byte.
  \<^item> The loop of \<^verbatim>\<open>freeSpace\<close> over the freeblocks has the usable size of the page as its fuel.
  \<^item> The loop around \<^verbatim>\<open>lockBtree\<close> has fuel for two rounds: the first may only find the page size.
  Everywhere else the recursion is structural or has a proved measure.

  \<^bold>\<open>Parameters.\<close> What the sources call but do not contain, or what the outside decides, is an argument of the
  definitions: the outcome of every allocation and the contents of fresh memory; the results of \<^verbatim>\<open>fcntl\<close> and
  \<^verbatim>\<open>close\<close> (\<open>posix\<close>, with the documented rules of advisory locks as a hypothesis and a log of locks as an
  instance); the generated parser and the keyword table; collating sequences; the calls of the pager
  (\<open>Pager\<close> and \<open>OpenEnv\<close>, each of which may fail), and the last file version that the pager has read.

  \<^bold>\<open>Deviations that theorems show.\<close> Multiplication misses an overflow of the low halves
  (\<open>UtilInt\<close>); an exclamation mark at the end of a text is read over (\<open>Tokenize\<close>);
  a failed conversion can leave a text without a terminator (\<open>MemConv\<close>); the order of numbers
  is not transitive beyond \<open>2 ^ 53\<close> (\<open>MemOrder\<close>); a read-only handle can drop the
  lock of its process (\<open>LockMutex\<close>); the free bytes of a corrupt page wrap around
  (\<open>BtLaws\<close>); a page count with the top bit set hides the header from all checks
  (\<open>BtFileLaws\<close>); a wildcard as the escape character is ignored (\<open>Like\<close>).

  \<^bold>\<open>Not modelled.\<close> The parser, the code generator and the interpreter loop (their contract is the meaning of
  SQL); balancing, cursors, overflow pages, auto-vacuum and the shared cache of \<^verbatim>\<open>btree.c\<close>; journals, the page
  cache and the write-ahead log; the allocators and mutexes; the other locking styles and the input and output
  of \<^verbatim>\<open>os_unix.c\<close>; floating-point formatting, dates and the other functions of \<^verbatim>\<open>func.c\<close>; virtual tables,
  extensions, the shell and the test harness. Of the parts that are modelled, \<^verbatim>\<open>unixOpen\<close> is one step
  that does not fail, and \<^verbatim>\<open>newDatabase\<close> leaves out the flag \<^verbatim>\<open>BTS_PAGESIZE_FIXED\<close>.
\<close>

end
